(* ===== verification/Prelude.thy ===== *)
theory Prelude
  imports Main "HOL-Library.Word" "HOL-Library.Code_Target_Nat"
begin

text \<open>
  Shared ground of the development: the machine types of the C sources, the memory oracle
  that stands for the allocator of the storage engine (its code is not part of this
  repository), reads of NUL-terminated strings, and the generic lemmas on lists, words and
  relations that several components use.
\<close>

unbundle bit_operations_syntax

named_theorems regex_wf \<open>well-formedness facts of the compiled pattern\<close>
named_theorems frame \<open>fields an operation leaves alone\<close>

section \<open>Machine types\<close>

type_synonym u8 = "8 word"
type_synonym u16 = "16 word"
type_synonym u32 = "32 word"
type_synonym u64 = "64 word"

text \<open>Bytes the sources name by a character literal.\<close>

abbreviation ch_lparen :: u8 where "ch_lparen \<equiv> 40"
abbreviation ch_rparen :: u8 where "ch_rparen \<equiv> 41"
abbreviation ch_star :: u8 where "ch_star \<equiv> 42"
abbreviation ch_plus :: u8 where "ch_plus \<equiv> 43"
abbreviation ch_comma :: u8 where "ch_comma \<equiv> 44"
abbreviation ch_minus :: u8 where "ch_minus \<equiv> 45"
abbreviation ch_dot :: u8 where "ch_dot \<equiv> 46"
abbreviation ch_0 :: u8 where "ch_0 \<equiv> 48"
abbreviation ch_9 :: u8 where "ch_9 \<equiv> 57"
abbreviation ch_colon :: u8 where "ch_colon \<equiv> 58"
abbreviation ch_quest :: u8 where "ch_quest \<equiv> 63"
abbreviation ch_A :: u8 where "ch_A \<equiv> 65"
abbreviation ch_F :: u8 where "ch_F \<equiv> 70"
abbreviation ch_Z :: u8 where "ch_Z \<equiv> 90"
abbreviation ch_lbracket :: u8 where "ch_lbracket \<equiv> 91"
abbreviation ch_backslash :: u8 where "ch_backslash \<equiv> 92"
abbreviation ch_rbracket :: u8 where "ch_rbracket \<equiv> 93"
abbreviation ch_caret :: u8 where "ch_caret \<equiv> 94"
abbreviation ch_dollar :: u8 where "ch_dollar \<equiv> 36"
abbreviation ch_a :: u8 where "ch_a \<equiv> 97"
abbreviation ch_f :: u8 where "ch_f \<equiv> 102"
abbreviation ch_z :: u8 where "ch_z \<equiv> 122"
abbreviation ch_lbrace :: u8 where "ch_lbrace \<equiv> 123"
abbreviation ch_bar :: u8 where "ch_bar \<equiv> 124"
abbreviation ch_rbrace :: u8 where "ch_rbrace \<equiv> 125"
abbreviation ch_newline :: u8 where "ch_newline \<equiv> 10"

section \<open>The allocator as a parameter\<close>

text \<open>
  \<open>Memory_alloc\<close> and \<open>Memory_realloc\<close> are calls into the storage engine.  All the code
  relies on is whether a request was granted, so the allocator is a parameter: the list of
  its answers to the requests of a run, in order (after the list every request is granted).
  Every finite run of a program against any allocator is the run against one such list.
\<close>

type_synonym arena = "bool list"

definition Memory_alloc :: "arena \<Rightarrow> bool \<times> arena" where
  "Memory_alloc m = (case m of [] \<Rightarrow> (True, []) | b # m' \<Rightarrow> (b, m'))"

text \<open>Several requests in a row, all of them made before any answer is looked at.\<close>

primrec Memory_allocs :: "nat \<Rightarrow> arena \<Rightarrow> bool \<times> arena" where
  "Memory_allocs 0 m = (True, m)"
| "Memory_allocs (Suc n) m =
     (let (g, m1) = Memory_alloc m; (gs, m2) = Memory_allocs n m1 in (g \<and> gs, m2))"

definition generous :: "arena \<Rightarrow> bool" where
  "generous m \<longleftrightarrow> list_all (\<lambda>b. b) m"

lemma Memory_alloc_generous:
  "generous m \<Longrightarrow> Memory_alloc m = (g, m') \<Longrightarrow> g \<and> generous m'"
  by (auto simp: Memory_alloc_def generous_def split: list.splits)

lemma Memory_alloc_granted:
  "Memory_alloc m = (True, m') \<Longrightarrow> generous m \<Longrightarrow> generous m'"
  by (auto dest: Memory_alloc_generous)

lemma Memory_alloc_refused: "Memory_alloc m = (False, m') \<Longrightarrow> \<not> generous m"
  by (auto dest: Memory_alloc_generous)

lemma Memory_allocs_generous:
  "generous m \<Longrightarrow> Memory_allocs n m = (g, m') \<Longrightarrow> g \<and> generous m'"
proof (induction n arbitrary: m g m')
  case 0
  then show ?case by simp
next
  case (Suc n)
  obtain a m1 where a: "Memory_alloc m = (a, m1)" by fastforce
  obtain b m2 where b: "Memory_allocs n m1 = (b, m2)" by fastforce
  have "a \<and> generous m1" using Memory_alloc_generous Suc.prems(1) a by blast
  moreover from this have "b \<and> generous m2" using Suc.IH b by blast
  ultimately show ?case using Suc.prems(2) a b by simp
qed

lemma generous_Nil [simp]: "generous []"
  by (simp add: generous_def)

section \<open>Lists\<close>

lemma fold_invariant:
  assumes "P s" and "\<And>x s. x \<in> set xs \<Longrightarrow> P s \<Longrightarrow> P (f x s)"
  shows "P (fold f xs s)"
  using assms by (induction xs arbitrary: s) auto

lemma take_nth_drop_Suc: "i < length xs \<Longrightarrow> drop i xs = xs ! i # drop (Suc i) xs"
  by (rule Cons_nth_drop_Suc [symmetric])

lemma list_update_in_append:
  "i < length xs \<Longrightarrow> (xs @ ys)[i := v] = xs[i := v] @ ys"
  by (simp add: list_update_append1)

section \<open>Words\<close>

lemma unat_u8_less [simp]: "unat (b :: u8) < 256"
proof -
  have "unat b < 2 ^ LENGTH(8)" by (rule unsigned_less)
  then show ?thesis by simp
qed

lemma u8_eq_iff_unat: "(a :: u8) = b \<longleftrightarrow> unat a = unat b"
  by (simp add: word_unat_eq_iff)

lemma unat_word_of_nat_u8: "n < 256 \<Longrightarrow> unat (word_of_nat n :: u8) = n"
  by (simp add: unat_of_nat take_bit_nat_eq_self)

section \<open>Relations\<close>

lemma relpow_Suc_right: "R ^^ Suc n = R O R ^^ n"
  by (metis relpow.simps(2) relpow_commute)

end
