(* ===== verification/Regex_CharClass.thy ===== *)
theory Regex_CharClass
  imports Prelude
begin

text \<open>
  The byte sets of \<open>src/regex/charclass.c\<close>: a 256-bit bitmap in 32 bytes, with the
  case folding of an insensitive compile applied when bits are set.  The lemmas give every
  operation its meaning on the set of bytes the bitmap holds.
\<close>

definition REGEX_CLASS_BYTES :: nat where
  "REGEX_CLASS_BYTES = 32"

record RegexCharClass =
  bits :: "u8 list"

definition classWf :: "RegexCharClass \<Rightarrow> bool" where
  "classWf cls \<longleftrightarrow> length (bits cls) = REGEX_CLASS_BYTES"

section \<open>Operations\<close>

definition setBit :: "RegexCharClass \<Rightarrow> u8 \<Rightarrow> RegexCharClass" where
  "setBit cls byte =
     (let k = unat (drop_bit 3 byte)
      in cls\<lparr>bits := (bits cls)[k := (bits cls ! k) OR push_bit (unat (byte AND 7)) 1]\<rparr>)"

definition addFoldedByte :: "RegexCharClass \<Rightarrow> u8 \<Rightarrow> bool \<Rightarrow> RegexCharClass" where
  "addFoldedByte cls byte insensitive =
     (let cls1 = setBit cls byte
      in if \<not> insensitive then cls1
         else if 65 \<le> byte \<and> byte \<le> 90 then setBit cls1 (byte + 32)
         else if 97 \<le> byte \<and> byte \<le> 122 then setBit cls1 (byte - 32)
         else cls1)"

definition RegexCharClass_clear :: "RegexCharClass \<Rightarrow> RegexCharClass" where
  "RegexCharClass_clear cls =
     fold (\<lambda>i c. c\<lparr>bits := (bits c)[i := 0]\<rparr>) [0 ..< REGEX_CLASS_BYTES] cls"

definition RegexCharClass_addByte :: "RegexCharClass \<Rightarrow> u8 \<Rightarrow> bool \<Rightarrow> RegexCharClass" where
  "RegexCharClass_addByte cls byte insensitive = addFoldedByte cls byte insensitive"

definition RegexCharClass_addRange ::
    "RegexCharClass \<Rightarrow> u8 \<Rightarrow> u8 \<Rightarrow> bool \<Rightarrow> RegexCharClass" where
  "RegexCharClass_addRange cls lo hi insensitive =
     (if hi < lo then cls
      else fold (\<lambda>c cls. addFoldedByte cls (word_of_nat c) insensitive)
             [unat lo ..< Suc (unat hi)] cls)"

text \<open>
  Letters of the families: \<open>d\<close> 100, \<open>D\<close> 68, \<open>w\<close> 119, \<open>W\<close> 87, \<open>s\<close> 115, \<open>S\<close> 83.
\<close>

definition RegexCharClass_isPredefined :: "u8 \<Rightarrow> bool" where
  "RegexCharClass_isPredefined letter \<longleftrightarrow>
     letter = 100 \<or> letter = 68 \<or> letter = 119 \<or> letter = 87 \<or> letter = 115 \<or> letter = 83"

definition setBits :: "nat list \<Rightarrow> RegexCharClass \<Rightarrow> RegexCharClass" where
  "setBits cs cls = fold (\<lambda>c cls. setBit cls (word_of_nat c)) cs cls"

definition isDigitByte :: "nat \<Rightarrow> bool" where
  "isDigitByte c \<longleftrightarrow> 48 \<le> c \<and> c \<le> 57"

definition isWordByte :: "nat \<Rightarrow> bool" where
  "isWordByte c \<longleftrightarrow> (48 \<le> c \<and> c \<le> 57) \<or> (65 \<le> c \<and> c \<le> 90) \<or> (97 \<le> c \<and> c \<le> 122) \<or> c = 95"

definition isSpaceByte :: "nat \<Rightarrow> bool" where
  "isSpaceByte c \<longleftrightarrow> c = 32 \<or> c = 9 \<or> c = 10 \<or> c = 13 \<or> c = 12 \<or> c = 11"

definition RegexCharClass_addPredefined :: "RegexCharClass \<Rightarrow> u8 \<Rightarrow> RegexCharClass" where
  "RegexCharClass_addPredefined cls letter =
     (if letter = 100 then setBits [48 ..< 58] cls
      else if letter = 68 then setBits (filter (\<lambda>c. c < 48 \<or> 57 < c) [0 ..< 256]) cls
      else if letter = 119 then
        setBit (setBits [97 ..< 123] (setBits [65 ..< 91] (setBits [48 ..< 58] cls))) 95
      else if letter = 87 then setBits (filter (\<lambda>c. \<not> isWordByte c) [0 ..< 256]) cls
      else if letter = 115 then
        setBit (setBit (setBit (setBit (setBit (setBit cls 32) 9) 10) 13) 12) 11
      else if letter = 83 then setBits (filter (\<lambda>c. \<not> isSpaceByte c) [0 ..< 256]) cls
      else cls)"

definition RegexCharClass_negate :: "RegexCharClass \<Rightarrow> RegexCharClass" where
  "RegexCharClass_negate cls =
     fold (\<lambda>i c. c\<lparr>bits := (bits c)[i := NOT (bits c ! i)]\<rparr>) [0 ..< REGEX_CLASS_BYTES] cls"

definition RegexCharClass_test :: "RegexCharClass \<Rightarrow> u8 \<Rightarrow> bool" where
  "RegexCharClass_test cls byte \<longleftrightarrow>
     bits cls ! unat (drop_bit 3 byte) AND push_bit (unat (byte AND 7)) 1 \<noteq> 0"

section \<open>The set of bytes a bitmap holds\<close>

lemma unat_drop_bit_3: "unat (drop_bit 3 (b :: u8)) = unat b div 8"
  by (simp add: drop_bit_eq_div unat_div_distrib)

lemma unat_and_7: "unat ((b :: u8) AND 7) = unat b mod 8"
proof -
  have "b AND 7 = take_bit 3 b"
    by (simp add: take_bit_eq_mask mask_eq_exp_minus_1)
  then show ?thesis
    by (simp add: take_bit_eq_mod unat_mod_distrib)
qed

lemma push_bit_1_test:
  "(x :: u8) AND 2 ^ n \<noteq> 0 \<longleftrightarrow> bit x n"
  using bit_iff_and_push_bit_not_eq_0 [of x n] by (simp add: push_bit_eq_mult)

lemma test_bit:
  "RegexCharClass_test cls b \<longleftrightarrow> bit (bits cls ! (unat b div 8)) (unat b mod 8)"
  by (simp add: RegexCharClass_test_def unat_drop_bit_3 unat_and_7 push_bit_1_test)

definition bytesOf :: "RegexCharClass \<Rightarrow> u8 set" where
  "bytesOf cls = {b. RegexCharClass_test cls b}"

lemma test_iff_bytesOf: "RegexCharClass_test cls b \<longleftrightarrow> b \<in> bytesOf cls"
  by (simp add: bytesOf_def)

lemma classWf_setBit [simp]: "classWf (setBit cls b) = classWf cls"
  by (simp add: classWf_def setBit_def Let_def)

lemma byte_index_less [simp]: "unat (b :: u8) div 8 < 32"
  using unat_u8_less [of b] by linarith

lemma byte_position_inj:
  "(unat (a :: u8) div 8 = unat b div 8 \<and> unat a mod 8 = unat b mod 8) \<longleftrightarrow> a = b"
  by (metis div_mult_mod_eq u8_eq_iff_unat)

lemma test_setBit:
  assumes "classWf cls"
  shows "RegexCharClass_test (setBit cls b) x \<longleftrightarrow> x = b \<or> RegexCharClass_test cls x"
proof -
  have len: "unat b div 8 < length (bits cls)"
    using assms by (simp add: classWf_def REGEX_CLASS_BYTES_def)
  show ?thesis
  proof (cases "unat x div 8 = unat b div 8")
    case True
    have "unat x mod 8 < 8" by simp
    then have "bit (push_bit (unat b mod 8) (1 :: u8)) (unat x mod 8) \<longleftrightarrow>
        unat x mod 8 = unat b mod 8"
      by (auto simp: bit_exp_iff)
    then show ?thesis
      using True len byte_position_inj [of x b]
      by (auto simp: test_bit setBit_def Let_def unat_drop_bit_3 unat_and_7 bit_or_iff)
  next
    case False
    then show ?thesis
      using byte_position_inj [of x b]
      by (auto simp: test_bit setBit_def Let_def unat_drop_bit_3 unat_and_7)
  qed
qed

lemma bytesOf_setBit [simp]:
  "classWf cls \<Longrightarrow> bytesOf (setBit cls b) = insert b (bytesOf cls)"
  by (auto simp: bytesOf_def test_setBit)

section \<open>The interface a class compiler relies on\<close>

text \<open>
  What the pattern parser uses of the bitmap: adding a byte, complementing and testing.  The
  laws are those of a set of bytes; folding an addition over a list adds its elements.
\<close>

locale byte_set =
  fixes invar :: "'c \<Rightarrow> bool"
    and member :: "'c \<Rightarrow> u8 \<Rightarrow> bool"
    and add :: "'c \<Rightarrow> u8 \<Rightarrow> 'c"
    and negate :: "'c \<Rightarrow> 'c"
  assumes invar_add: "invar c \<Longrightarrow> invar (add c b)"
    and invar_negate: "invar c \<Longrightarrow> invar (negate c)"
    and member_add: "invar c \<Longrightarrow> member (add c b) x \<longleftrightarrow> x = b \<or> member c x"
    and member_negate: "invar c \<Longrightarrow> member (negate c) x \<longleftrightarrow> \<not> member c x"
begin

lemma invar_fold_add: "invar c \<Longrightarrow> invar (fold (\<lambda>n c. add c (f n)) ns c)"
  by (induction ns arbitrary: c) (simp_all add: invar_add)

lemma member_fold_add:
  "invar c \<Longrightarrow>
   member (fold (\<lambda>n c. add c (f n)) ns c) x \<longleftrightarrow> x \<in> f ` set ns \<or> member c x"
  by (induction ns arbitrary: c) (auto simp: invar_add member_add)

lemma member_negate_twice: "invar c \<Longrightarrow> member (negate (negate c)) x \<longleftrightarrow> member c x"
  by (simp add: invar_negate member_negate)

end

section \<open>Clearing and complementing\<close>

lemma fold_list_update_pointwise:
  "m \<le> length (bits cls) \<Longrightarrow>
   fold (\<lambda>i c. c\<lparr>bits := (bits c)[i := f (bits c ! i)]\<rparr>) [0 ..< m] cls =
   cls\<lparr>bits := map f (take m (bits cls)) @ drop m (bits cls)\<rparr>"
proof (induction m)
  case 0
  then show ?case by simp
next
  case (Suc m)
  then have "m < length (bits cls)" by simp
  then show ?case
    using Suc
    by (simp add: nth_append list_update_append take_Suc_conv_app_nth take_nth_drop_Suc)
qed

lemma clear_eq:
  "classWf cls \<Longrightarrow> bits (RegexCharClass_clear cls) = replicate 32 0"
  using fold_list_update_pointwise [of 32 cls "\<lambda>_. 0"]
  by (simp add: RegexCharClass_clear_def classWf_def REGEX_CLASS_BYTES_def map_replicate_const)

lemma negate_eq:
  "classWf cls \<Longrightarrow> bits (RegexCharClass_negate cls) = map NOT (bits cls)"
  using fold_list_update_pointwise [of 32 cls NOT]
  by (simp add: RegexCharClass_negate_def classWf_def REGEX_CLASS_BYTES_def)

lemma classWf_clear [simp]: "classWf cls \<Longrightarrow> classWf (RegexCharClass_clear cls)"
  by (simp add: classWf_def clear_eq REGEX_CLASS_BYTES_def)

lemma classWf_negate [simp]: "classWf cls \<Longrightarrow> classWf (RegexCharClass_negate cls)"
  by (simp add: negate_eq classWf_def)

lemma bytesOf_clear [simp]: "classWf cls \<Longrightarrow> bytesOf (RegexCharClass_clear cls) = {}"
  by (simp add: bytesOf_def test_bit clear_eq)

lemma bytesOf_negate [simp]: "classWf cls \<Longrightarrow> bytesOf (RegexCharClass_negate cls) = - bytesOf cls"
proof -
  assume wf: "classWf cls"
  then have "unat b div 8 < length (bits cls)" for b :: u8
    by (simp add: classWf_def REGEX_CLASS_BYTES_def)
  then show ?thesis
    using wf by (auto simp: bytesOf_def test_bit negate_eq bit_not_iff)
qed

interpretation bitmap: byte_set classWf RegexCharClass_test setBit RegexCharClass_negate
  by unfold_locales (simp_all add: test_setBit, simp add: test_iff_bytesOf)

lemma classWf_setBits [simp]: "classWf cls \<Longrightarrow> classWf (setBits cs cls)"
  by (simp add: setBits_def bitmap.invar_fold_add)

lemma bytesOf_setBits [simp]:
  "classWf cls \<Longrightarrow> bytesOf (setBits cs cls) = word_of_nat ` set cs \<union> bytesOf cls"
  by (auto simp: setBits_def bytesOf_def bitmap.member_fold_add)

section \<open>Folded additions, ranges and families\<close>

definition foldedBytes :: "bool \<Rightarrow> u8 \<Rightarrow> u8 set" where
  "foldedBytes insensitive b =
     insert b (if insensitive \<and> 65 \<le> b \<and> b \<le> 90 then {b + 32}
               else if insensitive \<and> 97 \<le> b \<and> b \<le> 122 then {b - 32} else {})"

lemma classWf_addFoldedByte [simp]: "classWf (addFoldedByte cls b ins) = classWf cls"
  by (simp add: addFoldedByte_def Let_def)

lemma bytesOf_addFoldedByte [simp]:
  "classWf cls \<Longrightarrow> bytesOf (addFoldedByte cls b ins) = foldedBytes ins b \<union> bytesOf cls"
  by (auto simp: addFoldedByte_def foldedBytes_def Let_def)

lemma classWf_addByte [simp]: "classWf (RegexCharClass_addByte cls b ins) = classWf cls"
  by (simp add: RegexCharClass_addByte_def)

lemma fold_addFoldedByte:
  "classWf cls \<Longrightarrow>
   classWf (fold (\<lambda>c cls. addFoldedByte cls (f c) ins) cs cls) \<and>
   bytesOf (fold (\<lambda>c cls. addFoldedByte cls (f c) ins) cs cls) =
     (\<Union>c \<in> set cs. foldedBytes ins (f c)) \<union> bytesOf cls"
  by (induction cs arbitrary: cls) auto

lemma classWf_addRange [simp]:
  "classWf cls \<Longrightarrow> classWf (RegexCharClass_addRange cls lo hi ins)"
  by (simp add: RegexCharClass_addRange_def fold_addFoldedByte)

lemma bytes_between:
  "word_of_nat ` {unat lo ..< Suc (unat hi)} = {lo .. hi :: u8}"
proof (rule set_eqI)
  fix x :: u8
  show "x \<in> word_of_nat ` {unat lo ..< Suc (unat hi)} \<longleftrightarrow> x \<in> {lo .. hi}"
  proof
    assume "x \<in> word_of_nat ` {unat lo ..< Suc (unat hi)}"
    then obtain n where n: "x = word_of_nat n" "unat lo \<le> n" "n \<le> unat hi"
      by auto
    moreover have "n < 256" using n(3) unat_u8_less [of hi] by linarith
    ultimately show "x \<in> {lo .. hi}"
      by (simp add: word_le_nat_alt unat_word_of_nat_u8)
  next
    assume "x \<in> {lo .. hi}"
    then have "unat x \<in> {unat lo ..< Suc (unat hi)}"
      by (simp add: word_le_nat_alt less_Suc_eq_le)
    then show "x \<in> word_of_nat ` {unat lo ..< Suc (unat hi)}"
      by (intro image_eqI [where x = "unat x"]) simp_all
  qed
qed

lemma bytesOf_addRange [simp]:
  assumes "classWf cls"
  shows "bytesOf (RegexCharClass_addRange cls lo hi ins) =
    (\<Union>c \<in> {lo .. hi}. foldedBytes ins c) \<union> bytesOf cls"
proof (cases "hi < lo")
  case True
  then show ?thesis by (auto simp: RegexCharClass_addRange_def)
next
  case False
  have "(\<Union>c \<in> set [unat lo ..< Suc (unat hi)]. foldedBytes ins (word_of_nat c)) =
      (\<Union>c \<in> {lo .. hi}. foldedBytes ins c)"
    unfolding bytes_between [symmetric] by (simp del: upt_Suc)
  then show ?thesis
    using False assms
    by (simp add: RegexCharClass_addRange_def fold_addFoldedByte [where f = word_of_nat]
        del: upt_Suc)
qed

definition predefinedBytes :: "u8 \<Rightarrow> u8 set" where
  "predefinedBytes letter =
     (if letter = 100 then {b. isDigitByte (unat b)}
      else if letter = 68 then {b. \<not> isDigitByte (unat b)}
      else if letter = 119 then {b. isWordByte (unat b)}
      else if letter = 87 then {b. \<not> isWordByte (unat b)}
      else if letter = 115 then {b. isSpaceByte (unat b)}
      else if letter = 83 then {b. \<not> isSpaceByte (unat b)}
      else {})"

lemma classWf_addPredefined [simp]:
  "classWf cls \<Longrightarrow> classWf (RegexCharClass_addPredefined cls letter)"
  by (simp add: RegexCharClass_addPredefined_def)

lemma bytes_where:
  assumes "\<And>n. n \<in> N \<Longrightarrow> n < 256"
  shows "word_of_nat ` N = {b :: u8. unat b \<in> N}"
proof (rule set_eqI)
  fix x :: u8
  show "x \<in> word_of_nat ` N \<longleftrightarrow> x \<in> {b. unat b \<in> N}"
    using assms by (auto simp: unat_word_of_nat_u8 intro: image_eqI [where x = "unat x"])
qed

lemma bytesOf_addPredefined [simp]:
  assumes "classWf cls"
  shows "bytesOf (RegexCharClass_addPredefined cls letter) =
    predefinedBytes letter \<union> bytesOf cls"
proof -
  have set_upto: "word_of_nat ` {i ..< j} = {b :: u8. i \<le> unat b \<and> unat b < j}"
    if "j \<le> 256" for i j
    using that by (subst bytes_where) auto
  have set_filter: "word_of_nat ` set (filter P [0 ..< 256]) = {b :: u8. P (unat b)}" for P
    by (subst bytes_where) auto
  note set_filter = set_filter [simplified]
  have word: "{b :: u8. isWordByte (unat b)} =
      insert 95 ({b. 97 \<le> unat b \<and> unat b < 123} \<union> {b. 65 \<le> unat b \<and> unat b < 91} \<union>
        {b. 48 \<le> unat b \<and> unat b < 58})"
    by (auto simp: isWordByte_def u8_eq_iff_unat [of _ 95])
  have space: "{b :: u8. isSpaceByte (unat b)} = {11, 12, 13, 10, 9, 32}"
    by (auto simp: isSpaceByte_def u8_eq_iff_unat)
  have digit: "{b :: u8. isDigitByte (unat b)} = {b. 48 \<le> unat b \<and> unat b < 58}"
    by (auto simp: isDigitByte_def)
  have nodigit: "{b :: u8. \<not> isDigitByte (unat b)} = {b. unat b < 48 \<or> 57 < unat b}"
    by (auto simp: isDigitByte_def)
  consider "letter = 100" | "letter = 68" | "letter = 119" | "letter = 87" | "letter = 115"
    | "letter = 83" | "letter \<notin> {100, 68, 119, 87, 115, 83}"
    by auto
  then show ?thesis
  proof cases
    case 1 then show ?thesis using assms
      by (simp add: RegexCharClass_addPredefined_def predefinedBytes_def set_upto digit
          del: upt_rec_numeral)
  next
    case 2 then show ?thesis using assms set_filter
      by (simp add: RegexCharClass_addPredefined_def predefinedBytes_def nodigit)
  next
    case 3 then show ?thesis using assms
      by (simp add: RegexCharClass_addPredefined_def predefinedBytes_def word set_upto Un_assoc
          del: upt_rec_numeral)
  next
    case 4 then show ?thesis using assms set_filter
      by (simp add: RegexCharClass_addPredefined_def predefinedBytes_def)
  next
    case 5 then show ?thesis using assms
      by (simp add: RegexCharClass_addPredefined_def predefinedBytes_def space)
  next
    case 6 then show ?thesis using assms set_filter
      by (simp add: RegexCharClass_addPredefined_def predefinedBytes_def)
  next
    case 7 then show ?thesis
      by (simp add: RegexCharClass_addPredefined_def predefinedBytes_def)
  qed
qed

section \<open>Membership after the operations\<close>

text \<open>
C10: The bitmap is the set the calls describe: after a range was added a byte is a member if
it was one before or if the range has it, up to ASCII case when the range was added
insensitive; negation complements; a cleared bitmap has no member.
\<close>

theorem RegexCharClass_test_range:
  assumes "classWf cls"
  shows "(RegexCharClass_test (RegexCharClass_addRange cls lo hi ins) b \<longleftrightarrow>
      RegexCharClass_test cls b \<or> (\<exists>c. lo \<le> c \<and> c \<le> hi \<and>
        (b = c \<or> ins \<and> (65 \<le> c \<and> c \<le> 90 \<and> b = c + 32 \<or> 97 \<le> c \<and> c \<le> 122 \<and> b = c - 32)))) \<and>
    (RegexCharClass_test (RegexCharClass_negate cls) b \<longleftrightarrow> \<not> RegexCharClass_test cls b) \<and>
    \<not> RegexCharClass_test (RegexCharClass_clear cls) b"
proof -
  have split: "b \<in> foldedBytes ins c \<longleftrightarrow>
      b = c \<or> ins \<and> (65 \<le> c \<and> c \<le> 90 \<and> b = c + 32 \<or> 97 \<le> c \<and> c \<le> 122 \<and> b = c - 32)" for c
  proof (cases "65 \<le> c \<and> c \<le> 90")
    case True
    then have "\<not> 97 \<le> c" by (simp add: word_le_nat_alt)
    then show ?thesis using True by (auto simp: foldedBytes_def)
  qed (auto simp: foldedBytes_def)
  show ?thesis using assms by (auto simp: test_iff_bytesOf split)
qed

theorem RegexCharClass_test_range_witness:
  "RegexCharClass_test (RegexCharClass_addRange \<lparr>bits = replicate 32 0\<rparr> 97 100 True) 66"
proof -
  have wf: "classWf \<lparr>bits = replicate 32 0\<rparr>" by (simp add: classWf_def REGEX_CLASS_BYTES_def)
  have "\<exists>c::u8. 97 \<le> c \<and> c \<le> 100 \<and> (66 = c \<or> 97 \<le> c \<and> c \<le> 122 \<and> 66 = c - 32)"
    by (rule exI [of _ 98]) simp
  then show ?thesis using RegexCharClass_test_range [OF wf, of 97 100 True 66] by auto
qed

end
