(* ===== verification/Regex_NodeList.thy ===== *)
theory Regex_NodeList
  imports Prelude
begin

text \<open>
  The flat syntax tree of \<open>src/regex/nodelist.c\<close>: nodes in a growable array, children
  named by index.  The list holds the nodes in use (\<open>count\<close> is its length); the capacity of
  the block is kept beside it, since growth depends on it.
\<close>

definition REGEX_REP_INF :: nat where
  "REGEX_REP_INF = 2 ^ 32 - 1"

datatype RegexNodeKind =
    NODE_EMPTY | NODE_CHAR | NODE_ANY | NODE_CLASS | NODE_BOL | NODE_EOL | NODE_CONCAT
  | NODE_ALT | NODE_STAR | NODE_PLUS | NODE_QUEST | NODE_REPEAT | NODE_GROUP

record RegexNode =
  nd_kind :: RegexNodeKind
  nd_byte :: u8
  nd_a :: nat
  nd_b :: nat
  nd_repMin :: nat
  nd_repMax :: nat
  nd_group :: nat
  nd_clsIndex :: nat

record RegexNodeList =
  nl_nodes :: "RegexNode list"
  nl_capacity :: nat

definition REGEX_NODELIST_SEED_CAPACITY :: nat where
  "REGEX_NODELIST_SEED_CAPACITY = 64"

definition nl_count :: "RegexNodeList \<Rightarrow> nat" where
  "nl_count list = length (nl_nodes list)"

section \<open>Operations\<close>

definition RegexNodeList_0 :: RegexNodeList where
  "RegexNodeList_0 = \<lparr>nl_nodes = [], nl_capacity = 0\<rparr>"

text \<open>\<open>nodeGrow\<close> makes one request of the allocator, a fresh block or a larger one.\<close>

definition nodeGrow :: "arena \<Rightarrow> bool \<times> arena" where
  "nodeGrow m = Memory_alloc m"

definition growToOneMore :: "arena \<Rightarrow> RegexNodeList \<Rightarrow> bool \<times> RegexNodeList \<times> arena" where
  "growToOneMore m list =
     (if nl_count list < nl_capacity list then (True, list, m)
      else let next = (if nl_capacity list \<noteq> 0 then (nl_capacity list * 2) mod 2 ^ 32
                       else REGEX_NODELIST_SEED_CAPACITY);
               (granted, m') = nodeGrow m
           in if \<not> granted then (False, list, m')
              else (True, list\<lparr>nl_capacity := next\<rparr>, m'))"

definition zeroNode :: "RegexNodeKind \<Rightarrow> RegexNode" where
  "zeroNode kind = \<lparr>nd_kind = kind, nd_byte = 0, nd_a = 0, nd_b = 0, nd_repMin = 0,
     nd_repMax = 0, nd_group = 0, nd_clsIndex = 0\<rparr>"

definition RegexNodeList_add ::
    "arena \<Rightarrow> RegexNodeList \<Rightarrow> RegexNodeKind \<Rightarrow> nat option \<times> RegexNodeList \<times> arena" where
  "RegexNodeList_add m list kind =
     (let (ok, list1, m1) = growToOneMore m list
      in if \<not> ok then (None, list1, m1)
         else (Some (nl_count list1),
               list1\<lparr>nl_nodes := nl_nodes list1 @ [zeroNode kind]\<rparr>, m1))"

definition RegexNodeList_get :: "RegexNodeList \<Rightarrow> nat \<Rightarrow> RegexNode option" where
  "RegexNodeList_get list index =
     (if index \<ge> nl_count list then None else Some (nl_nodes list ! index))"

definition RegexNodeList_at :: "RegexNodeList \<Rightarrow> nat \<Rightarrow> RegexNode option" where
  "RegexNodeList_at list index =
     (if index \<ge> nl_count list then None else Some (nl_nodes list ! index))"

text \<open>A write through the pointer that \<open>RegexNodeList_get\<close> lends.\<close>

definition nodeWrite :: "RegexNodeList \<Rightarrow> nat \<Rightarrow> (RegexNode \<Rightarrow> RegexNode) \<Rightarrow> RegexNodeList" where
  "nodeWrite list index f =
     (case RegexNodeList_get list index of
        None \<Rightarrow> list
      | Some node \<Rightarrow> list\<lparr>nl_nodes := (nl_nodes list)[index := f node]\<rparr>)"

definition RegexNodeList_free :: "RegexNodeList \<Rightarrow> RegexNodeList" where
  "RegexNodeList_free list = RegexNodeList_0"

section \<open>Lemmas\<close>

lemma RegexNodeList_add_spec:
  assumes "RegexNodeList_add m list kind = (r, list', m')"
  shows "r = None \<and> list' = list \<and> \<not> generous m \<or>
    r = Some (nl_count list) \<and> nl_nodes list' = nl_nodes list @ [zeroNode kind] \<and>
    nl_capacity list' =
      (if nl_count list < nl_capacity list then nl_capacity list
       else if nl_capacity list \<noteq> 0 then nl_capacity list * 2 mod 2 ^ 32
       else REGEX_NODELIST_SEED_CAPACITY) \<and>
    (generous m \<longrightarrow> generous m')"
  using assms
  by (auto simp: RegexNodeList_add_def growToOneMore_def nodeGrow_def nl_count_def Let_def
      split: prod.splits if_splits intro: Memory_alloc_granted dest: Memory_alloc_refused)

lemma RegexNodeList_add_cases:
  assumes "RegexNodeList_add m list kind = (r, list', m')"
  obtains (refused) "r = None" "list' = list" "\<not> generous m"
        | (added) "r = Some (nl_count list)"
            "nl_nodes list' = nl_nodes list @ [zeroNode kind]"
            "nl_capacity list' =
              (if nl_count list < nl_capacity list then nl_capacity list
               else if nl_capacity list \<noteq> 0 then nl_capacity list * 2 mod 2 ^ 32
               else REGEX_NODELIST_SEED_CAPACITY)"
            "generous m \<longrightarrow> generous m'"
  using RegexNodeList_add_spec [OF assms] by blast

lemma RegexNodeList_add_refused:
  "RegexNodeList_add m list kind = (None, list', m') \<Longrightarrow> list' = list \<and> \<not> generous m"
  by (erule RegexNodeList_add_cases) auto

text \<open>Indices stay valid and keep their node when the list grows.\<close>

lemma RegexNodeList_at_stable:
  "RegexNodeList_add m list kind = (r, list', m') \<Longrightarrow> RegexNodeList_at list i = Some n \<Longrightarrow>
   RegexNodeList_at list' i = Some n"
  by (erule RegexNodeList_add_cases)
    (auto simp: RegexNodeList_at_def nl_count_def nth_append split: if_splits)

lemma nodeWrite_nodes:
  "i < nl_count list \<Longrightarrow> nl_nodes (nodeWrite list i f) = (nl_nodes list)[i := f (nl_nodes list ! i)]"
  by (simp add: nodeWrite_def RegexNodeList_get_def)

lemma nodeWrite_count [simp]: "nl_count (nodeWrite list i f) = nl_count list"
  by (simp add: nodeWrite_def nl_count_def split: option.splits)

lemma nodeWrite_capacity [simp]: "nl_capacity (nodeWrite list i f) = nl_capacity list"
  by (simp add: nodeWrite_def split: option.splits)

end
