(* ===== verification/Regex_Parser.thy ===== *)
theory Regex_Parser
  imports Regex_CharClass Regex_NodeList
begin

text \<open>
  The recursive-descent parser of \<open>src/regex/parser.c\<close>: pattern bytes in, flat syntax tree
  and class bitmaps out.  Every function takes the parser record and returns it updated; a
  function that yields an index or a byte returns \<open>None\<close> where the code returns
  \<open>REGEX_NODE_NONE\<close>, \<open>UINT32_MAX\<close> or \<open>false\<close>.  The functions that call each other carry
  a fuel argument (the outer \<open>None\<close> is "out of fuel"); \<open>RegexParser_parse\<close> gives enough of
  it for every pattern.
\<close>

definition REGEX_MAX_NODES :: nat where "REGEX_MAX_NODES = 8192"
definition REGEX_MAX_CLASSES :: nat where "REGEX_MAX_CLASSES = 4096"
definition REGEX_MAX_DEPTH :: nat where "REGEX_MAX_DEPTH = 128"
definition REGEX_MAX_REPEAT :: nat where "REGEX_MAX_REPEAT = 1000"

text \<open>
  The first \<open>classCount\<close> bitmaps of the block are the list \<open>ps_classes\<close>; the cursor and
  the counters are naturals, bounded by the ceilings below.
\<close>

record RegexParser =
  ps_pattern :: "u8 list"
  ps_pos :: nat
  ps_ignoreCase :: bool
  ps_nodes :: RegexNodeList
  ps_classes :: "RegexCharClass list"
  ps_classCapacity :: nat
  ps_groupCount :: nat
  ps_depth :: nat
  ps_failed :: bool
  ps_error :: "string option"
  ps_arena :: arena

abbreviation plen :: "RegexParser \<Rightarrow> nat" where
  "plen p \<equiv> length (ps_pattern p)"

abbreviation pchar :: "RegexParser \<Rightarrow> nat \<Rightarrow> u8" where
  "pchar p i \<equiv> ps_pattern p ! i"

section \<open>Helpers\<close>

definition lowerByte :: "u8 \<Rightarrow> u8" where
  "lowerByte c = (if ch_A \<le> c \<and> c \<le> ch_Z then c + 32 else c)"

definition isAsciiDigit :: "u8 \<Rightarrow> bool" where
  "isAsciiDigit c \<longleftrightarrow> ch_0 \<le> c \<and> c \<le> ch_9"

definition parserFail :: "RegexParser \<Rightarrow> string \<Rightarrow> RegexParser" where
  "parserFail p message =
     (if \<not> ps_failed p then p\<lparr>ps_failed := True, ps_error := Some message\<rparr> else p)"

definition parserNode :: "RegexParser \<Rightarrow> RegexNodeKind \<Rightarrow> nat option \<times> RegexParser" where
  "parserNode p kind =
     (if nl_count (ps_nodes p) \<ge> REGEX_MAX_NODES
      then (None, parserFail p ''pattern too complex (node ceiling)'')
      else let (index, nodes', m') = RegexNodeList_add (ps_arena p) (ps_nodes p) kind;
               p1 = p\<lparr>ps_nodes := nodes', ps_arena := m'\<rparr>
           in (index, if index = None then parserFail p1 ''out of memory'' else p1))"

text \<open>A write to a node the parser has just added.\<close>

definition parserSet :: "RegexParser \<Rightarrow> nat \<Rightarrow> (RegexNode \<Rightarrow> RegexNode) \<Rightarrow> RegexParser" where
  "parserSet p index f = p\<lparr>ps_nodes := nodeWrite (ps_nodes p) index f\<rparr>"

text \<open>
  A new bitmap is cleared before use, so the contents of the fresh slot do not matter; the
  model starts it from zero bytes.
\<close>

definition parserAddClass :: "RegexParser \<Rightarrow> nat option \<times> RegexParser" where
  "parserAddClass p =
     (if length (ps_classes p) \<ge> REGEX_MAX_CLASSES
      then (None, parserFail p ''too many character classes'')
      else
        let (ok, p1) =
          (if length (ps_classes p) = ps_classCapacity p then
             let next0 = (if ps_classCapacity p \<noteq> 0 then ps_classCapacity p * 2 else 8);
                 next = (if next0 > REGEX_MAX_CLASSES then REGEX_MAX_CLASSES else next0);
                 (granted, m') = Memory_alloc (ps_arena p)
             in if \<not> granted then (False, parserFail (p\<lparr>ps_arena := m'\<rparr>) ''out of memory'')
                else (True, p\<lparr>ps_arena := m', ps_classCapacity := next\<rparr>)
           else (True, p))
        in if \<not> ok then (None, p1)
           else (Some (length (ps_classes p1)),
                 p1\<lparr>ps_classes :=
                   ps_classes p1 @ [RegexCharClass_clear \<lparr>bits = replicate 32 0\<rparr>]\<rparr>))"

definition parserClassSet ::
    "RegexParser \<Rightarrow> nat \<Rightarrow> (RegexCharClass \<Rightarrow> RegexCharClass) \<Rightarrow> RegexParser" where
  "parserClassSet p index f =
     p\<lparr>ps_classes := (ps_classes p)[index := f (ps_classes p ! index)]\<rparr>"

text \<open>Rejection texts that hold a quote or a backslash.\<close>

definition quoted :: "char \<Rightarrow> string" where
  "quoted c = [CHR 0x27, c, CHR 0x27]"

definition msg_malformed_x :: string where
  "msg_malformed_x = ''malformed '' @ CHR 0x5C # ''x escape''"

section \<open>Escapes\<close>

definition hexDigit :: "u8 \<Rightarrow> u8 option" where
  "hexDigit h =
     (if ch_0 \<le> h \<and> h \<le> ch_9 then Some (h - ch_0)
      else if ch_a \<le> h \<and> h \<le> ch_f then Some (h - ch_a + 10)
      else if ch_A \<le> h \<and> h \<le> ch_F then Some (h - ch_A + 10)
      else None)"

definition parseEscapeByte :: "RegexParser \<Rightarrow> u8 option \<times> RegexParser" where
  "parseEscapeByte p =
     (if ps_pos p \<ge> plen p then (None, parserFail p ''trailing backslash'')
      else
        let c = pchar p (ps_pos p); p1 = p\<lparr>ps_pos := ps_pos p + 1\<rparr>
        in if c = 110 then (Some 10, p1)
           else if c = 114 then (Some 13, p1)
           else if c = 116 then (Some 9, p1)
           else if c = 102 then (Some 12, p1)
           else if c = 118 then (Some 11, p1)
           else if c = 48 then (Some 0, p1)
           else if c = 120 then
             (if ps_pos p1 + 1 \<ge> plen p1 then (None, parserFail p1 msg_malformed_x)
              else case hexDigit (pchar p1 (ps_pos p1)) of
                     None \<Rightarrow> (None, parserFail p1 msg_malformed_x)
                   | Some hi \<Rightarrow>
                       (case hexDigit (pchar p1 (ps_pos p1 + 1)) of
                          None \<Rightarrow> (None, parserFail p1 msg_malformed_x)
                        | Some lo \<Rightarrow>
                            (Some (push_bit 4 hi OR lo), p1\<lparr>ps_pos := ps_pos p1 + 2\<rparr>)))
           else if ch_a \<le> c \<and> c \<le> ch_z \<or> ch_A \<le> c \<and> c \<le> ch_Z \<or> 49 \<le> c \<and> c \<le> ch_9
             then (None, parserFail p1 ''unsupported escape'')
           else (Some c, p1))"

section \<open>Bracket expressions\<close>

text \<open>
  One member of a bracket expression: a predefined family, a single byte or a range.  The
  flag says whether the loop goes on.
\<close>

definition parseClassHi :: "nat \<Rightarrow> u8 \<Rightarrow> RegexParser \<Rightarrow> bool \<times> RegexParser" where
  "parseClassHi index lo p =
     (let insensitive = ps_ignoreCase p;
          p1 = p\<lparr>ps_pos := ps_pos p + 1\<rparr>;
          hc = pchar p1 (ps_pos p1);
          (hi, p2) =
            (if hc = ch_backslash then
               let p2 = p1\<lparr>ps_pos := ps_pos p1 + 1\<rparr>
               in if ps_pos p2 < plen p2 \<and> RegexCharClass_isPredefined (pchar p2 (ps_pos p2))
                  then (None, parserFail p2 ''character class in a range endpoint'')
                  else parseEscapeByte p2
             else (Some hc, p1\<lparr>ps_pos := ps_pos p1 + 1\<rparr>))
      in case hi of
           None \<Rightarrow> (False, p2)
         | Some hi \<Rightarrow>
             if hi < lo
             then (False, parserFail p2 ''invalid character range (end before start)'')
             else (True,
               parserClassSet p2 index (\<lambda>c. RegexCharClass_addRange c lo hi insensitive)))"

definition parseClassLo :: "nat \<Rightarrow> u8 \<Rightarrow> RegexParser \<Rightarrow> bool \<times> RegexParser" where
  "parseClassLo index lo p =
     (if ps_pos p + 1 < plen p \<and> pchar p (ps_pos p) = ch_minus \<and>
         pchar p (ps_pos p + 1) \<noteq> ch_rbracket
      then parseClassHi index lo p
      else (True,
        parserClassSet p index (\<lambda>c. RegexCharClass_addByte c lo (ps_ignoreCase p))))"

definition parseClassItem :: "nat \<Rightarrow> RegexParser \<Rightarrow> bool \<times> RegexParser" where
  "parseClassItem index p =
     (let c = pchar p (ps_pos p); p1 = p\<lparr>ps_pos := ps_pos p + 1\<rparr>
      in if c = ch_backslash then
           (if ps_pos p1 < plen p1 \<and> RegexCharClass_isPredefined (pchar p1 (ps_pos p1))
            then (True, (parserClassSet p1 index
                    (\<lambda>cls. RegexCharClass_addPredefined cls (pchar p1 (ps_pos p1))))
                    \<lparr>ps_pos := ps_pos p1 + 1\<rparr>)
            else case parseEscapeByte p1 of
                   (None, p2) \<Rightarrow> (False, p2)
                 | (Some lo, p2) \<Rightarrow> parseClassLo index lo p2)
         else parseClassLo index c p1)"

text \<open>The loop over the members; \<open>Some True\<close> when the closing bracket was consumed.\<close>

datatype class_end = ClassClosed | ClassOpen | ClassRefused

text \<open>
  The loop advances the cursor in every round; the measure below needs that fact, so it is
  shown first for each function that reads from the pattern.
\<close>

lemma parserFail_simps [simp]:
  "ps_pattern (parserFail p m) = ps_pattern p"
  "ps_pos (parserFail p m) = ps_pos p"
  "ps_ignoreCase (parserFail p m) = ps_ignoreCase p"
  "ps_nodes (parserFail p m) = ps_nodes p"
  "ps_classes (parserFail p m) = ps_classes p"
  "ps_classCapacity (parserFail p m) = ps_classCapacity p"
  "ps_groupCount (parserFail p m) = ps_groupCount p"
  "ps_depth (parserFail p m) = ps_depth p"
  "ps_failed (parserFail p m)"
  "ps_arena (parserFail p m) = ps_arena p"
  by (simp_all add: parserFail_def)

text \<open>\<open>advances p p'\<close>: the call read forward, stayed inside the pattern and left it alone.\<close>

definition advances :: "RegexParser \<Rightarrow> RegexParser \<Rightarrow> bool" where
  "advances p p' \<longleftrightarrow> ps_pattern p' = ps_pattern p \<and> ps_pos p \<le> ps_pos p' \<and>
     (ps_pos p \<le> plen p \<longrightarrow> ps_pos p' \<le> plen p)"

lemma parseEscapeByte_advances:
  "parseEscapeByte p = (r, p') \<Longrightarrow> advances p p' \<and> (r \<noteq> None \<longrightarrow> ps_pos p < ps_pos p')"
  by (auto simp: parseEscapeByte_def advances_def Let_def split: if_splits option.splits)

lemma parserClassSet_simps [simp]:
  "ps_pattern (parserClassSet p i f) = ps_pattern p"
  "ps_pos (parserClassSet p i f) = ps_pos p"
  "ps_ignoreCase (parserClassSet p i f) = ps_ignoreCase p"
  "ps_nodes (parserClassSet p i f) = ps_nodes p"
  "ps_classCapacity (parserClassSet p i f) = ps_classCapacity p"
  "ps_groupCount (parserClassSet p i f) = ps_groupCount p"
  "ps_depth (parserClassSet p i f) = ps_depth p"
  "ps_failed (parserClassSet p i f) = ps_failed p"
  "ps_error (parserClassSet p i f) = ps_error p"
  "ps_arena (parserClassSet p i f) = ps_arena p"
  "length (ps_classes (parserClassSet p i f)) = length (ps_classes p)"
  by (simp_all add: parserClassSet_def)

lemma parseClassHi_advances:
  "parseClassHi index lo p = (r, p') \<Longrightarrow> ps_pos p + 1 < plen p \<Longrightarrow> advances p p'"
  by (auto simp: parseClassHi_def Let_def advances_def
      split: if_splits option.splits prod.splits dest!: parseEscapeByte_advances)

lemma parseClassLo_advances: "parseClassLo index lo p = (r, p') \<Longrightarrow> advances p p'"
  by (auto simp: parseClassLo_def advances_def split: if_splits
      dest!: parseClassHi_advances)

lemma parseClassItem_advances:
  "parseClassItem index p = (r, p') \<Longrightarrow> ps_pos p < plen p \<Longrightarrow>
   advances p p' \<and> ps_pos p < ps_pos p'"
  by (auto simp: parseClassItem_def Let_def advances_def split: if_splits option.splits prod.splits
      dest!: parseEscapeByte_advances parseClassLo_advances)

function (sequential) parseClassLoop ::
    "nat \<Rightarrow> bool \<Rightarrow> RegexParser \<Rightarrow> class_end \<times> RegexParser" where
  "parseClassLoop index first p =
     (if ps_pos p < plen p then
        if pchar p (ps_pos p) = ch_rbracket \<and> \<not> first
        then (ClassClosed, p\<lparr>ps_pos := ps_pos p + 1\<rparr>)
        else case parseClassItem index p of
               (False, p1) \<Rightarrow> (ClassRefused, p1)
             | (True, p1) \<Rightarrow> parseClassLoop index False p1
      else (ClassOpen, p))"
  by pat_completeness auto
termination
  by (relation "measure (\<lambda>(_, _, p). plen p - ps_pos p)")
    (auto dest!: parseClassItem_advances [OF sym] simp: advances_def)

declare parseClassLoop.simps [simp del]

definition parseClass :: "RegexParser \<Rightarrow> nat option \<times> RegexParser" where
  "parseClass p =
     (let p1 = p\<lparr>ps_pos := ps_pos p + 1\<rparr>;
          negate = (ps_pos p1 < plen p1 \<and> pchar p1 (ps_pos p1) = ch_caret);
          p2 = (if negate then p1\<lparr>ps_pos := ps_pos p1 + 1\<rparr> else p1)
      in case parserAddClass p2 of
           (None, p3) \<Rightarrow> (None, p3)
         | (Some index, p3) \<Rightarrow>
             (case parseClassLoop index True p3 of
                (ClassRefused, p4) \<Rightarrow> (None, p4)
              | (ClassOpen, p4) \<Rightarrow> (None, parserFail p4 (''missing closing '' @ quoted (CHR '']'')))
              | (ClassClosed, p4) \<Rightarrow>
                  (Some index,
                   if negate then parserClassSet p4 index RegexCharClass_negate else p4)))"

section \<open>Atoms that do not recurse\<close>

definition parseClassNode :: "nat option \<times> RegexParser \<Rightarrow> nat option \<times> RegexParser" where
  "parseClassNode r =
     (case r of
        (None, p1) \<Rightarrow> (None, p1)
      | (Some index, p1) \<Rightarrow>
          (case parserNode p1 NODE_CLASS of
             (None, p2) \<Rightarrow> (None, p2)
           | (Some node, p2) \<Rightarrow>
               (Some node, parserSet p2 node (\<lambda>n. n\<lparr>nd_clsIndex := index\<rparr>))))"

definition parseCharNode :: "u8 \<Rightarrow> RegexParser \<Rightarrow> nat option \<times> RegexParser" where
  "parseCharNode byte p =
     (case parserNode p NODE_CHAR of
        (None, p1) \<Rightarrow> (None, p1)
      | (Some node, p1) \<Rightarrow>
          (Some node, parserSet p1 node
             (\<lambda>n. n\<lparr>nd_byte := if ps_ignoreCase p then lowerByte byte else byte\<rparr>)))"

definition parsePredefined :: "RegexParser \<Rightarrow> nat option \<times> RegexParser" where
  "parsePredefined p =
     (case parserAddClass p of
        (None, p1) \<Rightarrow> (None, p1)
      | (Some index, p1) \<Rightarrow>
          (Some index,
           (parserClassSet p1 index
              (\<lambda>cls. RegexCharClass_addPredefined cls (pchar p1 (ps_pos p1))))
             \<lparr>ps_pos := ps_pos p1 + 1\<rparr>))"

definition parseEscapeAtom :: "RegexParser \<Rightarrow> nat option \<times> RegexParser" where
  "parseEscapeAtom p =
     (let p1 = p\<lparr>ps_pos := ps_pos p + 1\<rparr>
      in if ps_pos p1 < plen p1 \<and> RegexCharClass_isPredefined (pchar p1 (ps_pos p1))
         then parseClassNode (parsePredefined p1)
         else case parseEscapeByte p1 of
                (None, p2) \<Rightarrow> (None, p2)
              | (Some byte, p2) \<Rightarrow> parseCharNode byte p2)"

definition parseLeaf :: "RegexParser \<Rightarrow> nat option \<times> RegexParser" where
  "parseLeaf p =
     (let c = pchar p (ps_pos p); p1 = p\<lparr>ps_pos := ps_pos p + 1\<rparr>
      in if c = ch_lbracket then parseClassNode (parseClass p)
         else if c = ch_dot then parserNode p1 NODE_ANY
         else if c = ch_caret then parserNode p1 NODE_BOL
         else if c = ch_dollar then parserNode p1 NODE_EOL
         else if c = ch_backslash then parseEscapeAtom p
         else if c = ch_star \<or> c = ch_plus \<or> c = ch_quest
           then (None, parserFail p ''nothing to repeat'')
         else parseCharNode c p1)"

section \<open>Quantifiers\<close>

text \<open>
  The digits of a bound: the cursor after them and their value, \<open>None\<close> when the value passes
  the ceiling.  The value is at most ten times the ceiling plus nine before the test, so the
  32-bit sum of the code does not wrap.
\<close>

function parseCount :: "RegexParser \<Rightarrow> nat \<Rightarrow> nat \<Rightarrow> (nat \<times> nat) option" where
  "parseCount p i acc =
     (if i < plen p \<and> isAsciiDigit (pchar p i) then
        let acc' = acc * 10 + (unat (pchar p i) - 48)
        in if acc' > REGEX_MAX_REPEAT then None else parseCount p (i + 1) acc'
      else Some (i, acc))"
  by pat_completeness auto
termination
  by (relation "measure (\<lambda>(p, i, _). plen p - i)") auto

declare parseCount.simps [simp del]

text \<open>
  The three outcomes of \<open>parseBraces\<close>: 0, a literal brace; -1, malformed; 1, a quantifier
  with its bounds and whether an upper bound was given.
\<close>

datatype braces = NotBraces | BadBraces | Braces nat nat bool

text \<open>
  The upper bound after the lower one: the cursor, whether a bound was given, its value (the
  lower bound again when there is no comma).
\<close>

definition parseUpper :: "RegexParser \<Rightarrow> nat \<Rightarrow> nat \<Rightarrow> (nat \<times> bool \<times> nat) option" where
  "parseUpper p i lo =
     (if i < plen p \<and> pchar p i = ch_comma then
        if i + 1 < plen p \<and> isAsciiDigit (pchar p (i + 1))
        then map_option (\<lambda>(i2, hi). (i2, True, hi)) (parseCount p (i + 1) 0)
        else Some (i + 1, False, lo)
      else Some (i, True, lo))"

definition parseBraces :: "RegexParser \<Rightarrow> braces \<times> RegexParser" where
  "parseBraces p =
     (let i = ps_pos p + 1
      in if i \<ge> plen p \<or> \<not> isAsciiDigit (pchar p i) then (NotBraces, p)
         else case parseCount p i 0 of
           None \<Rightarrow> (BadBraces, parserFail p ''repetition count too large'')
         | Some (i1, lo) \<Rightarrow>
             (case parseUpper p i1 lo of
                  None \<Rightarrow> (BadBraces, parserFail p ''repetition count too large'')
                | Some (i2, hasMax, hi) \<Rightarrow>
                    if i2 \<ge> plen p \<or> pchar p i2 \<noteq> ch_rbrace
                    then (BadBraces, parserFail p ''malformed repetition'')
                    else if hasMax \<and> hi < lo
                    then (BadBraces,
                          parserFail p ''invalid repetition range (end before start)'')
                    else (Braces lo (if hasMax then hi else REGEX_REP_INF) hasMax,
                          p\<lparr>ps_pos := i2 + 1\<rparr>)))"

text \<open>The test for a second quantifier after the one just read.\<close>

definition stackedQuantifier :: "RegexParser \<Rightarrow> bool" where
  "stackedQuantifier p \<longleftrightarrow> ps_pos p < plen p \<and>
     (let next = pchar p (ps_pos p)
      in next = ch_star \<or> next = ch_plus \<or> next = ch_quest \<or>
         next = ch_lbrace \<and> ps_pos p + 1 < plen p \<and> isAsciiDigit (pchar p (ps_pos p + 1)))"

definition wrapNode ::
    "nat \<Rightarrow> RegexNodeKind \<Rightarrow> nat \<Rightarrow> nat \<Rightarrow> bool \<Rightarrow> RegexParser \<Rightarrow> nat option \<times> RegexParser" where
  "wrapNode atom kind lo hi hasMax p =
     (case parserNode p kind of
        (None, p1) \<Rightarrow> (None, p1)
      | (Some wrap, p1) \<Rightarrow>
          let p2 = parserSet p1 wrap (\<lambda>n. n\<lparr>nd_a := atom\<rparr>);
              p3 = (if kind = NODE_REPEAT
                    then parserSet p2 wrap (\<lambda>n. n\<lparr>nd_repMin := lo,
                           nd_repMax := if hasMax then hi else REGEX_REP_INF\<rparr>)
                    else p2)
          in if stackedQuantifier p3
             then (None,
                   parserFail p3 ''stacked, lazy or possessive quantifier unsupported'')
             else (Some wrap, p3))"

text \<open>The part of \<open>parseRepeat\<close> after its atom; the loop there always breaks in round one.\<close>

definition parseQuantifier :: "nat \<Rightarrow> RegexParser \<Rightarrow> nat option \<times> RegexParser" where
  "parseQuantifier atom p =
     (if ps_pos p \<ge> plen p then (Some atom, p)
      else
        let c = pchar p (ps_pos p); p1 = p\<lparr>ps_pos := ps_pos p + 1\<rparr>
        in if c = ch_star then wrapNode atom NODE_STAR 0 0 False p1
           else if c = ch_plus then wrapNode atom NODE_PLUS 0 0 False p1
           else if c = ch_quest then wrapNode atom NODE_QUEST 0 0 False p1
           else if c = ch_lbrace then
             (case parseBraces p of
                (BadBraces, p2) \<Rightarrow> (None, p2)
              | (NotBraces, p2) \<Rightarrow> (Some atom, p2)
              | (Braces lo hi hasMax, p2) \<Rightarrow> wrapNode atom NODE_REPEAT lo hi hasMax p2)
           else (Some atom, p))"

section \<open>Groups, concatenation and alternation\<close>

definition groupOpen :: "RegexParser \<Rightarrow> (nat \<times> bool) option \<times> RegexParser" where
  "groupOpen p =
     (let p1 = p\<lparr>ps_pos := ps_pos p + 1\<rparr>;
          isNC = (ps_pos p1 + 1 < plen p1 \<and> pchar p1 (ps_pos p1) = ch_quest \<and>
                  pchar p1 (ps_pos p1 + 1) = ch_colon)
      in if \<not> isNC \<and> ps_pos p1 < plen p1 \<and> pchar p1 (ps_pos p1) = ch_quest
         then (None,
               parserFail p1 ''unsupported group construct (only (?:...) is supported)'')
         else
           let capturing = \<not> isNC;
               p2 = (if isNC then p1\<lparr>ps_pos := ps_pos p1 + 2\<rparr> else p1);
               p3 = (if capturing then p2\<lparr>ps_groupCount := ps_groupCount p2 + 1\<rparr> else p2);
               grp = (if capturing then ps_groupCount p3 else 0)
           in if ps_depth p3 \<ge> REGEX_MAX_DEPTH
              then (None, parserFail p3 ''pattern nesting too deep'')
              else (Some (grp, capturing), p3\<lparr>ps_depth := ps_depth p3 + 1\<rparr>))"

definition groupClose ::
    "nat \<Rightarrow> bool \<Rightarrow> nat option \<Rightarrow> RegexParser \<Rightarrow> nat option \<times> RegexParser" where
  "groupClose grp capturing body p =
     (let p1 = p\<lparr>ps_depth := ps_depth p - 1\<rparr>
      in case body of
           None \<Rightarrow> (None, p1)
         | Some body \<Rightarrow>
             if ps_pos p1 \<ge> plen p1 \<or> pchar p1 (ps_pos p1) \<noteq> ch_rparen
             then (None, parserFail p1 (''missing closing '' @ quoted (CHR '')'')))
             else let p2 = p1\<lparr>ps_pos := ps_pos p1 + 1\<rparr>
                  in if \<not> capturing then (Some body, p2)
                     else case parserNode p2 NODE_GROUP of
                            (None, p3) \<Rightarrow> (None, p3)
                          | (Some node, p3) \<Rightarrow>
                              (Some node, parserSet p3 node
                                 (\<lambda>n. n\<lparr>nd_a := body, nd_group := grp\<rparr>)))"

text \<open>A binary node over two finished parts.\<close>

definition joinNode ::
    "RegexNodeKind \<Rightarrow> nat \<Rightarrow> nat \<Rightarrow> RegexParser \<Rightarrow> nat option \<times> RegexParser" where
  "joinNode kind left right p =
     (case parserNode p kind of
        (None, p1) \<Rightarrow> (None, p1)
      | (Some node, p1) \<Rightarrow>
          (Some node, parserSet p1 node (\<lambda>n. n\<lparr>nd_a := left, nd_b := right\<rparr>)))"

type_synonym parse_result = "(nat option \<times> RegexParser) option"

fun parseAlternation :: "nat \<Rightarrow> RegexParser \<Rightarrow> parse_result"
  and parseAltLoop :: "nat \<Rightarrow> nat \<Rightarrow> RegexParser \<Rightarrow> parse_result"
  and parseConcat :: "nat \<Rightarrow> nat option \<Rightarrow> RegexParser \<Rightarrow> parse_result"
  and parseRepeat :: "nat \<Rightarrow> RegexParser \<Rightarrow> parse_result"
  and parseAtom :: "nat \<Rightarrow> RegexParser \<Rightarrow> parse_result"
  and parseGroup :: "nat \<Rightarrow> RegexParser \<Rightarrow> parse_result"
where
  "parseAlternation 0 p = None"
| "parseAlternation (Suc f) p =
     (case parseConcat f None p of
        None \<Rightarrow> None
      | Some (None, p1) \<Rightarrow> Some (None, p1)
      | Some (Some left, p1) \<Rightarrow> parseAltLoop f left p1)"
| "parseAltLoop 0 left p = None"
| "parseAltLoop (Suc f) left p =
     (if ps_pos p < plen p \<and> pchar p (ps_pos p) = ch_bar then
        case parseConcat f None (p\<lparr>ps_pos := ps_pos p + 1\<rparr>) of
          None \<Rightarrow> None
        | Some (None, p1) \<Rightarrow> Some (None, p1)
        | Some (Some right, p1) \<Rightarrow>
            (case joinNode NODE_ALT left right p1 of
               (None, p2) \<Rightarrow> Some (None, p2)
             | (Some alt, p2) \<Rightarrow> parseAltLoop f alt p2)
      else Some (Some left, p))"
| "parseConcat 0 head p = None"
| "parseConcat (Suc f) head p =
     (if ps_pos p \<ge> plen p \<or> pchar p (ps_pos p) = ch_bar \<or> pchar p (ps_pos p) = ch_rparen
      then (case head of
              None \<Rightarrow> Some (parserNode p NODE_EMPTY)
            | Some h \<Rightarrow> Some (Some h, p))
      else case parseRepeat f p of
             None \<Rightarrow> None
           | Some (None, p1) \<Rightarrow> Some (None, p1)
           | Some (Some piece, p1) \<Rightarrow>
               (case head of
                  None \<Rightarrow> parseConcat f (Some piece) p1
                | Some h \<Rightarrow>
                    (case joinNode NODE_CONCAT h piece p1 of
                       (None, p2) \<Rightarrow> Some (None, p2)
                     | (Some cat, p2) \<Rightarrow> parseConcat f (Some cat) p2)))"
| "parseRepeat 0 p = None"
| "parseRepeat (Suc f) p =
     (case parseAtom f p of
        None \<Rightarrow> None
      | Some (None, p1) \<Rightarrow> Some (None, p1)
      | Some (Some atom, p1) \<Rightarrow> Some (parseQuantifier atom p1))"
| "parseAtom 0 p = None"
| "parseAtom (Suc f) p =
     (if pchar p (ps_pos p) = ch_lparen then parseGroup f p else Some (parseLeaf p))"
| "parseGroup 0 p = None"
| "parseGroup (Suc f) p =
     (case groupOpen p of
        (None, p1) \<Rightarrow> Some (None, p1)
      | (Some (grp, capturing), p1) \<Rightarrow>
          (case parseAlternation f p1 of
             None \<Rightarrow> None
           | Some (body, p2) \<Rightarrow> Some (groupClose grp capturing body p2)))"

section \<open>The public operations\<close>

definition RegexParser_3 :: "arena \<Rightarrow> u8 list \<Rightarrow> bool \<Rightarrow> RegexParser" where
  "RegexParser_3 m pattern ignoreCase =
     \<lparr>ps_pattern = pattern, ps_pos = 0, ps_ignoreCase = ignoreCase,
      ps_nodes = RegexNodeList_0, ps_classes = [], ps_classCapacity = 0, ps_groupCount = 0,
      ps_depth = 0, ps_failed = False, ps_error = None, ps_arena = m\<rparr>"

definition parseFuel :: "RegexParser \<Rightarrow> nat" where
  "parseFuel p = 6 * plen p + 6"

definition RegexParser_parse :: "RegexParser \<Rightarrow> parse_result" where
  "RegexParser_parse p =
     (if plen p = 0 then parseAlternation (parseFuel p) p
      else case parseAlternation (parseFuel p) p of
             None \<Rightarrow> None
           | Some (None, p1) \<Rightarrow> Some (None, p1)
           | Some (Some root, p1) \<Rightarrow>
               if ps_failed p1 then Some (None, p1)
               else if ps_pos p1 \<noteq> plen p1
               then Some (None, parserFail p1 (''unexpected '' @ quoted (CHR '')'')))
               else Some (Some root, p1))"

definition RegexParser_ok :: "RegexParser \<Rightarrow> bool" where
  "RegexParser_ok p \<longleftrightarrow> \<not> ps_failed p"

definition RegexParser_error :: "RegexParser \<Rightarrow> string option" where
  "RegexParser_error p = ps_error p"

definition RegexParser_nodes :: "RegexParser \<Rightarrow> RegexNodeList" where
  "RegexParser_nodes p = ps_nodes p"

definition RegexParser_groupCount :: "RegexParser \<Rightarrow> nat" where
  "RegexParser_groupCount p = ps_groupCount p"

definition RegexParser_releaseClasses :: "RegexParser \<Rightarrow> RegexCharClass list \<times> RegexParser" where
  "RegexParser_releaseClasses p = (ps_classes p, p\<lparr>ps_classes := [], ps_classCapacity := 0\<rparr>)"

definition RegexParser_free :: "RegexParser \<Rightarrow> RegexParser" where
  "RegexParser_free p = RegexParser_3 (ps_arena p) [] False"

end
