(* ===== verification/Regex_ParserWf.thy ===== *)
theory Regex_ParserWf
  imports Regex_Parser
begin

text \<open>
  What every parser function keeps and delivers: the tree and the bitmaps only grow, every
  node refers to earlier nodes, to existing bitmaps and to counted groups, the ceilings hold,
  and a refusal always leaves a recorded reason.
\<close>

section \<open>Well-formed trees\<close>

definition nodeOk :: "nat \<Rightarrow> nat \<Rightarrow> nat \<Rightarrow> RegexNode \<Rightarrow> bool" where
  "nodeOk i classCount groupCount n =
     (case nd_kind n of
        NODE_CLASS \<Rightarrow> nd_clsIndex n < classCount
      | NODE_CONCAT \<Rightarrow> nd_a n < i \<and> nd_b n < i
      | NODE_ALT \<Rightarrow> nd_a n < i \<and> nd_b n < i
      | NODE_STAR \<Rightarrow> nd_a n < i
      | NODE_PLUS \<Rightarrow> nd_a n < i
      | NODE_QUEST \<Rightarrow> nd_a n < i
      | NODE_REPEAT \<Rightarrow> nd_a n < i \<and> nd_repMin n \<le> REGEX_MAX_REPEAT \<and>
          (nd_repMax n = REGEX_REP_INF \<or>
           nd_repMin n \<le> nd_repMax n \<and> nd_repMax n \<le> REGEX_MAX_REPEAT)
      | NODE_GROUP \<Rightarrow> nd_a n < i \<and> 0 < nd_group n \<and> nd_group n \<le> groupCount
      | _ \<Rightarrow> True)"

definition treeWf :: "RegexNode list \<Rightarrow> nat \<Rightarrow> nat \<Rightarrow> bool" where
  "treeWf ns classCount groupCount \<longleftrightarrow>
     (\<forall>i < length ns. nodeOk i classCount groupCount (ns ! i))"

lemma nodeOk_mono:
  "nodeOk i c g n \<Longrightarrow> c \<le> c' \<Longrightarrow> g \<le> g' \<Longrightarrow> nodeOk i c' g' n"
  by (auto simp: nodeOk_def split: RegexNodeKind.splits)

lemma treeWf_mono: "treeWf ns c g \<Longrightarrow> c \<le> c' \<Longrightarrow> g \<le> g' \<Longrightarrow> treeWf ns c' g'"
  by (auto simp: treeWf_def intro: nodeOk_mono)

lemma treeWf_Suc: "treeWf ns c g \<Longrightarrow> treeWf ns (Suc c) g"
  by (erule treeWf_mono) simp_all

lemma treeWf_snoc:
  "treeWf (ns @ [n]) c g \<longleftrightarrow> treeWf ns c g \<and> nodeOk (length ns) c g n"
  by (auto simp: treeWf_def nth_append less_Suc_eq)

lemma treeWf_Nil [simp]: "treeWf [] c g"
  by (simp add: treeWf_def)

section \<open>The parser invariant\<close>

definition parserWf :: "RegexParser \<Rightarrow> bool" where
  "parserWf p \<longleftrightarrow>
     ps_pos p \<le> plen p \<and>
     nl_count (ps_nodes p) \<le> REGEX_MAX_NODES \<and>
     nl_count (ps_nodes p) \<le> nl_capacity (ps_nodes p) \<and>
     nl_capacity (ps_nodes p) \<le> 2 * REGEX_MAX_NODES \<and>
     length (ps_classes p) \<le> REGEX_MAX_CLASSES \<and>
     length (ps_classes p) \<le> ps_classCapacity p \<and>
     ps_depth p \<le> REGEX_MAX_DEPTH \<and>
     list_all classWf (ps_classes p) \<and>
     treeWf (nl_nodes (ps_nodes p)) (length (ps_classes p)) (ps_groupCount p)"

definition extends :: "RegexParser \<Rightarrow> RegexParser \<Rightarrow> bool" where
  "extends p p' \<longleftrightarrow>
     ps_pattern p' = ps_pattern p \<and> ps_pos p \<le> ps_pos p' \<and>
     ps_ignoreCase p' = ps_ignoreCase p \<and> ps_depth p' = ps_depth p \<and>
     ps_groupCount p \<le> ps_groupCount p' \<and>
     (\<exists>ns. nl_nodes (ps_nodes p') = nl_nodes (ps_nodes p) @ ns) \<and>
     (\<exists>cs. ps_classes p' = ps_classes p @ cs)"

definition delivers :: "nat option \<Rightarrow> RegexParser \<Rightarrow> RegexParser \<Rightarrow> bool" where
  "delivers r p p' \<longleftrightarrow> parserWf p' \<and> extends p p' \<and>
     (case r of
        None \<Rightarrow> ps_failed p'
      | Some i \<Rightarrow> ps_failed p' = ps_failed p \<and> i < nl_count (ps_nodes p'))"

lemma extends_refl [simp]: "extends p p"
  by (simp add: extends_def)

lemma extends_trans: "extends p q \<Longrightarrow> extends q r \<Longrightarrow> extends p r"
  by (auto simp: extends_def)

lemma extends_count: "extends p q \<Longrightarrow> nl_count (ps_nodes p) \<le> nl_count (ps_nodes q)"
  by (auto simp: extends_def nl_count_def)

lemma extends_classCount: "extends p q \<Longrightarrow> length (ps_classes p) \<le> length (ps_classes q)"
  by (auto simp: extends_def)

lemma delivers_after: "extends p q \<Longrightarrow> ps_failed q = ps_failed p \<Longrightarrow> delivers r q s \<Longrightarrow> delivers r p s"
  by (auto simp: delivers_def intro: extends_trans split: option.splits)

lemma delivers_refused: "delivers None p q \<Longrightarrow> extends o1 p \<Longrightarrow> delivers None o1 q"
  by (auto simp: delivers_def intro: extends_trans)

lemma parserWf_parserFail [simp]: "parserWf (parserFail p m) = parserWf p"
  by (simp add: parserWf_def)

lemma extends_parserFail [simp]: "extends p (parserFail q m) = extends p q"
  by (simp add: extends_def)

lemma delivers_fail [simp]: "delivers None p (parserFail q m) = (parserWf q \<and> extends p q)"
  by (auto simp: delivers_def)

section \<open>Adding a node\<close>

definition addNode ::
    "RegexParser \<Rightarrow> RegexNodeKind \<Rightarrow> (RegexNode \<Rightarrow> RegexNode) \<Rightarrow> nat option \<times> RegexParser" where
  "addNode p kind f =
     (case parserNode p kind of
        (None, p1) \<Rightarrow> (None, p1)
      | (Some node, p1) \<Rightarrow> (Some node, parserSet p1 node f))"

lemma parserNode_None:
  "parserNode p kind = (None, p') \<Longrightarrow> parserWf p \<Longrightarrow> delivers None p p'"
  by (auto simp: parserNode_def Let_def split: if_splits prod.splits
      dest!: RegexNodeList_add_refused) (auto simp: parserWf_def extends_def)

text \<open>\<open>grown p n p'\<close>: one node \<open>n\<close> was appended and nothing else the grammar sees changed.\<close>

definition grown :: "RegexParser \<Rightarrow> RegexNode \<Rightarrow> RegexParser \<Rightarrow> bool" where
  "grown p n p' \<longleftrightarrow>
     ps_pattern p' = ps_pattern p \<and> ps_pos p' = ps_pos p \<and>
     ps_ignoreCase p' = ps_ignoreCase p \<and> ps_classes p' = ps_classes p \<and>
     ps_classCapacity p' = ps_classCapacity p \<and> ps_groupCount p' = ps_groupCount p \<and>
     ps_depth p' = ps_depth p \<and> ps_failed p' = ps_failed p \<and> ps_error p' = ps_error p \<and>
     nl_nodes (ps_nodes p') = nl_nodes (ps_nodes p) @ [n] \<and>
     nl_count (ps_nodes p) < REGEX_MAX_NODES \<and>
     nl_count (ps_nodes p) < nl_capacity (ps_nodes p') \<and>
     nl_capacity (ps_nodes p') \<le> 2 * REGEX_MAX_NODES"

lemma parserNode_Some:
  assumes "parserNode p kind = (Some i, p')" and "parserWf p"
  shows "i = nl_count (ps_nodes p) \<and> grown p (zeroNode kind) p'"
proof -
  obtain nodes' m' where add: "RegexNodeList_add (ps_arena p) (ps_nodes p) kind = (Some i, nodes', m')"
    and p': "p' = p\<lparr>ps_nodes := nodes', ps_arena := m'\<rparr>"
    and small: "nl_count (ps_nodes p) < REGEX_MAX_NODES"
    using assms(1) by (auto simp: parserNode_def Let_def split: if_splits prod.splits)
  have wf: "nl_count (ps_nodes p) \<le> nl_capacity (ps_nodes p)"
      "nl_capacity (ps_nodes p) \<le> 2 * REGEX_MAX_NODES"
    using assms(2) by (simp_all add: parserWf_def)
  have "i = nl_count (ps_nodes p)"
    and "nl_nodes nodes' = nl_nodes (ps_nodes p) @ [zeroNode kind]"
    using add by (auto elim: RegexNodeList_add_cases)
  moreover have "nl_count (ps_nodes p) < nl_capacity nodes'"
      "nl_capacity nodes' \<le> 2 * REGEX_MAX_NODES"
    using add wf small
    by (auto elim!: RegexNodeList_add_cases
        simp: REGEX_MAX_NODES_def REGEX_NODELIST_SEED_CAPACITY_def)
  ultimately show ?thesis
    using p' small by (simp add: grown_def)
qed

lemma grown_parserSet:
  "grown p n p1 \<Longrightarrow> grown p (f n) (parserSet p1 (nl_count (ps_nodes p)) f)"
  by (simp add: grown_def parserSet_def nodeWrite_def RegexNodeList_get_def nl_count_def)

lemma addNode_Some:
  assumes "addNode p kind f = (Some i, p')" and "parserWf p"
  shows "i = nl_count (ps_nodes p) \<and> grown p (f (zeroNode kind)) p'"
proof -
  obtain p1 where p1: "parserNode p kind = (Some i, p1)" and p': "p' = parserSet p1 i f"
    using assms(1) by (auto simp: addNode_def split: prod.splits option.splits)
  show ?thesis
    using parserNode_Some [OF p1 assms(2)] grown_parserSet p' by blast
qed

lemma grown_delivers:
  "grown p n p' \<Longrightarrow> parserWf p \<Longrightarrow>
   nodeOk (nl_count (ps_nodes p)) (length (ps_classes p)) (ps_groupCount p) n \<Longrightarrow>
   delivers (Some (nl_count (ps_nodes p))) p p'"
  by (simp add: grown_def delivers_def parserWf_def extends_def nl_count_def treeWf_snoc)

lemma addNode_None:
  "addNode p kind f = (None, p') \<Longrightarrow> parserWf p \<Longrightarrow> delivers None p p'"
  by (auto simp: addNode_def split: prod.splits option.splits dest: parserNode_None)

lemma addNode_delivers:
  assumes "addNode p kind f = (r, p')" and "parserWf p"
    and "nodeOk (nl_count (ps_nodes p)) (length (ps_classes p)) (ps_groupCount p) (f (zeroNode kind))"
  shows "delivers r p p'"
  using assms addNode_Some [of p kind f _ p'] addNode_None [of p kind f p']
  by (cases r) (auto dest: grown_delivers)

lemma parserSet_id: "parserSet p i (\<lambda>n. n) = p"
  by (auto simp: parserSet_def nodeWrite_def RegexNodeList_get_def nl_count_def)

lemma parserNode_addNode: "parserNode p kind = addNode p kind (\<lambda>n. n)"
  by (auto simp: addNode_def parserSet_id split: prod.splits option.splits)

lemma joinNode_addNode:
  "joinNode kind l r p = addNode p kind (\<lambda>n. n\<lparr>nd_a := l, nd_b := r\<rparr>)"
  by (simp add: joinNode_def addNode_def)

lemma parseCharNode_addNode:
  "parseCharNode b p =
   addNode p NODE_CHAR (\<lambda>n. n\<lparr>nd_byte := if ps_ignoreCase p then lowerByte b else b\<rparr>)"
  by (simp add: parseCharNode_def addNode_def)

lemma wrapNode_addNode:
  assumes "parserWf p"
  shows "wrapNode atom kind lo hi hasMax p =
    (case addNode p kind (\<lambda>n. (if kind = NODE_REPEAT
        then (n\<lparr>nd_a := atom\<rparr>)\<lparr>nd_repMin := lo, nd_repMax := if hasMax then hi else REGEX_REP_INF\<rparr>
        else n\<lparr>nd_a := atom\<rparr>)) of
       (None, p1) \<Rightarrow> (None, p1)
     | (Some w, p3) \<Rightarrow>
         if stackedQuantifier p3
         then (None, parserFail p3 ''stacked, lazy or possessive quantifier unsupported'')
         else (Some w, p3))"
proof (cases "parserNode p kind")
  case (Pair r p1)
  have twice: "w < nl_count (ps_nodes p1) \<Longrightarrow>
      parserSet (parserSet p1 w f) w g = parserSet p1 w (\<lambda>n. g (f n))" for w f g
    by (simp add: parserSet_def nodeWrite_def RegexNodeList_get_def nl_count_def)
  show ?thesis
  proof (cases r)
    case None
    then show ?thesis using Pair by (simp add: wrapNode_def addNode_def)
  next
    case (Some w)
    have "w < nl_count (ps_nodes p1)"
      using parserNode_Some [of p kind w p1] Pair Some assms by (auto simp: nl_count_def grown_def)
    then show ?thesis
      using Pair Some by (simp add: wrapNode_def addNode_def Let_def twice)
  qed
qed

section \<open>Bracket expressions\<close>

text \<open>\<open>classEdit i p p'\<close>: only bitmap \<open>i\<close> and the cursor changed.\<close>

definition classEdit :: "nat \<Rightarrow> RegexParser \<Rightarrow> RegexParser \<Rightarrow> bool" where
  "classEdit i p p' \<longleftrightarrow>
     advances p p' \<and> ps_ignoreCase p' = ps_ignoreCase p \<and> ps_nodes p' = ps_nodes p \<and>
     ps_classCapacity p' = ps_classCapacity p \<and> ps_groupCount p' = ps_groupCount p \<and>
     ps_depth p' = ps_depth p \<and>
     (\<exists>c. ps_classes p' = (ps_classes p)[i := c] \<and> (list_all classWf (ps_classes p) \<longrightarrow>
            i < length (ps_classes p) \<longrightarrow> classWf c))"

lemma list_all_nth_update:
  "list_all P xs \<Longrightarrow> (i < length xs \<Longrightarrow> P c) \<Longrightarrow> list_all P (xs[i := c])"
  by (cases "i < length xs") (auto simp: list_all_length nth_list_update)

lemma classEdit_classes:
  "classEdit i p p' \<Longrightarrow> list_all classWf (ps_classes p) \<Longrightarrow> list_all classWf (ps_classes p')"
  by (auto simp: classEdit_def intro: list_all_nth_update)

lemma classEdit_refl [simp]: "classEdit i p p"
  by (auto simp: classEdit_def advances_def list_all_length intro: exI [of _ "ps_classes p ! i"])

lemma classEdit_trans:
  assumes "classEdit i p q" and "classEdit i q r"
  shows "classEdit i p r"
proof -
  obtain c d where c: "ps_classes q = (ps_classes p)[i := c]"
      "list_all classWf (ps_classes p) \<longrightarrow> i < length (ps_classes p) \<longrightarrow> classWf c"
    and d: "ps_classes r = (ps_classes q)[i := d]"
      "list_all classWf (ps_classes q) \<longrightarrow> i < length (ps_classes q) \<longrightarrow> classWf d"
    using assms by (auto simp: classEdit_def)
  have "list_all classWf (ps_classes p) \<longrightarrow> i < length (ps_classes p) \<longrightarrow> classWf d"
    using c d by (auto intro: list_all_nth_update)
  moreover have "advances p r"
    using assms by (auto simp: classEdit_def advances_def)
  ultimately show ?thesis
    using assms c d by (auto simp: classEdit_def)
qed

lemma classEdit_parserFail [simp]: "classEdit i p (parserFail q m) = classEdit i p q"
  by (simp add: classEdit_def advances_def)

lemma classEdit_set:
  "(\<And>c. classWf c \<Longrightarrow> classWf (f c)) \<Longrightarrow> classEdit i p (parserClassSet p i f)"
  by (auto simp: classEdit_def advances_def parserClassSet_def list_all_length)

lemma classEdit_skip:
  "ps_pos p + n \<le> plen p \<Longrightarrow> classEdit i p (p\<lparr>ps_pos := ps_pos p + n\<rparr>)"
  by (auto simp: classEdit_def advances_def list_all_length intro: exI [of _ "ps_classes p ! i"])

text \<open>The bit of information a failed step adds: the flag is set, otherwise it is unchanged.\<close>

definition flagged :: "bool \<Rightarrow> RegexParser \<Rightarrow> RegexParser \<Rightarrow> bool" where
  "flagged ok p p' \<longleftrightarrow> (if ok then ps_failed p' = ps_failed p else ps_failed p')"

lemma parseEscapeByte_frame:
  "parseEscapeByte p = (r, p') \<Longrightarrow>
   ps_ignoreCase p' = ps_ignoreCase p \<and> ps_nodes p' = ps_nodes p \<and>
   ps_classes p' = ps_classes p \<and> ps_classCapacity p' = ps_classCapacity p \<and>
   ps_groupCount p' = ps_groupCount p \<and> ps_depth p' = ps_depth p \<and>
   flagged (r \<noteq> None) p p'"
  by (auto simp: parseEscapeByte_def Let_def flagged_def split: if_splits option.splits)

lemma parseEscapeByte_classEdit: "parseEscapeByte p = (r, p') \<Longrightarrow> classEdit i p p'"
  using parseEscapeByte_frame [of p r p'] parseEscapeByte_advances [of p r p']
  by (auto simp: classEdit_def list_all_length intro: exI [of _ "ps_classes p ! i"])

lemma parseClassHi_edit:
  assumes "parseClassHi i lo p = (ok, p')" and "ps_pos p + 1 < plen p"
  shows "classEdit i p p' \<and> flagged ok p p'"
proof -
  let ?p1 = "p\<lparr>ps_pos := ps_pos p + 1\<rparr>"
  let ?p2 = "?p1\<lparr>ps_pos := ps_pos ?p1 + 1\<rparr>"
  have e1: "classEdit i p ?p1" using assms(2) by (intro classEdit_skip) simp
  have e2: "classEdit i p ?p2"
    using e1 classEdit_skip [of ?p1 1 i] assms(2) by (auto elim: classEdit_trans)
  have esc: "classEdit i p q \<and> ps_ignoreCase q = ps_ignoreCase p \<and> flagged (r \<noteq> None) p q"
    if "parseEscapeByte ?p2 = (r, q)" for r q
    using that e2 parseEscapeByte_classEdit [OF that, of i] parseEscapeByte_frame [OF that]
    by (auto simp: flagged_def elim: classEdit_trans)
  have range: "classEdit i p (parserClassSet q i (\<lambda>c. RegexCharClass_addRange c lo hi b))"
    if "classEdit i p q" for q lo hi b
    using that by (rule classEdit_trans) (simp add: classEdit_set)
  show ?thesis
    using assms(1) e2 esc
    by (auto simp: parseClassHi_def Let_def flagged_def intro: range
        split: if_splits option.splits prod.splits)
qed

lemma parseClassLo_edit:
  "parseClassLo i lo p = (ok, p') \<Longrightarrow> classEdit i p p' \<and> flagged ok p p'"
  by (auto simp: parseClassLo_def flagged_def classEdit_set split: if_splits
      dest: parseClassHi_edit)

lemma parseClassItem_edit:
  assumes "parseClassItem i p = (ok, p')" and "ps_pos p < plen p"
  shows "classEdit i p p' \<and> flagged ok p p'"
proof -
  let ?p1 = "p\<lparr>ps_pos := ps_pos p + 1\<rparr>"
  have e1: "classEdit i p ?p1" using assms(2) by (intro classEdit_skip) simp
  have lo: "classEdit i p q' \<and> flagged ok p q'"
    if "parseClassLo i b q = (ok, q')" "classEdit i p q" "ps_failed q = ps_failed p" for b q q' ok
    using parseClassLo_edit [OF that(1)] that(2,3) by (auto simp: flagged_def elim: classEdit_trans)
  have esc: "classEdit i p q \<and> flagged (r \<noteq> None) p q"
    if "parseEscapeByte ?p1 = (r, q)" for r q
    using e1 parseEscapeByte_classEdit [OF that, of i] parseEscapeByte_frame [OF that]
    by (auto simp: flagged_def elim: classEdit_trans)
  have pre: "classEdit i p ((parserClassSet ?p1 i f)\<lparr>ps_pos := ps_pos ?p1 + 1\<rparr>)"
    if "ps_pos ?p1 < plen ?p1" "\<And>c. classWf c \<Longrightarrow> classWf (f c)" for f
    using classEdit_trans [OF e1 classEdit_set [of f i ?p1]]
      classEdit_skip [of "parserClassSet ?p1 i f" 1 i] that
    by (auto elim!: classEdit_trans)
  show ?thesis
  proof (cases "pchar p (ps_pos p) = ch_backslash")
    case True
    then show ?thesis
      using assms(1) pre esc lo
      by (auto simp: parseClassItem_def Let_def flagged_def split: if_splits option.splits prod.splits)
  next
    case False
    then show ?thesis
      using assms(1) lo [where q = ?p1] e1 by (simp add: parseClassItem_def Let_def)
  qed
qed

lemma parseClassLoop_edit:
  "parseClassLoop i first p = (e, p') \<Longrightarrow>
   classEdit i p p' \<and> (if e = ClassRefused then ps_failed p' else ps_failed p' = ps_failed p)"
proof (induction i first p arbitrary: e p' rule: parseClassLoop.induct)
  case (1 i first p)
  show ?case
  proof (cases "ps_pos p < plen p")
    case False
    with "1.prems" show ?thesis by (auto simp: parseClassLoop.simps [of i first p])
  next
    case inside: True
    show ?thesis
    proof (cases "pchar p (ps_pos p) = ch_rbracket \<and> \<not> first")
      case True
      then have "parseClassLoop i first p = (ClassClosed, p\<lparr>ps_pos := ps_pos p + 1\<rparr>)"
        using inside by (subst parseClassLoop.simps) simp
      then show ?thesis
        using inside "1.prems" classEdit_skip [of p 1 i] by auto
    next
      case False
      obtain ok p1 where item: "parseClassItem i p = (ok, p1)" by fastforce
      note edit = parseClassItem_edit [OF item inside]
      have unf: "parseClassLoop i first p = (case parseClassItem i p of
          (False, p1) \<Rightarrow> (ClassRefused, p1) | (True, p1) \<Rightarrow> parseClassLoop i False p1)"
        using inside False by (subst parseClassLoop.simps) auto
      show ?thesis
      proof (cases ok)
        case True
        then have "parseClassLoop i False p1 = (e, p')"
          using unf item "1.prems" by simp
        from "1.IH" [OF inside False item [symmetric] _ this] edit True show ?thesis
          by (auto simp: flagged_def elim: classEdit_trans split: if_splits)
      next
        case f: False
        then show ?thesis
          using unf item "1.prems" edit by (auto simp: flagged_def)
      qed
    qed
  qed
qed

section \<open>Classes, atoms and quantifiers deliver\<close>

lemma parserAddClass_None: "parserAddClass p = (None, p') \<Longrightarrow> parserWf p \<Longrightarrow> delivers None p p'"
  by (auto simp: parserAddClass_def Let_def split: if_splits prod.splits)
    (auto simp: parserWf_def extends_def delivers_def)

lemma parserAddClass_Some:
  assumes "parserAddClass p = (Some i, p')" and "parserWf p"
  shows "i = length (ps_classes p) \<and> length (ps_classes p') = Suc i \<and> parserWf p' \<and>
    extends p p' \<and> ps_failed p' = ps_failed p \<and> ps_nodes p' = ps_nodes p \<and>
    ps_pos p' = ps_pos p \<and> ps_groupCount p' = ps_groupCount p"
proof -
  have "classWf (RegexCharClass_clear \<lparr>bits = replicate 32 0\<rparr>)"
    by (rule classWf_clear) (simp add: classWf_def REGEX_CLASS_BYTES_def)
  then show ?thesis
    using assms
    by (auto simp: parserAddClass_def Let_def parserWf_def extends_def REGEX_MAX_CLASSES_def
        split: if_splits prod.splits intro: treeWf_Suc)
qed

text \<open>Editing the newest bitmap keeps everything older.\<close>

lemma classEdit_delivers:
  assumes "classEdit i p p'" and "parserWf p" and "length (ps_classes p) = Suc i"
    and "extends o1 p" and "length (ps_classes o1) = i"
  shows "parserWf p' \<and> extends o1 p' \<and> length (ps_classes p') = Suc i"
proof -
  obtain cs where cs: "ps_classes p = ps_classes o1 @ cs"
    using assms(4) by (auto simp: extends_def)
  obtain c where c: "ps_classes p' = (ps_classes p)[i := c]"
    using assms(1) by (auto simp: classEdit_def)
  have "ps_classes p' = ps_classes o1 @ cs[0 := c]"
    using c cs assms(5) by (simp add: list_update_append)
  then have ext: "extends o1 p'"
    using assms(1,4) by (auto simp: extends_def classEdit_def advances_def)
  have len: "length (ps_classes p') = length (ps_classes p)"
    using c by simp
  have "parserWf p'"
    using assms(1,2) len classEdit_classes [OF assms(1)]
    by (simp add: parserWf_def classEdit_def advances_def)
  then show ?thesis
    using ext len assms(3) by simp
qed

definition classDelivers :: "nat option \<Rightarrow> RegexParser \<Rightarrow> RegexParser \<Rightarrow> bool" where
  "classDelivers r p p' \<longleftrightarrow> parserWf p' \<and> extends p p' \<and>
     (case r of
        None \<Rightarrow> ps_failed p'
      | Some i \<Rightarrow> ps_failed p' = ps_failed p \<and> i < length (ps_classes p'))"

lemma parserWf_skip:
  "parserWf p \<Longrightarrow> ps_pos p + n \<le> plen p \<Longrightarrow> parserWf (p\<lparr>ps_pos := ps_pos p + n\<rparr>)"
  by (simp add: parserWf_def)

lemma extends_skip: "extends p (p\<lparr>ps_pos := ps_pos p + n\<rparr>)"
  by (simp add: extends_def)

lemma parseClass_delivers:
  assumes call: "parseClass p = (r, p')" and wf: "parserWf p" and inside: "ps_pos p < plen p"
  shows "classDelivers r p p' \<and> (r \<noteq> None \<longrightarrow> ps_pos p < ps_pos p')"
proof -
  define p1 where "p1 = p\<lparr>ps_pos := ps_pos p + 1\<rparr>"
  define negate where "negate \<longleftrightarrow> ps_pos p1 < plen p1 \<and> pchar p1 (ps_pos p1) = ch_caret"
  define p2 where "p2 = (if negate then p1\<lparr>ps_pos := ps_pos p1 + 1\<rparr> else p1)"
  have p2: "parserWf p2" "extends p p2" "ps_pos p < ps_pos p2" "ps_failed p2 = ps_failed p"
      "length (ps_classes p2) = length (ps_classes p)"
    using wf inside parserWf_skip [of p 1] parserWf_skip [of p1 1]
    by (auto simp: p2_def p1_def negate_def extends_def)
  obtain ri p3 where add: "parserAddClass p2 = (ri, p3)" by fastforce
  have unf: "parseClass p = (case ri of
      None \<Rightarrow> (None, p3)
    | Some index \<Rightarrow>
        (case parseClassLoop index True p3 of
           (ClassRefused, p4) \<Rightarrow> (None, p4)
         | (ClassOpen, p4) \<Rightarrow> (None, parserFail p4 (''missing closing '' @ quoted (CHR '']'')))
         | (ClassClosed, p4) \<Rightarrow>
             (Some index, if negate then parserClassSet p4 index RegexCharClass_negate else p4)))"
    unfolding parseClass_def Let_def p1_def [symmetric] negate_def [symmetric] p2_def [symmetric] add
    by (simp split: option.splits)
  show ?thesis
  proof (cases ri)
    case None
    then show ?thesis
      using unf call add parserAddClass_None p2
      by (auto simp: delivers_def classDelivers_def intro: extends_trans)
  next
    case (Some i)
    note added = parserAddClass_Some [OF add [unfolded Some] p2(1)]
    obtain e p4 where loop: "parseClassLoop i True p3 = (e, p4)" by fastforce
    note edit = parseClassLoop_edit [OF loop]
    have keep: "parserWf q \<and> extends p q \<and> length (ps_classes q) = Suc i \<and> ps_pos p < ps_pos q"
      if "classEdit i p3 q" for q
      using classEdit_delivers [OF that, of p2] added p2 extends_trans [OF p2(2), of q] that
      by (auto simp: classEdit_def advances_def)
    have neg: "classEdit i p3 (parserClassSet p4 i RegexCharClass_negate)"
      using edit by (blast intro: classEdit_trans classEdit_set classWf_negate)
    show ?thesis
      using call unf Some loop edit keep [of p4] keep [OF neg] added p2
      by (cases e) (auto simp: classDelivers_def split: if_splits)
  qed
qed

lemma parsePredefined_delivers:
  assumes "parsePredefined p = (r, p')" and "parserWf p" and "ps_pos p < plen p"
  shows "classDelivers r p p' \<and> (r \<noteq> None \<longrightarrow> ps_pos p < ps_pos p')"
proof (cases "parserAddClass p")
  case (Pair ri p1)
  show ?thesis
  proof (cases ri)
    case None
    then show ?thesis
      using Pair assms parserAddClass_None
      by (auto simp: parsePredefined_def delivers_def classDelivers_def)
  next
    case (Some i)
    note added = parserAddClass_Some [OF Pair [unfolded Some] assms(2)]
    let ?f = "\<lambda>cls. RegexCharClass_addPredefined cls (pchar p1 (ps_pos p1))"
    let ?q = "(parserClassSet p1 i ?f)\<lparr>ps_pos := ps_pos p1 + 1\<rparr>"
    have "classEdit i p1 ?q"
      using classEdit_trans [OF classEdit_set [of ?f i p1]
          classEdit_skip [of "parserClassSet p1 i ?f" 1 i]] added assms(3)
      by (simp add: extends_def)
    from classEdit_delivers [OF this] added show ?thesis
      using Pair Some assms(1) by (auto simp: parsePredefined_def classDelivers_def)
  qed
qed

lemma parseClassNode_delivers:
  assumes "parseClassNode (ri, q) = (r, p')" and "classDelivers ri p q"
  shows "delivers r p p' \<and> (r \<noteq> None \<longrightarrow> ri \<noteq> None \<and> ps_pos p' = ps_pos q)"
proof (cases ri)
  case None
  then show ?thesis
    using assms by (auto simp: parseClassNode_def classDelivers_def delivers_def)
next
  case (Some i)
  have add: "addNode q NODE_CLASS (\<lambda>n. n\<lparr>nd_clsIndex := i\<rparr>) = (r, p')"
    using assms(1) Some by (simp add: parseClassNode_def addNode_def)
  have wf: "parserWf q" using assms(2) by (simp add: classDelivers_def)
  have "delivers r q p'"
    using add wf assms(2) Some
    by (rule_tac addNode_delivers) (auto simp: nodeOk_def zeroNode_def classDelivers_def)
  moreover have "r \<noteq> None \<longrightarrow> ps_pos p' = ps_pos q"
    using add wf by (auto dest: addNode_Some simp: grown_def)
  ultimately show ?thesis
    using assms(2) Some by (auto simp: classDelivers_def intro: delivers_after)
qed

lemma addNode_pos: "addNode p kind f = (r, p') \<Longrightarrow> ps_pos p' = ps_pos p"
  by (auto simp: addNode_def parserSet_def parserNode_def Let_def split: if_splits prod.splits option.splits)

lemma parseCharNode_delivers:
  assumes "parseCharNode b p = (r, p')" and "parserWf p"
  shows "delivers r p p' \<and> ps_pos p' = ps_pos p"
  using assms unfolding parseCharNode_addNode
  by (intro conjI addNode_pos addNode_delivers) (auto simp: nodeOk_def zeroNode_def)

lemma parserNode_pos: "parserNode p kind = (r, p') \<Longrightarrow> ps_pos p' = ps_pos p"
  by (auto simp: parserNode_def Let_def split: if_splits prod.splits)

lemma parserNode_delivers:
  assumes "parserNode p kind = (r, p')" and "parserWf p"
    and "kind \<in> {NODE_EMPTY, NODE_ANY, NODE_BOL, NODE_EOL}"
  shows "delivers r p p'"
  using assms unfolding parserNode_addNode
  by (rule_tac addNode_delivers) (auto simp: nodeOk_def zeroNode_def)

lemma parseEscapeAtom_delivers:
  assumes "parseEscapeAtom p = (r, p')" and "parserWf p" and "ps_pos p < plen p"
  shows "delivers r p p' \<and> (r \<noteq> None \<longrightarrow> ps_pos p < ps_pos p')"
proof -
  define p1 where "p1 = p\<lparr>ps_pos := ps_pos p + 1\<rparr>"
  have p1: "parserWf p1" "extends p p1" "ps_failed p1 = ps_failed p" "ps_pos p1 = ps_pos p + 1"
    using assms parserWf_skip [of p 1] by (auto simp: p1_def extends_def)
  show ?thesis
  proof (cases "ps_pos p1 < plen p1 \<and> RegexCharClass_isPredefined (pchar p1 (ps_pos p1))")
    case True
    obtain ri q where q: "parsePredefined p1 = (ri, q)" by fastforce
    have "parseClassNode (ri, q) = (r, p')"
      using assms(1) True q by (simp add: parseEscapeAtom_def Let_def p1_def)
    then show ?thesis
      using parseClassNode_delivers [of ri q r p' p1] parsePredefined_delivers [OF q p1(1)] True p1
      by (auto intro: delivers_after)
  next
    case False
    obtain rb q where q: "parseEscapeByte p1 = (rb, q)" by fastforce
    have "classEdit (length (ps_classes p1)) p1 q"
      by (rule parseEscapeByte_classEdit [OF q])
    then have wf: "parserWf q \<and> extends p1 q"
      using p1(1) parseEscapeByte_frame [OF q]
      by (auto simp: classEdit_def parserWf_def extends_def advances_def)
    have pos: "ps_pos p1 \<le> ps_pos q"
      using parseEscapeByte_advances [OF q] by (simp add: advances_def)
    have r: "(case rb of None \<Rightarrow> (None, q) | Some b \<Rightarrow> parseCharNode b q) = (r, p')"
      using assms(1) False q unfolding parseEscapeAtom_def Let_def p1_def [symmetric]
      by (simp split: option.splits)
    show ?thesis
    proof (cases rb)
      case None
      then show ?thesis
        using r wf p1 parseEscapeByte_frame [OF q]
        by (auto simp: delivers_def flagged_def intro: extends_trans)
    next
      case (Some b)
      then have "delivers r q p' \<and> ps_pos p' = ps_pos q"
        using r wf parseCharNode_delivers [of b q r p'] by simp
      moreover have "extends p q" "ps_failed q = ps_failed p"
        using wf p1 parseEscapeByte_frame [OF q] Some
        by (auto simp: flagged_def intro: extends_trans)
      ultimately show ?thesis
        using pos p1 by (auto intro: delivers_after)
    qed
  qed
qed

lemma parseLeaf_delivers:
  assumes "parseLeaf p = (r, p')" and "parserWf p" and "ps_pos p < plen p"
  shows "delivers r p p' \<and> (r \<noteq> None \<longrightarrow> ps_pos p < ps_pos p')"
proof -
  define p1 where "p1 = p\<lparr>ps_pos := ps_pos p + 1\<rparr>"
  have p1: "parserWf p1" "extends p p1" "ps_failed p1 = ps_failed p" "ps_pos p1 = ps_pos p + 1"
    using assms parserWf_skip [of p 1] by (auto simp: p1_def extends_def)
  have one: "delivers r p p' \<and> (r \<noteq> None \<longrightarrow> ps_pos p < ps_pos p')"
    if "delivers r p1 p' \<and> ps_pos p' = ps_pos p1"
    using that p1 by (auto intro: delivers_after)
  have cls: "delivers r p p' \<and> (r \<noteq> None \<longrightarrow> ps_pos p < ps_pos p')"
    if "parseClassNode (parseClass p) = (r, p')"
    using that parseClass_delivers [of p _ _] assms(2,3)
    by (cases "parseClass p") (auto dest: parseClassNode_delivers)
  show ?thesis
    using assms(1) [unfolded parseLeaf_def Let_def, folded p1_def] one cls parseEscapeAtom_delivers [of p r p'] assms(2,3) p1(1)
      parserNode_delivers [of p1 _ r p'] parserNode_pos [of p1 _ r p']
      parseCharNode_delivers [of _ p1 r p']
    by (auto split: if_splits)
qed

section \<open>Quantifiers\<close>

lemma parseCount_bounds:
  "parseCount p i acc = Some (j, v) \<Longrightarrow> acc \<le> REGEX_MAX_REPEAT \<Longrightarrow>
   i \<le> j \<and> v \<le> REGEX_MAX_REPEAT \<and> (i \<le> plen p \<longrightarrow> j \<le> plen p)"
proof (induction p i acc rule: parseCount.induct)
  case (1 p i acc)
  show ?case
  proof (cases "i < plen p \<and> isAsciiDigit (pchar p i)")
    case True
    let ?acc = "acc * 10 + (unat (pchar p i) - 48)"
    have "\<not> ?acc > REGEX_MAX_REPEAT" "parseCount p (i + 1) ?acc = Some (j, v)"
      using "1.prems"(1) True by (auto simp: parseCount.simps [of p i acc] Let_def split: if_splits)
    with "1.IH" [OF True refl] True show ?thesis by auto
  next
    case False
    with "1.prems" show ?thesis
      by (subst (asm) parseCount.simps) auto
  qed
qed

lemma parseUpper_bounds:
  "parseUpper p i lo = Some (j, hasMax, hi) \<Longrightarrow> lo \<le> REGEX_MAX_REPEAT \<Longrightarrow>
   i \<le> j \<and> hi \<le> REGEX_MAX_REPEAT"
  by (auto simp: parseUpper_def split: if_splits dest!: parseCount_bounds)

lemma parseBraces_cases:
  assumes "parseBraces p = (b, p')" and "ps_pos p < plen p"
  shows "case b of
      NotBraces \<Rightarrow> p' = p
    | BadBraces \<Rightarrow> (\<exists>msg. p' = parserFail p msg)
    | Braces lo hi hasMax \<Rightarrow>
        (\<exists>i. p' = p\<lparr>ps_pos := i\<rparr> \<and> ps_pos p < i \<and> i \<le> plen p) \<and> lo \<le> REGEX_MAX_REPEAT \<and>
        (if hasMax then lo \<le> hi \<and> hi \<le> REGEX_MAX_REPEAT else hi = REGEX_REP_INF)"
proof (cases "ps_pos p + 1 \<ge> plen p \<or> \<not> isAsciiDigit (pchar p (ps_pos p + 1))")
  case True
  then show ?thesis using assms(1) by (auto simp: parseBraces_def)
next
  case False
  show ?thesis
  proof (cases "parseCount p (ps_pos p + 1) 0")
    case None
    then show ?thesis using assms(1) False by (auto simp: parseBraces_def)
  next
    case (Some r)
    obtain i1 lo where r: "r = (i1, lo)" by fastforce
    have lo: "ps_pos p + 1 \<le> i1" "lo \<le> REGEX_MAX_REPEAT"
      using parseCount_bounds [OF Some [unfolded r]] by simp_all
    show ?thesis
    proof (cases "parseUpper p i1 lo")
      case None
      then show ?thesis using assms(1) False Some r by (auto simp: parseBraces_def)
    next
      case upper: (Some u)
      obtain i2 hasMax hi where u: "u = (i2, hasMax, hi)" by (cases u) auto
      have "i1 \<le> i2 \<and> hi \<le> REGEX_MAX_REPEAT"
        by (rule parseUpper_bounds [OF upper [unfolded u] lo(2)])
      then show ?thesis
        using assms(1) False Some r upper u lo
        by (auto simp: parseBraces_def split: if_splits intro!: exI [of _ "Suc i2"])
    qed
  qed
qed

lemma wrapNode_delivers:
  assumes "wrapNode atom kind lo hi hasMax p = (r, p')" and "parserWf p"
    and "atom < nl_count (ps_nodes p)" and "kind \<in> {NODE_STAR, NODE_PLUS, NODE_QUEST, NODE_REPEAT}"
    and "lo \<le> REGEX_MAX_REPEAT" and "hasMax \<longrightarrow> lo \<le> hi \<and> hi \<le> REGEX_MAX_REPEAT"
  shows "delivers r p p'"
proof -
  let ?f = "\<lambda>n. if kind = NODE_REPEAT
        then (n\<lparr>nd_a := atom\<rparr>)\<lparr>nd_repMin := lo, nd_repMax := if hasMax then hi else REGEX_REP_INF\<rparr>
        else n\<lparr>nd_a := atom\<rparr>"
  obtain w q where q: "addNode p kind ?f = (w, q)" by fastforce
  have "delivers w p q"
    using assms by (intro addNode_delivers [OF q]) (auto simp: nodeOk_def zeroNode_def)
  then show ?thesis
    using assms(1) q unfolding wrapNode_addNode [OF assms(2)]
    by (auto simp: delivers_def split: option.splits if_splits)
qed

lemma parseQuantifier_delivers:
  assumes "parseQuantifier atom p = (r, p')" and "parserWf p" and "atom < nl_count (ps_nodes p)"
  shows "delivers r p p'"
proof (cases "ps_pos p < plen p")
  case False
  then show ?thesis using assms by (auto simp: parseQuantifier_def delivers_def)
next
  case True
  define p1 where "p1 = p\<lparr>ps_pos := ps_pos p + 1\<rparr>"
  have p1: "parserWf p1" "extends p p1" "ps_failed p1 = ps_failed p" "ps_nodes p1 = ps_nodes p"
    using assms True parserWf_skip [of p 1] by (auto simp: p1_def extends_def)
  have wrap: "delivers r p p'" if "wrapNode atom kind 0 0 False p1 = (r, p')"
      "kind \<in> {NODE_STAR, NODE_PLUS, NODE_QUEST}" for kind
    using that p1 assms(3)
    by (intro delivers_after [OF p1(2,3)] wrapNode_delivers [OF that(1)]) auto
  show ?thesis
  proof (cases "parseBraces p")
    case (Pair b q)
    note br = parseBraces_cases [OF Pair True]
    have braces: "delivers r p p'"
      if "(case (b, q) of
                (BadBraces, p2) \<Rightarrow> (None, p2)
              | (NotBraces, p2) \<Rightarrow> (Some atom, p2)
              | (Braces lo hi hasMax, p2) \<Rightarrow> wrapNode atom NODE_REPEAT lo hi hasMax p2) = (r, p')"
    proof (cases b)
      case (Braces lo hi hasMax)
      then obtain i where q: "q = p\<lparr>ps_pos := i\<rparr>" and i: "ps_pos p < i" "i \<le> plen p"
        using br by auto
      have "parserWf q" "extends p q" "ps_failed q = ps_failed p" "ps_nodes q = ps_nodes p"
        using q i assms(2) by (auto simp: parserWf_def extends_def)
      then show ?thesis
        using that Braces br assms(3)
        by (intro delivers_after [of p q] wrapNode_delivers [of atom NODE_REPEAT lo hi hasMax q])
          (auto split: if_splits)
    next
      case NotBraces
      then show ?thesis using that br assms by (auto simp: delivers_def)
    next
      case BadBraces
      then show ?thesis using that br assms by auto
    qed
    show ?thesis
      using assms(1) [unfolded parseQuantifier_def Let_def, folded p1_def] True
        wrap braces [folded Pair] assms(2,3)
      by (auto simp: delivers_def split: if_splits)
  qed
qed

section \<open>Groups\<close>

text \<open>Between its parentheses the parser is one level deeper.\<close>

definition deeper :: "RegexParser \<Rightarrow> RegexParser \<Rightarrow> bool" where
  "deeper p p1 \<longleftrightarrow> parserWf p1 \<and> ps_depth p1 = Suc (ps_depth p) \<and> ps_pos p < ps_pos p1 \<and>
     ps_failed p1 = ps_failed p \<and> extends p (p1\<lparr>ps_depth := ps_depth p\<rparr>)"

lemma groupOpen_cases:
  assumes "groupOpen p = (r, p1)" and "parserWf p" and "ps_pos p < plen p"
  shows "case r of
      None \<Rightarrow> delivers None p p1
    | Some (grp, capturing) \<Rightarrow> deeper p p1 \<and> (capturing \<longrightarrow> 0 < grp \<and> grp \<le> ps_groupCount p1)"
proof -
  have grow: "treeWf ns c g \<Longrightarrow> treeWf ns c (Suc g)" for ns c g
    by (erule treeWf_mono) simp_all
  show ?thesis
    using assms
    by (auto simp: groupOpen_def Let_def deeper_def parserWf_def extends_def
        split: if_splits intro: grow)
qed

lemma groupClose_delivers:
  assumes "groupClose grp capturing body p2 = (r, p')" and opened: "deeper p p1"
    and body: "delivers body p1 p2"
    and g: "capturing \<longrightarrow> 0 < grp \<and> grp \<le> ps_groupCount p1"
  shows "delivers r p p' \<and> (r \<noteq> None \<longrightarrow> ps_pos p < ps_pos p')"
proof -
  define q where "q = p2\<lparr>ps_depth := ps_depth p2 - 1\<rparr>"
  have q: "parserWf q" "extends p q" "ps_pos p < ps_pos q" "ps_nodes q = ps_nodes p2"
      "ps_failed q = ps_failed p2" "ps_groupCount p1 \<le> ps_groupCount q"
    using opened body by (auto simp: q_def deeper_def delivers_def parserWf_def extends_def)
  show ?thesis
  proof (cases body)
    case None
    then show ?thesis
      using assms(1) [unfolded groupClose_def Let_def, folded q_def] q body
      by (auto simp: delivers_def)
  next
    case (Some b)
    have b: "b < nl_count (ps_nodes q)" "ps_failed q = ps_failed p"
      using body opened Some q by (auto simp: delivers_def deeper_def)
    show ?thesis
    proof (cases "ps_pos q \<ge> plen q \<or> pchar q (ps_pos q) \<noteq> ch_rparen")
      case True
      then show ?thesis
        using assms(1) [unfolded groupClose_def Let_def, folded q_def] Some q by auto
    next
      case False
      define q2 where "q2 = q\<lparr>ps_pos := ps_pos q + 1\<rparr>"
      have q2: "parserWf q2" "extends p q2" "ps_pos p < ps_pos q2" "ps_failed q2 = ps_failed p"
          "nl_count (ps_nodes q2) = nl_count (ps_nodes q)" "ps_groupCount q2 = ps_groupCount q"
        using q b False parserWf_skip [of q 1] extends_skip [of q 1]
        by (auto simp: q2_def intro: extends_trans)
      have close: "(if \<not> capturing then (Some b, q2)
          else addNode q2 NODE_GROUP (\<lambda>n. n\<lparr>nd_a := b, nd_group := grp\<rparr>)) = (r, p')"
        using assms(1) [unfolded groupClose_def Let_def, folded q_def] Some False
        unfolding q2_def addNode_def by simp
      show ?thesis
      proof (cases capturing)
        case True
        have add: "addNode q2 NODE_GROUP (\<lambda>n. n\<lparr>nd_a := b, nd_group := grp\<rparr>) = (r, p')"
          using close True by simp
        have "delivers r q2 p'"
          using True g q q2 b by (intro addNode_delivers [OF add]) (auto simp: nodeOk_def zeroNode_def)
        then show ?thesis
          using addNode_pos [OF add] q2 by (auto intro: delivers_after)
      next
        case False
        then show ?thesis using close q2 b by (auto simp: delivers_def)
      qed
    qed
  qed
qed

lemma joinNode_delivers:
  assumes "joinNode kind l r p = (n, p')" and "parserWf p" and "kind \<in> {NODE_ALT, NODE_CONCAT}"
    and "l < nl_count (ps_nodes p)" and "r < nl_count (ps_nodes p)"
  shows "delivers n p p' \<and> ps_pos p' = ps_pos p"
  using assms unfolding joinNode_addNode
  by (intro conjI addNode_pos addNode_delivers) (auto simp: nodeOk_def zeroNode_def)

section \<open>The whole grammar\<close>

lemma delivers_Some_trans:
  "delivers (Some i) p q \<Longrightarrow> delivers r q s \<Longrightarrow> delivers r p s"
  by (auto simp: delivers_def intro: extends_trans split: option.splits)

lemma delivers_SomeD:
  "delivers (Some i) p q \<Longrightarrow> parserWf q \<and> i < nl_count (ps_nodes q) \<and> extends p q"
  by (simp add: delivers_def)

lemma parse_delivers:
  "parseAlternation f p = Some (r, p') \<Longrightarrow> parserWf p \<Longrightarrow> delivers r p p'"
  "parseAltLoop f left p = Some (r, p') \<Longrightarrow> parserWf p \<Longrightarrow> left < nl_count (ps_nodes p) \<Longrightarrow>
     delivers r p p'"
  "parseConcat f head p = Some (r, p') \<Longrightarrow> parserWf p \<Longrightarrow>
     (\<forall>h. head = Some h \<longrightarrow> h < nl_count (ps_nodes p)) \<Longrightarrow> delivers r p p'"
  "parseRepeat f p = Some (r, p') \<Longrightarrow> parserWf p \<Longrightarrow> ps_pos p < plen p \<Longrightarrow>
     delivers r p p' \<and> (r \<noteq> None \<longrightarrow> ps_pos p < ps_pos p')"
  "parseAtom f p = Some (r, p') \<Longrightarrow> parserWf p \<Longrightarrow> ps_pos p < plen p \<Longrightarrow>
     delivers r p p' \<and> (r \<noteq> None \<longrightarrow> ps_pos p < ps_pos p')"
  "parseGroup f p = Some (r, p') \<Longrightarrow> parserWf p \<Longrightarrow> ps_pos p < plen p \<Longrightarrow>
     delivers r p p' \<and> (r \<noteq> None \<longrightarrow> ps_pos p < ps_pos p')"
proof (induction f arbitrary: p r p' left head)
  case 0
  { case 1 then show ?case by simp }
  { case 2 then show ?case by simp }
  { case 3 then show ?case by simp }
  { case 4 then show ?case by simp }
  { case 5 then show ?case by simp }
  { case 6 then show ?case by simp }
next
  case (Suc f)
  note IH = Suc.IH
  { case 1
    then obtain rl p1 where c: "parseConcat f None p = Some (rl, p1)"
      by (auto split: option.splits)
    have d: "delivers rl p p1" by (rule IH(3) [OF c]) (use 1 in auto)
    show ?case
    proof (cases rl)
      case None then show ?thesis using 1 c d by simp
    next
      case (Some left)
      then have "parseAltLoop f left p1 = Some (r, p')" using 1 c by simp
      from IH(2) [OF this] d [unfolded Some] show ?thesis
        by (blast intro: delivers_Some_trans dest: delivers_SomeD)
    qed }
  { case 2
    show ?case
    proof (cases "ps_pos p < plen p \<and> pchar p (ps_pos p) = ch_bar")
      case False then show ?thesis using 2 by (auto simp: delivers_def)
    next
      case True
      let ?p0 = "p\<lparr>ps_pos := ps_pos p + 1\<rparr>"
      have p0: "parserWf ?p0" using 2 True parserWf_skip [of p 1] by simp
      obtain rr p1 where c: "parseConcat f None ?p0 = Some (rr, p1)"
        using 2 True by (auto split: option.splits)
      have "delivers rr ?p0 p1" by (rule IH(3) [OF c p0]) simp
      then have d: "delivers rr p p1"
        by (rule delivers_after [OF extends_skip, rotated]) simp
      show ?thesis
      proof (cases rr)
        case None then show ?thesis using 2 True c d by simp
      next
        case (Some right)
        obtain ra p2 where j: "joinNode NODE_ALT left right p1 = (ra, p2)" by fastforce
        have b: "left < nl_count (ps_nodes p1)" "right < nl_count (ps_nodes p1)" "parserWf p1"
          using d Some 2(3) extends_count [of p p1] by (auto simp: delivers_def)
        note dj = joinNode_delivers [OF j b(3) _ b(1,2)]
        show ?thesis
        proof (cases ra)
          case None then show ?thesis
            using 2 True c d Some j dj by (auto intro: delivers_Some_trans)
        next
          case alt: (Some alt)
          then have "parseAltLoop f alt p2 = Some (r, p')" using 2 True c Some j by simp
          from IH(2) [OF this] dj [unfolded alt] d [unfolded Some] show ?thesis
            by (blast intro: delivers_Some_trans dest: delivers_SomeD)
        qed
      qed
    qed }
  { case 3
    show ?case
    proof (cases "ps_pos p \<ge> plen p \<or> pchar p (ps_pos p) = ch_bar \<or> pchar p (ps_pos p) = ch_rparen")
      case True then show ?thesis
        using 3 parserNode_delivers [of p NODE_EMPTY r p']
        by (auto simp: delivers_def split: option.splits)
    next
      case False
      then obtain rp p1 where c: "parseRepeat f p = Some (rp, p1)"
        using 3 by (auto split: option.splits)
      have d: "delivers rp p p1" using IH(4) [OF c] 3 False by auto
      show ?thesis
      proof (cases rp)
        case None then show ?thesis using 3 False c d by simp
      next
        case (Some piece)
        have wf1: "parserWf p1" "piece < nl_count (ps_nodes p1)"
          using d Some by (auto simp: delivers_def)
        show ?thesis
        proof (cases head)
          case None
          then have "parseConcat f (Some piece) p1 = Some (r, p')" using 3 False c Some by simp
          from IH(3) [OF this] wf1 d Some show ?thesis by (auto intro: delivers_Some_trans)
        next
          case h: (Some h)
          have hb: "h < nl_count (ps_nodes p1)"
            using d 3(3) h extends_count [of p p1] by (auto simp: delivers_def)
          obtain rc p2 where j: "joinNode NODE_CONCAT h piece p1 = (rc, p2)" by fastforce
          note dj = joinNode_delivers [OF j wf1(1) _ hb wf1(2)]
          show ?thesis
          proof (cases rc)
            case None then show ?thesis
              using 3 False c d Some h j dj by (auto intro: delivers_Some_trans)
          next
            case cat: (Some cat)
            then have "parseConcat f (Some cat) p2 = Some (r, p')" using 3 False c Some h j by simp
            from IH(3) [OF this] dj [unfolded cat] d [unfolded Some] show ?thesis
              by (blast intro: delivers_Some_trans dest: delivers_SomeD)
          qed
        qed
      qed
    qed }
  { case 4
    then obtain ra p1 where c: "parseAtom f p = Some (ra, p1)"
      by (auto split: option.splits)
    note d = IH(5) [OF c 4(2,3)]
    show ?case
    proof (cases ra)
      case None then show ?thesis using 4 c d by simp
    next
      case (Some atom)
      then have q: "parseQuantifier atom p1 = (r, p')" using 4 c by simp
      have "delivers r p1 p'"
        using d Some by (intro parseQuantifier_delivers [OF q]) (auto simp: delivers_def)
      then have "delivers r p p'" "extends p1 p'"
        using d Some by (auto intro: delivers_Some_trans simp: delivers_def [of r p1 p'])
      then show ?thesis
        using d Some by (auto simp: extends_def)
    qed }
  { case 5
    then show ?case
      using IH(6) [of p r p'] parseLeaf_delivers [of p r p'] by (auto split: if_splits) }
  { case 6
    obtain ro p1 where o1: "groupOpen p = (ro, p1)" by fastforce
    note g = groupOpen_cases [OF o1 6(2,3)]
    show ?case
    proof (cases ro)
      case None then show ?thesis using 6 o1 g by simp
    next
      case (Some gc)
      obtain grp capturing where gc: "gc = (grp, capturing)" by fastforce
      obtain body p2 where a: "parseAlternation f p1 = Some (body, p2)"
        using 6(1) o1 Some gc by (auto split: option.splits)
      have "delivers body p1 p2"
        using g Some gc by (intro IH(1) [OF a]) (auto simp: deeper_def)
      then show ?thesis
        using 6(1) o1 Some gc a g groupClose_delivers [of grp capturing body p2 r p' p p1] by auto
    qed }
qed

section \<open>The fuel is enough\<close>

definition rest :: "RegexParser \<Rightarrow> nat" where
  "rest p = plen p - ps_pos p"

lemma rest_extends: "extends p q \<Longrightarrow> rest q \<le> rest p"
  by (auto simp: rest_def extends_def)

lemma rest_advance:
  "extends p q \<Longrightarrow> ps_pos p < ps_pos q \<Longrightarrow> ps_pos p < plen p \<Longrightarrow> rest q < rest p"
  by (auto simp: rest_def extends_def)

lemma parse_total:
  "parserWf p \<Longrightarrow> 6 * rest p + 5 \<le> f \<Longrightarrow> parseAlternation f p \<noteq> None"
  "parserWf p \<Longrightarrow> left < nl_count (ps_nodes p) \<Longrightarrow> 6 * rest p + 1 \<le> f \<Longrightarrow>
     parseAltLoop f left p \<noteq> None"
  "parserWf p \<Longrightarrow> (\<forall>h. head = Some h \<longrightarrow> h < nl_count (ps_nodes p)) \<Longrightarrow> 6 * rest p + 4 \<le> f \<Longrightarrow>
     parseConcat f head p \<noteq> None"
  "parserWf p \<Longrightarrow> ps_pos p < plen p \<Longrightarrow> 6 * rest p + 3 \<le> f \<Longrightarrow> parseRepeat f p \<noteq> None"
  "parserWf p \<Longrightarrow> ps_pos p < plen p \<Longrightarrow> 6 * rest p + 2 \<le> f \<Longrightarrow> parseAtom f p \<noteq> None"
  "parserWf p \<Longrightarrow> ps_pos p < plen p \<Longrightarrow> 6 * rest p + 1 \<le> f \<Longrightarrow> parseGroup f p \<noteq> None"
proof (induction f arbitrary: p left head)
  case 0
  { case 1 then show ?case by simp }
  { case 2 then show ?case by simp }
  { case 3 then show ?case by simp }
  { case 4 then show ?case by simp }
  { case 5 then show ?case by simp }
  { case 6 then show ?case by simp }
next
  case (Suc f)
  note IH = Suc.IH
  { case 1
    then obtain rl p1 where c: "parseConcat f None p = Some (rl, p1)"
      using IH(3) [of p None] by fastforce
    have d: "delivers rl p p1" by (rule parse_delivers(3) [OF c 1(1)]) simp
    show ?case
    proof (cases rl)
      case None then show ?thesis using c by simp
    next
      case (Some left)
      then show ?thesis
        using IH(2) [of p1 left] d c rest_extends [of p p1] 1(2) delivers_SomeD [of left p p1] by auto
    qed }
  { case 2
    show ?case
    proof (cases "ps_pos p < plen p \<and> pchar p (ps_pos p) = ch_bar")
      case False then show ?thesis by auto
    next
      case True
      let ?p0 = "p\<lparr>ps_pos := ps_pos p + 1\<rparr>"
      have p0: "parserWf ?p0" using 2 True parserWf_skip [of p 1] by simp
      have r0: "rest ?p0 < rest p" using True by (auto simp: rest_def)
      then obtain rr p1 where c: "parseConcat f None ?p0 = Some (rr, p1)"
        using IH(3) [of ?p0 None] p0 2 by fastforce
      have d: "delivers rr ?p0 p1" by (rule parse_delivers(3) [OF c p0]) simp
      show ?thesis
      proof (cases rr)
        case None then show ?thesis using True c by simp
      next
        case (Some right)
        obtain ra p2 where j: "joinNode NODE_ALT left right p1 = (ra, p2)" by fastforce
        have b: "left < nl_count (ps_nodes p1)" "right < nl_count (ps_nodes p1)" "parserWf p1"
          using d Some 2(2) extends_count [of ?p0 p1] by (auto simp: delivers_def)
        note dj = joinNode_delivers [OF j b(3) _ b(1,2)]
        show ?thesis
        proof (cases ra)
          case None then show ?thesis using True c Some j by simp
        next
          case alt: (Some alt)
          have "rest p2 < rest p"
            using rest_extends [of p1 p2] rest_extends [of ?p0 p1] d Some dj alt r0
            by (auto simp: delivers_def)
          then show ?thesis
            using IH(2) [of p2 alt] True c Some j alt dj 2(3) delivers_SomeD [of alt p1 p2] by auto
        qed
      qed
    qed }
  { case 3
    show ?case
    proof (cases "ps_pos p \<ge> plen p \<or> pchar p (ps_pos p) = ch_bar \<or> pchar p (ps_pos p) = ch_rparen")
      case True then show ?thesis by (auto split: option.splits)
    next
      case False
      then have inside: "ps_pos p < plen p" by simp
      obtain rp p1 where c: "parseRepeat f p = Some (rp, p1)"
        using IH(4) [of p] 3 inside by fastforce
      note d = parse_delivers(4) [OF c 3(1) inside]
      show ?thesis
      proof (cases rp)
        case None then show ?thesis using False c by simp
      next
        case (Some piece)
        have wf1: "parserWf p1" "piece < nl_count (ps_nodes p1)" "extends p p1"
          using d Some by (auto simp: delivers_def)
        have r1: "rest p1 < rest p" using d Some wf1 inside by (auto intro: rest_advance)
        show ?thesis
        proof (cases head)
          case None
          then show ?thesis using IH(3) [of p1 "Some piece"] wf1 r1 3 False c Some by auto
        next
          case h: (Some h)
          have hb: "h < nl_count (ps_nodes p1)"
            using 3(2) h extends_count [OF wf1(3)] by auto
          obtain rc p2 where j: "joinNode NODE_CONCAT h piece p1 = (rc, p2)" by fastforce
          note dj = joinNode_delivers [OF j wf1(1) _ hb wf1(2)]
          show ?thesis
          proof (cases rc)
            case None then show ?thesis using False c Some h j by simp
          next
            case cat: (Some cat)
            then have "rest p2 < rest p"
              using rest_extends [of p1 p2] dj r1 by (auto simp: delivers_def)
            then show ?thesis
              using IH(3) [of p2 "Some cat"] 3(3) False c Some h j cat dj
                delivers_SomeD [of cat p1 p2] by auto
          qed
        qed
      qed
    qed }
  { case 4
    then obtain ra p1 where c: "parseAtom f p = Some (ra, p1)"
      using IH(5) [of p] by fastforce
    then show ?case by (auto split: option.splits) }
  { case 5
    then show ?case using IH(6) [of p] by auto }
  { case 6
    obtain ro p1 where o1: "groupOpen p = (ro, p1)" by fastforce
    note g = groupOpen_cases [OF o1 6(1,2)]
    show ?case
    proof (cases ro)
      case None then show ?thesis using o1 by simp
    next
      case (Some gc)
      obtain grp capturing where gc: "gc = (grp, capturing)" by fastforce
      have "parserWf p1" "rest p1 < rest p"
        using g Some gc 6(2) by (auto simp: deeper_def extends_def rest_def)
      then obtain body p2 where "parseAlternation f p1 = Some (body, p2)"
        using IH(1) [of p1] 6(3) by fastforce
      then show ?thesis using o1 Some gc by simp
    qed }
qed

section \<open>The parser as a whole\<close>

lemma parserWf_init: "parserWf (RegexParser_3 m pat ic)"
  by (simp add: parserWf_def RegexParser_3_def RegexNodeList_0_def nl_count_def)

lemma RegexParser_parse_returns:
  "\<exists>r p'. RegexParser_parse (RegexParser_3 m pat ic) = Some (r, p')"
proof -
  let ?p = "RegexParser_3 m pat ic"
  have "parseAlternation (parseFuel ?p) ?p \<noteq> None"
    by (rule parse_total(1) [OF parserWf_init])
      (simp add: rest_def parseFuel_def RegexParser_3_def)
  then show ?thesis
    by (auto simp: RegexParser_parse_def split: option.splits)
qed

lemma RegexParser_parse_delivers:
  assumes "RegexParser_parse (RegexParser_3 m pat ic) = Some (r, p')"
  shows "delivers r (RegexParser_3 m pat ic) p'"
proof -
  let ?p = "RegexParser_3 m pat ic"
  obtain r1 p1 where a: "parseAlternation (parseFuel ?p) ?p = Some (r1, p1)"
    using assms by (auto simp: RegexParser_parse_def split: if_splits option.splits)
  have d: "delivers r1 ?p p1"
    by (rule parse_delivers(1) [OF a parserWf_init])
  then show ?thesis
    using assms a by (auto simp: RegexParser_parse_def delivers_def split: if_splits option.splits)
qed

end
