(* ===== verification/Regex_Program.thy ===== *)
theory Regex_Program
  imports Regex_NodeList
begin

text \<open>
  The Thompson emitter of \<open>src/regex/program.c\<close>: instructions in a growable array, branch
  targets by index.  The emitter state is the program and the allocator; an operation that
  the code lets fail returns the flag it returns there.  \<open>emitNode\<close> recurses over child
  indices, which the code does not check, so it carries fuel; \<open>RegexProgram_build\<close> gives it
  one unit more than the root index, enough for every tree whose children come first.
\<close>

definition REGEX_MAX_PROGRAM :: nat where "REGEX_MAX_PROGRAM = 32768"
definition REGEX_PROGRAM_SEED_CAPACITY :: nat where "REGEX_PROGRAM_SEED_CAPACITY = 64"

datatype RegexOp =
    OP_CHAR | OP_ANY | OP_CLASS | OP_SPLIT | OP_JUMP | OP_SAVE | OP_BOL | OP_EOL | OP_MATCH

record RegexInst =
  in_op :: RegexOp
  in_byte :: u8
  in_a :: nat
  in_b :: nat

record RegexProgram =
  pr_insts :: "RegexInst list"
  pr_capacity :: nat

definition mkInst :: "RegexOp \<Rightarrow> u8 \<Rightarrow> nat \<Rightarrow> nat \<Rightarrow> RegexInst" where
  "mkInst op byte a b = \<lparr>in_op = op, in_byte = byte, in_a = a, in_b = b\<rparr>"

definition RegexProgram_0 :: RegexProgram where
  "RegexProgram_0 = \<lparr>pr_insts = [], pr_capacity = 0\<rparr>"

definition RegexProgram_count :: "RegexProgram \<Rightarrow> nat" where
  "RegexProgram_count program = length (pr_insts program)"

definition RegexProgram_at :: "RegexProgram \<Rightarrow> nat \<Rightarrow> RegexInst option" where
  "RegexProgram_at program index =
     (if index \<ge> RegexProgram_count program then None else Some (pr_insts program ! index))"

definition RegexProgram_free :: "RegexProgram \<Rightarrow> RegexProgram" where
  "RegexProgram_free program = RegexProgram_0"

section \<open>Emission\<close>

type_synonym emitter = "RegexProgram \<times> arena"
type_synonym emit_result = "(bool \<times> emitter) option"

abbreviation here :: "emitter \<Rightarrow> nat" where
  "here e \<equiv> RegexProgram_count (fst e)"

text \<open>\<open>programGrow\<close> makes one request of the allocator.\<close>

definition programGrow :: "arena \<Rightarrow> bool \<times> arena" where
  "programGrow m = Memory_alloc m"

definition emit :: "emitter \<Rightarrow> RegexOp \<Rightarrow> u8 \<Rightarrow> nat \<Rightarrow> nat \<Rightarrow> nat option \<times> emitter" where
  "emit e op byte a b =
     (let (program, m) = e
      in if RegexProgram_count program \<ge> REGEX_MAX_PROGRAM then (None, e)
         else
           let (ok, program1, m1) =
             (if RegexProgram_count program = pr_capacity program then
                let next0 = (if pr_capacity program \<noteq> 0 then pr_capacity program * 2
                             else REGEX_PROGRAM_SEED_CAPACITY);
                    next = (if next0 > REGEX_MAX_PROGRAM then REGEX_MAX_PROGRAM else next0);
                    (granted, m') = programGrow m
                in if \<not> granted then (False, program, m')
                   else (True, program\<lparr>pr_capacity := next\<rparr>, m')
              else (True, program, m))
           in if \<not> ok then (None, (program1, m1))
              else (Some (RegexProgram_count program1),
                    (program1\<lparr>pr_insts := pr_insts program1 @ [mkInst op byte a b]\<rparr>, m1)))"

text \<open>Writes to an instruction already emitted (through \<open>instAt\<close>).\<close>

definition setA :: "nat \<Rightarrow> nat \<Rightarrow> emitter \<Rightarrow> emitter" where
  "setA i v e = ((fst e)\<lparr>pr_insts := (pr_insts (fst e))
     [i := (pr_insts (fst e) ! i)\<lparr>in_a := v\<rparr>]\<rparr>, snd e)"

definition setB :: "nat \<Rightarrow> nat \<Rightarrow> emitter \<Rightarrow> emitter" where
  "setB i v e = ((fst e)\<lparr>pr_insts := (pr_insts (fst e))
     [i := (pr_insts (fst e) ! i)\<lparr>in_b := v\<rparr>]\<rparr>, snd e)"

text \<open>Sequencing: a refused emission returns \<open>false\<close> at once.\<close>

definition andThen :: "emit_result \<Rightarrow> (emitter \<Rightarrow> emit_result) \<Rightarrow> emit_result" where
  "andThen r k =
     (case r of
        None \<Rightarrow> None
      | Some (ok, e) \<Rightarrow> if \<not> ok then Some (False, e) else k e)"

definition emitThen ::
    "emitter \<Rightarrow> RegexOp \<Rightarrow> u8 \<Rightarrow> nat \<Rightarrow> (nat \<Rightarrow> emitter \<Rightarrow> emit_result) \<Rightarrow> emit_result" where
  "emitThen e op byte a k =
     (case emit e op byte a 0 of
        (None, e1) \<Rightarrow> Some (False, e1)
      | (Some i, e1) \<Rightarrow> k i e1)"

definition finish :: "nat \<Rightarrow> emitter \<Rightarrow> emit_result" where
  "finish i e = Some (True, e)"

definition emitAlt :: "(emitter \<Rightarrow> emit_result) \<Rightarrow> (emitter \<Rightarrow> emit_result) \<Rightarrow> emitter \<Rightarrow> emit_result" where
  "emitAlt left right e =
     emitThen e OP_SPLIT 0 0 (\<lambda>split e1.
       andThen (left (setA split (split + 1) e1)) (\<lambda>e2.
         emitThen e2 OP_JUMP 0 0 (\<lambda>jump e3.
           andThen (right (setB split (here e3) e3)) (\<lambda>e4.
             Some (True, setA jump (here e4) e4)))))"

definition emitStar :: "(emitter \<Rightarrow> emit_result) \<Rightarrow> emitter \<Rightarrow> emit_result" where
  "emitStar body e =
     emitThen e OP_SPLIT 0 0 (\<lambda>split e1.
       andThen (body (setA split (split + 1) e1)) (\<lambda>e2.
         emitThen e2 OP_JUMP 0 0 (\<lambda>jump e3.
           let e4 = setA jump split e3 in Some (True, setB split (here e4) e4))))"

definition emitPlus :: "(emitter \<Rightarrow> emit_result) \<Rightarrow> emitter \<Rightarrow> emit_result" where
  "emitPlus body e =
     (let start = here e
      in andThen (body e) (\<lambda>e1.
           emitThen e1 OP_SPLIT 0 0 (\<lambda>split e2.
             let e3 = setA split start e2 in Some (True, setB split (here e3) e3))))"

definition emitQuest :: "(emitter \<Rightarrow> emit_result) \<Rightarrow> emitter \<Rightarrow> emit_result" where
  "emitQuest body e =
     emitThen e OP_SPLIT 0 0 (\<lambda>split e1.
       andThen (body (setA split (split + 1) e1)) (\<lambda>e2.
         Some (True, setB split (here e2) e2)))"

text \<open>A counted loop around an emission.\<close>

primrec emitTimes :: "nat \<Rightarrow> (emitter \<Rightarrow> emit_result) \<Rightarrow> emitter \<Rightarrow> emit_result" where
  "emitTimes 0 body e = Some (True, e)"
| "emitTimes (Suc n) body e = andThen (body e) (emitTimes n body)"

definition emitRepeat :: "nat \<Rightarrow> nat \<Rightarrow> (emitter \<Rightarrow> emit_result) \<Rightarrow> emitter \<Rightarrow> emit_result" where
  "emitRepeat lo hi body e =
     andThen (emitTimes lo body e) (\<lambda>e1.
       if hi = REGEX_REP_INF then emitStar body e1
       else emitTimes (hi - lo) (emitQuest body) e1)"

definition emitGroup :: "nat \<Rightarrow> (emitter \<Rightarrow> emit_result) \<Rightarrow> emitter \<Rightarrow> emit_result" where
  "emitGroup g body e =
     (let close = (\<lambda>e2. if g > 0 then emitThen e2 OP_SAVE 0 (g * 2 + 1) finish else Some (True, e2))
      in if g > 0 then emitThen e OP_SAVE 0 (g * 2) (\<lambda>_ e1. andThen (body e1) close)
         else andThen (body e) close)"

primrec emitNode :: "nat \<Rightarrow> RegexNodeList \<Rightarrow> nat \<Rightarrow> emitter \<Rightarrow> emit_result" where
  "emitNode 0 nodes index e = None"
| "emitNode (Suc f) nodes index e =
     (case RegexNodeList_at nodes index of
        None \<Rightarrow> Some (False, e)
      | Some node \<Rightarrow>
          let child = emitNode f nodes
          in case nd_kind node of
               NODE_EMPTY \<Rightarrow> Some (True, e)
             | NODE_CHAR \<Rightarrow> emitThen e OP_CHAR (nd_byte node) 0 finish
             | NODE_ANY \<Rightarrow> emitThen e OP_ANY 0 0 finish
             | NODE_CLASS \<Rightarrow> emitThen e OP_CLASS 0 (nd_clsIndex node) finish
             | NODE_BOL \<Rightarrow> emitThen e OP_BOL 0 0 finish
             | NODE_EOL \<Rightarrow> emitThen e OP_EOL 0 0 finish
             | NODE_CONCAT \<Rightarrow> andThen (child (nd_a node) e) (child (nd_b node))
             | NODE_ALT \<Rightarrow> emitAlt (child (nd_a node)) (child (nd_b node)) e
             | NODE_STAR \<Rightarrow> emitStar (child (nd_a node)) e
             | NODE_PLUS \<Rightarrow> emitPlus (child (nd_a node)) e
             | NODE_QUEST \<Rightarrow> emitQuest (child (nd_a node)) e
             | NODE_REPEAT \<Rightarrow> emitRepeat (nd_repMin node) (nd_repMax node) (child (nd_a node)) e
             | NODE_GROUP \<Rightarrow> emitGroup (nd_group node) (child (nd_a node)) e)"

definition RegexProgram_build :: "emitter \<Rightarrow> RegexNodeList \<Rightarrow> nat \<Rightarrow> emit_result" where
  "RegexProgram_build e nodes root =
     emitThen e OP_SAVE 0 0 (\<lambda>_ e1.
       andThen (emitNode (root + 1) nodes root e1) (\<lambda>e2.
         emitThen e2 OP_SAVE 0 1 (\<lambda>_ e3.
           emitThen e3 OP_MATCH 0 0 finish)))"

end
