(* ===== verification/Regex_Tree.thy ===== *)
theory Regex_Tree
  imports Regex_ParserWf Regex_Program
begin

text \<open>
  The specification of the emitter.  \<open>rx\<close> is the syntax tree a node list stands for,
  \<open>ccode\<close> the Thompson code of a tree at a given address, as one equation per constructor.
  The lemmas show that the emitter, with its growing array and its back-patched branches,
  appends exactly that code, and refuses exactly when the ceiling does not leave room.
\<close>

section \<open>Syntax trees\<close>

datatype rx =
    REmpty | RChar u8 | RAny | RClass nat | RBol | REol | RCat rx rx | RAlt rx rx
  | RStar rx | RPlus rx | RQuest rx | RRepeat rx nat "nat option" | RGroup nat rx

definition repBound :: "nat \<Rightarrow> nat option" where
  "repBound hi = (if hi = REGEX_REP_INF then None else Some hi)"

text \<open>The tree below a node; \<open>None\<close> when an index is out of range or the fuel is spent.\<close>

primrec nodeTree :: "nat \<Rightarrow> RegexNode list \<Rightarrow> nat \<Rightarrow> rx option" where
  "nodeTree 0 ns i = None"
| "nodeTree (Suc f) ns i =
     (if i \<ge> length ns then None
      else let n = ns ! i; child = nodeTree f ns
        in case nd_kind n of
             NODE_EMPTY \<Rightarrow> Some REmpty
           | NODE_CHAR \<Rightarrow> Some (RChar (nd_byte n))
           | NODE_ANY \<Rightarrow> Some RAny
           | NODE_CLASS \<Rightarrow> Some (RClass (nd_clsIndex n))
           | NODE_BOL \<Rightarrow> Some RBol
           | NODE_EOL \<Rightarrow> Some REol
           | NODE_CONCAT \<Rightarrow>
               (case (child (nd_a n), child (nd_b n)) of
                  (Some l, Some r) \<Rightarrow> Some (RCat l r) | _ \<Rightarrow> None)
           | NODE_ALT \<Rightarrow>
               (case (child (nd_a n), child (nd_b n)) of
                  (Some l, Some r) \<Rightarrow> Some (RAlt l r) | _ \<Rightarrow> None)
           | NODE_STAR \<Rightarrow> map_option RStar (child (nd_a n))
           | NODE_PLUS \<Rightarrow> map_option RPlus (child (nd_a n))
           | NODE_QUEST \<Rightarrow> map_option RQuest (child (nd_a n))
           | NODE_REPEAT \<Rightarrow>
               map_option (\<lambda>t. RRepeat t (nd_repMin n) (repBound (nd_repMax n))) (child (nd_a n))
           | NODE_GROUP \<Rightarrow> map_option (RGroup (nd_group n)) (child (nd_a n)))"

definition treeAt :: "RegexNode list \<Rightarrow> nat \<Rightarrow> rx option" where
  "treeAt ns i = nodeTree (i + 1) ns i"

lemma nodeTree_defined:
  "treeWf ns c g \<Longrightarrow> i < length ns \<Longrightarrow> i < f \<Longrightarrow> nodeTree f ns i \<noteq> None"
proof (induction f arbitrary: i)
  case 0
  then show ?case by simp
next
  case (Suc f)
  have child: "\<exists>t. nodeTree f ns j = Some t" if "j < i" for j
    using Suc.IH [of j] Suc.prems that by auto
  have "nodeOk i c g (ns ! i)" using Suc.prems by (simp add: treeWf_def)
  then show ?case
    using Suc.prems(2)
    by (auto simp: nodeOk_def Let_def split: RegexNodeKind.splits dest!: child)
qed

text \<open>Every group of the tree is a counted one and every class index exists.\<close>

primrec rxWf :: "nat \<Rightarrow> nat \<Rightarrow> rx \<Rightarrow> bool" where
  "rxWf c g REmpty = True"
| "rxWf c g (RChar b) = True"
| "rxWf c g RAny = True"
| "rxWf c g (RClass k) = (k < c)"
| "rxWf c g RBol = True"
| "rxWf c g REol = True"
| "rxWf c g (RCat a b) = (rxWf c g a \<and> rxWf c g b)"
| "rxWf c g (RAlt a b) = (rxWf c g a \<and> rxWf c g b)"
| "rxWf c g (RStar a) = rxWf c g a"
| "rxWf c g (RPlus a) = rxWf c g a"
| "rxWf c g (RQuest a) = rxWf c g a"
| "rxWf c g (RRepeat a lo hi) = (rxWf c g a \<and> (\<forall>h. hi = Some h \<longrightarrow> lo \<le> h))"
| "rxWf c g (RGroup k a) = (0 < k \<and> k \<le> g \<and> rxWf c g a)"

lemma nodeTree_wf: "treeWf ns c g \<Longrightarrow> nodeTree f ns i = Some t \<Longrightarrow> rxWf c g t"
proof (induction f arbitrary: i t)
  case 0
  then show ?case by simp
next
  case (Suc f)
  have i: "i < length ns" using Suc.prems(2) by (simp split: if_splits)
  then have "nodeOk i c g (ns ! i)" using Suc.prems(1) by (simp add: treeWf_def)
  moreover note IH = Suc.IH [OF Suc.prems(1)]
  ultimately show ?case
    using Suc.prems(2) i
    by (cases "nd_kind (ns ! i)")
      (auto simp: nodeOk_def Let_def repBound_def split: option.splits if_splits dest: IH)
qed

section \<open>Repetition unfolded\<close>

text \<open>
  The emitter copies the body of a counted repetition: the mandatory copies, then a star or
  the optional copies.  \<open>core\<close> does the same to the tree.
\<close>

primrec rxTimes :: "nat \<Rightarrow> rx \<Rightarrow> rx" where
  "rxTimes 0 t = REmpty"
| "rxTimes (Suc n) t = RCat t (rxTimes n t)"

primrec core :: "rx \<Rightarrow> rx" where
  "core REmpty = REmpty"
| "core (RChar b) = RChar b"
| "core RAny = RAny"
| "core (RClass k) = RClass k"
| "core RBol = RBol"
| "core REol = REol"
| "core (RCat a b) = RCat (core a) (core b)"
| "core (RAlt a b) = RAlt (core a) (core b)"
| "core (RStar a) = RStar (core a)"
| "core (RPlus a) = RPlus (core a)"
| "core (RQuest a) = RQuest (core a)"
| "core (RRepeat a lo hi) =
     RCat (rxTimes lo (core a))
       (case hi of None \<Rightarrow> RStar (core a) | Some h \<Rightarrow> rxTimes (h - lo) (RQuest (core a)))"
| "core (RGroup k a) = RGroup k (core a)"

primrec norepeat :: "rx \<Rightarrow> bool" where
  "norepeat REmpty = True"
| "norepeat (RChar b) = True"
| "norepeat RAny = True"
| "norepeat (RClass k) = True"
| "norepeat RBol = True"
| "norepeat REol = True"
| "norepeat (RCat a b) = (norepeat a \<and> norepeat b)"
| "norepeat (RAlt a b) = (norepeat a \<and> norepeat b)"
| "norepeat (RStar a) = norepeat a"
| "norepeat (RPlus a) = norepeat a"
| "norepeat (RQuest a) = norepeat a"
| "norepeat (RRepeat a lo hi) = False"
| "norepeat (RGroup k a) = norepeat a"

lemma norepeat_rxTimes: "norepeat t \<Longrightarrow> norepeat (rxTimes n t)"
  by (induction n) simp_all

lemma norepeat_core [simp]: "norepeat (core t)"
  by (induction t) (auto simp: norepeat_rxTimes split: option.splits)

lemma rxWf_rxTimes: "rxWf c g t \<Longrightarrow> rxWf c g (rxTimes n t)"
  by (induction n) simp_all

lemma rxWf_core: "rxWf c g t \<Longrightarrow> rxWf c g (core t)"
  by (induction t) (auto simp: rxWf_rxTimes split: option.splits)

section \<open>Thompson code\<close>

primrec clen :: "rx \<Rightarrow> nat" where
  "clen REmpty = 0"
| "clen (RChar b) = 1"
| "clen RAny = 1"
| "clen (RClass k) = 1"
| "clen RBol = 1"
| "clen REol = 1"
| "clen (RCat a b) = clen a + clen b"
| "clen (RAlt a b) = clen a + clen b + 2"
| "clen (RStar a) = clen a + 2"
| "clen (RPlus a) = clen a + 1"
| "clen (RQuest a) = clen a + 1"
| "clen (RRepeat a lo hi) = 0"
| "clen (RGroup k a) = (if k > 0 then clen a + 2 else clen a)"

primrec ccode :: "rx \<Rightarrow> nat \<Rightarrow> RegexInst list" where
  "ccode REmpty s = []"
| "ccode (RChar b) s = [mkInst OP_CHAR b 0 0]"
| "ccode RAny s = [mkInst OP_ANY 0 0 0]"
| "ccode (RClass k) s = [mkInst OP_CLASS 0 k 0]"
| "ccode RBol s = [mkInst OP_BOL 0 0 0]"
| "ccode REol s = [mkInst OP_EOL 0 0 0]"
| "ccode (RCat a b) s = ccode a s @ ccode b (s + clen a)"
| "ccode (RAlt a b) s =
     [mkInst OP_SPLIT 0 (s + 1) (s + clen a + 2)] @ ccode a (s + 1) @
     [mkInst OP_JUMP 0 (s + clen a + clen b + 2) 0] @ ccode b (s + clen a + 2)"
| "ccode (RStar a) s =
     [mkInst OP_SPLIT 0 (s + 1) (s + clen a + 2)] @ ccode a (s + 1) @ [mkInst OP_JUMP 0 s 0]"
| "ccode (RPlus a) s = ccode a s @ [mkInst OP_SPLIT 0 s (s + clen a + 1)]"
| "ccode (RQuest a) s = [mkInst OP_SPLIT 0 (s + 1) (s + clen a + 1)] @ ccode a (s + 1)"
| "ccode (RRepeat a lo hi) s = []"
| "ccode (RGroup k a) s =
     (if k > 0 then [mkInst OP_SAVE 0 (k * 2) 0] @ ccode a (s + 1) @ [mkInst OP_SAVE 0 (k * 2 + 1) 0]
      else ccode a s)"

lemma length_ccode [simp]: "length (ccode t s) = clen t"
  by (induction t arbitrary: s) auto

section \<open>The emitter appends the code\<close>

definition progOk :: "emitter \<Rightarrow> bool" where
  "progOk e \<longleftrightarrow> here e \<le> pr_capacity (fst e) \<and> pr_capacity (fst e) \<le> REGEX_MAX_PROGRAM"

text \<open>
  \<open>yields I g code r\<close>: the outcome \<open>r\<close> of an emission that began with the instructions \<open>I\<close>.
  Either it left \<open>code\<close> after them, or it was refused, which a granting allocator (\<open>g\<close>)
  allows only when the code does not fit under the ceiling.
\<close>

definition yields :: "RegexInst list \<Rightarrow> bool \<Rightarrow> RegexInst list \<Rightarrow> emit_result \<Rightarrow> bool" where
  "yields I g code r \<longleftrightarrow>
     (case r of
        None \<Rightarrow> False
      | Some out \<Rightarrow>
          if fst out then pr_insts (fst (snd out)) = I @ code \<and> progOk (snd out) \<and>
               (g \<longrightarrow> generous (snd (snd out)))
          else g \<longrightarrow> length I + length code > REGEX_MAX_PROGRAM)"

lemma yields_done:
  "pr_insts (fst e) = I @ code \<Longrightarrow> progOk e \<Longrightarrow> (g \<longrightarrow> generous (snd e)) \<Longrightarrow>
   yields I g code (Some (True, e))"
  by (auto simp: yields_def)

lemma yields_append: "yields (I @ c) g c' r = yields I g (c @ c') r"
  unfolding yields_def by (simp only: append_assoc length_append add.assoc)

lemma yields_room:
  "yields I g code (Some (True, e)) \<Longrightarrow> length I + length code \<le> REGEX_MAX_PROGRAM"
  by (auto simp: yields_def progOk_def RegexProgram_count_def)

text \<open>A refused part refuses the whole: the part is a prefix of the code of the whole.\<close>

lemma yields_andThen:
  assumes "yields J g c r"
    and "length J + length c \<le> length I + length code"
    and "\<And>e. pr_insts (fst e) = J @ c \<Longrightarrow> progOk e \<Longrightarrow> (g \<longrightarrow> generous (snd e)) \<Longrightarrow>
           yields I g code (k e)"
  shows "yields I g code (andThen r k)"
proof -
  obtain ok e where r: "r = Some (ok, e)"
    using assms(1) by (cases r) (auto simp: yields_def)
  show ?thesis
  proof (cases ok)
    case True
    then have "yields I g code (k e)"
      using assms(1) r by (intro assms(3)) (simp_all add: yields_def)
    then show ?thesis using True r by (simp add: andThen_def)
  next
    case False
    then show ?thesis using assms(1,2) r by (auto simp: yields_def andThen_def)
  qed
qed

lemma emit_cases:
  assumes "emit e op byte a b = (r, e')" and "progOk e"
  shows "(r = None \<and> (generous (snd e) \<longrightarrow> here e \<ge> REGEX_MAX_PROGRAM)) \<or>
    (r = Some (here e) \<and> pr_insts (fst e') = pr_insts (fst e) @ [mkInst op byte a b] \<and>
     progOk e' \<and> (generous (snd e) \<longrightarrow> generous (snd e')))"
proof -
  obtain program m where e: "e = (program, m)" by fastforce
  obtain granted m' where alloc: "Memory_alloc m = (granted, m')" by fastforce
  have bound: "RegexProgram_count program \<le> pr_capacity program"
      "pr_capacity program \<le> REGEX_MAX_PROGRAM"
    using assms(2) e by (simp_all add: progOk_def)
  consider "RegexProgram_count program \<ge> REGEX_MAX_PROGRAM"
    | "RegexProgram_count program < REGEX_MAX_PROGRAM"
      "RegexProgram_count program \<noteq> pr_capacity program"
    | "RegexProgram_count program < REGEX_MAX_PROGRAM"
      "RegexProgram_count program = pr_capacity program" "granted"
    | "RegexProgram_count program < REGEX_MAX_PROGRAM"
      "RegexProgram_count program = pr_capacity program" "\<not> granted"
    by linarith
  then show ?thesis
  proof cases
    case 1
    then show ?thesis using assms(1) e by (auto simp: emit_def)
  next
    case 2
    then show ?thesis
      using assms(1) e bound by (auto simp: emit_def progOk_def RegexProgram_count_def)
  next
    case 3
    then show ?thesis
      using assms(1) e alloc Memory_alloc_granted [of m m']
      by (auto simp: emit_def progOk_def RegexProgram_count_def programGrow_def Let_def
          REGEX_MAX_PROGRAM_def REGEX_PROGRAM_SEED_CAPACITY_def split: if_splits)
  next
    case 4
    then show ?thesis
      using assms(1) e alloc Memory_alloc_refused [of m m']
      by (auto simp: emit_def programGrow_def Let_def)
  qed
qed

lemma yields_emitThen:
  assumes "progOk e" and "g \<longrightarrow> generous (snd e)" and "here e < length I + length code"
    and "\<And>e'. pr_insts (fst e') = pr_insts (fst e) @ [mkInst op byte a 0] \<Longrightarrow> progOk e' \<Longrightarrow>
           (g \<longrightarrow> generous (snd e')) \<Longrightarrow> yields I g code (k (here e) e')"
  shows "yields I g code (emitThen e op byte a k)"
proof -
  obtain r e' where Pair: "emit e op byte a 0 = (r, e')"
    by (cases "emit e op byte a 0")
  from emit_cases [OF Pair assms(1)] show ?thesis
  proof
    assume "r = None \<and> (generous (snd e) \<longrightarrow> here e \<ge> REGEX_MAX_PROGRAM)"
    then show ?thesis using Pair assms(2,3) by (auto simp: emitThen_def yields_def)
  next
    assume "r = Some (here e) \<and> pr_insts (fst e') = pr_insts (fst e) @ [mkInst op byte a 0] \<and>
     progOk e' \<and> (generous (snd e) \<longrightarrow> generous (snd e'))"
    then show ?thesis using Pair assms(2,4) by (auto simp: emitThen_def)
  qed
qed

lemma progOk_setA [simp]: "progOk (setA i v e) = progOk e"
  and progOk_setB [simp]: "progOk (setB i v e) = progOk e"
  by (simp_all add: progOk_def setA_def setB_def RegexProgram_count_def)

lemma snd_setA [simp]: "snd (setA i v e) = snd e" and snd_setB [simp]: "snd (setB i v e) = snd e"
  by (simp_all add: setA_def setB_def)

text \<open>Patching an instruction behind which more code may already stand.\<close>

lemma insts_setA:
  "pr_insts (fst e) = I @ x # ys \<Longrightarrow> i = length I \<Longrightarrow>
   pr_insts (fst (setA i v e)) = I @ x\<lparr>in_a := v\<rparr> # ys"
  by (simp add: setA_def)

lemma insts_setB:
  "pr_insts (fst e) = I @ x # ys \<Longrightarrow> i = length I \<Longrightarrow>
   pr_insts (fst (setB i v e)) = I @ x\<lparr>in_b := v\<rparr> # ys"
  by (simp add: setB_def)

lemma mkInst_update [simp]:
  "(mkInst op byte a b)\<lparr>in_a := v\<rparr> = mkInst op byte v b"
  "(mkInst op byte a b)\<lparr>in_b := v\<rparr> = mkInst op byte a v"
  by (simp_all add: mkInst_def)

lemma here_eq: "pr_insts (fst e) = I \<Longrightarrow> here e = length I"
  by (simp add: RegexProgram_count_def)

text \<open>\<open>compiles t f\<close>: the emission \<open>f\<close> leaves the code of \<open>t\<close> wherever it starts.\<close>

definition compiles :: "rx \<Rightarrow> (emitter \<Rightarrow> emit_result) \<Rightarrow> bool" where
  "compiles t f \<longleftrightarrow>
     (\<forall>e g. progOk e \<longrightarrow> (g \<longrightarrow> generous (snd e)) \<longrightarrow>
        yields (pr_insts (fst e)) g (ccode t (here e)) (f e))"

lemma compilesD:
  "compiles t f \<Longrightarrow> progOk e \<Longrightarrow> (g \<longrightarrow> generous (snd e)) \<Longrightarrow> pr_insts (fst e) = I \<Longrightarrow>
   yields I g (ccode t (length I)) (f e)"
  unfolding compiles_def RegexProgram_count_def by blast

lemma compilesI:
  "(\<And>e g I. progOk e \<Longrightarrow> (g \<longrightarrow> generous (snd e)) \<Longrightarrow> pr_insts (fst e) = I \<Longrightarrow>
     yields I g (ccode t (length I)) (f e)) \<Longrightarrow> compiles t f"
  unfolding compiles_def RegexProgram_count_def by blast

lemma compiles_empty: "compiles REmpty (\<lambda>e. Some (True, e))"
  by (rule compilesI, rule yields_done) simp_all

lemma compiles_single:
  assumes "\<And>s. ccode t s = [mkInst op byte a 0]"
  shows "compiles t (\<lambda>e. emitThen e op byte a finish)"
  by (rule compilesI, rule yields_emitThen)
    (auto simp: assms finish_def here_eq intro: yields_done)

lemma compiles_cat:
  assumes "compiles a f" and "compiles b h"
  shows "compiles (RCat a b) (\<lambda>e. andThen (f e) h)"
proof (rule compilesI)
  fix e g I
  assume e: "progOk e" "g \<longrightarrow> generous (snd e)" "pr_insts (fst e) = I"
  show "yields I g (ccode (RCat a b) (length I)) (andThen (f e) h)"
  proof (rule yields_andThen [OF compilesD [OF assms(1) e]])
    fix e' assume e': "pr_insts (fst e') = I @ ccode a (length I)" "progOk e'" "g \<longrightarrow> generous (snd e')"
    show "yields I g (ccode (RCat a b) (length I)) (h e')"
      using compilesD [OF assms(2) e'(2,3,1)] by (simp add: yields_append)
  qed simp
qed

lemma compiles_quest:
  assumes "compiles a f"
  shows "compiles (RQuest a) (emitQuest f)"
proof (rule compilesI)
  fix e g I
  assume e: "progOk e" "g \<longrightarrow> generous (snd e)" "pr_insts (fst e) = I"
  let ?s = "length I"
  show "yields I g (ccode (RQuest a) ?s) (emitQuest f e)"
    unfolding emitQuest_def
  proof (rule yields_emitThen [OF e(1,2)])
    fix e1 assume e1: "pr_insts (fst e1) = pr_insts (fst e) @ [mkInst OP_SPLIT 0 0 0]"
      "progOk e1" "g \<longrightarrow> generous (snd e1)"
    let ?J = "I @ [mkInst OP_SPLIT 0 (?s + 1) 0]"
    have p1: "pr_insts (fst (setA (here e) (here e + 1) e1)) = ?J"
      using e1(1) e(3) by (simp add: insts_setA here_eq)
    have f: "yields ?J g (ccode a (length ?J)) (f (setA (here e) (here e + 1) e1))"
      by (rule compilesD [OF assms _ _ p1]) (use e1 in auto)
    show "yields I g (ccode (RQuest a) ?s)
        (andThen (f (setA (here e) (here e + 1) e1)) (\<lambda>e2. Some (True, setB (here e) (here e2) e2)))"
      by (rule yields_andThen [OF f], simp, rule yields_done)
        (auto simp: e(3) here_eq insts_setB)
  qed (use e in \<open>simp add: here_eq\<close>)
qed

lemma compiles_star:
  assumes "compiles a f"
  shows "compiles (RStar a) (emitStar f)"
proof (rule compilesI)
  fix e g I
  assume e: "progOk e" "g \<longrightarrow> generous (snd e)" "pr_insts (fst e) = I"
  let ?s = "length I"
  let ?J = "I @ [mkInst OP_SPLIT 0 (?s + 1) 0]"
  show "yields I g (ccode (RStar a) ?s) (emitStar f e)"
    unfolding emitStar_def
  proof (rule yields_emitThen [OF e(1,2)])
    fix e1 assume e1: "pr_insts (fst e1) = pr_insts (fst e) @ [mkInst OP_SPLIT 0 0 0]"
      "progOk e1" "g \<longrightarrow> generous (snd e1)"
    have p1: "pr_insts (fst (setA (here e) (here e + 1) e1)) = ?J"
      using e1(1) e(3) by (simp add: insts_setA here_eq)
    have f: "yields ?J g (ccode a (length ?J)) (f (setA (here e) (here e + 1) e1))"
      by (rule compilesD [OF assms _ _ p1]) (use e1 in auto)
    show "yields I g (ccode (RStar a) ?s)
        (andThen (f (setA (here e) (here e + 1) e1)) (\<lambda>e2.
           emitThen e2 OP_JUMP 0 0 (\<lambda>jump e3.
             let e4 = setA jump (here e) e3 in Some (True, setB (here e) (here e4) e4))))"
    proof (rule yields_andThen [OF f])
      fix e2 assume e2: "pr_insts (fst e2) = ?J @ ccode a (length ?J)" "progOk e2"
        "g \<longrightarrow> generous (snd e2)"
      show "yields I g (ccode (RStar a) ?s) (emitThen e2 OP_JUMP 0 0 (\<lambda>jump e3.
             let e4 = setA jump (here e) e3 in Some (True, setB (here e) (here e4) e4)))"
      proof (rule yields_emitThen [OF e2(2,3)])
        fix e3 assume e3: "pr_insts (fst e3) = pr_insts (fst e2) @ [mkInst OP_JUMP 0 0 0]"
          "progOk e3" "g \<longrightarrow> generous (snd e3)"
        have j: "pr_insts (fst (setA (here e2) ?s e3)) =
            I @ mkInst OP_SPLIT 0 (?s + 1) 0 # ccode a (?s + 1) @ [mkInst OP_JUMP 0 ?s 0]"
          using e3(1) e2(1) insts_setA [of e3 "?J @ ccode a (length ?J)"]
          by (simp add: here_eq)
        have h: "here e = ?s" "here (setA (here e2) ?s e3) = ?s + clen a + 2"
          using e(3) j by (simp_all add: here_eq)
        show "yields I g (ccode (RStar a) ?s)
            (let e4 = setA (here e2) (here e) e3 in Some (True, setB (here e) (here e4) e4))"
          unfolding Let_def h
          by (rule yields_done) (use e3 insts_setB [OF j refl] in simp_all)
      qed (use e2 in \<open>simp add: here_eq\<close>)
    qed simp
  qed (use e in \<open>simp add: here_eq\<close>)
qed

lemma compiles_plus:
  assumes "compiles a f"
  shows "compiles (RPlus a) (emitPlus f)"
proof (rule compilesI)
  fix e g I
  assume e: "progOk e" "g \<longrightarrow> generous (snd e)" "pr_insts (fst e) = I"
  let ?s = "length I"
  show "yields I g (ccode (RPlus a) ?s) (emitPlus f e)"
    unfolding emitPlus_def Let_def
  proof (rule yields_andThen [OF compilesD [OF assms e]])
    fix e1 assume e1: "pr_insts (fst e1) = I @ ccode a ?s" "progOk e1" "g \<longrightarrow> generous (snd e1)"
    show "yields I g (ccode (RPlus a) ?s) (emitThen e1 OP_SPLIT 0 0 (\<lambda>split e2.
        Some (True, setB split (here (setA split (here e) e2)) (setA split (here e) e2))))"
    proof (rule yields_emitThen [OF e1(2,3)])
      fix e2 assume e2: "pr_insts (fst e2) = pr_insts (fst e1) @ [mkInst OP_SPLIT 0 0 0]"
        "progOk e2" "g \<longrightarrow> generous (snd e2)"
      have j: "pr_insts (fst (setA (here e1) ?s e2)) = (I @ ccode a ?s) @ [mkInst OP_SPLIT 0 ?s 0]"
        using e2(1) e1(1) insts_setA [of e2 "I @ ccode a ?s"] by (simp add: here_eq)
      have h: "here e = ?s" "here (setA (here e1) ?s e2) = ?s + clen a + 1"
          "here e1 = length (I @ ccode a ?s)"
        using e(3) e1(1) j by (simp_all add: here_eq)
      show "yields I g (ccode (RPlus a) ?s) (Some (True,
          setB (here e1) (here (setA (here e1) (here e) e2)) (setA (here e1) (here e) e2)))"
        unfolding h(1,2)
        by (rule yields_done) (use e2 insts_setB [OF j h(3)] in simp_all)
    qed (use e1 in \<open>simp add: here_eq\<close>)
  qed simp
qed

lemma compiles_alt:
  assumes "compiles a f" and "compiles b h"
  shows "compiles (RAlt a b) (emitAlt f h)"
proof (rule compilesI)
  fix e g I
  assume e: "progOk e" "g \<longrightarrow> generous (snd e)" "pr_insts (fst e) = I"
  let ?s = "length I"
  let ?t = "?s + clen a + 2"
  let ?J = "I @ [mkInst OP_SPLIT 0 (?s + 1) 0]"
  have he: "here e = ?s" using e(3) by (simp add: here_eq)
  show "yields I g (ccode (RAlt a b) ?s) (emitAlt f h e)"
    unfolding emitAlt_def
  proof (rule yields_emitThen [OF e(1,2)])
    fix e1 assume e1: "pr_insts (fst e1) = pr_insts (fst e) @ [mkInst OP_SPLIT 0 0 0]"
      "progOk e1" "g \<longrightarrow> generous (snd e1)"
    have p1: "pr_insts (fst (setA (here e) (here e + 1) e1)) = ?J"
      using e1(1) e(3) by (simp add: insts_setA here_eq)
    have f: "yields ?J g (ccode a (length ?J)) (f (setA (here e) (here e + 1) e1))"
      by (rule compilesD [OF assms(1) _ _ p1]) (use e1 in auto)
    show "yields I g (ccode (RAlt a b) ?s)
        (andThen (f (setA (here e) (here e + 1) e1)) (\<lambda>e2.
           emitThen e2 OP_JUMP 0 0 (\<lambda>jump e3.
             andThen (h (setB (here e) (here e3) e3)) (\<lambda>e4. Some (True, setA jump (here e4) e4)))))"
    proof (rule yields_andThen [OF f])
      fix e2 assume e2: "pr_insts (fst e2) = ?J @ ccode a (length ?J)" "progOk e2"
        "g \<longrightarrow> generous (snd e2)"
      have h2: "here e2 = ?s + clen a + 1" using e2(1) by (simp add: here_eq)
      show "yields I g (ccode (RAlt a b) ?s) (emitThen e2 OP_JUMP 0 0 (\<lambda>jump e3.
             andThen (h (setB (here e) (here e3) e3)) (\<lambda>e4. Some (True, setA jump (here e4) e4))))"
      proof (rule yields_emitThen [OF e2(2,3)])
        fix e3 assume e3: "pr_insts (fst e3) = pr_insts (fst e2) @ [mkInst OP_JUMP 0 0 0]"
          "progOk e3" "g \<longrightarrow> generous (snd e3)"
        have h3: "here e3 = ?t" using e3(1) e2(1) by (simp add: here_eq)
        let ?K = "I @ mkInst OP_SPLIT 0 (?s + 1) ?t # ccode a (?s + 1) @ [mkInst OP_JUMP 0 0 0]"
        have p3: "pr_insts (fst (setB ?s ?t e3)) = ?K"
          using insts_setB [of e3 I _ "ccode a (?s + 1) @ [mkInst OP_JUMP 0 0 0]" ?s ?t] e3(1) e2(1)
          by simp
        have r: "yields ?K g (ccode b (length ?K)) (h (setB ?s ?t e3))"
          by (rule compilesD [OF assms(2) _ _ p3]) (use e3 in auto)
        show "yields I g (ccode (RAlt a b) ?s)
            (andThen (h (setB (here e) (here e3) e3)) (\<lambda>e4. Some (True, setA (here e2) (here e4) e4)))"
          unfolding he h3 h2
        proof (rule yields_andThen [OF r])
          fix e4 assume e4: "pr_insts (fst e4) = ?K @ ccode b (length ?K)" "progOk e4"
            "g \<longrightarrow> generous (snd e4)"
          have h4: "here e4 = ?s + clen a + clen b + 2" using e4(1) by (simp add: here_eq)
          have "pr_insts (fst e4) = (I @ mkInst OP_SPLIT 0 (?s + 1) ?t # ccode a (?s + 1)) @
              mkInst OP_JUMP 0 0 0 # ccode b ?t"
            using e4(1) by simp
          from insts_setA [OF this]
          show "yields I g (ccode (RAlt a b) ?s)
              (Some (True, setA (?s + clen a + 1) (here e4) e4))"
            unfolding h4 by (intro yields_done) (use e4 in simp_all)
        qed simp
      qed (use h2 in simp)
    qed simp
  qed (use he in simp)
qed

lemma compiles_times:
  "compiles a f \<Longrightarrow> compiles (rxTimes n a) (emitTimes n f)"
proof (induction n)
  case 0
  then show ?case using compiles_empty by (simp add: compiles_def)
next
  case (Suc n)
  from compiles_cat [OF Suc.prems Suc.IH [OF Suc.prems]] show ?case
    by (simp add: compiles_def)
qed

lemma compiles_repeat:
  assumes "compiles (core a) f"
  shows "compiles (core (RRepeat a lo (repBound hi))) (emitRepeat lo hi f)"
proof (cases "hi = REGEX_REP_INF")
  case True
  from compiles_cat [OF compiles_times [OF assms] compiles_star [OF assms]] True show ?thesis
    by (simp add: compiles_def emitRepeat_def repBound_def)
next
  case False
  from compiles_cat [OF compiles_times [OF assms] compiles_times [OF compiles_quest [OF assms]]] False
  show ?thesis
    by (simp add: compiles_def emitRepeat_def repBound_def)
qed

lemma compiles_group:
  assumes "compiles a f"
  shows "compiles (RGroup k a) (emitGroup k f)"
proof (cases "k > 0")
  case False
  have "andThen r (\<lambda>e. Some (True, e)) = r" for r
    by (auto simp: andThen_def split: option.splits)
  then show ?thesis using assms False by (simp add: compiles_def emitGroup_def)
next
  case True
  show ?thesis
  proof (rule compilesI)
    fix e g I
    assume e: "progOk e" "g \<longrightarrow> generous (snd e)" "pr_insts (fst e) = I"
    let ?J = "I @ [mkInst OP_SAVE 0 (k * 2) 0]"
    have "yields I g (ccode (RGroup k a) (length I))
        (emitThen e OP_SAVE 0 (k * 2) (\<lambda>_ e1. andThen (f e1)
           (\<lambda>e2. emitThen e2 OP_SAVE 0 (k * 2 + 1) finish)))"
    proof (rule yields_emitThen [OF e(1,2)])
      fix e1 assume e1: "pr_insts (fst e1) = pr_insts (fst e) @ [mkInst OP_SAVE 0 (k * 2) 0]"
        "progOk e1" "g \<longrightarrow> generous (snd e1)"
      have f: "yields ?J g (ccode a (length ?J)) (f e1)"
        using e1 e(3) by (intro compilesD [OF assms]) auto
      show "yields I g (ccode (RGroup k a) (length I))
          (andThen (f e1) (\<lambda>e2. emitThen e2 OP_SAVE 0 (k * 2 + 1) finish))"
      proof (rule yields_andThen [OF f])
        fix e2 assume e2: "pr_insts (fst e2) = ?J @ ccode a (length ?J)" "progOk e2"
          "g \<longrightarrow> generous (snd e2)"
        show "yields I g (ccode (RGroup k a) (length I)) (emitThen e2 OP_SAVE 0 (k * 2 + 1) finish)"
          by (rule yields_emitThen [OF e2(2,3)])
            (use e2 True in \<open>auto simp: here_eq finish_def intro: yields_done\<close>)
      qed (simp add: True)
    qed (simp add: here_eq [OF e(3)] True)
    then show "yields I g (ccode (RGroup k a) (length I)) (emitGroup k f e)"
      using True by (simp add: emitGroup_def)
  qed
qed

section \<open>Whole trees and programs\<close>

lemma emitNode_compiles:
  "nodeTree f (nl_nodes nodes) i = Some t \<Longrightarrow> compiles (core t) (emitNode f nodes i)"
proof (induction f arbitrary: i t)
  case 0
  then show ?case by simp
next
  case (Suc f)
  let ?n = "nl_nodes nodes ! i"
  have i: "i < length (nl_nodes nodes)" using Suc.prems by (simp split: if_splits)
  then have at: "RegexNodeList_at nodes i = Some ?n"
    by (simp add: RegexNodeList_at_def nl_count_def)
  have eta: "emitNode f nodes j = (\<lambda>e. emitNode f nodes j e)" for j ..
  show ?case
  proof (cases "nd_kind ?n")
    case NODE_CONCAT
    then show ?thesis
      using Suc.prems i at Suc.IH compiles_cat
      by (force simp: compiles_def Let_def split: option.splits)
  next
    case NODE_ALT
    then show ?thesis
      using Suc.prems i at Suc.IH compiles_alt
      by (force simp: compiles_def Let_def split: option.splits)
  next
    case NODE_REPEAT
    then obtain t' where t': "nodeTree f (nl_nodes nodes) (nd_a ?n) = Some t'"
      and t: "t = RRepeat t' (nd_repMin ?n) (repBound (nd_repMax ?n))"
      using Suc.prems i by (auto simp: Let_def)
    show ?thesis
      using compiles_repeat [OF Suc.IH [OF t']] NODE_REPEAT at
      unfolding t by (simp add: compiles_def)
  next
    case NODE_EMPTY
    then show ?thesis using Suc.prems i at compiles_empty by (auto simp: compiles_def)
  next
    case NODE_CHAR
    then show ?thesis
      using Suc.prems i at compiles_single [of "RChar (nd_byte ?n)" OP_CHAR "nd_byte ?n" 0]
      by (auto simp: compiles_def)
  next
    case NODE_ANY
    then show ?thesis
      using Suc.prems i at compiles_single [of RAny OP_ANY 0 0] by (auto simp: compiles_def)
  next
    case NODE_CLASS
    then show ?thesis
      using Suc.prems i at compiles_single [of "RClass (nd_clsIndex ?n)" OP_CLASS 0 "nd_clsIndex ?n"]
      by (auto simp: compiles_def)
  next
    case NODE_BOL
    then show ?thesis
      using Suc.prems i at compiles_single [of RBol OP_BOL 0 0] by (auto simp: compiles_def)
  next
    case NODE_EOL
    then show ?thesis
      using Suc.prems i at compiles_single [of REol OP_EOL 0 0] by (auto simp: compiles_def)
  next
    case NODE_STAR
    then show ?thesis
      using Suc.prems i at compiles_star [OF Suc.IH] by (auto simp: compiles_def Let_def)
  next
    case NODE_PLUS
    then show ?thesis
      using Suc.prems i at compiles_plus [OF Suc.IH] by (auto simp: compiles_def Let_def)
  next
    case NODE_QUEST
    then show ?thesis
      using Suc.prems i at compiles_quest [OF Suc.IH] by (auto simp: compiles_def Let_def)
  next
    case NODE_GROUP
    then obtain t' where t': "nodeTree f (nl_nodes nodes) (nd_a ?n) = Some t'"
      and t: "t = RGroup (nd_group ?n) t'"
      using Suc.prems i by (auto simp: Let_def)
    show ?thesis
      using compiles_group [OF Suc.IH [OF t'], of "nd_group ?n"] NODE_GROUP at
      unfolding t by (simp add: compiles_def)
  qed
qed

definition programCode :: "rx \<Rightarrow> RegexInst list" where
  "programCode t = [mkInst OP_SAVE 0 0 0] @ ccode (core t) 1 @
     [mkInst OP_SAVE 0 1 0, mkInst OP_MATCH 0 0 0]"

lemma RegexProgram_build_yields:
  assumes t: "treeAt (nl_nodes nodes) root = Some t" and g: "g \<longrightarrow> generous m"
  shows "yields [] g (programCode t) (RegexProgram_build (RegexProgram_0, m) nodes root)"
  unfolding RegexProgram_build_def
proof (rule yields_emitThen)
  let ?J = "[mkInst OP_SAVE 0 0 0]"
  fix e1 assume e1: "pr_insts (fst e1) = pr_insts (fst (RegexProgram_0, m)) @ [mkInst OP_SAVE 0 0 0]"
    "progOk e1" "g \<longrightarrow> generous (snd e1)"
  have c: "compiles (core t) (emitNode (root + 1) nodes root)"
    using emitNode_compiles t unfolding treeAt_def .
  have f: "yields ?J g (ccode (core t) (length ?J)) (emitNode (root + 1) nodes root e1)"
    using e1 by (intro compilesD [OF c]) (auto simp: RegexProgram_0_def)
  show "yields [] g (programCode t) (andThen (emitNode (root + 1) nodes root e1) (\<lambda>e2.
      emitThen e2 OP_SAVE 0 1 (\<lambda>_ e3. emitThen e3 OP_MATCH 0 0 finish)))"
  proof (rule yields_andThen [OF f])
    fix e2 assume e2: "pr_insts (fst e2) = ?J @ ccode (core t) (length ?J)" "progOk e2"
      "g \<longrightarrow> generous (snd e2)"
    show "yields [] g (programCode t) (emitThen e2 OP_SAVE 0 1 (\<lambda>_ e3. emitThen e3 OP_MATCH 0 0 finish))"
    proof (rule yields_emitThen [OF e2(2,3)])
      fix e3 assume e3: "pr_insts (fst e3) = pr_insts (fst e2) @ [mkInst OP_SAVE 0 1 0]"
        "progOk e3" "g \<longrightarrow> generous (snd e3)"
      show "yields [] g (programCode t) (emitThen e3 OP_MATCH 0 0 finish)"
        by (rule yields_emitThen [OF e3(2,3)])
          (use e2(1) e3(1) in \<open>auto simp: here_eq finish_def programCode_def intro: yields_done\<close>)
    qed (use e2 in \<open>simp add: here_eq programCode_def\<close>)
  qed (simp add: programCode_def)
qed (use g in \<open>simp_all add: progOk_def RegexProgram_0_def RegexProgram_count_def programCode_def\<close>)

end
