(* ===== verification/Regex_Span.thy ===== *)
theory Regex_Span
  imports Prelude
begin

text \<open>
  The span value of \<open>src/regex/span.c\<close>: a pair of byte offsets, \<open>REGEX_UNSET\<close> at both
  ends for a group that took no part.  Offsets are \<open>size_t\<close> values, read as naturals.
\<close>

definition REGEX_UNSET :: nat where
  "REGEX_UNSET = 2 ^ 64 - 1"

record RegexSpan =
  span_start :: nat
  span_end :: nat

definition RegexSpan_none :: RegexSpan where
  "RegexSpan_none = \<lparr>span_start = REGEX_UNSET, span_end = REGEX_UNSET\<rparr>"

definition RegexSpan_isSet :: "RegexSpan \<Rightarrow> bool" where
  "RegexSpan_isSet span \<longleftrightarrow> span_start span \<noteq> REGEX_UNSET \<and> span_end span \<noteq> REGEX_UNSET"

definition RegexSpan_length :: "RegexSpan \<Rightarrow> nat" where
  "RegexSpan_length span =
     (if \<not> RegexSpan_isSet span \<or> span_end span < span_start span then 0
      else span_end span - span_start span)"

lemma RegexSpan_none_unset [simp]: "\<not> RegexSpan_isSet RegexSpan_none"
  by (simp add: RegexSpan_none_def RegexSpan_isSet_def)

lemma RegexSpan_length_set:
  "RegexSpan_isSet span \<Longrightarrow> span_start span \<le> span_end span \<Longrightarrow>
   span_start span + RegexSpan_length span = span_end span"
  by (simp add: RegexSpan_length_def)

end
