(* ===== verification/Regex_Vm.thy ===== *)
theory Regex_Vm
  imports Regex_CharClass Regex_Span Regex_Program
begin

text \<open>
  The Pike simulator of \<open>src/regex/vm.c\<close>: two thread lists with their capture rows, an
  epsilon closure on an explicit work stack, one pass over the subject.  A thread list keeps
  its program counters and the rows they own; the marks of the positions already added are a
  function from program counters.  The capture table has two regions of \<open>capRowCount\<close> rows,
  one per list; the lists trade places after every byte.
\<close>

record RegexOptions =
  op_ignoreCase :: bool
  op_dotall :: bool
  op_multiline :: bool

record RegexTask =
  tk_pc :: nat
  tk_slot :: nat
  tk_value :: nat
  tk_restore :: bool

record RegexList =
  ls_pc :: "nat list"
  ls_cap :: "nat list"
  ls_seen :: "nat \<Rightarrow> bool"
  ls_capBase :: nat

record RegexVm =
  vm_program :: RegexProgram
  vm_caps :: "nat list list"
  vm_work :: "nat list"
  vm_seed :: "nat list"
  vm_best :: "nat list"
  vm_capStride :: nat
  vm_capRowCount :: nat
  vm_stackCapacity :: nat

section \<open>Construction\<close>

text \<open>
  The eleven blocks are requested before any answer is looked at; \<open>None\<close> is the zeroed
  machine of a refusal.  Every capture slot starts unset.
\<close>

definition vmInitialize :: "arena \<Rightarrow> RegexProgram \<Rightarrow> nat \<Rightarrow> RegexVm option \<times> arena" where
  "vmInitialize m program groupCount =
     (let n = RegexProgram_count program; stride = 2 * (groupCount + 1)
      in if n = 0 then (None, m)
         else let (granted, m') = Memory_allocs 11 m
           in if \<not> granted then (None, m')
              else (Some \<lparr>vm_program = program,
                     vm_caps = replicate (2 * n) (replicate stride REGEX_UNSET),
                     vm_work = replicate stride 0,
                     vm_seed = replicate stride REGEX_UNSET,
                     vm_best = replicate stride REGEX_UNSET,
                     vm_capStride = stride, vm_capRowCount = n,
                     vm_stackCapacity = 4 * n + 8\<rparr>, m'))"

definition RegexVm_2 :: "arena \<Rightarrow> RegexProgram \<Rightarrow> nat \<Rightarrow> RegexVm option \<times> arena" where
  "RegexVm_2 m program groupCount = vmInitialize m program groupCount"

section \<open>The epsilon closure\<close>

definition vmLowerByte :: "u8 \<Rightarrow> u8" where
  "vmLowerByte c = (if ch_A \<le> c \<and> c \<le> ch_Z then c + 32 else c)"

definition instMatches :: "RegexCharClass list \<Rightarrow> RegexInst \<Rightarrow> u8 \<Rightarrow> RegexOptions \<Rightarrow> bool" where
  "instMatches classes inst byte options =
     (case in_op inst of
        OP_CHAR \<Rightarrow> byte = in_byte inst
      | OP_ANY \<Rightarrow> if op_dotall options then True else byte \<noteq> ch_newline
      | OP_CLASS \<Rightarrow> RegexCharClass_test (classes ! in_a inst) byte
      | _ \<Rightarrow> False)"

definition taskPc :: "nat \<Rightarrow> RegexTask" where
  "taskPc pc = \<lparr>tk_pc = pc, tk_slot = 0, tk_value = 0, tk_restore = False\<rparr>"

definition taskRestore :: "nat \<Rightarrow> nat \<Rightarrow> RegexTask" where
  "taskRestore slot v = \<lparr>tk_pc = 0, tk_slot = slot, tk_value = v, tk_restore = True\<rparr>"

definition atBol :: "u8 list \<Rightarrow> bool \<Rightarrow> nat \<Rightarrow> bool" where
  "atBol subject multiline pos \<longleftrightarrow> pos = 0 \<or> (multiline \<and> subject ! (pos - 1) = ch_newline)"

definition atEol :: "u8 list \<Rightarrow> bool \<Rightarrow> nat \<Rightarrow> bool" where
  "atEol subject multiline pos \<longleftrightarrow>
     pos = length subject \<or> (multiline \<and> subject ! pos = ch_newline)"

text \<open>A consuming instruction (or \<open>MATCH\<close>) becomes a thread with a copy of the captures.\<close>

definition pushThread :: "RegexVm \<Rightarrow> RegexList \<Rightarrow> nat \<Rightarrow> RegexVm \<times> RegexList" where
  "pushThread vm list pc =
     (let index = length (ls_pc list)
      in if index \<ge> vm_capRowCount vm \<or> pc \<ge> RegexProgram_count (vm_program vm) then (vm, list)
         else (vm\<lparr>vm_caps := (vm_caps vm)[ls_capBase list + index := vm_work vm]\<rparr>,
               list\<lparr>ls_pc := ls_pc list @ [pc],
                    ls_cap := ls_cap list @ [ls_capBase list + index]\<rparr>))"

text \<open>One round of the closure loop: the popped task and the rest of the stack.\<close>

definition closureStep ::
    "u8 list \<Rightarrow> bool \<Rightarrow> nat \<Rightarrow> RegexTask \<Rightarrow> RegexTask list \<Rightarrow> RegexVm \<times> RegexList \<Rightarrow>
     (RegexVm \<times> RegexList) \<times> RegexTask list" where
  "closureStep subject multiline pos task stack s =
     (let (vm, list) = s
      in if tk_restore task
         then ((vm\<lparr>vm_work := (vm_work vm)[tk_slot task := tk_value task]\<rparr>, list), stack)
         else if ls_seen list (tk_pc task) then (s, stack)
         else
           let pc = tk_pc task;
               list1 = list\<lparr>ls_seen := (ls_seen list)(pc := True)\<rparr>
           in case RegexProgram_at (vm_program vm) pc of
                None \<Rightarrow> ((vm, list1), stack)
              | Some inst \<Rightarrow>
                  (case in_op inst of
                     OP_JUMP \<Rightarrow> ((vm, list1), taskPc (in_a inst) # stack)
                   | OP_SPLIT \<Rightarrow>
                       ((vm, list1), taskPc (in_a inst) # taskPc (in_b inst) # stack)
                   | OP_SAVE \<Rightarrow>
                       ((vm\<lparr>vm_work := (vm_work vm)[in_a inst := pos]\<rparr>, list1),
                        taskPc (pc + 1) # taskRestore (in_a inst) (vm_work vm ! in_a inst) # stack)
                   | OP_BOL \<Rightarrow>
                       ((vm, list1),
                        if atBol subject multiline pos then taskPc (pc + 1) # stack else stack)
                   | OP_EOL \<Rightarrow>
                       ((vm, list1),
                        if atEol subject multiline pos then taskPc (pc + 1) # stack else stack)
                   | _ \<Rightarrow> (pushThread vm list1 pc, stack)))"

text \<open>
  A program counter that is not in the program is only marked; one that is, is marked for the
  first time: the number of unmarked instructions or the stack shrinks.
\<close>

definition unseen :: "RegexVm \<times> RegexList \<Rightarrow> nat" where
  "unseen s = card {pc. pc < RegexProgram_count (vm_program (fst s)) \<and> \<not> ls_seen (snd s) pc}"

lemma pushThread_program [simp]:
  "vm_program (fst (pushThread vm list pc)) = vm_program vm"
  "ls_seen (snd (pushThread vm list pc)) = ls_seen list"
  by (simp_all add: pushThread_def Let_def)

lemma closureStep_program [simp]:
  "vm_program (fst (fst (closureStep subject ml pos task stack s))) = vm_program (fst s)"
  by (auto simp: closureStep_def Let_def split: prod.splits option.splits RegexOp.splits)

lemma closureStep_seen:
  "ls_seen (snd (fst (closureStep subject ml pos task stack s))) pc \<longleftrightarrow>
     ls_seen (snd s) pc \<or> (\<not> tk_restore task \<and> pc = tk_pc task)"
  by (auto simp: closureStep_def Let_def split: prod.splits option.splits RegexOp.splits)

lemma closureStep_stack:
  "tk_restore task \<or> ls_seen (snd s) (tk_pc task) \<or>
     tk_pc task \<ge> RegexProgram_count (vm_program (fst s)) \<Longrightarrow>
   snd (closureStep subject ml pos task stack s) = stack"
  by (auto simp: closureStep_def Let_def RegexProgram_at_def split: prod.splits)

lemma closureStep_decreases:
  "unseen (fst (closureStep subject ml pos task stack s)) < unseen s \<or>
   unseen (fst (closureStep subject ml pos task stack s)) = unseen s \<and>
   snd (closureStep subject ml pos task stack s) = stack"
proof -
  let ?n = "RegexProgram_count (vm_program (fst s))"
  let ?U = "{pc. pc < ?n \<and> \<not> ls_seen (snd s) pc}"
  have after: "unseen (fst (closureStep subject ml pos task stack s)) =
      card {pc. pc < ?n \<and> \<not> (ls_seen (snd s) pc \<or> (\<not> tk_restore task \<and> pc = tk_pc task))}"
    (is "_ = card ?V")
    unfolding unseen_def closureStep_seen closureStep_program ..
  have now: "unseen s = card ?U" unfolding unseen_def ..
  have sub: "?V \<subseteq> ?U" and fin: "finite ?U" by auto
  show ?thesis
  proof (cases "tk_restore task \<or> ls_seen (snd s) (tk_pc task) \<or> tk_pc task \<ge> ?n")
    case True
    then have "?V = ?U" by fastforce
    then have "unseen (fst (closureStep subject ml pos task stack s)) = unseen s"
      unfolding now after by simp
    then show ?thesis using closureStep_stack [OF True] by blast
  next
    case False
    then have "tk_pc task \<in> ?U" "tk_pc task \<notin> ?V" by auto
    then have "?V \<subset> ?U" using sub by blast
    then have "card ?V < card ?U" by (rule psubset_card_mono [OF fin])
    then show ?thesis unfolding now after ..
  qed
qed

function closure ::
    "u8 list \<Rightarrow> bool \<Rightarrow> nat \<Rightarrow> RegexTask list \<Rightarrow> RegexVm \<times> RegexList \<Rightarrow> RegexVm \<times> RegexList" where
  "closure subject multiline pos [] s = s"
| "closure subject multiline pos (task # stack) s =
     (let out = closureStep subject multiline pos task stack s
      in closure subject multiline pos (snd out) (fst out))"
  by pat_completeness auto
termination
proof (relation "inv_image (less_than <*lex*> less_than)
    (\<lambda>(subject, multiline, pos, stack, s). (unseen s, length stack))")
  show "wf (inv_image (less_than <*lex*> less_than)
    (\<lambda>(subject :: u8 list, multiline :: bool, pos :: nat, stack :: RegexTask list,
        s :: RegexVm \<times> RegexList). (unseen s, length stack)))"
    by auto
next
  fix subject :: "u8 list" and multiline :: bool and pos :: nat and task :: RegexTask
    and stack :: "RegexTask list" and s :: "RegexVm \<times> RegexList" and out
  assume "out = closureStep subject multiline pos task stack s"
  then show "((subject, multiline, pos, snd out, fst out), subject, multiline, pos, task # stack, s)
      \<in> inv_image (less_than <*lex*> less_than)
        (\<lambda>(subject, multiline, pos, stack, s). (unseen s, length stack))"
    using closureStep_decreases [of subject multiline pos task stack s] by auto
qed

definition addThread ::
    "u8 list \<Rightarrow> bool \<Rightarrow> nat \<Rightarrow> nat \<Rightarrow> nat list \<Rightarrow> RegexVm \<times> RegexList \<Rightarrow> RegexVm \<times> RegexList" where
  "addThread subject multiline pos pc0 parentCaps s =
     closure subject multiline pos [taskPc pc0]
       ((fst s)\<lparr>vm_work := take (vm_capStride (fst s)) parentCaps\<rparr>, snd s)"

section \<open>The run\<close>

record RunArgs =
  ra_classes :: "RegexCharClass list"
  ra_subject :: "u8 list"
  ra_anchored :: bool
  ra_options :: RegexOptions
  ra_full :: bool

abbreviation ra_length :: "RunArgs \<Rightarrow> nat" where
  "ra_length r \<equiv> length (ra_subject r)"

definition foldByte :: "RegexOptions \<Rightarrow> u8 \<Rightarrow> u8" where
  "foldByte options byte = (if op_ignoreCase options then vmLowerByte byte else byte)"

text \<open>The pass over the threads of one position; the flag says whether \<open>MATCH\<close> was met.\<close>

fun stepThreads ::
    "RunArgs \<Rightarrow> nat \<Rightarrow> (nat \<times> nat) list \<Rightarrow> bool \<Rightarrow> RegexVm \<times> RegexList \<Rightarrow>
     bool \<times> (RegexVm \<times> RegexList)" where
  "stepThreads r pos [] matched s = (matched, s)"
| "stepThreads r pos ((pc, cap) # ts) matched s =
     (case RegexProgram_at (vm_program (fst s)) pc of
        None \<Rightarrow> stepThreads r pos ts matched s
      | Some raw \<Rightarrow>
          if in_op raw = OP_MATCH then
            if ra_full r \<and> pos \<noteq> ra_length r then stepThreads r pos ts matched s
            else (True, ((fst s)\<lparr>vm_best := take (vm_capStride (fst s)) (vm_caps (fst s) ! cap)\<rparr>,
                         snd s))
          else if pos < ra_length r \<and>
              instMatches (ra_classes r) raw (foldByte (ra_options r) (ra_subject r ! pos))
                (ra_options r)
          then stepThreads r pos ts matched
                 (addThread (ra_subject r) (op_multiline (ra_options r)) (pos + 1) (pc + 1)
                    (vm_caps (fst s) ! cap) s)
          else stepThreads r pos ts matched s)"

definition emptyList :: "RegexList \<Rightarrow> RegexList" where
  "emptyList list = list\<lparr>ls_pc := [], ls_cap := [], ls_seen := (\<lambda>_. False)\<rparr>"

definition seedThread :: "RunArgs \<Rightarrow> nat \<Rightarrow> bool \<Rightarrow> RegexVm \<times> RegexList \<Rightarrow> RegexVm \<times> RegexList" where
  "seedThread r pos matched s =
     (if \<not> matched \<and> (\<not> ra_anchored r \<or> pos = 0) \<and> pos \<le> ra_length r
      then addThread (ra_subject r) (op_multiline (ra_options r)) pos 0 (vm_seed (fst s)) s
      else s)"

function runLoop ::
    "RunArgs \<Rightarrow> nat \<Rightarrow> bool \<Rightarrow> RegexVm \<Rightarrow> RegexList \<Rightarrow> RegexList \<Rightarrow> bool \<times> RegexVm" where
  "runLoop r pos matched vm clist nlist =
     (if ls_pc clist = [] \<and> matched then (matched, vm)
      else
        let (vm1, clist1) = seedThread r pos matched (vm, clist);
            (matched2, vm2, nlist2) =
              stepThreads r pos (zip (ls_pc clist1) (ls_cap clist1)) matched
                (vm1, emptyList nlist)
        in if pos \<ge> ra_length r then (matched2, vm2)
           else runLoop r (pos + 1) matched2 vm2 nlist2 clist1)"
  by pat_completeness auto
termination
  by (relation "measure (\<lambda>(r, pos, _). ra_length r - pos)") auto

declare runLoop.simps [simp del]

definition runVm :: "RunArgs \<Rightarrow> RegexVm \<Rightarrow> bool \<times> RegexVm" where
  "runVm r vm =
     runLoop r 0 False vm
       \<lparr>ls_pc = [], ls_cap = [], ls_seen = (\<lambda>_. False), ls_capBase = 0\<rparr>
       \<lparr>ls_pc = [], ls_cap = [], ls_seen = (\<lambda>_. False), ls_capBase = vm_capRowCount vm\<rparr>"

definition RegexVm_run ::
    "RegexVm \<Rightarrow> RegexCharClass list \<Rightarrow> u8 list \<Rightarrow> bool \<Rightarrow> RegexOptions \<Rightarrow> bool \<times> RegexVm" where
  "RegexVm_run vm classes subject anchored options =
     runVm \<lparr>ra_classes = classes, ra_subject = subject, ra_anchored = anchored,
            ra_options = options, ra_full = False\<rparr> vm"

definition RegexVm_runFull ::
    "RegexVm \<Rightarrow> RegexCharClass list \<Rightarrow> u8 list \<Rightarrow> RegexOptions \<Rightarrow> bool \<times> RegexVm" where
  "RegexVm_runFull vm classes subject options =
     runVm \<lparr>ra_classes = classes, ra_subject = subject, ra_anchored = True,
            ra_options = options, ra_full = True\<rparr> vm"

definition RegexVm_span :: "RegexVm \<Rightarrow> nat \<Rightarrow> RegexSpan" where
  "RegexVm_span vm grp =
     (let slot = 2 * grp
      in if slot + 1 \<ge> vm_capStride vm then RegexSpan_none
         else let span = \<lparr>span_start = vm_best vm ! slot, span_end = vm_best vm ! (slot + 1)\<rparr>
              in if \<not> RegexSpan_isSet span then RegexSpan_none else span)"

end
