(* ===== verification/Regex_Nfa.thy ===== *)
theory Regex_Nfa
  imports Regex_Tree Regex_Vm
begin

text \<open>
  What a pattern means, and that its Thompson code means the same.  \<open>crel\<close> is the
  denotation of a tree as a relation on a position and the capture slots, \<open>rxrel\<close> the same
  on positions alone; \<open>cstep\<close> is one step of the automaton that the compiled program is.
  The code of a tree, started at its first address, gets to the address after it exactly
  along the pairs of the denotation.
\<close>

section \<open>The denotation of a tree\<close>

definition byteAt :: "RunArgs \<Rightarrow> nat \<Rightarrow> u8" where
  "byteAt r i = foldByte (ra_options r) (ra_subject r ! i)"

definition bolAt :: "RunArgs \<Rightarrow> nat \<Rightarrow> bool" where
  "bolAt r i \<longleftrightarrow> atBol (ra_subject r) (op_multiline (ra_options r)) i"

definition eolAt :: "RunArgs \<Rightarrow> nat \<Rightarrow> bool" where
  "eolAt r i \<longleftrightarrow> atEol (ra_subject r) (op_multiline (ra_options r)) i"

definition anyAt :: "RunArgs \<Rightarrow> nat \<Rightarrow> bool" where
  "anyAt r i \<longleftrightarrow> op_dotall (ra_options r) \<or> byteAt r i \<noteq> ch_newline"

definition repCounts :: "nat \<Rightarrow> nat option \<Rightarrow> nat set" where
  "repCounts lo hi = {n. lo \<le> n \<and> (\<forall>h. hi = Some h \<longrightarrow> n \<le> h)}"

primrec rxrel :: "RunArgs \<Rightarrow> rx \<Rightarrow> (nat \<times> nat) set" where
  "rxrel r REmpty = Id"
| "rxrel r (RChar b) = {(i, j). j = i + 1 \<and> i < ra_length r \<and> byteAt r i = b}"
| "rxrel r RAny = {(i, j). j = i + 1 \<and> i < ra_length r \<and> anyAt r i}"
| "rxrel r (RClass k) =
     {(i, j). j = i + 1 \<and> i < ra_length r \<and> RegexCharClass_test (ra_classes r ! k) (byteAt r i)}"
| "rxrel r RBol = {(i, j). j = i \<and> bolAt r i}"
| "rxrel r REol = {(i, j). j = i \<and> eolAt r i}"
| "rxrel r (RCat a b) = rxrel r a O rxrel r b"
| "rxrel r (RAlt a b) = rxrel r a \<union> rxrel r b"
| "rxrel r (RStar a) = (rxrel r a)\<^sup>*"
| "rxrel r (RPlus a) = (rxrel r a)\<^sup>+"
| "rxrel r (RQuest a) = Id \<union> rxrel r a"
| "rxrel r (RRepeat a lo hi) = (\<Union>n\<in>repCounts lo hi. rxrel r a ^^ n)"
| "rxrel r (RGroup k a) = rxrel r a"

text \<open>The same with the capture slots, for the trees the emitter really lays out.\<close>

definition saves :: "nat \<Rightarrow> ((nat \<times> nat list) \<times> (nat \<times> nat list)) set" where
  "saves k = {(x, y). y = (fst x, (snd x)[k := fst x])}"

definition lifted :: "(nat \<times> nat) set \<Rightarrow> ((nat \<times> nat list) \<times> (nat \<times> nat list)) set" where
  "lifted R = {(x, y). (fst x, fst y) \<in> R \<and> snd y = snd x}"

primrec crel :: "RunArgs \<Rightarrow> rx \<Rightarrow> ((nat \<times> nat list) \<times> (nat \<times> nat list)) set" where
  "crel r REmpty = Id"
| "crel r (RChar b) = lifted (rxrel r (RChar b))"
| "crel r RAny = lifted (rxrel r RAny)"
| "crel r (RClass k) = lifted (rxrel r (RClass k))"
| "crel r RBol = lifted (rxrel r RBol)"
| "crel r REol = lifted (rxrel r REol)"
| "crel r (RCat a b) = crel r a O crel r b"
| "crel r (RAlt a b) = crel r a \<union> crel r b"
| "crel r (RStar a) = (crel r a)\<^sup>*"
| "crel r (RPlus a) = (crel r a)\<^sup>+"
| "crel r (RQuest a) = Id \<union> crel r a"
| "crel r (RRepeat a lo hi) = (\<Union>n\<in>repCounts lo hi. crel r a ^^ n)"
| "crel r (RGroup k a) =
     (if k > 0 then saves (k * 2) O crel r a O saves (k * 2 + 1) else crel r a)"

text \<open>Capture slots never decide: a run on positions is the shadow of one with slots.\<close>

lemma crel_rxrel: "(x, y) \<in> crel r t \<Longrightarrow> (fst x, fst y) \<in> rxrel r t"
proof (induction t arbitrary: x y)
  case (RStar t)
  have "(x, y) \<in> (crel r t)\<^sup>*" using RStar.prems by simp
  then show ?case
    by (induction rule: rtrancl_induct) (auto intro: rtrancl_into_rtrancl RStar.IH)
next
  case (RPlus t)
  have "(x, y) \<in> (crel r t)\<^sup>+" using RPlus.prems by simp
  then show ?case
    by (induction rule: trancl_induct) (auto intro: trancl_into_trancl RPlus.IH)
next
  case (RRepeat t lo hi)
  have "(x, y) \<in> crel r t ^^ n \<Longrightarrow> (fst x, fst y) \<in> rxrel r t ^^ n" for n
    by (induction n arbitrary: y) (auto intro: relcompI RRepeat.IH)
  then show ?case using RRepeat.prems by auto
next
  case (RGroup k t)
  then show ?case by (auto simp: saves_def split: if_splits)
qed (fastforce simp: lifted_def)+

lemma rxrel_crel: "(i, j) \<in> rxrel r t \<Longrightarrow> \<exists>c'. ((i, c), (j, c')) \<in> crel r t"
proof (induction t arbitrary: i j c)
  case (RStar t)
  have "(i, j) \<in> (rxrel r t)\<^sup>*" using RStar.prems by simp
  then have "\<exists>c'. ((i, c), (j, c')) \<in> (crel r t)\<^sup>*"
    by (induction rule: rtrancl_induct) (blast intro: rtrancl_into_rtrancl dest: RStar.IH)+
  then show ?case by simp
next
  case (RPlus t)
  have "(i, j) \<in> (rxrel r t)\<^sup>+" using RPlus.prems by simp
  then have "\<exists>c'. ((i, c), (j, c')) \<in> (crel r t)\<^sup>+"
    by (induction rule: trancl_induct) (blast intro: trancl_into_trancl dest: RPlus.IH)+
  then show ?case by simp
next
  case (RRepeat t lo hi)
  have "(i, j) \<in> rxrel r t ^^ n \<Longrightarrow> \<exists>c'. ((i, c), (j, c')) \<in> crel r t ^^ n" for n
    by (induction n arbitrary: j) (auto, blast intro: relcompI dest: RRepeat.IH)
  moreover obtain n where "n \<in> repCounts lo hi" "(i, j) \<in> rxrel r t ^^ n"
    using RRepeat.prems by auto
  ultimately show ?case by simp blast
next
  case (RGroup k t)
  show ?case
  proof (cases "k > 0")
    case True
    obtain c' where "((i, c[k * 2 := i]), (j, c')) \<in> crel r t"
      using RGroup.IH RGroup.prems by fastforce
    then have "((i, c), (j, c'[k * 2 + 1 := j])) \<in> crel r (RGroup k t)"
      using True relcompI [OF _ relcompI, of "(i, c)" "(i, c[k * 2 := i])" "saves (k * 2)" "(j, c')"
          "crel r t" "(j, c'[k * 2 + 1 := j])" "saves (k * 2 + 1)"]
      by (simp add: saves_def)
    then show ?thesis by blast
  qed (use RGroup in auto)
next
  case (RCat t1 t2)
  then show ?case by simp blast
next
  case (RAlt t1 t2)
  then show ?case by simp blast
next
  case (RQuest t)
  then show ?case by simp blast
qed (auto simp: lifted_def)

section \<open>Unfolding the repetitions keeps the meaning\<close>

lemma rel_quest_power: "(Id \<union> R) ^^ d = (\<Union>n\<in>{..d}. R ^^ n)"
proof (induction d)
  case (Suc d)
  have "(a, c) \<in> (\<Union>n\<in>{..d}. R ^^ n) O (Id \<union> R) \<longleftrightarrow> (\<exists>n\<le>Suc d. (a, c) \<in> R ^^ n)" for a c
  proof
    assume "(a, c) \<in> (\<Union>n\<in>{..d}. R ^^ n) O (Id \<union> R)"
    then obtain b n where "n \<le> d" "(a, b) \<in> R ^^ n" "b = c \<or> (b, c) \<in> R" by auto
    then show "\<exists>n\<le>Suc d. (a, c) \<in> R ^^ n" by (metis Suc_le_mono le_SucI relpow_Suc_I)
  next
    assume "\<exists>n\<le>Suc d. (a, c) \<in> R ^^ n"
    then obtain n where n: "n \<le> Suc d" "(a, c) \<in> R ^^ n" by blast
    show "(a, c) \<in> (\<Union>n\<in>{..d}. R ^^ n) O (Id \<union> R)"
    proof (cases "n \<le> d")
      case False
      then have "n = Suc d" using n by simp
      then obtain b where "(a, b) \<in> R ^^ d" "(b, c) \<in> R" using n by auto
      then show ?thesis by auto
    qed (use n in auto)
  qed
  then have "(\<Union>n\<in>{..d}. R ^^ n) O (Id \<union> R) = (\<Union>n\<in>{..Suc d}. R ^^ n)"
    by (intro set_eqI) (simp only: split_paired_all UN_iff Bex_def atMost_iff)
  then show ?case using Suc by simp
qed simp

lemma crel_rxTimes: "crel r (rxTimes n t) = crel r t ^^ n"
  by (induction n) (simp_all add: relpow_commute)

lemma repCounts_Some: "lo \<le> h \<Longrightarrow> repCounts lo (Some h) = (\<lambda>d. lo + d) ` {..h - lo}"
  by (force simp: repCounts_def image_iff dest: le_Suc_ex)

lemma repCounts_None: "repCounts lo None = (\<lambda>d. lo + d) ` UNIV"
  by (auto simp: repCounts_def image_iff intro: le_Suc_ex)

lemma relpow_shift: "(\<Union>n\<in>(\<lambda>d. lo + d) ` D. R ^^ n) = R ^^ lo O (\<Union>n\<in>D. R ^^ n)"
  by (auto simp: relpow_add)

lemma crel_core: "rxWf c g t \<Longrightarrow> crel r (core t) = crel r t"
proof (induction t)
  case (RRepeat t lo hi)
  then have t: "crel r (core t) = crel r t" by simp
  show ?case
  proof (cases hi)
    case None
    have "(\<Union>n. crel r t ^^ n) = (crel r t)\<^sup>*" by (auto simp: rtrancl_power)
    then show ?thesis
      using None t by (simp only: crel_rxTimes core.simps crel.simps repCounts_None relpow_shift
          option.case)
  next
    case (Some h)
    then have "lo \<le> h" using RRepeat.prems by simp
    then show ?thesis
      using Some t by (simp only: crel_rxTimes core.simps crel.simps repCounts_Some relpow_shift
          option.case rel_quest_power)
  qed
qed auto

section \<open>The automaton of a program\<close>

definition epsNext :: "RunArgs \<Rightarrow> nat \<Rightarrow> nat \<Rightarrow> RegexInst \<Rightarrow> nat list" where
  "epsNext r pos pc inst =
     (case in_op inst of
        OP_JUMP \<Rightarrow> [in_a inst]
      | OP_SPLIT \<Rightarrow> [in_a inst, in_b inst]
      | OP_SAVE \<Rightarrow> [pc + 1]
      | OP_BOL \<Rightarrow> if bolAt r pos then [pc + 1] else []
      | OP_EOL \<Rightarrow> if eolAt r pos then [pc + 1] else []
      | _ \<Rightarrow> [])"

definition saveAt :: "RegexInst \<Rightarrow> nat \<Rightarrow> nat list \<Rightarrow> nat list" where
  "saveAt inst pos c = (if in_op inst = OP_SAVE then c[in_a inst := pos] else c)"

definition accepts :: "RunArgs \<Rightarrow> RegexInst \<Rightarrow> nat \<Rightarrow> bool" where
  "accepts r inst pos \<longleftrightarrow>
     pos < ra_length r \<and> instMatches (ra_classes r) inst (byteAt r pos) (ra_options r)"

type_synonym config = "nat \<times> nat \<times> nat list"

inductive cstep :: "RunArgs \<Rightarrow> RegexInst list \<Rightarrow> config \<Rightarrow> config \<Rightarrow> bool"
  for r :: RunArgs and code :: "RegexInst list" where
  eps: "pc < length code \<Longrightarrow> q \<in> set (epsNext r pos pc (code ! pc)) \<Longrightarrow>
    cstep r code (pc, pos, c) (q, pos, saveAt (code ! pc) pos c)"
| read: "pc < length code \<Longrightarrow> accepts r (code ! pc) pos \<Longrightarrow>
    cstep r code (pc, pos, c) (pc + 1, pos + 1, c)"

inductive_simps cstep_iff: "cstep r code (pc, pos, c) y"
inductive_cases cstepE: "cstep r code x y"

definition codeAt :: "RegexInst list \<Rightarrow> nat \<Rightarrow> RegexInst list \<Rightarrow> bool" where
  "codeAt code s xs \<longleftrightarrow> (\<exists>I K. code = I @ xs @ K \<and> length I = s)"

lemma codeAt_append:
  "codeAt code s (xs @ ys) \<Longrightarrow> codeAt code s xs \<and> codeAt code (s + length xs) ys"
  unfolding codeAt_def by (metis append.assoc length_append)

lemma codeAt_Cons: "codeAt code s (x # xs) \<Longrightarrow> code ! s = x \<and> s < length code \<and> codeAt code (Suc s) xs"
proof -
  assume "codeAt code s (x # xs)"
  then obtain I K where "code = I @ (x # xs) @ K" "length I = s" unfolding codeAt_def by blast
  then have "code ! s = x" "s < length code" "code = (I @ [x]) @ xs @ K \<and> length (I @ [x]) = Suc s"
    by auto
  then show ?thesis unfolding codeAt_def by blast
qed

lemma codeAt_appendE:
  assumes "codeAt code s (xs @ ys)"
  obtains "codeAt code s xs" and "codeAt code (s + length xs) ys"
  using assms codeAt_append by blast


lemma codeAt_clen: "codeAt code s (ccode t s @ x # xs) \<Longrightarrow>
  code ! (s + clen t) = x \<and> s + clen t < length code"
  by (drule codeAt_append) (auto dest: codeAt_Cons)

section \<open>The code of a tree reaches its end along the denotation\<close>

abbreviation csteps :: "RunArgs \<Rightarrow> RegexInst list \<Rightarrow> nat \<Rightarrow> config \<Rightarrow> config \<Rightarrow> bool" where
  "csteps r code n \<equiv> cstep r code ^^ n"

lemma csteps_leave:
  assumes "csteps r code n (pc, x) y" and "fst y \<noteq> pc"
  obtains z n' where "cstep r code (pc, x) z" and "csteps r code n' z y" and "n = Suc n'"
proof (cases n)
  case 0
  then show thesis using assms by auto
next
  case (Suc n')
  then show thesis using assms(1) that relpowp_Suc_D2 [of n' "cstep r code" "(pc, x)" y] by auto
qed

definition through ::
    "RunArgs \<Rightarrow> RegexInst list \<Rightarrow> nat \<Rightarrow> ((nat \<times> nat list) \<times> (nat \<times> nat list)) set \<Rightarrow>
     nat \<Rightarrow> nat \<times> nat list \<Rightarrow> config \<Rightarrow> bool" where
  "through r code e R n x y \<longleftrightarrow>
     (\<exists>x' n'. n' \<le> n \<and> (x, x') \<in> R \<and> csteps r code n' (e, x') y)"

lemma throughI:
  "(x, x') \<in> R \<Longrightarrow> csteps r code n' (e, x') y \<Longrightarrow> n' \<le> n \<Longrightarrow> through r code e R n x y"
  unfolding through_def by blast

lemma throughE:
  assumes "through r code e R n x y"
  obtains x' n' where "(x, x') \<in> R" and "csteps r code n' (e, x') y" and "n' \<le> n"
  using assms unfolding through_def by blast

lemma through_comp:
  assumes "through r code m R n x y"
    and "\<And>x' n'. n' \<le> n \<Longrightarrow> csteps r code n' (m, x') y \<Longrightarrow> through r code e S n' x' y"
  shows "through r code e (R O S) n x y"
  using assms unfolding through_def by (meson le_trans relcompI)

text \<open>One instruction: the run takes its step and is at the next address.\<close>

lemma leaf_sound:
  assumes "code ! s = inst" and "csteps r code n (s, x) y" and "fst y \<noteq> s"
    and "\<And>z. cstep r code (s, x) z \<Longrightarrow> fst z = s + 1 \<and> (x, snd z) \<in> R"
  shows "through r code (s + 1) R n x y"
proof -
  obtain z n' where z: "cstep r code (s, x) z" "csteps r code n' z y" "n = Suc n'"
    using csteps_leave assms(2,3) .
  then have "(s + 1, snd z) = z" and "(x, snd z) \<in> R"
    using assms(4) [OF z(1)] by (metis prod.collapse, simp)
  then show ?thesis using z by (intro throughI [of x "snd z"]) auto
qed

text \<open>The successors of the three branching instructions.\<close>

lemma step_split:
  "code ! s = mkInst OP_SPLIT b p q \<Longrightarrow> cstep r code (s, x) z \<Longrightarrow> z = (p, x) \<or> z = (q, x)"
  by (cases x) (auto simp: cstep_iff mkInst_def epsNext_def saveAt_def accepts_def instMatches_def)

lemma step_jump: "code ! s = mkInst OP_JUMP b p q \<Longrightarrow> cstep r code (s, x) z \<Longrightarrow> z = (p, x)"
  by (cases x) (auto simp: cstep_iff mkInst_def epsNext_def saveAt_def accepts_def instMatches_def)

lemma step_save:
  "code ! s = mkInst OP_SAVE b k q \<Longrightarrow> cstep r code (s, x) z \<Longrightarrow>
   fst z = s + 1 \<and> (x, snd z) \<in> saves k"
  by (cases x)
    (auto simp: cstep_iff mkInst_def epsNext_def saveAt_def accepts_def instMatches_def saves_def)

lemma star_sound:
  assumes split: "code ! s = mkInst OP_SPLIT 0 (s + 1) (s + l + 2)"
    and jump: "code ! (s + l + 1) = mkInst OP_JUMP 0 s 0"
    and body: "\<And>n x. csteps r code n (s + 1, x) y \<Longrightarrow> through r code (s + l + 1) R n x y"
    and out: "fst y \<noteq> s" "fst y \<noteq> s + l + 1"
  shows "csteps r code n (s, x) y \<Longrightarrow> through r code (s + l + 2) (R\<^sup>*) n x y"
proof (induction n arbitrary: x rule: less_induct)
  case (less n)
  obtain z n1 where z: "cstep r code (s, x) z" "csteps r code n1 z y" "n = Suc n1"
    using csteps_leave [OF less.prems out(1)] by blast
  show ?case
  proof (cases "z = (s + l + 2, x)")
    case True
    then show ?thesis using z by (intro throughI [of x x]) auto
  next
    case False
    then have "z = (s + 1, x)" using step_split [OF split z(1)] by blast
    then obtain x2 n2 where 2: "(x, x2) \<in> R" "csteps r code n2 (s + l + 1, x2) y" "n2 \<le> n1"
      using body z(2) throughE by blast
    obtain z3 n3 where 3: "cstep r code (s + l + 1, x2) z3" "csteps r code n3 z3 y" "n2 = Suc n3"
      using csteps_leave [OF 2(2) out(2)] by blast
    have "csteps r code n3 (s, x2) y" using step_jump [OF jump 3(1)] 3(2) by simp
    then have "through r code (s + l + 2) (R\<^sup>*) n3 x2 y" using less.IH z(3) 2(3) 3(3) by simp
    then obtain x4 n4 where "(x2, x4) \<in> R\<^sup>*" "csteps r code n4 (s + l + 2, x4) y" "n4 \<le> n3"
      by (rule throughE)
    then show ?thesis
      using 2 3(3) z(3) by (intro throughI [of x x4]) (auto intro: converse_rtrancl_into_rtrancl)
  qed
qed

lemma plus_sound:
  assumes split: "code ! (s + l) = mkInst OP_SPLIT 0 s (s + l + 1)"
    and body: "\<And>n x. csteps r code n (s, x) y \<Longrightarrow> through r code (s + l) R n x y"
    and out: "fst y \<noteq> s + l"
  shows "csteps r code n (s, x) y \<Longrightarrow> through r code (s + l + 1) (R\<^sup>+) n x y"
proof (induction n arbitrary: x rule: less_induct)
  case (less n)
  obtain x2 n2 where 2: "(x, x2) \<in> R" "csteps r code n2 (s + l, x2) y" "n2 \<le> n"
    using body less.prems throughE by blast
  obtain z n3 where 3: "cstep r code (s + l, x2) z" "csteps r code n3 z y" "n2 = Suc n3"
    using csteps_leave [OF 2(2) out] by blast
  show ?case
  proof (cases "z = (s + l + 1, x2)")
    case True
    then show ?thesis using 2 3 by (intro throughI [where n' = n3 and x' = x2]) auto
  next
    case False
    then have "z = (s, x2)" using step_split [OF split 3(1)] by blast
    then have "through r code (s + l + 1) (R\<^sup>+) n3 x2 y" using less.IH 2(3) 3(2,3) by simp
    then obtain x4 n4 where "(x2, x4) \<in> R\<^sup>+" "csteps r code n4 (s + l + 1, x4) y" "n4 \<le> n3"
      by (rule throughE)
    then show ?thesis
      using 2 3(3)
      by (intro throughI [where n' = n4 and x' = x4]) (auto intro: trancl_into_trancl2)
  qed
qed

lemma step_read:
  assumes "code ! s = mkInst op b k 0" and "op \<in> {OP_CHAR, OP_ANY, OP_CLASS, OP_BOL, OP_EOL}"
    and "cstep r code (s, x) z"
  shows "fst z = s + 1" and "snd (snd z) = snd x"
    and "op = OP_CHAR \<Longrightarrow> (fst x, fst (snd z)) \<in> rxrel r (RChar b)"
    and "op = OP_ANY \<Longrightarrow> (fst x, fst (snd z)) \<in> rxrel r RAny"
    and "op = OP_CLASS \<Longrightarrow> (fst x, fst (snd z)) \<in> rxrel r (RClass k)"
    and "op = OP_BOL \<Longrightarrow> (fst x, fst (snd z)) \<in> rxrel r RBol"
    and "op = OP_EOL \<Longrightarrow> (fst x, fst (snd z)) \<in> rxrel r REol"
  using assms
  by (cases x; auto simp: cstep_iff mkInst_def epsNext_def saveAt_def accepts_def instMatches_def
      anyAt_def split: if_splits)+

lemma read_sound:
  assumes code: "codeAt code s [mkInst op b k 0]" and "csteps r code n (s, x) y" and "fst y \<noteq> s"
    and "(op, t) \<in> {(OP_CHAR, RChar b), (OP_ANY, RAny), (OP_CLASS, RClass k), (OP_BOL, RBol),
      (OP_EOL, REol)}"
  shows "through r code (s + 1) (crel r t) n x y"
proof (rule leaf_sound [OF conjunct1 [OF codeAt_Cons [OF code]] assms(2,3)])
  fix z assume z: "cstep r code (s, x) z"
  have op: "op \<in> {OP_CHAR, OP_ANY, OP_CLASS, OP_BOL, OP_EOL}" using assms(4) by auto
  note step = step_read [OF conjunct1 [OF codeAt_Cons [OF code]] op z]
  show "fst z = s + 1 \<and> (x, snd z) \<in> crel r t"
    using assms(4) step by (auto simp: lifted_def)
qed

lemma code_sound:
  "norepeat t \<Longrightarrow> codeAt code s (ccode t s) \<Longrightarrow> csteps r code n (s, x) y \<Longrightarrow>
   fst y \<notin> {s..<s + clen t} \<Longrightarrow> through r code (s + clen t) (crel r t) n x y"
proof (induction t arbitrary: s x n)
  case REmpty
  then show ?case by (intro throughI [where n' = n and x' = x]) auto
next
  case (RChar b)
  then show ?case
    using read_sound [where op = OP_CHAR and b = b and k = 0 and t = "RChar b"
        and code = code and s = s and n = n and r = r and x = x and y = y]
    by (simp add: codeAt_Cons)
next
  case RAny
  then show ?case
    using read_sound [where op = OP_ANY and b = 0 and k = 0 and t = RAny
        and code = code and s = s and n = n and r = r and x = x and y = y]
    by (simp add: codeAt_Cons)
next
  case (RClass k)
  then show ?case
    using read_sound [where op = OP_CLASS and b = 0 and k = k and t = "RClass k"
        and code = code and s = s and n = n and r = r and x = x and y = y]
    by (simp add: codeAt_Cons)
next
  case RBol
  then show ?case
    using read_sound [where op = OP_BOL and b = 0 and k = 0 and t = RBol
        and code = code and s = s and n = n and r = r and x = x and y = y]
    by (simp add: codeAt_Cons)
next
  case REol
  then show ?case
    using read_sound [where op = OP_EOL and b = 0 and k = 0 and t = REol
        and code = code and s = s and n = n and r = r and x = x and y = y]
    by (simp add: codeAt_Cons)
next
  case (RCat a b)
  have code: "codeAt code s (ccode a s)" "codeAt code (s + clen a) (ccode b (s + clen a))"
    using RCat.prems(2) codeAt_append by fastforce+
  have a: "through r code (s + clen a) (crel r a) n x y"
    using RCat.IH(1) [OF _ code(1) RCat.prems(3)] RCat.prems(1,4) by auto
  have "through r code (s + clen a + clen b) (crel r a O crel r b) n x y"
    by (rule through_comp [OF a], rule RCat.IH(2) [OF _ code(2)]) (use RCat.prems in auto)
  then show ?case by (simp add: add.assoc)
next
  case (RAlt a b)
  let ?m = "s + 1 + clen a"
  let ?C = "codeAt code"
  have "?C s ([mkInst OP_SPLIT 0 (s + 1) (s + clen a + 2)] @ ccode a (s + 1) @
     [mkInst OP_JUMP 0 (s + clen a + clen b + 2) 0] @ ccode b (s + clen a + 2))"
    using RAlt.prems(2) by simp
  then have code: "code ! s = mkInst OP_SPLIT 0 (s + 1) (s + clen a + 2)"
      "?C (s + 1) (ccode a (s + 1))" "code ! ?m = mkInst OP_JUMP 0 (s + clen a + clen b + 2) 0"
      "?C (s + clen a + 2) (ccode b (s + clen a + 2))"
    by (auto dest!: codeAt_Cons codeAt_append)
  obtain z n1 where z: "cstep r code (s, x) z" "csteps r code n1 z y" "n = Suc n1"
    by (rule csteps_leave [OF RAlt.prems(3)]) (use RAlt.prems(4) in auto)
  show ?case
  proof (cases "z = (s + 1, x)")
    case True
    have "through r code ?m (crel r a) n1 x y"
      by (rule RAlt.IH(1) [OF _ code(2)]) (use RAlt.prems z True in auto)
    then obtain x2 n2 where 2: "(x, x2) \<in> crel r a" "csteps r code n2 (?m, x2) y" "n2 \<le> n1"
      by (rule throughE)
    obtain z3 n3 where 3: "cstep r code (?m, x2) z3" "csteps r code n3 z3 y" "n2 = Suc n3"
      by (rule csteps_leave [OF 2(2)]) (use RAlt.prems(4) in auto)
    show ?thesis
      using step_jump [OF code(3) 3(1)] 2 3 z(3)
      by (intro throughI [of x x2]) (auto simp: ac_simps)
  next
    case False
    then have "z = (s + clen a + 2, x)" using step_split [OF code(1) z(1)] by blast
    then have "through r code (s + clen a + 2 + clen b) (crel r b) n1 x y"
      using RAlt.prems z by (intro RAlt.IH(2) [OF _ code(4)]) auto
    then show ?thesis using z(3) by (auto simp: through_def ac_simps le_Suc_eq)
  qed
next
  case (RStar a)
  have "codeAt code s ([mkInst OP_SPLIT 0 (s + 1) (s + clen a + 2)] @ ccode a (s + 1) @
     [mkInst OP_JUMP 0 s 0])" using RStar.prems(2) by simp
  then have code: "code ! s = mkInst OP_SPLIT 0 (s + 1) (s + clen a + 2)"
      "codeAt code (s + 1) (ccode a (s + 1))" "code ! (s + clen a + 1) = mkInst OP_JUMP 0 s 0"
    by (auto dest!: codeAt_Cons codeAt_append)
  have "through r code (s + clen a + 1) (crel r a) m x' y"
    if "csteps r code m (s + 1, x') y" for m x'
    using RStar.IH [OF _ code(2) that] RStar.prems(1,4) by (auto simp: ac_simps)
  then show ?case
    using star_sound [OF code(1,3), of r y "crel r a" n x] RStar.prems(3,4)
    by (auto simp: ac_simps)
next
  case (RPlus a)
  have "codeAt code s (ccode a s @ [mkInst OP_SPLIT 0 s (s + clen a + 1)])"
    using RPlus.prems(2) by simp
  then have code: "code ! (s + clen a) = mkInst OP_SPLIT 0 s (s + clen a + 1)"
      "codeAt code s (ccode a s)"
    by (auto dest!: codeAt_Cons codeAt_append)
  have "through r code (s + clen a) (crel r a) m x' y"
    if "csteps r code m (s, x') y" for m x'
    using RPlus.IH [OF _ code(2) that] RPlus.prems(1,4) by auto
  then show ?case
    using plus_sound [OF code(1), of r y "crel r a" n x] RPlus.prems(3,4) by (auto simp: ac_simps)
next
  case (RQuest a)
  have "codeAt code s ([mkInst OP_SPLIT 0 (s + 1) (s + clen a + 1)] @ ccode a (s + 1))"
    using RQuest.prems(2) by simp
  then have code: "code ! s = mkInst OP_SPLIT 0 (s + 1) (s + clen a + 1)"
      "codeAt code (s + 1) (ccode a (s + 1))"
    by (auto dest!: codeAt_Cons codeAt_append)
  obtain z n1 where z: "cstep r code (s, x) z" "csteps r code n1 z y" "n = Suc n1"
    by (rule csteps_leave [OF RQuest.prems(3)]) (use RQuest.prems(4) in auto)
  show ?case
  proof (cases "z = (s + clen a + 1, x)")
    case True
    then show ?thesis using z by (intro throughI [of x x]) (auto simp: ac_simps)
  next
    case False
    then have "z = (s + 1, x)" using step_split [OF code(1) z(1)] by blast
    then have "through r code (s + 1 + clen a) (crel r a) n1 x y"
      using RQuest.prems z by (intro RQuest.IH [OF _ code(2)]) auto
    then show ?thesis using z(3) by (auto simp: through_def ac_simps le_Suc_eq)
  qed
next
  case (RRepeat a lo hi)
  then show ?case by simp
next
  case (RGroup k a)
  show ?case
  proof (cases "k > 0")
    case False
    then show ?thesis using RGroup.IH [of s n x] RGroup.prems by auto
  next
    case True
    let ?m = "s + 1 + clen a"
    have "codeAt code s ([mkInst OP_SAVE 0 (k * 2) 0] @ ccode a (s + 1) @
        [mkInst OP_SAVE 0 (k * 2 + 1) 0])" using RGroup.prems(2) True by simp
    then have code: "code ! s = mkInst OP_SAVE 0 (k * 2) 0" "codeAt code (s + 1) (ccode a (s + 1))"
        "code ! ?m = mkInst OP_SAVE 0 (k * 2 + 1) 0"
      by (auto dest!: codeAt_Cons codeAt_append)
    have out: "fst y \<noteq> s" "fst y \<noteq> ?m" "fst y \<notin> {s + 1..<?m}" using RGroup.prems(4) True by auto
    have 1: "through r code (s + 1) (saves (k * 2)) n x y"
      by (rule leaf_sound [OF code(1) RGroup.prems(3) out(1)]) (rule step_save [OF code(1)])
    have 2: "through r code ?m (crel r a) n' x' y" if "csteps r code n' (s + 1, x') y" for n' x'
      using RGroup.IH [OF _ code(2) that] RGroup.prems(1) out by simp
    have 3: "through r code (?m + 1) (saves (k * 2 + 1)) n' x' y" if "csteps r code n' (?m, x') y"
      for n' x'
      by (rule leaf_sound [OF code(3) that out(2)]) (rule step_save [OF code(3)])
    have "through r code (?m + 1) (saves (k * 2) O crel r a O saves (k * 2 + 1)) n x y"
      by (rule through_comp [OF 1], rule through_comp [OF 2], assumption, rule 3)
    then show ?thesis using True by (simp add: ac_simps)
  qed
qed

section \<open>Every pair of the denotation is a run of the code\<close>

abbreviation creach :: "RunArgs \<Rightarrow> RegexInst list \<Rightarrow> config \<Rightarrow> config \<Rightarrow> bool" where
  "creach r code \<equiv> (cstep r code)\<^sup>*\<^sup>*"

lemma do_split:
  "code ! s = mkInst OP_SPLIT b p q \<Longrightarrow> s < length code \<Longrightarrow>
   creach r code (s, x) (p, x) \<and> creach r code (s, x) (q, x)"
  by (cases x)
    (auto intro!: r_into_rtranclp simp: cstep_iff mkInst_def epsNext_def saveAt_def)

lemma do_jump:
  "code ! s = mkInst OP_JUMP b p q \<Longrightarrow> s < length code \<Longrightarrow> creach r code (s, x) (p, x)"
  by (cases x)
    (auto intro!: r_into_rtranclp simp: cstep_iff mkInst_def epsNext_def saveAt_def)

lemma do_save:
  "code ! s = mkInst OP_SAVE b k q \<Longrightarrow> s < length code \<Longrightarrow> (x, y) \<in> saves k \<Longrightarrow>
   creach r code (s, x) (s + 1, y)"
  by (cases x; cases y)
    (auto intro!: r_into_rtranclp simp: cstep_iff mkInst_def epsNext_def saveAt_def saves_def)

lemma do_read:
  assumes "codeAt code s [mkInst op b k 0]" and "(x, y) \<in> crel r t"
    and "(op, t) \<in> {(OP_CHAR, RChar b), (OP_ANY, RAny), (OP_CLASS, RClass k), (OP_BOL, RBol),
      (OP_EOL, REol)}"
  shows "creach r code (s, x) (s + 1, y)"
proof -
  have "code ! s = mkInst op b k 0" "s < length code" using codeAt_Cons [OF assms(1)] by auto
  then have "cstep r code (s, x) (s + 1, y)"
    using assms(2,3) by (cases x; cases y)
      (auto simp: cstep_iff mkInst_def epsNext_def saveAt_def accepts_def instMatches_def anyAt_def
        lifted_def)
  then show ?thesis by blast
qed

lemma code_complete:
  "norepeat t \<Longrightarrow> codeAt code s (ccode t s) \<Longrightarrow> (x, y) \<in> crel r t \<Longrightarrow>
   creach r code (s, x) (s + clen t, y)"
proof (induction t arbitrary: s x y)
  case REmpty
  then show ?case by simp
next
  case (RChar b)
  then show ?case using do_read [where op = OP_CHAR and t = "RChar b" and k = 0] by simp
next
  case RAny
  then show ?case using do_read [where op = OP_ANY and t = RAny and k = 0 and b = 0] by simp
next
  case (RClass k)
  then show ?case using do_read [where op = OP_CLASS and t = "RClass k" and b = 0] by simp
next
  case RBol
  then show ?case using do_read [where op = OP_BOL and t = RBol and k = 0 and b = 0] by simp
next
  case REol
  then show ?case using do_read [where op = OP_EOL and t = REol and k = 0 and b = 0] by simp
next
  case (RCat a b)
  have code: "codeAt code s (ccode a s)" "codeAt code (s + clen a) (ccode b (s + clen a))"
    using RCat.prems(2) codeAt_append by fastforce+
  obtain z where "(x, z) \<in> crel r a" "(z, y) \<in> crel r b" using RCat.prems(3) by auto
  then have "creach r code (s, x) (s + clen a, z)" "creach r code (s + clen a, z) (s + clen a + clen b, y)"
    using RCat.IH code RCat.prems(1) by auto
  then show ?case by (simp add: add.assoc)
next
  case (RAlt a b)
  have "codeAt code s ([mkInst OP_SPLIT 0 (s + 1) (s + clen a + 2)] @ ccode a (s + 1) @
     [mkInst OP_JUMP 0 (s + clen a + clen b + 2) 0] @ ccode b (s + clen a + 2))"
    using RAlt.prems(2) by simp
  then have code: "code ! s = mkInst OP_SPLIT 0 (s + 1) (s + clen a + 2)" "s < length code"
      "codeAt code (s + 1) (ccode a (s + 1))"
      "code ! (s + 1 + clen a) = mkInst OP_JUMP 0 (s + clen a + clen b + 2) 0"
      "s + 1 + clen a < length code"
      "codeAt code (s + clen a + 2) (ccode b (s + clen a + 2))"
    by (auto dest!: codeAt_Cons codeAt_append)
  note split = do_split [OF code(1,2), of r x]
  show ?case
  proof (cases "(x, y) \<in> crel r a")
    case True
    have "creach r code (s + 1, x) (s + 1 + clen a, y)"
      using RAlt.IH(1) [OF _ code(3) True] RAlt.prems(1) by simp
    moreover have "creach r code (s + 1 + clen a, y) (s + clen (RAlt a b), y)"
      using do_jump [OF code(4,5), of r y] by (simp add: ac_simps)
    ultimately show ?thesis using split by (meson rtranclp_trans)
  next
    case False
    then have "(x, y) \<in> crel r b" using RAlt.prems(3) by simp
    then have "creach r code (s + clen a + 2, x) (s + clen a + 2 + clen b, y)"
      using RAlt.IH(2) [OF _ code(6)] RAlt.prems(1) by simp
    then have "creach r code (s, x) (s + clen a + 2 + clen b, y)"
      using split by (meson rtranclp_trans)
    then show ?thesis by (simp add: ac_simps)
  qed
next
  case (RStar a)
  have "codeAt code s ([mkInst OP_SPLIT 0 (s + 1) (s + clen a + 2)] @ ccode a (s + 1) @
     [mkInst OP_JUMP 0 s 0])" using RStar.prems(2) by simp
  then have code: "code ! s = mkInst OP_SPLIT 0 (s + 1) (s + clen a + 2)" "s < length code"
      "codeAt code (s + 1) (ccode a (s + 1))" "code ! (s + 1 + clen a) = mkInst OP_JUMP 0 s 0"
      "s + 1 + clen a < length code"
    by (auto dest!: codeAt_Cons codeAt_append)
  have "creach r code (s, x) (s, y)"
    using RStar.prems(3) unfolding crel.simps
  proof (induction rule: rtrancl_induct)
    case (step y z)
    have "creach r code (s + 1, y) (s + 1 + clen a, z)"
      using RStar.IH [OF _ code(3) step(2)] RStar.prems(1) by simp
    then show ?case
      using step.IH do_split [OF code(1,2), of r y] do_jump [OF code(4,5), of r z]
      by (meson rtranclp_trans)
  qed simp
  moreover have "creach r code (s, y) (s + clen (RStar a), y)"
    using do_split [OF code(1,2), of r y] by simp
  ultimately show ?case by (meson rtranclp_trans)
next
  case (RPlus a)
  have "codeAt code s (ccode a s @ [mkInst OP_SPLIT 0 s (s + clen a + 1)])"
    using RPlus.prems(2) by simp
  then have code: "code ! (s + clen a) = mkInst OP_SPLIT 0 s (s + clen a + 1)"
      "s + clen a < length code" "codeAt code s (ccode a s)"
    by (auto dest!: codeAt_Cons codeAt_append)
  have body: "creach r code (s, u) (s + clen a, v)" if "(u, v) \<in> crel r a" for u v
    using RPlus.IH [OF _ code(3) that] RPlus.prems(1) by simp
  have "creach r code (s, x) (s + clen a, y)"
    using RPlus.prems(3) unfolding crel.simps
  proof (induction rule: trancl_induct)
    case (step y z)
    then show ?case
      using do_split [OF code(1,2), of r y] body by (meson rtranclp_trans)
  qed (rule body)
  then show ?case using do_split [OF code(1,2), of r y] by (simp, meson rtranclp_trans)
next
  case (RQuest a)
  have "codeAt code s ([mkInst OP_SPLIT 0 (s + 1) (s + clen a + 1)] @ ccode a (s + 1))"
    using RQuest.prems(2) by simp
  then have code: "code ! s = mkInst OP_SPLIT 0 (s + 1) (s + clen a + 1)" "s < length code"
      "codeAt code (s + 1) (ccode a (s + 1))"
    by (auto dest!: codeAt_Cons codeAt_append)
  note split = do_split [OF code(1,2), of r x]
  show ?case
  proof (cases "x = y")
    case True
    then show ?thesis using split by simp
  next
    case False
    then have "creach r code (s + 1, x) (s + 1 + clen a, y)"
      using RQuest.IH [OF _ code(3)] RQuest.prems by auto
    then have "creach r code (s, x) (s + 1 + clen a, y)" using split by (meson rtranclp_trans)
    then show ?thesis by simp
  qed
next
  case (RRepeat a lo hi)
  then show ?case by simp
next
  case (RGroup k a)
  show ?case
  proof (cases "k > 0")
    case False
    then show ?thesis using RGroup by simp
  next
    case True
    have "codeAt code s ([mkInst OP_SAVE 0 (k * 2) 0] @ ccode a (s + 1) @
        [mkInst OP_SAVE 0 (k * 2 + 1) 0])" using RGroup.prems(2) True by simp
    then have code: "code ! s = mkInst OP_SAVE 0 (k * 2) 0" "s < length code"
        "codeAt code (s + 1) (ccode a (s + 1))"
        "code ! (s + 1 + clen a) = mkInst OP_SAVE 0 (k * 2 + 1) 0" "s + 1 + clen a < length code"
      by (auto dest!: codeAt_Cons codeAt_append)
    obtain u v where uv: "(x, u) \<in> saves (k * 2)" "(u, v) \<in> crel r a" "(v, y) \<in> saves (k * 2 + 1)"
      using RGroup.prems(3) True by auto
    have "creach r code (s + 1, u) (s + 1 + clen a, v)"
      using RGroup.IH [OF _ code(3) uv(2)] RGroup.prems(1) by simp
    then have "creach r code (s, x) (s + 1 + clen a + 1, y)"
      using do_save [OF code(1,2) uv(1), of r] do_save [OF code(4,5) uv(3), of r]
      by (meson rtranclp_trans)
    then show ?thesis using True by simp
  qed
qed

section \<open>The whole program\<close>

definition matchPc :: "rx \<Rightarrow> nat" where
  "matchPc t = clen (core t) + 2"

lemma length_programCode [simp]: "length (programCode t) = clen (core t) + 3"
  by (simp add: programCode_def)

lemma programCode_nth:
  "programCode t ! 0 = mkInst OP_SAVE 0 0 0"
  "codeAt (programCode t) 1 (ccode (core t) 1)"
  "programCode t ! (1 + clen (core t)) = mkInst OP_SAVE 0 1 0"
  "programCode t ! matchPc t = mkInst OP_MATCH 0 0 0"
proof -
  have all: "codeAt (programCode t) 0 ([mkInst OP_SAVE 0 0 0] @ ccode (core t) 1 @
     [mkInst OP_SAVE 0 1 0, mkInst OP_MATCH 0 0 0])"
    unfolding codeAt_def programCode_def by force
  from codeAt_append [OF all] show "programCode t ! 0 = mkInst OP_SAVE 0 0 0"
    by (auto dest: codeAt_Cons)
  from codeAt_append [OF all] have 1: "codeAt (programCode t) 1 (ccode (core t) 1 @
     [mkInst OP_SAVE 0 1 0, mkInst OP_MATCH 0 0 0])" by simp
  from codeAt_append [OF 1] show "codeAt (programCode t) 1 (ccode (core t) 1)" ..
  from codeAt_append [OF 1] have 2: "codeAt (programCode t) (1 + clen (core t))
      [mkInst OP_SAVE 0 1 0, mkInst OP_MATCH 0 0 0]" by simp
  from codeAt_Cons [OF 2] show "programCode t ! (1 + clen (core t)) = mkInst OP_SAVE 0 1 0" by simp
  from codeAt_Cons [OF 2] codeAt_Cons show "programCode t ! matchPc t = mkInst OP_MATCH 0 0 0"
    by (fastforce simp: matchPc_def)
qed

text \<open>The program reaches \<open>MATCH\<close> exactly along the matches of the pattern.\<close>

definition wholeRel :: "RunArgs \<Rightarrow> rx \<Rightarrow> ((nat \<times> nat list) \<times> (nat \<times> nat list)) set" where
  "wholeRel r t = saves 0 O crel r t O saves 1"

lemma program_reach:
  assumes "rxWf c g t"
  shows "creach r (programCode t) (0, x) (matchPc t, y) \<longleftrightarrow> (x, y) \<in> wholeRel r t"
proof
  let ?code = "programCode t"
  note at = programCode_nth [of t]
  assume "creach r ?code (0, x) (matchPc t, y)"
  then obtain n where n: "csteps r ?code n (0, x) (matchPc t, y)" by (auto simp: rtranclp_power)
  have 1: "through r ?code (0 + 1) (saves 0) n x (matchPc t, y)"
    by (rule leaf_sound [OF at(1) n]) (auto simp: matchPc_def dest: step_save [OF at(1)])
  have 2: "through r ?code (1 + clen (core t)) (crel r (core t)) n' x' (matchPc t, y)"
    if "csteps r ?code n' (0 + 1, x') (matchPc t, y)" for n' x'
    by (rule code_sound [OF norepeat_core at(2)]) (use that in \<open>auto simp: matchPc_def\<close>)
  have 3: "through r ?code (1 + clen (core t) + 1) (saves 1) n' x' (matchPc t, y)"
    if "csteps r ?code n' (1 + clen (core t), x') (matchPc t, y)" for n' x'
    by (rule leaf_sound [OF at(3) that _ step_save [OF at(3)]]) (simp_all add: matchPc_def)
  have "through r ?code (1 + clen (core t) + 1) (saves 0 O crel r (core t) O saves 1) n x (matchPc t, y)"
    by (rule through_comp [OF 1], rule through_comp [OF 2], assumption, rule 3)
  then obtain x' n' where *: "(x, x') \<in> saves 0 O crel r (core t) O saves 1"
      "csteps r ?code n' (1 + clen (core t) + 1, x') (matchPc t, y)"
    by (rule throughE)
  have stuck: "\<not> cstep r ?code (matchPc t, x') z" for z
    by (cases x') (simp add: cstep_iff at(4) mkInst_def epsNext_def accepts_def instMatches_def)
  have "x' = y"
  proof (rule ccontr)
    assume "x' \<noteq> y"
    then obtain n2 where "n' = Suc n2" using *(2) by (cases n') (auto simp: matchPc_def)
    then obtain z where "cstep r ?code (matchPc t, x') z"
      using *(2) relpowp_Suc_D2 [of n2 "cstep r ?code" "(matchPc t, x')" "(matchPc t, y)"]
      by (auto simp: matchPc_def)
    then show False using stuck by blast
  qed
  then show "(x, y) \<in> wholeRel r t"
    using *(1) crel_core [OF assms, of r] by (simp add: wholeRel_def)
next
  let ?code = "programCode t"
  note at = programCode_nth [of t]
  assume "(x, y) \<in> wholeRel r t"
  then obtain u v where uv: "(x, u) \<in> saves 0" "(u, v) \<in> crel r (core t)" "(v, y) \<in> saves 1"
    using crel_core [OF assms, of r] by (auto simp: wholeRel_def)
  have "creach r ?code (0, x) (0 + 1, u)" by (rule do_save [OF at(1) _ uv(1)]) simp
  moreover have "creach r ?code (1, u) (1 + clen (core t), v)"
    by (rule code_complete [OF norepeat_core at(2) uv(2)])
  moreover have "creach r ?code (1 + clen (core t), v) (1 + clen (core t) + 1, y)"
    by (rule do_save [OF at(3) _ uv(3)]) simp
  ultimately show "creach r ?code (0, x) (matchPc t, y)"
    by (simp add: matchPc_def)
qed

end
