(* ===== verification/Regex_VmProof.thy ===== *)
theory Regex_VmProof
  imports Regex_Nfa
begin

text \<open>
  The simulator against the automaton.  The closure, with its work stack and its restore
  markers, adds the threads reachable without reading, each with the captures of a path to
  it; a pass over the threads moves every thread that reads the byte; the run is right about
  whether there is a match, returns the captures of a real run, and of all starting positions
  reports the leftmost.
\<close>

section \<open>Threads as the code lays them out\<close>

definition threadOp :: "RegexOp \<Rightarrow> bool" where
  "threadOp op \<longleftrightarrow> op \<in> {OP_CHAR, OP_ANY, OP_CLASS, OP_MATCH}"

definition threads :: "RegexVm \<times> RegexList \<Rightarrow> (nat \<times> nat list) list" where
  "threads s = zip (ls_pc (snd s)) (map (\<lambda>k. vm_caps (fst s) ! k) (ls_cap (snd s)))"

text \<open>
  A list owns the rows from its base, one per thread in order; its threads are exactly the
  marked positions that consume.
\<close>

definition listOk :: "RegexInst list \<Rightarrow> RegexVm \<times> RegexList \<Rightarrow> bool" where
  "listOk code s \<longleftrightarrow>
     pr_insts (vm_program (fst s)) = code \<and> vm_capRowCount (fst s) = length code \<and>
     length (vm_caps (fst s)) = 2 * length code \<and>
     ls_capBase (snd s) \<in> {0, length code} \<and>
     ls_cap (snd s) = map (\<lambda>i. ls_capBase (snd s) + i) [0..<length (ls_pc (snd s))] \<and>
     distinct (ls_pc (snd s)) \<and>
     set (ls_pc (snd s)) = {p. p < length code \<and> ls_seen (snd s) p \<and> threadOp (in_op (code ! p))}"

lemma listOkD:
  assumes "listOk code (vm, list)"
  shows "pr_insts (vm_program vm) = code" and "vm_capRowCount vm = length code"
    and "length (vm_caps vm) = 2 * length code"
    and "ls_capBase list = 0 \<or> ls_capBase list = length code"
    and "ls_cap list = map (\<lambda>i. ls_capBase list + i) [0..<length (ls_pc list)]"
    and "distinct (ls_pc list)"
    and "set (ls_pc list) = {p. p < length code \<and> ls_seen list p \<and> threadOp (in_op (code ! p))}"
  using assms unfolding listOk_def by simp_all

text \<open>What an operation on one list leaves alone: everything but its rows and the scratch row.\<close>

definition kept :: "RegexVm \<times> RegexList \<Rightarrow> RegexVm \<times> RegexList \<Rightarrow> bool" where
  "kept s s' \<longleftrightarrow>
     vm_program (fst s') = vm_program (fst s) \<and> vm_seed (fst s') = vm_seed (fst s) \<and>
     vm_capStride (fst s') = vm_capStride (fst s) \<and>
     vm_capRowCount (fst s') = vm_capRowCount (fst s) \<and>
     length (vm_caps (fst s')) = length (vm_caps (fst s)) \<and>
     ls_capBase (snd s') = ls_capBase (snd s) \<and>
     (\<forall>k. k < ls_capBase (snd s) \<or> ls_capBase (snd s) + vm_capRowCount (fst s) \<le> k \<longrightarrow>
        vm_caps (fst s') ! k = vm_caps (fst s) ! k)"

lemma kept_refl [simp]: "kept s s"
  by (simp add: kept_def)

lemma kept_trans:
  assumes "kept s s'" and "kept s' s''"
  shows "kept s s''"
proof -
  have same: "vm_program (fst s') = vm_program (fst s)" "vm_seed (fst s') = vm_seed (fst s)"
    "vm_capStride (fst s') = vm_capStride (fst s)"
    "vm_capRowCount (fst s') = vm_capRowCount (fst s)"
    "length (vm_caps (fst s')) = length (vm_caps (fst s))"
    "ls_capBase (snd s') = ls_capBase (snd s)"
    using assms(1) by (simp_all add: kept_def)
  have "vm_caps (fst s'') ! k = vm_caps (fst s) ! k"
    if "k < ls_capBase (snd s) \<or> ls_capBase (snd s) + vm_capRowCount (fst s) \<le> k" for k
    using assms that unfolding kept_def same by (metis (no_types))
  then show ?thesis using assms(2) unfolding kept_def same by blast
qed

lemma listOk_room:
  assumes "listOk code s" and "pc < length code" and "\<not> ls_seen (snd s) pc"
  shows "length (ls_pc (snd s)) < length code"
proof -
  have "set (ls_pc (snd s)) \<subseteq> {..<length code} - {pc}"
    using assms by (auto simp: listOk_def)
  then have "card (set (ls_pc (snd s))) \<le> card ({..<length code} - {pc})"
    by (intro card_mono) auto
  moreover have "distinct (ls_pc (snd s))" using assms(1) by (simp add: listOk_def)
  moreover have "card ({..<length code} - {pc}) < length code" using assms(2) by simp
  ultimately show ?thesis by (simp add: distinct_card)
qed

definition marked :: "nat \<Rightarrow> RegexList \<Rightarrow> RegexList" where
  "marked pc list = list\<lparr>ls_seen := (ls_seen list)(pc := True)\<rparr>"

lemma marked_simps [simp]:
  "ls_seen (marked pc list) p \<longleftrightarrow> p = pc \<or> ls_seen list p"
  "ls_pc (marked pc list) = ls_pc list" "ls_cap (marked pc list) = ls_cap list"
  "ls_capBase (marked pc list) = ls_capBase list"
  by (simp_all add: marked_def)

text \<open>The guard of \<open>pushThread\<close> never fires: a list holds each position at most once.\<close>

lemma pushThread_marked:
  assumes s: "listOk code (vm, list)" and pc: "pc < length code" "\<not> ls_seen list pc"
    and op: "threadOp (in_op (code ! pc))"
  defines "s' \<equiv> pushThread vm (marked pc list) pc"
  shows "listOk code s'" and "threads s' = threads (vm, list) @ [(pc, vm_work vm)]"
    and "kept (vm, list) s'" and "vm_work (fst s') = vm_work vm" and "vm_best (fst s') = vm_best vm"
proof -
  let ?i = "length (ls_pc list)"
  have room: "?i < length code" using listOk_room [OF s pc(1)] pc(2) by simp
  note ok = listOkD [OF s]
  have n: "vm_capRowCount vm = length code" "RegexProgram_count (vm_program vm) = length code"
    using ok(1,2) by (simp_all add: RegexProgram_count_def)
  have base: "ls_capBase list + ?i < length (vm_caps vm)" using ok(3,4) room by linarith
  have s': "s' = (vm\<lparr>vm_caps := (vm_caps vm)[ls_capBase list + ?i := vm_work vm]\<rparr>,
      (marked pc list)\<lparr>ls_pc := ls_pc list @ [pc], ls_cap := ls_cap list @ [ls_capBase list + ?i]\<rparr>)"
    using room n pc by (simp add: s'_def pushThread_def Let_def)
  have fresh: "pc \<notin> set (ls_pc list)" using ok(7) pc(2) by simp
  have set': "set (ls_pc list @ [pc]) =
      {p. p < length code \<and> (p = pc \<or> ls_seen list p) \<and> threadOp (in_op (code ! p))}"
    using ok(7) pc(1) op by auto
  show "listOk code s'"
    unfolding s' listOk_def fst_conv snd_conv
    using ok(1-4,6) fresh set' by (simp add: ok(5) del: set_append)
  have "ls_cap list = map (\<lambda>i. ls_capBase list + i) [0..<?i]" by (rule ok(5))
  then have old: "map ((!) ((vm_caps vm)[ls_capBase list + ?i := vm_work vm])) (ls_cap list) =
      map ((!) (vm_caps vm)) (ls_cap list)" and len: "length (ls_cap list) = ?i"
    by simp_all
  show "threads s' = threads (vm, list) @ [(pc, vm_work vm)]"
    unfolding s' threads_def using old len base by (simp del: map_eq_conv)
  show "kept (vm, list) s'" using s' n room by (auto simp: kept_def)
  show "vm_work (fst s') = vm_work vm" "vm_best (fst s') = vm_best vm" using s' by auto
qed

section \<open>One step of the closure\<close>

abbreviation stepR ::
    "RunArgs \<Rightarrow> nat \<Rightarrow> RegexTask \<Rightarrow> RegexTask list \<Rightarrow> RegexVm \<times> RegexList \<Rightarrow>
     (RegexVm \<times> RegexList) \<times> RegexTask list" where
  "stepR r pos \<equiv> closureStep (ra_subject r) (op_multiline (ra_options r)) pos"

abbreviation closureR ::
    "RunArgs \<Rightarrow> nat \<Rightarrow> RegexTask list \<Rightarrow> RegexVm \<times> RegexList \<Rightarrow> RegexVm \<times> RegexList" where
  "closureR r pos \<equiv> closure (ra_subject r) (op_multiline (ra_options r)) pos"

definition undo :: "RegexInst \<Rightarrow> nat list \<Rightarrow> RegexTask list" where
  "undo inst w = (if in_op inst = OP_SAVE then [taskRestore (in_a inst) (w ! in_a inst)] else [])"

lemma step_restore:
  "tk_restore task \<Longrightarrow> stepR r pos task stack (vm, list) =
     ((vm\<lparr>vm_work := (vm_work vm)[tk_slot task := tk_value task]\<rparr>, list), stack)"
  by (simp add: closureStep_def)

lemma step_seen:
  "\<not> tk_restore task \<Longrightarrow> ls_seen list (tk_pc task) \<Longrightarrow>
   stepR r pos task stack (vm, list) = ((vm, list), stack)"
  by (simp add: closureStep_def)

lemma step_outside:
  "\<not> tk_restore task \<Longrightarrow> \<not> ls_seen list (tk_pc task) \<Longrightarrow>
   tk_pc task \<ge> length (pr_insts (vm_program vm)) \<Longrightarrow>
   stepR r pos task stack (vm, list) = ((vm, marked (tk_pc task) list), stack)"
  by (simp add: closureStep_def marked_def RegexProgram_at_def RegexProgram_count_def)

lemma step_thread:
  "\<not> tk_restore task \<Longrightarrow> \<not> ls_seen list (tk_pc task) \<Longrightarrow>
   tk_pc task < length (pr_insts (vm_program vm)) \<Longrightarrow>
   threadOp (in_op (pr_insts (vm_program vm) ! tk_pc task)) \<Longrightarrow>
   stepR r pos task stack (vm, list) = (pushThread vm (marked (tk_pc task) list) (tk_pc task), stack)"
  by (auto simp: closureStep_def marked_def RegexProgram_at_def RegexProgram_count_def threadOp_def
      Let_def)

lemma step_eps:
  "\<not> tk_restore task \<Longrightarrow> \<not> ls_seen list (tk_pc task) \<Longrightarrow>
   tk_pc task < length (pr_insts (vm_program vm)) \<Longrightarrow>
   inst = pr_insts (vm_program vm) ! tk_pc task \<Longrightarrow> \<not> threadOp (in_op inst) \<Longrightarrow>
   stepR r pos task stack (vm, list) =
     ((vm\<lparr>vm_work := saveAt inst pos (vm_work vm)\<rparr>, marked (tk_pc task) list),
      map taskPc (epsNext r pos (tk_pc task) inst) @ undo inst (vm_work vm) @ stack)"
  by (cases "in_op inst")
    (auto simp: closureStep_def marked_def RegexProgram_at_def RegexProgram_count_def threadOp_def
      Let_def epsNext_def saveAt_def undo_def bolAt_def eolAt_def)

lemma listOk_marked_eps:
  "listOk code (vm, list) \<Longrightarrow> pc < length code \<longrightarrow> \<not> threadOp (in_op (code ! pc)) \<Longrightarrow>
   listOk code (vm\<lparr>vm_work := w\<rparr>, marked pc list)"
proof -
  assume "listOk code (vm, list)" "pc < length code \<longrightarrow> \<not> threadOp (in_op (code ! pc))"
  moreover from this have "{p. p < length code \<and> ls_seen (marked pc list) p \<and> threadOp (in_op (code ! p))} =
      {p. p < length code \<and> ls_seen list p \<and> threadOp (in_op (code ! p))}"
    by auto
  ultimately show ?thesis unfolding listOk_def by simp
qed

lemma listOk_work: "listOk code (vm\<lparr>vm_work := w\<rparr>, list) = listOk code (vm, list)"
  by (simp add: listOk_def)

lemma threads_work [simp]: "threads (vm\<lparr>vm_work := w\<rparr>, list) = threads (vm, list)"
  "threads (vm, marked pc list) = threads (vm, list)"
  by (simp_all add: threads_def marked_def)

lemma kept_work: "kept (vm, list) (vm\<lparr>vm_work := w\<rparr>, list)"
  "kept (vm, list) (vm\<lparr>vm_work := w\<rparr>, marked pc list)" "kept (vm, list) (vm, marked pc list)"
  by (simp_all add: kept_def marked_def)

section \<open>The closure\<close>

text \<open>
  Unwinding the stack from the current scratch row gives every pending position the captures
  it will be visited with: that is what the restore markers are for.
\<close>

fun stackOk :: "(nat \<Rightarrow> nat list \<Rightarrow> bool) \<Rightarrow> nat list \<Rightarrow> RegexTask list \<Rightarrow> bool" where
  "stackOk Q w [] = True"
| "stackOk Q w (task # stack) =
     (if tk_restore task then stackOk Q (w[tk_slot task := tk_value task]) stack
      else Q (tk_pc task) w \<and> stackOk Q w stack)"

definition epsClosed :: "RunArgs \<Rightarrow> RegexInst list \<Rightarrow> nat \<Rightarrow> (nat \<Rightarrow> nat list \<Rightarrow> bool) \<Rightarrow> bool" where
  "epsClosed r code pos Q \<longleftrightarrow>
     (\<forall>p c q. p < length code \<longrightarrow> Q p c \<longrightarrow> q \<in> set (epsNext r pos p (code ! p)) \<longrightarrow>
        Q q (saveAt (code ! p) pos c))"

lemma stackOk_undo: "stackOk Q (saveAt inst pos w) (undo inst w @ stack) = stackOk Q w stack"
  by (simp add: undo_def saveAt_def taskRestore_def)

lemma stackOk_pcs: "stackOk Q w (map taskPc qs @ stack) \<longleftrightarrow> (\<forall>q\<in>set qs. Q q w) \<and> stackOk Q w stack"
  by (induction qs) (auto simp: taskPc_def)

text \<open>The positions still to visit, and the marks closed up to them.\<close>

definition pending :: "RegexTask list \<Rightarrow> nat set" where
  "pending stack = tk_pc ` {task \<in> set stack. \<not> tk_restore task}"

definition closedUpTo :: "RunArgs \<Rightarrow> RegexInst list \<Rightarrow> nat \<Rightarrow> nat set \<Rightarrow> RegexList \<Rightarrow> bool" where
  "closedUpTo r code pos W list \<longleftrightarrow>
     (\<forall>p<length code. ls_seen list p \<longrightarrow>
        (\<forall>q\<in>set (epsNext r pos p (code ! p)). ls_seen list q \<or> q \<in> W))"

lemma pending_simps [simp]:
  "pending [] = {}"
  "pending (task # stack) = (if tk_restore task then {} else {tk_pc task}) \<union> pending stack"
  "pending (xs @ stack) = pending xs \<union> pending stack"
  "pending (map taskPc qs) = set qs"
  "pending (undo inst w) = {}"
  by (force simp: pending_def taskPc_def undo_def taskRestore_def image_iff)+

lemma epsNext_thread: "threadOp (in_op inst) \<Longrightarrow> epsNext r pos p inst = []"
  by (auto simp: threadOp_def epsNext_def)

text \<open>What one call of the closure gives.\<close>

definition closes ::
    "RunArgs \<Rightarrow> RegexInst list \<Rightarrow> nat \<Rightarrow> (nat \<Rightarrow> nat list \<Rightarrow> bool) \<Rightarrow> nat set \<Rightarrow>
     RegexVm \<times> RegexList \<Rightarrow> RegexVm \<times> RegexList \<Rightarrow> bool" where
  "closes r code pos Q W s s' \<longleftrightarrow>
     listOk code s' \<and> kept s s' \<and> vm_best (fst s') = vm_best (fst s) \<and>
     (\<exists>new. threads s' = threads s @ new \<and> (\<forall>(p, c)\<in>set new. Q p c)) \<and>
     closedUpTo r code pos {} (snd s') \<and>
     (\<forall>p. ls_seen (snd s) p \<or> p \<in> W \<longrightarrow> ls_seen (snd s') p)"

lemma closes_next:
  assumes "closes r code pos Q W' s1 s'" and "kept s s1" and "vm_best (fst s1) = vm_best (fst s)"
    and "threads s1 = threads s @ new" and "\<forall>(p, c)\<in>set new. Q p c"
    and "\<And>p. ls_seen (snd s) p \<or> p \<in> W \<Longrightarrow> ls_seen (snd s1) p \<or> p \<in> W'"
  shows "closes r code pos Q W s s'"
  using assms kept_trans [of s s1 s'] unfolding closes_def
  by (auto intro!: exI [of _ "new @ _"])

text \<open>One round keeps what the loop maintains; \<open>W\<close> is what was pending before it.\<close>

definition rounds ::
    "RunArgs \<Rightarrow> RegexInst list \<Rightarrow> nat \<Rightarrow> (nat \<Rightarrow> nat list \<Rightarrow> bool) \<Rightarrow> nat set \<Rightarrow>
     RegexVm \<times> RegexList \<Rightarrow> (RegexVm \<times> RegexList) \<times> RegexTask list \<Rightarrow> bool" where
  "rounds r code pos Q W s out \<longleftrightarrow>
     listOk code (fst out) \<and> kept s (fst out) \<and> vm_best (fst (fst out)) = vm_best (fst s) \<and>
     (\<exists>new. threads (fst out) = threads s @ new \<and> (\<forall>(p, c)\<in>set new. Q p c)) \<and>
     stackOk Q (vm_work (fst (fst out))) (snd out) \<and>
     closedUpTo r code pos (pending (snd out)) (snd (fst out)) \<and>
     (\<forall>p. ls_seen (snd s) p \<or> p \<in> W \<longrightarrow> ls_seen (snd (fst out)) p \<or> p \<in> pending (snd out))"

lemma rounds_restore:
  assumes "listOk code (vm, list)" and "stackOk Q (vm_work vm) (task # stack)"
    and "closedUpTo r code pos (pending (task # stack)) list"
    and "tk_restore task"
  shows "rounds r code pos Q (pending (task # stack)) (vm, list) (stepR r pos task stack (vm, list))"
  using assms unfolding rounds_def step_restore [OF assms(4)]
  by (simp add: listOk_work kept_work)

lemma rounds_seen:
  assumes "listOk code (vm, list)" and "stackOk Q (vm_work vm) (task # stack)"
    and "closedUpTo r code pos (pending (task # stack)) list"
    and "\<not> tk_restore task" "ls_seen list (tk_pc task)"
  shows "rounds r code pos Q (pending (task # stack)) (vm, list) (stepR r pos task stack (vm, list))"
  using assms unfolding rounds_def step_seen [OF assms(4,5)] closedUpTo_def by auto

lemma rounds_outside:
  assumes "listOk code (vm, list)" and "stackOk Q (vm_work vm) (task # stack)"
    and "closedUpTo r code pos (pending (task # stack)) list"
    and "\<not> tk_restore task" "\<not> ls_seen list (tk_pc task)" "tk_pc task \<ge> length code"
  shows "rounds r code pos Q (pending (task # stack)) (vm, list) (stepR r pos task stack (vm, list))"
proof -
  have "pr_insts (vm_program vm) = code" using assms(1) by (simp add: listOk_def)
  then have out: "stepR r pos task stack (vm, list) = ((vm, marked (tk_pc task) list), stack)"
    using step_outside [OF assms(4,5)] assms(6) by simp
  have "listOk code (vm, marked (tk_pc task) list)"
    using listOk_marked_eps [OF assms(1), of "tk_pc task" "vm_work vm"] assms(6) by simp
  then show ?thesis
    using assms(2-) unfolding rounds_def out by (auto simp: kept_work closedUpTo_def)
qed

lemma rounds_thread:
  assumes "listOk code (vm, list)" and "stackOk Q (vm_work vm) (task # stack)"
    and "closedUpTo r code pos (pending (task # stack)) list"
    and "\<not> tk_restore task" "\<not> ls_seen list (tk_pc task)" "tk_pc task < length code"
    and "threadOp (in_op (code ! tk_pc task))"
  shows "rounds r code pos Q (pending (task # stack)) (vm, list) (stepR r pos task stack (vm, list))"
proof -
  let ?pc = "tk_pc task"
  have "pr_insts (vm_program vm) = code" using assms(1) by (simp add: listOk_def)
  then have out: "stepR r pos task stack (vm, list) = (pushThread vm (marked ?pc list) ?pc, stack)"
    using step_thread [OF assms(4,5)] assms(6,7) by simp
  note push = pushThread_marked [OF assms(1,6,5,7)]
  have seen: "ls_seen (snd (pushThread vm (marked ?pc list) ?pc)) p \<longleftrightarrow> p = ?pc \<or> ls_seen list p" for p
    by simp
  have "closedUpTo r code pos (pending stack) (snd (pushThread vm (marked ?pc list) ?pc))"
    using assms(3,4,7) epsNext_thread [OF assms(7)] unfolding closedUpTo_def seen by auto
  then show ?thesis
    using assms(2,4) push unfolding rounds_def out by auto
qed

lemma rounds_eps:
  assumes "listOk code (vm, list)" and "stackOk Q (vm_work vm) (task # stack)"
    and "closedUpTo r code pos (pending (task # stack)) list"
    and "\<not> tk_restore task" "\<not> ls_seen list (tk_pc task)" "tk_pc task < length code"
    and "\<not> threadOp (in_op (code ! tk_pc task))" and "epsClosed r code pos Q"
  shows "rounds r code pos Q (pending (task # stack)) (vm, list) (stepR r pos task stack (vm, list))"
proof -
  let ?pc = "tk_pc task" and ?inst = "code ! tk_pc task"
  let ?next = "epsNext r pos ?pc ?inst"
  let ?w = "saveAt ?inst pos (vm_work vm)"
  let ?stack = "map taskPc ?next @ undo ?inst (vm_work vm) @ stack"
  have "pr_insts (vm_program vm) = code" using assms(1) by (simp add: listOk_def)
  then have out: "stepR r pos task stack (vm, list) =
      ((vm\<lparr>vm_work := ?w\<rparr>, marked ?pc list), ?stack)"
    using step_eps [OF assms(4,5) _ refl] assms(6,7) by simp
  have "Q ?pc (vm_work vm)" "stackOk Q (vm_work vm) stack" using assms(2,4) by auto
  then have "stackOk Q ?w ?stack"
    using assms(6,8) unfolding stackOk_pcs stackOk_undo epsClosed_def by auto
  moreover have "closedUpTo r code pos (pending ?stack) (marked ?pc list)"
    using assms(3,4) unfolding closedUpTo_def by auto
  moreover have "listOk code (vm\<lparr>vm_work := ?w\<rparr>, marked ?pc list)"
    using listOk_marked_eps [OF assms(1)] assms(7) by simp
  ultimately show ?thesis
    using assms(4) unfolding rounds_def out by (auto simp: kept_work)
qed

lemma closureStep_rounds:
  assumes "listOk code s" and "epsClosed r code pos Q" and "stackOk Q (vm_work (fst s)) (task # stack)"
    and "closedUpTo r code pos (pending (task # stack)) (snd s)"
  shows "rounds r code pos Q (pending (task # stack)) s (stepR r pos task stack s)"
proof -
  obtain vm list where s: "s = (vm, list)" by fastforce
  have ok: "listOk code (vm, list)" "stackOk Q (vm_work vm) (task # stack)"
    "closedUpTo r code pos (pending (task # stack)) list"
    using assms s by auto
  consider "tk_restore task" | "\<not> tk_restore task" "ls_seen list (tk_pc task)"
    | "\<not> tk_restore task" "\<not> ls_seen list (tk_pc task)" "tk_pc task \<ge> length code"
    | "\<not> tk_restore task" "\<not> ls_seen list (tk_pc task)" "tk_pc task < length code"
      "threadOp (in_op (code ! tk_pc task))"
    | "\<not> tk_restore task" "\<not> ls_seen list (tk_pc task)" "tk_pc task < length code"
      "\<not> threadOp (in_op (code ! tk_pc task))"
    by linarith
  then show ?thesis
    unfolding s
    using rounds_restore [OF ok] rounds_seen [OF ok] rounds_outside [OF ok] rounds_thread [OF ok]
      rounds_eps [OF ok _ _ _ _ assms(2)]
    by cases blast+
qed

lemma closure_closes:
  "listOk code s \<Longrightarrow> epsClosed r code pos Q \<Longrightarrow> stackOk Q (vm_work (fst s)) stack \<Longrightarrow>
   closedUpTo r code pos (pending stack) (snd s) \<Longrightarrow>
   closes r code pos Q (pending stack) s (closureR r pos stack s)"
proof (induction "ra_subject r" "op_multiline (ra_options r)" pos stack s rule: closure.induct)
  case (1 pos s)
  then show ?case by (simp add: closes_def)
next
  case (2 pos task stack s)
  let ?out = "stepR r pos task stack s"
  have out: "rounds r code pos Q (pending (task # stack)) s ?out"
    using closureStep_rounds 2(2-5) .
  then have rest: "closes r code pos Q (pending (snd ?out)) (fst ?out)
      (closureR r pos (snd ?out) (fst ?out))"
    using 2(1) [OF refl] 2(3) by (simp add: rounds_def)
  obtain new where new: "threads (fst ?out) = threads s @ new" "\<forall>(p, c)\<in>set new. Q p c"
    using out unfolding rounds_def by blast
  have "closes r code pos Q (pending (task # stack)) s (closureR r pos (snd ?out) (fst ?out))"
    by (rule closes_next [OF rest _ _ new]) (use out in \<open>unfold rounds_def, blast+\<close>)
  then show ?case by (simp add: Let_def)
qed

end
