(* ===== verification/Regex_RunProof.thy ===== *)
theory Regex_RunProof
  imports Regex_VmProof
begin

text \<open>
  One pass of the simulator over the threads of a position, and the facts about runs of a
  well-formed program that the loop over the subject rests on.
\<close>

section \<open>Well-formed code\<close>

text \<open>Branches stay in \<open>{lo..hi}\<close>, classes and capture slots exist.\<close>

definition instOk :: "nat \<Rightarrow> nat \<Rightarrow> nat \<Rightarrow> nat \<Rightarrow> RegexInst \<Rightarrow> bool" where
  "instOk lo hi c g inst \<longleftrightarrow>
     (case in_op inst of
        OP_JUMP \<Rightarrow> lo \<le> in_a inst \<and> in_a inst \<le> hi
      | OP_SPLIT \<Rightarrow> lo \<le> in_a inst \<and> in_a inst \<le> hi \<and> lo \<le> in_b inst \<and> in_b inst \<le> hi
      | OP_SAVE \<Rightarrow> 2 \<le> in_a inst \<and> in_a inst < 2 * (g + 1)
      | OP_CLASS \<Rightarrow> in_a inst < c
      | OP_MATCH \<Rightarrow> False
      | _ \<Rightarrow> True)"

lemma ccode_instOk:
  "rxWf c g t \<Longrightarrow> inst \<in> set (ccode t s) \<Longrightarrow> lo \<le> s \<Longrightarrow> s + clen t \<le> hi \<Longrightarrow>
   instOk lo hi c g inst"
  by (induction t arbitrary: s)
    (auto simp: instOk_def mkInst_def split: if_splits)

lemma programCode_instOk:
  assumes "rxWf c g t" and "0 < p" "p < clen (core t) + 1"
  shows "instOk 1 (clen (core t) + 1) c g (programCode t ! p)"
proof -
  have "programCode t ! p \<in> set (ccode (core t) 1)"
    using assms(2,3) by (auto simp: programCode_def nth_append nth_Cons')
  then show ?thesis using rxWf_core [OF assms(1)] by (intro ccode_instOk) auto
qed

lemma programCode_cases:
  assumes "p < length (programCode t)"
  obtains (first) "p = 0" "programCode t ! p = mkInst OP_SAVE 0 0 0"
    | (body) "0 < p" "p < clen (core t) + 1"
    | (last) "p = clen (core t) + 1" "programCode t ! p = mkInst OP_SAVE 0 1 0"
    | (hit) "p = matchPc t" "programCode t ! p = mkInst OP_MATCH 0 0 0"
proof -
  have "p = 0 \<or> 0 < p \<and> p < clen (core t) + 1 \<or> p = clen (core t) + 1 \<or> p = matchPc t"
    using assms by (auto simp: matchPc_def)
  then show thesis
    using that programCode_nth [of t] by auto
qed

lemma programCode_match:
  assumes "rxWf c g t" and "p < length (programCode t)"
  shows "in_op (programCode t ! p) = OP_MATCH \<longleftrightarrow> p = matchPc t"
  using assms(2)
proof (cases rule: programCode_cases)
  case body
  then show ?thesis
    using programCode_instOk [OF assms(1) body] by (auto simp: instOk_def matchPc_def)
qed (auto simp: mkInst_def matchPc_def)

text \<open>No instruction leads back to the first, and every target is in the program.\<close>

lemma programCode_eps:
  assumes "rxWf c g t" and "p < length (programCode t)"
    and "q \<in> set (epsNext r pos p (programCode t ! p))"
  shows "0 < q \<and> q < length (programCode t)"
  using assms(2)
proof (cases rule: programCode_cases)
  case body
  then show ?thesis
    using programCode_instOk [OF assms(1) body] assms(3)
    by (cases "in_op (programCode t ! p)") (auto simp: instOk_def epsNext_def split: if_splits)
qed (use assms(3) in \<open>auto simp: epsNext_def mkInst_def\<close>)

lemma programCode_save:
  assumes "rxWf c g t" and "p < length (programCode t)" and "in_op (programCode t ! p) = OP_SAVE"
  shows "in_a (programCode t ! p) < 2 * (g + 1) \<and> (in_a (programCode t ! p) = 0 \<longleftrightarrow> p = 0)"
  using assms(2)
proof (cases rule: programCode_cases)
  case body
  then show ?thesis
    using programCode_instOk [OF assms(1) body] assms(3) by (auto simp: instOk_def)
qed (use assms(3) in \<open>auto simp: mkInst_def\<close>)

section \<open>Runs of the automaton\<close>

lemma creach_length: "creach r code (p, i, c) (q, j, d) \<Longrightarrow> length d = length c"
  by (induction "(q, j, d)" arbitrary: q j d rule: rtranclp_induct)
    (auto elim!: cstepE simp: saveAt_def)

lemma creach_mono: "creach r code (p, i, c) (q, j, d) \<Longrightarrow> i \<le> j"
  by (induction "(q, j, d)" arbitrary: q j d rule: rtranclp_induct) (auto elim!: cstepE)

lemma creach_eps_closed: "epsClosed r code pos (\<lambda>p c. creach r code x (p, pos, c))"
  unfolding epsClosed_def by (meson eps rtranclp.rtrancl_into_rtrancl)

text \<open>Slot 0 is written by the first instruction alone.\<close>

lemma creach_slot0:
  assumes "rxWf c g t" and "creach r (programCode t) (p, i, u) (q, j, v)" and "0 < p"
  shows "0 < q \<and> v ! 0 = u ! 0"
  using assms(2)
proof (induction "(q, j, v)" arbitrary: q j v rule: rtranclp_induct)
  case base
  then show ?case using assms(3) by simp
next
  case (step y)
  obtain q' j' v' where y: "y = (q', j', v')" by (metis prod_cases3)
  have IH: "0 < q'" "v' ! 0 = u ! 0" using step.hyps(3) y by auto
  from step.hyps(2) y show ?case
  proof (cases rule: cstep.cases)
    case eps
    then have "v ! 0 = v' ! 0"
      using programCode_save [OF assms(1), of q'] IH y
      by (auto simp: saveAt_def nth_list_update)
    then show ?thesis using programCode_eps [OF assms(1)] eps y IH by auto
  next
    case read
    then show ?thesis using y IH by auto
  qed
qed

lemma creach_start:
  assumes "rxWf c g t" and "creach r (programCode t) (0, i, u) (q, j, v)" and "u \<noteq> []"
  shows "(q = 0 \<and> j = i \<and> v = u) \<or> (0 < q \<and> v ! 0 = i)"
proof (cases "(q, j, v) = (0, i, u)")
  case False
  then obtain z where z: "cstep r (programCode t) (0, i, u) z" "creach r (programCode t) z (q, j, v)"
    using assms(2) by (metis converse_rtranclpE)
  have "fst z = 0 + 1 \<and> ((i, u), snd z) \<in> saves 0"
    using step_save [OF programCode_nth(1) z(1)] .
  then have "z = (1, i, u[0 := i])" by (cases z) (auto simp: saves_def)
  then show ?thesis
    using creach_slot0 [OF assms(1)] z(2) assms(3) by fastforce
qed auto

text \<open>Paths that do not read, and the last read of a path.\<close>

abbreviation epath :: "RunArgs \<Rightarrow> RegexInst list \<Rightarrow> nat \<Rightarrow> nat \<Rightarrow> nat \<Rightarrow> bool" where
  "epath r code pos \<equiv> (\<lambda>p q. p < length code \<and> q \<in> set (epsNext r pos p (code ! p)))\<^sup>*\<^sup>*"

lemma creach_last_read:
  "creach r code (p, i, u) (q, j, v) \<Longrightarrow>
   (j = i \<and> epath r code i p q) \<or>
   (\<exists>k q' v'. j = Suc k \<and> creach r code (p, i, u) (q', k, v') \<and> q' < length code \<and>
      accepts r (code ! q') k \<and> epath r code j (Suc q') q)"
proof (induction "(q, j, v)" arbitrary: q j v rule: rtranclp_induct)
  case base
  then show ?case by simp
next
  case (step y)
  obtain q' j' v' where y: "y = (q', j', v')" by (metis prod_cases3)
  from step.hyps(2) y show ?case
  proof (cases rule: cstep.cases)
    case eps
    then show ?thesis
      using step.hyps(3) [of q' j' v'] y by (auto intro: rtranclp.rtrancl_into_rtrancl)
  next
    case read
    then show ?thesis using step.hyps(1) y by auto
  qed
qed

lemma closed_epath:
  assumes "closedUpTo r code pos {} list" and "epath r code pos p q" and "ls_seen list p"
  shows "ls_seen list q"
  using assms(2,3) by (induction rule: rtranclp_induct) (use assms(1) in \<open>auto simp: closedUpTo_def\<close>)

section \<open>Adding a thread\<close>

abbreviation addThreadR ::
    "RunArgs \<Rightarrow> nat \<Rightarrow> nat \<Rightarrow> nat list \<Rightarrow> RegexVm \<times> RegexList \<Rightarrow> RegexVm \<times> RegexList" where
  "addThreadR r pos \<equiv> addThread (ra_subject r) (op_multiline (ra_options r)) pos"

lemma addThread_closes:
  assumes "listOk code s" and "closedUpTo r code pos {} (snd s)" and "length c = vm_capStride (fst s)"
  shows "closes r code pos (\<lambda>q d. creach r code (p, pos, c) (q, pos, d)) {p} s (addThreadR r pos p c s)"
proof -
  obtain vm list where s: "s = (vm, list)" by fastforce
  let ?Q = "\<lambda>q d. creach r code (p, pos, c) (q, pos, d)"
  let ?s = "(vm\<lparr>vm_work := c\<rparr>, list)"
  have "closes r code pos ?Q (pending [taskPc p]) ?s (closureR r pos [taskPc p] ?s)"
  proof (rule closure_closes)
    show "closedUpTo r code pos (pending [taskPc p]) (snd ?s)"
      using assms(2) s by (auto simp: closedUpTo_def taskPc_def)
    show "stackOk ?Q (vm_work (fst ?s)) [taskPc p]" by (simp add: taskPc_def)
  qed (use assms(1) s listOk_work creach_eps_closed in auto)
  moreover have "addThreadR r pos p c s = closureR r pos [taskPc p] ?s"
    using assms(3) s by (simp add: addThread_def)
  moreover have "pending [taskPc p] = {p}" by (simp add: taskPc_def)
  ultimately have *: "closes r code pos ?Q {p} ?s (addThreadR r pos p c s)" by simp
  then have "kept s (addThreadR r pos p c s)"
    using kept_trans [OF kept_work(1)] unfolding s closes_def by blast
  then show ?thesis using * unfolding s closes_def by simp
qed

lemma threads_fst: "listOk code s \<Longrightarrow>
  fst ` set (threads s) = {p. p < length code \<and> ls_seen (snd s) p \<and> threadOp (in_op (code ! p))}"
proof -
  assume "listOk code s"
  then have "map fst (threads s) = ls_pc (snd s)"
      "set (ls_pc (snd s)) = {p. p < length code \<and> ls_seen (snd s) p \<and> threadOp (in_op (code ! p))}"
    by (simp_all add: threads_def listOk_def)
  then show ?thesis by (metis list.set_map)
qed

section \<open>One pass over the threads\<close>

definition okEnd :: "RunArgs \<Rightarrow> nat \<Rightarrow> bool" where
  "okEnd r pos \<longleftrightarrow> \<not> (ra_full r \<and> pos \<noteq> ra_length r)"

definition hits :: "RunArgs \<Rightarrow> RegexInst list \<Rightarrow> nat \<Rightarrow> nat \<times> nat list \<Rightarrow> bool" where
  "hits r code pos th \<longleftrightarrow> in_op (code ! fst th) = OP_MATCH \<and> okEnd r pos"

definition rowsOf :: "RegexVm \<Rightarrow> (nat \<times> nat) list \<Rightarrow> (nat \<times> nat list) list" where
  "rowsOf vm ts = map (\<lambda>(p, k). (p, vm_caps vm ! k)) ts"

text \<open>The rows of a thread table outside the region a list writes.\<close>

definition apart :: "RegexInst list \<Rightarrow> RegexVm \<times> RegexList \<Rightarrow> (nat \<times> nat) list \<Rightarrow> bool" where
  "apart code s ts \<longleftrightarrow>
     (\<forall>(p, k)\<in>set ts. p < length code \<and> length (vm_caps (fst s) ! k) = vm_capStride (fst s) \<and>
        (k < ls_capBase (snd s) \<or> ls_capBase (snd s) + vm_capRowCount (fst s) \<le> k))"

lemma rowsOf_kept: "apart code s ts \<Longrightarrow> kept s s' \<Longrightarrow> rowsOf (fst s') ts = rowsOf (fst s) ts"
  by (auto simp: rowsOf_def apart_def kept_def)

lemma apart_kept: "apart code s ts \<Longrightarrow> kept s s' \<Longrightarrow> apart code s' ts"
  by (fastforce simp: apart_def kept_def)

text \<open>
  \<open>passes\<close>: the outcome of the pass over the threads \<open>ths\<close>.  The threads before the first that
  hits are moved one after the other, each adding the threads \<open>news ! n\<close>; whatever is
  reachable behind a thread that reads is there as soon as that thread is done.
\<close>

definition moves ::
    "RunArgs \<Rightarrow> RegexInst list \<Rightarrow> nat \<Rightarrow> (nat \<times> nat list) list \<Rightarrow> (nat \<times> nat list) list \<Rightarrow>
     (nat \<times> nat list) list list \<Rightarrow> bool" where
  "moves r code pos old ths news \<longleftrightarrow>
     list_all2 (\<lambda>th new. \<forall>(p, c)\<in>set new. creach r code (fst th, pos, snd th) (p, Suc pos, c)) ths news \<and>
     (\<forall>n. \<forall>(q, d)\<in>set (take n ths). \<forall>p. accepts r (code ! q) pos \<longrightarrow>
        epath r code (Suc pos) (Suc q) p \<longrightarrow> p < length code \<longrightarrow> threadOp (in_op (code ! p)) \<longrightarrow>
        p \<in> fst ` set (old @ concat (take n news)))"

definition outcome ::
    "(nat \<times> nat list) list \<Rightarrow> bool \<Rightarrow> nat list \<Rightarrow> bool \<Rightarrow> nat list \<Rightarrow> bool" where
  "outcome left matched best matched' best' \<longleftrightarrow>
     (case left of [] \<Rightarrow> matched' = matched \<and> best' = best | th # _ \<Rightarrow> matched' \<and> best' = snd th)"

definition passes ::
    "RunArgs \<Rightarrow> RegexInst list \<Rightarrow> nat \<Rightarrow> (nat \<times> nat list) list \<Rightarrow> bool \<Rightarrow> RegexVm \<times> RegexList \<Rightarrow>
     bool \<times> (RegexVm \<times> RegexList) \<Rightarrow> bool" where
  "passes r code pos ths matched s out \<longleftrightarrow>
     listOk code (snd out) \<and> kept s (snd out) \<and> closedUpTo r code (Suc pos) {} (snd (snd out)) \<and>
     (\<exists>news. threads (snd out) = threads s @ concat news \<and>
        moves r code pos (threads s) (takeWhile (\<lambda>th. \<not> hits r code pos th) ths) news) \<and>
     outcome (dropWhile (\<lambda>th. \<not> hits r code pos th) ths) matched (vm_best (fst s))
       (fst out) (vm_best (fst (snd out)))"

lemma passesI:
  assumes "listOk code s'" and "kept s s'" and "closedUpTo r code (Suc pos) {} (snd s')"
    and "threads s' = threads s @ concat news"
    and "moves r code pos (threads s) (takeWhile (\<lambda>th. \<not> hits r code pos th) ths) news"
    and "outcome (dropWhile (\<lambda>th. \<not> hits r code pos th) ths) matched (vm_best (fst s))
      m (vm_best (fst s'))"
  shows "passes r code pos ths matched s (m, s')"
  using assms unfolding passes_def by auto

lemma moves_Nil [simp]: "moves r code pos old [] []"
  by (simp add: moves_def)

lemma moves_Cons:
  assumes "moves r code pos (old @ new) ths news"
    and "\<forall>(p, c)\<in>set new. creach r code (q, pos, d) (p, Suc pos, c)"
    and "\<And>p. accepts r (code ! q) pos \<Longrightarrow> epath r code (Suc pos) (Suc q) p \<Longrightarrow> p < length code \<Longrightarrow>
      threadOp (in_op (code ! p)) \<Longrightarrow> p \<in> fst ` set (old @ new)"
  shows "moves r code pos old ((q, d) # ths) (new # news)"
proof -
  have "p \<in> fst ` set (old @ concat (take n (new # news)))"
    if "(q', d') \<in> set (take n ((q, d) # ths))" "accepts r (code ! q') pos"
      "epath r code (Suc pos) (Suc q') p" "p < length code" "threadOp (in_op (code ! p))"
    for n q' d' p
  proof (cases n)
    case (Suc m)
    show ?thesis
    proof (cases "(q', d') = (q, d)")
      case True
      then show ?thesis using assms(3) [of p] that Suc by auto
    next
      case False
      then have "(q', d') \<in> set (take m ths)" using that(1) Suc by auto
      then have "p \<in> fst ` set ((old @ new) @ concat (take m news))"
        using assms(1) that(2-5) unfolding moves_def by blast
      then show ?thesis using Suc by simp
    qed
  qed (use that in simp)
  then show ?thesis using assms(1,2) unfolding moves_def by (simp only: list_all2_Cons fst_conv snd_conv) blast
qed

lemma stepThreads_Cons:
  assumes "RegexProgram_at (vm_program (fst s)) p = Some inst"
  shows "stepThreads r pos ((p, k) # ts) matched s =
    (if in_op inst = OP_MATCH \<and> okEnd r pos
     then (True, ((fst s)\<lparr>vm_best := take (vm_capStride (fst s)) (vm_caps (fst s) ! k)\<rparr>, snd s))
     else if accepts r inst pos
     then stepThreads r pos ts matched (addThreadR r (Suc pos) (Suc p) (vm_caps (fst s) ! k) s)
     else stepThreads r pos ts matched s)"
proof -
  have "in_op inst = OP_MATCH \<Longrightarrow> \<not> accepts r inst pos"
    by (simp add: accepts_def instMatches_def)
  then show ?thesis
    using assms
    by (cases "in_op inst = OP_MATCH \<and> okEnd r pos")
      (auto simp: okEnd_def accepts_def byteAt_def)
qed

declare stepThreads.simps(2) [simp del]

lemma passes_stop:
  assumes "listOk code s" and "closedUpTo r code (Suc pos) {} (snd s)" and "hits r code pos th"
  shows "passes r code pos (th # ths) matched s (True, ((fst s)\<lparr>vm_best := snd th\<rparr>, snd s))"
proof (rule passesI)
  show "threads ((fst s)\<lparr>vm_best := snd th\<rparr>, snd s) = threads s @ concat []"
    by (simp add: threads_def)
  show "kept s ((fst s)\<lparr>vm_best := snd th\<rparr>, snd s)" by (simp add: kept_def)
  show "listOk code ((fst s)\<lparr>vm_best := snd th\<rparr>, snd s)" using assms(1) by (simp add: listOk_def)
qed (use assms in \<open>simp_all add: outcome_def\<close>)

lemma passes_skip:
  assumes "passes r code pos ths matched s out" and "\<not> hits r code pos (q, d)"
    and "\<not> accepts r (code ! q) pos"
  shows "passes r code pos ((q, d) # ths) matched s out"
proof -
  obtain news where news: "threads (snd out) = threads s @ concat news"
      "moves r code pos (threads s) (takeWhile (\<lambda>th. \<not> hits r code pos th) ths) news"
    using assms(1) unfolding passes_def by blast
  have "moves r code pos (threads s) ((q, d) # takeWhile (\<lambda>th. \<not> hits r code pos th) ths) ([] # news)"
    by (rule moves_Cons) (use news(2) assms(3) in auto)
  moreover have "threads (snd out) = threads s @ concat ([] # news)" using news(1) by simp
  ultimately show ?thesis
    using assms(1,2) unfolding passes_def takeWhile.simps dropWhile.simps if_P [OF assms(2)] by blast
qed

lemma passes_add:
  assumes "passes r code pos ths matched s1 out" and "\<not> hits r code pos (q, d)"
    and closes: "closes r code (Suc pos) (\<lambda>p c. creach r code (Suc q, Suc pos, d) (p, Suc pos, c))
      {Suc q} s s1"
    and accepts: "q < length code" "accepts r (code ! q) pos"
  shows "passes r code pos ((q, d) # ths) matched s out"
proof -
  obtain news where news: "threads (snd out) = threads s1 @ concat news"
      "moves r code pos (threads s1) (takeWhile (\<lambda>th. \<not> hits r code pos th) ths) news"
    using assms(1) unfolding passes_def by blast
  obtain new where new: "threads s1 = threads s @ new"
      "\<forall>(p, c)\<in>set new. creach r code (Suc q, Suc pos, d) (p, Suc pos, c)"
    using closes unfolding closes_def by blast
  have step: "cstep r code (q, pos, d) (Suc q, Suc pos, d)" using read [OF accepts] by simp
  have 1: "\<forall>(p, c)\<in>set new. creach r code (q, pos, d) (p, Suc pos, c)"
    using new(2) step by (blast intro: converse_rtranclp_into_rtranclp)
  have 2: "p \<in> fst ` set (threads s @ new)"
    if "epath r code (Suc pos) (Suc q) p" "p < length code" "threadOp (in_op (code ! p))" for p
  proof -
    have "closedUpTo r code (Suc pos) {} (snd s1)" "ls_seen (snd s1) (Suc q)" "listOk code s1"
      using closes unfolding closes_def by auto
    then show ?thesis
      using closed_epath [OF _ that(1)] that(2,3) threads_fst [of code s1] new(1) by auto
  qed
  have "moves r code pos (threads s) ((q, d) # takeWhile (\<lambda>th. \<not> hits r code pos th) ths) (new # news)"
    by (rule moves_Cons [OF _ 1]) (use news(2) new(1) 2 in auto)
  moreover have "threads (snd out) = threads s @ concat (new # news)" using news(1) new(1) by simp
  moreover have "kept s s1" "vm_best (fst s1) = vm_best (fst s)"
    using closes unfolding closes_def by auto
  moreover from this have "kept s (snd out)"
    using assms(1) kept_trans unfolding passes_def by blast
  ultimately show ?thesis
    using assms(1) unfolding passes_def takeWhile.simps dropWhile.simps if_P [OF assms(2)] by metis
qed

lemma stepThreads_passes:
  "listOk code s \<Longrightarrow> closedUpTo r code (Suc pos) {} (snd s) \<Longrightarrow> apart code s ts \<Longrightarrow>
   passes r code pos (rowsOf (fst s) ts) matched s (stepThreads r pos ts matched s)"
proof (induction ts arbitrary: s)
  case Nil
  then show ?case using passesI [where news = "[]" and ths = "[]" and s = s and s' = s]
    by (simp add: rowsOf_def outcome_def)
next
  case (Cons t ts)
  obtain p k where t: "t = (p, k)" by fastforce
  let ?row = "vm_caps (fst s) ! k"
  have p: "p < length code" and row: "length ?row = vm_capStride (fst s)"
    and apart: "apart code s ts"
    using Cons.prems(3) t by (auto simp: apart_def)
  have "pr_insts (vm_program (fst s)) = code" using Cons.prems(1) by (simp add: listOk_def)
  then have "RegexProgram_at (vm_program (fst s)) p = Some (code ! p)"
    using p by (simp add: RegexProgram_at_def RegexProgram_count_def)
  note step = stepThreads_Cons [OF this, of r pos k ts matched]
  have rows: "rowsOf (fst s) (t # ts) = (p, ?row) # rowsOf (fst s) ts" using t by (simp add: rowsOf_def)
  consider "hits r code pos (p, ?row)"
    | "\<not> hits r code pos (p, ?row)" "\<not> accepts r (code ! p) pos"
    | "\<not> hits r code pos (p, ?row)" "accepts r (code ! p) pos"
    by blast
  then show ?case
  proof cases
    case 1
    then have "stepThreads r pos (t # ts) matched s = (True, ((fst s)\<lparr>vm_best := ?row\<rparr>, snd s))"
      using step t row by (simp add: hits_def)
    then show ?thesis
      using passes_stop [OF Cons.prems(1,2) 1] unfolding rows by simp
  next
    case 2
    then have "stepThreads r pos (t # ts) matched s = stepThreads r pos ts matched s"
      using step t by (auto simp: hits_def)
    then show ?thesis
      using passes_skip [OF Cons.IH [OF Cons.prems(1,2) apart] 2] unfolding rows by simp
  next
    case 3
    let ?s1 = "addThreadR r (Suc pos) (Suc p) ?row s"
    have out: "stepThreads r pos (t # ts) matched s = stepThreads r pos ts matched ?s1"
      using step t 3 by (auto simp: hits_def)
    note closes = addThread_closes [OF Cons.prems(1,2) row, of "Suc p"]
    then have s1: "listOk code ?s1" "closedUpTo r code (Suc pos) {} (snd ?s1)" "kept s ?s1"
      unfolding closes_def by auto
    have "passes r code pos (rowsOf (fst ?s1) ts) matched ?s1 (stepThreads r pos ts matched ?s1)"
      using Cons.IH [OF s1(1,2) apart_kept [OF apart s1(3)]] .
    then show ?thesis
      using passes_add [OF _ 3(1) closes p 3(2)] rowsOf_kept [OF apart s1(3)] out
      unfolding rows by simp
  qed
qed

end
