(* ===== verification/Regex_Leftmost.thy ===== *)
theory Regex_Leftmost
  imports Regex_RunProof
begin

text \<open>
  The loop of the simulator over the subject: its invariant, and what the run returns.  The
  threads stay sorted by the position they began at, so that the first to hit cuts only
  threads that began no earlier; that makes the reported match the leftmost.
\<close>

section \<open>The loop over the subject\<close>

definition seedOf :: "nat \<Rightarrow> nat list" where
  "seedOf g = replicate (2 * (g + 1)) REGEX_UNSET"

definition startOk :: "RunArgs \<Rightarrow> nat \<Rightarrow> bool" where
  "startOk r i \<longleftrightarrow> (\<not> ra_anchored r \<or> i = 0) \<and> i \<le> ra_length r"

text \<open>An accepting run of the program from \<open>i\<close> to \<open>j\<close> with the captures \<open>c\<close>.\<close>

definition accepting :: "RunArgs \<Rightarrow> rx \<Rightarrow> nat \<Rightarrow> nat \<Rightarrow> nat \<Rightarrow> nat list \<Rightarrow> bool" where
  "accepting r t g i j c \<longleftrightarrow>
     startOk r i \<and> okEnd r j \<and> creach r (programCode t) (0, i, seedOf g) (matchPc t, j, c)"

abbreviation begun :: "nat \<times> nat list \<Rightarrow> nat" where
  "begun th \<equiv> snd th ! 0"

definition started :: "RunArgs \<Rightarrow> rx \<Rightarrow> nat \<Rightarrow> nat \<Rightarrow> nat \<times> nat list \<Rightarrow> bool" where
  "started r t g pos th \<longleftrightarrow>
     threadOp (in_op (programCode t ! fst th)) \<and> fst th < length (programCode t) \<and>
     startOk r (begun th) \<and> begun th \<le> pos \<and>
     creach r (programCode t) (0, begun th, seedOf g) (fst th, pos, snd th)"

lemma seedOf_nonempty [simp]: "seedOf g \<noteq> []"
  by (simp add: seedOf_def)

lemma startedI:
  assumes wf: "rxWf c g t" and run: "creach r (programCode t) (0, i, seedOf g) (p, pos, v)"
    and p: "threadOp (in_op (programCode t ! p))" "p < length (programCode t)" and i: "startOk r i"
  shows "started r t g pos (p, v) \<and> v ! 0 = i"
proof -
  have "\<not> threadOp (in_op (programCode t ! 0))"
    unfolding programCode_nth(1) by (simp add: threadOp_def mkInst_def)
  then have "p \<noteq> 0" using p by metis
  then have "v ! 0 = i" using creach_start [OF wf run] by simp
  then show ?thesis using run p i creach_mono [OF run] by (simp add: started_def)
qed

lemma started_next:
  assumes wf: "rxWf c g t" and th: "started r t g pos th"
    and run: "creach r (programCode t) (fst th, pos, snd th) (p, Suc pos, v)"
    and p: "threadOp (in_op (programCode t ! p))" "p < length (programCode t)"
  shows "started r t g (Suc pos) (p, v) \<and> v ! 0 = begun th"
  using startedI [OF wf rtranclp_trans [OF _ run] p] th unfolding started_def by blast

lemma sorted_takeWhile:
  "sorted (map f xs) \<Longrightarrow> x \<in> set xs \<Longrightarrow> f x \<le> b \<Longrightarrow> x \<in> set (takeWhile (\<lambda>x. f x \<le> b) xs)"
  by (induction xs) auto

lemma sorted_mapWhile: "sorted (map f xs) \<Longrightarrow> sorted (map f (takeWhile P xs))"
  by (induction xs) (auto dest: set_takeWhileD)

lemma sorted_concat:
  "list_all2 (\<lambda>x new. \<forall>y\<in>set new. f y = f x) xs news \<Longrightarrow> sorted (map f xs) \<Longrightarrow>
   sorted (map f (concat news))"
proof (induction rule: list_all2_induct)
  case (Cons x xs new news)
  have "\<exists>y\<in>set xs. f z = f y" if "z \<in> set (concat news)" for z
    using Cons.hyps(2) that by (fastforce simp: list_all2_conv_all_nth in_set_conv_nth)
  moreover have "f x \<le> f y" if "y \<in> set xs" for y using Cons.prems that by simp
  ultimately have "f x \<le> f z" if "z \<in> set (concat news)" for z using that by metis
  moreover have "map f new = replicate (length new) (f x)"
    using Cons.hyps(1) by (intro replicate_eqI) auto
  ultimately show ?case using Cons.IH Cons.prems by (simp add: sorted_append)
qed simp

lemma creach_bound:
  "creach r code (p, i, c) (q, j, d) \<Longrightarrow> i \<le> ra_length r \<Longrightarrow> j \<le> ra_length r"
proof (induction "(q, j, d)" arbitrary: q j d rule: rtranclp_induct)
  case (step y)
  obtain q' j' v' where y: "y = (q', j', v')" by (metis prod_cases3)
  then show ?case
    using step.hyps(3) step.prems step.hyps(2) by (auto elim!: cstepE simp: accepts_def)
qed simp

lemma creach_inside:
  assumes "rxWf c g t"
  shows "creach r (programCode t) (0, i, u) (q, j, v) \<Longrightarrow> q < length (programCode t)"
proof (induction "(q, j, v)" arbitrary: q j v rule: rtranclp_induct)
  case (step y)
  show ?case using step.hyps(2)
  proof (cases rule: cstep.cases)
    case eps
    then show ?thesis using programCode_eps [OF assms] by blast
  next
    case read
    then obtain pc k where pc: "q = pc + 1" "pc < length (programCode t)"
        "accepts r (programCode t ! pc) k"
      by auto
    then have "pc \<noteq> matchPc t"
      using programCode_nth(4) [of t] by (auto simp: accepts_def instMatches_def mkInst_def)
    then show ?thesis using pc by (simp add: matchPc_def)
  qed
qed simp

lemma accepts_threadOp: "accepts r inst pos \<Longrightarrow> threadOp (in_op inst)"
  by (cases "in_op inst") (auto simp: accepts_def instMatches_def threadOp_def)

text \<open>A run that is a thread at \<open>j\<close> was a thread at every earlier position since its start.\<close>

lemma creach_thread_at:
  "creach r code (0, i, u) (p, j, v) \<Longrightarrow> threadOp (in_op (code ! p)) \<Longrightarrow> i \<le> pos \<Longrightarrow> pos \<le> j \<Longrightarrow>
   \<exists>q w. creach r code (0, i, u) (q, pos, w) \<and> threadOp (in_op (code ! q))"
proof (induction j arbitrary: p v)
  case (Suc k)
  show ?case
  proof (cases "pos = Suc k")
    case False
    then have "Suc k \<noteq> i" using Suc.prems(3,4) by linarith
    then obtain q' v' where "creach r code (0, i, u) (q', k, v')" "accepts r (code ! q') k"
      using creach_last_read [OF Suc.prems(1)] by blast
    then show ?thesis using Suc.IH Suc.prems(3,4) False accepts_threadOp le_SucE by blast
  qed (use Suc.prems in blast)
qed blast

text \<open>
  \<open>tracks\<close>: every thread position that the runs from \<open>i\<close> are at, is held by a thread that
  began no later.
\<close>

definition tracks :: "RunArgs \<Rightarrow> rx \<Rightarrow> nat \<Rightarrow> nat \<Rightarrow> nat \<Rightarrow> (nat \<times> nat list) list \<Rightarrow> bool" where
  "tracks r t g i pos ths \<longleftrightarrow>
     (\<forall>p c. creach r (programCode t) (0, i, seedOf g) (p, pos, c) \<longrightarrow>
        threadOp (in_op (programCode t ! p)) \<longrightarrow> (\<exists>th\<in>set ths. fst th = p \<and> begun th \<le> i))"

lemma moved:
  assumes wf: "rxWf c g t" and "moves r (programCode t) pos [] pre news"
    and pre: "\<forall>th\<in>set pre. started r t g pos th" "sorted (map begun pre)"
    and inside: "\<forall>th\<in>set (concat news). threadOp (in_op (programCode t ! fst th)) \<and>
      fst th < length (programCode t)"
  shows "\<forall>th\<in>set (concat news). started r t g (Suc pos) th" and "sorted (map begun (concat news))"
    and "\<forall>th\<in>set (concat (take n news)). \<exists>th'\<in>set (take n pre). begun th = begun th'"
proof -
  let ?R = "\<lambda>th new. \<forall>y\<in>set new. started r t g (Suc pos) y \<and> begun y = begun th"
  have len: "length pre = length news"
    using assms(2) unfolding moves_def by (blast dest: list_all2_lengthD)
  have R: "?R (pre ! n) (news ! n)" if "n < length pre" for n
  proof
    fix y assume y: "y \<in> set (news ! n)"
    have "creach r (programCode t) (fst (pre ! n), pos, snd (pre ! n)) (fst y, Suc pos, snd y)"
      using assms(2) that y unfolding moves_def list_all2_conv_all_nth by fastforce
    moreover have "y \<in> set (concat news)" using y that len by (auto intro: nth_mem)
    moreover have "started r t g pos (pre ! n)" using pre(1) that by simp
    ultimately have "started r t g (Suc pos) (fst y, snd y) \<and> begun y = begun (pre ! n)"
      using inside started_next [OF wf] by blast
    then show "started r t g (Suc pos) y \<and> begun y = begun (pre ! n)" by simp
  qed
  then show "\<forall>th\<in>set (concat news). started r t g (Suc pos) th"
    using len by (simp add: set_concat) (metis in_set_conv_nth)
  have "list_all2 (\<lambda>x new. \<forall>y\<in>set new. begun y = begun x) pre news"
    using R len by (auto simp: list_all2_conv_all_nth)
  then show "sorted (map begun (concat news))" using pre(2) by (rule sorted_concat)
  show "\<forall>th\<in>set (concat (take n news)). \<exists>th'\<in>set (take n pre). begun th = begun th'"
  proof
    fix th assume "th \<in> set (concat (take n news))"
    then obtain new where "new \<in> set (take n news)" "th \<in> set new" by auto
    then obtain k where "k < length (take n news)" "take n news ! k = new"
      by (auto simp only: in_set_conv_nth)
    then have "k < length news" "k < n" "th \<in> set (news ! k)" using \<open>th \<in> set new\<close> by auto
    then show "\<exists>th'\<in>set (take n pre). begun th = begun th'"
      using R [of k] len nth_mem [of k "take n pre"] by (intro bexI [of _ "pre ! k"]) auto
  qed
qed

lemma tracks_next:
  assumes wf: "rxWf c g t" and moves: "moves r (programCode t) pos [] pre news"
    and pre: "\<forall>th\<in>set pre. started r t g pos th" "sorted (map begun pre)"
    and inside: "\<forall>th\<in>set (concat news). threadOp (in_op (programCode t ! fst th)) \<and>
      fst th < length (programCode t)"
    and tracks: "tracks r t g i pos ths" and i: "i \<le> pos"
    and all: "\<forall>th\<in>set ths. begun th \<le> i \<longrightarrow> th \<in> set pre"
  shows "tracks r t g i (Suc pos) (concat news)"
  unfolding tracks_def
proof (intro allI impI)
  let ?code = "programCode t"
  fix p d assume run: "creach r ?code (0, i, seedOf g) (p, Suc pos, d)"
    and p: "threadOp (in_op (?code ! p))"
  obtain q v where q: "creach r ?code (0, i, seedOf g) (q, pos, v)" "accepts r (?code ! q) pos"
      "epath r ?code (Suc pos) (Suc q) p"
    using creach_last_read [OF run] i by auto
  then obtain th where th: "th \<in> set ths" "fst th = q" "begun th \<le> i"
    using tracks accepts_threadOp unfolding tracks_def by blast
  define n where "n = length (takeWhile (\<lambda>th. begun th \<le> i) pre)"
  have take: "takeWhile (\<lambda>th. begun th \<le> i) pre = take n pre" unfolding n_def by (rule takeWhile_eq_take)
  have "th \<in> set (take n pre)"
    using sorted_takeWhile [OF pre(2), of th i] th all unfolding take by blast
  then have "p \<in> fst ` set (concat (take n news))"
    using moves q(2,3) th(2) creach_inside [OF wf run] p unfolding moves_def
    by (fastforce simp: case_prod_beta)
  then obtain y where y: "y \<in> set (concat (take n news))" "fst y = p" by blast
  then obtain th' where "th' \<in> set (take n pre)" "begun y = begun th'"
    using moved(3) [OF wf moves pre inside] by blast
  then have "begun y \<le> i" unfolding take [symmetric] by (auto dest: set_takeWhileD)
  moreover have "y \<in> set (concat news)" using y(1) by (auto dest: in_set_takeD)
  ultimately show "\<exists>th\<in>set (concat news). fst th = p \<and> begun th \<le> i" using y(2) by blast
qed

text \<open>What holds at the head of the loop.\<close>

definition headOk :: "RunArgs \<Rightarrow> rx \<Rightarrow> nat \<Rightarrow> nat \<Rightarrow> bool \<Rightarrow> RegexVm \<times> RegexList \<Rightarrow> bool" where
  "headOk r t g pos matched s \<longleftrightarrow>
     listOk (programCode t) s \<and> closedUpTo r (programCode t) pos {} (snd s) \<and>
     vm_capStride (fst s) = 2 * (g + 1) \<and> vm_seed (fst s) = seedOf g \<and>
     (\<forall>th\<in>set (threads s). started r t g pos th) \<and> sorted (map begun (threads s))"

definition foundOk :: "RunArgs \<Rightarrow> rx \<Rightarrow> nat \<Rightarrow> nat \<Rightarrow> bool \<Rightarrow> nat list \<Rightarrow> bool" where
  "foundOk r t g pos matched best \<longleftrightarrow>
     (matched \<longrightarrow> best ! 0 < pos \<and> (\<exists>j. accepting r t g (best ! 0) j best))"

text \<open>
  Towards the leftmost match: \<open>i\<close> is the least start of a match.  Either it has been found
  and nothing that began later is left, or its runs are still tracked.
\<close>

definition leastOk ::
    "RunArgs \<Rightarrow> rx \<Rightarrow> nat \<Rightarrow> nat \<Rightarrow> nat \<Rightarrow> bool \<Rightarrow> nat list \<Rightarrow> (nat \<times> nat list) list \<Rightarrow> bool" where
  "leastOk r t g i pos matched best ths \<longleftrightarrow>
     (matched \<and> best ! 0 = i \<and> (\<forall>th\<in>set ths. begun th \<le> i)) \<or>
     ((pos \<le> i \<longrightarrow> \<not> matched) \<and> (i < pos \<longrightarrow> tracks r t g i pos ths) \<and>
      (\<exists>j c. pos \<le> j \<and> accepting r t g i j c))"

lemma threads_inside:
  assumes "listOk code s" and "th \<in> set (threads s)"
  shows "fst th < length code" and "threadOp (in_op (code ! fst th))"
  using threads_fst [OF assms(1)] assms(2) by (metis (no_types, lifting) image_eqI mem_Collect_eq)+

lemma seedThread_head:
  assumes wf: "rxWf c g t" and head: "headOk r t g pos matched s"
  defines "s' \<equiv> seedThread r pos matched s"
  shows "headOk r t g pos matched s'" and "vm_best (fst s') = vm_best (fst s)"
    and "kept s s'" and "set (threads s) \<subseteq> set (threads s')"
    and "matched \<Longrightarrow> s' = s"
    and "\<not> matched \<Longrightarrow> startOk r pos \<Longrightarrow> tracks r t g pos pos (threads s')"
proof -
  let ?code = "programCode t"
  have same: "s' = s" if "\<not> (\<not> matched \<and> startOk r pos)"
    using that by (auto simp: s'_def seedThread_def startOk_def)
  have added: "s' = addThreadR r pos 0 (seedOf g) s" if "\<not> matched \<and> startOk r pos"
    using that head by (auto simp: s'_def seedThread_def startOk_def headOk_def)
  have closes: "closes r ?code pos (\<lambda>q d. creach r ?code (0, pos, seedOf g) (q, pos, d)) {0} s s'"
    if "\<not> matched \<and> startOk r pos"
    unfolding added [OF that]
    by (rule addThread_closes) (use head in \<open>auto simp: headOk_def seedOf_def\<close>)
  show "matched \<Longrightarrow> s' = s" using same by blast
  show "kept s s'" "vm_best (fst s') = vm_best (fst s)" "set (threads s) \<subseteq> set (threads s')"
    by (cases "\<not> matched \<and> startOk r pos", use closes same in \<open>auto simp: closes_def\<close>)+
  show "headOk r t g pos matched s'"
  proof (cases "\<not> matched \<and> startOk r pos")
    case True
    obtain new where new: "threads s' = threads s @ new"
        "\<forall>(p, c)\<in>set new. creach r ?code (0, pos, seedOf g) (p, pos, c)"
      using closes [OF True] unfolding closes_def by blast
    have ok: "listOk ?code s'" using closes [OF True] unfolding closes_def by blast
    have fresh: "started r t g pos th \<and> begun th = pos" if "th \<in> set new" for th
    proof -
      have "th \<in> set (threads s')" using that new(1) by simp
      then show ?thesis
        using startedI [OF wf, of r pos "fst th" pos "snd th"] new(2) that True
          threads_inside [OF ok, of th] by auto
    qed
    moreover have "\<forall>th\<in>set (threads s). begun th \<le> pos" "\<forall>th\<in>set (threads s). started r t g pos th"
      using head by (auto simp: headOk_def started_def)
    moreover have "map begun new = replicate (length new) pos"
      using fresh by (intro replicate_eqI) auto
    ultimately have "\<forall>th\<in>set (threads s'). started r t g pos th" "sorted (map begun (threads s'))"
      using head unfolding new(1) headOk_def by (auto simp: sorted_append)
    then show ?thesis
      using head closes [OF True] unfolding headOk_def closes_def kept_def by simp
  qed (use same head in auto)
  show "tracks r t g pos pos (threads s')" if "\<not> matched" "startOk r pos"
    unfolding tracks_def
  proof (intro allI impI)
    fix p d assume run: "creach r ?code (0, pos, seedOf g) (p, pos, d)"
      and p: "threadOp (in_op (?code ! p))"
    have path: "epath r ?code pos 0 p"
      using creach_last_read [OF run] creach_mono not_less_eq_eq by blast
    have *: "closedUpTo r ?code pos {} (snd s')" "ls_seen (snd s') 0" and ok: "listOk ?code s'"
      using closes that unfolding closes_def by auto
    have "ls_seen (snd s') p" by (rule closed_epath [OF *(1) path *(2)])
    moreover note ok
    ultimately have "p \<in> fst ` set (threads s')"
      using threads_fst [of ?code s'] creach_inside [OF wf run] p by blast
    moreover have "\<forall>th\<in>set (threads s'). begun th \<le> pos"
      using \<open>headOk r t g pos matched s'\<close> by (auto simp: headOk_def started_def)
    ultimately show "\<exists>th\<in>set (threads s'). fst th = p \<and> begun th \<le> pos" by force
  qed
qed

lemma rowsOf_threads: "rowsOf (fst s) (zip (ls_pc (snd s)) (ls_cap (snd s))) = threads s"
  by (simp add: rowsOf_def threads_def zip_map2 case_prod_beta)

lemma listOk_le: "listOk code s \<Longrightarrow> length (ls_pc (snd s)) \<le> length code"
proof -
  assume s: "listOk code s"
  then have "set (ls_pc (snd s)) \<subseteq> {..<length code}" by (auto simp: listOk_def)
  then have "card (set (ls_pc (snd s))) \<le> card {..<length code}" by (rule card_mono [rotated]) simp
  moreover have "distinct (ls_pc (snd s))" using s by (simp add: listOk_def)
  ultimately show ?thesis by (simp add: distinct_card)
qed

lemma emptyList_simps [simp]:
  "ls_pc (emptyList l) = []" "ls_cap (emptyList l) = []" "ls_seen (emptyList l) p = False"
  "ls_capBase (emptyList l) = ls_capBase l"
  by (simp_all add: emptyList_def)

text \<open>The two lists share the capture table: their halves are disjoint.\<close>

definition opposite :: "RegexInst list \<Rightarrow> RegexList \<Rightarrow> RegexList \<Rightarrow> bool" where
  "opposite code l1 l2 \<longleftrightarrow>
     (ls_capBase l1 = 0 \<and> ls_capBase l2 = length code) \<or>
     (ls_capBase l2 = 0 \<and> ls_capBase l1 = length code)"

lemma apart_opposite:
  assumes head: "headOk r t g pos matched (vm, cl)" and op: "opposite (programCode t) cl nl"
  shows "apart (programCode t) (vm, emptyList nl) (zip (ls_pc cl) (ls_cap cl))"
  unfolding apart_def
proof clarify
  fix p k assume pk: "(p, k) \<in> set (zip (ls_pc cl) (ls_cap cl))"
  have ok: "listOk (programCode t) (vm, cl)" using head by (simp add: headOk_def)
  note D = listOkD [OF ok]
  have "(p, vm_caps vm ! k) \<in> set (threads (vm, cl))"
    using pk unfolding rowsOf_threads [of "(vm, cl)", symmetric] rowsOf_def by force
  then have th: "started r t g pos (p, vm_caps vm ! k)" using head by (auto simp: headOk_def)
  then have "length (vm_caps vm ! k) = 2 * (g + 1)"
    using creach_length unfolding started_def by (fastforce simp: seedOf_def)
  moreover have "k \<in> set (ls_cap cl)" using pk by (rule set_zip_rightD)
  then have "ls_capBase cl \<le> k \<and> k < ls_capBase cl + length (programCode t)"
    using D(5) listOk_le [OF ok] by auto
  ultimately show "p < length (programCode t) \<and>
      length (vm_caps (fst (vm, emptyList nl)) ! k) = vm_capStride (fst (vm, emptyList nl)) \<and>
      (k < ls_capBase (snd (vm, emptyList nl)) \<or>
       ls_capBase (snd (vm, emptyList nl)) + vm_capRowCount (fst (vm, emptyList nl)) \<le> k)"
    using th head op D(2) by (auto simp: started_def headOk_def opposite_def)
qed

lemma emptyList_ok:
  assumes "listOk code (vm, cl)" and "opposite code cl nl"
  shows "listOk code (vm, emptyList nl)" and "closedUpTo r code pos {} (emptyList nl)"
    and "threads (vm, emptyList nl) = []"
  using listOkD(1-3) [OF assms(1)] assms(2)
  by (auto simp: listOk_def opposite_def closedUpTo_def threads_def)

text \<open>What the pass over the threads of one position leaves, in one statement.\<close>

lemma pass_step:
  assumes wf: "rxWf c g t" and head: "headOk r t g pos matched (vm, cl)"
    and op: "opposite (programCode t) cl nl"
  defines "out \<equiv> stepThreads r pos (zip (ls_pc cl) (ls_cap cl)) matched (vm, emptyList nl)"
  defines "pre \<equiv> takeWhile (\<lambda>th. \<not> hits r (programCode t) pos th) (threads (vm, cl))"
  obtains news where "headOk r t g (Suc pos) (fst out) (snd out)"
    and "threads (snd out) = concat news" and "moves r (programCode t) pos [] pre news"
    and "opposite (programCode t) (snd (snd out)) cl"
    and "outcome (dropWhile (\<lambda>th. \<not> hits r (programCode t) pos th) (threads (vm, cl)))
      matched (vm_best vm) (fst out) (vm_best (fst (snd out)))"
proof -
  let ?code = "programCode t"
  let ?s = "(vm, emptyList nl)"
  have ok: "listOk ?code (vm, cl)" using head by (simp add: headOk_def)
  note empty = emptyList_ok [OF ok op]
  have rows: "rowsOf vm (zip (ls_pc cl) (ls_cap cl)) = threads (vm, cl)"
    using rowsOf_threads [of "(vm, cl)"] by simp
  have "passes r ?code pos (threads (vm, cl)) matched ?s out"
    using stepThreads_passes [OF empty(1) _ apart_opposite [OF head op], of r pos matched] empty(2)
    unfolding out_def by (simp add: rows)
  then have o: "listOk ?code (snd out)" "kept ?s (snd out)"
      "closedUpTo r ?code (Suc pos) {} (snd (snd out))"
      "outcome (dropWhile (\<lambda>th. \<not> hits r ?code pos th) (threads (vm, cl)))
        matched (vm_best vm) (fst out) (vm_best (fst (snd out)))"
    and "\<exists>news. threads (snd out) = concat news \<and> moves r ?code pos [] pre news"
    unfolding passes_def pre_def empty(3) by simp_all
  then obtain news where news: "threads (snd out) = concat news" "moves r ?code pos [] pre news"
    by blast
  have pre: "\<forall>th\<in>set pre. started r t g pos th" "sorted (map begun pre)"
    using head by (auto simp: headOk_def pre_def sorted_mapWhile dest: set_takeWhileD)
  have inside: "\<forall>th\<in>set (concat news). threadOp (in_op (?code ! fst th)) \<and> fst th < length ?code"
    using threads_inside [OF o(1)] unfolding news(1) by blast
  note moved = moved [OF wf news(2) pre inside]
  have "headOk r t g (Suc pos) (fst out) (snd out)"
    using o(1-3) moved(1,2) head news(1) by (simp add: headOk_def kept_def)
  moreover have "opposite ?code (snd (snd out)) cl"
    using o(2) op by (auto simp: kept_def opposite_def)
  ultimately show thesis using that news o(4) by blast
qed

section \<open>The match that is found\<close>

lemma hit_accepting:
  assumes "rxWf c g t" and "started r t g pos th" and "hits r (programCode t) pos th"
  shows "accepting r t g (begun th) pos (snd th)"
proof -
  have "fst th = matchPc t"
    using assms programCode_match [OF assms(1), of "fst th"] by (simp add: hits_def started_def)
  then show ?thesis using assms(2,3) by (simp add: accepting_def started_def hits_def)
qed

lemma match_hits:
  assumes "rxWf c g t" and "fst th = matchPc t" and "okEnd r pos"
  shows "hits r (programCode t) pos th"
  using assms programCode_nth(4) [of t] by (simp add: hits_def mkInst_def)

lemma found_next:
  assumes wf: "rxWf c g t" and head: "headOk r t g pos matched s"
    and found: "foundOk r t g pos matched best"
    and out: "outcome (dropWhile (\<lambda>th. \<not> hits r (programCode t) pos th) (threads s))
      matched best m' best'"
  shows "foundOk r t g (Suc pos) m' best'"
proof (cases "dropWhile (\<lambda>th. \<not> hits r (programCode t) pos th) (threads s)")
  case Nil
  then show ?thesis using found out unfolding Nil by (auto simp: outcome_def foundOk_def)
next
  case (Cons th rest)
  have "th \<in> set (threads s)" using Cons by (metis list.set_intros(1) set_dropWhileD)
  moreover have "hits r (programCode t) pos th" using Cons by (metis dropWhile_eq_Cons_conv)
  ultimately have "accepting r t g (begun th) pos (snd th)" "begun th \<le> pos"
    using hit_accepting [OF wf] head by (auto simp: headOk_def started_def)
  then show ?thesis using out unfolding Cons by (auto simp: outcome_def foundOk_def)
qed

text \<open>The same disjunction between the seeding and the pass.\<close>

definition seededOk ::
    "RunArgs \<Rightarrow> rx \<Rightarrow> nat \<Rightarrow> nat \<Rightarrow> nat \<Rightarrow> bool \<Rightarrow> nat list \<Rightarrow> (nat \<times> nat list) list \<Rightarrow> bool" where
  "seededOk r t g i pos matched best ths \<longleftrightarrow>
     (matched \<and> best ! 0 = i \<and> (\<forall>th\<in>set ths. begun th \<le> i)) \<or>
     ((pos < i \<longrightarrow> \<not> matched) \<and> (i \<le> pos \<longrightarrow> tracks r t g i pos ths) \<and>
      (\<exists>j c. pos \<le> j \<and> accepting r t g i j c))"

lemma tracks_mono: "tracks r t g i pos ths \<Longrightarrow> set ths \<subseteq> set ths' \<Longrightarrow> tracks r t g i pos ths'"
  unfolding tracks_def by blast

lemma least_seeded:
  assumes wf: "rxWf c g t" and head: "headOk r t g pos matched s"
    and least: "leastOk r t g i pos matched (vm_best (fst s)) (threads s)"
  shows "seededOk r t g i pos matched (vm_best (fst (seedThread r pos matched s)))
    (threads (seedThread r pos matched s))"
proof -
  note seed = seedThread_head [OF wf head]
  from least show ?thesis unfolding leastOk_def
  proof
    assume "matched \<and> vm_best (fst s) ! 0 = i \<and> (\<forall>th\<in>set (threads s). begun th \<le> i)"
    then show ?thesis using seed(5) by (simp add: seededOk_def)
  next
    assume *: "(pos \<le> i \<longrightarrow> \<not> matched) \<and> (i < pos \<longrightarrow> tracks r t g i pos (threads s)) \<and>
      (\<exists>j c. pos \<le> j \<and> accepting r t g i j c)"
    have "tracks r t g i pos (threads (seedThread r pos matched s))" if "i \<le> pos"
    proof (cases "i = pos")
      case True
      then show ?thesis using * seed(6) by (auto simp: accepting_def)
    next
      case False
      then show ?thesis using * that tracks_mono seed(4) by auto
    qed
    then show ?thesis using * unfolding seededOk_def by auto
  qed
qed

lemma least_next:
  assumes wf: "rxWf c g t" and head: "headOk r t g pos matched s"
    and least: "\<And>i' j c. accepting r t g i' j c \<Longrightarrow> i \<le> i'"
    and seeded: "seededOk r t g i pos matched best (threads s)"
    and next_head: "headOk r t g (Suc pos) m' s'" and threads: "threads s' = concat news"
    and moves: "moves r (programCode t) pos []
      (takeWhile (\<lambda>th. \<not> hits r (programCode t) pos th) (threads s)) news"
    and out: "outcome (dropWhile (\<lambda>th. \<not> hits r (programCode t) pos th) (threads s))
      matched best m' best'"
  shows "leastOk r t g i (Suc pos) m' best' (threads s')"
proof -
  let ?hit = "hits r (programCode t) pos"
  let ?pre = "takeWhile (\<lambda>th. \<not> ?hit th) (threads s)"
  let ?rest = "dropWhile (\<lambda>th. \<not> ?hit th) (threads s)"
  have started: "\<forall>th\<in>set (threads s). started r t g pos th" and sorted: "sorted (map begun (threads s))"
    using head by (auto simp: headOk_def)
  have pre: "\<forall>th\<in>set ?pre. started r t g pos th" "sorted (map begun ?pre)"
    using started sorted by (auto simp: sorted_mapWhile dest: set_takeWhileD)
  have inside: "\<forall>th\<in>set (concat news). threadOp (in_op (programCode t ! fst th)) \<and>
      fst th < length (programCode t)"
    using next_head unfolding threads [symmetric] by (simp add: headOk_def started_def)
  have ordered: "sorted (map begun ?pre @ map begun ?rest)"
    by (metis map_append sorted takeWhile_dropWhile_id)
  have before: "begun th \<le> begun th'" if "th \<in> set ?pre" "th' \<in> set ?rest" for th th'
    using ordered that by (auto simp: sorted_append)
  have sources: "\<exists>th'\<in>set ?pre. begun th = begun th'" if "th \<in> set (concat news)" for th
    using moved(3) [OF wf moves pre inside, of "length news"] that in_set_takeD by fastforce
  have at_i: "begun (hd ?rest) \<ge> i \<and> m' \<and> best' = snd (hd ?rest) \<and>
      accepting r t g (begun (hd ?rest)) pos (snd (hd ?rest))" if "?rest \<noteq> []"
  proof -
    have "hd ?rest \<in> set (threads s)" using that by (metis hd_in_set set_dropWhileD)
    moreover have "?hit (hd ?rest)" using hd_dropWhile [OF that] by blast
    ultimately have "accepting r t g (begun (hd ?rest)) pos (snd (hd ?rest))"
      using hit_accepting [OF wf] started by blast
    then show ?thesis using least out that by (cases ?rest) (auto simp: outcome_def)
  qed
  from seeded show ?thesis unfolding seededOk_def
  proof
    assume A: "matched \<and> best ! 0 = i \<and> (\<forall>th\<in>set (threads s). begun th \<le> i)"
    have "m' \<and> best' ! 0 = i"
    proof (cases "?rest = []")
      case True
      then show ?thesis using out A unfolding True by (simp add: outcome_def)
    next
      case False
      then have "hd ?rest \<in> set (threads s)" by (metis hd_in_set set_dropWhileD)
      then show ?thesis using at_i [OF False] A by auto
    qed
    moreover have "\<forall>th\<in>set (threads s'). begun th \<le> i"
      using sources A threads by (metis set_takeWhileD)
    ultimately show ?thesis by (simp add: leastOk_def)
  next
    assume B: "(pos < i \<longrightarrow> \<not> matched) \<and> (i \<le> pos \<longrightarrow> tracks r t g i pos (threads s)) \<and>
      (\<exists>j c. pos \<le> j \<and> accepting r t g i j c)"
    then obtain j c' where j: "pos \<le> j" "accepting r t g i j c'" by blast
    show ?thesis
    proof (cases "?rest \<noteq> [] \<and> begun (hd ?rest) = i")
      case True
      then have "\<forall>th\<in>set (threads s'). begun th \<le> i"
        using sources before threads by (metis hd_in_set)
      then show ?thesis using at_i True by (auto simp: leastOk_def)
    next
      case False
      have low: "th \<in> set ?pre" if "th \<in> set (threads s)" "begun th \<le> i" for th
      proof (rule ccontr)
        assume "th \<notin> set ?pre"
        then have rest: "th \<in> set ?rest"
          using that(1) by (metis Un_iff set_append takeWhile_dropWhile_id)
        then have "begun (hd ?rest) \<le> begun th"
          using ordered by (cases ?rest) (auto simp: sorted_append)
        then show False using rest at_i False that(2) by (cases ?rest) auto
      qed
      have "j \<noteq> pos"
      proof
        assume "j = pos"
        then have "i \<le> pos" using j(2) creach_mono by (auto simp: accepting_def)
        then obtain th where th: "th \<in> set (threads s)" "fst th = matchPc t" "begun th \<le> i"
          using B j(2) \<open>j = pos\<close> programCode_nth(4) [of t]
          by (fastforce simp: tracks_def accepting_def threadOp_def mkInst_def)
        have "\<not> ?hit th" using set_takeWhileD [OF low [OF th(1,3)]] by blast
        moreover have "okEnd r pos" using j(2) \<open>j = pos\<close> by (simp add: accepting_def)
        ultimately show False using match_hits [OF wf th(2)] by blast
      qed
      then have "\<exists>j c. Suc pos \<le> j \<and> accepting r t g i j c" using j by (metis Suc_leI le_neq_implies_less)
      moreover have "tracks r t g i (Suc pos) (threads s')" if "i < Suc pos"
        unfolding threads
        by (rule tracks_next [OF wf moves pre inside, of i "threads s"]) (use B that low in auto)
      moreover have "\<not> m'" if "Suc pos \<le> i"
      proof (cases "?rest = []")
        case True
        then show ?thesis using out B that unfolding True by (simp add: outcome_def)
      next
        case rest: False
        then have "hd ?rest \<in> set (threads s)" by (metis hd_in_set set_dropWhileD)
        then have "begun (hd ?rest) \<le> pos" using started by (auto simp: started_def)
        then show ?thesis using at_i [OF rest] that by simp
      qed
      ultimately show ?thesis by (simp add: leastOk_def)
    qed
  qed
qed

section \<open>What the run returns\<close>

text \<open>The result is right: a reported match is one, and the leftmost one is reported.\<close>

definition resultOk :: "RunArgs \<Rightarrow> rx \<Rightarrow> nat \<Rightarrow> bool \<times> RegexVm \<Rightarrow> bool" where
  "resultOk r t g out \<longleftrightarrow>
     vm_capStride (snd out) = 2 * (g + 1) \<and>
     (fst out \<longrightarrow> (\<exists>j. accepting r t g (vm_best (snd out) ! 0) j (vm_best (snd out)))) \<and>
     (\<forall>i. (\<forall>i' j c. accepting r t g i' j c \<longrightarrow> i \<le> i') \<longrightarrow> (\<exists>j c. accepting r t g i j c) \<longrightarrow>
        fst out \<and> vm_best (snd out) ! 0 = i)"

definition leastAll ::
    "RunArgs \<Rightarrow> rx \<Rightarrow> nat \<Rightarrow> nat \<Rightarrow> bool \<Rightarrow> nat list \<Rightarrow> (nat \<times> nat list) list \<Rightarrow> bool" where
  "leastAll r t g pos matched best ths \<longleftrightarrow>
     (\<forall>i. (\<forall>i' j c. accepting r t g i' j c \<longrightarrow> i \<le> i') \<longrightarrow> (\<exists>j c. accepting r t g i j c) \<longrightarrow>
        leastOk r t g i pos matched best ths)"

lemma result_early:
  assumes wf: "rxWf c g t" and found: "foundOk r t g pos True (vm_best vm)"
    and least: "leastAll r t g pos True (vm_best vm) []" and "vm_capStride vm = 2 * (g + 1)"
  shows "resultOk r t g (True, vm)"
proof -
  have "vm_best vm ! 0 = i"
    if i: "\<forall>i' j c. accepting r t g i' j c \<longrightarrow> i \<le> i'" "\<exists>j c. accepting r t g i j c" for i
  proof (rule ccontr)
    assume "vm_best vm ! 0 \<noteq> i"
    then have "i < pos" "tracks r t g i pos []" "\<exists>j c. pos \<le> j \<and> accepting r t g i j c"
      using least i by (auto simp: leastAll_def leastOk_def not_le)
    then obtain j d where "pos \<le> j" "creach r (programCode t) (0, i, seedOf g) (matchPc t, j, d)"
      by (auto simp: accepting_def)
    moreover have "threadOp (in_op (programCode t ! matchPc t))"
      unfolding programCode_nth(4) by (simp add: threadOp_def mkInst_def)
    ultimately obtain q w where "creach r (programCode t) (0, i, seedOf g) (q, pos, w)"
        "threadOp (in_op (programCode t ! q))"
      using creach_thread_at \<open>i < pos\<close> less_imp_le by blast
    then show False using \<open>tracks r t g i pos []\<close> by (auto simp: tracks_def)
  qed
  then show ?thesis using found assms(4) by (auto simp: resultOk_def foundOk_def)
qed

lemma result_late:
  assumes "foundOk r t g (Suc pos) m (vm_best vm)" and "ra_length r \<le> pos"
    and least: "leastAll r t g (Suc pos) m (vm_best vm) ths" and "vm_capStride vm = 2 * (g + 1)"
  shows "resultOk r t g (m, vm)"
proof -
  have "m \<and> vm_best vm ! 0 = i"
    if i: "\<forall>i' j c. accepting r t g i' j c \<longrightarrow> i \<le> i'" "\<exists>j c. accepting r t g i j c" for i
  proof (rule ccontr)
    assume "\<not> (m \<and> vm_best vm ! 0 = i)"
    moreover have "leastOk r t g i (Suc pos) m (vm_best vm) ths"
      using least i by (simp add: leastAll_def)
    ultimately obtain j d where "Suc pos \<le> j" "accepting r t g i j d"
      unfolding leastOk_def by blast
    then have "j \<le> ra_length r" using creach_bound by (auto simp: accepting_def startOk_def)
    then show False using \<open>Suc pos \<le> j\<close> assms(2) by simp
  qed
  then show ?thesis using assms(1,4) by (auto simp: resultOk_def foundOk_def)
qed

lemma runLoop_correct:
  assumes wf: "rxWf c g t"
  shows "headOk r t g pos matched (vm, cl) \<Longrightarrow> opposite (programCode t) cl nl \<Longrightarrow>
   foundOk r t g pos matched (vm_best vm) \<Longrightarrow>
   leastAll r t g pos matched (vm_best vm) (threads (vm, cl)) \<Longrightarrow>
   resultOk r t g (runLoop r pos matched vm cl nl)"
proof (induction "ra_length r - pos" arbitrary: pos matched vm cl nl rule: less_induct)
  case less
  show ?case
  proof (cases "ls_pc cl = [] \<and> matched")
    case True
    then have "threads (vm, cl) = []" by (simp add: threads_def)
    then show ?thesis
      using True result_early [OF wf, of r pos vm] less.prems(1,3,4)
      by (simp add: runLoop.simps headOk_def)
  next
    case False
    obtain vm1 cl1 where s1: "seedThread r pos matched (vm, cl) = (vm1, cl1)" by fastforce
    define out where "out = stepThreads r pos (zip (ls_pc cl1) (ls_cap cl1)) matched (vm1, emptyList nl)"
    obtain m2 vm2 nl2 where o: "out = (m2, vm2, nl2)" by (metis prod_cases3)
    have run: "runLoop r pos matched vm cl nl =
        (if ra_length r \<le> pos then (m2, vm2) else runLoop r (Suc pos) m2 vm2 nl2 cl1)"
      using s1 o unfolding runLoop.simps [of r pos] if_not_P [OF False] by (simp add: out_def)
    note seed = seedThread_head [OF wf less.prems(1), unfolded s1]
    have op: "opposite (programCode t) cl1 nl"
      using less.prems(2) seed(3) by (simp add: opposite_def kept_def)
    obtain news where news: "headOk r t g (Suc pos) (fst out) (snd out)" "threads (snd out) = concat news"
        "moves r (programCode t) pos []
          (takeWhile (\<lambda>th. \<not> hits r (programCode t) pos th) (threads (vm1, cl1))) news"
        "opposite (programCode t) (snd (snd out)) cl1"
        "outcome (dropWhile (\<lambda>th. \<not> hits r (programCode t) pos th) (threads (vm1, cl1)))
          matched (vm_best vm1) (fst out) (vm_best (fst (snd out)))"
      using pass_step [OF wf seed(1) op] unfolding out_def by blast
    have best: "vm_best vm1 = vm_best vm" using seed(2) by simp
    have found: "foundOk r t g (Suc pos) m2 (vm_best vm2)"
      using found_next [OF wf seed(1), of best "fst out" "vm_best (fst (snd out))" for best]
        less.prems(3) news(5) unfolding o best by auto
    have least: "leastAll r t g (Suc pos) m2 (vm_best vm2) (threads (vm2, nl2))"
      unfolding leastAll_def
    proof (intro allI impI)
      fix i assume i: "\<forall>i' j c. accepting r t g i' j c \<longrightarrow> i \<le> i'" "\<exists>j c. accepting r t g i j c"
      have "leastOk r t g i pos matched (vm_best (fst (vm, cl))) (threads (vm, cl))"
        using less.prems(4) i by (simp add: leastAll_def)
      note seeded = least_seeded [OF wf less.prems(1) this, unfolded s1 fst_conv]
      show "leastOk r t g i (Suc pos) m2 (vm_best vm2) (threads (vm2, nl2))"
        using least_next [OF wf seed(1) _ seeded news(1,2,3,5)] i(1) unfolding o by auto
    qed
    show ?thesis
    proof (cases "ra_length r \<le> pos")
      case True
      then show ?thesis using run result_late [OF found _ least] news(1) by (simp add: headOk_def o)
    next
      case False
      have "resultOk r t g (runLoop r (Suc pos) m2 vm2 nl2 cl1)"
        by (rule less.hyps) (use False news(1,4) found least in \<open>auto simp: o\<close>)
      then show ?thesis using run False by simp
    qed
  qed
qed

text \<open>A machine as the constructor leaves it.\<close>

definition vmReady :: "rx \<Rightarrow> nat \<Rightarrow> RegexVm \<Rightarrow> bool" where
  "vmReady t g vm \<longleftrightarrow>
     pr_insts (vm_program vm) = programCode t \<and> vm_capRowCount vm = length (programCode t) \<and>
     length (vm_caps vm) = 2 * length (programCode t) \<and> vm_capStride vm = 2 * (g + 1) \<and>
     vm_seed vm = seedOf g"

theorem runVm_correct:
  assumes wf: "rxWf c g t" and vm: "vmReady t g vm"
  shows "resultOk r t g (runVm r vm)"
  unfolding runVm_def
proof (rule runLoop_correct [OF wf])
  let ?l = "\<lambda>b. \<lparr>ls_pc = [], ls_cap = [], ls_seen = (\<lambda>_. False), ls_capBase = b\<rparr>"
  have none: "threads (vm, ?l 0) = []" by (simp add: threads_def)
  show "headOk r t g 0 False (vm, ?l 0)"
    using vm none by (simp add: headOk_def vmReady_def listOk_def closedUpTo_def)
  show "opposite (programCode t) (?l 0) (?l (vm_capRowCount vm))"
    using vm by (simp add: opposite_def vmReady_def)
  show "foundOk r t g 0 False (vm_best vm)" by (simp add: foundOk_def)
  show "leastAll r t g 0 False (vm_best vm) (threads (vm, ?l 0))"
    by (simp add: leastAll_def leastOk_def)
qed

text \<open>So the flag says whether there is a match at all.\<close>

corollary runVm_matches:
  assumes "rxWf c g t" and "vmReady t g vm"
  shows "fst (runVm r vm) \<longleftrightarrow> (\<exists>i j c. accepting r t g i j c)"
proof
  assume "\<exists>i j c. accepting r t g i j c"
  then obtain j0 where "\<exists>j c. accepting r t g j0 j c" by blast
  then have "\<exists>j c. accepting r t g (LEAST i. \<exists>j c. accepting r t g i j c) j c"
    by (rule LeastI [where P = "\<lambda>i. \<exists>j c. accepting r t g i j c"])
  moreover have "\<forall>i' j c. accepting r t g i' j c \<longrightarrow> (LEAST i. \<exists>j c. accepting r t g i j c) \<le> i'"
    by (auto intro: Least_le)
  ultimately show "fst (runVm r vm)"
    using runVm_correct [OF assms, of r] unfolding resultOk_def by blast
next
  assume "fst (runVm r vm)"
  then show "\<exists>i j c. accepting r t g i j c"
    using runVm_correct [OF assms, of r] unfolding resultOk_def by blast
qed

end
