(* ===== verification/Regex.thy ===== *)
theory Regex
  imports Regex_Leftmost
begin

text \<open>
  The public class of \<open>src/regex/regex.c\<close>: compile once, search, report spans, print.  A C
  string argument is the list of its bytes before the NUL, a pointer that may be null an
  option.  The lemmas compose the parser, the emitter and the simulator: what is searched is
  the pattern's syntax tree, and what is found is a pair of its denotation.
\<close>

record Regex =
  rg_pattern :: "u8 list"
  rg_flags :: u32
  rg_groupCount :: nat
  rg_program :: RegexProgram
  rg_classes :: "RegexCharClass list"

definition REGEX_DEFAULT :: u32 where "REGEX_DEFAULT = 0"
definition REGEX_CASE_INSENSITIVE :: u32 where "REGEX_CASE_INSENSITIVE = 1"
definition REGEX_DOTALL :: u32 where "REGEX_DOTALL = 2"
definition REGEX_MULTILINE :: u32 where "REGEX_MULTILINE = 4"

text \<open>What the code throws.\<close>

datatype RegexError =
    NullPattern | OutOfMemory | PatternError "u8 list" string | ProgramTooLarge "u8 list"

section \<open>Compilation\<close>

definition regexOptions :: "u32 \<Rightarrow> RegexOptions" where
  "regexOptions flags =
     \<lparr>op_ignoreCase = flags AND REGEX_CASE_INSENSITIVE \<noteq> 0,
      op_dotall = flags AND REGEX_DOTALL \<noteq> 0,
      op_multiline = flags AND REGEX_MULTILINE \<noteq> 0\<rparr>"

definition compileError :: "u8 list \<Rightarrow> RegexParser \<Rightarrow> RegexError" where
  "compileError pattern p =
     (case RegexParser_error p of
        Some e \<Rightarrow> PatternError pattern e
      | None \<Rightarrow> ProgramTooLarge pattern)"

definition compilePattern :: "arena \<Rightarrow> Regex \<Rightarrow> u8 list \<Rightarrow> ((RegexError + Regex) \<times> arena) option" where
  "compilePattern m regex pattern =
     (case RegexParser_parse
         (RegexParser_3 m pattern (rg_flags regex AND REGEX_CASE_INSENSITIVE \<noteq> 0)) of
        None \<Rightarrow> None
      | Some (root, p1) \<Rightarrow>
          if root \<noteq> None \<and> RegexParser_ok p1 then
            (case RegexProgram_build (rg_program regex, ps_arena p1) (RegexParser_nodes p1)
                (the root) of
               None \<Rightarrow> None
             | Some (ok, (program, m2)) \<Rightarrow>
                 if ok then
                   Some (Inr (regex\<lparr>rg_groupCount := RegexParser_groupCount p1,
                                    rg_program := program,
                                    rg_classes := fst (RegexParser_releaseClasses p1)\<rparr>), m2)
                 else Some (Inl (compileError pattern p1), m2))
          else Some (Inl (compileError pattern p1), ps_arena p1))"

definition Regex_2 :: "arena \<Rightarrow> u8 list option \<Rightarrow> u32 \<Rightarrow> ((RegexError + Regex) \<times> arena) option" where
  "Regex_2 m pattern flags =
     (case pattern of
        None \<Rightarrow> Some (Inl NullPattern, m)
      | Some pat \<Rightarrow>
          let (gotRegex, m1) = Memory_alloc m
          in if \<not> gotRegex then Some (Inl OutOfMemory, m1)
             else
               let (gotPattern, m2) = Memory_alloc m1
               in if \<not> gotPattern then Some (Inl OutOfMemory, m2)
                  else compilePattern m2
                    \<lparr>rg_pattern = pat, rg_flags = flags, rg_groupCount = 0,
                     rg_program = RegexProgram_0, rg_classes = []\<rparr> pat)"

definition Regex_1 :: "arena \<Rightarrow> u8 list option \<Rightarrow> ((RegexError + Regex) \<times> arena) option" where
  "Regex_1 m pattern = Regex_2 m pattern REGEX_DEFAULT"

section \<open>Queries\<close>

definition Regex_pattern :: "Regex option \<Rightarrow> u8 list" where
  "Regex_pattern regex = (case regex of None \<Rightarrow> [] | Some r \<Rightarrow> rg_pattern r)"

definition Regex_flags :: "Regex option \<Rightarrow> u32" where
  "Regex_flags regex = (case regex of None \<Rightarrow> 0 | Some r \<Rightarrow> rg_flags r)"

definition Regex_groupCount :: "Regex option \<Rightarrow> nat" where
  "Regex_groupCount regex = (case regex of None \<Rightarrow> 0 | Some r \<Rightarrow> rg_groupCount r)"

definition Regex_instCount :: "Regex option \<Rightarrow> nat" where
  "Regex_instCount regex = (case regex of None \<Rightarrow> 0 | Some r \<Rightarrow> RegexProgram_count (rg_program r))"

definition Regex_classCount :: "Regex option \<Rightarrow> nat" where
  "Regex_classCount regex = (case regex of None \<Rightarrow> 0 | Some r \<Rightarrow> length (rg_classes r))"

section \<open>Search\<close>

text \<open>
  What a search writes: the spans of the caller's array that were filled, the group count,
  and whether the array was too short.
\<close>

record SearchOut =
  so_hit :: bool
  so_spans :: "RegexSpan list"
  so_groups :: "nat option"
  so_truncated :: bool

definition noSearch :: SearchOut where
  "noSearch = \<lparr>so_hit = False, so_spans = [], so_groups = None, so_truncated = False\<rparr>"

definition runSearch ::
    "arena \<Rightarrow> Regex option \<Rightarrow> u8 list option \<Rightarrow> bool \<Rightarrow> nat option \<Rightarrow> SearchOut \<times> arena" where
  "runSearch m regex subject anchored spanCapacity =
     (case (regex, subject) of
        (Some rg, Some s) \<Rightarrow>
          (case RegexVm_2 m (rg_program rg) (rg_groupCount rg) of
             (None, m1) \<Rightarrow> (noSearch, m1)
           | (Some vm, m1) \<Rightarrow>
               let options = regexOptions (rg_flags rg);
                   (hit, vm1) =
                     (if anchored then RegexVm_runFull vm (rg_classes rg) s options
                      else RegexVm_run vm (rg_classes rg) s False options);
                   groups = rg_groupCount rg + 1
               in (\<lparr>so_hit = hit,
                    so_spans =
                      (case spanCapacity of
                         Some cap \<Rightarrow>
                           if hit then map (RegexVm_span vm1)
                             [0..<if groups < cap then groups else cap]
                           else []
                       | None \<Rightarrow> []),
                    so_groups = (if hit then Some groups else None),
                    so_truncated =
                      (case spanCapacity of Some cap \<Rightarrow> hit \<and> groups > cap | None \<Rightarrow> False)\<rparr>, m1))
      | _ \<Rightarrow> (noSearch, m))"

definition Regex_isMatch :: "arena \<Rightarrow> Regex option \<Rightarrow> u8 list option \<Rightarrow> bool \<times> arena" where
  "Regex_isMatch m regex subject =
     (let (out, m1) = runSearch m regex subject False (Some 1) in (so_hit out, m1))"

text \<open>The span the caller's variable holds afterwards: written only by a hit.\<close>

definition firstSpan :: "SearchOut \<Rightarrow> RegexSpan" where
  "firstSpan out = (case so_spans out of [] \<Rightarrow> RegexSpan_none | span # _ \<Rightarrow> span)"

definition Regex_isFullMatch :: "arena \<Rightarrow> Regex option \<Rightarrow> u8 list option \<Rightarrow> bool \<times> arena" where
  "Regex_isFullMatch m regex subject =
     (let (out, m1) = runSearch m regex subject True (Some 1); whole = firstSpan out
      in (case subject of
            None \<Rightarrow> False
          | Some s \<Rightarrow> so_hit out \<and> span_start whole = 0 \<and> span_end whole = length s, m1))"

text \<open>\<open>None\<close> is \<open>false\<close>, \<open>Some\<close> the span stored through a non-null \<open>outMatch\<close>.\<close>

definition Regex_find ::
    "arena \<Rightarrow> Regex option \<Rightarrow> u8 list option \<Rightarrow> bool \<Rightarrow> RegexSpan option \<times> arena" where
  "Regex_find m regex subject outMatch =
     (if \<not> outMatch then (None, m)
      else let (out, m1) = runSearch m regex subject False (Some 1)
           in (if so_hit out then Some (firstSpan out) else None, m1))"

definition Regex_findGroups ::
    "arena \<Rightarrow> Regex option \<Rightarrow> u8 list option \<Rightarrow> nat option \<Rightarrow> SearchOut \<times> arena" where
  "Regex_findGroups m regex subject outSpans =
     (if outSpans = None then (noSearch, m) else runSearch m regex subject False outSpans)"

section \<open>Compilation delivers the code of the tree\<close>

text \<open>The tree the pattern parses to under the allocator's answers.\<close>

definition parsedTree :: "arena \<Rightarrow> u8 list \<Rightarrow> bool \<Rightarrow> rx option" where
  "parsedTree m pattern ignoreCase =
     (case RegexParser_parse (RegexParser_3 m pattern ignoreCase) of
        Some (Some root, p1) \<Rightarrow> treeAt (nl_nodes (ps_nodes p1)) root
      | _ \<Rightarrow> None)"

text \<open>The tree of a call of \<open>Regex_2\<close>: two requests come before the parser's.\<close>

definition patternTree :: "arena \<Rightarrow> u8 list \<Rightarrow> u32 \<Rightarrow> rx option" where
  "patternTree m pattern flags =
     parsedTree (snd (Memory_alloc (snd (Memory_alloc m)))) pattern
       (flags AND REGEX_CASE_INSENSITIVE \<noteq> 0)"

definition compiledAs :: "rx \<Rightarrow> Regex \<Rightarrow> bool" where
  "compiledAs t regex \<longleftrightarrow>
     pr_insts (rg_program regex) = programCode t \<and> length (programCode t) \<le> REGEX_MAX_PROGRAM \<and>
     rxWf (length (rg_classes regex)) (rg_groupCount regex) t \<and>
     list_all classWf (rg_classes regex)"

lemma parse_tree:
  assumes "RegexParser_parse (RegexParser_3 m pat ic) = Some (Some root, p1)"
  obtains t where "treeAt (nl_nodes (ps_nodes p1)) root = Some t"
    and "rxWf (length (ps_classes p1)) (ps_groupCount p1) t" and "list_all classWf (ps_classes p1)"
proof -
  have d: "parserWf p1" "root < nl_count (ps_nodes p1)"
    using RegexParser_parse_delivers [OF assms] by (auto simp: delivers_def)
  then have tree: "treeWf (nl_nodes (ps_nodes p1)) (length (ps_classes p1)) (ps_groupCount p1)"
    and classes: "list_all classWf (ps_classes p1)"
    by (auto simp: parserWf_def)
  have "treeAt (nl_nodes (ps_nodes p1)) root \<noteq> None"
    unfolding treeAt_def by (rule nodeTree_defined [OF tree]) (use d in \<open>auto simp: nl_count_def\<close>)
  then obtain t where "treeAt (nl_nodes (ps_nodes p1)) root = Some t" by blast
  moreover from this have "rxWf (length (ps_classes p1)) (ps_groupCount p1) t"
    unfolding treeAt_def by (rule nodeTree_wf [OF tree])
  ultimately show thesis using that classes by blast
qed

lemma build_yields:
  assumes "treeAt (nl_nodes nodes) root = Some t"
  shows "\<exists>ok program m2. RegexProgram_build (RegexProgram_0, m) nodes root = Some (ok, (program, m2)) \<and>
    (if ok then pr_insts program = programCode t \<and> length (programCode t) \<le> REGEX_MAX_PROGRAM
     else generous m \<longrightarrow> length (programCode t) > REGEX_MAX_PROGRAM)"
  using RegexProgram_build_yields [OF assms, of "generous m" m]
  by (auto simp: yields_def progOk_def RegexProgram_count_def split: option.splits if_splits)

lemma compilePattern_cases:
  assumes "rg_program regex = RegexProgram_0"
  defines "ic \<equiv> rg_flags regex AND REGEX_CASE_INSENSITIVE \<noteq> 0"
  shows "\<exists>out m2. compilePattern m regex pat = Some (out, m2) \<and>
    (case out of
       Inr regex' \<Rightarrow> \<exists>t. parsedTree m pat ic = Some t \<and> compiledAs t regex' \<and>
         rg_pattern regex' = rg_pattern regex \<and> rg_flags regex' = rg_flags regex
     | Inl e \<Rightarrow> parsedTree m pat ic = None \<or>
         (\<exists>t p1. parsedTree m pat ic = Some t \<and> e = compileError pat p1))"
proof -
  obtain root p1 where parse: "RegexParser_parse (RegexParser_3 m pat ic) = Some (root, p1)"
    using RegexParser_parse_returns by blast
  show ?thesis
  proof (cases "root \<noteq> None \<and> RegexParser_ok p1")
    case True
    then obtain i where root: "root = Some i" by blast
    obtain t where t: "treeAt (nl_nodes (ps_nodes p1)) i = Some t"
        "rxWf (length (ps_classes p1)) (ps_groupCount p1) t" "list_all classWf (ps_classes p1)"
      using parse_tree parse root by blast
    then have tree: "parsedTree m pat ic = Some t" using parse root by (simp add: parsedTree_def)
    obtain ok program m2 where build:
        "RegexProgram_build (RegexProgram_0, ps_arena p1) (ps_nodes p1) i = Some (ok, (program, m2))"
        "ok \<longrightarrow> pr_insts program = programCode t \<and> length (programCode t) \<le> REGEX_MAX_PROGRAM"
      using build_yields [OF t(1), of "ps_arena p1"] by (auto simp del: length_programCode)
    have "compilePattern m regex pat = Some (if ok then Inr (regex\<lparr>rg_groupCount := ps_groupCount p1,
        rg_program := program, rg_classes := ps_classes p1\<rparr>) else Inl (compileError pat p1), m2)"
      using parse True root build(1) assms(1)
      by (auto simp: compilePattern_def ic_def RegexParser_nodes_def RegexParser_groupCount_def
          RegexParser_releaseClasses_def)
    then show ?thesis
      using tree build(2) t(2,3) by (cases ok) (auto simp: compiledAs_def simp del: length_programCode)
  next
    case False
    then have "compilePattern m regex pat = Some (Inl (compileError pat p1), ps_arena p1)"
      using parse by (auto simp: compilePattern_def ic_def)
    then show ?thesis by (auto intro: option.exhaust)
  qed
qed

lemma Regex_2_compiled:
  assumes "Regex_2 m (Some pat) flags = Some (Inr regex, m')"
  obtains t where "patternTree m pat flags = Some t" and "compiledAs t regex"
    and "rg_pattern regex = pat" and "rg_flags regex = flags"
proof -
  obtain b1 m1 b2 m2 where alloc: "Memory_alloc m = (b1, m1)" "Memory_alloc m1 = (b2, m2)"
    by (metis surj_pair)
  let ?r = "\<lparr>rg_pattern = pat, rg_flags = flags, rg_groupCount = 0,
    rg_program = RegexProgram_0, rg_classes = []\<rparr>"
  have "compilePattern m2 ?r pat = Some (Inr regex, m')"
    using assms alloc by (auto simp: Regex_2_def split: if_splits)
  then show thesis
    using compilePattern_cases [of ?r m2 pat] that alloc by (auto simp: patternTree_def)
qed

end
