(* ===== verification/Regex_Search.thy ===== *)
theory Regex_Search
  imports Regex
begin

text \<open>
  What the search functions of \<open>src/regex/regex.c\<close> promise, proved of the whole pipeline:
  pattern text, parser, emitter, simulator, spans.
\<close>

section \<open>From accepting runs to the denotation\<close>

definition searchArgs :: "Regex \<Rightarrow> u8 list \<Rightarrow> RunArgs" where
  "searchArgs regex subject =
     \<lparr>ra_classes = rg_classes regex, ra_subject = subject, ra_anchored = False,
      ra_options = regexOptions (rg_flags regex), ra_full = False\<rparr>"

text \<open>The denotation reads the classes, the subject and the options only.\<close>

lemma rxrel_cong:
  assumes "ra_classes r = ra_classes r'" and "ra_length r = ra_length r'"
    and "\<And>i. byteAt r i = byteAt r' i \<or> \<not> i < ra_length r"
    and "\<And>i. bolAt r i = bolAt r' i" and "\<And>i. eolAt r i = eolAt r' i"
    and "op_dotall (ra_options r) = op_dotall (ra_options r')"
  shows "rxrel r t = rxrel r' t"
proof (induction t)
  case (RChar b)
  show ?case using assms(2,3) by (simp, metis)
next
  case RAny
  have "anyAt r i = anyAt r' i" if "i < ra_length r" for i
    using assms(3) [of i] assms(6) that by (simp add: anyAt_def)
  then show ?case using assms(2) by auto
next
  case (RClass k)
  show ?case using assms(1-3) by (simp, metis)
qed (use assms in simp_all)

lemma rxrel_update [simp]:
  "rxrel (r\<lparr>ra_anchored := a\<rparr>) t = rxrel r t" "rxrel (r\<lparr>ra_full := f\<rparr>) t = rxrel r t"
  by (rule rxrel_cong; simp add: byteAt_def bolAt_def eolAt_def)+

lemma length_seedOf [simp]: "length (seedOf g) = 2 * (g + 1)"
  by (simp add: seedOf_def)

lemma wholeRel_slots:
  assumes "((i, seedOf g), (j, c)) \<in> wholeRel r t"
  obtains d where "((i, (seedOf g)[0 := i]), (j, d)) \<in> crel r t" and "c = d[1 := j]"
  using assms unfolding wholeRel_def saves_def by (fastforce elim!: relcompE)

lemma accepting_rxrel:
  assumes wf: "rxWf c g t" and acc: "accepting r t g i j v"
  shows "startOk r i" and "okEnd r j" and "(i, j) \<in> rxrel r t" and "v ! 0 = i" and "v ! 1 = j"
    and "j \<le> ra_length r"
proof -
  have run: "creach r (programCode t) (0, i, seedOf g) (matchPc t, j, v)"
    and start: "startOk r i" and "end": "okEnd r j"
    using acc by (auto simp: accepting_def)
  then show "startOk r i" "okEnd r j" by simp_all
  have "((i, seedOf g), (j, v)) \<in> wholeRel r t" using program_reach [OF wf] run by blast
  then obtain d where d: "((i, (seedOf g)[0 := i]), (j, d)) \<in> crel r t" "v = d[1 := j]"
    by (rule wholeRel_slots)
  then show "(i, j) \<in> rxrel r t" using crel_rxrel by fastforce
  have "length v = 2 * (g + 1)" using creach_length [OF run] by simp
  then show "v ! 1 = j" using d(2) by (simp add: nth_list_update)
  show "v ! 0 = i" using creach_start [OF wf run] by (auto simp: matchPc_def)
  show "j \<le> ra_length r" using creach_bound [OF run] start by (simp add: startOk_def)
qed

lemma rxrel_accepting:
  assumes wf: "rxWf c g t" and "startOk r i" "okEnd r j" "(i, j) \<in> rxrel r t"
  shows "\<exists>v. accepting r t g i j v"
proof -
  obtain d where "((i, (seedOf g)[0 := i]), (j, d)) \<in> crel r t" using rxrel_crel assms(4) by blast
  then have "((i, seedOf g), (j, d[1 := j])) \<in> wholeRel r t"
    unfolding wholeRel_def saves_def by (intro relcompI) auto
  then show ?thesis using program_reach [OF wf] assms(2,3) unfolding accepting_def by blast
qed

section \<open>The machine of a search\<close>

lemma RegexVm_2_ready:
  assumes "compiledAs t regex" and "RegexVm_2 m (rg_program regex) (rg_groupCount regex) = (Some vm, m')"
  shows "vmReady t (rg_groupCount regex) vm"
proof -
  have "pr_insts (rg_program regex) = programCode t" using assms(1) by (simp add: compiledAs_def)
  then show ?thesis
    using assms(2)
    by (auto simp: RegexVm_2_def vmInitialize_def vmReady_def seedOf_def Let_def
        RegexProgram_count_def split: if_splits prod.splits)
qed

lemma RegexVm_2_generous:
  assumes "compiledAs t regex" and "generous m"
  shows "\<exists>vm m'. RegexVm_2 m (rg_program regex) (rg_groupCount regex) = (Some vm, m') \<and> generous m'"
proof -
  have "RegexProgram_count (rg_program regex) \<noteq> 0"
    using assms(1) by (simp add: compiledAs_def RegexProgram_count_def)
  moreover obtain b m' where b: "Memory_allocs 11 m = (b, m')" by fastforce
  moreover from this have "b \<and> generous m'" using Memory_allocs_generous assms(2) by blast
  ultimately show ?thesis by (simp add: RegexVm_2_def vmInitialize_def Let_def)
qed

definition runArgs :: "Regex \<Rightarrow> u8 list \<Rightarrow> bool \<Rightarrow> RunArgs" where
  "runArgs regex subject anchored =
     (searchArgs regex subject)\<lparr>ra_anchored := anchored, ra_full := anchored\<rparr>"

lemma runArgs_simps [simp]:
  "rxrel (runArgs regex s anchored) t = rxrel (searchArgs regex s) t"
  "ra_anchored (runArgs regex s anchored) = anchored" "ra_full (runArgs regex s anchored) = anchored"
  "ra_subject (runArgs regex s anchored) = s"
  unfolding runArgs_def rxrel_update by (simp_all add: searchArgs_def)

text \<open>A search that got its memory is one run of the machine.\<close>

lemma runSearch_run:
  assumes "compiledAs t regex"
    and "runSearch m (Some regex) (Some s) anchored cap = (out, m')"
  shows "(out = noSearch \<and> \<not> generous m) \<or>
    (\<exists>vm. vmReady t (rg_groupCount regex) vm \<and>
       so_hit out = fst (runVm (runArgs regex s anchored) vm) \<and>
       so_spans out = (case cap of
         Some k \<Rightarrow> if so_hit out then map (RegexVm_span (snd (runVm (runArgs regex s anchored) vm)))
             [0..<min (rg_groupCount regex + 1) k] else []
       | None \<Rightarrow> []))"
proof -
  obtain v m1 where vm: "RegexVm_2 m (rg_program regex) (rg_groupCount regex) = (v, m1)" by fastforce
  show ?thesis
  proof (cases v)
    case None
    then have "\<not> generous m" using RegexVm_2_generous [OF assms(1)] vm by fastforce
    then show ?thesis using assms(2) vm None by (simp add: runSearch_def)
  next
    case (Some w)
    define run where "run = runVm (runArgs regex s anchored) w"
    have "run =
        (if anchored then RegexVm_runFull w (rg_classes regex) s (regexOptions (rg_flags regex))
         else RegexVm_run w (rg_classes regex) s False (regexOptions (rg_flags regex)))"
      by (simp add: run_def runArgs_def searchArgs_def RegexVm_runFull_def RegexVm_run_def)
    then have "runSearch m (Some regex) (Some s) anchored cap =
       (\<lparr>so_hit = fst run,
         so_spans = (case cap of
           Some k \<Rightarrow> if fst run then map (RegexVm_span (snd run))
             [0..<min (rg_groupCount regex + 1) k] else []
         | None \<Rightarrow> []),
         so_groups = (if fst run then Some (rg_groupCount regex + 1) else None),
         so_truncated = (case cap of Some k \<Rightarrow> fst run \<and> rg_groupCount regex + 1 > k | None \<Rightarrow> False)\<rparr>, m1)"
      using vm Some
      by (cases anchored; cases cap)
        (auto simp: runSearch_def Let_def case_prod_beta min_def)
    then have "out = \<lparr>so_hit = fst run,
         so_spans = (case cap of
           Some k \<Rightarrow> if fst run then map (RegexVm_span (snd run))
             [0..<min (rg_groupCount regex + 1) k] else []
         | None \<Rightarrow> []),
         so_groups = (if fst run then Some (rg_groupCount regex + 1) else None),
         so_truncated = (case cap of Some k \<Rightarrow> fst run \<and> rg_groupCount regex + 1 > k | None \<Rightarrow> False)\<rparr>"
      using assms(2) by simp
    moreover have "vmReady t (rg_groupCount regex) w" using RegexVm_2_ready [OF assms(1)] vm Some by simp
    ultimately show ?thesis unfolding run_def by (intro disjI2 exI [of _ w]) (simp cong: option.case_cong)
  qed
qed

text \<open>
  The matches of a search: pairs of the denotation that begin in the subject, for a full
  match the pair of its ends.
\<close>

definition matchSpans :: "Regex \<Rightarrow> rx \<Rightarrow> u8 list \<Rightarrow> bool \<Rightarrow> (nat \<times> nat) set" where
  "matchSpans regex t s anchored =
     {(i, j) \<in> rxrel (searchArgs regex s) t.
        i \<le> length s \<and> (anchored \<longrightarrow> i = 0 \<and> j = length s)}"

lemma accepting_matchSpans:
  assumes "compiledAs t regex"
  shows "(\<exists>v. accepting (runArgs regex s anchored) t (rg_groupCount regex) i j v) \<longleftrightarrow>
    (i, j) \<in> matchSpans regex t s anchored"
proof -
  let ?r = "runArgs regex s anchored"
  have wf: "rxWf (length (rg_classes regex)) (rg_groupCount regex) t"
    using assms by (simp add: compiledAs_def)
  have "(\<exists>v. accepting ?r t (rg_groupCount regex) i j v) \<longleftrightarrow>
      startOk ?r i \<and> okEnd ?r j \<and> (i, j) \<in> rxrel ?r t"
    using accepting_rxrel(1-3) [OF wf] rxrel_accepting [OF wf] by blast
  then show ?thesis unfolding matchSpans_def startOk_def okEnd_def by auto
qed

text \<open>A search reports a hit exactly when there is one, and the leftmost one.\<close>

lemma runSearch_hit:
  assumes c: "compiledAs t regex" and m: "generous m"
    and out: "runSearch m (Some regex) (Some s) anchored cap = (out, m')"
  shows "so_hit out \<longleftrightarrow> (\<exists>i j. (i, j) \<in> matchSpans regex t s anchored)"
proof -
  have wf: "rxWf (length (rg_classes regex)) (rg_groupCount regex) t"
    using c by (simp add: compiledAs_def)
  obtain vm where vm: "vmReady t (rg_groupCount regex) vm"
      "so_hit out = fst (runVm (runArgs regex s anchored) vm)"
    using runSearch_run [OF c out] m by blast
  show ?thesis
    unfolding vm(2) runVm_matches [OF wf vm(1)] using accepting_matchSpans [OF c] by blast
qed

lemma runSearch_span:
  assumes c: "compiledAs t regex" and len: "length s < REGEX_UNSET"
    and out: "runSearch m (Some regex) (Some s) anchored (Some (Suc k)) = (out, m')"
    and hit: "so_hit out"
  obtains i j where "firstSpan out = \<lparr>span_start = i, span_end = j\<rparr>"
    and "(i, j) \<in> matchSpans regex t s anchored" and "i \<le> length s" "j \<le> length s"
    and "\<And>i' j'. (i', j') \<in> matchSpans regex t s anchored \<Longrightarrow> i \<le> i'"
proof -
  let ?r = "runArgs regex s anchored" and ?g = "rg_groupCount regex"
  have wf: "rxWf (length (rg_classes regex)) ?g t" using c by (simp add: compiledAs_def)
  have "out \<noteq> noSearch" using hit by (auto simp: noSearch_def)
  then obtain vm where vm: "vmReady t ?g vm" "so_hit out = fst (runVm ?r vm)"
      "so_spans out = map (RegexVm_span (snd (runVm ?r vm))) [0..<min (?g + 1) (Suc k)]"
    using runSearch_run [OF c out] hit by auto
  obtain vm' where run: "runVm ?r vm = (True, vm')" using vm(2) hit by (metis (full_types) prod.collapse)
  note result = runVm_correct [OF wf vm(1), of ?r, unfolded run resultOk_def fst_conv snd_conv]
  then obtain j where acc: "accepting ?r t ?g (vm_best vm' ! 0) j (vm_best vm')" by auto
  note slots = accepting_rxrel [OF wf acc]
  define i where "i = vm_best vm' ! 0"
  have i: "(i, j) \<in> matchSpans regex t s anchored"
    using accepting_matchSpans [OF c] acc unfolding i_def by blast
  have bounds: "i \<le> length s" "j \<le> length s"
    using slots(1,6) by (simp_all add: i_def startOk_def)
  have stride: "vm_capStride vm' = 2 * (?g + 1)" using result by simp
  have "RegexVm_span vm' 0 = \<lparr>span_start = i, span_end = j\<rparr>"
    using stride slots(5) bounds len
    by (simp add: RegexVm_span_def Let_def RegexSpan_isSet_def i_def)
  moreover have "firstSpan out = RegexVm_span vm' 0"
    using vm(3) run by (simp add: firstSpan_def upt_rec)
  moreover have "i \<le> i'" if "(i', j') \<in> matchSpans regex t s anchored" for i' j'
  proof -
    have some: "\<exists>i. \<exists>j c. accepting ?r t ?g i j c" using acc by blast
    define l where "l = (LEAST i. \<exists>j c. accepting ?r t ?g i j c)"
    have "\<exists>j c. accepting ?r t ?g l j c" unfolding l_def by (rule LeastI_ex [OF some])
    moreover have low: "\<forall>i' j c. accepting ?r t ?g i' j c \<longrightarrow> l \<le> i'"
      unfolding l_def by (auto intro: Least_le)
    ultimately have "i = l" using result i_def by blast
    then show ?thesis using low that accepting_matchSpans [OF c] by blast
  qed
  ultimately show thesis using that i bounds by metis
qed

lemma full_match_hit:
  assumes "compiledAs t regex" and "length s < REGEX_UNSET"
  shows "fst (Regex_isFullMatch m (Some regex) (Some s)) \<longleftrightarrow>
    so_hit (fst (runSearch m (Some regex) (Some s) True (Some 1)))"
proof -
  obtain out m' where out: "runSearch m (Some regex) (Some s) True (Some (Suc 0)) = (out, m')"
    by fastforce
  then have "fst (Regex_isFullMatch m (Some regex) (Some s)) \<longleftrightarrow>
      so_hit out \<and> firstSpan out = \<lparr>span_start = 0, span_end = length s\<rparr>"
    by (auto simp: Regex_isFullMatch_def Let_def)
  also have "\<dots> \<longleftrightarrow> so_hit out"
    using runSearch_span [OF assms out] by (auto simp: matchSpans_def)
  finally show ?thesis using out by simp
qed

section \<open>Captured groups\<close>

text \<open>
  Along a run every slot of a group is unset or a position passed since the start, and a
  group that is not being entered has both its slots, in order, or neither.
\<close>

lemma nth_updated: "j < length xs \<Longrightarrow> xs[i := x] ! j = (if i = j then x else xs ! j)"
  by (auto simp: nth_list_update)

definition slotsIn :: "nat \<Rightarrow> nat \<Rightarrow> nat list \<Rightarrow> bool" where
  "slotsIn i pos c \<longleftrightarrow> (\<forall>k. 2 \<le> k \<longrightarrow> k < length c \<longrightarrow> c ! k = REGEX_UNSET \<or> i \<le> c ! k \<and> c ! k \<le> pos)"

lemma slotsInD:
  "slotsIn i pos c \<Longrightarrow> 2 \<le> k \<Longrightarrow> k < length c \<Longrightarrow> c ! k \<noteq> REGEX_UNSET \<Longrightarrow> i \<le> c ! k \<and> c ! k \<le> pos"
  by (auto simp: slotsIn_def)

definition pairOk :: "nat list \<Rightarrow> nat \<Rightarrow> bool" where
  "pairOk c k \<longleftrightarrow>
     (if c ! (2 * k) = REGEX_UNSET then c ! (2 * k + 1) = REGEX_UNSET
      else c ! (2 * k + 1) \<noteq> REGEX_UNSET \<and> c ! (2 * k) \<le> c ! (2 * k + 1))"

definition pairsOk :: "nat set \<Rightarrow> nat list \<Rightarrow> bool" where
  "pairsOk pend c \<longleftrightarrow> (\<forall>k. 1 \<le> k \<longrightarrow> 2 * k + 1 < length c \<longrightarrow> k \<notin> pend \<longrightarrow> pairOk c k)"

definition grows :: "nat list \<Rightarrow> nat list \<Rightarrow> bool" where
  "grows c d \<longleftrightarrow> length d = length c \<and> (\<forall>k<length c. c ! k \<noteq> REGEX_UNSET \<longrightarrow> d ! k \<noteq> REGEX_UNSET)"

text \<open>The invariant of a run from a state \<open>x\<close>, as a relation that composes.\<close>

definition capStep :: "RunArgs \<Rightarrow> nat \<Rightarrow> ((nat \<times> nat list) \<times> (nat \<times> nat list)) set" where
  "capStep r i = {(x, y). i \<le> fst x \<longrightarrow> fst x \<le> ra_length r \<longrightarrow> slotsIn i (fst x) (snd x) \<longrightarrow>
     fst x \<le> fst y \<and> fst y \<le> ra_length r \<and> slotsIn i (fst y) (snd y) \<and> grows (snd x) (snd y) \<and>
     (\<forall>pend. pairsOk pend (snd x) \<longrightarrow> pairsOk pend (snd y))}"

lemma capStep_refl: "(x, x) \<in> capStep r i"
  by (simp add: capStep_def grows_def)

lemma capStep_trans: "(x, y) \<in> capStep r i \<Longrightarrow> (y, z) \<in> capStep r i \<Longrightarrow> (x, z) \<in> capStep r i"
  by (auto simp: capStep_def grows_def)

lemma capStep_lifted:
  assumes "(x, y) \<in> lifted R" and "\<And>p q. (p, q) \<in> R \<Longrightarrow> p \<le> q \<and> (p \<le> ra_length r \<longrightarrow> q \<le> ra_length r)"
  shows "(x, y) \<in> capStep r i"
  using assms by (fastforce simp: lifted_def capStep_def slotsIn_def grows_def)

lemma capStep_group:
  assumes len: "ra_length r < REGEX_UNSET" and k: "0 < k"
    and opens: "(x, u) \<in> saves (k * 2)" and body: "(u, v) \<in> capStep r i"
    and closes: "(v, y) \<in> saves (k * 2 + 1)"
  shows "(x, y) \<in> capStep r i"
  unfolding capStep_def
proof (clarsimp, intro conjI allI impI)
  let ?c = "snd x" and ?d = "snd v"
  assume x: "i \<le> fst x" "fst x \<le> ra_length r" "slotsIn i (fst x) ?c"
  have u: "fst u = fst x" "snd u = ?c[k * 2 := fst x]" using opens by (auto simp: saves_def)
  have y: "fst y = fst v" "snd y = ?d[k * 2 + 1 := fst v]" using closes by (auto simp: saves_def)
  have "slotsIn i (fst u) (snd u)"
    using x u by (auto simp: slotsIn_def nth_updated)
  then have v: "fst u \<le> fst v" "fst v \<le> ra_length r" "slotsIn i (fst v) ?d" "grows (snd u) ?d"
      "\<And>pend. pairsOk pend (snd u) \<Longrightarrow> pairsOk pend ?d"
    using body x u(1) by (auto simp: capStep_def)
  show "fst x \<le> fst y" "fst y \<le> ra_length r" using v u y by auto
  show "slotsIn i (fst y) (snd y)"
    using v x u y by (auto simp: slotsIn_def nth_updated)
  have small: "fst x \<noteq> REGEX_UNSET" "fst v \<noteq> REGEX_UNSET" using x(2) v(2) len by auto
  show "grows ?c (snd y)"
    using v(4) u(2) y(2) small unfolding grows_def by (auto simp: nth_updated)
  fix pend assume pairs: "pairsOk pend ?c"
  have "pairsOk (insert k pend) (snd u)"
    using pairs u(2) unfolding pairsOk_def pairOk_def by (auto simp: nth_updated)
  then have d: "pairsOk (insert k pend) ?d" by (rule v(5))
  show "pairsOk pend (snd y)"
    unfolding pairsOk_def
  proof (intro allI impI)
    fix l assume l: "1 \<le> l" "2 * l + 1 < length (snd y)" "l \<notin> pend"
    have len_d: "length ?d = length (snd y)" "length ?c = length ?d"
      using y(2) v(4) u(2) by (auto simp: grows_def)
    show "pairOk (snd y) l"
    proof (cases "l = k")
      case True
      have "?d ! (2 * k) \<noteq> REGEX_UNSET"
        using v(4) u(2) small(1) l(2) len_d True by (auto simp: grows_def mult.commute)
      moreover from this have "?d ! (2 * k) \<le> fst v"
        using slotsInD [OF v(3), of "2 * k"] k l(2) len_d True by simp
      moreover have "2 * k + 1 < length ?d" using l(2) len_d(1) True by simp
      then have "snd y ! (2 * k) = ?d ! (2 * k)" "snd y ! (2 * k + 1) = fst v"
        unfolding y(2) by (simp_all add: nth_updated mult.commute)
      ultimately show ?thesis unfolding pairOk_def True using small(2) by simp
    next
      case False
      then have "pairOk ?d l" using d l len_d by (simp add: pairsOk_def)
      moreover have slots: "snd y ! (2 * l) = ?d ! (2 * l)" "snd y ! (2 * l + 1) = ?d ! (2 * l + 1)"
        using y(2) False by (auto simp: nth_list_update)
      ultimately show ?thesis unfolding pairOk_def slots by blast
    qed
  qed
qed

lemma crel_capStep:
  assumes len: "ra_length r < REGEX_UNSET"
  shows "crel r t \<subseteq> capStep r i"
proof (induction t)
  case (RCat a b)
  then show ?case using capStep_trans by fastforce
next
  case (RStar a)
  have "(x, y) \<in> (crel r a)\<^sup>* \<Longrightarrow> (x, y) \<in> capStep r i" for x y
    by (induction rule: rtrancl_induct) (use RStar capStep_refl capStep_trans in blast)+
  then show ?case by auto
next
  case (RPlus a)
  have "(x, y) \<in> (crel r a)\<^sup>+ \<Longrightarrow> (x, y) \<in> capStep r i" for x y
    by (induction rule: trancl_induct) (use RPlus capStep_trans in blast)+
  then show ?case by auto
next
  case (RRepeat a lo hi)
  have "(x, y) \<in> crel r a ^^ n \<Longrightarrow> (x, y) \<in> capStep r i" for x y n
    by (induction n arbitrary: y) (use RRepeat capStep_refl capStep_trans in \<open>auto, blast\<close>)
  then show ?case by auto
next
  case (RGroup k a)
  show ?case
  proof (cases "0 < k")
    case True
    show ?thesis
    proof
      fix z assume "z \<in> crel r (RGroup k a)"
      then obtain x u v y where "z = (x, y)" "(x, u) \<in> saves (k * 2)" "(u, v) \<in> crel r a"
          "(v, y) \<in> saves (k * 2 + 1)"
        using True by (cases z) auto
      then show "z \<in> capStep r i" using capStep_group [OF len True] RGroup by blast
    qed
  qed (use RGroup in simp)
qed (use capStep_refl in \<open>auto intro: capStep_lifted\<close>)

lemma accepting_groups:
  assumes wf: "rxWf c g t" and acc: "accepting r t g i j v" and len: "ra_length r < REGEX_UNSET"
    and k: "1 \<le> k" "k \<le> g" and set: "v ! (2 * k) \<noteq> REGEX_UNSET \<or> v ! (2 * k + 1) \<noteq> REGEX_UNSET"
  shows "i \<le> v ! (2 * k) \<and> v ! (2 * k) \<le> v ! (2 * k + 1) \<and> v ! (2 * k + 1) \<le> j"
proof -
  have "((i, seedOf g), (j, v)) \<in> wholeRel r t"
    using program_reach [OF wf] acc by (simp add: accepting_def)
  then obtain d where d: "((i, (seedOf g)[0 := i]), (j, d)) \<in> crel r t" "v = d[1 := j]"
    by (rule wholeRel_slots)
  have i: "i \<le> ra_length r" using acc by (simp add: accepting_def startOk_def)
  have "slotsIn i i ((seedOf g)[0 := i])" "pairsOk {} ((seedOf g)[0 := i])"
    by (auto simp: slotsIn_def pairsOk_def pairOk_def seedOf_def nth_updated)
  then have *: "slotsIn i j d" "pairsOk {} d" "length d = 2 * (g + 1)"
    using subsetD [OF crel_capStep [OF len] d(1), of i] i unfolding capStep_def grows_def by auto
  have "pairOk d k" using *(2,3) k by (simp add: pairsOk_def)
  moreover have "v ! (2 * k) = d ! (2 * k)" "v ! (2 * k + 1) = d ! (2 * k + 1)"
    using d(2) k by (simp_all add: nth_list_update)
  moreover have "d ! (2 * k) = REGEX_UNSET \<or> i \<le> d ! (2 * k)"
      "d ! (2 * k + 1) = REGEX_UNSET \<or> d ! (2 * k + 1) \<le> j"
    using slotsInD [OF *(1), of "2 * k"] slotsInD [OF *(1), of "2 * k + 1"] *(3) k by auto
  ultimately show ?thesis using set unfolding pairOk_def by (auto split: if_splits)
qed

lemma runSearch_groups:
  assumes c: "compiledAs t regex" and len: "length s < REGEX_UNSET"
    and out: "runSearch m (Some regex) (Some s) anchored (Some n) = (out, m')"
    and span: "span \<in> set (so_spans out)"
  shows "span = RegexSpan_none \<or>
    span_start (firstSpan out) \<le> span_start span \<and> span_start span \<le> span_end span \<and>
    span_end span \<le> span_end (firstSpan out)"
proof -
  let ?r = "runArgs regex s anchored" and ?g = "rg_groupCount regex"
  have wf: "rxWf (length (rg_classes regex)) ?g t" using c by (simp add: compiledAs_def)
  have "out \<noteq> noSearch" using span by (auto simp: noSearch_def)
  then obtain vm where vm: "vmReady t ?g vm" "so_hit out = fst (runVm ?r vm)"
      "so_spans out = (if so_hit out then map (RegexVm_span (snd (runVm ?r vm)))
         [0..<min (?g + 1) n] else [])"
    using runSearch_run [OF c out] by auto
  then have hit: "so_hit out" using span by (auto split: if_splits)
  obtain vm' where run: "runVm ?r vm = (True, vm')" using vm(2) hit by (metis (full_types) prod.collapse)
  note result = runVm_correct [OF wf vm(1), of ?r, unfolded run resultOk_def fst_conv snd_conv]
  define i where "i = vm_best vm' ! 0"
  obtain j where acc: "accepting ?r t ?g i j (vm_best vm')" using result i_def by auto
  note slots = accepting_rxrel [OF wf acc]
  obtain k where k: "k < min (?g + 1) n" "span = RegexVm_span vm' k"
    using span vm(3) hit run by auto
  have k_le: "k \<le> ?g" using k(1) by simp
  have stride: "vm_capStride vm' = 2 * (?g + 1)" using result by simp
  have "i \<le> length s" "j \<le> length s" using slots(1,6) by (simp_all add: i_def startOk_def)
  then have "RegexVm_span vm' 0 = \<lparr>span_start = i, span_end = j\<rparr>"
    using stride slots(5) len by (simp add: RegexVm_span_def Let_def RegexSpan_isSet_def i_def)
  moreover have "0 < min (?g + 1) n" using k(1) by simp
  then have "firstSpan out = RegexVm_span vm' 0"
    using vm(3) hit run by (simp add: firstSpan_def upt_rec)
  ultimately have first: "span_start (firstSpan out) = i" "span_end (firstSpan out) = j" by simp_all
  have "span = RegexSpan_none \<or>
     i \<le> span_start span \<and> span_start span \<le> span_end span \<and> span_end span \<le> j"
  proof (cases "span = RegexSpan_none")
    case False
    then have span': "span = \<lparr>span_start = vm_best vm' ! (2 * k), span_end = vm_best vm' ! (2 * k + 1)\<rparr>"
      using k stride by (auto simp: RegexVm_span_def Let_def split: if_splits)
    have "RegexSpan_isSet span"
      using False k by (auto simp: RegexVm_span_def Let_def split: if_splits)
    then have set: "vm_best vm' ! (2 * k) \<noteq> REGEX_UNSET" using span' by (simp add: RegexSpan_isSet_def)
    show ?thesis
    proof (cases "k = 0")
      case True
      have "(i, j) \<in> rxrel ?r t" using slots(3) .
      then have "i \<le> j" using creach_mono acc by (auto simp: accepting_def)
      then show ?thesis using True span' slots(4,5) by simp
    next
      case False
      then show ?thesis
        using accepting_groups [OF wf acc _ _ k_le] set span' len by auto
    qed
  qed simp
  then show ?thesis unfolding first .
qed

lemma runSearch_length:
  assumes c: "compiledAs t regex"
    and out: "runSearch m (Some regex) (Some s) anchored (Some n) = (out, m')" and hit: "so_hit out"
  shows "length (so_spans out) = min (rg_groupCount regex + 1) n"
proof -
  have "out \<noteq> noSearch" using hit by (auto simp: noSearch_def)
  then show ?thesis using runSearch_run [OF c out] hit by auto
qed

section \<open>The properties of the class\<close>

text \<open>
C1: A full match is exactly a pair of the denotation: \<open>Regex_isFullMatch\<close> of a compiled
pattern says yes if and only if the whole subject, from its first to past its last byte, is
in the relation that the pattern's syntax tree denotes.
\<close>

theorem Regex_isFullMatch_iff:
  assumes "Regex_2 m (Some pat) flags = Some (Inr regex, m')"
    and "generous m2" and "length s < REGEX_UNSET"
  shows "\<exists>t. patternTree m pat flags = Some t \<and>
    (fst (Regex_isFullMatch m2 (Some regex) (Some s)) \<longleftrightarrow>
      (0, length s) \<in> rxrel (searchArgs regex s) t)"
proof -
  obtain t where t: "patternTree m pat flags = Some t" "compiledAs t regex"
    using Regex_2_compiled [OF assms(1)] by metis
  obtain out m3 where out: "runSearch m2 (Some regex) (Some s) True (Some (Suc 0)) = (out, m3)"
    by fastforce
  have "fst (Regex_isFullMatch m2 (Some regex) (Some s)) \<longleftrightarrow> so_hit out"
    using full_match_hit [OF t(2) assms(3), of m2] out by simp
  also have "\<dots> \<longleftrightarrow> (0, length s) \<in> rxrel (searchArgs regex s) t"
    unfolding runSearch_hit [OF t(2) assms(2) out] by (auto simp: matchSpans_def)
  finally show ?thesis using t(1) by blast
qed

text \<open>
C2: \<open>Regex_isMatch\<close> says yes if and only if some substring of the subject is in the
denotation of the pattern.
\<close>

theorem Regex_isMatch_iff:
  assumes "Regex_2 m (Some pat) flags = Some (Inr regex, m')" and "generous m2"
  shows "\<exists>t. patternTree m pat flags = Some t \<and>
    (fst (Regex_isMatch m2 (Some regex) (Some s)) \<longleftrightarrow>
      (\<exists>i j. i \<le> length s \<and> (i, j) \<in> rxrel (searchArgs regex s) t))"
proof -
  obtain t where t: "patternTree m pat flags = Some t" "compiledAs t regex"
    using Regex_2_compiled [OF assms(1)] by metis
  obtain out m3 where out: "runSearch m2 (Some regex) (Some s) False (Some 1) = (out, m3)"
    by fastforce
  then have "fst (Regex_isMatch m2 (Some regex) (Some s)) \<longleftrightarrow> so_hit out"
    by (simp add: Regex_isMatch_def)
  then show ?thesis
    using t(1) runSearch_hit [OF t(2) assms(2) out] by (auto simp: matchSpans_def)
qed

text \<open>
C3: \<open>Regex_find\<close> reports a real match, and the leftmost one: the span it stores is a pair of
the denotation inside the subject, and no match begins before it.  When it reports nothing
(and had its memory) there is no match.
\<close>

theorem Regex_find_leftmost:
  assumes "Regex_2 m (Some pat) flags = Some (Inr regex, m')"
    and "generous m2" and "length s < REGEX_UNSET"
  shows "\<exists>t. patternTree m pat flags = Some t \<and>
    (case fst (Regex_find m2 (Some regex) (Some s) True) of
       None \<Rightarrow> \<not> (\<exists>i j. i \<le> length s \<and> (i, j) \<in> rxrel (searchArgs regex s) t)
     | Some span \<Rightarrow>
         (span_start span, span_end span) \<in> rxrel (searchArgs regex s) t \<and>
         span_start span \<le> length s \<and> span_end span \<le> length s \<and>
         \<not> (\<exists>i j. i < span_start span \<and> (i, j) \<in> rxrel (searchArgs regex s) t))"
proof -
  obtain t where t: "patternTree m pat flags = Some t" "compiledAs t regex"
    using Regex_2_compiled [OF assms(1)] by metis
  obtain out m3 where out: "runSearch m2 (Some regex) (Some s) False (Some (Suc 0)) = (out, m3)"
    by fastforce
  have find: "fst (Regex_find m2 (Some regex) (Some s) True) =
      (if so_hit out then Some (firstSpan out) else None)"
    using out by (simp add: Regex_find_def)
  show ?thesis
  proof (cases "so_hit out")
    case True
    obtain i j where ij: "firstSpan out = \<lparr>span_start = i, span_end = j\<rparr>"
      "(i, j) \<in> matchSpans regex t s False" "i \<le> length s" "j \<le> length s"
      "\<And>i' j'. (i', j') \<in> matchSpans regex t s False \<Longrightarrow> i \<le> i'"
      using runSearch_span [OF t(2) assms(3) out True] by metis
    moreover have "i \<le> i'" if "(i', j') \<in> rxrel (searchArgs regex s) t" "i' < i" for i' j'
      using ij(3) ij(5) [of i' j'] that by (auto simp: matchSpans_def)
    ultimately show ?thesis using t(1) True find by (fastforce simp: matchSpans_def)
  next
    case False
    then show ?thesis
      using t(1) find runSearch_hit [OF t(2) assms(2) out] by (auto simp: matchSpans_def)
  qed
qed

text \<open>
C4: \<open>Regex_findGroups\<close> fills in the spans of one match.  The first span is the match: a pair of the
denotation inside the subject, before which no match begins.  There is one span for the match and one
for each group, as far as the caller has room; each is the unset span of a group that took no part,
or an interval in order inside the first span.  When no span is filled in (and there was memory and room)
there is no match.
\<close>

theorem Regex_findGroups_inside:
  assumes "Regex_2 m (Some pat) flags = Some (Inr regex, m')"
    and "generous m2" and "length s < REGEX_UNSET"
  shows "\<exists>t. patternTree m pat flags = Some t \<and>
    (case so_spans (fst (Regex_findGroups m2 (Some regex) (Some s) (Some n))) of
       [] \<Rightarrow> n = 0 \<or> \<not> (\<exists>i j. i \<le> length s \<and> (i, j) \<in> rxrel (searchArgs regex s) t)
     | whole # groups \<Rightarrow>
         (span_start whole, span_end whole) \<in> rxrel (searchArgs regex s) t \<and>
         span_start whole \<le> length s \<and> span_end whole \<le> length s \<and>
         \<not> (\<exists>i j. i < span_start whole \<and> (i, j) \<in> rxrel (searchArgs regex s) t) \<and>
         length groups + 1 = min (rg_groupCount regex + 1) n \<and>
         (\<forall>span \<in> set groups. span = RegexSpan_none \<or>
            span_start whole \<le> span_start span \<and> span_start span \<le> span_end span \<and>
            span_end span \<le> span_end whole))"
proof -
  obtain t where t: "patternTree m pat flags = Some t" "compiledAs t regex"
    using Regex_2_compiled [OF assms(1)] by metis
  obtain out m3 where out: "runSearch m2 (Some regex) (Some s) False (Some n) = (out, m3)"
    by fastforce
  then have spans: "so_spans (fst (Regex_findGroups m2 (Some regex) (Some s) (Some n))) = so_spans out"
    by (simp add: Regex_findGroups_def)
  show ?thesis
  proof (cases "so_spans out")
    case Nil
    have "\<not> so_hit out" if "n \<noteq> 0" using runSearch_length [OF t(2) out] Nil that by auto
    then show ?thesis
      using t(1) runSearch_hit [OF t(2) assms(2) out] unfolding spans Nil by (auto simp: matchSpans_def)
  next
    case (Cons whole groups)
    then have hit: "so_hit out" using runSearch_run [OF t(2) out] by (auto simp: noSearch_def split: if_splits)
    have len: "length groups + 1 = min (rg_groupCount regex + 1) n"
      using runSearch_length [OF t(2) out hit] Cons by simp
    then obtain k where n: "n = Suc k" by (cases n) simp_all
    have first: "firstSpan out = whole" using Cons by (simp add: firstSpan_def)
    obtain i j where ij: "whole = \<lparr>span_start = i, span_end = j\<rparr>"
      "(i, j) \<in> matchSpans regex t s False" "i \<le> length s" "j \<le> length s"
      "\<And>i' j'. (i', j') \<in> matchSpans regex t s False \<Longrightarrow> i \<le> i'"
      using runSearch_span [OF t(2) assms(3) out [unfolded n] hit] unfolding first by metis
    have "i \<le> i'" if "(i', j') \<in> rxrel (searchArgs regex s) t" "i' < i" for i' j'
      using ij(3) ij(5) [of i' j'] that by (auto simp: matchSpans_def)
    moreover have "\<forall>span \<in> set groups. span = RegexSpan_none \<or>
        i \<le> span_start span \<and> span_start span \<le> span_end span \<and> span_end span \<le> j"
      using runSearch_groups [OF t(2) assms(3) out] first ij(1) Cons by auto
    ultimately show ?thesis
      unfolding spans Cons using t(1) ij(1-4) len by (fastforce simp: matchSpans_def)
  qed
qed

text \<open>The pattern \<open>a*b\<close> with the flags off, for the witnesses.\<close>

definition tree_ab :: rx where
  "tree_ab = RCat (RStar (RChar ch_a)) (RChar 98)"

definition regex_ab :: Regex where
  "regex_ab = \<lparr>rg_pattern = [ch_a, ch_star, 98], rg_flags = 0, rg_groupCount = 0,
     rg_program = \<lparr>pr_insts = programCode tree_ab, pr_capacity = 64\<rparr>, rg_classes = []\<rparr>"

lemma regex_ab_compiles: "Regex_2 [] (Some [ch_a, ch_star, 98]) 0 = Some (Inr regex_ab, [])"
  by code_simp

lemma tree_ab_parses: "patternTree [] [ch_a, ch_star, 98] 0 = Some tree_ab"
  by code_simp

lemma small_subject: "length [ch_a, ch_a, 98] < REGEX_UNSET"
  by (simp add: REGEX_UNSET_def)

theorem Regex_isFullMatch_iff_witness:
  "fst (Regex_isFullMatch [] (Some regex_ab) (Some [ch_a, ch_a, 98])) \<and>
   (0, 3) \<in> rxrel (searchArgs regex_ab [ch_a, ch_a, 98]) tree_ab"
proof -
  have "fst (Regex_isFullMatch [] (Some regex_ab) (Some [ch_a, ch_a, 98]))" by code_simp
  then show ?thesis
    using Regex_isFullMatch_iff [OF regex_ab_compiles generous_Nil small_subject] tree_ab_parses
    by (simp add: numeral_3_eq_3)
qed

theorem Regex_isMatch_iff_witness:
  "\<not> fst (Regex_isMatch [] (Some regex_ab) (Some [ch_a, ch_a])) \<and>
   \<not> (\<exists>i j. i \<le> 2 \<and> (i, j) \<in> rxrel (searchArgs regex_ab [ch_a, ch_a]) tree_ab)"
proof -
  have "\<not> fst (Regex_isMatch [] (Some regex_ab) (Some [ch_a, ch_a]))" by code_simp
  then show ?thesis
    using Regex_isMatch_iff [OF regex_ab_compiles generous_Nil, of "[ch_a, ch_a]"] tree_ab_parses
    by (simp add: numeral_2_eq_2)
qed

theorem Regex_find_leftmost_witness:
  "fst (Regex_find [] (Some regex_ab) (Some [98, ch_a, 98]) True) =
     Some \<lparr>span_start = 0, span_end = 1\<rparr> \<and>
   (0, 1) \<in> rxrel (searchArgs regex_ab [98, ch_a, 98]) tree_ab"
proof -
  have "fst (Regex_find [] (Some regex_ab) (Some [98, ch_a, 98]) True) =
     Some \<lparr>span_start = 0, span_end = 1\<rparr>"
    by code_simp
  then show ?thesis
    using Regex_find_leftmost [OF regex_ab_compiles generous_Nil, of "[98, ch_a, 98]"] tree_ab_parses
    by (simp add: REGEX_UNSET_def)
qed

text \<open>The pattern \<open>(a)|(b)\<close>: one of the two groups takes no part.\<close>

definition regex_groups :: Regex where
  "regex_groups = \<lparr>rg_pattern = [ch_lparen, ch_a, ch_rparen, ch_bar, ch_lparen, 98, ch_rparen], rg_flags = 0, rg_groupCount = 2,
     rg_program = \<lparr>pr_insts = programCode (RAlt (RGroup 1 (RChar ch_a)) (RGroup 2 (RChar 98))), pr_capacity = 64\<rparr>,
     rg_classes = []\<rparr>"

lemma regex_groups_compiles: "Regex_2 [] (Some (rg_pattern regex_groups)) 0 = Some (Inr regex_groups, [])"
  by code_simp

theorem Regex_findGroups_inside_witness:
  "so_spans (fst (Regex_findGroups [] (Some regex_groups) (Some [99, 98]) (Some 3))) =
     [\<lparr>span_start = 1, span_end = 2\<rparr>, RegexSpan_none, \<lparr>span_start = 1, span_end = 2\<rparr>] \<and>
   (\<exists>t. patternTree [] (rg_pattern regex_groups) 0 = Some t \<and> (1, 2) \<in> rxrel (searchArgs regex_groups [99, 98]) t \<and>
     \<not> (\<exists>j. (0, j) \<in> rxrel (searchArgs regex_groups [99, 98]) t))"
proof -
  have spans: "so_spans (fst (Regex_findGroups [] (Some regex_groups) (Some [99, 98]) (Some 3))) =
     [\<lparr>span_start = 1, span_end = 2\<rparr>, RegexSpan_none, \<lparr>span_start = 1, span_end = 2\<rparr>]"
    by code_simp
  moreover have "length [99, 98 :: u8] < REGEX_UNSET" by (simp add: REGEX_UNSET_def)
  ultimately show ?thesis
    using Regex_findGroups_inside [OF regex_groups_compiles generous_Nil, of "[99, 98]" 3] by auto
qed

end
