(* ===== verification/Regex_Safety.thy ===== *)
theory Regex_Safety
  imports Regex_Search
begin

text \<open>
  Properties of the regular expression engine beside what it matches: compilation always
  returns, a compiled program cannot make the simulator index out of its tables, the closure
  stays within its work stack, the syntax tree is well formed, and case folding is blind to
  the case of the subject.
\<close>

section \<open>Compilation\<close>

text \<open>
C5: Compilation always comes to an end: \<open>Regex_2\<close> returns a compiled pattern or an error for
every pattern (a null one included), every flag word and every behaviour of the allocator;
the parser's recursion and the emitter's never run out.
\<close>

theorem Regex_2_returns: "\<exists>out m'. Regex_2 m pattern flags = Some (out, m')"
proof (cases pattern)
  case None
  then show ?thesis by (simp add: Regex_2_def)
next
  case (Some pat)
  obtain b1 m1 b2 m2 where alloc: "Memory_alloc m = (b1, m1)" "Memory_alloc m1 = (b2, m2)"
    by (metis surj_pair)
  have "\<exists>out m'. compilePattern m2 \<lparr>rg_pattern = pat, rg_flags = flags, rg_groupCount = 0,
      rg_program = RegexProgram_0, rg_classes = []\<rparr> pat = Some (out, m')"
    using compilePattern_cases [of "\<lparr>rg_pattern = pat, rg_flags = flags, rg_groupCount = 0,
      rg_program = RegexProgram_0, rg_classes = []\<rparr>" m2 pat] by fastforce
  then show ?thesis using Some alloc by (auto simp: Regex_2_def)
qed

lemma compiled_inst:
  assumes "rxWf c g t" and p: "p < length (programCode t)"
  defines "inst \<equiv> programCode t ! p"
  shows "(in_op inst = OP_JUMP \<longrightarrow> in_a inst < length (programCode t)) \<and>
    (in_op inst = OP_SPLIT \<longrightarrow> in_a inst < length (programCode t) \<and> in_b inst < length (programCode t)) \<and>
    (in_op inst = OP_CLASS \<longrightarrow> in_a inst < c) \<and>
    (in_op inst = OP_SAVE \<longrightarrow> in_a inst < 2 * (g + 1)) \<and>
    (in_op inst \<noteq> OP_MATCH \<longrightarrow> p + 1 < length (programCode t))"
  using p
proof (cases rule: programCode_cases)
  case body
  then show ?thesis
    using programCode_instOk [OF assms(1) body] unfolding inst_def instOk_def
    by (cases "in_op (programCode t ! p)") auto
qed (auto simp: inst_def mkInst_def)

text \<open>
C6: A compiled program is safe to run: every branch target is an instruction of the program,
every class index names one of its bitmaps, every capture slot lies within the capture
stride of its group count, only the last instruction has no successor, and the program is
within the ceiling.
\<close>

theorem Regex_2_safe:
  assumes "Regex_2 m (Some pat) flags = Some (Inr regex, m')"
    and "RegexProgram_at (rg_program regex) p = Some inst"
  shows "p < Regex_instCount (Some regex) \<and> Regex_instCount (Some regex) \<le> REGEX_MAX_PROGRAM \<and>
    (in_op inst = OP_JUMP \<longrightarrow> in_a inst < Regex_instCount (Some regex)) \<and>
    (in_op inst = OP_SPLIT \<longrightarrow>
       in_a inst < Regex_instCount (Some regex) \<and> in_b inst < Regex_instCount (Some regex)) \<and>
    (in_op inst = OP_CLASS \<longrightarrow> in_a inst < Regex_classCount (Some regex)) \<and>
    (in_op inst = OP_SAVE \<longrightarrow> in_a inst < 2 * (Regex_groupCount (Some regex) + 1)) \<and>
    (in_op inst \<noteq> OP_MATCH \<longrightarrow> p + 1 < Regex_instCount (Some regex))"
proof -
  obtain t where t: "compiledAs t regex" using Regex_2_compiled [OF assms(1)] by metis
  then have code: "pr_insts (rg_program regex) = programCode t"
    and wf: "rxWf (length (rg_classes regex)) (rg_groupCount regex) t"
    and max: "length (programCode t) \<le> REGEX_MAX_PROGRAM"
    by (simp_all add: compiledAs_def del: length_programCode)
  have count: "Regex_instCount (Some regex) = length (programCode t)"
    using code by (simp add: Regex_instCount_def RegexProgram_count_def)
  have p: "p < length (programCode t)" "inst = programCode t ! p"
    using assms(2) code
    by (auto simp: RegexProgram_at_def RegexProgram_count_def split: if_splits)
  show ?thesis
    using compiled_inst [OF wf p(1)] p(1) max unfolding count p(2)
    by (simp add: Regex_classCount_def Regex_groupCount_def del: length_programCode)
qed

theorem Regex_2_safe_witness:
  "RegexProgram_at (rg_program regex_ab) 1 = Some (mkInst OP_SPLIT 0 2 4) \<and>
   2 < Regex_instCount (Some regex_ab) \<and> 4 < Regex_instCount (Some regex_ab)"
proof -
  have at: "RegexProgram_at (rg_program regex_ab) 1 = Some (mkInst OP_SPLIT 0 2 4)" by code_simp
  show ?thesis using Regex_2_safe [OF regex_ab_compiles at] at by (simp add: mkInst_def)
qed

text \<open>
C8: The emitter lays out an automaton for the tree: the program built from a well-formed node
list, run from its first instruction, reaches its last one, \<open>MATCH\<close>, exactly along the
pairs of the denotation of the tree below the root, capture slots included.
\<close>

theorem RegexProgram_build_thompson:
  assumes "treeWf (nl_nodes nodes) c g" and "root < nl_count nodes"
    and "RegexProgram_build (RegexProgram_0, m) nodes root = Some (True, (program, m'))"
  shows "\<exists>t. treeAt (nl_nodes nodes) root = Some t \<and>
    (creach r (pr_insts program) (0, x) (RegexProgram_count program - 1, y) \<longleftrightarrow>
     (x, y) \<in> wholeRel r t)"
proof -
  have "treeAt (nl_nodes nodes) root \<noteq> None"
    unfolding treeAt_def
    by (rule nodeTree_defined [OF assms(1)]) (use assms(2) in \<open>auto simp: nl_count_def\<close>)
  then obtain t where t: "treeAt (nl_nodes nodes) root = Some t" by blast
  then have wf: "rxWf c g t" unfolding treeAt_def by (rule nodeTree_wf [OF assms(1)])
  have "pr_insts program = programCode t" using build_yields [OF t, of m] assms(3) by auto
  then show ?thesis
    using t program_reach [OF wf] by (auto simp: RegexProgram_count_def matchPc_def)
qed

text \<open>A node list that holds the one literal \<open>b\<close>.\<close>

definition nodes_b :: RegexNodeList where
  "nodes_b = \<lparr>nl_nodes = [(zeroNode NODE_CHAR)\<lparr>nd_byte := 98\<rparr>], nl_capacity = 64\<rparr>"

theorem RegexProgram_build_thompson_witness:
  "\<exists>program m'. RegexProgram_build (RegexProgram_0, []) nodes_b 0 = Some (True, (program, m')) \<and>
    (\<forall>r x y. \<exists>t. treeAt (nl_nodes nodes_b) 0 = Some t \<and>
      (creach r (pr_insts program) (0, x) (RegexProgram_count program - 1, y) \<longleftrightarrow>
       (x, y) \<in> wholeRel r t))"
proof -
  have wf: "treeWf (nl_nodes nodes_b) 0 0" "0 < nl_count nodes_b"
    by (simp_all add: nodes_b_def treeWf_def nodeOk_def zeroNode_def nl_count_def)
  have "treeAt (nl_nodes nodes_b) 0 = Some (RChar 98)" by code_simp
  then obtain ok program m' where
      b: "RegexProgram_build (RegexProgram_0, []) nodes_b 0 = Some (ok, (program, m'))"
        "ok \<or> length (programCode (RChar 98)) > REGEX_MAX_PROGRAM"
    using build_yields [of nodes_b 0 "RChar 98" "[]"] by (auto split: if_splits)
  then have "RegexProgram_build (RegexProgram_0, []) nodes_b 0 = Some (True, (program, m'))"
    by (simp add: REGEX_MAX_PROGRAM_def)
  then show ?thesis using RegexProgram_build_thompson [OF wf] by blast
qed

text \<open>
C9: The parser delivers well-formed trees: for every pattern and every behaviour of the
allocator it leaves its cursor inside the pattern, its tables within their ceilings and
capacities, every node with its children before it and its group and class in range, and it
gives a root exactly when it has not failed.
\<close>

theorem RegexParser_parse_wellformed:
  assumes "RegexParser_parse (RegexParser_3 m pat ic) = Some (root, p)"
  shows "ps_pos p \<le> length pat \<and> nl_count (ps_nodes p) \<le> REGEX_MAX_NODES \<and>
    nl_count (ps_nodes p) \<le> nl_capacity (ps_nodes p) \<and>
    length (ps_classes p) \<le> REGEX_MAX_CLASSES \<and> length (ps_classes p) \<le> ps_classCapacity p \<and>
    ps_depth p = 0 \<and> treeWf (nl_nodes (ps_nodes p)) (length (ps_classes p)) (ps_groupCount p) \<and>
    (case root of None \<Rightarrow> \<not> RegexParser_ok p
     | Some i \<Rightarrow> RegexParser_ok p \<and> i < nl_count (ps_nodes p))"
  using RegexParser_parse_delivers [OF assms]
  by (auto simp: delivers_def parserWf_def extends_def RegexParser_3_def RegexParser_ok_def
      split: option.splits)

theorem RegexParser_parse_wellformed_witness:
  "\<exists>p. RegexParser_parse (RegexParser_3 [] [ch_lparen] False) = Some (None, p) \<and> \<not> RegexParser_ok p"
proof -
  have "map_option fst (RegexParser_parse (RegexParser_3 [] [ch_lparen] False)) = Some None" by code_simp
  then obtain p where "RegexParser_parse (RegexParser_3 [] [ch_lparen] False) = Some (None, p)" by auto
  then show ?thesis using RegexParser_parse_wellformed by fastforce
qed

section \<open>The work stack of the closure\<close>

text \<open>
  The run with the bound of the block \<open>stack\<close> checked: before each round of each closure the tasks
  pending are counted against \<open>vm_stackCapacity\<close>, and \<open>None\<close> is a push behind the block.  A round pops
  before it pushes, so the count after a round is the greatest in it.
\<close>

partial_function (option) closureChecked ::
    "u8 list \<Rightarrow> bool \<Rightarrow> nat \<Rightarrow> RegexTask list \<Rightarrow> RegexVm \<times> RegexList \<Rightarrow> (RegexVm \<times> RegexList) option" where
  "closureChecked subject multiline pos stack s =
     (if vm_stackCapacity (fst s) < length stack then None
      else case stack of
        [] \<Rightarrow> Some s
      | task # tasks \<Rightarrow>
          let out = closureStep subject multiline pos task tasks s
          in closureChecked subject multiline pos (snd out) (fst out))"

declare closureChecked.simps [code]

definition addThreadChecked ::
    "u8 list \<Rightarrow> bool \<Rightarrow> nat \<Rightarrow> nat \<Rightarrow> nat list \<Rightarrow> RegexVm \<times> RegexList \<Rightarrow> (RegexVm \<times> RegexList) option" where
  "addThreadChecked subject multiline pos pc0 parentCaps s =
     closureChecked subject multiline pos [taskPc pc0]
       ((fst s)\<lparr>vm_work := take (vm_capStride (fst s)) parentCaps\<rparr>, snd s)"

fun stepThreadsChecked ::
    "RunArgs \<Rightarrow> nat \<Rightarrow> (nat \<times> nat) list \<Rightarrow> bool \<Rightarrow> RegexVm \<times> RegexList \<Rightarrow>
     (bool \<times> (RegexVm \<times> RegexList)) option" where
  "stepThreadsChecked r pos [] matched s = Some (matched, s)"
| "stepThreadsChecked r pos ((pc, cap) # ts) matched s =
     (case RegexProgram_at (vm_program (fst s)) pc of
        None \<Rightarrow> stepThreadsChecked r pos ts matched s
      | Some raw \<Rightarrow>
          if in_op raw = OP_MATCH then
            if ra_full r \<and> pos \<noteq> ra_length r then stepThreadsChecked r pos ts matched s
            else Some (True, ((fst s)\<lparr>vm_best := take (vm_capStride (fst s)) (vm_caps (fst s) ! cap)\<rparr>, snd s))
          else if pos < ra_length r \<and>
              instMatches (ra_classes r) raw (foldByte (ra_options r) (ra_subject r ! pos)) (ra_options r)
          then Option.bind
            (addThreadChecked (ra_subject r) (op_multiline (ra_options r)) (pos + 1) (pc + 1) (vm_caps (fst s) ! cap) s)
            (stepThreadsChecked r pos ts matched)
          else stepThreadsChecked r pos ts matched s)"

definition seedThreadChecked ::
    "RunArgs \<Rightarrow> nat \<Rightarrow> bool \<Rightarrow> RegexVm \<times> RegexList \<Rightarrow> (RegexVm \<times> RegexList) option" where
  "seedThreadChecked r pos matched s =
     (if \<not> matched \<and> (\<not> ra_anchored r \<or> pos = 0) \<and> pos \<le> ra_length r
      then addThreadChecked (ra_subject r) (op_multiline (ra_options r)) pos 0 (vm_seed (fst s)) s
      else Some s)"

partial_function (option) runChecked ::
    "RunArgs \<Rightarrow> nat \<Rightarrow> bool \<Rightarrow> RegexVm \<Rightarrow> RegexList \<Rightarrow> RegexList \<Rightarrow> (bool \<times> RegexVm) option" where
  "runChecked r pos matched vm clist nlist =
     (if ls_pc clist = [] \<and> matched then Some (matched, vm)
      else Option.bind (seedThreadChecked r pos matched (vm, clist)) (\<lambda>(vm1, clist1).
        Option.bind (stepThreadsChecked r pos (zip (ls_pc clist1) (ls_cap clist1)) matched (vm1, emptyList nlist))
          (\<lambda>(matched2, vm2, nlist2).
            if pos \<ge> ra_length r then Some (matched2, vm2)
            else runChecked r (pos + 1) matched2 vm2 nlist2 clist1)))"

declare runChecked.simps [code]

text \<open>The block has room for a task and one more for every instruction; that is all a closure needs.\<close>

definition roomy :: "RegexVm \<Rightarrow> bool" where
  "roomy vm \<longleftrightarrow> RegexProgram_count (vm_program vm) + 1 \<le> vm_stackCapacity vm"

lemma roomy_work [simp]: "roomy (vm\<lparr>vm_work := w\<rparr>) = roomy vm" "roomy (vm\<lparr>vm_best := x\<rparr>) = roomy vm"
  by (simp_all add: roomy_def)

lemma pushThread_capacity [simp]: "vm_stackCapacity (fst (pushThread vm list pc)) = vm_stackCapacity vm"
  by (simp add: pushThread_def Let_def)

lemma closureStep_capacity [simp]:
  "vm_stackCapacity (fst (fst (closureStep subject ml pos task stack s))) = vm_stackCapacity (fst s)"
  by (auto simp: closureStep_def Let_def split: prod.splits option.splits RegexOp.splits)

lemma closureStep_pushes: "length (snd (closureStep subject ml pos task stack s)) \<le> length stack + 2"
  by (auto simp: closureStep_def Let_def split: prod.splits option.splits RegexOp.splits)

text \<open>A round that pushes also marks a position for the first time.\<close>

lemma closureStep_budget:
  "length (snd (closureStep subject ml pos task stack s)) + unseen (fst (closureStep subject ml pos task stack s))
   \<le> length (task # stack) + unseen s"
  using closureStep_decreases [of subject ml pos task stack s] closureStep_pushes [of subject ml pos task stack s]
  by auto

lemma unseen_le: "unseen s \<le> RegexProgram_count (vm_program (fst s))"
proof -
  have "unseen s \<le> card {..<RegexProgram_count (vm_program (fst s))}"
    unfolding unseen_def by (rule card_mono) auto
  then show ?thesis by simp
qed

lemma closureChecked_closure:
  "length stack + unseen s \<le> vm_stackCapacity (fst s) \<Longrightarrow>
   closureChecked subject ml pos stack s = Some (closure subject ml pos stack s)"
proof (induction subject ml pos stack s rule: closure.induct)
  case (1 subject ml pos s)
  then show ?case by (simp add: closureChecked.simps)
next
  case (2 subject ml pos task stack s)
  have "closureChecked subject ml pos (task # stack) s =
      closureChecked subject ml pos (snd (closureStep subject ml pos task stack s))
        (fst (closureStep subject ml pos task stack s))"
    using "2.prems" by (subst closureChecked.simps) (simp add: Let_def)
  with 2 closureStep_budget [of subject ml pos task stack s] show ?case by (simp add: Let_def)
qed

lemma closure_roomy: "roomy (fst (closure subject ml pos stack s)) = roomy (fst s)"
  by (induction subject ml pos stack s rule: closure.induct) (simp_all add: Let_def roomy_def)

lemma addThreadChecked_addThread:
  assumes "roomy (fst s)"
  shows "addThreadChecked subject ml pos pc caps s = Some (addThread subject ml pos pc caps s)"
    and "roomy (fst (addThread subject ml pos pc caps s))"
proof -
  let ?s = "((fst s)\<lparr>vm_work := take (vm_capStride (fst s)) caps\<rparr>, snd s)"
  have "unseen ?s + 1 \<le> vm_stackCapacity (fst ?s)"
    using unseen_le [of ?s] assms by (simp add: roomy_def)
  then show "addThreadChecked subject ml pos pc caps s = Some (addThread subject ml pos pc caps s)"
    unfolding addThreadChecked_def addThread_def by (intro closureChecked_closure) simp
  show "roomy (fst (addThread subject ml pos pc caps s))"
    using assms unfolding addThread_def closure_roomy by simp
qed

lemma stepThreadsChecked_stepThreads:
  "roomy (fst s) \<Longrightarrow> stepThreadsChecked r pos ts matched s = Some (stepThreads r pos ts matched s) \<and>
   roomy (fst (snd (stepThreads r pos ts matched s)))"
  by (induction r pos ts matched s rule: stepThreads.induct)
    (auto simp: stepThreads.simps(2) addThreadChecked_addThread split: option.splits)

lemma seedThreadChecked_seedThread:
  "roomy (fst s) \<Longrightarrow> seedThreadChecked r pos matched s = Some (seedThread r pos matched s) \<and>
   roomy (fst (seedThread r pos matched s))"
  by (simp add: seedThreadChecked_def seedThread_def addThreadChecked_addThread)

lemma runChecked_runLoop:
  "roomy vm \<Longrightarrow> runChecked r pos matched vm clist nlist = Some (runLoop r pos matched vm clist nlist)"
proof (induction r pos matched vm clist nlist rule: runLoop.induct)
  case (1 r pos matched vm clist nlist)
  obtain vm1 clist1 where seed: "seedThread r pos matched (vm, clist) = (vm1, clist1)" by fastforce
  obtain matched2 vm2 nlist2 where step: "stepThreads r pos (zip (ls_pc clist1) (ls_cap clist1)) matched
      (vm1, emptyList nlist) = (matched2, vm2, nlist2)" by (metis prod.exhaust)
  have "roomy vm1" "seedThreadChecked r pos matched (vm, clist) = Some (vm1, clist1)"
    using seedThreadChecked_seedThread [of "(vm, clist)" r pos matched] 1(2) seed by simp_all
  moreover from this have "roomy vm2" "stepThreadsChecked r pos (zip (ls_pc clist1) (ls_cap clist1)) matched
      (vm1, emptyList nlist) = Some (matched2, vm2, nlist2)"
    using stepThreadsChecked_stepThreads [of "(vm1, emptyList nlist)" r pos "zip (ls_pc clist1) (ls_cap clist1)" matched] step
    by simp_all
  ultimately show ?case
    using 1(1) seed step by (subst runChecked.simps, subst runLoop.simps) simp
qed

text \<open>
C7: The work stack never overflows: on a machine built by \<open>RegexVm_2\<close>, for any program, subject and options, the run
in which every closure of every call of \<open>addThread\<close> is checked against the size of the block
never stops at the check, and is the run.
\<close>

theorem closure_stack_fits:
  assumes "RegexVm_2 m program groupCount = (Some vm, m')"
  shows "runChecked r 0 False vm
      \<lparr>ls_pc = [], ls_cap = [], ls_seen = (\<lambda>_. False), ls_capBase = 0\<rparr>
      \<lparr>ls_pc = [], ls_cap = [], ls_seen = (\<lambda>_. False), ls_capBase = vm_capRowCount vm\<rparr> = Some (runVm r vm)"
proof -
  have "vm_program vm = program" "vm_stackCapacity vm = 4 * RegexProgram_count program + 8"
    using assms by (auto simp: RegexVm_2_def vmInitialize_def Let_def split: if_splits prod.splits)
  then show ?thesis unfolding runVm_def by (intro runChecked_runLoop) (simp add: roomy_def)
qed

text \<open>The machine of \<open>(a)|(b)\<close> on a subject of two bytes: it seeds three times and moves a thread on.\<close>

theorem closure_stack_fits_witness:
  "\<exists>vm m'. RegexVm_2 [] (rg_program regex_groups) 2 = (Some vm, m') \<and>
    map_option fst (runChecked (runArgs regex_groups [99, 98] False) 0 False vm
      \<lparr>ls_pc = [], ls_cap = [], ls_seen = (\<lambda>_. False), ls_capBase = 0\<rparr>
      \<lparr>ls_pc = [], ls_cap = [], ls_seen = (\<lambda>_. False), ls_capBase = vm_capRowCount vm\<rparr>) = Some True"
proof -
  obtain vm m' where vm: "RegexVm_2 [] (rg_program regex_groups) 2 = (Some vm, m')"
    "fst (runVm (runArgs regex_groups [99, 98] False) vm)"
  proof -
    have "case RegexVm_2 [] (rg_program regex_groups) 2 of
        (Some vm, _) \<Rightarrow> fst (runVm (runArgs regex_groups [99, 98] False) vm) | _ \<Rightarrow> False"
      by code_simp
    then show thesis using that by (auto split: prod.splits option.splits)
  qed
  then show ?thesis
    using closure_stack_fits [OF vm(1), of "runArgs regex_groups [99, 98] False"]
    by (intro exI [of _ vm] exI [of _ m']) simp
qed

section \<open>Case folding\<close>

definition sameFrom :: "RunArgs \<Rightarrow> RunArgs \<Rightarrow> bool" where
  "sameFrom r r' \<longleftrightarrow> ra_classes r = ra_classes r' \<and> ra_length r = ra_length r' \<and>
     op_dotall (ra_options r) = op_dotall (ra_options r') \<and>
     (\<forall>i<ra_length r. byteAt r i = byteAt r' i) \<and>
     (\<forall>i\<le>ra_length r. bolAt r i = bolAt r' i \<and> eolAt r i = eolAt r' i)"

lemma rxrel_bound: "(i, j) \<in> rxrel r t \<Longrightarrow> i \<le> ra_length r \<Longrightarrow> j \<le> ra_length r"
proof (induction t arbitrary: i j)
  case (RStar t)
  have "(i, j) \<in> (rxrel r t)\<^sup>*" using RStar.prems by simp
  then show ?case by (induction rule: rtrancl_induct) (use RStar in auto)
next
  case (RPlus t)
  have "(i, j) \<in> (rxrel r t)\<^sup>+" using RPlus.prems by simp
  then show ?case by (induction rule: trancl_induct) (use RPlus in auto)
next
  case (RRepeat t lo hi)
  have "(i, j) \<in> rxrel r t ^^ n \<Longrightarrow> j \<le> ra_length r" for n
    by (induction n arbitrary: j) (use RRepeat in auto)
  then show ?case using RRepeat.prems by auto
qed auto

lemma rxrel_same:
  assumes same: "sameFrom r r'"
  shows "(i, j) \<in> rxrel r t \<Longrightarrow> i \<le> ra_length r \<Longrightarrow> (i, j) \<in> rxrel r' t"
proof (induction t arbitrary: i j)
  case (RCat a b)
  then obtain k where k: "(i, k) \<in> rxrel r a" "(k, j) \<in> rxrel r b" by auto
  then have "k \<le> ra_length r" using rxrel_bound RCat.prems(2) by blast
  then have "(i, k) \<in> rxrel r' a" "(k, j) \<in> rxrel r' b" using RCat.IH k RCat.prems(2) by blast+
  then show ?case by auto
next
  case (RStar t)
  have "(i, j) \<in> (rxrel r t)\<^sup>*" using RStar.prems by simp
  then have "(i, j) \<in> (rxrel r' t)\<^sup>* \<and> j \<le> ra_length r"
    by (induction rule: rtrancl_induct)
      (use RStar in \<open>auto dest: rxrel_bound intro: rtrancl_into_rtrancl\<close>)
  then show ?case by simp
next
  case (RPlus t)
  have "(i, j) \<in> (rxrel r t)\<^sup>+" using RPlus.prems by simp
  then have "(i, j) \<in> (rxrel r' t)\<^sup>+ \<and> j \<le> ra_length r"
    by (induction rule: trancl_induct)
      (use RPlus in \<open>auto dest: rxrel_bound intro: trancl_into_trancl\<close>)
  then show ?case by simp
next
  case (RRepeat t lo hi)
  have "(i, j) \<in> rxrel r t ^^ n \<Longrightarrow> (i, j) \<in> rxrel r' t ^^ n \<and> j \<le> ra_length r" for n
    by (induction n arbitrary: j) (use RRepeat in \<open>auto dest: rxrel_bound\<close>)
  then show ?case using RRepeat.prems by auto
qed (use same in \<open>auto simp: sameFrom_def anyAt_def\<close>)

lemma sameFrom_sym: "sameFrom r r' \<Longrightarrow> sameFrom r' r"
  by (auto simp: sameFrom_def)

lemma lower_newline: "vmLowerByte c = ch_newline \<longleftrightarrow> c = ch_newline"
  by (simp add: vmLowerByte_def word_le_nat_alt u8_eq_iff_unat unat_word_ariths)

lemma lower_lower: "vmLowerByte (vmLowerByte c) = vmLowerByte c"
  by (simp add: vmLowerByte_def word_le_nat_alt unat_word_ariths)

lemma lower_same:
  assumes "rg_flags regex AND REGEX_CASE_INSENSITIVE \<noteq> 0"
  shows "sameFrom (searchArgs regex (map vmLowerByte s)) (searchArgs regex s)"
  using assms
  by (auto simp: sameFrom_def searchArgs_def byteAt_def foldByte_def regexOptions_def bolAt_def
      eolAt_def atBol_def atEol_def lower_lower lower_newline)

text \<open>The pattern \<open>b\<close>, compiled case-insensitive.\<close>

definition regex_b_ic :: Regex where
  "regex_b_ic = \<lparr>rg_pattern = [98], rg_flags = 1, rg_groupCount = 0,
     rg_program = \<lparr>pr_insts = programCode (RChar 98), pr_capacity = 64\<rparr>, rg_classes = []\<rparr>"

text \<open>
A case-insensitive pattern is blind to the case of the subject: lowering every ASCII
letter of the subject changes neither \<open>Regex_isMatch\<close> nor \<open>Regex_isFullMatch\<close>.
\<close>

theorem Regex_case_blind:
  assumes "Regex_2 m (Some pat) flags = Some (Inr regex, m')"
    and "flags AND REGEX_CASE_INSENSITIVE \<noteq> 0" and "generous m2" and "length s < REGEX_UNSET"
  shows "fst (Regex_isMatch m2 (Some regex) (Some (map vmLowerByte s))) =
      fst (Regex_isMatch m2 (Some regex) (Some s)) \<and>
    fst (Regex_isFullMatch m2 (Some regex) (Some (map vmLowerByte s))) =
      fst (Regex_isFullMatch m2 (Some regex) (Some s))"
proof -
  obtain t where t: "compiledAs t regex" "rg_flags regex = flags"
    using Regex_2_compiled [OF assms(1)] by metis
  note same = lower_same [of regex s, unfolded t(2), OF assms(2)]
  have spans: "matchSpans regex t (map vmLowerByte s) a = matchSpans regex t s a" for a
    using rxrel_same [OF same] rxrel_same [OF sameFrom_sym [OF same]]
    unfolding matchSpans_def by (auto simp: searchArgs_def)
  have hit: "so_hit (fst (runSearch m2 (Some regex) (Some (map vmLowerByte s)) a (Some 1))) =
      so_hit (fst (runSearch m2 (Some regex) (Some s) a (Some 1)))" for a
    using runSearch_hit [OF t(1) assms(3) prod.collapse [symmetric]] spans by simp
  have full: "fst (Regex_isFullMatch m2 (Some regex) (Some s')) =
      so_hit (fst (runSearch m2 (Some regex) (Some s') True (Some 1)))" if "length s' = length s" for s'
    using full_match_hit [OF t(1), of s' m2] assms(4) that by simp
  show ?thesis using hit full by (simp add: Regex_isMatch_def case_prod_beta)
qed

theorem Regex_case_blind_witness:
  "fst (Regex_isMatch [] (Some regex_b_ic) (Some [ch_a, 66])) \<and>
   fst (Regex_isMatch [] (Some regex_b_ic) (Some [ch_a, 98]))"
proof -
  have compiles: "Regex_2 [] (Some [98]) 1 = Some (Inr regex_b_ic, [])" by code_simp
  have "fst (Regex_isMatch [] (Some regex_b_ic) (Some [ch_a, 66]))" by code_simp
  moreover have "map vmLowerByte [ch_a, 66] = [ch_a, 98]" by code_simp
  ultimately show ?thesis
    using Regex_case_blind [OF compiles _ generous_Nil, of "[ch_a, 66]"]
    by (simp add: REGEX_CASE_INSENSITIVE_def REGEX_UNSET_def)
qed

end
