(* ===== verification/Bytes.thy ===== *)
theory Bytes
  imports Prelude
begin

text \<open>
  Byte buffers and machine arithmetic for the components that own raw storage: wrap-around at
  32 and 64 bits on naturals, little-endian scalars inside a buffer, and the block moves of the
  C library (\<open>memcpy\<close>, \<open>memmove\<close>, \<open>memset\<close>) on buffers that are lists of bytes.
\<close>

named_theorems buffer \<open>reads of a buffer after a write or a block move\<close>

section \<open>Unsigned arithmetic on naturals\<close>

definition wrap32 :: "nat \<Rightarrow> nat" where
  "wrap32 n = n mod 4294967296"

definition wrap64 :: "nat \<Rightarrow> nat" where
  "wrap64 n = n mod 18446744073709551616"

abbreviation UINT32_MAX :: nat where "UINT32_MAX \<equiv> 4294967295"

lemma wrap32_id [simp]: "n < 4294967296 \<Longrightarrow> wrap32 n = n"
  by (simp add: wrap32_def)

lemma wrap64_id [simp]: "n < 18446744073709551616 \<Longrightarrow> wrap64 n = n"
  by (simp add: wrap64_def)

lemma wrap32_less [simp, intro]: "wrap32 n < 4294967296"
  by (simp add: wrap32_def)

lemma wrap64_less [simp, intro]: "wrap64 n < 18446744073709551616"
  by (simp add: wrap64_def)

lemma wrap32_le: "wrap32 n \<le> n" and wrap64_le: "wrap64 n \<le> n"
  by (simp_all add: wrap32_def wrap64_def)

section \<open>Little-endian scalars\<close>

primrec le_read :: "u8 list \<Rightarrow> 'a::len word" where
  "le_read [] = 0"
| "le_read (b # bs) = ucast b OR push_bit 8 (le_read bs)"

primrec le_write :: "nat \<Rightarrow> 'a::len word \<Rightarrow> u8 list" where
  "le_write 0 v = []"
| "le_write (Suc n) v = ucast v # le_write n (drop_bit 8 v)"

lemma length_le_write [simp]: "length (le_write n v) = n"
  by (induction n arbitrary: v) simp_all

lemma bit_u8_less: "bit (b :: u8) i \<Longrightarrow> i < 8"
  by (auto dest: bit_imp_le_length)

lemma le_read_write: "le_read (le_write n v) = take_bit (8 * n) v"
proof (induction n arbitrary: v)
  case 0
  then show ?case by simp
next
  case (Suc n)
  show ?case
    unfolding le_write.simps le_read.simps Suc
    by (rule bit_word_eqI)
      (auto simp: bit_or_iff bit_push_bit_iff bit_take_bit_iff bit_drop_bit_eq bit_ucast_iff
        dest: bit_imp_le_length)
qed

lemma le_read_bit:
  "i < LENGTH('a) \<Longrightarrow>
   bit (le_read bs :: 'a::len word) i \<longleftrightarrow> i div 8 < length bs \<and> bit (bs ! (i div 8)) (i mod 8)"
proof (induction bs arbitrary: i)
  case Nil
  then show ?case by simp
next
  case (Cons b bs)
  show ?case
  proof (cases "i < 8")
    case True
    then show ?thesis using Cons.prems by (simp add: bit_or_iff bit_push_bit_iff bit_ucast_iff)
  next
    case False
    then have i: "i div 8 = Suc ((i - 8) div 8)" "i mod 8 = (i - 8) mod 8"
      by (simp_all add: le_div_geq le_mod_geq)
    have "\<not> bit b i" using False by (auto dest: bit_u8_less)
    then show ?thesis
      using Cons.IH [of "i - 8"] Cons.prems False i
      by (simp add: bit_or_iff bit_push_bit_iff bit_ucast_iff)
  qed
qed

lemma le_write_nth: "i < n \<Longrightarrow> le_write n v ! i = ucast (drop_bit (8 * i) v)"
  by (induction n arbitrary: v i) (auto simp: less_Suc_eq_0_disj drop_bit_drop_bit ac_simps)

lemma le_write_read:
  assumes "8 * length bs \<le> LENGTH('a)"
  shows "le_write (length bs) (le_read bs :: 'a::len word) = bs"
proof (rule nth_equalityI)
  show "length (le_write (length bs) (le_read bs :: 'a word)) = length bs" by simp
  fix i assume "i < length (le_write (length bs) (le_read bs :: 'a word))"
  then have i: "i < length bs" by simp
  have "ucast (drop_bit (8 * i) (le_read bs :: 'a word)) = bs ! i"
  proof (rule bit_word_eqI)
    fix j assume j: "j < LENGTH(8)"
    then have "8 * i + j < 8 * Suc i" by simp
    also have "\<dots> \<le> LENGTH('a)" using i assms by simp
    finally have "8 * i + j < LENGTH('a)" .
    moreover have "(8 * i + j) div 8 = i" "(8 * i + j) mod 8 = j" using j by simp_all
    ultimately show "bit (ucast (drop_bit (8 * i) (le_read bs :: 'a word)) :: u8) j = bit (bs ! i) j"
      using i j le_read_bit [where 'a = 'a, of "8 * i + j" bs]
      by (simp add: bit_ucast_iff bit_drop_bit_eq)
  qed
  then show "le_write (length bs) (le_read bs :: 'a word) ! i = bs ! i"
    using i by (simp add: le_write_nth)
qed

lemma le_read_inject:
  assumes "length bs = length cs" and "8 * length bs \<le> LENGTH('a)"
  shows "(le_read bs :: 'a::len word) = le_read cs \<longleftrightarrow> bs = cs"
  using assms le_write_read [where 'a = 'a, of bs] le_write_read [where 'a = 'a, of cs] by metis

section \<open>Buffers\<close>

definition mem_read :: "u8 list \<Rightarrow> nat \<Rightarrow> nat \<Rightarrow> u8 list" where
  "mem_read d off n = take n (drop off d)"

definition mem_write :: "u8 list \<Rightarrow> nat \<Rightarrow> u8 list \<Rightarrow> u8 list" where
  "mem_write d off bs = take off d @ bs @ drop (off + length bs) d"

definition memcpy :: "u8 list \<Rightarrow> nat \<Rightarrow> u8 list \<Rightarrow> nat \<Rightarrow> nat \<Rightarrow> u8 list" where
  "memcpy dst doff src soff n = mem_write dst doff (mem_read src soff n)"

definition memset :: "u8 list \<Rightarrow> nat \<Rightarrow> u8 \<Rightarrow> nat \<Rightarrow> u8 list" where
  "memset d off b n = mem_write d off (replicate n b)"

lemma length_mem_read [simp]: "off + n \<le> length d \<Longrightarrow> length (mem_read d off n) = n"
  by (simp add: mem_read_def)

lemma length_mem_write [simp]:
  "off + length bs \<le> length d \<Longrightarrow> length (mem_write d off bs) = length d"
  by (simp add: mem_write_def)

lemma length_memcpy [simp]:
  "doff + n \<le> length dst \<Longrightarrow> soff + n \<le> length src \<Longrightarrow>
   length (memcpy dst doff src soff n) = length dst"
  by (simp add: memcpy_def)

lemma length_memset [simp]: "off + n \<le> length d \<Longrightarrow> length (memset d off b n) = length d"
  by (simp add: memset_def)

lemma mem_read_nth: "i < n \<Longrightarrow> off + n \<le> length d \<Longrightarrow> mem_read d off n ! i = d ! (off + i)"
  by (simp add: mem_read_def)

lemma mem_write_nth:
  "off + length bs \<le> length d \<Longrightarrow> i < length d \<Longrightarrow>
   mem_write d off bs ! i = (if off \<le> i \<and> i < off + length bs then bs ! (i - off) else d ! i)"
  by (auto simp: mem_write_def nth_append min_def)

lemma mem_read_write_same [buffer]:
  "off + length bs \<le> length d \<Longrightarrow> mem_read (mem_write d off bs) off (length bs) = bs"
  by (simp add: mem_read_def mem_write_def)

lemma mem_read_write_prefix:
  "off + length bs \<le> length d \<Longrightarrow> n \<le> length bs \<Longrightarrow>
   mem_read (mem_write d off bs) off n = take n bs"
  by (simp add: mem_read_def mem_write_def)

lemma mem_read_write_apart [buffer]:
  assumes "off + length bs \<le> length d" "o' + n \<le> length d"
    and "o' + n \<le> off \<or> off + length bs \<le> o'"
  shows "mem_read (mem_write d off bs) o' n = mem_read d o' n"
  by (rule nth_equalityI) (use assms in \<open>auto simp: mem_read_nth mem_write_nth\<close>)

lemma mem_read_read:
  "i + n \<le> m \<Longrightarrow> mem_read (mem_read d off m) i n = mem_read d (off + i) n"
  by (simp add: mem_read_def drop_take min_def add.commute)

lemma mem_read_memcpy_in [buffer]:
  assumes "doff + m \<le> length dst" "soff + m \<le> length src" "doff \<le> p" "p + n \<le> doff + m"
  shows "mem_read (memcpy dst doff src soff m) p n = mem_read src (soff + (p - doff)) n"
  by (rule nth_equalityI)
    (use assms in \<open>auto simp: memcpy_def mem_read_nth mem_write_nth add.assoc\<close>)

lemma mem_read_memcpy_apart [buffer]:
  assumes "doff + m \<le> length dst" "soff + m \<le> length src" "p + n \<le> length dst"
    and "p + n \<le> doff \<or> doff + m \<le> p"
  shows "mem_read (memcpy dst doff src soff m) p n = mem_read dst p n"
  unfolding memcpy_def by (rule mem_read_write_apart) (use assms in auto)

lemma memcpy_prefix:
  "n \<le> length dst \<Longrightarrow> n \<le> length src \<Longrightarrow> memcpy dst 0 src 0 n = take n src @ drop n dst"
  by (simp add: memcpy_def mem_write_def mem_read_def)

end
