(* ===== verification/Memory.thy ===== *)
theory Memory
  imports Bytes
begin

text \<open>
  The world the owners of storage run in.  The allocator of the storage engine is not part of
  the repository: what it answers is a parameter, a list with one entry per request of the run
  (refused, or granted with whatever bytes the block happens to hold; after the list every
  request is granted and reads as zero).  Beside it the world holds the process-wide accounting
  of \<open>src/struct/exhaustion.c\<close> and the one constant of the type registry the code reads that
  the repository does not define, the class mask.  Diagnostics printed by \<open>THROW\<close> leave no
  trace in the state and are not modelled; the counters and flags around them are.
\<close>

section \<open>Answers of the allocator\<close>

type_synonym residue = "nat \<Rightarrow> u8"

record World =
  answers :: "residue option list"
  s_constructionCount :: u64
  s_constructionReported :: bool
  MASK_CLASS :: u64

definition Memory_ask :: "World \<Rightarrow> residue option \<times> World" where
  "Memory_ask w = (case answers w of
     [] \<Rightarrow> (Some (\<lambda>_. 0), w)
   | a # as \<Rightarrow> (a, w\<lparr>answers := as\<rparr>))"

text \<open>A block whose contents nobody reads before writing them (a struct).\<close>

definition Memory_object :: "World \<Rightarrow> bool \<times> World" where
  "Memory_object w = (let (a, w1) = Memory_ask w in (a \<noteq> None, w1))"

text \<open>A buffer of \<open>n\<close> bytes.\<close>

definition Memory_bytes :: "nat \<Rightarrow> World \<Rightarrow> u8 list option \<times> World" where
  "Memory_bytes n w =
     (let (a, w1) = Memory_ask w in (map_option (\<lambda>f. map f [0 ..< n]) a, w1))"

text \<open>A world that grants every request.\<close>

definition willing :: "World \<Rightarrow> bool" where
  "willing w \<longleftrightarrow> list_all (\<lambda>a. a \<noteq> None) (answers w)"

lemma Memory_ask_willing:
  "willing w \<Longrightarrow> Memory_ask w = (a, w') \<Longrightarrow> a \<noteq> None \<and> willing w'"
  by (auto simp: Memory_ask_def willing_def split: list.splits)

lemma Memory_object_willing:
  "willing w \<Longrightarrow> Memory_object w = (g, w') \<Longrightarrow> g \<and> willing w'"
  by (auto simp: Memory_object_def split: prod.splits dest: Memory_ask_willing)

lemma Memory_bytes_willing:
  "willing w \<Longrightarrow> Memory_bytes n w = (b, w') \<Longrightarrow> b \<noteq> None \<and> willing w'"
  by (auto simp: Memory_bytes_def split: prod.splits dest: Memory_ask_willing)

lemma Memory_bytes_length: "Memory_bytes n w = (Some d, w') \<Longrightarrow> length d = n"
  by (auto simp: Memory_bytes_def split: prod.splits)

section \<open>Exhaustion accounting (\<open>src/struct/exhaustion.c\<close>)\<close>

text \<open>
  An owner's counter and flag are passed by address: the model takes both values, an absent
  counter being \<open>None\<close>, and returns them; the answer of the function is always \<open>false\<close>.
\<close>

definition Struct_reportExhaustion ::
    "(u64 \<times> bool) option \<Rightarrow> bool \<times> (u64 \<times> bool) option" where
  "Struct_reportExhaustion counter = (case counter of
     None \<Rightarrow> (False, None)
   | Some (count, reported) \<Rightarrow>
       (let count1 = count + 1
        in if \<not> reported then (False, Some (count1, True))
           else (False, Some (count1, reported))))"

definition Struct_exhaustionCount :: "u64 option \<Rightarrow> u64" where
  "Struct_exhaustionCount count = (case count of None \<Rightarrow> 0 | Some n \<Rightarrow> n)"

definition Struct_resetExhaustion :: "u64 option \<Rightarrow> bool option \<Rightarrow> u64 option \<times> bool option" where
  "Struct_resetExhaustion count reported =
     (map_option (\<lambda>_. 0) count, map_option (\<lambda>_. False) reported)"

definition Struct_reportConstructionExhaustion :: "World \<Rightarrow> bool \<times> World" where
  "Struct_reportConstructionExhaustion w =
     (let w1 = w\<lparr>s_constructionCount := s_constructionCount w + 1\<rparr>
      in if \<not> s_constructionReported w1 then (False, w1\<lparr>s_constructionReported := True\<rparr>)
         else (False, w1))"

definition Struct_constructionExhaustionCount :: "World \<Rightarrow> u64" where
  "Struct_constructionExhaustionCount w = s_constructionCount w"

definition Struct_resetConstructionExhaustion :: "World \<Rightarrow> World" where
  "Struct_resetConstructionExhaustion w =
     w\<lparr>s_constructionCount := 0, s_constructionReported := False\<rparr>"

lemma Struct_reportExhaustion_Some [simp]:
  "Struct_reportExhaustion (Some (count, reported)) = (False, Some (count + 1, True))"
  by (simp add: Struct_reportExhaustion_def Let_def)

section \<open>Class identifiers and strides\<close>

text \<open>The class numbers of \<open>src/oop/type.h\<close> that the stride table and the containers name.\<close>

definition ID_INT :: u32 where "ID_INT = 0x0001"
definition ID_LONG :: u32 where "ID_LONG = 0x0002"
definition ID_DOUBLE :: u32 where "ID_DOUBLE = 0x0003"
definition ID_FIXED64 :: u32 where "ID_FIXED64 = 0x0004"
definition ID_FLOAT :: u32 where "ID_FLOAT = 0x0005"
definition ID_SHORT :: u32 where "ID_SHORT = 0x0006"
definition ID_BIT8 :: u32 where "ID_BIT8 = 0x0009"
definition ID_BIT16 :: u32 where "ID_BIT16 = 0x000A"
definition ID_BIT32 :: u32 where "ID_BIT32 = 0x000B"
definition ID_BIT64 :: u32 where "ID_BIT64 = 0x000C"
definition ID_VEC2 :: u32 where "ID_VEC2 = 0x000D"
definition ID_VEC3 :: u32 where "ID_VEC3 = 0x000E"
definition ID_ENTITY :: u32 where "ID_ENTITY = 0x000F"
definition ID_VEC4 :: u32 where "ID_VEC4 = 0x0029"
definition ID_MAT3 :: u32 where "ID_MAT3 = 0x002A"
definition ID_MAT4 :: u32 where "ID_MAT4 = 0x002B"
definition ID_QUATERNION :: u32 where "ID_QUATERNION = 0x002C"
definition ID_BYTE :: u32 where "ID_BYTE = 0x0010"
definition ID_STRING :: u32 where "ID_STRING = 0x0011"
definition ID_INT_FLOAT :: u32 where "ID_INT_FLOAT = 0x0012"
definition ID_INT_DOUBLE :: u32 where "ID_INT_DOUBLE = 0x0013"
definition ID_LONG_FLOAT :: u32 where "ID_LONG_FLOAT = 0x0014"
definition ID_LONG_DOUBLE :: u32 where "ID_LONG_DOUBLE = 0x0015"
definition ID_VARIABLE :: u32 where "ID_VARIABLE = 0x0016"
definition ID_LIST :: u32 where "ID_LIST = 0x001C"
definition ID_ARGUMENTS :: u32 where "ID_ARGUMENTS = 0x0028"
definition ID_RANDOM :: u32 where "ID_RANDOM = 0x0023"

lemmas class_ids =
  ID_INT_def ID_LONG_def ID_DOUBLE_def ID_FIXED64_def ID_FLOAT_def ID_SHORT_def ID_BIT8_def
  ID_BIT16_def ID_BIT32_def ID_BIT64_def ID_VEC2_def ID_VEC3_def ID_ENTITY_def ID_VEC4_def
  ID_MAT3_def ID_MAT4_def ID_QUATERNION_def ID_BYTE_def ID_STRING_def ID_INT_FLOAT_def
  ID_INT_DOUBLE_def ID_LONG_FLOAT_def ID_LONG_DOUBLE_def ID_VARIABLE_def ID_LIST_def
  ID_ARGUMENTS_def ID_RANDOM_def

text \<open>
  The switch of \<open>Stride_get\<close>: its cases are distinct constants, so their order is immaterial;
  the wrappers that share the answer of the default are left to it.
\<close>

definition Stride_get :: "u64 \<Rightarrow> u32 \<Rightarrow> nat" where
  "Stride_get maskClass class_id =
     (let i = (ucast class_id :: u64) AND maskClass;
          among = (\<lambda>ids. i \<in> set (map ucast ids))
      in if i = ucast ID_BYTE then 1
         else if i = ucast ID_SHORT then 2
         else if among [ID_INT, ID_FLOAT, ID_BIT8, ID_BIT16, ID_BIT32] then 4
         else if among [ID_LONG, ID_DOUBLE, ID_FIXED64, ID_BIT64, ID_STRING, ID_INT_FLOAT,
                        ID_ARGUMENTS] then 8
         else if among [ID_INT_DOUBLE, ID_LONG_FLOAT, ID_LONG_DOUBLE] then 16
         else if i = ucast ID_VARIABLE then 40
         else if i = ucast ID_VEC2 then 8
         else if i = ucast ID_VEC3 then 12
         else if i = ucast ID_VEC4 then 16
         else if i = ucast ID_MAT3 then 36
         else if i = ucast ID_MAT4 then 64
         else if i = ucast ID_QUATERNION then 16
         else if i = ucast ID_ENTITY then 8
         else if i = ucast ID_RANDOM then 16
         else 8)"

lemma Stride_get_values:
  "Stride_get k c \<in> {1, 2, 4, 8, 12, 16, 36, 40, 64}"
  by (simp add: Stride_get_def Let_def)

end
