(* ===== verification/Pow2.thy ===== *)
theory Pow2
  imports Bytes
begin

text \<open>
  Rounding up to a power of two by smearing bits, the way \<open>src/struct/map.c\<close>,
  \<open>src/struct/set.c\<close> and \<open>src/atomic/ringbuffer.c\<close> size their tables.
\<close>

text \<open>\<open>highestOneBit\<close>: the power of two at or above \<open>n\<close>, by smearing the bits of \<open>n - 1\<close>.\<close>

definition highestOneBit :: "u64 \<Rightarrow> u64" where
  "highestOneBit n =
     (if n \<le> 1 then 1
      else
        (let v = n - 1;
             v = v OR drop_bit 1 v;
             v = v OR drop_bit 2 v;
             v = v OR drop_bit 4 v;
             v = v OR drop_bit 8 v;
             v = v OR drop_bit 16 v;
             v = v OR drop_bit 32 v
         in v + 1))"

section \<open>What the smearing computes\<close>

text \<open>Each step doubles the window of higher bits that are gathered into a position.\<close>

definition gathers :: "nat \<Rightarrow> 'a::len word \<Rightarrow> 'a word \<Rightarrow> bool" where
  "gathers k x v \<longleftrightarrow> (\<forall>i. bit v i \<longleftrightarrow> (\<exists>j \<in> {i ..< i + k}. bit x j))"

lemma gathers_1: "gathers 1 x x"
  by (simp add: gathers_def)

lemma gathers_step:
  assumes "gathers k x v"
  shows "gathers (2 * k) x (v OR drop_bit k v)"
proof -
  have "{i ..< i + 2 * k} = {i ..< i + k} \<union> {k + i ..< k + i + k}" for i by auto
  then show ?thesis
    using assms unfolding gathers_def by (simp add: bit_or_iff bit_drop_bit_eq bex_Un)
qed

lemma bit_exp_le:
  assumes "bit (x :: 'a::len word) p"
  shows "2 ^ p \<le> unat x"
proof (rule ccontr)
  assume "\<not> 2 ^ p \<le> unat x"
  then have "unat x div 2 ^ p = 0" by simp
  moreover have "bit (unat x) p" using assms by (simp add: bit_unsigned_iff)
  ultimately show False by (simp add: bit_iff_odd)
qed

lemma top_bit:
  assumes "(x :: 'a::len word) \<noteq> 0"
  obtains p where "p < LENGTH('a)" "bit x p" "\<forall>j. bit x j \<longrightarrow> j \<le> p" "2 ^ p \<le> unat x"
    "unat x < 2 ^ Suc p"
proof -
  let ?B = "{j. bit x j}"
  have fin: "finite ?B" by (rule finite_subset [of _ "{..< LENGTH('a)}"]) (auto dest: bit_imp_le_length)
  have ne: "?B \<noteq> {}" using assms by (auto simp: bit_eq_iff)
  have max: "bit x (Max ?B)" using Max_in [OF fin ne] by simp
  have above: "\<forall>j. bit x j \<longrightarrow> j \<le> Max ?B" using fin by simp
  have "take_bit (Suc (Max ?B)) x = x"
    by (rule bit_word_eqI) (use above in \<open>auto simp: bit_take_bit_iff less_Suc_eq_le\<close>)
  then have "take_bit (Suc (Max ?B)) (unat x) = unat x" by (metis unsigned_take_bit_eq)
  then have "unat x < 2 ^ Suc (Max ?B)" by (metis take_bit_nat_less_exp)
  then show thesis using that max above bit_exp_le [OF max] bit_imp_le_length by blast
qed

lemma highestOneBit_pow2:
  assumes "unat n \<le> 9223372036854775808"
  obtains p where "p \<le> 63" "unat (highestOneBit n) = 2 ^ p" "unat n \<le> 2 ^ p"
    "1 < unat n \<longrightarrow> 2 ^ p < 2 * unat n"
proof (cases "n \<le> 1")
  case True
  then have "unat n \<le> 1" by (simp add: word_le_nat_alt)
  then show thesis using True by (intro that [of 0]) (auto simp: highestOneBit_def)
next
  case False
  then have n: "1 < unat n" by (simp add: word_le_nat_alt)
  then have "unat (n - 1) = unat n - 1" by (subst unat_sub) (simp_all add: word_le_nat_alt)
  then have v: "unat (n - 1) = unat n - 1" .
  then have "n - 1 \<noteq> 0" using n by auto
  then obtain p where p: "p < 64" "bit (n - 1) p" "\<forall>j. bit (n - 1) j \<longrightarrow> j \<le> p"
    "2 ^ p \<le> unat (n - 1)" "unat (n - 1) < 2 ^ Suc p" by (rule top_bit) simp
  let ?w = "\<lambda>v :: u64. let v = v OR drop_bit 1 v; v = v OR drop_bit 2 v; v = v OR drop_bit 4 v;
      v = v OR drop_bit 8 v; v = v OR drop_bit 16 v in v OR drop_bit 32 v"
  have g: "gathers 64 (n - 1) (?w (n - 1))"
    unfolding Let_def using gathers_step [OF gathers_step [OF gathers_step [OF gathers_step
      [OF gathers_step [OF gathers_step [OF gathers_1 [of "n - 1"]]]]]]] by simp
  have bits: "bit (?w (n - 1)) i \<longleftrightarrow> i \<le> p" for i
  proof
    assume "bit (?w (n - 1)) i"
    then obtain j where "i \<le> j" "bit (n - 1) j"
      using g unfolding gathers_def by auto
    then show "i \<le> p" using p(3) by fastforce
  next
    assume "i \<le> p"
    then have "p \<in> {i ..< i + 64}" using p(1) by simp
    then show "bit (?w (n - 1)) i" using g p(2) unfolding gathers_def by blast
  qed
  have "2 ^ p < (2 :: nat) ^ 63"
    using p(4) v assms n by simp
  then have p63: "p < 63" by (simp only: power_strict_increasing_iff)
  have "?w (n - 1) = mask (Suc p)"
    by (rule bit_word_eqI) (use bits p63 in \<open>auto simp: bit_mask_iff less_Suc_eq_le\<close>)
  then have eq: "highestOneBit n = 2 ^ Suc p"
    using False by (simp add: highestOneBit_def Let_def mask_eq_exp_minus_1)
  have "(2 :: nat) ^ Suc p < 2 ^ 64" using p63 by (intro power_strict_increasing) simp_all
  then have "unat (word_of_nat (2 ^ Suc p) :: u64) = 2 ^ Suc p"
    unfolding unat_of_nat by (intro mod_less) simp
  then have "unat ((2 :: u64) ^ Suc p) = 2 ^ Suc p" by simp
  then show thesis using eq p p63 v n by (intro that [of "Suc p"]) auto
qed

end
