(* ===== verification/Probing.thy ===== *)
theory Probing
  imports Memory Pow2
begin

text \<open>
  The open-addressing loops that \<open>src/struct/map.c\<close> and \<open>src/struct/set.c\<close> spell out each for
  its own slot layout: linear probing over a table with tombstones.  A slot is anything with a
  state, a hash and a key comparison.  The search loops are bounded by the capacity; the
  insertion loop and the re-insertion loop of the rehash are not, so they are partial functions
  and returning is proved (\<open>probePut_returns\<close>) or refuted (\<open>probePut_diverges\<close>).
\<close>

definition STATE_EMPTY :: u64 where "STATE_EMPTY = 0"
definition STATE_OCCUPIED :: u64 where "STATE_OCCUPIED = 1"
definition STATE_DELETED :: u64 where "STATE_DELETED = 2"

lemmas slot_states = STATE_EMPTY_def STATE_OCCUPIED_def STATE_DELETED_def

definition LOAD_DIVISOR :: nat where "LOAD_DIVISOR = 4"

section \<open>The loops\<close>

datatype probeResult = Vacant nat | Found nat

text \<open>\<open>while (true)\<close> of \<open>Map_put\<close> and \<open>Set_add\<close>; \<open>firstDeleted\<close> is \<open>None\<close> for \<open>SIZE_MAX\<close>.\<close>

partial_function (option) probePut ::
    "('s \<Rightarrow> u64) \<Rightarrow> ('s \<Rightarrow> bool) \<Rightarrow> 's list \<Rightarrow> nat \<Rightarrow> nat \<Rightarrow> nat option \<Rightarrow> probeResult option" where
  "probePut st matches T msk idx firstDeleted =
     (let s = T ! idx
      in if st s = STATE_EMPTY then
           Some (Vacant (case firstDeleted of None \<Rightarrow> idx | Some f \<Rightarrow> f))
         else if st s = STATE_DELETED then
           probePut st matches T msk (wrap64 (idx + 1) AND msk)
             (case firstDeleted of None \<Rightarrow> Some idx | Some f \<Rightarrow> Some f)
         else if st s = STATE_OCCUPIED \<and> matches s then Some (Found idx)
         else probePut st matches T msk (wrap64 (idx + 1) AND msk) firstDeleted)"

declare probePut.simps [code]

text \<open>The \<open>for\<close> loop of the searches; the first argument is the number of rounds left.\<close>

primrec probeFind ::
    "nat \<Rightarrow> ('s \<Rightarrow> u64) \<Rightarrow> ('s \<Rightarrow> bool) \<Rightarrow> 's list \<Rightarrow> nat \<Rightarrow> nat \<Rightarrow> nat option" where
  "probeFind 0 st matches T msk idx = None"
| "probeFind (Suc n) st matches T msk idx =
     (let s = T ! idx
      in if st s = STATE_EMPTY then None
         else if st s = STATE_OCCUPIED \<and> matches s then Some idx
         else probeFind n st matches T msk (wrap64 (idx + 1) AND msk))"

text \<open>\<open>while (slotState(...) == STATE_OCCUPIED)\<close> of the rehash.\<close>

partial_function (option) probeFree :: "('s \<Rightarrow> u64) \<Rightarrow> 's list \<Rightarrow> nat \<Rightarrow> nat \<Rightarrow> nat option" where
  "probeFree st T msk idx =
     (if st (T ! idx) = STATE_OCCUPIED then probeFree st T msk (wrap64 (idx + 1) AND msk)
      else Some idx)"

declare probeFree.simps [code]

text \<open>
  The \<open>for\<close> loop of the rehash: re-insert every occupied slot of the old table.  The code
  copies the fields and stores \<open>STATE_OCCUPIED\<close>, which is the occupied slot itself.
\<close>

primrec rehashInto ::
    "('s \<Rightarrow> u64) \<Rightarrow> ('s \<Rightarrow> u64) \<Rightarrow> nat \<Rightarrow> 's list \<Rightarrow> 's list \<Rightarrow> 's list option" where
  "rehashInto st hash msk [] T = Some T"
| "rehashInto st hash msk (s # ss) T =
     (if st s = STATE_OCCUPIED then
        (case probeFree st T msk (unat (hash s) AND msk) of
           None \<Rightarrow> None
         | Some idx \<Rightarrow> rehashInto st hash msk ss (T[idx := s]))
      else rehashInto st hash msk ss T)"

section \<open>Positions\<close>

lemma and_mask_mod: "n = 2 ^ p \<Longrightarrow> i AND (n - 1) = i mod (n :: nat)"
  by (simp only: mask_eq_exp_minus_1 [symmetric] take_bit_eq_mask [symmetric] take_bit_eq_mod)

definition pow2 :: "nat \<Rightarrow> bool" where
  "pow2 n \<longleftrightarrow> (\<exists>p \<le> 32. n = 2 ^ p)"

lemma pow2_pos: "pow2 n \<Longrightarrow> 0 < n"
  by (auto simp: pow2_def)

lemma pow2_le: "pow2 n \<Longrightarrow> n \<le> 4294967296"
proof -
  assume "pow2 n"
  then obtain p where "p \<le> 32" "n = 2 ^ p" by (auto simp: pow2_def)
  then have "n \<le> (2 :: nat) ^ 32" using power_increasing [of p 32 "2 :: nat"] by linarith
  then show ?thesis by simp
qed

lemma next_index: "pow2 n \<Longrightarrow> i < n \<Longrightarrow> wrap64 (i + 1) AND (n - 1) = Suc i mod n"
proof -
  assume n: "pow2 n" and i: "i < n"
  then have "wrap64 (i + 1) = Suc i" using pow2_le [OF n] by simp
  then show ?thesis using n and_mask_mod by (auto simp: pow2_def)
qed

lemma home_index: "pow2 n \<Longrightarrow> h AND (n - 1) = h mod n"
  using and_mask_mod by (auto simp: pow2_def)

lemma Suc_mod_shift: "(Suc i mod n + k) mod n = (i + Suc k) mod (n :: nat)"
  by (metis add_Suc add_Suc_right mod_add_left_eq)

text \<open>Slot \<open>k\<close> steps after \<open>i\<close>, around the table.\<close>

definition around :: "'s list \<Rightarrow> nat \<Rightarrow> nat \<Rightarrow> 's" where
  "around T i k = T ! ((i + k) mod length T)"

lemma around_0: "i < length T \<Longrightarrow> around T i 0 = T ! i"
  by (simp add: around_def)

lemma around_Suc: "around T (Suc i mod length T) k = around T i (Suc k)"
  by (simp add: around_def Suc_mod_shift)

lemma around_reaches:
  assumes "i < length T" "j < length T"
  obtains d where "d < length T" "j = (i + d) mod length T"
proof (cases "i \<le> j")
  case True
  then show thesis using assms by (intro that [of "j - i"]) auto
next
  case False
  then have "i + (length T - i + j) = j + length T" using assms by simp
  then have "(i + (length T - i + j)) mod length T = j" using assms by simp
  then show thesis using assms False by (intro that [of "length T - i + j"]) auto
qed

section \<open>What the loops compute\<close>

lemma probeFind_some:
  assumes "pow2 (length T)" "i < length T" "probeFind m st matches T (length T - 1) i = Some j"
  shows "j < length T \<and> st (T ! j) = STATE_OCCUPIED \<and> matches (T ! j)"
  using assms(2,3)
proof (induction m arbitrary: i)
  case (Suc m)
  have nxt: "Suc i mod length T < length T" using pow2_pos [OF assms(1)] by simp
  show ?case
    using Suc.prems Suc.IH [OF nxt] next_index [OF assms(1) Suc.prems(1)]
    by (auto simp: Let_def split: if_splits)
qed simp

lemma probeFind_complete:
  assumes "pow2 (length T)" "i < length T" "k < m"
    and "st (around T i k) = STATE_OCCUPIED" "matches (around T i k)"
    and "\<forall>k' < k. st (around T i k') \<noteq> STATE_EMPTY"
  shows "probeFind m st matches T (length T - 1) i \<noteq> None"
  using assms(2-)
proof (induction m arbitrary: i k)
  case (Suc m)
  have nxt: "Suc i mod length T < length T" using pow2_pos [OF assms(1)] by simp
  show ?case
  proof (cases k)
    case 0
    then show ?thesis using Suc.prems(1,3,4) by (simp add: around_0 slot_states)
  next
    case (Suc k')
    have "st (T ! i) \<noteq> STATE_EMPTY" using Suc.prems(5) Suc Suc.prems(1) around_0 by force
    moreover have "probeFind m st matches T (length T - 1) (Suc i mod length T) \<noteq> None"
      by (rule Suc.IH [OF nxt, of k']) (use Suc Suc.prems in \<open>auto simp: around_Suc\<close>)
    ultimately show ?thesis
      using next_index [OF assms(1) Suc.prems(1)] by (simp add: Let_def)
  qed
qed simp

text \<open>
  Up to the first empty slot, \<open>e\<close> steps away, the insertion loop either meets a match or ends
  with the first tombstone it passed, or with the empty slot.
\<close>

lemma probePut_outcome:
  assumes "pow2 (length T)" "i < length T"
    and "st (around T i e) = STATE_EMPTY" "\<forall>k < e. st (around T i k) \<noteq> STATE_EMPTY"
  shows "(\<exists>k < e. st (around T i k) = STATE_OCCUPIED \<and> matches (around T i k) \<and>
        probePut st matches T (length T - 1) i fd = Some (Found ((i + k) mod length T))) \<or>
    (\<forall>k < e. \<not> (st (around T i k) = STATE_OCCUPIED \<and> matches (around T i k))) \<and>
      (\<exists>j. probePut st matches T (length T - 1) i fd = Some (Vacant j) \<and>
        (fd = Some j \<or> (fd = None \<and> (\<exists>k \<le> e. j = (i + k) mod length T \<and>
          st (around T i k) \<in> {STATE_EMPTY, STATE_DELETED}))))"
  using assms(2-)
proof (induction e arbitrary: i fd)
  case 0
  then have "probePut st matches T (length T - 1) i fd =
      Some (Vacant (case fd of None \<Rightarrow> i | Some f \<Rightarrow> f))"
    by (subst probePut.simps) (simp add: around_0)
  then show ?case using 0 by (cases fd) auto
next
  case (Suc e)
  have nxt: "Suc i mod length T < length T" using pow2_pos [OF assms(1)] by simp
  have here: "st (T ! i) \<noteq> STATE_EMPTY" using Suc.prems(1,3) around_0 by force
  note IH = Suc.IH [OF nxt, unfolded around_Suc Suc_mod_shift]
  have later: "st (around T i (Suc e)) = STATE_EMPTY"
    "\<forall>k < e. st (around T i (Suc k)) \<noteq> STATE_EMPTY"
    using Suc.prems(2,3) by auto
  note ind = next_index [OF assms(1) Suc.prems(1)]
  consider (match) "st (T ! i) = STATE_OCCUPIED" "matches (T ! i)"
    | (tomb) "st (T ! i) = STATE_DELETED"
    | (other) "st (T ! i) \<noteq> STATE_DELETED" "\<not> (st (T ! i) = STATE_OCCUPIED \<and> matches (T ! i))"
    by blast
  then show ?case
  proof cases
    case match
    then have "probePut st matches T (length T - 1) i fd = Some (Found i)"
      by (subst probePut.simps) (simp add: slot_states)
    then show ?thesis
      using match Suc.prems(1) by (intro disjI1 exI [of _ 0]) (simp add: around_0)
  next
    case tomb
    let ?fd = "case fd of None \<Rightarrow> Some i | Some f \<Rightarrow> Some f"
    have step: "probePut st matches T (length T - 1) i fd =
        probePut st matches T (length T - 1) (Suc i mod length T) ?fd"
      using tomb here ind by (subst probePut.simps) simp
    have no: "\<not> (st (around T i 0) = STATE_OCCUPIED \<and> matches (around T i 0))"
      using tomb Suc.prems(1) by (simp add: around_0 slot_states)
    have i0: "i = (i + 0) mod length T" using Suc.prems(1) by simp
    from IH [OF later, of ?fd] show ?thesis
    proof (elim disjE exE conjE)
      fix k assume k: "k < e" "st (around T i (Suc k)) = STATE_OCCUPIED" "matches (around T i (Suc k))"
        "probePut st matches T (length T - 1) (Suc i mod length T) ?fd =
           Some (Found ((i + Suc k) mod length T))"
      then show ?thesis using step by (intro disjI1 exI [of _ "Suc k"]) simp
    next
      fix j assume a: "\<forall>k < e. \<not> (st (around T i (Suc k)) = STATE_OCCUPIED \<and> matches (around T i (Suc k)))"
        "probePut st matches T (length T - 1) (Suc i mod length T) ?fd = Some (Vacant j)"
        and "?fd = Some j"
      then have "fd = Some j \<or> fd = None \<and> j = i" by (auto split: option.splits)
      then have "fd = Some j \<or> fd = None \<and> (\<exists>k \<le> Suc e. j = (i + k) mod length T \<and>
          st (around T i k) \<in> {STATE_EMPTY, STATE_DELETED})"
        using tomb Suc.prems(1) i0 around_0 by (metis insertCI le0)
      then show ?thesis using a no step by (intro disjI2) (auto simp: less_Suc_eq_0_disj)
    next
      assume "?fd = None"
      then show ?thesis by (auto split: option.splits)
    qed
  next
    case other
    have step: "probePut st matches T (length T - 1) i fd =
        probePut st matches T (length T - 1) (Suc i mod length T) fd"
      using other here ind by (subst probePut.simps) auto
    have no: "\<not> (st (around T i 0) = STATE_OCCUPIED \<and> matches (around T i 0))"
      using other Suc.prems(1) by (simp add: around_0)
    from IH [OF later, of fd] show ?thesis
    proof (elim disjE exE conjE)
      fix k assume "k < e" "st (around T i (Suc k)) = STATE_OCCUPIED" "matches (around T i (Suc k))"
        "probePut st matches T (length T - 1) (Suc i mod length T) fd =
           Some (Found ((i + Suc k) mod length T))"
      then show ?thesis using step by (intro disjI1 exI [of _ "Suc k"]) simp
    next
      fix j assume a: "\<forall>k < e. \<not> (st (around T i (Suc k)) = STATE_OCCUPIED \<and> matches (around T i (Suc k)))"
        "probePut st matches T (length T - 1) (Suc i mod length T) fd = Some (Vacant j)"
        "fd = Some j"
      then show ?thesis using no step by (intro disjI2) (auto simp: less_Suc_eq_0_disj)
    next
      fix j k assume a: "\<forall>k < e. \<not> (st (around T i (Suc k)) = STATE_OCCUPIED \<and> matches (around T i (Suc k)))"
        "probePut st matches T (length T - 1) (Suc i mod length T) fd = Some (Vacant j)"
        and k: "fd = None" "k \<le> e" "j = (i + Suc k) mod length T"
          "st (around T i (Suc k)) \<in> {STATE_EMPTY, STATE_DELETED}"
      have "\<exists>k \<le> Suc e. j = (i + k) mod length T \<and> st (around T i k) \<in> {STATE_EMPTY, STATE_DELETED}"
        using k by (intro exI [of _ "Suc k"]) simp
      then show ?thesis using a k(1) no step by (intro disjI2) (auto simp: less_Suc_eq_0_disj)
    qed
  qed
qed

text \<open>With no empty slot and no match the insertion loop goes round for ever.\<close>

definition probeStuck :: "('s \<Rightarrow> u64) \<Rightarrow> ('s \<Rightarrow> bool) \<Rightarrow> 's list \<Rightarrow> nat \<Rightarrow> nat \<Rightarrow> bool" where
  "probeStuck st matches T m i \<longleftrightarrow> pow2 (length T) \<and> m = length T - 1 \<and> i < length T \<and>
     (\<forall>s \<in> set T. st s \<noteq> STATE_EMPTY \<and> \<not> (st s = STATE_OCCUPIED \<and> matches s))"

lemma probeStuck_next:
  "probeStuck st matches T m i \<Longrightarrow> probeStuck st matches T m (wrap64 (i + 1) AND m)"
  using next_index [of "length T" i] pow2_pos [of "length T"] by (simp add: probeStuck_def)

lemma probeStuck_here:
  "probeStuck st matches T m i \<Longrightarrow>
   st (T ! i) \<noteq> STATE_EMPTY \<and> \<not> (st (T ! i) = STATE_OCCUPIED \<and> matches (T ! i))"
  by (simp add: probeStuck_def)

lemma probePut_not_stuck:
  "probePut st matches T m i fd = Some r \<Longrightarrow> \<not> probeStuck st matches T m i"
proof (rule probePut.raw_induct [where P = "\<lambda>st matches T m i fd r. \<not> probeStuck st matches T m i"])
  fix probe st matches and T :: "'b list" and m i fd r
  assume IH: "\<And>st matches T m i fd r. probe st matches T m i fd = Some r \<Longrightarrow>
      \<not> probeStuck st matches T m i"
    and body: "(let s = T ! i
      in if st s = STATE_EMPTY then Some (Vacant (case fd of None \<Rightarrow> i | Some f \<Rightarrow> f))
         else if st s = STATE_DELETED then probe st matches T m (wrap64 (i + 1) AND m)
           (case fd of None \<Rightarrow> Some i | Some f \<Rightarrow> Some f)
         else if st s = STATE_OCCUPIED \<and> matches s then Some (Found i)
         else probe st matches T m (wrap64 (i + 1) AND m) fd) = Some r"
  show "\<not> probeStuck st matches T m i"
    using body probeStuck_here [of st matches T m i] probeStuck_next [of st matches T m i] IH
    by (auto simp: Let_def split: if_splits)
qed

lemma probePut_diverges:
  "probeStuck st matches T m i \<Longrightarrow> probePut st matches T m i fd = None"
  using probePut_not_stuck by (cases "probePut st matches T m i fd") blast+

lemma probeFree_outcome:
  assumes "pow2 (length T)" "i < length T"
    and "st (around T i e) \<noteq> STATE_OCCUPIED"
  shows "\<exists>k \<le> e. probeFree st T (length T - 1) i = Some ((i + k) mod length T) \<and>
    st (around T i k) \<noteq> STATE_OCCUPIED \<and> (\<forall>k' < k. st (around T i k') = STATE_OCCUPIED)"
  using assms(2,3)
proof (induction e arbitrary: i)
  case 0
  then have "probeFree st T (length T - 1) i = Some i"
    by (subst probeFree.simps) (simp add: around_0)
  then show ?case using 0 by simp
next
  case (Suc e)
  have nxt: "Suc i mod length T < length T" using pow2_pos [OF assms(1)] by simp
  show ?case
  proof (cases "st (T ! i) = STATE_OCCUPIED")
    case False
    then have "probeFree st T (length T - 1) i = Some i" by (subst probeFree.simps) simp
    then show ?thesis using False Suc.prems(1) by (intro exI [of _ 0]) (simp add: around_0)
  next
    case True
    have step: "probeFree st T (length T - 1) i =
        probeFree st T (length T - 1) (Suc i mod length T)"
      using True next_index [OF assms(1) Suc.prems(1)] by (subst probeFree.simps) simp
    from Suc.IH [OF nxt] Suc.prems(2) obtain k where k: "k \<le> e"
      "probeFree st T (length T - 1) (Suc i mod length T) = Some ((i + Suc k) mod length T)"
      "st (around T i (Suc k)) \<noteq> STATE_OCCUPIED"
      "\<forall>k' < k. st (around T i (Suc k')) = STATE_OCCUPIED"
      unfolding around_Suc Suc_mod_shift by blast
    have "\<forall>k' < Suc k. st (around T i k') = STATE_OCCUPIED"
      using k(4) True Suc.prems(1) by (auto simp: less_Suc_eq_0_disj around_0)
    then show ?thesis using step k by (intro exI [of _ "Suc k"]) simp
  qed
qed

section \<open>Tables\<close>

lemma distinct_filterI:
  "(\<And>i j. i < length xs \<Longrightarrow> j < length xs \<Longrightarrow> P (xs ! i) \<Longrightarrow> P (xs ! j) \<Longrightarrow> xs ! i = xs ! j \<Longrightarrow> i = j) \<Longrightarrow>
   distinct (filter P xs)"
proof (induction xs)
  case (Cons x xs)
  have "distinct (filter P xs)"
  proof (rule Cons.IH)
    fix i j assume "i < length xs" "j < length xs" "P (xs ! i)" "P (xs ! j)" "xs ! i = xs ! j"
    then show "i = j" using Cons.prems [of "Suc i" "Suc j"] by simp
  qed
  moreover have "x \<notin> set (filter P xs)" if "P x"
  proof
    assume "x \<in> set (filter P xs)"
    then obtain j where "j < length xs" "xs ! j = x" by (auto simp: in_set_conv_nth)
    then show False using Cons.prems [of 0 "Suc j"] that by simp
  qed
  ultimately show ?case by simp
qed simp

definition chained :: "('s \<Rightarrow> u64) \<Rightarrow> 's list \<Rightarrow> nat \<Rightarrow> nat \<Rightarrow> bool" where
  "chained st T h i \<longleftrightarrow>
     (\<exists>d < length T. i = (h + d) mod length T \<and> (\<forall>k < d. st (around T h k) \<noteq> STATE_EMPTY))"

definition occSet :: "('s \<Rightarrow> u64) \<Rightarrow> 's list \<Rightarrow> 's set" where
  "occSet st T = {s \<in> set T. st s = STATE_OCCUPIED}"

definition tableWf ::
    "('s \<Rightarrow> u64) \<Rightarrow> ('s \<Rightarrow> u64) \<Rightarrow> ('s \<Rightarrow> u64) \<Rightarrow> (u64 \<Rightarrow> u64) \<Rightarrow> (u64 \<Rightarrow> u64 \<Rightarrow> bool) \<Rightarrow> 's list \<Rightarrow> bool"
  where
  "tableWf st key hash hashOf eq T \<longleftrightarrow> pow2 (length T) \<and>
     (\<forall>i < length T. st (T ! i) = STATE_OCCUPIED \<longrightarrow>
        hash (T ! i) = hashOf (key (T ! i)) \<and>
        chained st T (unat (hashOf (key (T ! i))) mod length T) i) \<and>
     (\<forall>i < length T. \<forall>j < length T.
        st (T ! i) = STATE_OCCUPIED \<longrightarrow> st (T ! j) = STATE_OCCUPIED \<longrightarrow>
        eq (key (T ! i)) (key (T ! j)) \<longrightarrow> i = j)"

text \<open>
  What a table relies on: a key comparison that is an equivalence and never relates keys of
  different hash.
\<close>

locale open_table =
  fixes st :: "'s \<Rightarrow> u64"
    and key :: "'s \<Rightarrow> u64"
    and hash :: "'s \<Rightarrow> u64"
    and hashOf :: "u64 \<Rightarrow> u64"
    and eq :: "u64 \<Rightarrow> u64 \<Rightarrow> bool"
  assumes eq_refl: "eq a a"
    and eq_sym: "eq a b \<Longrightarrow> eq b a"
    and eq_trans: "eq a b \<Longrightarrow> eq b c \<Longrightarrow> eq a c"
    and eq_hash: "eq a b \<Longrightarrow> hashOf a = hashOf b"
begin

abbreviation wf :: "'s list \<Rightarrow> bool" where "wf \<equiv> tableWf st key hash hashOf eq"
abbreviation occ :: "'s list \<Rightarrow> 's set" where "occ \<equiv> occSet st"
abbreviation occupied :: "'s \<Rightarrow> bool" where "occupied s \<equiv> st s = STATE_OCCUPIED"
abbreviation home :: "'s list \<Rightarrow> u64 \<Rightarrow> nat" where "home T k \<equiv> unat (hashOf k) mod length T"

lemma eq_cong: "eq a b \<Longrightarrow> eq a c \<longleftrightarrow> eq b c"
  using eq_sym eq_trans by blast

lemma wf_pow2: "wf T \<Longrightarrow> pow2 (length T)"
  by (simp add: tableWf_def)

lemma wf_pos: "wf T \<Longrightarrow> 0 < length T"
  using pow2_pos wf_pow2 by blast

lemma wf_slot:
  "wf T \<Longrightarrow> i < length T \<Longrightarrow> occupied (T ! i) \<Longrightarrow>
   hash (T ! i) = hashOf (key (T ! i)) \<and> chained st T (home T (key (T ! i))) i"
  by (simp add: tableWf_def)

lemma wf_unique:
  "wf T \<Longrightarrow> i < length T \<Longrightarrow> j < length T \<Longrightarrow> occupied (T ! i) \<Longrightarrow> occupied (T ! j) \<Longrightarrow>
   eq (key (T ! i)) (key (T ! j)) \<Longrightarrow> i = j"
  by (simp add: tableWf_def)

lemma occ_unique:
  assumes "wf T" "s \<in> occ T" "t \<in> occ T" "eq (key s) (key t)"
  shows "s = t"
proof -
  obtain i j where "i < length T" "s = T ! i" "j < length T" "t = T ! j"
    using assms(2,3) by (auto simp: occSet_def in_set_conv_nth)
  then show ?thesis using wf_unique [OF assms(1), of i j] assms(2-) by (auto simp: occSet_def)
qed

lemma occ_eq_unique:
  "wf T \<Longrightarrow> s \<in> occ T \<Longrightarrow> t \<in> occ T \<Longrightarrow> eq (key s) k \<Longrightarrow> eq (key t) k \<Longrightarrow> s = t"
  using occ_unique eq_sym eq_trans by blast

lemma occ_index:
  "wf T \<Longrightarrow> i < length T \<Longrightarrow> j < length T \<Longrightarrow> occupied (T ! i) \<Longrightarrow> T ! j = T ! i \<Longrightarrow> j = i"
  using wf_unique [of T j i] eq_refl by simp

lemma occ_nth: "i < length T \<Longrightarrow> occupied (T ! i) \<Longrightarrow> T ! i \<in> occ T"
  by (simp add: occSet_def)

lemma finite_occ [simp]: "finite (occ T)"
  by (simp add: occSet_def)

text \<open>The occupied slots of a table after one slot was replaced.\<close>

lemma occ_update:
  assumes "wf T" "j < length T"
  shows "occ (T[j := s]) = (if occupied s then {s} else {}) \<union>
    (if occupied (T ! j) then occ T - {T ! j} else occ T)"
proof (rule set_eqI)
  fix x
  have "x \<in> occ (T[j := s]) \<longleftrightarrow> occupied x \<and> (\<exists>i < length T. x = (if i = j then s else T ! i))"
    using assms(2) by (auto simp: occSet_def in_set_conv_nth nth_list_update; metis)
  also have "\<dots> \<longleftrightarrow> occupied x \<and> (x = s \<or> (\<exists>i < length T. i \<noteq> j \<and> x = T ! i))"
    using assms(2) by auto
  also have "\<dots> \<longleftrightarrow> x \<in> (if occupied s then {s} else {}) \<union>
      (if occupied (T ! j) then occ T - {T ! j} else occ T)"
    using assms occ_index [OF assms] by (auto simp: occSet_def in_set_conv_nth; metis)
  finally show "x \<in> occ (T[j := s]) \<longleftrightarrow> x \<in> (if occupied s then {s} else {}) \<union>
      (if occupied (T ! j) then occ T - {T ! j} else occ T)" .
qed

lemma chained_update:
  assumes "chained st T h i" "st (T ! j) \<noteq> STATE_EMPTY \<longrightarrow> st s \<noteq> STATE_EMPTY" "0 < length T"
  shows "chained st (T[j := s]) h i"
proof -
  obtain d where d: "d < length T" "i = (h + d) mod length T" "\<forall>k < d. st (around T h k) \<noteq> STATE_EMPTY"
    using assms(1) by (auto simp: chained_def)
  have "st (around (T[j := s]) h k) \<noteq> STATE_EMPTY" if "k < d" for k
    using d(3) that assms(2,3) by (cases "(h + k) mod length T = j") (auto simp: around_def)
  then show ?thesis using d by (auto simp: chained_def)
qed

text \<open>Storing a key that is not there, at a slot its probe sequence reaches.\<close>

lemma wf_insert:
  assumes "wf T" "j < length T" "\<not> occupied (T ! j)" "occupied s" "hash s = hashOf (key s)"
    and "chained st T (home T (key s)) j" "\<forall>t \<in> occ T. \<not> eq (key t) (key s)"
  shows "wf (T[j := s])" and "occ (T[j := s]) = insert s (occ T)"
proof -
  have ne: "st s \<noteq> STATE_EMPTY" using assms(4) by (simp add: slot_states)
  have pos: "0 < length T" using wf_pos assms(1) by blast
  have "chained st (T[j := s]) (home T (key ((T[j := s]) ! i))) i \<and>
      hash ((T[j := s]) ! i) = hashOf (key ((T[j := s]) ! i))"
    if "i < length T" "occupied ((T[j := s]) ! i)" for i
  proof (cases "i = j")
    case True
    then show ?thesis using assms(2,5,6) chained_update [OF _ _ pos] ne by simp
  next
    case False
    then have "occupied (T ! i)" using that(2) by simp
    from wf_slot [OF assms(1) that(1) this] False show ?thesis
      using chained_update [OF _ _ pos] ne by simp
  qed
  moreover have "i = k" if "i < length T" "k < length T" "occupied ((T[j := s]) ! i)"
    "occupied ((T[j := s]) ! k)" "eq (key ((T[j := s]) ! i)) (key ((T[j := s]) ! k))" for i k
  proof -
    consider "i = j" "k = j" | "i = j" "k \<noteq> j" | "i \<noteq> j" "k = j" | "i \<noteq> j" "k \<noteq> j" by blast
    then show ?thesis
    proof cases
      case 2
      then show ?thesis using that assms(2,7) occ_nth eq_sym by (metis nth_list_update_eq nth_list_update_neq)
    next
      case 3
      then show ?thesis using that assms(2,7) occ_nth by (metis nth_list_update_eq nth_list_update_neq)
    next
      case 4
      then show ?thesis using that wf_unique [OF assms(1), of i k] by simp
    qed simp
  qed
  ultimately show "wf (T[j := s])" using wf_pow2 [OF assms(1)] by (simp add: tableWf_def)
  show "occ (T[j := s]) = insert s (occ T)"
    using occ_update [OF assms(1,2)] assms(3,4) by simp
qed

text \<open>Rewriting an occupied slot under the same key, or burying it.\<close>

lemma wf_rewrite:
  assumes "wf T" "j < length T" "occupied (T ! j)"
    and "occupied s \<and> key s = key (T ! j) \<and> hash s = hash (T ! j) \<or> st s = STATE_DELETED"
  shows "wf (T[j := s])"
proof -
  have ne: "st s \<noteq> STATE_EMPTY" using assms(4) by (auto simp: slot_states)
  have pos: "0 < length T" using wf_pos assms(1) by blast
  have old: "occupied (T ! i) \<and> key ((T[j := s]) ! i) = key (T ! i) \<and>
      hash ((T[j := s]) ! i) = hash (T ! i)"
    if "i < length T" "occupied ((T[j := s]) ! i)" for i
    using that assms(2-4) by (cases "i = j") (auto simp: slot_states)
  have "chained st (T[j := s]) (home T (key ((T[j := s]) ! i))) i \<and>
      hash ((T[j := s]) ! i) = hashOf (key ((T[j := s]) ! i))"
    if "i < length T" "occupied ((T[j := s]) ! i)" for i
    using old [OF that] wf_slot [OF assms(1) that(1)] chained_update [OF _ _ pos] ne by simp
  moreover have "i = k" if "i < length T" "k < length T" "occupied ((T[j := s]) ! i)"
    "occupied ((T[j := s]) ! k)" "eq (key ((T[j := s]) ! i)) (key ((T[j := s]) ! k))" for i k
    using old [OF that(1,3)] old [OF that(2,4)] that wf_unique [OF assms(1), of i k] by simp
  ultimately show ?thesis using wf_pow2 [OF assms(1)] by (simp add: tableWf_def)
qed

text \<open>The searches decide membership.\<close>

lemma find_some:
  assumes "wf T" "\<forall>s \<in> occ T. matches s \<longleftrightarrow> eq (key s) k"
    and "probeFind (length T) st matches T (length T - 1) (unat (hashOf k) AND (length T - 1)) = Some j"
  shows "j < length T" "T ! j \<in> occ T" "eq (key (T ! j)) k"
proof -
  have "unat (hashOf k) AND (length T - 1) < length T"
    using home_index [OF wf_pow2 [OF assms(1)]] wf_pos [OF assms(1)] by simp
  from probeFind_some [OF wf_pow2 [OF assms(1)] this assms(3)]
  have j: "j < length T" "occupied (T ! j)" "matches (T ! j)" by auto
  then show "j < length T" "T ! j \<in> occ T" by (auto simp: occ_nth)
  then show "eq (key (T ! j)) k" using assms(2) j(3) by blast
qed

lemma find_none:
  assumes "wf T" "\<forall>s \<in> occ T. matches s \<longleftrightarrow> eq (key s) k"
    and "probeFind (length T) st matches T (length T - 1) (unat (hashOf k) AND (length T - 1)) = None"
    and "s \<in> occ T"
  shows "\<not> eq (key s) k"
proof
  assume eq: "eq (key s) k"
  obtain i where i: "i < length T" "s = T ! i" using assms(4) by (auto simp: occSet_def in_set_conv_nth)
  have h: "hashOf (key s) = hashOf k" using eq eq_hash by blast
  have "chained st T (home T k) i"
    using wf_slot [OF assms(1) i(1)] assms(4) i(2) h by (simp add: occSet_def)
  then obtain d where d: "d < length T" "i = (home T k + d) mod length T"
    "\<forall>k' < d. st (around T (home T k) k') \<noteq> STATE_EMPTY" by (auto simp: chained_def)
  have "s = around T (home T k) d" using d(2) i(2) by (simp add: around_def)
  then have "occupied (around T (home T k) d)" "matches (around T (home T k) d)"
    using assms(2,4) eq by (auto simp: occSet_def)
  then have "probeFind (length T) st matches T (length T - 1) (home T k) \<noteq> None"
    using probeFind_complete [OF wf_pow2 [OF assms(1)] _ d(1) _ _ d(3)] wf_pos [OF assms(1)] by simp
  then show False using assms(3) home_index [OF wf_pow2 [OF assms(1)]] by simp
qed

text \<open>With an empty slot the insertion loop returns the match, or a slot to store at.\<close>

lemma put_returns:
  assumes "wf T" "\<forall>s \<in> occ T. matches s \<longleftrightarrow> eq (key s) k" "\<exists>s \<in> set T. st s = STATE_EMPTY"
  obtains (found) j where
      "probePut st matches T (length T - 1) (unat (hashOf k) AND (length T - 1)) None = Some (Found j)"
      "j < length T" "T ! j \<in> occ T" "eq (key (T ! j)) k"
  | (vacant) j where
      "probePut st matches T (length T - 1) (unat (hashOf k) AND (length T - 1)) None = Some (Vacant j)"
      "j < length T" "\<not> occupied (T ! j)" "chained st T (home T k) j"
      "\<forall>s \<in> occ T. \<not> eq (key s) k"
proof -
  let ?h = "home T k"
  have p2: "pow2 (length T)" and pos: "0 < length T" using wf_pow2 wf_pos assms(1) by blast+
  have h: "?h < length T" using pos by simp
  have start: "unat (hashOf k) AND (length T - 1) = ?h" using home_index [OF p2] by simp
  obtain x where x: "x < length T" "st (T ! x) = STATE_EMPTY"
    using assms(3) by (auto simp: in_set_conv_nth)
  obtain d where "d < length T" "x = (?h + d) mod length T"
    using around_reaches [OF h x(1)] by blast
  then have "st (around T ?h d) = STATE_EMPTY" using x(2) by (simp add: around_def)
  then obtain e where e: "e \<le> d" "st (around T ?h e) = STATE_EMPTY"
    "\<forall>k < e. st (around T ?h k) \<noteq> STATE_EMPTY"
    using exists_least_iff [of "\<lambda>k. st (around T ?h k) = STATE_EMPTY"] by (metis not_less)
  have e_less: "e < length T" using e(1) \<open>d < length T\<close> by simp
  have slot: "(?h + k) mod length T < length T" for k using pos by simp
  from probePut_outcome [OF p2 h e(2,3), of matches None] show thesis
  proof (elim disjE exE conjE)
    fix i assume "i < e" "occupied (around T ?h i)" "matches (around T ?h i)"
      "probePut st matches T (length T - 1) ?h None = Some (Found ((?h + i) mod length T))"
    then show thesis
      using found [of "(?h + i) mod length T"] assms(2) slot occ_nth start
      by (simp add: around_def)
  next
    fix j i assume no: "\<forall>k < e. \<not> (occupied (around T ?h k) \<and> matches (around T ?h k))"
      and r: "probePut st matches T (length T - 1) ?h None = Some (Vacant j)"
      and i: "i \<le> e" "j = (?h + i) mod length T" "st (around T ?h i) \<in> {STATE_EMPTY, STATE_DELETED}"
    have "chained st T ?h j" using i(1,2) e(3) e_less unfolding chained_def by (intro exI [of _ i]) auto
    moreover have "\<not> occupied (T ! j)" using i(2,3) by (auto simp: around_def slot_states)
    moreover have "\<forall>s \<in> occ T. \<not> eq (key s) k"
    proof (intro ballI notI)
      fix s assume s: "s \<in> occ T" "eq (key s) k"
      then obtain y where y: "y < length T" "s = T ! y" by (auto simp: occSet_def in_set_conv_nth)
      have "chained st T ?h y"
        using wf_slot [OF assms(1) y(1)] s y(2) eq_hash [OF s(2)] by (simp add: occSet_def)
      then obtain c where c: "c < length T" "y = (?h + c) mod length T"
        "\<forall>k < c. st (around T ?h k) \<noteq> STATE_EMPTY" by (auto simp: chained_def)
      have at: "s = around T ?h c" using c(2) y(2) by (simp add: around_def)
      have "c \<noteq> e" using e(2) s(1) at by (auto simp: occSet_def slot_states)
      moreover have "\<not> e < c" using c(3) e(2) by blast
      ultimately show False using no at s assms(2) by (auto simp: occSet_def)
    qed
    ultimately show thesis using vacant [of j] r i(2) slot start by simp
  qed simp
qed

lemma occ_card_full:
  assumes "wf T" "card (occ T) < length T"
  shows "\<exists>i < length T. \<not> occupied (T ! i)"
proof (rule ccontr)
  assume "\<not> (\<exists>i < length T. \<not> occupied (T ! i))"
  then have all: "\<forall>i < length T. occupied (T ! i)" by blast
  then have "distinct T" using occ_index [OF assms(1)] by (metis distinct_conv_nth)
  moreover have "occ T = set T" using all by (auto simp: occSet_def in_set_conv_nth)
  ultimately show False using assms(2) by (simp add: distinct_card)
qed

text \<open>
  Re-inserting the occupied slots of one table into another that has room: every one arrives,
  and nothing else.
\<close>

lemma rehash_returns:
  assumes "wf T" "\<forall>t \<in> set T. st t \<in> {STATE_EMPTY, STATE_OCCUPIED}"
    and "card (occ T) + length (filter occupied ss) < length T"
    and "\<forall>s \<in> occ ss. hash s = hashOf (key s) \<and> (\<forall>t \<in> occ T. \<not> eq (key t) (key s))"
    and "distinct (filter occupied ss)"
    and "\<forall>s \<in> occ ss. \<forall>t \<in> occ ss. eq (key s) (key t) \<longrightarrow> s = t"
  shows "\<exists>T'. rehashInto st hash (length T - 1) ss T = Some T' \<and> length T' = length T \<and> wf T' \<and>
    occ T' = occ T \<union> occ ss \<and> (\<forall>t \<in> set T'. st t \<in> {STATE_EMPTY, STATE_OCCUPIED})"
  using assms
proof (induction ss arbitrary: T)
  case Nil
  then show ?case by (simp add: occSet_def)
next
  case (Cons s ss)
  show ?case
  proof (cases "occupied s")
    case False
    have "occ (s # ss) = occ ss" using False by (auto simp: occSet_def)
    then show ?thesis using Cons.IH [of T] Cons.prems False by simp
  next
    case True
    have p2: "pow2 (length T)" and pos: "0 < length T" using wf_pow2 wf_pos Cons.prems(1) by blast+
    let ?h = "home T (key s)"
    have s: "s \<in> occ (s # ss)" using True by (simp add: occSet_def)
    then have sh: "hash s = hashOf (key s)" "\<forall>t \<in> occ T. \<not> eq (key t) (key s)"
      using Cons.prems(4) by blast+
    have h: "?h < length T" using pos by simp
    have "card (occ T) < length T" using Cons.prems(3) by simp
    then obtain x where x: "x < length T" "\<not> occupied (T ! x)"
      using occ_card_full [OF Cons.prems(1)] by blast
    obtain d where d: "d < length T" "x = (?h + d) mod length T" using around_reaches [OF h x(1)] by blast
    then have "\<not> occupied (around T ?h d)" using x(2) by (simp add: around_def)
    from probeFree_outcome [OF p2 h, of st d] this obtain e where e: "e \<le> d"
      "probeFree st T (length T - 1) ?h = Some ((?h + e) mod length T)"
      "\<not> occupied (around T ?h e)" "\<forall>k' < e. occupied (around T ?h k')" by blast
    let ?j = "(?h + e) mod length T" let ?T = "T[?j := s]"
    have j: "?j < length T" using pos by simp
    have "chained st T ?h ?j" using e(1,4) d(1) by (auto simp: chained_def slot_states intro!: exI [of _ e])
    note ins = wf_insert [OF Cons.prems(1) j _ True sh(1) this sh(2)]
    have wf: "wf ?T" and occ: "occ ?T = insert s (occ T)" using ins e(3) by (auto simp: around_def)
    have s_not: "s \<notin> occ T" using sh(2) eq_refl by blast
    have split: "occ (s # ss) = insert s (occ ss)" using True by (auto simp: occSet_def)
    have s_fresh: "s \<notin> occ ss" using Cons.prems(5) True by (simp add: occSet_def)
    have "\<exists>T'. rehashInto st hash (length ?T - 1) ss ?T = Some T' \<and> length T' = length ?T \<and> wf T' \<and>
      occ T' = occ ?T \<union> occ ss \<and> (\<forall>t \<in> set T'. st t \<in> {STATE_EMPTY, STATE_OCCUPIED})"
    proof (rule Cons.IH [OF wf])
      show "\<forall>t \<in> set ?T. st t \<in> {STATE_EMPTY, STATE_OCCUPIED}"
        using Cons.prems(2) True set_update_subset_insert [of T ?j s] by (auto simp: slot_states)
      show "card (occ ?T) + length (filter occupied ss) < length ?T"
        using Cons.prems(3) True occ s_not by simp
      show "\<forall>t \<in> occ ss. hash t = hashOf (key t) \<and> (\<forall>u \<in> occ ?T. \<not> eq (key u) (key t))"
        using Cons.prems(4,6) split s_fresh occ by auto
      show "distinct (filter occupied ss)" using Cons.prems(5) True by simp
      show "\<forall>t \<in> occ ss. \<forall>u \<in> occ ss. eq (key t) (key u) \<longrightarrow> t = u"
        using Cons.prems(6) split by auto
    qed
    moreover have "unat (hash s) AND (length T - 1) = ?h" using home_index [OF p2] sh(1) by simp
    ultimately show ?thesis using e(2) True occ split by auto
  qed
qed

lemma wf_distinct:
  assumes "wf T"
  shows "distinct (filter occupied T)" and "card (occ T) = length (filter occupied T)"
proof -
  show d: "distinct (filter occupied T)"
    by (rule distinct_filterI) (use wf_unique [OF assms] eq_refl in metis)
  have "occ T = set (filter occupied T)" by (auto simp: occSet_def)
  then show "card (occ T) = length (filter occupied T)" using distinct_card [OF d] by (simp only:)
qed

text \<open>The slot that answers for a key, as a first match; with uniqueness, any match.\<close>

lemma lookup_iff:
  assumes "wf T"
  shows "List.find (\<lambda>s. occupied s \<and> eq (key s) k) T = Some s \<longleftrightarrow> s \<in> occ T \<and> eq (key s) k"
proof
  assume "List.find (\<lambda>s. occupied s \<and> eq (key s) k) T = Some s"
  then show "s \<in> occ T \<and> eq (key s) k" by (auto simp: find_Some_iff occSet_def)
next
  assume s: "s \<in> occ T \<and> eq (key s) k"
  then have "List.find (\<lambda>s. occupied s \<and> eq (key s) k) T \<noteq> None"
    by (auto simp: find_None_iff occSet_def)
  then obtain t where t: "List.find (\<lambda>s. occupied s \<and> eq (key s) k) T = Some t" by blast
  then have "t \<in> occ T \<and> eq (key t) k" by (auto simp: find_Some_iff occSet_def)
  then have "t = s" using occ_eq_unique [OF assms] s by blast
  then show "List.find (\<lambda>s. occupied s \<and> eq (key s) k) T = Some s" using t by simp
qed

lemma lookup_none:
  "List.find (\<lambda>s. occupied s \<and> eq (key s) k) T = None \<longleftrightarrow> (\<forall>s \<in> occ T. \<not> eq (key s) k)"
  by (auto simp: find_None_iff occSet_def)

lemma lookup_occ_cong:
  assumes "wf T" "wf T'" "occ T = occ T'"
  shows "List.find (\<lambda>s. occupied s \<and> eq (key s) k) T = List.find (\<lambda>s. occupied s \<and> eq (key s) k) T'"
proof (cases "List.find (\<lambda>s. occupied s \<and> eq (key s) k) T'")
  case None
  then have "\<forall>s \<in> occ T. \<not> eq (key s) k" unfolding lookup_none assms(3) .
  then show ?thesis using None lookup_none [of k T] by (simp only:)
next
  case (Some s)
  then have "s \<in> occ T \<and> eq (key s) k" unfolding lookup_iff [OF assms(2)] assms(3) .
  then show ?thesis using Some lookup_iff [OF assms(1), of k s] by (simp only:)
qed

end

end
