(* ===== verification/Hash.thy ===== *)
theory Hash
  imports Bytes
begin

text \<open>
  \<open>src/util/hash.c\<close>: FNV-1a over bytes and the MurmurHash3 finalizers.  The finalizers are
  bijections, so scalar keys never collide on the full hash.
\<close>

definition FNV_OFFSET :: u64 where "FNV_OFFSET = 0xcbf29ce484222325"
definition FNV_PRIME :: u64 where "FNV_PRIME = 0x100000001b3"

text \<open>A null span and an empty one are both the empty list.\<close>

definition Hash_fnv1a64 :: "u8 list \<Rightarrow> u64" where
  "Hash_fnv1a64 d =
     (if d = [] then 0
      else fold (\<lambda>b hash. (hash XOR ucast b) * FNV_PRIME) d FNV_OFFSET)"

definition Hash_murmur3Mix64 :: "u64 \<Rightarrow> u64" where
  "Hash_murmur3Mix64 k =
     (let k1 = k XOR drop_bit 33 k;
          k2 = k1 * 0xff51afd7ed558ccd;
          k3 = k2 XOR drop_bit 33 k2;
          k4 = k3 * 0xc4ceb9fe1a85ec53
      in k4 XOR drop_bit 33 k4)"

definition Hash_pointer :: "u64 \<Rightarrow> u64" where
  "Hash_pointer p = Hash_murmur3Mix64 p"

definition Hash_murmur3Mix32 :: "u32 \<Rightarrow> u32" where
  "Hash_murmur3Mix32 k =
     (let k1 = k XOR drop_bit 16 k;
          k2 = k1 * 0x85ebca6b;
          k3 = k2 XOR drop_bit 13 k2;
          k4 = k3 * 0xc2b2ae35
      in k4 XOR drop_bit 16 k4)"

section \<open>The finalizers undone\<close>

lemma xorshift_undo:
  assumes "LENGTH('a) \<le> 2 * n" "0 < n"
  shows "(x XOR drop_bit n x) XOR drop_bit n (x XOR drop_bit n x) = (x :: 'a::len word)"
  by (rule bit_word_eqI)
    (use assms in \<open>auto simp: bit_xor_iff bit_drop_bit_eq dest: bit_imp_le_length\<close>)

lemma xorshift_undo_13:
  "(let y = x XOR drop_bit 13 x in y XOR drop_bit 13 y XOR drop_bit 26 y) = (x :: u32)"
  unfolding Let_def
  by (rule bit_word_eqI) (auto simp: bit_xor_iff bit_drop_bit_eq dest: bit_imp_le_length)

definition unmix64 :: "u64 \<Rightarrow> u64" where
  "unmix64 k =
     (let k4 = k XOR drop_bit 33 k;
          k3 = k4 * 0x9cb4b2f8129337db;
          k2 = k3 XOR drop_bit 33 k3;
          k1 = k2 * 0x4f74430c22a54005
      in k1 XOR drop_bit 33 k1)"

definition unmix32 :: "u32 \<Rightarrow> u32" where
  "unmix32 k =
     (let k4 = k XOR drop_bit 16 k;
          k3 = k4 * 0x7ed1b41d;
          k2 = k3 XOR drop_bit 13 k3 XOR drop_bit 26 k3;
          k1 = k2 * 0xa5cb9243
      in k1 XOR drop_bit 16 k1)"

lemma odd_inverses:
  "0xff51afd7ed558ccd * 0x4f74430c22a54005 = (1 :: u64)"
  "0xc4ceb9fe1a85ec53 * 0x9cb4b2f8129337db = (1 :: u64)"
  "0x85ebca6b * 0xa5cb9243 = (1 :: u32)"
  "0xc2b2ae35 * 0x7ed1b41d = (1 :: u32)"
  by code_simp+

lemma undo_steps:
  "(x XOR drop_bit 33 x) XOR drop_bit 33 (x XOR drop_bit 33 x) = (x :: u64)"
  "(y XOR drop_bit 16 y) XOR drop_bit 16 (y XOR drop_bit 16 y) = (y :: u32)"
  "x * 0xff51afd7ed558ccd * 0x4f74430c22a54005 = x"
  "x * 0xc4ceb9fe1a85ec53 * 0x9cb4b2f8129337db = x"
  "y * 0x85ebca6b * 0xa5cb9243 = y"
  "y * 0xc2b2ae35 * 0x7ed1b41d = y"
  using xorshift_undo [of 33 x] xorshift_undo [of 16 y]
  by (simp_all only: mult.assoc odd_inverses) simp_all

lemma unmix64_mix: "unmix64 (Hash_murmur3Mix64 k) = k"
  unfolding unmix64_def Hash_murmur3Mix64_def Let_def by (simp only: undo_steps)

lemma unmix32_mix: "unmix32 (Hash_murmur3Mix32 k) = k"
  unfolding unmix32_def Hash_murmur3Mix32_def Let_def
  by (simp only: undo_steps xorshift_undo_13 [unfolded Let_def])

lemma mix64_inj: "Hash_murmur3Mix64 a = Hash_murmur3Mix64 b \<longleftrightarrow> a = b"
  by (metis unmix64_mix)

text \<open>
Both finalizers are bijections of their words: distinct scalar keys, and distinct
addresses, have distinct full hashes, so every match of hashes of scalar keys is a match of keys.
\<close>

theorem Hash_murmur3Mix_bij:
  "bij Hash_murmur3Mix64 \<and> bij Hash_murmur3Mix32 \<and> bij Hash_pointer"
proof -
  have "inj Hash_murmur3Mix64" "inj Hash_murmur3Mix32"
    by (metis injI unmix64_mix) (metis injI unmix32_mix)
  moreover have "Hash_pointer = Hash_murmur3Mix64" by (simp add: fun_eq_iff Hash_pointer_def)
  ultimately show ?thesis by (simp add: bij_def finite_UNIV_inj_surj)
qed

end
