(* ===== verification/Keys.thy ===== *)
theory Keys
  imports Probing Hash
begin

text \<open>
  Keys of the hashed containers (\<open>computeHash\<close>, \<open>keysEqual\<close> of \<open>src/struct/map.c\<close> and
  \<open>src/struct/set.c\<close>).  A key of a reference class is an address: what the storage engine says
  of it, its block type and payload, is the parameter \<open>blocks\<close>.
\<close>

type_synonym blocks = "u64 \<Rightarrow> u64 \<times> u8 list"

abbreviation Memory_type :: "blocks \<Rightarrow> u64 \<Rightarrow> u64" where
  "Memory_type b p \<equiv> fst (b p)"

abbreviation Memory_payload :: "blocks \<Rightarrow> u64 \<Rightarrow> u8 list" where
  "Memory_payload b p \<equiv> snd (b p)"

definition isReferenceClass :: "u32 \<Rightarrow> bool" where
  "isReferenceClass classId \<longleftrightarrow> classId = ID_STRING \<or> ID_LIST \<le> classId"

definition computeHash :: "blocks \<Rightarrow> u32 \<Rightarrow> u64 \<Rightarrow> u64" where
  "computeHash b keyClass k =
     (if k = 0 then 0
      else if isReferenceClass keyClass \<and> 4096 \<le> k \<and> Memory_type b k \<noteq> 0 \<and>
              0 < length (Memory_payload b k)
      then Hash_fnv1a64 (Memory_payload b k)
      else Hash_murmur3Mix64 k)"

definition keysEqual :: "blocks \<Rightarrow> u32 \<Rightarrow> u64 \<Rightarrow> u64 \<Rightarrow> bool" where
  "keysEqual b keyClass k1 k2 =
     (if k1 = k2 then True
      else if k1 = 0 \<or> k2 = 0 then False
      else if isReferenceClass keyClass \<and> 4096 \<le> k1 \<and> 4096 \<le> k2 then
        (if Memory_type b k1 \<noteq> 0 \<and> Memory_type b k1 = Memory_type b k2 then
           (if length (Memory_payload b k1) \<noteq> length (Memory_payload b k2) then False
            else Memory_payload b k1 = Memory_payload b k2)
         else False)
      else False)"

text \<open>A slot answers for a key when the stored hash and the key both agree.\<close>

definition keyMatch :: "blocks \<Rightarrow> u32 \<Rightarrow> u64 \<Rightarrow> u64 \<Rightarrow> bool" where
  "keyMatch b cls k1 k2 \<longleftrightarrow> computeHash b cls k1 = computeHash b cls k2 \<and> keysEqual b cls k1 k2"

lemma keysEqual_sym: "keysEqual b cls x y \<Longrightarrow> keysEqual b cls y x"
  by (auto simp: keysEqual_def split: if_splits)

lemma keysEqual_trans: "keysEqual b cls x y \<Longrightarrow> keysEqual b cls y z \<Longrightarrow> keysEqual b cls x z"
  by (auto simp: keysEqual_def split: if_splits)

lemma keyMatch_scalar: "\<not> isReferenceClass cls \<Longrightarrow> keyMatch b cls x y \<longleftrightarrow> x = y"
  by (auto simp: keyMatch_def keysEqual_def)

text \<open>Blocks with a payload hash by content, so equality decides.\<close>

lemma keyMatch_content:
  assumes "\<forall>p. Memory_payload b p \<noteq> []"
  shows "keyMatch b cls x y \<longleftrightarrow> keysEqual b cls x y"
proof -
  have "computeHash b cls x = computeHash b cls y" if e: "keysEqual b cls x y" "x \<noteq> y"
  proof -
    from e have ref: "x \<noteq> 0" "y \<noteq> 0" "isReferenceClass cls" "4096 \<le> x" "4096 \<le> y"
      "Memory_type b x \<noteq> 0" "Memory_type b y \<noteq> 0" "Memory_payload b x = Memory_payload b y"
      by (simp_all add: keysEqual_def split: if_splits)
    have "0 < length (Memory_payload b x)" "0 < length (Memory_payload b y)" using assms by auto
    then show ?thesis unfolding computeHash_def using ref by simp
  qed
  then show ?thesis unfolding keyMatch_def by (cases "x = y") auto
qed

lemma keysEqual_refl: "keysEqual b cls x x"
  by (simp add: keysEqual_def)

lemma keyMatch_refl: "keyMatch b cls x x"
  by (simp add: keyMatch_def keysEqual_refl)

lemma keyMatch_sym: "keyMatch b cls x y \<Longrightarrow> keyMatch b cls y x"
  using keysEqual_sym by (simp add: keyMatch_def)

lemma keyMatch_trans: "keyMatch b cls x y \<Longrightarrow> keyMatch b cls y z \<Longrightarrow> keyMatch b cls x z"
  using keysEqual_trans unfolding keyMatch_def by metis

lemma keyMatch_table:
  "open_table (computeHash b cls) (keyMatch b cls)"
  by unfold_locales (fact keyMatch_refl, fact keyMatch_sym, fact keyMatch_trans, simp add: keyMatch_def)

end
