(* ===== verification/Collection.thy ===== *)
theory Collection
  imports Memory
begin

text \<open>
  The shared header of the containers, \<open>src/struct/collection.c\<close>: counters and sizes (unsigned
  32-bit fields, naturals here with every wrap-around of the code written out), the element
  buffer as raw bytes, and the exhaustion accounting.  A handle that may be null is an option.
  The second half gives a buffer of slots its meaning as a list of values; every container
  proof works with \<open>slots\<close> and never with bytes.
\<close>

datatype TypeTag = TYPE_LIST | TYPE_ARRAY | TYPE_STACK | TYPE_DEQUE | TYPE_QUEUE | TYPE_MAP
  | TYPE_SET | TYPE_CIRCLE_ARRAY | TYPE_SPHERE_ARRAY

record Collection =
  typeId :: TypeTag
  activeCount :: nat
  elementClass :: u32
  stride :: nat
  capacity :: nat
  head :: nat
  data :: "u8 list"
  exhaustionCount :: u64
  exhaustionReported :: bool

section \<open>Slots of a buffer\<close>

text \<open>The scalar width the stride selects; wider strides hold their scalar in the first 8 bytes.\<close>

definition slotWidth :: "nat \<Rightarrow> nat" where
  "slotWidth st = (if st = 1 then 1 else if st = 2 then 2 else if st = 4 then 4 else 8)"

definition readSlotAt :: "u8 list \<Rightarrow> nat \<Rightarrow> nat \<Rightarrow> u64" where
  "readSlotAt d off st = le_read (mem_read d off (slotWidth st))"

definition writeSlotAt :: "u8 list \<Rightarrow> nat \<Rightarrow> nat \<Rightarrow> u64 \<Rightarrow> u8 list" where
  "writeSlotAt d off st v = mem_write d off (le_write (slotWidth st) v)"

text \<open>What a slot keeps of a value: the cast to the scalar of that width.\<close>

definition slotValue :: "nat \<Rightarrow> u64 \<Rightarrow> u64" where
  "slotValue st v = take_bit (8 * slotWidth st) v"

section \<open>Accessors\<close>

definition Collection_size :: "Collection option \<Rightarrow> nat" where
  "Collection_size h = (case h of None \<Rightarrow> 0 | Some c \<Rightarrow> activeCount c)"

definition Collection_length :: "Collection option \<Rightarrow> nat" where
  "Collection_length h = Collection_size h"

definition Collection_isEmpty :: "Collection option \<Rightarrow> bool" where
  "Collection_isEmpty h \<longleftrightarrow> Collection_size h = 0"

definition Collection_elementClassId :: "Collection option \<Rightarrow> u32" where
  "Collection_elementClassId h = (case h of None \<Rightarrow> 0 | Some c \<Rightarrow> elementClass c)"

definition Collection_keyClassId :: "Collection option \<Rightarrow> u32" where
  "Collection_keyClassId h = Collection_elementClassId h"

definition Collection_stride :: "Collection option \<Rightarrow> nat" where
  "Collection_stride h = (case h of None \<Rightarrow> 0 | Some c \<Rightarrow> stride c)"

definition Collection_valClassId :: "Collection option \<Rightarrow> nat" where
  "Collection_valClassId h = Collection_stride h"

definition Collection_capacity :: "Collection option \<Rightarrow> nat" where
  "Collection_capacity h = (case h of None \<Rightarrow> 0 | Some c \<Rightarrow> capacity c)"

definition Collection_head :: "Collection option \<Rightarrow> nat" where
  "Collection_head h = (case h of None \<Rightarrow> 0 | Some c \<Rightarrow> head c)"

definition Collection_dataBuffer :: "Collection option \<Rightarrow> u8 list option" where
  "Collection_dataBuffer h = map_option data h"

definition Collection_exhaustionCount :: "Collection option \<Rightarrow> u64" where
  "Collection_exhaustionCount h = (case h of None \<Rightarrow> 0 | Some c \<Rightarrow> exhaustionCount c)"

definition Collection_reportExhaustion :: "Collection option \<Rightarrow> bool \<times> Collection option" where
  "Collection_reportExhaustion h = (case h of
     None \<Rightarrow> (False, None)
   | Some c \<Rightarrow>
       (case Struct_reportExhaustion (Some (exhaustionCount c, exhaustionReported c)) of
          (ok, Some (n, r)) \<Rightarrow> (ok, Some (c\<lparr>exhaustionCount := n, exhaustionReported := r\<rparr>))
        | (ok, None) \<Rightarrow> (ok, Some c)))"

definition Collection_resetExhaustion :: "Collection option \<Rightarrow> Collection option" where
  "Collection_resetExhaustion h = (case h of
     None \<Rightarrow> None
   | Some c \<Rightarrow>
       (case Struct_resetExhaustion (Some (exhaustionCount c)) (Some (exhaustionReported c)) of
          (Some n, Some r) \<Rightarrow> Some (c\<lparr>exhaustionCount := n, exhaustionReported := r\<rparr>)
        | _ \<Rightarrow> Some c))"

text \<open>
  The bounded pair refuses an index past the capacity and an offset that would not fit 64 bits;
  the unchecked pair trusts its caller.
\<close>

definition Collection_readSlot :: "Collection option \<Rightarrow> nat \<Rightarrow> u64" where
  "Collection_readSlot h index = (case h of
     None \<Rightarrow> 0
   | Some c \<Rightarrow>
       if capacity c \<le> index then 0
       else if 18446744073709551616 \<le> index * stride c then 0
       else readSlotAt (data c) (index * stride c) (stride c))"

definition Collection_writeSlot ::
    "Collection option \<Rightarrow> nat \<Rightarrow> u64 \<Rightarrow> Collection option" where
  "Collection_writeSlot h index v = (case h of
     None \<Rightarrow> None
   | Some c \<Rightarrow>
       if capacity c \<le> index then Some c
       else if 18446744073709551616 \<le> index * stride c then Some c
       else Some (c\<lparr>data := writeSlotAt (data c) (index * stride c) (stride c) v\<rparr>))"

definition Collection_readSlotUnsafe :: "Collection option \<Rightarrow> nat \<Rightarrow> u64" where
  "Collection_readSlotUnsafe h index = (case h of
     None \<Rightarrow> 0
   | Some c \<Rightarrow> readSlotAt (data c) (wrap64 (index * stride c)) (stride c))"

definition Collection_writeSlotUnsafe ::
    "Collection option \<Rightarrow> nat \<Rightarrow> u64 \<Rightarrow> Collection option" where
  "Collection_writeSlotUnsafe h index v = (case h of
     None \<Rightarrow> None
   | Some c \<Rightarrow>
       Some (c\<lparr>data := writeSlotAt (data c) (wrap64 (index * stride c)) (stride c) v\<rparr>))"

section \<open>Construction\<close>

text \<open>
  Every container with a default capacity is built by the same statements: the header, then the
  zeroed buffer; a refusal of either is counted process-wide and the handle is null.  The sizes
  are \<open>size_t\<close>, the header fields 32 bits wide.  The containers' \<open>instant\<close> and \<open>Array_2\<close>
  instantiate it with their tag, count and capacity.
\<close>

definition newCollection ::
    "TypeTag \<Rightarrow> u32 \<Rightarrow> nat \<Rightarrow> nat \<Rightarrow> World \<Rightarrow> Collection option \<times> World" where
  "newCollection tag cls cap count w =
     (let st = Stride_get (MASK_CLASS w) cls;
          (granted, w1) = Memory_object w
      in if \<not> granted then (None, snd (Struct_reportConstructionExhaustion w1))
         else
           (let nbytes = wrap64 (cap * st);
                (buf, w2) = Memory_bytes nbytes w1
            in case buf of
                 None \<Rightarrow> (None, snd (Struct_reportConstructionExhaustion w2))
               | Some d \<Rightarrow>
                   (Some \<lparr>typeId = tag, activeCount = wrap32 count, elementClass = cls,
                      stride = st, capacity = wrap32 cap, head = 0,
                      data = memset d 0 0 nbytes, exhaustionCount = 0,
                      exhaustionReported = False\<rparr>, w2)))"

section \<open>Well-formed headers and their values\<close>

definition strideOk :: "nat \<Rightarrow> bool" where
  "strideOk st \<longleftrightarrow> slotWidth st \<le> st \<and> st \<le> 64"

text \<open>
  The buffer holds at least the slots the capacity announces, the capacity fits its field, and
  the 32-bit byte count of the live elements does not wrap.
\<close>

definition collWf :: "Collection \<Rightarrow> bool" where
  "collWf c \<longleftrightarrow> strideOk (stride c) \<and> capacity c * stride c \<le> length (data c) \<and>
     capacity c < 4294967296 \<and> activeCount c \<le> capacity c \<and>
     activeCount c * stride c < 4294967296"

text \<open>
  How many more elements the 32-bit arithmetic of the growing containers has room for: fewer
  than \<open>2 ^ 30\<close> elements, in fewer than \<open>2 ^ 32\<close> bytes.
\<close>

definition elementLimit :: "nat \<Rightarrow> nat" where
  "elementLimit st = min 1073741824 (4294967295 div st)"

definition elementRoom :: "Collection \<Rightarrow> nat" where
  "elementRoom c = elementLimit (stride c) - activeCount c"

text \<open>The values of \<open>n\<close> consecutive slots from slot \<open>i\<close>.\<close>

definition slots :: "Collection \<Rightarrow> nat \<Rightarrow> nat \<Rightarrow> u64 list" where
  "slots c i n = map (\<lambda>k. readSlotAt (data c) (k * stride c) (stride c)) [i ..< i + n]"

lemma Stride_get_ok [simp]: "strideOk (Stride_get k cls)"
  using Stride_get_values [of k cls] by (auto simp: strideOk_def slotWidth_def)

lemma slotWidth_pos [simp]: "0 < slotWidth st" and slotWidth_le: "slotWidth st \<le> 8"
  by (simp_all add: slotWidth_def)

lemma strideOk_pos: "strideOk st \<Longrightarrow> 0 < st"
  unfolding strideOk_def using slotWidth_pos [of st] by linarith

lemma slotValue_idem [simp]: "slotValue st (slotValue st v) = slotValue st v"
  by (simp add: slotValue_def)

lemma slotValue_8 [simp]: "slotValue 8 v = v"
  by (simp add: slotValue_def slotWidth_def take_bit_word_eq_self)

lemma slot_fits:
  assumes "i < n" and "strideOk st"
  shows "i * st + slotWidth st \<le> n * st"
proof -
  have "Suc i * st \<le> n * st" using assms(1) by (intro mult_le_mono1) simp
  then show ?thesis using assms(2) by (simp add: strideOk_def)
qed

lemma slots_apart:
  assumes "i \<noteq> j" and "strideOk st"
  shows "i * st + slotWidth st \<le> j * st \<or> j * st + slotWidth st \<le> i * st"
  using assms slot_fits [of i j st] slot_fits [of j i st] by (cases "i < j") auto

lemma readSlotAt_le_read_bits [simp]: "slotValue st (readSlotAt d off st) = readSlotAt d off st"
proof -
  have "length (mem_read d off (slotWidth st)) \<le> slotWidth st"
    by (simp add: mem_read_def)
  then show ?thesis
    unfolding slotValue_def readSlotAt_def
    by (intro bit_word_eqI) (auto simp: bit_take_bit_iff le_read_bit less_mult_imp_div_less)
qed

lemma read_write_same:
  assumes "i < n" "n * st \<le> length d" "strideOk st"
  shows "readSlotAt (writeSlotAt d (i * st) st v) (i * st) st = slotValue st v"
  using mem_read_write_same [of "i * st" "le_write (slotWidth st) v" d] slot_fits [OF assms(1,3)] assms(2)
  by (simp add: readSlotAt_def writeSlotAt_def slotValue_def le_read_write)

lemma read_write_other:
  assumes "i < n" "j < n" "i \<noteq> j" "n * st \<le> length d" "strideOk st"
  shows "readSlotAt (writeSlotAt d (i * st) st v) (j * st) st = readSlotAt d (j * st) st"
  using slots_apart [OF assms(3,5)] slot_fits [OF assms(1,5)] slot_fits [OF assms(2,5)] assms(4)
  by (auto simp: readSlotAt_def writeSlotAt_def intro!: arg_cong [where f = le_read] mem_read_write_apart)

lemma length_writeSlotAt [simp]:
  assumes "i < n" "n * st \<le> length d" "strideOk st"
  shows "length (writeSlotAt d (i * st) st v) = length d"
  using slot_fits [OF assms(1,3)] assms(2) by (simp add: writeSlotAt_def)

text \<open>A block move of whole slots moves their values.\<close>

lemma read_memcpy_slots:
  assumes "i < n" "strideOk st" "doff * st + n * st \<le> length dst" "soff * st + n * st \<le> length src"
  shows "readSlotAt (memcpy dst (doff * st) src (soff * st) (n * st)) ((doff + i) * st) st =
    readSlotAt src ((soff + i) * st) st"
  unfolding readSlotAt_def
  by (subst mem_read_memcpy_in) (use assms slot_fits [OF assms(1,2)] in \<open>auto simp: algebra_simps\<close>)

lemma read_memcpy_slots_other:
  assumes "j < doff \<or> doff + n \<le> j" "j < m" "m * st \<le> length dst" "strideOk st"
    "doff * st + n * st \<le> length dst" "soff * st + n * st \<le> length src"
  shows "readSlotAt (memcpy dst (doff * st) src (soff * st) (n * st)) (j * st) st =
    readSlotAt dst (j * st) st"
proof -
  have "j * st + slotWidth st \<le> doff * st \<or> (doff + n) * st \<le> j * st"
    using assms(1) slot_fits [of j doff st] assms(4) by (auto intro: mult_le_mono1)
  moreover have "j * st + slotWidth st \<le> length dst"
    using slot_fits [OF assms(2,4)] assms(3) by linarith
  ultimately show ?thesis
    unfolding readSlotAt_def using assms(5,6)
    by (subst mem_read_memcpy_apart) (auto simp: algebra_simps)
qed

section \<open>Lists of slots\<close>

lemma length_slots [simp]: "length (slots c i n) = n"
  by (simp add: slots_def)

lemma slots_nth [simp]:
  "k < n \<Longrightarrow> slots c i n ! k = readSlotAt (data c) ((i + k) * stride c) (stride c)"
  by (simp add: slots_def)

lemma slots_0 [simp]: "slots c i 0 = []"
  by (simp add: slots_def)

lemma slots_snoc: "slots c i (Suc n) = slots c i n @ [readSlotAt (data c) ((i + n) * stride c) (stride c)]"
  by (simp add: slots_def)

lemma slots_append: "slots c i (m + n) = slots c i m @ slots c (i + m) n"
proof -
  have "[i ..< i + (m + n)] = [i ..< i + m] @ [i + m ..< i + m + n]"
    using upt_add_eq_append [of i "i + m" n] by (simp add: add.assoc)
  then show ?thesis by (simp add: slots_def)
qed

lemma slots_cong:
  "(\<And>k. k < n \<Longrightarrow> readSlotAt (data c) ((i + k) * stride c) (stride c) =
                 readSlotAt (data c') ((j + k) * stride c') (stride c')) \<Longrightarrow>
   slots c i n = slots c' j n"
  by (rule nth_equalityI) simp_all

lemma collWf_index_offset:
  assumes "collWf c" "i < capacity c"
  shows "i * stride c < 18446744073709551616"
proof -
  have "i * stride c \<le> 4294967296 * 64"
    using assms by (intro mult_le_mono) (auto simp: collWf_def strideOk_def)
  then show ?thesis by simp
qed

lemma collWf_stride_pos: "collWf c \<Longrightarrow> 0 < stride c"
  by (simp add: collWf_def strideOk_pos)

lemma collWf_shrink [simp, intro]:
  assumes "collWf c" "n \<le> activeCount c"
  shows "collWf (c\<lparr>activeCount := n\<rparr>)"
proof -
  have "n * stride c \<le> activeCount c * stride c" using assms(2) by (rule mult_le_mono1)
  moreover have "activeCount c * stride c < 4294967296" using assms(1) by (simp add: collWf_def)
  ultimately have "n * stride c < 4294967296" by (rule le_less_trans)
  then show ?thesis using assms by (simp add: collWf_def)
qed

lemma collWf_refused [simp]:
  "collWf (c\<lparr>exhaustionCount := a, exhaustionReported := b\<rparr>) = collWf c"
  by (simp add: collWf_def)

lemma elementRoom_refused [simp]:
  "elementRoom (c\<lparr>exhaustionCount := a, exhaustionReported := b\<rparr>) = elementRoom c"
  by (simp add: elementRoom_def)

lemma limit_less: "n < elementLimit st \<Longrightarrow> n < 1073741824"
  by (simp add: elementLimit_def)

lemma limit_bytes:
  assumes "n < elementLimit st"
  shows "Suc n * st < 4294967296" and "n * st < 4294967296"
proof -
  have "Suc n \<le> 4294967295 div st" using assms by (simp add: elementLimit_def)
  then have "Suc n * st \<le> 4294967295 div st * st" by (rule mult_le_mono1)
  also have "\<dots> \<le> 4294967295" by (rule div_times_less_eq_dividend)
  finally show "Suc n * st < 4294967296" by simp
  then show "n * st < 4294967296" by simp
qed

lemma readSlot_in [simp]:
  assumes "collWf c" "i < capacity c"
  shows "Collection_readSlot (Some c) i = readSlotAt (data c) (i * stride c) (stride c)"
  using collWf_index_offset [OF assms] assms(2) by (simp add: Collection_readSlot_def)

lemma writeSlot_in [simp]:
  assumes "collWf c" "i < capacity c"
  shows "Collection_writeSlot (Some c) i v =
    Some (c\<lparr>data := writeSlotAt (data c) (i * stride c) (stride c) v\<rparr>)"
  using collWf_index_offset [OF assms] assms(2) by (simp add: Collection_writeSlot_def)

lemma length_write_wf:
  "collWf c \<Longrightarrow> i < capacity c \<Longrightarrow>
   length (writeSlotAt (data c) (i * stride c) (stride c) v) = length (data c)"
  by (rule length_writeSlotAt) (auto simp: collWf_def)

lemma slots_write:
  assumes "collWf c" "j < capacity c" "i + n \<le> capacity c"
  shows "slots (c\<lparr>data := writeSlotAt (data c) (j * stride c) (stride c) v\<rparr>) i n =
    (if i \<le> j \<and> j < i + n then (slots c i n)[j - i := slotValue (stride c) v] else slots c i n)"
proof (rule nth_equalityI)
  let ?c = "c\<lparr>data := writeSlotAt (data c) (j * stride c) (stride c) v\<rparr>"
  show "length (slots ?c i n) = length (if i \<le> j \<and> j < i + n
      then (slots c i n)[j - i := slotValue (stride c) v] else slots c i n)" by simp
  fix k assume "k < length (slots ?c i n)"
  then have k: "k < n" by simp
  have wf: "capacity c * stride c \<le> length (data c)" "strideOk (stride c)"
    using assms(1) by (auto simp: collWf_def)
  show "slots ?c i n ! k = (if i \<le> j \<and> j < i + n
      then (slots c i n)[j - i := slotValue (stride c) v] else slots c i n) ! k"
  proof (cases "i + k = j")
    case True
    then show ?thesis
      using k read_write_same [OF assms(2) wf] by auto
  next
    case False
    then show ?thesis
      using k assms read_write_other [OF assms(2) _ _ wf, of "i + k"] by auto
  qed
qed

lemma reportExhaustion_Some [simp]:
  "Collection_reportExhaustion (Some c) =
   (False, Some (c\<lparr>exhaustionCount := exhaustionCount c + 1, exhaustionReported := True\<rparr>))"
  by (simp add: Collection_reportExhaustion_def)

lemma slots_more [simp]:
  "slots (c\<lparr>exhaustionCount := e\<rparr>) i n = slots c i n"
  "slots (c\<lparr>exhaustionReported := r\<rparr>) i n = slots c i n"
  "slots (c\<lparr>activeCount := k\<rparr>) i n = slots c i n"
  "slots (c\<lparr>head := h\<rparr>) i n = slots c i n"
  "slots (c\<lparr>capacity := h\<rparr>) i n = slots c i n"
  by (simp_all add: slots_def)

lemma readSlotAt_zeroes:
  "off + slotWidth st \<le> n \<Longrightarrow> readSlotAt (replicate n 0) off st = 0"
proof -
  have "le_read (replicate k 0) = (0 :: u64)" for k by (induction k) simp_all
  moreover assume "off + slotWidth st \<le> n"
  ultimately show ?thesis by (simp add: readSlotAt_def mem_read_def min_def)
qed

text \<open>A constructor either reports a refusal or hands out zeroed slots.\<close>

lemma newCollection_cases:
  assumes "newCollection tag cls cap count w = (h, w')"
    and "cap < 4294967296" "count \<le> cap" "count * Stride_get (MASK_CLASS w) cls < 4294967296"
  obtains (refused) "h = None" "s_constructionReported w'"
  | (made) c where "h = Some c" "collWf c" "activeCount c = count" "capacity c = cap" "head c = 0"
      "stride c = Stride_get (MASK_CLASS w) cls" "slots c 0 cap = replicate cap 0"
      "exhaustionCount c = 0" "\<not> exhaustionReported c" "typeId c = tag" "elementClass c = cls"
proof -
  let ?st = "Stride_get (MASK_CLASS w) cls"
  obtain g w1 where g: "Memory_object w = (g, w1)" by fastforce
  obtain b w2 where b: "Memory_bytes (cap * ?st) w1 = (b, w2)" by fastforce
  have st: "?st \<le> 64" using Stride_get_ok [of "MASK_CLASS w" cls] by (simp add: strideOk_def)
  have "cap * ?st \<le> 4294967296 * 64" using assms(2) st by (intro mult_le_mono) auto
  then have nb: "wrap64 (cap * ?st) = cap * ?st" by simp
  show thesis
  proof (cases "g \<and> b \<noteq> None")
    case False
    then show thesis
      using assms(1) g b nb
      by (intro refused) (auto simp: newCollection_def Let_def Struct_reportConstructionExhaustion_def
          split: if_splits)
  next
    case True
    then obtain d where d: "b = Some d" by auto
    have len: "length d = cap * ?st" using Memory_bytes_length b d by blast
    let ?c = "\<lparr>typeId = tag, activeCount = count, elementClass = cls, stride = ?st,
      capacity = cap, head = 0, data = replicate (cap * ?st) 0, exhaustionCount = 0,
      exhaustionReported = False\<rparr>"
    have "memset d 0 0 (cap * ?st) = replicate (cap * ?st) 0"
      using len by (simp add: memset_def mem_write_def)
    then have h: "h = Some ?c"
      using assms g b d nb True by (auto simp: newCollection_def Let_def)
    moreover have "collWf ?c" using assms(2-4) by (simp add: collWf_def)
    moreover have "slots ?c 0 cap = replicate cap 0"
      by (rule nth_equalityI) (simp_all add: readSlotAt_zeroes slot_fits)
    ultimately show thesis by (intro made) auto
  qed
qed

section \<open>Growing and appending\<close>

text \<open>
  The two statements the linear containers share: adopt a bigger buffer after copying the live
  bytes (the byte count is a 32-bit product), and append at the count.
\<close>

definition adoptBuffer :: "Collection \<Rightarrow> u8 list \<Rightarrow> nat \<Rightarrow> Collection" where
  "adoptBuffer c buf newCap =
     c\<lparr>data := memcpy buf 0 (data c) 0 (wrap32 (activeCount c * stride c)),
       capacity := wrap32 newCap\<rparr>"

definition appendSlot :: "Collection \<Rightarrow> u64 \<Rightarrow> Collection option" where
  "appendSlot c v =
     map_option (\<lambda>c1. c1\<lparr>activeCount := wrap32 (activeCount c1 + 1)\<rparr>)
       (Collection_writeSlot (Some c) (activeCount c) v)"

abbreviation liveSlots :: "Collection \<Rightarrow> u64 list" where
  "liveSlots c \<equiv> slots c 0 (activeCount c)"

lemma adoptBuffer_fields [simp]:
  "activeCount (adoptBuffer c buf n) = activeCount c"
  "stride (adoptBuffer c buf n) = stride c"
  "head (adoptBuffer c buf n) = head c"
  "capacity (adoptBuffer c buf n) = wrap32 n"
  "exhaustionCount (adoptBuffer c buf n) = exhaustionCount c"
  "exhaustionReported (adoptBuffer c buf n) = exhaustionReported c"
  "elementClass (adoptBuffer c buf n) = elementClass c"
  by (simp_all add: adoptBuffer_def)

lemma adoptBuffer_wf:
  assumes "collWf c" "activeCount c \<le> n" "n < 4294967296" "length buf = n * stride c"
  shows "collWf (adoptBuffer c buf n)" and "liveSlots (adoptBuffer c buf n) = liveSlots c"
proof -
  have live: "activeCount c * stride c < 4294967296"
    "activeCount c * stride c \<le> length (data c)" "strideOk (stride c)"
    using assms(1) mult_le_mono1 [of "activeCount c" "capacity c" "stride c"]
    unfolding collWf_def by linarith+
  have new: "activeCount c * stride c \<le> length buf"
    using assms(2,4) by (simp add: mult_le_mono1)
  have d: "data (adoptBuffer c buf n) = memcpy buf 0 (data c) 0 (activeCount c * stride c)"
    using live(1) by (simp add: adoptBuffer_def)
  have "length (data (adoptBuffer c buf n)) = n * stride c"
    unfolding d using live(2) new assms(4) by simp
  then show "collWf (adoptBuffer c buf n)"
    using assms(1-3) by (simp add: collWf_def)
  show "liveSlots (adoptBuffer c buf n) = liveSlots c"
    unfolding adoptBuffer_fields
  proof (rule slots_cong)
    fix k assume k: "k < activeCount c"
    show "readSlotAt (data (adoptBuffer c buf n)) ((0 + k) * stride (adoptBuffer c buf n))
        (stride (adoptBuffer c buf n)) = readSlotAt (data c) ((0 + k) * stride c) (stride c)"
      unfolding d adoptBuffer_fields
      using read_memcpy_slots [OF k live(3), of 0 buf 0 "data c"] live(2) new by simp
  qed
qed

lemma appendSlot_wf:
  assumes "collWf c" "activeCount c < capacity c" "Suc (activeCount c) * stride c < 4294967296"
  obtains c' where "appendSlot c v = Some c'" "collWf c'"
    "liveSlots c' = liveSlots c @ [slotValue (stride c) v]" "stride c' = stride c"
    "capacity c' = capacity c" "head c' = head c" "activeCount c' = Suc (activeCount c)"
    "exhaustionCount c' = exhaustionCount c"
proof -
  let ?d = "c\<lparr>data := writeSlotAt (data c) (activeCount c * stride c) (stride c) v\<rparr>"
  let ?c = "?d\<lparr>activeCount := Suc (activeCount c)\<rparr>"
  have n: "wrap32 (activeCount c + 1) = Suc (activeCount c)"
    using assms(1,2) by (simp add: collWf_def)
  then have eq: "appendSlot c v = Some ?c"
    using assms(1,2) by (simp add: appendSlot_def)
  have wf: "collWf ?c"
    using assms length_write_wf [OF assms(1,2), of v] by (simp add: collWf_def)
  have len: "Suc (activeCount c) \<le> capacity c" using assms(2) by simp
  have "slots ?d 0 (Suc (activeCount c)) = (slots c 0 (Suc (activeCount c)))
      [activeCount c := slotValue (stride c) v]"
    using slots_write [OF assms(1,2), of 0 "Suc (activeCount c)"] len by simp
  also have "\<dots> = liveSlots c @ [slotValue (stride c) v]"
    by (simp add: slots_snoc list_update_append)
  finally show thesis using eq wf by (intro that [of ?c]) auto
qed

text \<open>The outcome of a request for a bigger buffer: refused, or the same values in more room.\<close>

lemma grow_outcome:
  assumes "collWf c" "activeCount c \<le> n" "n < 4294967296"
    and "Memory_bytes (wrap64 (n * stride c)) w = (b, w')"
  shows "(\<exists>buf. b = Some buf \<and> collWf (adoptBuffer c buf n) \<and>
      liveSlots (adoptBuffer c buf n) = liveSlots c \<and> (willing w \<longrightarrow> willing w')) \<or>
    (b = None \<and> \<not> willing w)"
proof -
  have "n * stride c \<le> 4294967296 * 64"
    using assms(1,3) by (intro mult_le_mono) (auto simp: collWf_def strideOk_def)
  then have bytes: "wrap64 (n * stride c) = n * stride c" by (intro wrap64_id) linarith
  show ?thesis
  proof (cases b)
    case None
    then show ?thesis using assms(4) Memory_bytes_willing by blast
  next
    case (Some buf)
    then have "length buf = n * stride c" using Memory_bytes_length assms(4) bytes by metis
    from adoptBuffer_wf [OF assms(1-3) this] Some Memory_bytes_willing [OF _ assms(4)]
    show ?thesis by auto
  qed
qed

section \<open>Handles of linear containers\<close>

definition linearInv :: "Collection option \<Rightarrow> bool" where
  "linearInv h = (case h of None \<Rightarrow> False | Some c \<Rightarrow> collWf c)"

definition linearElems :: "Collection option \<Rightarrow> u64 list" where
  "linearElems h = (case h of None \<Rightarrow> [] | Some c \<Rightarrow> liveSlots c)"

definition handleRoom :: "Collection option \<Rightarrow> nat" where
  "handleRoom h = (case h of None \<Rightarrow> 0 | Some c \<Rightarrow> elementRoom c)"

definition handleKeep :: "Collection option \<Rightarrow> u64 \<Rightarrow> u64" where
  "handleKeep h v = (case h of None \<Rightarrow> 0 | Some c \<Rightarrow> slotValue (stride c) v)"

lemma linearInv_iff: "linearInv h \<longleftrightarrow> (\<exists>c. h = Some c \<and> collWf c)"
  by (simp add: linearInv_def split: option.splits)

lemmas handle_views = linearInv_def linearElems_def handleRoom_def handleKeep_def
  elementRoom_def Collection_exhaustionCount_def

end
