(* ===== verification/Sequences.thy ===== *)
theory Sequences
  imports Memory "HOL-Library.Sublist"
begin

text \<open>
  The interfaces of the growing containers, over the list of values a container holds.  An
  addition may be refused by the allocator: then nothing changes but the count of refusals.
  The client lemmas are about whole runs: feeding a list of values, draining a number of them.
\<close>

primrec feed :: "('s \<Rightarrow> u64 \<Rightarrow> World \<Rightarrow> 's \<times> World) \<Rightarrow> u64 list \<Rightarrow> 's \<Rightarrow> World \<Rightarrow> 's \<times> World" where
  "feed add [] s w = (s, w)"
| "feed add (v # vs) s w = (let (s1, w1) = add s v w in feed add vs s1 w1)"

primrec drain :: "('s \<Rightarrow> u64 \<times> 's) \<Rightarrow> nat \<Rightarrow> 's \<Rightarrow> u64 list \<times> 's" where
  "drain pop 0 s = ([], s)"
| "drain pop (Suc n) s =
     (let (v, s1) = pop s; (vs, s2) = drain pop n s1 in (v # vs, s2))"

locale bounded_buffer =
  fixes inv :: "'s \<Rightarrow> bool"
    and elems :: "'s \<Rightarrow> u64 list"
    and room :: "'s \<Rightarrow> nat"
    and keep :: "'s \<Rightarrow> u64 \<Rightarrow> u64"
    and refusals :: "'s \<Rightarrow> u64"
    and add :: "'s \<Rightarrow> u64 \<Rightarrow> World \<Rightarrow> 's \<times> World"
  assumes add_cases:
      "inv s \<Longrightarrow> 0 < room s \<Longrightarrow> add s v w = (s', w') \<Longrightarrow>
       inv s' \<and> keep s' = keep s \<and>
       (elems s' = elems s @ [keep s v] \<and> room s' = room s - 1 \<and> refusals s' = refusals s \<or>
        elems s' = elems s \<and> room s' = room s \<and> refusals s' = refusals s + 1)"
    and add_willing:
      "inv s \<Longrightarrow> 0 < room s \<Longrightarrow> willing w \<Longrightarrow> add s v w = (s', w') \<Longrightarrow>
       elems s' = elems s @ [keep s v] \<and> willing w'"
begin

text \<open>
  Against any allocator a run keeps the values it admits in order, drops the others, and counts
  every one it drops.
\<close>

lemma feed_counts:
  "inv s \<Longrightarrow> length vs \<le> room s \<Longrightarrow> feed add vs s w = (s', w') \<Longrightarrow>
   inv s' \<and> (\<exists>ks. subseq ks (map (keep s) vs) \<and> elems s' = elems s @ ks \<and>
     refusals s' = refusals s + of_nat (length vs - length ks))"
proof (induction vs arbitrary: s w)
  case Nil
  then show ?case by simp
next
  case (Cons v vs)
  obtain s1 w1 where a: "add s v w = (s1, w1)" by fastforce
  have f: "feed add vs s1 w1 = (s', w')" using Cons.prems(3) a by simp
  have "0 < room s" using Cons.prems(2) by simp
  note step = add_cases [OF Cons.prems(1) this a]
  have "length vs \<le> room s1" using step Cons.prems(2) by auto
  from Cons.IH [OF _ this f] step obtain ks where ks: "inv s'" "subseq ks (map (keep s) vs)"
    "elems s' = elems s1 @ ks" "refusals s' = refusals s1 + of_nat (length vs - length ks)"
    by auto
  have len: "length ks \<le> length vs" using ks(2) list_emb_length by fastforce
  from step consider (added) "elems s1 = elems s @ [keep s v]" "refusals s1 = refusals s"
    | (refused) "elems s1 = elems s" "refusals s1 = refusals s + 1" by auto
  then show ?case
  proof cases
    case added
    then show ?thesis using ks by (intro conjI exI [of _ "keep s v # ks"]) auto
  next
    case refused
    then show ?thesis using ks len
      by (intro conjI exI [of _ ks]) (auto simp: Suc_diff_le ac_simps)
  qed
qed

lemma feed_willing:
  "inv s \<Longrightarrow> length vs \<le> room s \<Longrightarrow> willing w \<Longrightarrow> feed add vs s w = (s', w') \<Longrightarrow>
   inv s' \<and> keep s' = keep s \<and> elems s' = elems s @ map (keep s) vs"
proof (induction vs arbitrary: s w)
  case Nil
  then show ?case by simp
next
  case (Cons v vs)
  obtain s1 w1 where a: "add s v w = (s1, w1)" by fastforce
  have f: "feed add vs s1 w1 = (s', w')" using Cons.prems(4) a by simp
  have "0 < room s" using Cons.prems(2) by simp
  note step = add_cases [OF Cons.prems(1) this a] add_willing [OF Cons.prems(1) this Cons.prems(3) a]
  then have "inv s1" "length vs \<le> room s1" "willing w1" using Cons.prems(2) by auto
  from Cons.IH [OF this f] step show ?case by simp
qed

end

text \<open>Last in, first out.\<close>

locale lifo = bounded_buffer +
  fixes pop :: "'a \<Rightarrow> u64 \<times> 'a"
  assumes pop_last:
      "inv s \<Longrightarrow> elems s = xs @ [x] \<Longrightarrow> \<exists>s'. pop s = (x, s') \<and> inv s' \<and> elems s' = xs"
    and pop_empty: "inv s \<Longrightarrow> elems s = [] \<Longrightarrow> pop s = (0, s)"
begin

lemma drain_reverses:
  "inv s \<Longrightarrow> elems s = xs @ ys \<Longrightarrow>
   \<exists>s'. drain pop (length ys) s = (rev ys, s') \<and> inv s' \<and> elems s' = xs"
proof (induction ys arbitrary: s rule: rev_induct)
  case Nil
  then show ?case by simp
next
  case (snoc y ys)
  then have "elems s = (xs @ ys) @ [y]" by simp
  from pop_last [OF snoc.prems(1) this] obtain s1
    where "pop s = (y, s1)" "inv s1" "elems s1 = xs @ ys" by auto
  then show ?case using snoc.IH [of s1] by auto
qed

lemma feed_then_drain:
  assumes "inv s" "length vs \<le> room s" "willing w" "feed add vs s w = (s1, w1)"
  shows "\<exists>s2. drain pop (length vs) s1 = (rev (map (keep s) vs), s2) \<and> elems s2 = elems s"
  using feed_willing [OF assms] drain_reverses [of s1 "elems s" "map (keep s) vs"] by auto

end

text \<open>First in, first out.\<close>

locale fifo = bounded_buffer +
  fixes pop :: "'a \<Rightarrow> u64 \<times> 'a"
  assumes pop_first:
      "inv s \<Longrightarrow> elems s = x # xs \<Longrightarrow> \<exists>s'. pop s = (x, s') \<and> inv s' \<and> elems s' = xs"
    and pop_none: "inv s \<Longrightarrow> elems s = [] \<Longrightarrow> pop s = (0, s)"
begin

lemma drain_in_order:
  "inv s \<Longrightarrow> elems s = xs @ ys \<Longrightarrow>
   \<exists>s'. drain pop (length xs) s = (xs, s') \<and> inv s' \<and> elems s' = ys"
proof (induction xs arbitrary: s)
  case Nil
  then show ?case by simp
next
  case (Cons x xs)
  then have "elems s = x # (xs @ ys)" by simp
  from pop_first [OF Cons.prems(1) this] obtain s1
    where "pop s = (x, s1)" "inv s1" "elems s1 = xs @ ys" by auto
  then show ?case using Cons.IH [of s1] by auto
qed

lemma feed_then_drain:
  assumes "inv s" "length vs \<le> room s" "willing w" "feed add vs s w = (s1, w1)"
  shows "\<exists>s2. drain pop (length (elems s) + length vs) s1 =
    (elems s @ map (keep s) vs, s2) \<and> elems s2 = []"
  using feed_willing [OF assms] drain_in_order [of s1 "elems s @ map (keep s) vs" "[]"] by auto

end

text \<open>Indexed access: a value stored at a live index is read back there and nowhere else.\<close>

locale indexed =
  fixes inv :: "'s \<Rightarrow> bool"
    and elems :: "'s \<Rightarrow> u64 list"
    and keep :: "'s \<Rightarrow> u64 \<Rightarrow> u64"
    and get :: "'s \<Rightarrow> nat \<Rightarrow> u64"
    and set_at :: "'s \<Rightarrow> nat \<Rightarrow> u64 \<Rightarrow> 's"
  assumes get_elems: "inv s \<Longrightarrow> get s i = (if i < length (elems s) then elems s ! i else 0)"
    and set_elems: "inv s \<Longrightarrow>
      inv (set_at s i v) \<and> keep (set_at s i v) = keep s \<and>
      elems (set_at s i v) = (elems s)[i := keep s v]"
begin

lemma get_set:
  "inv s \<Longrightarrow> get (set_at s i v) j =
   (if j = i \<and> i < length (elems s) then keep s v else get s j)"
  by (simp add: get_elems set_elems nth_list_update)

lemma set_set: "inv s \<Longrightarrow> elems (set_at (set_at s i u) i v) = elems (set_at s i v)"
  by (simp add: set_elems)

lemma set_twice_apart:
  "inv s \<Longrightarrow> i \<noteq> j \<Longrightarrow>
   elems (set_at (set_at s i u) j v) = elems (set_at (set_at s j v) i u)"
  by (simp add: set_elems list_update_swap)

end

end
