(* ===== verification/List_Container.thy ===== *)
theory List_Container
  imports Collection Sequences
begin

text \<open>
  \<open>src/struct/list.c\<close>: the growing list.  Growth doubles in a loop until the count fits; the
  loop is a partial function, so that returning is a fact (\<open>doubleTo_returns\<close>) and not an
  assumption.  Pointer equality in \<open>List_compare\<close> is subsumed by equality of contents.
\<close>

section \<open>Operations\<close>

definition List_DEFAULT_CAPACITY :: nat where
  "List_DEFAULT_CAPACITY = 1024"

text \<open>\<open>while (newCap < needed) newCap *= 2;\<close> on 64-bit sizes.\<close>

partial_function (option) doubleTo :: "nat \<Rightarrow> nat \<Rightarrow> nat option" where
  "doubleTo newCap needed =
     (if newCap < needed then doubleTo (wrap64 (newCap * 2)) needed else Some newCap)"

declare doubleTo.simps [code]

text \<open>The answer: whether the buffer grew, \<open>None\<close> if the loop never ends.\<close>

definition List_bufferGrow ::
    "Collection \<Rightarrow> nat \<Rightarrow> World \<Rightarrow> (bool \<times> Collection \<times> World) option" where
  "List_bufferGrow c needed w =
     (case doubleTo (if capacity c \<noteq> 0 then capacity c else List_DEFAULT_CAPACITY) needed of
        None \<Rightarrow> None
      | Some newCap \<Rightarrow>
          (case Memory_bytes (wrap64 (newCap * stride c)) w of
             (None, w1) \<Rightarrow> Some (False, the (snd (Collection_reportExhaustion (Some c))), w1)
           | (Some buf, w1) \<Rightarrow> Some (True, adoptBuffer c buf newCap, w1)))"

definition List_instant :: "u32 \<Rightarrow> nat \<Rightarrow> nat \<Rightarrow> World \<Rightarrow> Collection option \<times> World" where
  "List_instant cls cap count w =
     newCollection TYPE_LIST cls
       (if cap < List_DEFAULT_CAPACITY then List_DEFAULT_CAPACITY else cap) count w"

definition List_2 :: "u32 \<Rightarrow> nat \<Rightarrow> World \<Rightarrow> Collection option \<times> World" where
  "List_2 cls cap w = List_instant cls cap 0 w"

definition List_2Count :: "u32 \<Rightarrow> nat \<Rightarrow> World \<Rightarrow> Collection option \<times> World" where
  "List_2Count cls count w = List_instant cls count count w"

definition List_1 :: "u32 \<Rightarrow> World \<Rightarrow> Collection option \<times> World" where
  "List_1 cls w = List_2 cls 16 w"

text \<open>Room for one more: whether there is a free slot afterwards.\<close>

definition List_ensureOne :: "Collection \<Rightarrow> World \<Rightarrow> (bool \<times> Collection \<times> World) option" where
  "List_ensureOne c w =
     (if capacity c \<le> activeCount c then List_bufferGrow c (wrap32 (activeCount c + 1)) w
      else Some (True, c, w))"

definition List_add ::
    "Collection option \<Rightarrow> u64 \<Rightarrow> World \<Rightarrow> (Collection option \<times> World) option" where
  "List_add list v w = (case list of
     None \<Rightarrow> Some (None, w)
   | Some c \<Rightarrow>
       (case List_ensureOne c w of
          None \<Rightarrow> None
        | Some (False, c1, w1) \<Rightarrow> Some (Some c1, w1)
        | Some (True, c1, w1) \<Rightarrow> Some (appendSlot c1 v, w1)))"

text \<open>The slot handed out is zeroed; its address is the byte offset in the buffer.\<close>

definition List_addSlot ::
    "Collection option \<Rightarrow> World \<Rightarrow> (nat option \<times> Collection option \<times> World) option" where
  "List_addSlot list w = (case list of
     None \<Rightarrow> Some (None, None, w)
   | Some c \<Rightarrow>
       (case List_ensureOne c w of
          None \<Rightarrow> None
        | Some (False, c1, w1) \<Rightarrow> Some (None, Some c1, w1)
        | Some (True, c1, w1) \<Rightarrow>
            (let slot = wrap32 (activeCount c1 * stride c1);
                 c2 = c1\<lparr>data := memset (data c1) slot 0 (stride c1)\<rparr>
             in Some (Some slot, Some (c2\<lparr>activeCount := wrap32 (activeCount c2 + 1)\<rparr>), w1))))"

definition List_get :: "Collection option \<Rightarrow> nat \<Rightarrow> u64" where
  "List_get list index = (case list of
     None \<Rightarrow> 0
   | Some c \<Rightarrow> if activeCount c \<le> index then 0 else Collection_readSlot (Some c) index)"

definition List_set :: "Collection option \<Rightarrow> nat \<Rightarrow> u64 \<Rightarrow> Collection option" where
  "List_set list index v = (case list of
     None \<Rightarrow> None
   | Some c \<Rightarrow> if activeCount c \<le> index then Some c else Collection_writeSlot (Some c) index v)"

definition List_slot :: "Collection option \<Rightarrow> nat \<Rightarrow> nat option" where
  "List_slot list index = (case list of
     None \<Rightarrow> None
   | Some c \<Rightarrow> if activeCount c \<le> index then None else Some (index * stride c))"

definition List_remove :: "Collection option \<Rightarrow> nat \<Rightarrow> Collection option" where
  "List_remove list index = (case list of
     None \<Rightarrow> None
   | Some c \<Rightarrow>
       if activeCount c \<le> index then Some c
       else
         (let tail = activeCount c - index - 1;
              c1 = (if 0 < tail
                    then c\<lparr>data := memcpy (data c) (index * stride c) (data c)
                           ((index + 1) * stride c) (tail * stride c)\<rparr>
                    else c)
          in Some (c1\<lparr>activeCount := activeCount c1 - 1\<rparr>)))"

definition List_compare :: "Collection option \<Rightarrow> Collection option \<Rightarrow> bool" where
  "List_compare a b = (case (a, b) of
     (None, None) \<Rightarrow> True
   | (Some ca, Some cb) \<Rightarrow>
       if activeCount ca \<noteq> activeCount cb then False
       else if stride ca \<noteq> stride cb then False
       else
         (let n = wrap32 (activeCount ca * stride ca)
          in mem_read (data ca) 0 n = mem_read (data cb) 0 n)
   | _ \<Rightarrow> False)"

definition List_isEmpty :: "Collection option \<Rightarrow> bool" where
  "List_isEmpty list = Collection_isEmpty list"

definition List_size :: "Collection option \<Rightarrow> nat" where
  "List_size list = Collection_size list"

definition List_exhaustionCount :: "Collection option \<Rightarrow> u64" where
  "List_exhaustionCount list = Collection_exhaustionCount list"

definition List_length :: "Collection option \<Rightarrow> nat" where
  "List_length list = Collection_length list"

definition List_capacity :: "Collection option \<Rightarrow> nat" where
  "List_capacity list = Collection_capacity list"

definition List_elementClassId :: "Collection option \<Rightarrow> u32" where
  "List_elementClassId list = Collection_elementClassId list"

definition List_stride :: "Collection option \<Rightarrow> nat" where
  "List_stride list = Collection_stride list"

definition List_dataBuffer :: "Collection option \<Rightarrow> u8 list option" where
  "List_dataBuffer list = Collection_dataBuffer list"

section \<open>The doubling loop returns\<close>

lemma doubleTo_returns:
  "0 < n \<Longrightarrow> needed \<le> 4294967296 \<Longrightarrow> n < 4294967296 \<Longrightarrow>
   \<exists>m. doubleTo n needed = Some m \<and> needed \<le> m \<and> n \<le> m \<and> m \<le> max n (2 * (needed - 1))"
proof (induction "needed - n" arbitrary: n rule: less_induct)
  case less
  show ?case
  proof (cases "n < needed")
    case False
    then show ?thesis by (subst doubleTo.simps) simp
  next
    case True
    then have w: "wrap64 (n * 2) = n * 2" using less.prems by (intro wrap64_id) linarith
    show ?thesis
    proof (cases "n * 2 < needed")
      case True
      have "needed - n * 2 < needed - n" using True less.prems(1) by linarith
      from less.hyps [OF this] less.prems True obtain m where
        "doubleTo (n * 2) needed = Some m" "needed \<le> m" "n * 2 \<le> m"
        "m \<le> max (n * 2) (2 * (needed - 1))"
        by auto
      then show ?thesis
        using True \<open>n < needed\<close> w by (subst doubleTo.simps) (auto simp: max_def split: if_splits)
    next
      case False
      then have "doubleTo (n * 2) needed = Some (n * 2)" by (subst doubleTo.simps) simp
      then show ?thesis
        using \<open>n < needed\<close> w False by (subst doubleTo.simps) (auto simp: max_def)
    qed
  qed
qed

section \<open>The list as a list\<close>

lemma List_ensureOne_cases:
  assumes "collWf c" "0 < elementRoom c"
  obtains c1 w1 where "List_ensureOne c w = Some (True, c1, w1)" "collWf c1"
      "liveSlots c1 = liveSlots c" "stride c1 = stride c" "activeCount c1 = activeCount c"
      "activeCount c1 < capacity c1" "exhaustionCount c1 = exhaustionCount c"
      "willing w \<longrightarrow> willing w1"
  | w1 where "List_ensureOne c w = Some (False,
        c\<lparr>exhaustionCount := exhaustionCount c + 1, exhaustionReported := True\<rparr>, w1)" "\<not> willing w"
proof (cases "capacity c \<le> activeCount c")
  case False
  then show thesis using assms(1) by (intro that(1)) (auto simp: List_ensureOne_def)
next
  case True
  then have full: "activeCount c = capacity c" using assms(1) by (simp add: collWf_def)
  have small: "activeCount c < 1073741824"
    using assms(2) limit_less by (simp add: elementRoom_def)
  let ?n = "if capacity c \<noteq> 0 then capacity c else List_DEFAULT_CAPACITY"
  have n: "0 < ?n" "?n < 4294967296" "?n \<le> 1073741824"
    using small full by (auto simp: List_DEFAULT_CAPACITY_def)
  have needed: "wrap32 (activeCount c + 1) = Suc (activeCount c)" using small by simp
  obtain m where m: "doubleTo ?n (Suc (activeCount c)) = Some m" "Suc (activeCount c) \<le> m"
    "m \<le> max ?n (2 * activeCount c)"
    using doubleTo_returns [OF n(1) _ n(2), of "Suc (activeCount c)"] small by auto
  have m': "activeCount c \<le> m" "m < 4294967296" using m(2,3) n(3) small by auto
  obtain b w1 where b: "Memory_bytes (wrap64 (m * stride c)) w = (b, w1)" by fastforce
  have eq: "List_ensureOne c w = (case b of
      None \<Rightarrow> Some (False, c\<lparr>exhaustionCount := exhaustionCount c + 1, exhaustionReported := True\<rparr>, w1)
    | Some buf \<Rightarrow> Some (True, adoptBuffer c buf m, w1))"
    using True m(1) b unfolding List_ensureOne_def List_bufferGrow_def needed
    by (simp split: option.splits)
  from grow_outcome [OF assms(1) m' b] show thesis
  proof (elim disjE exE conjE)
    fix buf assume "b = Some buf" "collWf (adoptBuffer c buf m)"
      "liveSlots (adoptBuffer c buf m) = liveSlots c" "willing w \<longrightarrow> willing w1"
    then show thesis
      by (intro that(1) [of "adoptBuffer c buf m" w1]) (use eq m(2) m' in auto)
  next
    assume "b = None" "\<not> willing w"
    then show thesis by (intro that(2) [of w1]) (use eq in auto)
  qed
qed

lemma List_add_cases:
  assumes "linearInv h" "0 < handleRoom h"
  shows "\<exists>h' w'. List_add h v w = Some (h', w') \<and> linearInv h' \<and> handleKeep h' = handleKeep h \<and>
    (linearElems h' = linearElems h @ [handleKeep h v] \<and> handleRoom h' = handleRoom h - 1 \<and>
       List_exhaustionCount h' = List_exhaustionCount h \<and> (willing w \<longrightarrow> willing w') \<or>
     linearElems h' = linearElems h \<and> handleRoom h' = handleRoom h \<and>
       List_exhaustionCount h' = List_exhaustionCount h + 1 \<and> \<not> willing w)"
proof -
  obtain c where c: "h = Some c" "collWf c" using assms(1) by (auto simp: linearInv_iff)
  have room: "0 < elementRoom c" using assms(2) c by (simp add: handleRoom_def)
  show ?thesis
  proof (rule List_ensureOne_cases [OF c(2) room, of w])
    fix c1 w1 assume c1: "List_ensureOne c w = Some (True, c1, w1)" "collWf c1"
      "liveSlots c1 = liveSlots c" "stride c1 = stride c" "activeCount c1 = activeCount c"
      "activeCount c1 < capacity c1" "exhaustionCount c1 = exhaustionCount c"
      "willing w \<longrightarrow> willing w1"
    have "Suc (activeCount c1) * stride c1 < 4294967296"
      using limit_bytes(1) [of "activeCount c1" "stride c1"] room c1(4,5)
      by (simp add: elementRoom_def)
    from appendSlot_wf [OF c1(2,6) this, of v] obtain c2 where "appendSlot c1 v = Some c2"
      "collWf c2" "liveSlots c2 = liveSlots c1 @ [slotValue (stride c1) v]" "stride c2 = stride c1"
      "activeCount c2 = Suc (activeCount c1)" "exhaustionCount c2 = exhaustionCount c1"
      by metis
    then show ?thesis using c c1
      by (auto simp: List_add_def List_exhaustionCount_def handle_views fun_eq_iff)
  next
    fix w1 assume "List_ensureOne c w = Some (False,
        c\<lparr>exhaustionCount := exhaustionCount c + 1, exhaustionReported := True\<rparr>, w1)" "\<not> willing w"
    then show ?thesis using c
      by (auto simp: List_add_def List_exhaustionCount_def handle_views fun_eq_iff)
  qed
qed

lemma List_get_elems:
  "linearInv h \<Longrightarrow> List_get h i = (if i < length (linearElems h) then linearElems h ! i else 0)"
proof -
  assume "linearInv h"
  then obtain c where c: "h = Some c" "collWf c" by (auto simp: linearInv_iff)
  have "i < capacity c" if "i < activeCount c" using that c(2) by (simp add: collWf_def)
  then show ?thesis using c by (simp add: List_get_def linearElems_def)
qed

lemma List_set_elems:
  "linearInv h \<Longrightarrow>
   linearInv (List_set h i v) \<and> handleKeep (List_set h i v) = handleKeep h \<and>
   linearElems (List_set h i v) = (linearElems h)[i := handleKeep h v]"
proof -
  assume "linearInv h"
  then obtain c where c: "h = Some c" "collWf c" by (auto simp: linearInv_iff)
  show ?thesis
  proof (cases "i < activeCount c")
    case False
    then show ?thesis using c by (simp add: List_set_def linearInv_def linearElems_def not_less list_update_beyond)
  next
    case True
    then have i: "i < capacity c" "activeCount c \<le> capacity c" using c(2) by (auto simp: collWf_def)
    let ?d = "c\<lparr>data := writeSlotAt (data c) (i * stride c) (stride c) v\<rparr>"
    have "List_set h i v = Some ?d" using c True i by (simp add: List_set_def)
    moreover have "collWf ?d" using c(2) length_write_wf [OF c(2) i(1)] by (simp add: collWf_def)
    moreover have "slots ?d 0 (activeCount c) = (liveSlots c)[i := slotValue (stride c) v]"
      using slots_write [OF c(2) i(1), of 0 "activeCount c"] True i(2) by simp
    ultimately show ?thesis
      using c by (simp add: linearInv_def linearElems_def handleKeep_def fun_eq_iff)
  qed
qed

interpretation list: indexed linearInv linearElems handleKeep List_get List_set
  by unfold_locales (use List_get_elems List_set_elems in blast)+

text \<open>
  The entry point as a total function: inside the room the loop returns, so the default is
  never used.
\<close>

definition List_added :: "Collection option \<Rightarrow> u64 \<Rightarrow> World \<Rightarrow> Collection option \<times> World" where
  "List_added h v w = (case List_add h v w of None \<Rightarrow> (h, w) | Some r \<Rightarrow> r)"

interpretation list_growth: bounded_buffer linearInv linearElems handleRoom handleKeep
    List_exhaustionCount List_added
proof unfold_locales
  fix h v w h' w' assume a: "linearInv h" "0 < handleRoom h" "List_added h v w = (h', w')"
  show "linearInv h' \<and> handleKeep h' = handleKeep h \<and>
    (linearElems h' = linearElems h @ [handleKeep h v] \<and> handleRoom h' = handleRoom h - 1 \<and>
       List_exhaustionCount h' = List_exhaustionCount h \<or>
     linearElems h' = linearElems h \<and> handleRoom h' = handleRoom h \<and>
       List_exhaustionCount h' = List_exhaustionCount h + 1)"
    using List_add_cases [OF a(1,2), of v w] a(3) by (auto simp: List_added_def)
  assume "willing w"
  then show "linearElems h' = linearElems h @ [handleKeep h v] \<and> willing w'"
    using List_add_cases [OF a(1,2), of v w] a(3) by (auto simp: List_added_def)
qed

section \<open>Removal and comparison\<close>

lemma List_remove_elems:
  assumes "linearInv h"
  shows "linearInv (List_remove h i) \<and>
    linearElems (List_remove h i) =
      (if i < length (linearElems h) then take i (linearElems h) @ drop (Suc i) (linearElems h)
       else linearElems h)"
proof -
  obtain c where c: "h = Some c" "collWf c" using assms by (auto simp: linearInv_iff)
  show ?thesis
  proof (cases "i < activeCount c")
    case False
    then show ?thesis using c by (simp add: List_remove_def linearInv_def linearElems_def)
  next
    case True
    let ?st = "stride c" and ?t = "activeCount c - i - 1"
    let ?d = "memcpy (data c) (i * ?st) (data c) (Suc i * ?st) (?t * ?st)"
    let ?c = "c\<lparr>data := ?d\<rparr>"
    have wf: "strideOk ?st" "capacity c * ?st \<le> length (data c)" "activeCount c \<le> capacity c"
      using c(2) by (auto simp: collWf_def)
    have "(Suc i + ?t) * ?st \<le> capacity c * ?st" using True wf(3) by (intro mult_le_mono1) simp
    then have fits: "Suc i * ?st + ?t * ?st \<le> length (data c)" "i * ?st + ?t * ?st \<le> length (data c)"
      using wf(2) by (simp_all add: algebra_simps)
    have zero: "memcpy d a d e 0 = d" for d a e
      by (simp add: memcpy_def mem_write_def mem_read_def)
    have eq: "List_remove h i = Some (?c\<lparr>activeCount := activeCount c - 1\<rparr>)"
    proof (cases "0 < ?t")
      case True
      then show ?thesis using c \<open>i < activeCount c\<close> by (simp add: List_remove_def Let_def)
    next
      case False
      then have "?t = 0" by simp
      then show ?thesis using c \<open>i < activeCount c\<close> by (simp add: List_remove_def Let_def zero)
    qed
    have "collWf ?c" using c(2) fits by (simp add: collWf_def)
    then have inv: "linearInv (List_remove h i)"
      unfolding eq linearInv_def using collWf_shrink [of ?c "activeCount c - 1"] by simp
    have "slots ?c 0 (activeCount c - 1) = take i (liveSlots c) @ drop (Suc i) (liveSlots c)"
    proof (rule nth_equalityI)
      fix k assume "k < length (slots ?c 0 (activeCount c - 1))"
      then have k: "k < activeCount c - 1" by simp
      show "slots ?c 0 (activeCount c - 1) ! k =
          (take i (liveSlots c) @ drop (Suc i) (liveSlots c)) ! k"
      proof (cases "k < i")
        case True
        have "readSlotAt ?d (k * ?st) ?st = readSlotAt (data c) (k * ?st) ?st"
          by (rule read_memcpy_slots_other [where m = "capacity c"])
            (use True \<open>i < activeCount c\<close> fits wf in auto)
        then show ?thesis using k True less_trans [OF True \<open>i < activeCount c\<close>] by (simp add: nth_append)
      next
        case False
        have "readSlotAt ?d ((i + (k - i)) * ?st) ?st =
            readSlotAt (data c) ((Suc i + (k - i)) * ?st) ?st"
          by (rule read_memcpy_slots) (use False k fits wf(1) in auto)
        then show ?thesis using k False by (simp add: nth_append)
      qed
    qed (use True in \<open>simp add: min_def\<close>)
    then show ?thesis using inv eq c True by (simp add: linearElems_def)
  qed
qed

lemma take_slots_eq:
  "(\<forall>k < n. mem_read d (k * st) st = mem_read e (k * st) st) \<longleftrightarrow>
   mem_read d 0 (n * st) = mem_read e 0 (n * st)"
  if "n * st \<le> length d" "n * st \<le> length e" "0 < st"
proof
  assume eq: "\<forall>k < n. mem_read d (k * st) st = mem_read e (k * st) st"
  show "mem_read d 0 (n * st) = mem_read e 0 (n * st)"
  proof (rule nth_equalityI)
    fix i assume "i < length (mem_read d 0 (n * st))"
    then have i: "i < n * st" using that by (simp add: mem_read_def)
    let ?k = "i div st" and ?j = "i mod st"
    have k: "?k < n" using i that(3) by (simp add: div_less_iff_less_mult)
    have j: "?j < st" using that(3) by simp
    have fit: "?k * st + st \<le> n * st" using k mult_le_mono1 [of "Suc ?k" n st] by simp
    have "d ! (?k * st + ?j) = e ! (?k * st + ?j)"
      using eq k mem_read_nth [OF j, of "?k * st" d] mem_read_nth [OF j, of "?k * st" e] fit that
      by auto
    then show "mem_read d 0 (n * st) ! i = mem_read e 0 (n * st) ! i"
      using i that by (simp add: mem_read_nth)
  qed (use that in simp)
next
  assume eq: "mem_read d 0 (n * st) = mem_read e 0 (n * st)"
  show "\<forall>k < n. mem_read d (k * st) st = mem_read e (k * st) st"
  proof (intro allI impI)
    fix k assume "k < n"
    then have "k * st + st \<le> n * st" using mult_le_mono1 [of "Suc k" n st] by simp
    then show "mem_read d (k * st) st = mem_read e (k * st) st"
      using mem_read_read [of "k * st" st "n * st" d 0] mem_read_read [of "k * st" st "n * st" e 0] eq
      by simp
  qed
qed

lemma List_compare_iff:
  assumes "collWf a" "collWf b" "stride a = stride b" "slotWidth (stride a) = stride a"
  shows "List_compare (Some a) (Some b) \<longleftrightarrow> liveSlots a = liveSlots b"
proof (cases "activeCount a = activeCount b")
  case False
  then have "length (liveSlots a) \<noteq> length (liveSlots b)" by simp
  then have "liveSlots a \<noteq> liveSlots b" by metis
  then show ?thesis using False by (simp add: List_compare_def)
next
  case True
  let ?st = "stride a" and ?n = "activeCount a"
  have live: "?n * ?st < 4294967296" "?n * ?st \<le> length (data a)" "?n * ?st \<le> length (data b)"
  proof -
    have "?n \<le> capacity a" "?n \<le> capacity b" using assms(1,2) True by (auto simp: collWf_def)
    then have "?n * ?st \<le> capacity a * ?st" "?n * ?st \<le> capacity b * ?st"
      by (auto intro: mult_le_mono1)
    moreover have "capacity a * ?st \<le> length (data a)" "capacity b * ?st \<le> length (data b)"
      using assms(1-3) by (simp_all add: collWf_def)
    ultimately show "?n * ?st \<le> length (data a)" "?n * ?st \<le> length (data b)"
      by (blast intro: le_trans)+
    show "?n * ?st < 4294967296" using assms(1) by (simp add: collWf_def)
  qed
  have pos: "0 < ?st" using assms(1) by (rule collWf_stride_pos)
  have slot: "readSlotAt (data a) (k * ?st) ?st = readSlotAt (data b) (k * ?st) ?st \<longleftrightarrow>
      mem_read (data a) (k * ?st) ?st = mem_read (data b) (k * ?st) ?st" if "k < ?n" for k
  proof -
    have "k * ?st + ?st \<le> ?n * ?st" using that mult_le_mono1 [of "Suc k" ?n ?st] by simp
    then show ?thesis
      using live slotWidth_le [of ?st] assms(4)
      by (simp add: readSlotAt_def) (subst le_read_inject, auto)
  qed
  have "List_compare (Some a) (Some b) \<longleftrightarrow>
      mem_read (data a) 0 (?n * ?st) = mem_read (data b) 0 (?n * ?st)"
    using True assms(3) live(1) by (simp add: List_compare_def Let_def)
  also have "\<dots> \<longleftrightarrow> (\<forall>k < ?n. readSlotAt (data a) (k * ?st) ?st = readSlotAt (data b) (k * ?st) ?st)"
    using take_slots_eq [OF live(2,3) pos] slot by auto
  also have "\<dots> \<longleftrightarrow> liveSlots a = liveSlots b"
    using True assms(3) by (auto simp: list_eq_iff_nth_eq)
  finally show ?thesis .
qed

end
