(* ===== verification/Try.thy ===== *)
theory Try
  imports Prelude
begin

text \<open>
  The value-or-error returns of \<open>src/exception\<close>: the code taxonomy with its two tables of
  literals, and the scalar result.  A pointer to a result that may be null is an option.
\<close>

datatype TryCode = TRY_OK | TRY_NULL_ARG | TRY_BOUNDS | TRY_OVERFLOW | TRY_EMPTY
  | TRY_NOT_FOUND | TRY_IO | TRY_FORMAT | TRY_UNSUPPORTED | TRY_NO_MEMORY

definition TryCode_isOk :: "TryCode \<Rightarrow> bool" where
  "TryCode_isOk code \<longleftrightarrow> code = TRY_OK"

fun TryCode_name :: "TryCode \<Rightarrow> string" where
  "TryCode_name TRY_OK = ''TRY_OK''"
| "TryCode_name TRY_NULL_ARG = ''TRY_NULL_ARG''"
| "TryCode_name TRY_BOUNDS = ''TRY_BOUNDS''"
| "TryCode_name TRY_OVERFLOW = ''TRY_OVERFLOW''"
| "TryCode_name TRY_EMPTY = ''TRY_EMPTY''"
| "TryCode_name TRY_NOT_FOUND = ''TRY_NOT_FOUND''"
| "TryCode_name TRY_IO = ''TRY_IO''"
| "TryCode_name TRY_FORMAT = ''TRY_FORMAT''"
| "TryCode_name TRY_UNSUPPORTED = ''TRY_UNSUPPORTED''"
| "TryCode_name TRY_NO_MEMORY = ''TRY_NO_MEMORY''"

fun TryCode_message :: "TryCode \<Rightarrow> string" where
  "TryCode_message TRY_OK = ''ok''"
| "TryCode_message TRY_NULL_ARG = ''required pointer argument was nullptr''"
| "TryCode_message TRY_BOUNDS = ''index outside the active range''"
| "TryCode_message TRY_OVERFLOW = ''size arithmetic would wrap''"
| "TryCode_message TRY_EMPTY = ''source held no element''"
| "TryCode_message TRY_NOT_FOUND = ''named thing is absent''"
| "TryCode_message TRY_IO = ''file or stream operation failed''"
| "TryCode_message TRY_FORMAT = ''Bytes present but malformed''"
| "TryCode_message TRY_UNSUPPORTED = ''operation not supported here''"
| "TryCode_message TRY_NO_MEMORY = ''owner backing storage could not satisfy the request''"

record TryValue =
  tryValue :: u64
  tryCode :: TryCode

definition TryValue_2 :: "u64 \<Rightarrow> TryCode \<Rightarrow> TryValue" where
  "TryValue_2 v code = \<lparr>tryValue = v, tryCode = code\<rparr>"

definition TryValue_ok :: "u64 \<Rightarrow> TryValue" where
  "TryValue_ok v = TryValue_2 v TRY_OK"

definition TryValue_error :: "TryCode \<Rightarrow> TryValue" where
  "TryValue_error code = TryValue_2 0 code"

definition TryValue_getValue :: "TryValue option \<Rightarrow> u64" where
  "TryValue_getValue self = (case self of None \<Rightarrow> 0 | Some t \<Rightarrow> tryValue t)"

definition TryValue_setValue :: "TryValue option \<Rightarrow> u64 \<Rightarrow> TryValue option" where
  "TryValue_setValue self v = map_option (\<lambda>t. t\<lparr>tryValue := v\<rparr>) self"

definition TryValue_getCode :: "TryValue option \<Rightarrow> TryCode" where
  "TryValue_getCode self = (case self of None \<Rightarrow> TRY_NULL_ARG | Some t \<Rightarrow> tryCode t)"

definition TryValue_setCode :: "TryValue option \<Rightarrow> TryCode \<Rightarrow> TryValue option" where
  "TryValue_setCode self code = map_option (\<lambda>t. t\<lparr>tryCode := code\<rparr>) self"

definition TryValue_isOk :: "TryValue option \<Rightarrow> bool" where
  "TryValue_isOk self = (case self of None \<Rightarrow> False | Some t \<Rightarrow> tryCode t = TRY_OK)"

lemmas try_results = TryValue_2_def TryValue_ok_def TryValue_error_def TryValue_getValue_def
  TryValue_getCode_def TryValue_isOk_def

lemma TryCode_name_inj: "TryCode_name a = TryCode_name b \<longleftrightarrow> a = b"
  by (cases a; cases b) simp_all

end
