(* ===== verification/Array_Container.thy ===== *)
theory Array_Container
  imports List_Container Try
begin

text \<open>
  \<open>src/struct/array.c\<close>: the fixed-length array over the shared header, with its value-or-error
  getter.  Its laws are the indexed-access laws of the list, whose guards it shares.
\<close>

definition Array_2 :: "u32 \<Rightarrow> nat \<Rightarrow> World \<Rightarrow> Collection option \<times> World" where
  "Array_2 cls len w = newCollection TYPE_ARRAY cls len len w"

definition Array_get :: "Collection option \<Rightarrow> nat \<Rightarrow> u64" where
  "Array_get array index = (case array of
     None \<Rightarrow> 0
   | Some c \<Rightarrow> if activeCount c \<le> index then 0 else Collection_readSlot (Some c) index)"

definition Array_getTry :: "Collection option \<Rightarrow> nat \<Rightarrow> TryValue" where
  "Array_getTry array index = (case array of
     None \<Rightarrow> TryValue_error TRY_NULL_ARG
   | Some c \<Rightarrow>
       if activeCount c \<le> index then TryValue_error TRY_BOUNDS
       else TryValue_ok (Collection_readSlot (Some c) index))"

definition Array_set :: "Collection option \<Rightarrow> nat \<Rightarrow> u64 \<Rightarrow> Collection option" where
  "Array_set array index v = (case array of
     None \<Rightarrow> None
   | Some c \<Rightarrow> if activeCount c \<le> index then Some c else Collection_writeSlot (Some c) index v)"

definition Array_slot :: "Collection option \<Rightarrow> nat \<Rightarrow> nat option" where
  "Array_slot array index = (case array of
     None \<Rightarrow> None
   | Some c \<Rightarrow> if activeCount c \<le> index then None else Some (index * stride c))"

definition Array_isEmpty :: "Collection option \<Rightarrow> bool" where
  "Array_isEmpty array = Collection_isEmpty array"

definition Array_size :: "Collection option \<Rightarrow> nat" where
  "Array_size array = Collection_size array"

definition Array_length :: "Collection option \<Rightarrow> nat" where
  "Array_length array = Collection_length array"

definition Array_capacity :: "Collection option \<Rightarrow> nat" where
  "Array_capacity array = Collection_capacity array"

definition Array_elementClassId :: "Collection option \<Rightarrow> u32" where
  "Array_elementClassId array = Collection_elementClassId array"

definition Array_stride :: "Collection option \<Rightarrow> nat" where
  "Array_stride array = Collection_stride array"

definition Array_dataBuffer :: "Collection option \<Rightarrow> u8 list option" where
  "Array_dataBuffer array = Collection_dataBuffer array"

lemma Array_get_eq: "Array_get = List_get"
  by (simp add: fun_eq_iff Array_get_def List_get_def)

lemma Array_set_eq: "Array_set = List_set"
  by (simp add: fun_eq_iff Array_set_def List_set_def)

interpretation array: indexed linearInv linearElems handleKeep Array_get Array_set
  unfolding Array_get_eq Array_set_eq by (rule list.indexed_axioms)

text \<open>
A new array holds \<open>len\<close> zeroes; afterwards a value stored at an index is read back from
that index, cut to the element width, every other index keeps its value, an index at or past
the length reads as zero, is not written and is the error \<open>TRY_BOUNDS\<close> of the checked getter,
and the only other outcome of the construction is the null handle, counted as a refusal.
\<close>

theorem Array_get_set:
  assumes "Array_2 cls len w = (h, w')" "len * Stride_get (MASK_CLASS w) cls < 4294967296"
  shows "h = None \<and> s_constructionReported w' \<or>
    (Array_size h = len \<and> (\<forall>i. Array_get h i = 0) \<and>
     (\<forall>i j v. Array_get (Array_set h i v) j =
        (if j = i \<and> i < len then slotValue (Stride_get (MASK_CLASS w) cls) v else 0)) \<and>
     (\<forall>i j v. Array_getTry (Array_set h i v) j =
        (if j < len then TryValue_ok (Array_get (Array_set h i v) j)
         else TryValue_error TRY_BOUNDS)))"
proof -
  let ?st = "Stride_get (MASK_CLASS w) cls"
  have "len * 1 \<le> len * ?st" using strideOk_pos [OF Stride_get_ok [of "MASK_CLASS w" cls]]
    by (intro mult_le_mono) auto
  then have len: "len < 4294967296" using assms(2) by linarith
  from assms(1)[unfolded Array_2_def] len order_refl assms(2) show ?thesis
  proof (cases rule: newCollection_cases)
    case refused
    then show ?thesis by simp
  next
    case (made c)
    have inv: "linearInv h" and elems: "linearElems h = replicate len 0"
      and keep: "handleKeep h = slotValue ?st"
      using made by (simp_all add: handle_views fun_eq_iff)
    have get: "Array_get h i = 0" for i using array.get_elems [OF inv] elems by simp
    have checked: "Array_getTry (Array_set h i v) j = (if j < len
        then TryValue_ok (Array_get (Array_set h i v) j) else TryValue_error TRY_BOUNDS)" for i j v
    proof -
      have "\<exists>c'. Array_set h i v = Some c'"
        using made(1) by (simp add: Array_set_def Collection_writeSlot_def)
      then obtain c' where c': "Array_set h i v = Some c'" by blast
      then have "activeCount c' = length (linearElems (Array_set h i v))" by (simp add: linearElems_def)
      then have "activeCount c' = len" using array.set_elems [OF inv, of i v] elems by simp
      then show ?thesis using c' by (simp add: Array_getTry_def Array_get_def)
    qed
    show ?thesis
      using made(1,3) array.get_set [OF inv] get keep elems checked
      by (intro disjI2) (simp add: Array_size_def Collection_size_def)
  qed
qed

theorem Array_get_set_witness:
  "\<exists>h w'. Array_2 ID_BYTE 2 \<lparr>answers = [], s_constructionCount = 0,
       s_constructionReported = False, MASK_CLASS = 0xFFFF\<rparr> = (h, w') \<and>
     Array_get (Array_set h 1 0x1FF) 1 = 0xFF"
proof -
  let ?w = "\<lparr>answers = [], s_constructionCount = 0, s_constructionReported = False,
    MASK_CLASS = 0xFFFF\<rparr>"
  obtain h w' where a: "Array_2 ID_BYTE 2 ?w = (h, w')" by fastforce
  have st: "Stride_get (MASK_CLASS ?w) ID_BYTE = 1" by code_simp
  have "s_constructionReported (snd (Array_2 ID_BYTE 2 ?w)) = False" by code_simp
  then have "\<not> s_constructionReported w'" using a by simp
  with Array_get_set [OF a] st have "Array_get (Array_set h 1 0x1FF) 1 = slotValue 1 0x1FF"
    by auto
  also have "\<dots> = 0xFF" by code_simp
  finally show ?thesis using a by blast
qed

end
