(* ===== verification/Map_Container.thy ===== *)
theory Map_Container
  imports Keys Array_Container
begin

text \<open>
  \<open>src/struct/map.c\<close>: the hash map.  Its buffer is read as 32-byte slots of four words.  The map
  a table stands for is a lookup up to \<open>keyMatch\<close>.  An operation that may loop for ever answers
  \<open>None\<close> when it does.
\<close>

record MapSlot =
  mkey :: u64
  mval :: u64
  mhash :: u64
  mstate :: u64

record Map =
  mapBase :: Collection
  mapSlots :: "MapSlot list"

definition emptyMapSlot :: MapSlot where
  "emptyMapSlot = \<lparr>mkey = 0, mval = 0, mhash = 0, mstate = STATE_EMPTY\<rparr>"

definition Map_SLOT_SIZE :: nat where "Map_SLOT_SIZE = 32"
definition Map_DEFAULT_CAPACITY :: u64 where "Map_DEFAULT_CAPACITY = 16"

section \<open>Operations\<close>

definition Map_3 :: "u32 \<Rightarrow> u32 \<Rightarrow> u64 \<Rightarrow> World \<Rightarrow> Map option \<times> World" where
  "Map_3 keyClass valClass cap w =
     (let cap1 = (if cap = 0 then Map_DEFAULT_CAPACITY else highestOneBit cap);
          cap2 = unat (if cap1 < 4 then 4 else cap1);
          (granted, w1) = Memory_object w
      in if \<not> granted then (None, snd (Struct_reportConstructionExhaustion w1))
         else
           (let nbytes = wrap64 (cap2 * Map_SLOT_SIZE);
                (granted2, w2) = Memory_object w1
            in if \<not> granted2 then (None, snd (Struct_reportConstructionExhaustion w2))
               else
                 (Some \<lparr>mapBase = \<lparr>typeId = TYPE_MAP, activeCount = 0, elementClass = keyClass,
                      stride = unat valClass, capacity = wrap32 cap2, head = 0, data = [],
                      exhaustionCount = 0, exhaustionReported = False\<rparr>,
                    mapSlots = replicate (nbytes div Map_SLOT_SIZE) emptyMapSlot\<rparr>, w2)))"

definition Map_2 :: "u32 \<Rightarrow> u32 \<Rightarrow> World \<Rightarrow> Map option \<times> World" where
  "Map_2 keyClass valClass w = Map_3 keyClass valClass 16 w"

definition Map_rehash :: "Map \<Rightarrow> nat \<Rightarrow> World \<Rightarrow> (Map \<times> World) option" where
  "Map_rehash m newCap w =
     (let (granted, w1) = Memory_object w
      in if \<not> granted then
           Some (m\<lparr>mapBase := the (snd (Collection_reportExhaustion (Some (mapBase m))))\<rparr>, w1)
         else
           (case rehashInto mstate mhash (wrap64 (newCap + 18446744073709551615)) (mapSlots m)
                   (replicate newCap emptyMapSlot) of
              None \<Rightarrow> None
            | Some T \<Rightarrow>
                Some (m\<lparr>mapBase := (mapBase m)\<lparr>capacity := wrap32 newCap\<rparr>, mapSlots := T\<rparr>, w1)))"

text \<open>Whether a slot holds the key: the comparison of \<open>put\<close>, \<open>get\<close>, \<open>containsKey\<close>, \<open>remove\<close>.\<close>

definition mapHolds :: "blocks \<Rightarrow> u32 \<Rightarrow> u64 \<Rightarrow> u64 \<Rightarrow> MapSlot \<Rightarrow> bool" where
  "mapHolds b cls hash k s \<longleftrightarrow> mhash s = hash \<and> keysEqual b cls (mkey s) k"

definition mapStore :: "blocks \<Rightarrow> Map \<Rightarrow> u64 \<Rightarrow> u64 \<Rightarrow> Map option" where
  "mapStore b m k v =
     (let c = mapBase m;
          hash = computeHash b (elementClass c) k;
          msk = wrap32 (capacity c + 4294967295);
          idx = unat hash AND msk
      in case probePut mstate (mapHolds b (elementClass c) hash k) (mapSlots m) msk idx None of
           None \<Rightarrow> None
         | Some (Vacant j) \<Rightarrow>
             Some (m\<lparr>mapSlots := (mapSlots m)[j :=
                 \<lparr>mkey = k, mval = v, mhash = hash, mstate = STATE_OCCUPIED\<rparr>],
               mapBase := c\<lparr>activeCount := wrap32 (activeCount c + 1)\<rparr>\<rparr>)
         | Some (Found j) \<Rightarrow>
             Some (m\<lparr>mapSlots := (mapSlots m)[j := (mapSlots m ! j)\<lparr>mval := v\<rparr>]\<rparr>))"

definition Map_put ::
    "blocks \<Rightarrow> Map option \<Rightarrow> u64 \<Rightarrow> u64 \<Rightarrow> World \<Rightarrow> (Map option \<times> World) option" where
  "Map_put b mp k v w = (case mp of
     None \<Rightarrow> Some (None, w)
   | Some m \<Rightarrow>
       (let c = mapBase m;
            load = capacity c - capacity c div LOAD_DIVISOR
        in case (if load \<le> activeCount c then Map_rehash m (wrap32 (capacity c * 2)) w
                 else Some (m, w)) of
             None \<Rightarrow> None
           | Some (m1, w1) \<Rightarrow> map_option (\<lambda>m2. (Some m2, w1)) (mapStore b m1 k v)))"

definition mapSearch :: "blocks \<Rightarrow> Map \<Rightarrow> u64 \<Rightarrow> nat option" where
  "mapSearch b m k =
     (let c = mapBase m;
          hash = computeHash b (elementClass c) k;
          msk = wrap32 (capacity c + 4294967295);
          idx = unat hash AND msk
      in probeFind (capacity c) mstate (mapHolds b (elementClass c) hash k) (mapSlots m) msk idx)"

definition Map_get :: "blocks \<Rightarrow> Map option \<Rightarrow> u64 \<Rightarrow> u64" where
  "Map_get b mp k = (case mp of
     None \<Rightarrow> 0
   | Some m \<Rightarrow>
       if capacity (mapBase m) = 0 then 0
       else (case mapSearch b m k of None \<Rightarrow> 0 | Some j \<Rightarrow> mval (mapSlots m ! j)))"

definition Map_containsKey :: "blocks \<Rightarrow> Map option \<Rightarrow> u64 \<Rightarrow> bool" where
  "Map_containsKey b mp k = (case mp of
     None \<Rightarrow> False
   | Some m \<Rightarrow>
       if capacity (mapBase m) = 0 then False
       else (case mapSearch b m k of None \<Rightarrow> False | Some j \<Rightarrow> True))"

definition Map_remove :: "blocks \<Rightarrow> Map option \<Rightarrow> u64 \<Rightarrow> u64 \<times> Map option" where
  "Map_remove b mp k = (case mp of
     None \<Rightarrow> (0, None)
   | Some m \<Rightarrow>
       if capacity (mapBase m) = 0 then (0, Some m)
       else
         (case mapSearch b m k of
            None \<Rightarrow> (0, Some m)
          | Some j \<Rightarrow>
              (let oldVal = mval (mapSlots m ! j);
                   c = mapBase m
               in (oldVal,
                   Some (m\<lparr>mapSlots := (mapSlots m)[j := (mapSlots m ! j)\<lparr>mstate := STATE_DELETED\<rparr>],
                     mapBase := c\<lparr>activeCount := activeCount c - 1\<rparr>\<rparr>)))))"

text \<open>\<open>Map_keys\<close>: an array of the live count, filled in table order.\<close>

definition Map_keys :: "Map option \<Rightarrow> World \<Rightarrow> Collection option \<times> World" where
  "Map_keys mp w = (case mp of
     None \<Rightarrow> (None, w)
   | Some m \<Rightarrow>
       (case Array_2 (elementClass (mapBase m)) (activeCount (mapBase m)) w of
          (None, w1) \<Rightarrow> (None, w1)
        | (Some keys, w1) \<Rightarrow>
            (fst (fold (\<lambda>s (ks, out).
                 if mstate s = STATE_OCCUPIED then (Array_set ks out (mkey s), out + 1)
                 else (ks, out)) (take (capacity (mapBase m)) (mapSlots m)) (Some keys, 0)), w1)))"

definition Map_isEmpty :: "Map option \<Rightarrow> bool" where
  "Map_isEmpty mp = Collection_isEmpty (map_option mapBase mp)"

definition Map_size :: "Map option \<Rightarrow> nat" where
  "Map_size mp = Collection_size (map_option mapBase mp)"

definition Map_exhaustionCount :: "Map option \<Rightarrow> u64" where
  "Map_exhaustionCount mp = Collection_exhaustionCount (map_option mapBase mp)"

definition Map_capacity :: "Map option \<Rightarrow> nat" where
  "Map_capacity mp = Collection_capacity (map_option mapBase mp)"

definition Map_keyClassId :: "Map option \<Rightarrow> u32" where
  "Map_keyClassId mp = Collection_keyClassId (map_option mapBase mp)"

definition Map_valClassId :: "Map option \<Rightarrow> nat" where
  "Map_valClassId mp = Collection_valClassId (map_option mapBase mp)"

definition Map_dataBuffer :: "Map option \<Rightarrow> MapSlot list option" where
  "Map_dataBuffer mp = map_option mapSlots mp"

section \<open>The map a table stands for\<close>

definition mapTable :: "blocks \<Rightarrow> Map \<Rightarrow> bool" where
  "mapTable b m \<longleftrightarrow>
     tableWf mstate mkey mhash (computeHash b (elementClass (mapBase m)))
       (keyMatch b (elementClass (mapBase m))) (mapSlots m)"

text \<open>
  The invariant: a well-formed table of the announced power-of-two capacity, as many occupied
  slots as the count says.
\<close>

definition mapWf :: "blocks \<Rightarrow> Map \<Rightarrow> bool" where
  "mapWf b m \<longleftrightarrow> mapTable b m \<and> length (mapSlots m) = capacity (mapBase m) \<and>
     4 \<le> capacity (mapBase m) \<and> capacity (mapBase m) \<le> 2147483648 \<and>
     activeCount (mapBase m) = card (occSet mstate (mapSlots m))"

definition mapLookup :: "blocks \<Rightarrow> Map \<Rightarrow> u64 \<Rightarrow> u64 option" where
  "mapLookup b m k =
     map_option mval (List.find (\<lambda>s. mstate s = STATE_OCCUPIED \<and>
       keyMatch b (elementClass (mapBase m)) (mkey s) k) (mapSlots m))"

text \<open>A slot the insertion loop can stop at.\<close>

definition mapRoom :: "Map \<Rightarrow> bool" where
  "mapRoom m \<longleftrightarrow> (\<exists>s \<in> set (mapSlots m). mstate s = STATE_EMPTY)"

interpretation map_table: open_table mstate mkey mhash "computeHash b cls" "keyMatch b cls" for b cls
  by (rule keyMatch_table)

lemma mask_capacity: "0 < n \<Longrightarrow> n \<le> 4294967296 \<Longrightarrow> wrap32 (n + 4294967295) = n - 1"
proof -
  assume n: "0 < n" "n \<le> 4294967296"
  then have "n + 4294967295 = (n - 1) + 4294967296" by simp
  moreover have "n - 1 < 4294967296" using n by simp
  ultimately show ?thesis by (simp only: wrap32_def mod_add_self2 mod_less)
qed

lemma mapWf_mask: "mapWf b m \<Longrightarrow> wrap32 (capacity (mapBase m) + 4294967295) = length (mapSlots m) - 1"
  using mask_capacity [of "capacity (mapBase m)"] by (simp add: mapWf_def)

lemma mapHolds_iff:
  assumes "mapTable b m" "s \<in> occSet mstate (mapSlots m)"
  shows "mapHolds b (elementClass (mapBase m)) (computeHash b (elementClass (mapBase m)) k) k s \<longleftrightarrow>
    keyMatch b (elementClass (mapBase m)) (mkey s) k"
proof -
  obtain i where "i < length (mapSlots m)" "s = mapSlots m ! i" "mstate s = STATE_OCCUPIED"
    using assms(2) by (auto simp: occSet_def in_set_conv_nth)
  then have "mhash s = computeHash b (elementClass (mapBase m)) (mkey s)"
    using map_table.wf_slot assms(1) unfolding mapTable_def by blast
  then show ?thesis by (simp add: mapHolds_def keyMatch_def)
qed

lemma mapLookup_slot:
  assumes "mapTable b m" "s \<in> occSet mstate (mapSlots m)"
    and "keyMatch b (elementClass (mapBase m)) (mkey s) k"
  shows "mapLookup b m k = Some (mval s)"
  using map_table.lookup_iff assms unfolding mapTable_def mapLookup_def by fastforce

lemma mapLookup_none:
  "mapLookup b m k = None \<longleftrightarrow>
   (\<forall>s \<in> occSet mstate (mapSlots m). \<not> keyMatch b (elementClass (mapBase m)) (mkey s) k)"
  unfolding mapLookup_def map_option_is_None by (rule map_table.lookup_none)

lemma mapSearch_cases:
  assumes "mapWf b m"
  obtains (hit) j where "mapSearch b m k = Some j" "j < length (mapSlots m)"
      "mapSlots m ! j \<in> occSet mstate (mapSlots m)"
      "keyMatch b (elementClass (mapBase m)) (mkey (mapSlots m ! j)) k"
      "mapLookup b m k = Some (mval (mapSlots m ! j))"
  | (miss) "mapSearch b m k = None" "mapLookup b m k = None"
proof -
  let ?cls = "elementClass (mapBase m)" and ?T = "mapSlots m"
  let ?matches = "mapHolds b ?cls (computeHash b ?cls k) k"
  have wf: "mapTable b m" using assms by (simp add: mapWf_def)
  have T: "tableWf mstate mkey mhash (computeHash b ?cls) (keyMatch b ?cls) ?T"
    using wf by (simp add: mapTable_def)
  have m: "\<forall>s \<in> occSet mstate ?T. ?matches s \<longleftrightarrow> keyMatch b ?cls (mkey s) k"
    using mapHolds_iff [OF wf] by blast
  have eq: "mapSearch b m k = probeFind (length ?T) mstate ?matches ?T (length ?T - 1)
      (unat (computeHash b ?cls k) AND (length ?T - 1))"
    using mapWf_mask [OF assms] assms by (simp add: mapSearch_def Let_def mapWf_def)
  show thesis
  proof (cases "mapSearch b m k")
    case None
    then show thesis
      using map_table.find_none [OF T m] eq mapLookup_none by (intro miss) auto
  next
    case (Some j)
    note found = map_table.find_some [OF T m, of j]
    show thesis
      using Some eq found mapLookup_slot [OF wf found(2) found(3)] by (intro hit [of j]) auto
  qed
qed

lemma Map_get_lookup:
  "mapWf b m \<Longrightarrow> Map_get b (Some m) k = (case mapLookup b m k of None \<Rightarrow> 0 | Some v \<Rightarrow> v)"
  by (rule mapSearch_cases [of b m k]) (auto simp: Map_get_def mapWf_def)

lemma Map_containsKey_lookup:
  "mapWf b m \<Longrightarrow> Map_containsKey b (Some m) k \<longleftrightarrow> mapLookup b m k \<noteq> None"
  by (rule mapSearch_cases [of b m k]) (auto simp: Map_containsKey_def mapWf_def)

text \<open>Lookups after the table changed to one with given occupied slots.\<close>

lemma mapLookup_occ:
  assumes "mapTable b m" "mapTable b m'" "elementClass (mapBase m') = elementClass (mapBase m)"
    and "occSet mstate (mapSlots m') = occSet mstate (mapSlots m)"
  shows "mapLookup b m' k = mapLookup b m k"
  unfolding mapLookup_def assms(3)
  by (rule arg_cong [where f = "map_option mval"], rule map_table.lookup_occ_cong)
    (use assms in \<open>simp_all add: mapTable_def\<close>)

lemma mapLookup_insert:
  assumes "mapTable b m" "mapTable b m'" "elementClass (mapBase m') = elementClass (mapBase m)"
    and "occSet mstate (mapSlots m') = insert s (occSet mstate (mapSlots m) - A)"
    and "\<forall>t \<in> A. keyMatch b (elementClass (mapBase m)) (mkey t) (mkey s)"
    and "\<forall>t \<in> occSet mstate (mapSlots m) - A.
      \<not> keyMatch b (elementClass (mapBase m)) (mkey t) (mkey s)"
  shows "mapLookup b m' k =
    (if keyMatch b (elementClass (mapBase m)) (mkey s) k then Some (mval s) else mapLookup b m k)"
proof -
  let ?cls = "elementClass (mapBase m)"
  note trans = map_table.eq_trans [of b ?cls] and sym = map_table.eq_sym [of b ?cls]
  show ?thesis
  proof (cases "keyMatch b ?cls (mkey s) k")
    case True
    then show ?thesis using mapLookup_slot [OF assms(2), of s k] assms(3,4) by simp
  next
    case False
    show ?thesis
    proof (cases "mapLookup b m k")
      case None
      then have "mapLookup b m' k = None"
        unfolding mapLookup_none assms(3,4) using False by blast
      then show ?thesis using None False by simp
    next
      case (Some v)
      then obtain t where t: "t \<in> occSet mstate (mapSlots m)" "keyMatch b ?cls (mkey t) k"
        using mapLookup_none by (metis option.distinct(1))
      have "t \<notin> A" using assms(5) t(2) False trans sym by blast
      then have "t \<in> occSet mstate (mapSlots m')" using t(1) assms(4) by blast
      then have "mapLookup b m' k = Some (mval t)"
        using mapLookup_slot [OF assms(2)] t(2) assms(3) by simp
      then show ?thesis using mapLookup_slot [OF assms(1) t] False by simp
    qed
  qed
qed

section \<open>Insertion\<close>

lemma mapStore_correct:
  assumes "mapWf b m" "mapRoom m"
  shows "\<exists>m'. mapStore b m k v = Some m' \<and> mapWf b m' \<and>
    elementClass (mapBase m') = elementClass (mapBase m) \<and>
    (\<forall>k'. mapLookup b m' k' = (if keyMatch b (elementClass (mapBase m)) k k' then Some v
       else mapLookup b m k')) \<and>
    activeCount (mapBase m') =
      (if mapLookup b m k = None then Suc (activeCount (mapBase m)) else activeCount (mapBase m))"
proof -
  let ?cls = "elementClass (mapBase m)" and ?T = "mapSlots m" and ?c = "mapBase m"
  let ?matches = "mapHolds b ?cls (computeHash b ?cls k) k"
  have wf: "mapTable b m" using assms by (simp add: mapWf_def)
  have T: "tableWf mstate mkey mhash (computeHash b ?cls) (keyMatch b ?cls) ?T"
    using wf by (simp add: mapTable_def)
  have m: "\<forall>s \<in> occSet mstate ?T. ?matches s \<longleftrightarrow> keyMatch b ?cls (mkey s) k"
    using mapHolds_iff [OF wf] by blast
  have msk: "wrap32 (capacity ?c + 4294967295) = length ?T - 1" by (rule mapWf_mask [OF assms(1)])
  have room: "\<exists>s \<in> set ?T. mstate s = STATE_EMPTY" using assms(2) by (simp add: mapRoom_def)
  from T m room show ?thesis
  proof (cases rule: map_table.put_returns)
    case (found j)
    let ?s = "(?T ! j)\<lparr>mval := v\<rparr>" let ?m = "m\<lparr>mapSlots := ?T[j := ?s]\<rparr>"
    have occ: "mstate (?T ! j) = STATE_OCCUPIED" using found(3) by (simp add: occSet_def)
    have eq: "mapStore b m k v = Some ?m"
      using found(1) msk by (simp add: mapStore_def Let_def)
    have T': "mapTable b ?m"
      using map_table.wf_rewrite [OF T found(2) occ, of ?s] occ by (simp add: mapTable_def)
    have occ': "occSet mstate (?T[j := ?s]) = insert ?s (occSet mstate ?T - {?T ! j})"
      using map_table.occ_update [OF T found(2), of ?s] occ by simp
    have others: "\<forall>t \<in> occSet mstate ?T - {?T ! j}. \<not> keyMatch b ?cls (mkey t) (mkey ?s)"
      using map_table.occ_unique [OF T] found(3) by auto
    have look: "mapLookup b ?m k' = (if keyMatch b ?cls k k' then Some v else mapLookup b m k')" for k'
    proof -
      have "keyMatch b ?cls (mkey ?s) k' \<longleftrightarrow> keyMatch b ?cls k k'"
        using map_table.eq_cong [OF found(4)] by simp
      then show ?thesis
        using mapLookup_insert [OF wf T', of ?s "{?T ! j}" k'] occ' others map_table.eq_refl by simp
    qed
    have "?s \<notin> occSet mstate ?T - {?T ! j}" using others map_table.eq_refl by blast
    then have "card (occSet mstate (?T[j := ?s])) = Suc (card (occSet mstate ?T - {?T ! j}))"
      unfolding occ' by (intro card_insert_disjoint) simp_all
    also have "\<dots> = card (occSet mstate ?T)"
      by (rule card_Suc_Diff1) (use found(3) in simp_all)
    finally have "card (occSet mstate (?T[j := ?s])) = card (occSet mstate ?T)" .
    then have "mapWf b ?m" using assms(1) T' by (simp add: mapWf_def)
    moreover have "mapLookup b m k \<noteq> None" using found(3,4) mapLookup_none by blast
    ultimately show ?thesis using eq look by auto
  next
    case (vacant j)
    let ?s = "\<lparr>mkey = k, mval = v, mhash = computeHash b ?cls k, mstate = STATE_OCCUPIED\<rparr>"
    let ?m = "m\<lparr>mapSlots := ?T[j := ?s], mapBase := ?c\<lparr>activeCount := Suc (activeCount ?c)\<rparr>\<rparr>"
    have "\<forall>t \<in> occSet mstate ?T. \<not> keyMatch b ?cls (mkey t) (mkey ?s)" using vacant(5) by simp
    note ins = map_table.wf_insert [OF T vacant(2,3) _ _ _ this]
    have T': "mapTable b ?m" and occ': "occSet mstate (?T[j := ?s]) = insert ?s (occSet mstate ?T)"
      using ins vacant(4) by (simp_all add: mapTable_def)
    have fresh: "?s \<notin> occSet mstate ?T" using vacant(5) map_table.eq_refl by fastforce
    have card: "activeCount ?c = card (occSet mstate ?T)" using assms(1) by (simp add: mapWf_def)
    have "occSet mstate ?T \<subseteq> set ?T" by (auto simp: occSet_def)
    then have "card (occSet mstate ?T) \<le> card (set ?T)" by (intro card_mono) simp_all
    also have "\<dots> \<le> length ?T" by (rule card_length)
    also have "\<dots> \<le> 2147483648" using assms(1) by (simp add: mapWf_def)
    finally have "wrap32 (activeCount ?c + 1) = Suc (activeCount ?c)" using card by simp
    then have eq: "mapStore b m k v = Some ?m"
      using vacant(1) msk by (simp add: mapStore_def Let_def)
    have look: "mapLookup b ?m k' = (if keyMatch b ?cls k k' then Some v else mapLookup b m k')" for k'
      using mapLookup_insert [OF wf T', of ?s "{}" k'] occ' vacant(5) by simp
    have "card (occSet mstate (?T[j := ?s])) = Suc (card (occSet mstate ?T))"
      unfolding occ' using fresh by simp
    then have "mapWf b ?m" using assms(1) T' by (simp add: mapWf_def)
    moreover have "mapLookup b m k = None" using vacant(5) mapLookup_none by blast
    ultimately show ?thesis using eq look by auto
  qed
qed

lemma Map_rehash_cases:
  assumes "mapWf b m" "capacity (mapBase m) \<le> 1073741824"
  obtains (grown) m' w' where "Map_rehash m (wrap32 (capacity (mapBase m) * 2)) w = Some (m', w')"
      "mapWf b m'" "mapRoom m'" "\<And>k. mapLookup b m' k = mapLookup b m k"
      "activeCount (mapBase m') = activeCount (mapBase m)"
      "elementClass (mapBase m') = elementClass (mapBase m)"
      "capacity (mapBase m') = 2 * capacity (mapBase m)"
      "exhaustionCount (mapBase m') = exhaustionCount (mapBase m)"
      "\<forall>s \<in> set (mapSlots m'). mstate s \<in> {STATE_EMPTY, STATE_OCCUPIED}"
      "willing w \<longrightarrow> willing w'"
  | (refused) m' w' where "Map_rehash m (wrap32 (capacity (mapBase m) * 2)) w = Some (m', w')"
      "mapWf b m'" "mapSlots m' = mapSlots m" "\<And>k. mapLookup b m' k = mapLookup b m k"
      "activeCount (mapBase m') = activeCount (mapBase m)"
      "elementClass (mapBase m') = elementClass (mapBase m)"
      "exhaustionCount (mapBase m') = exhaustionCount (mapBase m) + 1" "\<not> willing w"
proof -
  let ?T = "mapSlots m" and ?cls = "elementClass (mapBase m)" and ?n = "capacity (mapBase m) * 2"
  have n: "wrap32 ?n = ?n" using assms(2) by simp
  have T: "tableWf mstate mkey mhash (computeHash b ?cls) (keyMatch b ?cls) ?T"
    using assms(1) by (simp add: mapWf_def mapTable_def)
  have cap: "length ?T = capacity (mapBase m)" "4 \<le> capacity (mapBase m)"
    using assms(1) by (auto simp: mapWf_def)
  obtain g w1 where g: "Memory_object w = (g, w1)" by fastforce
  show thesis
  proof (cases g)
    case False
    let ?m = "m\<lparr>mapBase := (mapBase m)\<lparr>exhaustionCount := exhaustionCount (mapBase m) + 1,
      exhaustionReported := True\<rparr>\<rparr>"
    have "Map_rehash m (wrap32 ?n) w = Some (?m, w1)" using g False by (simp add: Map_rehash_def)
    moreover have "\<not> willing w" using Memory_object_willing g False by blast
    ultimately show thesis using assms(1)
      by (intro refused [of ?m w1]) (simp_all add: mapWf_def mapTable_def mapLookup_def)
  next
    case True
    let ?E = "replicate ?n emptyMapSlot"
    obtain p where p: "p \<le> 32" "length ?T = 2 ^ p"
      using map_table.wf_pow2 [OF T] by (auto simp: pow2_def)
    have "p \<noteq> 32" using p(2) cap(1) assms(2) by auto
    then have p2: "pow2 ?n" using p cap(1) unfolding pow2_def by (intro exI [of _ "Suc p"]) simp
    have E: "tableWf mstate mkey mhash (computeHash b ?cls) (keyMatch b ?cls) ?E"
      using p2 by (simp add: tableWf_def emptyMapSlot_def slot_states)
    have occE: "occSet mstate ?E = {}" by (auto simp: occSet_def emptyMapSlot_def slot_states)
    have hashes: "mhash s = computeHash b ?cls (mkey s)" if "s \<in> occSet mstate ?T" for s
      using that map_table.wf_slot [OF T] by (auto simp: occSet_def in_set_conv_nth)
    have few: "length (filter (\<lambda>s. mstate s = STATE_OCCUPIED) ?T) \<le> capacity (mapBase m)"
      using cap(1) length_filter_le by metis
    have "wrap64 (?n + 18446744073709551615) = length ?E - 1"
    proof -
      have "?n + 18446744073709551615 = (?n - 1) + 18446744073709551616" using cap(2) by simp
      moreover have "?n - 1 < 18446744073709551616" using assms(2) by simp
      ultimately show ?thesis by (simp only: wrap64_def mod_add_self2 mod_less length_replicate)
    qed
    moreover have "\<exists>T'. rehashInto mstate mhash (length ?E - 1) ?T ?E = Some T' \<and>
        length T' = length ?E \<and>
        tableWf mstate mkey mhash (computeHash b ?cls) (keyMatch b ?cls) T' \<and>
        occSet mstate T' = occSet mstate ?E \<union> occSet mstate ?T \<and>
        (\<forall>t \<in> set T'. mstate t \<in> {STATE_EMPTY, STATE_OCCUPIED})"
      by (rule map_table.rehash_returns [OF E])
        (use few cap occE hashes map_table.wf_distinct [OF T] map_table.occ_unique [OF T]
          in \<open>auto simp: emptyMapSlot_def slot_states\<close>)
    ultimately obtain T' where T': "rehashInto mstate mhash (wrap64 (?n + 18446744073709551615)) ?T ?E = Some T'"
      "length T' = ?n" "tableWf mstate mkey mhash (computeHash b ?cls) (keyMatch b ?cls) T'"
      "occSet mstate T' = occSet mstate ?T" "\<forall>t \<in> set T'. mstate t \<in> {STATE_EMPTY, STATE_OCCUPIED}"
      using occE by auto
    let ?m = "m\<lparr>mapBase := (mapBase m)\<lparr>capacity := ?n\<rparr>, mapSlots := T'\<rparr>"
    have eq: "Map_rehash m (wrap32 ?n) w = Some (?m, w1)"
      using g True T'(1) n by (simp add: Map_rehash_def)
    have wf': "mapWf b ?m" using assms T' cap by (simp add: mapWf_def mapTable_def)
    have "card (occSet mstate T') < length T'"
      using few T'(2,4) cap map_table.wf_distinct(2) [OF T] by simp
    then obtain i where i: "i < length T'" "mstate (T' ! i) \<noteq> STATE_OCCUPIED"
      using map_table.occ_card_full [OF T'(3)] by blast
    then have "T' ! i \<in> set T'" "mstate (T' ! i) = STATE_EMPTY" using T'(5) by auto
    then have room: "mapRoom ?m" by (auto simp: mapRoom_def)
    have look: "mapLookup b ?m k = mapLookup b m k" for k
      by (rule mapLookup_occ) (use T T' in \<open>simp_all add: mapTable_def\<close>)
    show thesis
      by (rule grown [OF eq wf' room look]) (use T'(5) g Memory_object_willing in auto)
  qed
qed

lemma Map_put_lookup:
  assumes "mapWf b m" "mapRoom m"
    and "capacity (mapBase m) - capacity (mapBase m) div LOAD_DIVISOR \<le> activeCount (mapBase m) \<Longrightarrow>
      capacity (mapBase m) \<le> 1073741824"
  shows "\<exists>m' w'. Map_put b (Some m) k v w = Some (Some m', w') \<and> mapWf b m' \<and>
    (\<forall>k'. mapLookup b m' k' = (if keyMatch b (elementClass (mapBase m)) k k' then Some v
       else mapLookup b m k')) \<and>
    elementClass (mapBase m') = elementClass (mapBase m) \<and>
    Map_size (Some m') =
      (if mapLookup b m k = None then Suc (Map_size (Some m)) else Map_size (Some m))"
proof -
  let ?load = "capacity (mapBase m) - capacity (mapBase m) div LOAD_DIVISOR"
  have size: "Map_size (Some x) = activeCount (mapBase x)" for x
    by (simp add: Map_size_def Collection_size_def)
  obtain m1 w1 where r: "(if ?load \<le> activeCount (mapBase m)
      then Map_rehash m (wrap32 (capacity (mapBase m) * 2)) w else Some (m, w)) = Some (m1, w1)"
    and m1: "mapWf b m1" "mapRoom m1" "\<And>k. mapLookup b m1 k = mapLookup b m k"
      "activeCount (mapBase m1) = activeCount (mapBase m)"
      "elementClass (mapBase m1) = elementClass (mapBase m)"
  proof (cases "?load \<le> activeCount (mapBase m)")
    case True
    from assms(1) assms(3) [OF True] show thesis
    proof (cases rule: Map_rehash_cases [where w = w])
      case (grown m' w')
      then show thesis using True by (intro that [of m' w']) auto
    next
      case (refused m' w')
      then show thesis using True assms(2) by (intro that [of m' w']) (auto simp: mapRoom_def)
    qed
  next
    case False
    then show thesis using assms by (intro that [of m w]) auto
  qed
  from mapStore_correct [OF m1(1,2), of k v] obtain m' where "mapStore b m1 k v = Some m'" "mapWf b m'"
    "elementClass (mapBase m') = elementClass (mapBase m1)"
    "\<forall>k'. mapLookup b m' k' = (if keyMatch b (elementClass (mapBase m1)) k k' then Some v
       else mapLookup b m1 k')"
    "activeCount (mapBase m') = (if mapLookup b m1 k = None then Suc (activeCount (mapBase m1))
       else activeCount (mapBase m1))" by blast
  then show ?thesis
    unfolding Map_put_def Let_def size option.case r using m1(3-5) by auto
qed

section \<open>Removal\<close>

lemma Map_remove_lookup:
  assumes "mapWf b m"
  shows "\<exists>m'. Map_remove b (Some m) k = ((case mapLookup b m k of None \<Rightarrow> 0 | Some v \<Rightarrow> v), Some m') \<and>
    mapWf b m' \<and> elementClass (mapBase m') = elementClass (mapBase m) \<and>
    (\<forall>k'. mapLookup b m' k' = (if keyMatch b (elementClass (mapBase m)) k k' then None
       else mapLookup b m k'))"
  using assms
proof (cases rule: mapSearch_cases [where k = k])
  case miss
  have "mapLookup b m k' = None" if "keyMatch b (elementClass (mapBase m)) k k'" for k'
    using miss(2) map_table.eq_trans map_table.eq_sym [OF that] unfolding mapLookup_none by blast
  then show ?thesis using assms miss by (auto simp: Map_remove_def mapWf_def)
next
  case (hit j)
  let ?cls = "elementClass (mapBase m)" and ?T = "mapSlots m" and ?c = "mapBase m"
  let ?s = "(?T ! j)\<lparr>mstate := STATE_DELETED\<rparr>"
  let ?m = "m\<lparr>mapSlots := ?T[j := ?s], mapBase := ?c\<lparr>activeCount := activeCount ?c - 1\<rparr>\<rparr>"
  have T: "tableWf mstate mkey mhash (computeHash b ?cls) (keyMatch b ?cls) ?T"
    and wf: "mapTable b m" using assms by (simp_all add: mapWf_def mapTable_def)
  have occ: "mstate (?T ! j) = STATE_OCCUPIED" using hit(3) by (simp add: occSet_def)
  have T': "mapTable b ?m"
    using map_table.wf_rewrite [OF T hit(2) occ, of ?s] by (simp add: mapTable_def)
  have occ': "occSet mstate (?T[j := ?s]) = occSet mstate ?T - {?T ! j}"
    using map_table.occ_update [OF T hit(2), of ?s] occ by (simp add: slot_states)
  have eq: "Map_remove b (Some m) k = (mval (?T ! j), Some ?m)"
    using hit(1) assms by (simp add: Map_remove_def Let_def mapWf_def)
  have "card (occSet mstate (?T[j := ?s])) = card (occSet mstate ?T) - 1"
    unfolding occ' by (rule card_Diff_singleton [OF hit(3)])
  then have wf': "mapWf b ?m" using assms T' by (simp add: mapWf_def)
  have look: "mapLookup b ?m k' = (if keyMatch b ?cls k k' then None else mapLookup b m k')" for k'
  proof (cases "keyMatch b ?cls k k'")
    case True
    have "\<not> keyMatch b ?cls (mkey t) k'" if "t \<in> occSet mstate ?T - {?T ! j}" for t
      using that hit(3,4) map_table.occ_eq_unique [OF T, of t "?T ! j" k]
        map_table.eq_trans [OF _ map_table.eq_sym [OF True]] by blast
    then have "mapLookup b ?m k' = None" unfolding mapLookup_none by (simp add: occ')
    then show ?thesis using True by simp
  next
    case False
    show ?thesis
    proof (cases "mapLookup b m k'")
      case None
      then have "mapLookup b ?m k' = None" unfolding mapLookup_none by (simp add: occ')
      then show ?thesis using None False by simp
    next
      case (Some v)
      then obtain t where t: "t \<in> occSet mstate ?T" "keyMatch b ?cls (mkey t) k'"
        using mapLookup_none by (metis option.distinct(1))
      have "t \<noteq> ?T ! j"
        using t(2) hit(4) False map_table.eq_trans [OF map_table.eq_sym [OF hit(4)]] by blast
      then have "t \<in> occSet mstate (mapSlots ?m)" using t(1) occ' by simp
      then have "mapLookup b ?m k' = Some (mval t)"
        using mapLookup_slot [OF T'] t(2) by simp
      then show ?thesis using mapLookup_slot [OF wf t] False by simp
    qed
  qed
  show ?thesis using eq wf' look hit(5) by auto
qed

section \<open>A table without an empty slot\<close>

text \<open>
  Tombstones count neither as live nor as empty: once they fill the table the insertion of an
  absent key never ends, whatever the load check says.
\<close>

lemma Map_put_diverges:
  assumes "mapWf b m" "\<not> mapRoom m" "mapLookup b m k = None"
    and "activeCount (mapBase m) < capacity (mapBase m) - capacity (mapBase m) div LOAD_DIVISOR"
  shows "Map_put b (Some m) k v w = None"
proof -
  let ?cls = "elementClass (mapBase m)" and ?T = "mapSlots m"
  let ?matches = "mapHolds b ?cls (computeHash b ?cls k) k"
  have T: "tableWf mstate mkey mhash (computeHash b ?cls) (keyMatch b ?cls) ?T"
    and wf: "mapTable b m" using assms(1) by (simp_all add: mapWf_def mapTable_def)
  have p2: "pow2 (length ?T)" and pos: "0 < length ?T"
    using map_table.wf_pow2 [OF T] map_table.wf_pos [OF T] by blast+
  have "\<not> (mstate s = STATE_OCCUPIED \<and> ?matches s)" if "s \<in> set ?T" for s
    using that mapHolds_iff [OF wf, of s k] assms(3) unfolding mapLookup_none by (auto simp: occSet_def)
  moreover have "unat (computeHash b ?cls k) AND (length ?T - 1) < length ?T"
    using home_index [OF p2] pos by simp
  ultimately have "probeStuck mstate ?matches ?T (length ?T - 1)
      (unat (computeHash b ?cls k) AND (length ?T - 1))"
    using assms(2) p2 by (auto simp: probeStuck_def mapRoom_def)
  note stuck = probePut_diverges [OF this, of None]
  have "mapStore b m k v = None"
    unfolding mapStore_def Let_def mapWf_mask [OF assms(1)] stuck by simp
  then show ?thesis using assms(4) by (simp add: Map_put_def Let_def)
qed

section \<open>Construction and runs of insertions\<close>

lemma Map_3_new:
  assumes "unat cap \<le> 2147483648" "Map_3 keyClass valClass cap w = (h, w')"
  shows "(h = None \<and> \<not> willing w \<and> s_constructionReported w') \<or>
    (\<exists>m. h = Some m \<and> mapWf b m \<and> elementClass (mapBase m) = keyClass \<and>
       activeCount (mapBase m) = 0 \<and> (\<forall>s \<in> set (mapSlots m). mstate s = STATE_EMPTY) \<and>
       (willing w \<longrightarrow> willing w'))"
proof -
  define cap1 where "cap1 = (if cap = 0 then Map_DEFAULT_CAPACITY else highestOneBit cap)"
  define n where "n = unat (if cap1 < 4 then 4 else cap1)"
  obtain p where p: "p \<le> 31" "unat cap1 = 2 ^ p"
  proof (cases "cap = 0")
    case True
    then show thesis using that [of 4] by (simp add: cap1_def Map_DEFAULT_CAPACITY_def)
  next
    case False
    have "unat cap \<le> 9223372036854775808" using assms(1) by simp
    then obtain p where p: "unat (highestOneBit cap) = 2 ^ p" "1 < unat cap \<longrightarrow> 2 ^ p < 2 * unat cap"
      by (rule highestOneBit_pow2)
    have "p < 32"
    proof (cases "1 < unat cap")
      case True
      then have "(2 :: nat) ^ p < 2 ^ 32" using p(2) assms(1) by simp
      then show ?thesis by (simp only: power_strict_increasing_iff)
    next
      case False
      then have "cap = 1" using \<open>cap \<noteq> 0\<close> by (metis less_one linorder_neqE_nat unat_1 unat_0_iff word_unat_eq_iff)
      then have "(2 :: nat) ^ p = 1" using p(1) by (simp add: highestOneBit_def)
      then show ?thesis by (cases p) simp_all
    qed
    then show thesis using that p(1) False by (simp add: cap1_def)
  qed
  have n: "pow2 n" "4 \<le> n" "n \<le> 2147483648"
  proof -
    have eq: "n = 2 ^ max 2 p"
    proof (cases "p < 2")
      case True
      then have "unat cap1 < 4" using p(2) by (auto simp: less_2_cases_iff)
      then show ?thesis using True by (simp add: n_def word_less_nat_alt)
    next
      case False
      then have "2 ^ 2 \<le> (2 :: nat) ^ p" by (intro power_increasing) simp_all
      then show ?thesis using p(2) False by (simp add: n_def word_less_nat_alt max_def)
    qed
    have lo: "2 ^ 2 \<le> n" and hi: "n \<le> 2 ^ 31"
      unfolding eq by (intro power_increasing; use p(1) in simp)+
    show "4 \<le> n" using lo by simp
    show "n \<le> 2147483648" using hi by simp
    show "pow2 n" using p(1) eq unfolding pow2_def by (intro exI [of _ "max 2 p"]) simp
  qed
  then have w: "wrap64 (n * Map_SLOT_SIZE) div Map_SLOT_SIZE = n" "wrap32 n = n"
    by (simp_all add: Map_SLOT_SIZE_def)
  obtain g1 w1 where g1: "Memory_object w = (g1, w1)" by fastforce
  obtain g2 w2 where g2: "Memory_object w1 = (g2, w2)" by fastforce
  show ?thesis
  proof (cases "g1 \<and> g2")
    case False
    moreover have "\<not> willing w" using False g1 g2 Memory_object_willing by blast
    ultimately show ?thesis
      using assms(2) g1 g2 by (auto simp: Map_3_def Let_def Struct_reportConstructionExhaustion_def
          split: if_splits)
  next
    case True
    let ?m = "\<lparr>mapBase = \<lparr>typeId = TYPE_MAP, activeCount = 0, elementClass = keyClass,
        stride = unat valClass, capacity = n, head = 0, data = [], exhaustionCount = 0,
        exhaustionReported = False\<rparr>, mapSlots = replicate n emptyMapSlot\<rparr>"
    have "h = Some ?m" "w' = w2"
      using assms(2) g1 g2 True w unfolding Map_3_def Let_def cap1_def [symmetric] n_def [symmetric]
      by simp_all
    moreover have "mapWf b ?m"
      using n by (simp add: mapWf_def mapTable_def tableWf_def emptyMapSlot_def slot_states occSet_def)
    moreover have "willing w \<longrightarrow> willing w2" using g1 g2 Memory_object_willing by blast
    ultimately show ?thesis by (simp add: emptyMapSlot_def)
  qed
qed

primrec Map_puts ::
    "blocks \<Rightarrow> (u64 \<times> u64) list \<Rightarrow> Map option \<Rightarrow> World \<Rightarrow> (Map option \<times> World) option" where
  "Map_puts b [] mp w = Some (mp, w)"
| "Map_puts b (kv # kvs) mp w =
     (case Map_put b mp (fst kv) (snd kv) w of
        None \<Rightarrow> None
      | Some (mp1, w1) \<Rightarrow> Map_puts b kvs mp1 w1)"

text \<open>A table nobody removed from, no fuller than its load.\<close>

definition mapFresh :: "Map \<Rightarrow> bool" where
  "mapFresh m \<longleftrightarrow> (\<forall>s \<in> set (mapSlots m). mstate s \<in> {STATE_EMPTY, STATE_OCCUPIED}) \<and>
     activeCount (mapBase m) \<le> capacity (mapBase m) - capacity (mapBase m) div LOAD_DIVISOR"

lemma mapFresh_room:
  assumes "mapWf b m" "mapFresh m"
  shows "mapRoom m"
proof -
  let ?T = "mapSlots m"
  have "card (occSet mstate ?T) < length ?T"
    using assms by (auto simp: mapWf_def mapFresh_def LOAD_DIVISOR_def)
  then obtain i where i: "i < length ?T" "mstate (?T ! i) \<noteq> STATE_OCCUPIED"
    using map_table.occ_card_full assms(1) unfolding mapWf_def mapTable_def by blast
  then have "?T ! i \<in> set ?T" by simp
  then show ?thesis using i(2) assms(2) unfolding mapFresh_def mapRoom_def by auto
qed

lemma mapStore_slots:
  assumes "mapStore b m k v = Some m'"
    and "\<forall>s \<in> set (mapSlots m). mstate s \<in> {STATE_EMPTY, STATE_OCCUPIED}"
  shows "(\<forall>s \<in> set (mapSlots m'). mstate s \<in> {STATE_EMPTY, STATE_OCCUPIED}) \<and>
    capacity (mapBase m') = capacity (mapBase m)"
proof -
  have upd: "\<forall>s \<in> set (T[j := x]). mstate s \<in> {STATE_EMPTY, STATE_OCCUPIED}"
    if "\<forall>s \<in> set T. mstate s \<in> {STATE_EMPTY, STATE_OCCUPIED}"
      "j < length T \<Longrightarrow> mstate x \<in> {STATE_EMPTY, STATE_OCCUPIED}" for T :: "MapSlot list" and j x
    using that set_update_subset_insert [of T j x] by (cases "j < length T") (auto simp: list_update_beyond)
  show ?thesis
  proof (cases "probePut mstate (mapHolds b (elementClass (mapBase m))
      (computeHash b (elementClass (mapBase m)) k) k) (mapSlots m)
      (wrap32 (capacity (mapBase m) + 4294967295))
      (unat (computeHash b (elementClass (mapBase m)) k) AND
        wrap32 (capacity (mapBase m) + 4294967295)) None")
    case None
    then show ?thesis using assms(1) by (simp add: mapStore_def Let_def)
  next
    case (Some r)
    show ?thesis
    proof (cases r)
      case (Vacant j)
      let ?x = "\<lparr>mkey = k, mval = v, mhash = computeHash b (elementClass (mapBase m)) k,
        mstate = STATE_OCCUPIED\<rparr>"
      have "mapSlots m' = (mapSlots m)[j := ?x]" "capacity (mapBase m') = capacity (mapBase m)"
        using assms(1) Some Vacant by (auto simp: mapStore_def Let_def)
      then show ?thesis using upd [OF assms(2), of j ?x] by simp
    next
      case (Found j)
      let ?x = "(mapSlots m ! j)\<lparr>mval := v\<rparr>"
      have "mapSlots m' = (mapSlots m)[j := ?x]" "capacity (mapBase m') = capacity (mapBase m)"
        using assms(1) Some Found by (auto simp: mapStore_def Let_def)
      moreover have "j < length (mapSlots m) \<Longrightarrow> mstate ?x \<in> {STATE_EMPTY, STATE_OCCUPIED}"
        using assms(2) by simp
      ultimately show ?thesis using upd [OF assms(2), of j ?x] by simp
    qed
  qed
qed

lemma Map_put_fresh:
  assumes "mapWf b m" "mapFresh m" "activeCount (mapBase m) < 536870912" "willing w"
  shows "\<exists>m' w'. Map_put b (Some m) k v w = Some (Some m', w') \<and> mapWf b m' \<and> mapFresh m' \<and>
    willing w' \<and> elementClass (mapBase m') = elementClass (mapBase m) \<and>
    activeCount (mapBase m') \<le> Suc (activeCount (mapBase m)) \<and>
    (\<forall>k'. mapLookup b m' k' = (if keyMatch b (elementClass (mapBase m)) k k' then Some v
       else mapLookup b m k'))"
proof -
  let ?load = "\<lambda>m. capacity (mapBase m) - capacity (mapBase m) div LOAD_DIVISOR"
  have states: "\<forall>s \<in> set (mapSlots m). mstate s \<in> {STATE_EMPTY, STATE_OCCUPIED}"
    and load: "activeCount (mapBase m) \<le> ?load m"
    using assms(2) by (simp_all add: mapFresh_def)
  have cap: "4 \<le> capacity (mapBase m)" using assms(1) by (simp add: mapWf_def)
  obtain m1 w1 where r: "(if ?load m \<le> activeCount (mapBase m)
      then Map_rehash m (wrap32 (capacity (mapBase m) * 2)) w else Some (m, w)) = Some (m1, w1)"
    and m1: "mapWf b m1" "mapRoom m1" "\<And>k. mapLookup b m1 k = mapLookup b m k"
      "activeCount (mapBase m1) = activeCount (mapBase m)"
      "elementClass (mapBase m1) = elementClass (mapBase m)"
      "\<forall>s \<in> set (mapSlots m1). mstate s \<in> {STATE_EMPTY, STATE_OCCUPIED}"
      "activeCount (mapBase m1) < ?load m1" "willing w1"
  proof (cases "?load m \<le> activeCount (mapBase m)")
    case True
    have "capacity (mapBase m) \<le> 1073741824"
      using True assms(3) by (simp add: LOAD_DIVISOR_def)
    from assms(1) this show thesis
    proof (cases rule: Map_rehash_cases [where w = w])
      case (grown m' w')
      have "activeCount (mapBase m') < ?load m'"
        using grown(5,7) load cap by (simp add: LOAD_DIVISOR_def)
      then show thesis using True grown assms(4) by (intro that [of m' w']) auto
    next
      case refused
      then show thesis using assms(4) by simp
    qed
  next
    case False
    then show thesis
      using assms mapFresh_room [OF assms(1,2)] states by (intro that [of m w]) auto
  qed
  from mapStore_correct [OF m1(1,2), of k v] obtain m' where m': "mapStore b m1 k v = Some m'"
    "mapWf b m'" "elementClass (mapBase m') = elementClass (mapBase m1)"
    "\<forall>k'. mapLookup b m' k' = (if keyMatch b (elementClass (mapBase m1)) k k' then Some v
       else mapLookup b m1 k')"
    "activeCount (mapBase m') = (if mapLookup b m1 k = None then Suc (activeCount (mapBase m1))
       else activeCount (mapBase m1))" by blast
  have "mapFresh m'"
    using mapStore_slots [OF m'(1) m1(6)] m'(5) m1(7) by (simp add: mapFresh_def)
  moreover have "Map_put b (Some m) k v w = Some (Some m', w1)"
    unfolding Map_put_def Let_def option.case r using m'(1) by simp
  ultimately show ?thesis using m' m1 by auto
qed

lemma Map_puts_lookup:
  assumes "mapWf b m" "mapFresh m" "activeCount (mapBase m) + length kvs < 536870912" "willing w"
    and "\<not> isReferenceClass (elementClass (mapBase m))"
  shows "\<exists>m' w'. Map_puts b kvs (Some m) w = Some (Some m', w') \<and> mapWf b m' \<and>
    (\<forall>k. mapLookup b m' k = (case map_of (rev kvs) k of None \<Rightarrow> mapLookup b m k | Some v \<Rightarrow> Some v))"
  using assms
proof (induction kvs arbitrary: m w)
  case Nil
  then show ?case by simp
next
  case (Cons kv kvs)
  have "activeCount (mapBase m) < 536870912" using Cons.prems(3) by simp
  from Map_put_fresh [OF Cons.prems(1,2) this Cons.prems(4), of "fst kv" "snd kv"]
  obtain m1 w1 where m1: "Map_put b (Some m) (fst kv) (snd kv) w = Some (Some m1, w1)" "mapWf b m1"
    "mapFresh m1" "willing w1" "elementClass (mapBase m1) = elementClass (mapBase m)"
    "activeCount (mapBase m1) \<le> Suc (activeCount (mapBase m))"
    "\<forall>k'. mapLookup b m1 k' = (if fst kv = k' then Some (snd kv) else mapLookup b m k')"
    unfolding keyMatch_scalar [OF Cons.prems(5)] by blast
  have "activeCount (mapBase m1) + length kvs < 536870912" using m1(6) Cons.prems(3) by simp
  from Cons.IH [OF m1(2,3) this m1(4)] Cons.prems(5) m1(5) obtain m' w' where
    "Map_puts b kvs (Some m1) w1 = Some (Some m', w')" "mapWf b m'"
    "\<forall>k. mapLookup b m' k = (case map_of (rev kvs) k of None \<Rightarrow> mapLookup b m1 k | Some v \<Rightarrow> Some v)"
    by auto
  then show ?case
    using m1(1,7) by (cases kv) (auto simp: map_add_def split: option.splits)
qed

end
