(* ===== verification/Map_Facts.thy ===== *)
theory Map_Facts
  imports Map_Container
begin

text \<open>
  What the hash map promises its callers, and where it does not keep it: runs of insertions,
  single operations on any table with a free slot, the tombstone loop, and keys that are equal
  but hash apart.
\<close>

section \<open>Insertions\<close>

text \<open>
C16: Over an allocator that grants every request, a new map with a scalar key class takes any
sequence of fewer than \<open>2 ^ 29\<close> insertions, growing as it goes; every insertion returns, and
afterwards \<open>get\<close> answers with the last value put under the key and with zero for a key never
put, and \<open>containsKey\<close> says which of the two it was.
\<close>

theorem Map_put_get:
  assumes "Map_3 keyClass valClass cap w = (mp, w1)" "unat cap \<le> 2147483648" "willing w"
    and "\<not> isReferenceClass keyClass" "length kvs < 536870912"
  shows "\<exists>mp' w'. Map_puts b kvs mp w1 = Some (mp', w') \<and>
    (\<forall>k. Map_get b mp' k = (case map_of (rev kvs) k of None \<Rightarrow> 0 | Some v \<Rightarrow> v) \<and>
         (Map_containsKey b mp' k \<longleftrightarrow> k \<in> fst ` set kvs))"
proof -
  from Map_3_new [OF assms(2,1), of b] assms(3) obtain m where m: "mp = Some m" "mapWf b m"
    "elementClass (mapBase m) = keyClass" "activeCount (mapBase m) = 0"
    "\<forall>s \<in> set (mapSlots m). mstate s = STATE_EMPTY" "willing w1" by auto
  have "mapFresh m" using m(4,5) by (simp add: mapFresh_def)
  with Map_puts_lookup [OF m(2) _ _ m(6), of kvs] m(3,4) assms(4,5) obtain m' w' where
    m': "Map_puts b kvs (Some m) w1 = Some (Some m', w')" "mapWf b m'"
    "\<forall>k. mapLookup b m' k =
       (case map_of (rev kvs) k of None \<Rightarrow> mapLookup b m k | Some v \<Rightarrow> Some v)"
    by auto
  have "mapLookup b m k = None" for k
    unfolding mapLookup_none using m(5) by (auto simp: occSet_def slot_states)
  then have look: "mapLookup b m' k = map_of (rev kvs) k" for k
    using m'(3) by (simp split: option.splits)
  have "map_of (rev kvs) k = None \<longleftrightarrow> k \<notin> fst ` set kvs" for k by (simp add: map_of_eq_None_iff)
  then show ?thesis
    using m'(1,2) m(1) Map_get_lookup [OF m'(2)] Map_containsKey_lookup [OF m'(2)] look
    by (auto split: option.splits)
qed

theorem Map_put_get_witness:
  "\<exists>mp w1 mp' w'. Map_3 ID_LONG ID_LONG 4 \<lparr>answers = [], s_constructionCount = 0,
       s_constructionReported = False, MASK_CLASS = 0\<rparr> = (mp, w1) \<and>
     Map_puts (\<lambda>_. (0, [])) [(7, 70), (9, 90), (7, 71)] mp w1 = Some (mp', w') \<and>
     Map_get (\<lambda>_. (0, [])) mp' 7 = 71"
proof -
  let ?w = "\<lparr>answers = [], s_constructionCount = 0, s_constructionReported = False, MASK_CLASS = 0\<rparr>"
  obtain mp w1 where new: "Map_3 ID_LONG ID_LONG 4 ?w = (mp, w1)" by fastforce
  have scalar: "\<not> isReferenceClass ID_LONG" by code_simp
  have "willing ?w" by (simp add: willing_def)
  from Map_put_get [OF new _ this scalar, of "[(7, 70), (9, 90), (7, 71)]" "\<lambda>_. (0, [])"]
  obtain mp' w' where "Map_puts (\<lambda>_. (0, [])) [(7, 70), (9, 90), (7, 71)] mp w1 = Some (mp', w')"
    "Map_get (\<lambda>_. (0, [])) mp' 7 = 71"
    by auto
  then show ?thesis using new by blast
qed

section \<open>Any table with a free slot\<close>

text \<open>
C17: On a well-formed table with an empty slot, whatever the allocator answers and whatever the
key class, \<open>put\<close> returns and changes the map at exactly the keys that match the one put;
\<open>remove\<close> answers with the value it drops and forgets exactly the matching keys; both leave the
table well formed and \<open>get\<close> reads the map the table stands for.
\<close>

theorem Map_put_remove:
  assumes "mapWf b m" "mapRoom m" "capacity (mapBase m) \<le> 1073741824"
  shows "(\<exists>m1 w1. Map_put b (Some m) k v w = Some (Some m1, w1) \<and> mapWf b m1 \<and>
      (\<forall>x. Map_get b (Some m1) x =
        (if keyMatch b (elementClass (mapBase m)) k x then v else Map_get b (Some m) x))) \<and>
    (\<exists>m2. Map_remove b (Some m) k = (Map_get b (Some m) k, Some m2) \<and> mapWf b m2 \<and>
      (\<forall>x. Map_get b (Some m2) x =
        (if keyMatch b (elementClass (mapBase m)) k x then 0 else Map_get b (Some m) x)))"
proof -
  from Map_put_lookup [OF assms(1,2), of k v w] assms(3) obtain m1 w1 where
    "Map_put b (Some m) k v w = Some (Some m1, w1)" "mapWf b m1"
    "\<forall>x. mapLookup b m1 x = (if keyMatch b (elementClass (mapBase m)) k x then Some v
       else mapLookup b m x)" by blast
  moreover from Map_remove_lookup [OF assms(1), of k] obtain m2 where
    "Map_remove b (Some m) k = ((case mapLookup b m k of None \<Rightarrow> 0 | Some v \<Rightarrow> v), Some m2)"
    "mapWf b m2" "\<forall>x. mapLookup b m2 x = (if keyMatch b (elementClass (mapBase m)) k x then None
       else mapLookup b m x)" by blast
  ultimately show ?thesis
    using Map_get_lookup assms(1) by auto
qed

text \<open>A table of four slots, one of them occupied.\<close>

definition smallMap :: Map where
  "smallMap =
     \<lparr>mapBase = \<lparr>typeId = TYPE_MAP, activeCount = 1, elementClass = ID_LONG, stride = 2,
        capacity = 4, head = 0, data = [], exhaustionCount = 0, exhaustionReported = False\<rparr>,
      mapSlots = [\<lparr>mkey = 1, mval = 10, mhash = Hash_murmur3Mix64 1, mstate = 1\<rparr>,
        emptyMapSlot, emptyMapSlot, emptyMapSlot]\<rparr>"

lemma smallMap_wf: "mapWf (\<lambda>_. (0, [])) smallMap"
proof -
  have h: "unat (computeHash (\<lambda>_. (0, [])) ID_LONG 1) mod Suc (Suc (Suc (Suc 0))) = 0" by code_simp
  have pow2: "pow2 (Suc (Suc (Suc (Suc 0))))" unfolding pow2_def by (intro exI [of _ 2]) simp
  have hash: "Hash_murmur3Mix64 1 = computeHash (\<lambda>_. (0, [])) ID_LONG 1"
    by (simp add: computeHash_def isReferenceClass_def class_ids)
  have "occSet mstate (mapSlots smallMap) = {mapSlots smallMap ! 0}"
    by (auto simp: occSet_def smallMap_def emptyMapSlot_def slot_states)
  then show ?thesis
    using h pow2 hash
    by (simp add: mapWf_def mapTable_def tableWf_def smallMap_def All_less_Suc2 Ex_less_Suc2
        chained_def emptyMapSlot_def slot_states)
qed

theorem Map_put_remove_witness:
  "(\<exists>m1 w1. Map_put (\<lambda>_. (0, [])) (Some smallMap) 7 70 \<lparr>answers = [None], s_constructionCount = 0,
       s_constructionReported = False, MASK_CLASS = 0\<rparr> = Some (Some m1, w1) \<and>
       Map_get (\<lambda>_. (0, [])) (Some m1) 7 = 70)"
proof -
  have "mapRoom smallMap" "capacity (mapBase smallMap) \<le> 1073741824"
    by (simp_all add: mapRoom_def smallMap_def emptyMapSlot_def)
  from Map_put_remove [OF smallMap_wf this, of 7 70] show ?thesis
    using keyMatch_refl by fastforce
qed

section \<open>Tombstones\<close>

text \<open>Put each key and remove it again, in order.\<close>

primrec Map_churn ::
    "blocks \<Rightarrow> u64 list \<Rightarrow> Map option \<times> World \<Rightarrow> (Map option \<times> World) option" where
  "Map_churn b [] r = Some r"
| "Map_churn b (k # ks) r =
     (case Map_put b (fst r) k 1 (snd r) of
        None \<Rightarrow> None
      | Some r1 \<Rightarrow> Map_churn b ks (snd (Map_remove b (fst r1) k), snd r1))"

definition calmWorld :: World where
  "calmWorld = \<lparr>answers = [], s_constructionCount = 0, s_constructionReported = False,
     MASK_CLASS = 0\<rparr>"

definition tombMap :: Map where
  "tombMap =
     (let tomb = \<lambda>k. \<lparr>mkey = k, mval = 1, mhash = Hash_murmur3Mix64 k, mstate = STATE_DELETED\<rparr>
      in \<lparr>mapBase = \<lparr>typeId = TYPE_MAP, activeCount = 0, elementClass = ID_LONG, stride = 2,
            capacity = 4, head = 0, data = [], exhaustionCount = 0, exhaustionReported = False\<rparr>,
          mapSlots = [tomb 1, tomb 4, tomb 3, tomb 2]\<rparr>)"

lemma churn_tombs:
  "map_option fst (Map_churn (\<lambda>_. (0, [])) [1, 4, 3, 2] (Map_3 ID_LONG ID_LONG 4 calmWorld)) =
   Some (Some tombMap)"
  by code_simp

lemma tombMap_wf: "mapWf (\<lambda>_. (0, [])) tombMap"
proof -
  have "pow2 (Suc (Suc (Suc (Suc 0))))" unfolding pow2_def by (intro exI [of _ 2]) simp
  moreover have "occSet mstate (mapSlots tombMap) = {}"
    by (auto simp: occSet_def tombMap_def slot_states)
  ultimately show ?thesis
    by (simp add: mapWf_def mapTable_def tableWf_def tombMap_def slot_states All_less_Suc2)
qed

text \<open>
C18: A map below its load limit whose slots are all taken, by live entries and by tombstones, never returns from
an insertion of a key that no live entry matches: the load check counts live entries only, so the table is not
grown, and the probe loop of \<open>put\<close> has nothing to stop at, whatever the allocator would answer.
\<close>

theorem Map_put_tombstone_hang:
  assumes "mapWf b m" "activeCount (mapBase m) < capacity (mapBase m) - capacity (mapBase m) div LOAD_DIVISOR"
    and "\<forall>s \<in> set (mapSlots m). mstate s \<noteq> STATE_EMPTY"
    and "\<forall>s \<in> set (mapSlots m). mstate s = STATE_OCCUPIED \<longrightarrow> \<not> keyMatch b (elementClass (mapBase m)) (mkey s) k"
  shows "Map_put b (Some m) k v w = None"
proof (rule Map_put_diverges [OF assms(1) _ _ assms(2)])
  show "\<not> mapRoom m" using assms(3) by (auto simp: mapRoom_def)
  show "mapLookup b m k = None" using assms(4) unfolding mapLookup_none by (auto simp: occSet_def)
qed

text \<open>Insertions and removals reach such a map: four keys put and removed leave a table of capacity four with
four tombstones and no live entry.\<close>

theorem Map_put_tombstone_hang_witness:
  "\<exists>m. map_option fst (Map_churn (\<lambda>_. (0, [])) [1, 4, 3, 2]
         (Map_3 ID_LONG ID_LONG 4 calmWorld)) = Some (Some m) \<and>
     Map_size (Some m) = 0 \<and> Map_capacity (Some m) = 4 \<and>
     (\<forall>w. Map_put (\<lambda>_. (0, [])) (Some m) 5 1 w = None)"
proof -
  have "Map_put (\<lambda>_. (0, [])) (Some tombMap) 5 1 w = None" for w
    by (rule Map_put_tombstone_hang [OF tombMap_wf]) (simp_all add: LOAD_DIVISOR_def tombMap_def slot_states)
  then show ?thesis
    using churn_tombs
    by (intro exI [of _ tombMap])
      (simp add: Map_size_def Map_capacity_def Collection_size_def Collection_capacity_def tombMap_def)
qed

section \<open>Empty blocks as keys\<close>

text \<open>
Two distinct reference keys whose blocks are empty and of one type are equal for
\<open>keysEqual\<close> but hash by address, so they never match each other in a table; as soon as no block
is empty, equality alone decides whether a slot answers for a key.
\<close>

theorem keysEqual_hash_apart:
  "(\<forall>b cls x y. isReferenceClass cls \<and> 4096 \<le> x \<and> 4096 \<le> y \<and> x \<noteq> y \<and>
      fst (b x) \<noteq> 0 \<and> b x = b y \<and> snd (b x) = [] \<longrightarrow>
      keysEqual b cls x y \<and> computeHash b cls x \<noteq> computeHash b cls y \<and> \<not> keyMatch b cls x y) \<and>
   (\<forall>b cls x y. (\<forall>p. snd (b p) \<noteq> []) \<longrightarrow> (keyMatch b cls x y \<longleftrightarrow> keysEqual b cls x y))"
proof (intro conjI allI impI)
  fix b :: blocks and cls x y
  assume a: "isReferenceClass cls \<and> 4096 \<le> x \<and> 4096 \<le> y \<and> x \<noteq> y \<and>
      fst (b x) \<noteq> 0 \<and> b x = b y \<and> snd (b x) = []"
  then have nz: "x \<noteq> 0" "y \<noteq> 0" by auto
  have "b x = (fst (b x), snd (b x))" "b y = b x" using a by simp_all
  then obtain t where blk: "b x = (t, [])" "b y = (t, [])" "t \<noteq> 0" using a by metis
  show "keysEqual b cls x y" using a nz blk by (simp add: keysEqual_def)
  show apart: "computeHash b cls x \<noteq> computeHash b cls y"
    using a nz blk mix64_inj [of x y] by (simp add: computeHash_def)
  then show "\<not> keyMatch b cls x y" by (simp add: keyMatch_def)
next
  fix b :: blocks and cls x y
  assume "\<forall>p. snd (b p) \<noteq> []"
  then show "keyMatch b cls x y \<longleftrightarrow> keysEqual b cls x y" by (rule keyMatch_content)
qed

theorem keysEqual_hash_apart_witness:
  "keysEqual (\<lambda>_. (5, [])) ID_STRING 4096 8192 \<and>
   computeHash (\<lambda>_. (5, [])) ID_STRING 4096 \<noteq> computeHash (\<lambda>_. (5, [])) ID_STRING 8192"
proof -
  have "isReferenceClass ID_STRING" by code_simp
  then show ?thesis
    using keysEqual_hash_apart [THEN conjunct1, rule_format, of ID_STRING 4096 8192 "\<lambda>_. (5, [])"]
    by simp
qed

end
