(* ===== verification/Set_Container.thy ===== *)
theory Set_Container
  imports Keys List_Container Map_Container
begin

text \<open>
  \<open>src/struct/set.c\<close>: the hash set, the map's table with three-word slots.  \<open>computeHash\<close> and
  \<open>elementsEqual\<close> of this file are the same code as the map's, so the definitions of the key
  comparison are shared.  \<open>Set_toSortedList\<close> is not modelled here.
\<close>

record SetSlot =
  ekey :: u64
  ehash :: u64
  estate :: u64

record SetTable =
  setBase :: Collection
  setSlots :: "SetSlot list"

definition emptySetSlot :: SetSlot where
  "emptySetSlot = \<lparr>ekey = 0, ehash = 0, estate = STATE_EMPTY\<rparr>"

definition Set_SLOT_SIZE :: nat where "Set_SLOT_SIZE = 24"
definition Set_DEFAULT_CAPACITY :: u64 where "Set_DEFAULT_CAPACITY = 16"

definition Set_computeHash :: "blocks \<Rightarrow> u32 \<Rightarrow> u64 \<Rightarrow> u64" where
  "Set_computeHash b cls e = computeHash b cls e"

definition elementsEqual :: "blocks \<Rightarrow> u32 \<Rightarrow> u64 \<Rightarrow> u64 \<Rightarrow> bool" where
  "elementsEqual b cls e1 e2 = keysEqual b cls e1 e2"

section \<open>Operations\<close>

definition Set_2 :: "u32 \<Rightarrow> u64 \<Rightarrow> World \<Rightarrow> SetTable option \<times> World" where
  "Set_2 cls cap w =
     (let cap1 = (if cap = 0 then Set_DEFAULT_CAPACITY else highestOneBit cap);
          cap2 = unat (if cap1 < 4 then 4 else cap1);
          (granted, w1) = Memory_object w
      in if \<not> granted then (None, snd (Struct_reportConstructionExhaustion w1))
         else
           (let nbytes = wrap64 (cap2 * Set_SLOT_SIZE);
                (granted2, w2) = Memory_object w1
            in if \<not> granted2 then (None, snd (Struct_reportConstructionExhaustion w2))
               else
                 (Some \<lparr>setBase = \<lparr>typeId = TYPE_SET, activeCount = 0, elementClass = cls,
                      stride = 0, capacity = wrap32 cap2, head = 0, data = [],
                      exhaustionCount = 0, exhaustionReported = False\<rparr>,
                    setSlots = replicate (nbytes div Set_SLOT_SIZE) emptySetSlot\<rparr>, w2)))"

definition Set_1 :: "u32 \<Rightarrow> World \<Rightarrow> SetTable option \<times> World" where
  "Set_1 cls w = Set_2 cls 16 w"

definition Set_rehash :: "SetTable \<Rightarrow> nat \<Rightarrow> World \<Rightarrow> (SetTable \<times> World) option" where
  "Set_rehash m newCap w =
     (let (granted, w1) = Memory_object w
      in if \<not> granted then
           Some (m\<lparr>setBase := the (snd (Collection_reportExhaustion (Some (setBase m))))\<rparr>, w1)
         else
           (case rehashInto estate ehash (wrap64 (newCap + 18446744073709551615)) (setSlots m)
                   (replicate newCap emptySetSlot) of
              None \<Rightarrow> None
            | Some T \<Rightarrow>
                Some (m\<lparr>setBase := (setBase m)\<lparr>capacity := wrap32 newCap\<rparr>, setSlots := T\<rparr>, w1)))"

definition setHolds :: "blocks \<Rightarrow> u32 \<Rightarrow> u64 \<Rightarrow> u64 \<Rightarrow> SetSlot \<Rightarrow> bool" where
  "setHolds b cls hash e s \<longleftrightarrow> ehash s = hash \<and> elementsEqual b cls (ekey s) e"

definition setStore :: "blocks \<Rightarrow> SetTable \<Rightarrow> u64 \<Rightarrow> (bool \<times> SetTable) option" where
  "setStore b m e =
     (let c = setBase m;
          hash = Set_computeHash b (elementClass c) e;
          msk = wrap32 (capacity c + 4294967295);
          idx = unat hash AND msk
      in case probePut estate (setHolds b (elementClass c) hash e) (setSlots m) msk idx None of
           None \<Rightarrow> None
         | Some (Vacant j) \<Rightarrow>
             Some (True, m\<lparr>setSlots := (setSlots m)[j :=
                 \<lparr>ekey = e, ehash = hash, estate = STATE_OCCUPIED\<rparr>],
               setBase := c\<lparr>activeCount := wrap32 (activeCount c + 1)\<rparr>\<rparr>)
         | Some (Found j) \<Rightarrow> Some (False, m))"

definition Set_add ::
    "blocks \<Rightarrow> SetTable option \<Rightarrow> u64 \<Rightarrow> World \<Rightarrow> (bool \<times> SetTable option \<times> World) option" where
  "Set_add b st e w = (case st of
     None \<Rightarrow> Some (False, None, w)
   | Some m \<Rightarrow>
       (let c = setBase m;
            load = capacity c - capacity c div LOAD_DIVISOR
        in case (if load \<le> activeCount c then Set_rehash m (wrap32 (capacity c * 2)) w
                 else Some (m, w)) of
             None \<Rightarrow> None
           | Some (m1, w1) \<Rightarrow> map_option (\<lambda>(r, m2). (r, Some m2, w1)) (setStore b m1 e)))"

definition setSearch :: "blocks \<Rightarrow> SetTable \<Rightarrow> u64 \<Rightarrow> nat option" where
  "setSearch b m e =
     (let c = setBase m;
          hash = Set_computeHash b (elementClass c) e;
          msk = wrap32 (capacity c + 4294967295);
          idx = unat hash AND msk
      in probeFind (capacity c) estate (setHolds b (elementClass c) hash e) (setSlots m) msk idx)"

definition Set_contains :: "blocks \<Rightarrow> SetTable option \<Rightarrow> u64 \<Rightarrow> bool" where
  "Set_contains b st e = (case st of
     None \<Rightarrow> False
   | Some m \<Rightarrow>
       if capacity (setBase m) = 0 then False
       else (case setSearch b m e of None \<Rightarrow> False | Some j \<Rightarrow> True))"

definition Set_remove :: "blocks \<Rightarrow> SetTable option \<Rightarrow> u64 \<Rightarrow> bool \<times> SetTable option" where
  "Set_remove b st e = (case st of
     None \<Rightarrow> (False, None)
   | Some m \<Rightarrow>
       if capacity (setBase m) = 0 then (False, Some m)
       else
         (case setSearch b m e of
            None \<Rightarrow> (False, Some m)
          | Some j \<Rightarrow>
              (let c = setBase m
               in (True,
                   Some (m\<lparr>setSlots := (setSlots m)[j := (setSlots m ! j)\<lparr>estate := STATE_DELETED\<rparr>],
                     setBase := c\<lparr>activeCount := activeCount c - 1\<rparr>\<rparr>)))))"

text \<open>\<open>Set_toList\<close>: a list of the live count, filled in table order.\<close>

definition Set_toList ::
    "SetTable option \<Rightarrow> World \<Rightarrow> (Collection option \<times> World) option" where
  "Set_toList st w = (case st of
     None \<Rightarrow> Some (None, w)
   | Some m \<Rightarrow>
       (case List_2 (elementClass (setBase m)) (activeCount (setBase m)) w of
          (None, w1) \<Rightarrow> Some (None, w1)
        | (Some list, w1) \<Rightarrow>
            fold (\<lambda>s r. case r of None \<Rightarrow> None | Some (l, x) \<Rightarrow>
                 if estate s = STATE_OCCUPIED then List_add l (ekey s) x else Some (l, x))
               (take (capacity (setBase m)) (setSlots m)) (Some (Some list, w1))))"

definition Set_isEmpty :: "SetTable option \<Rightarrow> bool" where
  "Set_isEmpty st = Collection_isEmpty (map_option setBase st)"

definition Set_size :: "SetTable option \<Rightarrow> nat" where
  "Set_size st = Collection_size (map_option setBase st)"

definition Set_exhaustionCount :: "SetTable option \<Rightarrow> u64" where
  "Set_exhaustionCount st = Collection_exhaustionCount (map_option setBase st)"

definition Set_capacity :: "SetTable option \<Rightarrow> nat" where
  "Set_capacity st = Collection_capacity (map_option setBase st)"

definition Set_elementClassId :: "SetTable option \<Rightarrow> u32" where
  "Set_elementClassId st = Collection_elementClassId (map_option setBase st)"

definition Set_dataBuffer :: "SetTable option \<Rightarrow> SetSlot list option" where
  "Set_dataBuffer st = map_option setSlots st"

section \<open>The set a table stands for\<close>

abbreviation setTableWf :: "blocks \<Rightarrow> u32 \<Rightarrow> SetSlot list \<Rightarrow> bool" where
  "setTableWf b cls \<equiv> tableWf estate ekey ehash (computeHash b cls) (keyMatch b cls)"

definition setWf :: "blocks \<Rightarrow> SetTable \<Rightarrow> bool" where
  "setWf b m \<longleftrightarrow> setTableWf b (elementClass (setBase m)) (setSlots m) \<and>
     length (setSlots m) = capacity (setBase m) \<and>
     4 \<le> capacity (setBase m) \<and> capacity (setBase m) \<le> 2147483648 \<and>
     activeCount (setBase m) = card (occSet estate (setSlots m))"

definition setMembers :: "blocks \<Rightarrow> SetTable \<Rightarrow> u64 set" where
  "setMembers b m =
     {e. \<exists>s \<in> occSet estate (setSlots m). keyMatch b (elementClass (setBase m)) (ekey s) e}"

definition setRoom :: "SetTable \<Rightarrow> bool" where
  "setRoom m \<longleftrightarrow> (\<exists>s \<in> set (setSlots m). estate s = STATE_EMPTY)"

interpretation set_table: open_table estate ekey ehash "computeHash b cls" "keyMatch b cls" for b cls
  by (rule keyMatch_table)

lemma setWf_mask: "setWf b m \<Longrightarrow> wrap32 (capacity (setBase m) + 4294967295) = length (setSlots m) - 1"
  using mask_capacity [of "capacity (setBase m)"] by (simp add: setWf_def)

lemma setHolds_iff:
  assumes "setTableWf b cls T" "s \<in> occSet estate T"
  shows "setHolds b cls (Set_computeHash b cls e) e s \<longleftrightarrow> keyMatch b cls (ekey s) e"
proof -
  obtain i where "i < length T" "s = T ! i" "estate s = STATE_OCCUPIED"
    using assms(2) by (auto simp: occSet_def in_set_conv_nth)
  then have "ehash s = computeHash b cls (ekey s)"
    using set_table.wf_slot assms(1) by blast
  then show ?thesis by (simp add: setHolds_def keyMatch_def Set_computeHash_def elementsEqual_def)
qed

lemma setSearch_cases:
  assumes "setWf b m"
  obtains (hit) j where "setSearch b m e = Some j" "j < length (setSlots m)"
      "setSlots m ! j \<in> occSet estate (setSlots m)"
      "keyMatch b (elementClass (setBase m)) (ekey (setSlots m ! j)) e" "e \<in> setMembers b m"
  | (miss) "setSearch b m e = None" "e \<notin> setMembers b m"
proof -
  let ?cls = "elementClass (setBase m)" and ?T = "setSlots m"
  let ?matches = "setHolds b ?cls (Set_computeHash b ?cls e) e"
  have T: "setTableWf b ?cls ?T" using assms by (simp add: setWf_def)
  have m: "\<forall>s \<in> occSet estate ?T. ?matches s \<longleftrightarrow> keyMatch b ?cls (ekey s) e"
    using setHolds_iff [OF T] by blast
  have eq: "setSearch b m e = probeFind (length ?T) estate ?matches ?T (length ?T - 1)
      (unat (computeHash b ?cls e) AND (length ?T - 1))"
    using setWf_mask [OF assms] assms by (simp add: setSearch_def Let_def setWf_def Set_computeHash_def)
  show thesis
  proof (cases "setSearch b m e")
    case None
    then show thesis
      using set_table.find_none [OF T m] eq by (intro miss) (auto simp: setMembers_def)
  next
    case (Some j)
    note found = set_table.find_some [OF T m, of j]
    show thesis
      using Some eq found by (intro hit [of j]) (auto simp: setMembers_def)
  qed
qed

lemma Set_contains_iff: "setWf b m \<Longrightarrow> Set_contains b (Some m) e \<longleftrightarrow> e \<in> setMembers b m"
  by (rule setSearch_cases [of b m e]) (auto simp: Set_contains_def setWf_def)

section \<open>Insertion and removal\<close>

lemma setStore_correct:
  assumes "setWf b m" "setRoom m"
  shows "\<exists>m'. setStore b m e = Some (e \<notin> setMembers b m, m') \<and> setWf b m' \<and>
    elementClass (setBase m') = elementClass (setBase m) \<and>
    setMembers b m' = setMembers b m \<union> {x. keyMatch b (elementClass (setBase m)) e x}"
proof -
  let ?cls = "elementClass (setBase m)" and ?T = "setSlots m" and ?c = "setBase m"
  let ?matches = "setHolds b ?cls (Set_computeHash b ?cls e) e"
  have T: "setTableWf b ?cls ?T" using assms by (simp add: setWf_def)
  have m: "\<forall>s \<in> occSet estate ?T. ?matches s \<longleftrightarrow> keyMatch b ?cls (ekey s) e"
    using setHolds_iff [OF T] by blast
  have msk: "wrap32 (capacity ?c + 4294967295) = length ?T - 1" by (rule setWf_mask [OF assms(1)])
  have room: "\<exists>s \<in> set ?T. estate s = STATE_EMPTY" using assms(2) by (simp add: setRoom_def)
  from T m room show ?thesis
  proof (cases rule: set_table.put_returns)
    case (found j)
    have eq: "setStore b m e = Some (False, m)"
      using found(1) msk by (simp add: setStore_def Let_def Set_computeHash_def)
    have mem: "e \<in> setMembers b m" using found(3,4) by (auto simp: setMembers_def)
    have "{x. keyMatch b ?cls e x} \<subseteq> setMembers b m"
      using found(3) keyMatch_trans [OF found(4)] by (auto simp: setMembers_def)
    then show ?thesis using eq mem assms(1) by auto
  next
    case (vacant j)
    let ?s = "\<lparr>ekey = e, ehash = computeHash b ?cls e, estate = STATE_OCCUPIED\<rparr>"
    let ?m = "m\<lparr>setSlots := ?T[j := ?s], setBase := ?c\<lparr>activeCount := Suc (activeCount ?c)\<rparr>\<rparr>"
    have "\<forall>t \<in> occSet estate ?T. \<not> keyMatch b ?cls (ekey t) (ekey ?s)" using vacant(5) by simp
    note ins = set_table.wf_insert [OF T vacant(2,3) _ _ _ this]
    have T': "setTableWf b ?cls (?T[j := ?s])"
      and occ': "occSet estate (?T[j := ?s]) = insert ?s (occSet estate ?T)"
      using ins vacant(4) by simp_all
    have fresh: "?s \<notin> occSet estate ?T" using vacant(5) keyMatch_refl by fastforce
    have card: "activeCount ?c = card (occSet estate ?T)" using assms(1) by (simp add: setWf_def)
    have "occSet estate ?T \<subseteq> set ?T" by (auto simp: occSet_def)
    then have "card (occSet estate ?T) \<le> card (set ?T)" by (intro card_mono) simp_all
    also have "\<dots> \<le> length ?T" by (rule card_length)
    also have "\<dots> \<le> 2147483648" using assms(1) by (simp add: setWf_def)
    finally have "wrap32 (activeCount ?c + 1) = Suc (activeCount ?c)" using card by simp
    then have eq: "setStore b m e = Some (True, ?m)"
      using vacant(1) msk by (simp add: setStore_def Let_def Set_computeHash_def)
    have "card (occSet estate (?T[j := ?s])) = Suc (card (occSet estate ?T))"
      unfolding occ' using fresh by simp
    then have wf: "setWf b ?m" using assms(1) T' by (simp add: setWf_def)
    have "setMembers b ?m = setMembers b m \<union> {x. keyMatch b ?cls e x}"
      by (auto simp: setMembers_def occ')
    moreover have "e \<notin> setMembers b m" using vacant(5) by (simp add: setMembers_def)
    ultimately show ?thesis using eq wf by auto
  qed
qed

lemma Set_rehash_cases:
  assumes "setWf b m" "capacity (setBase m) \<le> 1073741824"
  obtains (grown) m' w' where "Set_rehash m (wrap32 (capacity (setBase m) * 2)) w = Some (m', w')"
      "setWf b m'" "setRoom m'" "setMembers b m' = setMembers b m"
      "elementClass (setBase m') = elementClass (setBase m)"
  | (refused) m' w' where "Set_rehash m (wrap32 (capacity (setBase m) * 2)) w = Some (m', w')"
      "setWf b m'" "setSlots m' = setSlots m" "setMembers b m' = setMembers b m"
      "elementClass (setBase m') = elementClass (setBase m)" "\<not> willing w"
proof -
  let ?T = "setSlots m" and ?cls = "elementClass (setBase m)" and ?n = "capacity (setBase m) * 2"
  have n: "wrap32 ?n = ?n" using assms(2) by simp
  have T: "setTableWf b ?cls ?T" using assms(1) by (simp add: setWf_def)
  have cap: "length ?T = capacity (setBase m)" "4 \<le> capacity (setBase m)"
    using assms(1) by (auto simp: setWf_def)
  obtain g w1 where g: "Memory_object w = (g, w1)" by fastforce
  show thesis
  proof (cases g)
    case False
    let ?m = "m\<lparr>setBase := (setBase m)\<lparr>exhaustionCount := exhaustionCount (setBase m) + 1,
      exhaustionReported := True\<rparr>\<rparr>"
    have "Set_rehash m (wrap32 ?n) w = Some (?m, w1)" using g False by (simp add: Set_rehash_def)
    moreover have "\<not> willing w" using Memory_object_willing g False by blast
    ultimately show thesis using assms(1)
      by (intro refused [of ?m w1]) (simp_all add: setWf_def setMembers_def)
  next
    case True
    let ?E = "replicate ?n emptySetSlot"
    obtain p where p: "p \<le> 32" "length ?T = 2 ^ p"
      using set_table.wf_pow2 [OF T] by (auto simp: pow2_def)
    have "p \<noteq> 32" using p(2) cap(1) assms(2) by auto
    then have p2: "pow2 ?n" using p cap(1) unfolding pow2_def by (intro exI [of _ "Suc p"]) simp
    have E: "setTableWf b ?cls ?E"
      using p2 by (simp add: tableWf_def emptySetSlot_def slot_states)
    have occE: "occSet estate ?E = {}" by (auto simp: occSet_def emptySetSlot_def slot_states)
    have hashes: "ehash s = computeHash b ?cls (ekey s)" if "s \<in> occSet estate ?T" for s
      using that set_table.wf_slot [OF T] by (auto simp: occSet_def in_set_conv_nth)
    have few: "length (filter (\<lambda>s. estate s = STATE_OCCUPIED) ?T) \<le> capacity (setBase m)"
      using cap(1) length_filter_le by metis
    have "wrap64 (?n + 18446744073709551615) = length ?E - 1"
    proof -
      have "?n + 18446744073709551615 = (?n - 1) + 18446744073709551616" using cap(2) by simp
      moreover have "?n - 1 < 18446744073709551616" using assms(2) by simp
      ultimately show ?thesis by (simp only: wrap64_def mod_add_self2 mod_less length_replicate)
    qed
    moreover have "\<exists>T'. rehashInto estate ehash (length ?E - 1) ?T ?E = Some T' \<and>
        length T' = length ?E \<and> setTableWf b ?cls T' \<and>
        occSet estate T' = occSet estate ?E \<union> occSet estate ?T \<and>
        (\<forall>t \<in> set T'. estate t \<in> {STATE_EMPTY, STATE_OCCUPIED})"
      by (rule set_table.rehash_returns [OF E])
        (use few cap occE hashes set_table.wf_distinct [OF T] set_table.occ_unique [OF T]
          in \<open>auto simp: emptySetSlot_def slot_states\<close>)
    ultimately obtain T' where T': "rehashInto estate ehash (wrap64 (?n + 18446744073709551615)) ?T ?E = Some T'"
      "length T' = ?n" "setTableWf b ?cls T'" "occSet estate T' = occSet estate ?T"
      "\<forall>t \<in> set T'. estate t \<in> {STATE_EMPTY, STATE_OCCUPIED}"
      using occE by auto
    let ?m = "m\<lparr>setBase := (setBase m)\<lparr>capacity := ?n\<rparr>, setSlots := T'\<rparr>"
    have eq: "Set_rehash m (wrap32 ?n) w = Some (?m, w1)"
      using g True T'(1) n by (simp add: Set_rehash_def)
    have wf': "setWf b ?m" using assms T' cap by (simp add: setWf_def)
    have "card (occSet estate T') < length T'"
      using few T'(2,4) cap set_table.wf_distinct(2) [OF T] by simp
    then obtain i where i: "i < length T'" "estate (T' ! i) \<noteq> STATE_OCCUPIED"
      using set_table.occ_card_full [OF T'(3)] by blast
    then have "T' ! i \<in> set T'" "estate (T' ! i) = STATE_EMPTY" using T'(5) by auto
    then have room: "setRoom ?m" by (auto simp: setRoom_def)
    have "setMembers b ?m = setMembers b m" by (simp add: setMembers_def T'(4))
    then show thesis by (intro grown [OF eq wf' room]) simp_all
  qed
qed

text \<open>
C19: On a well-formed set with an empty slot, whatever the allocator answers, \<open>add\<close> returns and
says whether the element is new, the set then has exactly the elements that match it besides
those it had; \<open>remove\<close> says whether the element was there and drops exactly the matching ones;
both leave the table well formed and \<open>contains\<close> decides membership.
\<close>

theorem Set_add_remove:
  assumes "setWf b m" "setRoom m" "capacity (setBase m) \<le> 1073741824"
  shows "(\<exists>m1 w1. Set_add b (Some m) e w = Some (\<not> Set_contains b (Some m) e, Some m1, w1) \<and>
      setWf b m1 \<and>
      (\<forall>x. Set_contains b (Some m1) x \<longleftrightarrow>
        keyMatch b (elementClass (setBase m)) e x \<or> Set_contains b (Some m) x)) \<and>
    (\<exists>m2. Set_remove b (Some m) e = (Set_contains b (Some m) e, Some m2) \<and> setWf b m2 \<and>
      (\<forall>x. Set_contains b (Some m2) x \<longleftrightarrow>
        \<not> keyMatch b (elementClass (setBase m)) e x \<and> Set_contains b (Some m) x))"
proof (intro conjI)
  let ?load = "capacity (setBase m) - capacity (setBase m) div LOAD_DIVISOR"
  obtain m1 w1 where r: "(if ?load \<le> activeCount (setBase m)
      then Set_rehash m (wrap32 (capacity (setBase m) * 2)) w else Some (m, w)) = Some (m1, w1)"
    and m1: "setWf b m1" "setRoom m1" "setMembers b m1 = setMembers b m"
      "elementClass (setBase m1) = elementClass (setBase m)"
  proof (cases "?load \<le> activeCount (setBase m)")
    case True
    from assms(1,3) show thesis
    proof (cases rule: Set_rehash_cases [where w = w])
      case (grown m' w')
      then show thesis using True by (intro that [of m' w']) auto
    next
      case (refused m' w')
      then show thesis using True assms(2) by (intro that [of m' w']) (auto simp: setRoom_def)
    qed
  next
    case False
    then show thesis using assms by (intro that [of m w]) auto
  qed
  from setStore_correct [OF m1(1,2), of e] obtain m' where m': "setWf b m'"
    "setStore b m1 e = Some (e \<notin> setMembers b m1, m')"
    "setMembers b m' = setMembers b m1 \<union> {x. keyMatch b (elementClass (setBase m1)) e x}" by blast
  have "Set_add b (Some m) e w = Some (\<not> Set_contains b (Some m) e, Some m', w1)"
    unfolding Set_add_def Let_def option.case r
    using m'(2) m1(3) Set_contains_iff [OF assms(1)] by simp
  then show "\<exists>m1 w1. Set_add b (Some m) e w = Some (\<not> Set_contains b (Some m) e, Some m1, w1) \<and>
      setWf b m1 \<and> (\<forall>x. Set_contains b (Some m1) x \<longleftrightarrow>
        keyMatch b (elementClass (setBase m)) e x \<or> Set_contains b (Some m) x)"
    using m' m1(3,4) Set_contains_iff [OF m'(1)] Set_contains_iff [OF assms(1)] by auto
next
  show "\<exists>m2. Set_remove b (Some m) e = (Set_contains b (Some m) e, Some m2) \<and> setWf b m2 \<and>
      (\<forall>x. Set_contains b (Some m2) x \<longleftrightarrow>
        \<not> keyMatch b (elementClass (setBase m)) e x \<and> Set_contains b (Some m) x)"
    using assms(1)
  proof (cases rule: setSearch_cases [where e = e])
    case miss
    have "x \<notin> setMembers b m" if "keyMatch b (elementClass (setBase m)) e x" for x
      using miss(2) keyMatch_trans [OF _ keyMatch_sym [OF that]] by (auto simp: setMembers_def)
    then show ?thesis
      using assms(1) miss Set_contains_iff [OF assms(1)] by (auto simp: Set_remove_def setWf_def)
  next
    case (hit j)
    let ?cls = "elementClass (setBase m)" and ?T = "setSlots m" and ?c = "setBase m"
    let ?s = "(?T ! j)\<lparr>estate := STATE_DELETED\<rparr>"
    let ?m = "m\<lparr>setSlots := ?T[j := ?s], setBase := ?c\<lparr>activeCount := activeCount ?c - 1\<rparr>\<rparr>"
    have T: "setTableWf b ?cls ?T" using assms by (simp add: setWf_def)
    have occ: "estate (?T ! j) = STATE_OCCUPIED" using hit(3) by (simp add: occSet_def)
    have T': "setTableWf b ?cls (?T[j := ?s])"
      by (rule set_table.wf_rewrite [OF T hit(2) occ]) simp
    have occ': "occSet estate (?T[j := ?s]) = occSet estate ?T - {?T ! j}"
      using set_table.occ_update [OF T hit(2), of ?s] occ by (simp add: slot_states)
    have eq: "Set_remove b (Some m) e = (True, Some ?m)"
      using hit(1) assms by (simp add: Set_remove_def Let_def setWf_def)
    have "card (occSet estate (?T[j := ?s])) = card (occSet estate ?T) - 1"
      unfolding occ' by (rule card_Diff_singleton [OF hit(3)])
    then have wf': "setWf b ?m" using assms(1) T' by (simp add: setWf_def)
    have gone: "keyMatch b ?cls e x \<Longrightarrow> s \<in> occSet estate ?T \<Longrightarrow> keyMatch b ?cls (ekey s) x \<Longrightarrow>
        s = ?T ! j" for s x
      using set_table.occ_eq_unique [OF T _ hit(3) _ hit(4), of s]
        keyMatch_trans [OF _ keyMatch_sym] by blast
    have kept: "keyMatch b ?cls (ekey (?T ! j)) x \<Longrightarrow> keyMatch b ?cls e x" for x
      using keyMatch_trans [OF keyMatch_sym [OF hit(4)]] by blast
    have "setMembers b ?m = setMembers b m - {x. keyMatch b ?cls e x}"
      using gone kept by (auto simp: setMembers_def occ')
    then show ?thesis
      using eq wf' hit(5) Set_contains_iff [OF wf'] Set_contains_iff [OF assms(1)] by auto
  qed
qed

text \<open>A set with one member: the hypotheses can hold.\<close>

definition smallSet :: SetTable where
  "smallSet =
     \<lparr>setBase = \<lparr>typeId = TYPE_SET, activeCount = 1, elementClass = ID_LONG, stride = 2,
        capacity = 4, head = 0, data = [], exhaustionCount = 0, exhaustionReported = False\<rparr>,
      setSlots = [\<lparr>ekey = 1, ehash = Hash_murmur3Mix64 1, estate = 1\<rparr>,
        emptySetSlot, emptySetSlot, emptySetSlot]\<rparr>"

lemma smallSet_wf: "setWf (\<lambda>_. (0, [])) smallSet"
proof -
  have h: "unat (computeHash (\<lambda>_. (0, [])) ID_LONG 1) mod Suc (Suc (Suc (Suc 0))) = 0" by code_simp
  have pow2: "pow2 (Suc (Suc (Suc (Suc 0))))" unfolding pow2_def by (intro exI [of _ 2]) simp
  have hash: "Hash_murmur3Mix64 1 = computeHash (\<lambda>_. (0, [])) ID_LONG 1"
    by (simp add: computeHash_def isReferenceClass_def class_ids)
  have "occSet estate (setSlots smallSet) = {setSlots smallSet ! 0}"
    by (auto simp: occSet_def smallSet_def emptySetSlot_def slot_states)
  then show ?thesis
    using h pow2 hash
    by (simp add: setWf_def tableWf_def smallSet_def All_less_Suc2 Ex_less_Suc2
        chained_def emptySetSlot_def slot_states)
qed

theorem Set_add_remove_witness:
  "\<exists>m1 w1. Set_add (\<lambda>_. (0, [])) (Some smallSet) 7 \<lparr>answers = [None], s_constructionCount = 0,
       s_constructionReported = False, MASK_CLASS = 0\<rparr> = Some (True, Some m1, w1) \<and>
     Set_contains (\<lambda>_. (0, [])) (Some m1) 7"
proof -
  have room: "setRoom smallSet" "capacity (setBase smallSet) \<le> 1073741824"
    by (simp_all add: setRoom_def smallSet_def emptySetSlot_def)
  have "\<not> Set_contains (\<lambda>_. (0, [])) (Some smallSet) 7" by code_simp
  with Set_add_remove [OF smallSet_wf room, of 7] show ?thesis
    using keyMatch_refl by fastforce
qed

end
