(* ===== verification/Stack.thy ===== *)
theory Stack
  imports Collection Sequences Try
begin

text \<open>
  \<open>src/struct/stack.c\<close>: a growing stack over the shared header.  Every operation of the file
  is here except the release of the two blocks; the abstraction is the list of live slots.
\<close>

section \<open>Construction\<close>

definition Stack_DEFAULT_CAPACITY :: nat where
  "Stack_DEFAULT_CAPACITY = 1024"

definition Stack_instant :: "u32 \<Rightarrow> nat \<Rightarrow> nat \<Rightarrow> World \<Rightarrow> Collection option \<times> World" where
  "Stack_instant cls cap count w =
     newCollection TYPE_STACK cls
       (if cap < Stack_DEFAULT_CAPACITY then Stack_DEFAULT_CAPACITY else cap) count w"

definition Stack_2 :: "u32 \<Rightarrow> nat \<Rightarrow> World \<Rightarrow> Collection option \<times> World" where
  "Stack_2 cls cap w = Stack_instant cls cap 0 w"

definition Stack_2Count :: "u32 \<Rightarrow> nat \<Rightarrow> World \<Rightarrow> Collection option \<times> World" where
  "Stack_2Count cls count w = Stack_instant cls count count w"

definition Stack_1 :: "u32 \<Rightarrow> World \<Rightarrow> Collection option \<times> World" where
  "Stack_1 cls w = Stack_2 cls 16 w"

section \<open>Operations\<close>

text \<open>
  The branch taken when the stack is full: double (the product is 64 bits wide), or name the
  reason for refusing.
\<close>

definition Stack_grow ::
    "Collection \<Rightarrow> World \<Rightarrow> (TryCode \<times> Collection + Collection) \<times> World" where
  "Stack_grow c w =
     (let newCap = (if capacity c \<noteq> 0 then capacity c * 2 else Stack_DEFAULT_CAPACITY)
      in if UINT32_MAX < newCap then (Inl (TRY_OVERFLOW, c), w)
         else
           (case Memory_bytes (wrap64 (newCap * stride c)) w of
              (None, w1) \<Rightarrow>
                (Inl (TRY_NO_MEMORY, the (snd (Collection_reportExhaustion (Some c)))), w1)
            | (Some buf, w1) \<Rightarrow> (Inr (adoptBuffer c buf newCap), w1)))"

definition Stack_pushTry ::
    "Collection option \<Rightarrow> u64 \<Rightarrow> World \<Rightarrow> TryValue \<times> Collection option \<times> World" where
  "Stack_pushTry stack v w = (case stack of
     None \<Rightarrow> (TryValue_error TRY_NULL_ARG, None, w)
   | Some c \<Rightarrow>
       (case (if capacity c \<le> activeCount c then Stack_grow c w else (Inr c, w)) of
          (Inl (code, c1), w1) \<Rightarrow> (TryValue_error code, Some c1, w1)
        | (Inr c1, w1) \<Rightarrow> (TryValue_ok v, appendSlot c1 v, w1)))"

definition Stack_push ::
    "Collection option \<Rightarrow> u64 \<Rightarrow> World \<Rightarrow> Collection option \<times> World" where
  "Stack_push stack v w = snd (Stack_pushTry stack v w)"

definition Stack_pop :: "Collection option \<Rightarrow> u64 \<times> Collection option" where
  "Stack_pop stack = (case stack of
     None \<Rightarrow> (0, None)
   | Some c \<Rightarrow>
       if activeCount c = 0 then (0, Some c)
       else
         (let c1 = c\<lparr>activeCount := activeCount c - 1\<rparr>
          in (Collection_readSlot (Some c1) (activeCount c1), Some c1)))"

definition Stack_peek :: "Collection option \<Rightarrow> u64" where
  "Stack_peek stack = (case stack of
     None \<Rightarrow> 0
   | Some c \<Rightarrow>
       if activeCount c = 0 then 0 else Collection_readSlot (Some c) (activeCount c - 1))"

text \<open>The address of a slot is its byte offset in the buffer; \<open>None\<close> is the null pointer.\<close>

definition Stack_slot :: "Collection option \<Rightarrow> nat \<Rightarrow> nat option" where
  "Stack_slot stack index = (case stack of
     None \<Rightarrow> None
   | Some c \<Rightarrow> if activeCount c \<le> index then None else Some (index * stride c))"

definition Stack_isEmpty :: "Collection option \<Rightarrow> bool" where
  "Stack_isEmpty stack = Collection_isEmpty stack"

definition Stack_size :: "Collection option \<Rightarrow> nat" where
  "Stack_size stack = Collection_size stack"

definition Stack_exhaustionCount :: "Collection option \<Rightarrow> u64" where
  "Stack_exhaustionCount stack = Collection_exhaustionCount stack"

definition Stack_length :: "Collection option \<Rightarrow> nat" where
  "Stack_length stack = Collection_length stack"

definition Stack_capacity :: "Collection option \<Rightarrow> nat" where
  "Stack_capacity stack = Collection_capacity stack"

definition Stack_elementClassId :: "Collection option \<Rightarrow> u32" where
  "Stack_elementClassId stack = Collection_elementClassId stack"

definition Stack_stride :: "Collection option \<Rightarrow> nat" where
  "Stack_stride stack = Collection_stride stack"

definition Stack_dataBuffer :: "Collection option \<Rightarrow> u8 list option" where
  "Stack_dataBuffer stack = Collection_dataBuffer stack"

section \<open>The stack as a list\<close>

lemma Stack_grow_cases:
  assumes "collWf c" "activeCount c = capacity c" "0 < elementRoom c" "Stack_grow c w = (r, w')"
  shows "(\<exists>c1. r = Inr c1 \<and> collWf c1 \<and> liveSlots c1 = liveSlots c \<and> stride c1 = stride c \<and>
      activeCount c1 = activeCount c \<and> activeCount c1 < capacity c1 \<and>
      exhaustionCount c1 = exhaustionCount c \<and> (willing w \<longrightarrow> willing w')) \<or>
    (r = Inl (TRY_NO_MEMORY, c\<lparr>exhaustionCount := exhaustionCount c + 1, exhaustionReported := True\<rparr>)
      \<and> \<not> willing w)"
proof -
  define n where "n = (if capacity c \<noteq> 0 then capacity c * 2 else Stack_DEFAULT_CAPACITY)"
  have cap: "capacity c < 1073741824"
    using assms(2,3) limit_less by (simp add: elementRoom_def)
  then have n: "n < 4294967296" "activeCount c \<le> n" "capacity c < n"
    using assms(2) by (auto simp: n_def Stack_DEFAULT_CAPACITY_def)
  obtain b w1 where b: "Memory_bytes (wrap64 (n * stride c)) w = (b, w1)" by fastforce
  have eq: "(r, w') = (case b of
      None \<Rightarrow> (Inl (TRY_NO_MEMORY, c\<lparr>exhaustionCount := exhaustionCount c + 1,
        exhaustionReported := True\<rparr>), w1)
    | Some buf \<Rightarrow> (Inr (adoptBuffer c buf n), w1))"
    using assms(4) b n(1) unfolding Stack_grow_def Let_def n_def [symmetric]
    by (simp split: option.splits)
  from grow_outcome [OF assms(1) n(2,1) b] show ?thesis
    using eq n(1,3) assms(2) by auto
qed

lemma Stack_push_cases:
  assumes "linearInv h" "0 < handleRoom h" "Stack_push h v w = (h', w')"
  shows "linearInv h' \<and> handleKeep h' = handleKeep h \<and>
    (linearElems h' = linearElems h @ [handleKeep h v] \<and> handleRoom h' = handleRoom h - 1 \<and>
       Stack_exhaustionCount h' = Stack_exhaustionCount h \<and> (willing w \<longrightarrow> willing w') \<or>
     linearElems h' = linearElems h \<and> handleRoom h' = handleRoom h \<and>
       Stack_exhaustionCount h' = Stack_exhaustionCount h + 1 \<and> \<not> willing w)"
proof -
  obtain c where c: "h = Some c" "collWf c" using assms(1) by (auto simp: linearInv_iff)
  have room: "0 < elementRoom c" using assms(2) c by (simp add: handleRoom_def)
  obtain r w1 where r: "(if capacity c \<le> activeCount c then Stack_grow c w else (Inr c, w)) = (r, w1)"
    by fastforce
  have step: "(\<exists>c1. r = Inr c1 \<and> collWf c1 \<and> liveSlots c1 = liveSlots c \<and> stride c1 = stride c \<and>
      activeCount c1 = activeCount c \<and> activeCount c1 < capacity c1 \<and>
      exhaustionCount c1 = exhaustionCount c \<and> (willing w \<longrightarrow> willing w1)) \<or>
    (r = Inl (TRY_NO_MEMORY, c\<lparr>exhaustionCount := exhaustionCount c + 1, exhaustionReported := True\<rparr>)
      \<and> \<not> willing w)"
    using r c Stack_grow_cases [OF c(2) _ room, of w r w1]
    by (auto simp: collWf_def split: if_splits)
  then show ?thesis
  proof (elim disjE exE conjE)
    fix c1 assume c1: "r = Inr c1" "collWf c1" "liveSlots c1 = liveSlots c" "stride c1 = stride c"
      "activeCount c1 = activeCount c" "activeCount c1 < capacity c1"
      "exhaustionCount c1 = exhaustionCount c" "willing w \<longrightarrow> willing w1"
    have "Suc (activeCount c1) * stride c1 < 4294967296"
      using limit_bytes(1) [of "activeCount c1" "stride c1"] room c1(4,5)
      by (simp add: elementRoom_def)
    from appendSlot_wf [OF c1(2,6) this, of v] obtain c2 where c2: "appendSlot c1 v = Some c2"
      "collWf c2" "liveSlots c2 = liveSlots c1 @ [slotValue (stride c1) v]" "stride c2 = stride c1"
      "activeCount c2 = Suc (activeCount c1)" "exhaustionCount c2 = exhaustionCount c1"
      by metis
    have "h' = Some c2" "w' = w1"
      using assms(3) c r c1(1) c2(1) by (auto simp: Stack_push_def Stack_pushTry_def)
    then show ?thesis using c c1 c2
      by (auto simp: linearInv_def linearElems_def handleRoom_def handleKeep_def elementRoom_def
          Stack_exhaustionCount_def Collection_exhaustionCount_def fun_eq_iff)
  next
    assume refused: "r = Inl (TRY_NO_MEMORY, c\<lparr>exhaustionCount := exhaustionCount c + 1,
        exhaustionReported := True\<rparr>)" "\<not> willing w"
    then have "h' = Some (c\<lparr>exhaustionCount := exhaustionCount c + 1, exhaustionReported := True\<rparr>)"
      using assms(3) c r by (auto simp: Stack_push_def Stack_pushTry_def)
    then show ?thesis using c refused(2)
      by (auto simp: linearInv_def linearElems_def handleRoom_def handleKeep_def
          Stack_exhaustionCount_def Collection_exhaustionCount_def fun_eq_iff)
  qed
qed

lemma Stack_pop_last:
  assumes "linearInv h" "linearElems h = xs @ [x]"
  shows "\<exists>h'. Stack_pop h = (x, h') \<and> linearInv h' \<and> linearElems h' = xs"
proof -
  obtain c where c: "h = Some c" "collWf c" using assms(1) by (auto simp: linearInv_iff)
  let ?n = "activeCount c - 1" let ?c = "c\<lparr>activeCount := activeCount c - 1\<rparr>"
  have live: "liveSlots c = xs @ [x]" using assms(2) c by (simp add: linearElems_def)
  then have n: "activeCount c = Suc ?n" using length_slots [of c 0 "activeCount c"] by simp
  have parts: "xs = slots c 0 ?n" "x = readSlotAt (data c) (?n * stride c) (stride c)"
    using live slots_snoc [of c 0 ?n] n by simp_all
  have wf: "collWf ?c" using c(2) by simp
  have lt: "?n < capacity ?c" using c(2) n by (auto simp: collWf_def)
  have "Stack_pop h = (x, Some ?c)"
    using c n readSlot_in [OF wf lt] parts(2) by (simp add: Stack_pop_def Let_def)
  then show ?thesis using wf parts(1) by (auto simp: linearInv_def linearElems_def)
qed

lemma Stack_pop_none: "linearInv h \<Longrightarrow> linearElems h = [] \<Longrightarrow> Stack_pop h = (0, h)"
  by (auto simp: linearInv_iff linearElems_def Stack_pop_def slots_def)

interpretation stack: lifo linearInv linearElems handleRoom handleKeep Stack_exhaustionCount
    Stack_push Stack_pop
  by unfold_locales
    (use Stack_push_cases in \<open>blast dest: Stack_push_cases intro: Stack_pop_last Stack_pop_none\<close>)+

end
