(* ===== verification/Queue.thy ===== *)
theory Queue
  imports Collection Sequences
begin

text \<open>
  \<open>src/struct/queue.c\<close>: the circular queue over the shared header.  The sums and products on the
  header's fields are 32 bits wide, as in the code.  The abstraction is the list of live values
  from the head on; the growth step, which unrolls the circle, is shared with the deque.
\<close>

section \<open>The circular buffer\<close>

text \<open>\<open>n\<close> values from physical slot \<open>h\<close> on, around the end of the buffer.\<close>

definition circSlots :: "Collection \<Rightarrow> nat \<Rightarrow> nat \<Rightarrow> u64 list" where
  "circSlots c h n =
     map (\<lambda>k. readSlotAt (data c) ((h + k) mod capacity c * stride c) (stride c)) [0 ..< n]"

abbreviation circElems :: "Collection \<Rightarrow> u64 list" where
  "circElems c \<equiv> circSlots c (head c) (activeCount c)"

definition circWf :: "Collection \<Rightarrow> bool" where
  "circWf c \<longleftrightarrow> collWf c \<and> 0 < capacity c \<and> capacity c \<le> 2147483648 \<and> head c < capacity c"

text \<open>
  \<open>ensureCapacity\<close> of the queue and of the deque: a new buffer of twice the capacity (a 32-bit
  product), the two runs of the circle copied in order, the head back at zero.
\<close>

definition circUnroll :: "Collection \<Rightarrow> u8 list \<Rightarrow> u8 list" where
  "circUnroll c buf =
     (let count = activeCount c
      in if 0 < count then
           (if head c = 0 then memcpy buf 0 (data c) 0 (count * stride c)
            else
              (let len1 = wrap32 (capacity c + 4294967296 - head c);
                   len2 = head c;
                   buf1 = memcpy buf 0 (data c) (wrap32 (head c * stride c)) (len1 * stride c)
               in memcpy buf1 (len1 * stride c) (data c) 0 (len2 * stride c)))
         else buf)"

definition circEnsure :: "Collection \<Rightarrow> World \<Rightarrow> bool \<times> Collection \<times> World" where
  "circEnsure c w =
     (if activeCount c < capacity c then (True, c, w)
      else
        (let newCap = wrap32 (capacity c * 2)
         in case Memory_bytes (newCap * stride c) w of
              (None, w1) \<Rightarrow> (False, the (snd (Collection_reportExhaustion (Some c))), w1)
            | (Some buf, w1) \<Rightarrow>
                (True, c\<lparr>data := circUnroll c buf, capacity := wrap32 newCap, head := 0\<rparr>, w1)))"

section \<open>Operations of the queue\<close>

definition Queue_DEFAULT_CAPACITY :: nat where
  "Queue_DEFAULT_CAPACITY = 1024"

definition Queue_instant :: "u32 \<Rightarrow> nat \<Rightarrow> nat \<Rightarrow> World \<Rightarrow> Collection option \<times> World" where
  "Queue_instant cls cap count w =
     newCollection TYPE_QUEUE cls
       (if cap < Queue_DEFAULT_CAPACITY then Queue_DEFAULT_CAPACITY else cap) count w"

definition Queue_ensureCapacity :: "Collection \<Rightarrow> World \<Rightarrow> bool \<times> Collection \<times> World" where
  "Queue_ensureCapacity c w = circEnsure c w"

definition Queue_2 :: "u32 \<Rightarrow> nat \<Rightarrow> World \<Rightarrow> Collection option \<times> World" where
  "Queue_2 cls cap w = Queue_instant cls cap 0 w"

definition Queue_2Count :: "u32 \<Rightarrow> nat \<Rightarrow> World \<Rightarrow> Collection option \<times> World" where
  "Queue_2Count cls count w = Queue_instant cls count count w"

definition Queue_1 :: "u32 \<Rightarrow> World \<Rightarrow> Collection option \<times> World" where
  "Queue_1 cls w = Queue_2 cls 16 w"

text \<open>Write at the tail and count, the step the queue and the deque share.\<close>

definition circAppend :: "Collection \<Rightarrow> u64 \<Rightarrow> Collection option" where
  "circAppend c v =
     (let tail = wrap32 (head c + activeCount c) mod capacity c
      in map_option (\<lambda>c1. c1\<lparr>activeCount := wrap32 (activeCount c1 + 1)\<rparr>)
           (Collection_writeSlot (Some c) tail v))"

text \<open>Read at the head and advance it.\<close>

definition circTake :: "Collection \<Rightarrow> u64 \<times> Collection" where
  "circTake c =
     (let v = Collection_readSlot (Some c) (head c);
          c1 = c\<lparr>head := wrap32 (head c + 1) mod capacity c\<rparr>
      in (v, c1\<lparr>activeCount := activeCount c1 - 1\<rparr>))"

definition Queue_push ::
    "Collection option \<Rightarrow> u64 \<Rightarrow> World \<Rightarrow> Collection option \<times> World" where
  "Queue_push queue v w = (case queue of
     None \<Rightarrow> (None, w)
   | Some c \<Rightarrow>
       (case Queue_ensureCapacity c w of
          (False, c1, w1) \<Rightarrow> (Some c1, w1)
        | (True, c1, w1) \<Rightarrow> (circAppend c1 v, w1)))"

definition Queue_pop :: "Collection option \<Rightarrow> u64 \<times> Collection option" where
  "Queue_pop queue = (case queue of
     None \<Rightarrow> (0, None)
   | Some c \<Rightarrow>
       if activeCount c = 0 then (0, Some c)
       else (let (v, c1) = circTake c in (v, Some c1)))"

definition Queue_peek :: "Collection option \<Rightarrow> u64" where
  "Queue_peek queue = (case queue of
     None \<Rightarrow> 0
   | Some c \<Rightarrow> if activeCount c = 0 then 0 else Collection_readSlot (Some c) (head c))"

definition Queue_slot :: "Collection option \<Rightarrow> nat \<Rightarrow> nat option" where
  "Queue_slot queue index = (case queue of
     None \<Rightarrow> None
   | Some c \<Rightarrow>
       if activeCount c \<le> index then None
       else Some (wrap64 (head c + index) mod capacity c * stride c))"

definition Queue_isEmpty :: "Collection option \<Rightarrow> bool" where
  "Queue_isEmpty queue = Collection_isEmpty queue"

definition Queue_size :: "Collection option \<Rightarrow> nat" where
  "Queue_size queue = Collection_size queue"

definition Queue_exhaustionCount :: "Collection option \<Rightarrow> u64" where
  "Queue_exhaustionCount queue = Collection_exhaustionCount queue"

definition Queue_length :: "Collection option \<Rightarrow> nat" where
  "Queue_length queue = Collection_length queue"

definition Queue_capacity :: "Collection option \<Rightarrow> nat" where
  "Queue_capacity queue = Collection_capacity queue"

definition Queue_elementClassId :: "Collection option \<Rightarrow> u32" where
  "Queue_elementClassId queue = Collection_elementClassId queue"

definition Queue_stride :: "Collection option \<Rightarrow> nat" where
  "Queue_stride queue = Collection_stride queue"

definition Queue_head :: "Collection option \<Rightarrow> nat" where
  "Queue_head queue = Collection_head queue"

definition Queue_dataBuffer :: "Collection option \<Rightarrow> u8 list option" where
  "Queue_dataBuffer queue = Collection_dataBuffer queue"

section \<open>Values around the circle\<close>

lemma length_circSlots [simp]: "length (circSlots c h n) = n"
  by (simp add: circSlots_def)

lemma circSlots_nth [simp]:
  "k < n \<Longrightarrow> circSlots c h n ! k =
   readSlotAt (data c) ((h + k) mod capacity c * stride c) (stride c)"
  by (simp add: circSlots_def)

lemma circSlots_0 [simp]: "circSlots c h 0 = []"
  by (simp add: circSlots_def)

lemma circSlots_snoc:
  "circSlots c h (Suc n) =
   circSlots c h n @ [readSlotAt (data c) ((h + n) mod capacity c * stride c) (stride c)]"
  by (simp add: circSlots_def)

lemma circSlots_Cons:
  "circSlots c h (Suc n) =
   readSlotAt (data c) (h mod capacity c * stride c) (stride c) #
     circSlots c (Suc h mod capacity c) n"
proof (rule nth_equalityI)
  fix k assume "k < length (circSlots c h (Suc n))"
  then have "k < Suc n" by simp
  moreover have "(Suc h mod capacity c + j) mod capacity c = Suc (h + j) mod capacity c" for j
    by (metis add_Suc mod_add_left_eq)
  ultimately show "circSlots c h (Suc n) ! k =
    (readSlotAt (data c) (h mod capacity c * stride c) (stride c) #
      circSlots c (Suc h mod capacity c) n) ! k"
    by (cases k) simp_all
qed simp

text \<open>Distinct offsets below the capacity are distinct physical slots.\<close>

lemma circ_mod_less:
  assumes "i < j" "j < n"
  shows "(h + i) mod n \<noteq> (h + j) mod (n :: nat)"
proof
  assume "(h + i) mod n = (h + j) mod n"
  then have "n dvd (h + j) - (h + i)"
    using assms(1) mod_eq_dvd_iff_nat [of "h + i" "h + j" n] by simp
  then show False using assms by (auto dest: dvd_imp_le)
qed

lemma circ_mod_inj:
  "i < n \<Longrightarrow> j < n \<Longrightarrow> i \<noteq> j \<Longrightarrow> (h + i) mod n \<noteq> (h + j) mod (n :: nat)"
  using circ_mod_less [of i j n h] circ_mod_less [of j i n h] by (cases "i < j") auto

section \<open>Appending, taking, growing\<close>

lemma circAppend_wf:
  assumes "circWf c" "activeCount c < capacity c" "Suc (activeCount c) * stride c < 4294967296"
  obtains c' where "circAppend c v = Some c'" "circWf c'"
    "circElems c' = circElems c @ [slotValue (stride c) v]" "stride c' = stride c"
    "capacity c' = capacity c" "activeCount c' = Suc (activeCount c)"
    "exhaustionCount c' = exhaustionCount c"
proof -
  let ?t = "(head c + activeCount c) mod capacity c"
  let ?d = "c\<lparr>data := writeSlotAt (data c) (?t * stride c) (stride c) v\<rparr>"
  let ?c = "?d\<lparr>activeCount := Suc (activeCount c)\<rparr>"
  have wf: "collWf c" "capacity c \<le> 2147483648" "head c < capacity c" "0 < capacity c"
    using assms(1) by (auto simp: circWf_def)
  have t: "?t < capacity c" using wf(4) by simp
  have sum: "wrap32 (head c + activeCount c) = head c + activeCount c"
    "wrap32 (activeCount c + 1) = Suc (activeCount c)"
    using wf assms(2) by simp_all
  have eq: "circAppend c v = Some ?c"
    unfolding circAppend_def sum Let_def using writeSlot_in [OF wf(1) t] sum(2) by simp
  have "circWf ?c"
    using assms wf length_write_wf [OF wf(1) t, of v] by (simp add: circWf_def collWf_def)
  moreover have "circElems ?c = circElems c @ [slotValue (stride c) v]"
  proof (rule nth_equalityI)
    fix k assume "k < length (circElems ?c)"
    then have k: "k < Suc (activeCount c)" by simp
    have io: "(head c + k) mod capacity c < capacity c" using wf(4) by simp
    have buf: "capacity c * stride c \<le> length (data c)" "strideOk (stride c)"
      using wf(1) by (auto simp: collWf_def)
    show "circElems ?c ! k = (circElems c @ [slotValue (stride c) v]) ! k"
    proof (cases "k = activeCount c")
      case True
      then show ?thesis using read_write_same [OF t buf] by (simp add: nth_append)
    next
      case False
      then have "?t \<noteq> (head c + k) mod capacity c"
        using k assms(2) circ_mod_inj [of "activeCount c" "capacity c" k "head c"] by auto
      then show ?thesis
        using k False read_write_other [OF t io _ buf] by (simp add: nth_append)
    qed
  qed simp
  ultimately show thesis using eq by (intro that [of ?c]) auto
qed

lemma circTake_wf:
  assumes "circWf c" "0 < activeCount c"
  obtains c' where "circTake c = (hd (circElems c), c')" "circWf c'"
    "circElems c' = tl (circElems c)" "stride c' = stride c" "capacity c' = capacity c"
    "activeCount c' = activeCount c - 1" "exhaustionCount c' = exhaustionCount c"
proof -
  let ?h = "Suc (head c) mod capacity c"
  let ?c = "c\<lparr>head := ?h, activeCount := activeCount c - 1\<rparr>"
  have wf: "collWf c" "capacity c \<le> 2147483648" "head c < capacity c" "0 < capacity c"
    using assms(1) by (auto simp: circWf_def)
  have sum: "wrap32 (head c + 1) = Suc (head c)" using wf by simp
  obtain n where n: "activeCount c = Suc n" using assms(2) by (cases "activeCount c") auto
  have elems: "circElems c = readSlotAt (data c) (head c * stride c) (stride c) # circSlots c ?h n"
    unfolding n circSlots_Cons using wf(3) by simp
  have eq: "circTake c = (hd (circElems c), ?c)"
    unfolding circTake_def sum Let_def elems using readSlot_in [OF wf(1,3)] by simp
  have "collWf (c\<lparr>activeCount := activeCount c - 1\<rparr>)" using wf(1) by simp
  then have "circWf ?c" using wf by (simp add: circWf_def collWf_def)
  moreover have "circElems ?c = tl (circElems c)"
    unfolding elems using n by (simp add: circSlots_def)
  ultimately show thesis using eq by (intro that [of ?c]) auto
qed

text \<open>The two runs, one after the other, are the circle in order.\<close>

lemma circUnroll_reads:
  assumes "circWf c" "activeCount c = capacity c" "capacity c * stride c \<le> length buf"
    "k < activeCount c"
  shows "readSlotAt (circUnroll c buf) (k * stride c) (stride c) = circElems c ! k"
    and "length (circUnroll c buf) = length buf"
proof -
  let ?st = "stride c" and ?h = "head c" and ?l = "capacity c - head c"
  have wf: "collWf c" "?h < capacity c" "0 < capacity c" using assms(1) by (auto simp: circWf_def)
  have st: "strideOk ?st" "capacity c * ?st \<le> length (data c)"
    "capacity c * ?st < 4294967296" using wf(1) assms(2) by (auto simp: collWf_def)
  have sum: "?l * ?st + ?h * ?st = capacity c * ?st"
    using wf(2) by (simp add: add_mult_distrib [symmetric])
  have "?h * ?st < 4294967296" using sum st(3) by linarith
  then have off: "wrap32 (?h * ?st) = ?h * ?st" by simp
  have shift: "capacity c + 4294967296 - ?h = ?l + 4294967296"
    using wf(2) by (simp only: diff_add_assoc2 less_imp_le)
  have "capacity c < 4294967296" using wf(1) by (simp add: collWf_def)
  then have "?l < 4294967296" by (rule le_less_trans [OF diff_le_self])
  then have l: "wrap32 (capacity c + 4294967296 - ?h) = ?l"
    by (simp only: wrap32_def shift mod_add_self2 mod_less)
  show "readSlotAt (circUnroll c buf) (k * ?st) ?st = circElems c ! k"
  proof (cases "?h = 0")
    case True
    have "readSlotAt (memcpy buf (0 * ?st) (data c) (0 * ?st) (capacity c * ?st)) ((0 + k) * ?st) ?st
        = readSlotAt (data c) ((0 + k) * ?st) ?st"
      by (rule read_memcpy_slots) (use assms st in auto)
    then show ?thesis using True assms(2,4) by (simp add: circUnroll_def Let_def)
  next
    case False
    let ?b1 = "memcpy buf (0 * ?st) (data c) (?h * ?st) (?l * ?st)"
    let ?b2 = "memcpy ?b1 (?l * ?st) (data c) (0 * ?st) (?h * ?st)"
    have eq: "circUnroll c buf = ?b2"
      using False assms(2) wf(3) l off by (simp add: circUnroll_def Let_def)
    have b1: "length ?b1 = length buf" using sum st assms(3) by (intro length_memcpy) auto
    show ?thesis
    proof (cases "k < ?l")
      case True
      have "readSlotAt ?b2 (k * ?st) ?st = readSlotAt ?b1 (k * ?st) ?st"
        by (rule read_memcpy_slots_other [where m = "capacity c"])
          (use True assms b1 sum st in auto)
      also have "\<dots> = readSlotAt ?b1 ((0 + k) * ?st) ?st" by simp
      also have "\<dots> = readSlotAt (data c) ((?h + k) * ?st) ?st"
        by (rule read_memcpy_slots) (use True assms sum st in auto)
      finally show ?thesis using eq True assms(4) by simp
    next
      case False
      have past: "?h + k = (k - ?l) + capacity c" "k - ?l < capacity c"
        using False assms(2,4) wf(2) by linarith+
      then have wrap: "(?h + k) mod capacity c = k - ?l"
        by (simp only: past(1) mod_add_self2 mod_less)
      have "readSlotAt ?b2 ((?l + (k - ?l)) * ?st) ?st = readSlotAt (data c) ((0 + (k - ?l)) * ?st) ?st"
        by (rule read_memcpy_slots) (use False assms b1 sum st in auto)
      then show ?thesis using eq False assms(4) wrap by simp
    qed
  qed
  show "length (circUnroll c buf) = length buf"
    using assms(2,3) wf(3) l off sum st by (auto simp: circUnroll_def Let_def)
qed

lemma circEnsure_cases:
  assumes "circWf c" "0 < elementRoom c" "circEnsure c w = (r, c1, w1)"
  shows "(r \<and> circWf c1 \<and> circElems c1 = circElems c \<and> stride c1 = stride c \<and>
      activeCount c1 = activeCount c \<and> activeCount c1 < capacity c1 \<and>
      exhaustionCount c1 = exhaustionCount c \<and> (willing w \<longrightarrow> willing w1)) \<or>
    (\<not> r \<and> c1 = c\<lparr>exhaustionCount := exhaustionCount c + 1, exhaustionReported := True\<rparr> \<and>
      \<not> willing w)"
proof (cases "activeCount c < capacity c")
  case True
  then show ?thesis using assms(1,3) by (auto simp: circEnsure_def)
next
  case False
  have wf: "collWf c" "0 < capacity c" "capacity c \<le> 2147483648" using assms(1) by (auto simp: circWf_def)
  have full: "activeCount c = capacity c" using False wf(1) by (simp add: collWf_def)
  have small: "capacity c < 1073741824"
    using assms(2) limit_less full by (simp add: elementRoom_def)
  then have n: "wrap32 (capacity c * 2) = capacity c * 2" by simp
  obtain b w2 where b: "Memory_bytes (capacity c * 2 * stride c) w = (b, w2)" by fastforce
  show ?thesis
  proof (cases b)
    case None
    then have "circEnsure c w =
        (False, c\<lparr>exhaustionCount := exhaustionCount c + 1, exhaustionReported := True\<rparr>, w2)"
      using False b unfolding circEnsure_def n Let_def by simp
    then show ?thesis using assms(3) None b Memory_bytes_willing by auto
  next
    case (Some buf)
    let ?c = "c\<lparr>data := circUnroll c buf, capacity := capacity c * 2, head := 0\<rparr>"
    have len: "length buf = capacity c * 2 * stride c" using Memory_bytes_length b Some by blast
    then have big: "capacity c * stride c \<le> length buf" by simp
    have eq: "circEnsure c w = (True, ?c, w2)"
      using False b Some n unfolding circEnsure_def Let_def by simp
    have lenU: "length (circUnroll c buf) = length buf"
      using circUnroll_reads(2) [OF assms(1) full big, of 0] full wf(2) by simp
    have "circWf ?c" using wf small len lenU by (simp add: circWf_def collWf_def)
    moreover have "circElems ?c = circElems c"
    proof (rule nth_equalityI)
      fix k assume "k < length (circElems ?c)"
      then have k: "k < activeCount c" by simp
      then show "circElems ?c ! k = circElems c ! k"
        using circUnroll_reads(1) [OF assms(1) full big k] full by simp
    qed simp
    ultimately show ?thesis
      using eq assms(3) full wf(2) b Memory_bytes_willing by auto
  qed
qed

section \<open>The queue as a list\<close>

definition circInv :: "Collection option \<Rightarrow> bool" where
  "circInv h = (case h of None \<Rightarrow> False | Some c \<Rightarrow> circWf c)"

definition circList :: "Collection option \<Rightarrow> u64 list" where
  "circList h = (case h of None \<Rightarrow> [] | Some c \<Rightarrow> circElems c)"

lemma circInv_iff: "circInv h \<longleftrightarrow> (\<exists>c. h = Some c \<and> circWf c)"
  by (simp add: circInv_def split: option.splits)

lemmas circ_views = circInv_def circList_def handleRoom_def handleKeep_def elementRoom_def
  Collection_exhaustionCount_def

lemma circWf_refused [simp]:
  "circWf (c\<lparr>exhaustionCount := a, exhaustionReported := b\<rparr>) = circWf c"
  by (simp add: circWf_def)

lemma circSlots_refused [simp]:
  "circSlots (c\<lparr>exhaustionCount := a, exhaustionReported := b\<rparr>) h n = circSlots c h n"
  by (simp add: circSlots_def)

lemma Queue_push_cases:
  assumes "circInv h" "0 < handleRoom h" "Queue_push h v w = (h', w')"
  shows "circInv h' \<and> handleKeep h' = handleKeep h \<and>
    (circList h' = circList h @ [handleKeep h v] \<and> handleRoom h' = handleRoom h - 1 \<and>
       Queue_exhaustionCount h' = Queue_exhaustionCount h \<and> (willing w \<longrightarrow> willing w') \<or>
     circList h' = circList h \<and> handleRoom h' = handleRoom h \<and>
       Queue_exhaustionCount h' = Queue_exhaustionCount h + 1 \<and> \<not> willing w)"
proof -
  obtain c where c: "h = Some c" "circWf c" using assms(1) by (auto simp: circInv_iff)
  have room: "0 < elementRoom c" using assms(2) c by (simp add: handleRoom_def)
  obtain r c1 w1 where e: "circEnsure c w = (r, c1, w1)" by (cases "circEnsure c w") auto
  from circEnsure_cases [OF c(2) room e] show ?thesis
  proof (elim disjE conjE)
    assume r: "r" and c1: "circWf c1" "circElems c1 = circElems c" "stride c1 = stride c"
      "activeCount c1 = activeCount c" "activeCount c1 < capacity c1"
      "exhaustionCount c1 = exhaustionCount c" "willing w \<longrightarrow> willing w1"
    have "Suc (activeCount c1) * stride c1 < 4294967296"
      using limit_bytes(1) [of "activeCount c1" "stride c1"] room c1(3,4)
      by (simp add: elementRoom_def)
    from circAppend_wf [OF c1(1,5) this, of v] obtain c2 where c2: "circAppend c1 v = Some c2"
      "circWf c2" "circElems c2 = circElems c1 @ [slotValue (stride c1) v]"
      "stride c2 = stride c1" "activeCount c2 = Suc (activeCount c1)"
      "exhaustionCount c2 = exhaustionCount c1"
      by metis
    have "h' = Some c2" "w' = w1"
      using assms(3) c e r c2(1) by (auto simp: Queue_push_def Queue_ensureCapacity_def)
    then show ?thesis using c c1 c2
      by (auto simp: circ_views Queue_exhaustionCount_def fun_eq_iff)
  next
    assume r: "\<not> r" "\<not> willing w"
      and c1: "c1 = c\<lparr>exhaustionCount := exhaustionCount c + 1, exhaustionReported := True\<rparr>"
    have "h' = Some c1"
      using assms(3) c e r by (auto simp: Queue_push_def Queue_ensureCapacity_def)
    then show ?thesis using c c1 r(2)
      by (auto simp: circ_views Queue_exhaustionCount_def fun_eq_iff)
  qed
qed

lemma Queue_pop_first:
  assumes "circInv h" "circList h = x # xs"
  shows "\<exists>h'. Queue_pop h = (x, h') \<and> circInv h' \<and> circList h' = xs"
proof -
  obtain c where c: "h = Some c" "circWf c" using assms(1) by (auto simp: circInv_iff)
  have elems: "circElems c = x # xs" using assms(2) c by (simp add: circList_def)
  then have pos: "0 < activeCount c" using length_circSlots [of c "head c" "activeCount c"]
    by (cases "activeCount c") simp_all
  from circTake_wf [OF c(2) pos] obtain c' where "circTake c = (hd (circElems c), c')"
    "circWf c'" "circElems c' = tl (circElems c)" by metis
  then show ?thesis using c pos elems by (simp add: Queue_pop_def circInv_def circList_def)
qed

lemma Queue_pop_none: "circInv h \<Longrightarrow> circList h = [] \<Longrightarrow> Queue_pop h = (0, h)"
  by (auto simp: circInv_iff circList_def Queue_pop_def circSlots_def)

interpretation queue: fifo circInv circList handleRoom handleKeep Queue_exhaustionCount
    Queue_push Queue_pop
  by unfold_locales (blast dest: Queue_push_cases intro: Queue_pop_first Queue_pop_none)+

end
