(* ===== verification/Deque.thy ===== *)
theory Deque
  imports Queue
begin

text \<open>
  \<open>src/struct/deque.c\<close>: both ends of the circle.  The laws of the two ends are the same two
  interfaces: seen from the back the list itself, seen from the front its reverse.
\<close>

section \<open>Operations\<close>

definition Deque_DEFAULT_CAPACITY :: nat where
  "Deque_DEFAULT_CAPACITY = 1024"

definition Deque_instant :: "u32 \<Rightarrow> nat \<Rightarrow> nat \<Rightarrow> World \<Rightarrow> Collection option \<times> World" where
  "Deque_instant cls cap count w =
     newCollection TYPE_DEQUE cls
       (if cap < Deque_DEFAULT_CAPACITY then Deque_DEFAULT_CAPACITY else cap) count w"

definition Deque_ensureCapacity :: "Collection \<Rightarrow> World \<Rightarrow> bool \<times> Collection \<times> World" where
  "Deque_ensureCapacity c w = circEnsure c w"

definition Deque_2 :: "u32 \<Rightarrow> nat \<Rightarrow> World \<Rightarrow> Collection option \<times> World" where
  "Deque_2 cls cap w = Deque_instant cls cap 0 w"

definition Deque_2Count :: "u32 \<Rightarrow> nat \<Rightarrow> World \<Rightarrow> Collection option \<times> World" where
  "Deque_2Count cls count w = Deque_instant cls count count w"

definition Deque_1 :: "u32 \<Rightarrow> World \<Rightarrow> Collection option \<times> World" where
  "Deque_1 cls w = Deque_2 cls 16 w"

text \<open>
  The step before the head, \<open>(head - 1 + capacity) % capacity\<close> on 32 bits; the store spells out
  the width switch and has no bounds check.
\<close>

definition circPrepend :: "Collection \<Rightarrow> u64 \<Rightarrow> Collection" where
  "circPrepend c v =
     (let newHead = wrap32 (head c + 4294967295 + capacity c) mod capacity c
      in c\<lparr>data := writeSlotAt (data c) (newHead * stride c) (stride c) v,
           head := wrap32 newHead, activeCount := wrap32 (activeCount c + 1)\<rparr>)"

definition Deque_addFirst ::
    "Collection option \<Rightarrow> u64 \<Rightarrow> World \<Rightarrow> Collection option \<times> World" where
  "Deque_addFirst deque v w = (case deque of
     None \<Rightarrow> (None, w)
   | Some c \<Rightarrow>
       (case Deque_ensureCapacity c w of
          (False, c1, w1) \<Rightarrow> (Some c1, w1)
        | (True, c1, w1) \<Rightarrow> (Some (circPrepend c1 v), w1)))"

definition Deque_addLast ::
    "Collection option \<Rightarrow> u64 \<Rightarrow> World \<Rightarrow> Collection option \<times> World" where
  "Deque_addLast deque v w = (case deque of
     None \<Rightarrow> (None, w)
   | Some c \<Rightarrow>
       (case Deque_ensureCapacity c w of
          (False, c1, w1) \<Rightarrow> (Some c1, w1)
        | (True, c1, w1) \<Rightarrow> (circAppend c1 v, w1)))"

definition Deque_removeFirst :: "Collection option \<Rightarrow> u64 \<times> Collection option" where
  "Deque_removeFirst deque = (case deque of
     None \<Rightarrow> (0, None)
   | Some c \<Rightarrow>
       if activeCount c = 0 then (0, Some c)
       else (let (v, c1) = circTake c in (v, Some c1)))"

text \<open>The physical slot of the last element; read only when there is one.\<close>

definition circTail :: "Collection \<Rightarrow> nat" where
  "circTail c = wrap32 (head c + activeCount c - 1) mod capacity c"

definition Deque_removeLast :: "Collection option \<Rightarrow> u64 \<times> Collection option" where
  "Deque_removeLast deque = (case deque of
     None \<Rightarrow> (0, None)
   | Some c \<Rightarrow>
       if activeCount c = 0 then (0, Some c)
       else
         (let v = Collection_readSlot (Some c) (circTail c)
          in (v, Some (c\<lparr>activeCount := activeCount c - 1\<rparr>))))"

definition Deque_peekFirst :: "Collection option \<Rightarrow> u64" where
  "Deque_peekFirst deque = (case deque of
     None \<Rightarrow> 0
   | Some c \<Rightarrow> if activeCount c = 0 then 0 else Collection_readSlot (Some c) (head c))"

definition Deque_peekLast :: "Collection option \<Rightarrow> u64" where
  "Deque_peekLast deque = (case deque of
     None \<Rightarrow> 0
   | Some c \<Rightarrow> if activeCount c = 0 then 0 else Collection_readSlot (Some c) (circTail c))"

definition Deque_get :: "Collection option \<Rightarrow> nat \<Rightarrow> u64" where
  "Deque_get deque index = (case deque of
     None \<Rightarrow> 0
   | Some c \<Rightarrow>
       if activeCount c \<le> index then 0
       else Collection_readSlot (Some c) (wrap64 (head c + index) mod capacity c))"

definition Deque_slot :: "Collection option \<Rightarrow> nat \<Rightarrow> nat option" where
  "Deque_slot deque index = (case deque of
     None \<Rightarrow> None
   | Some c \<Rightarrow>
       if activeCount c \<le> index then None
       else Some (wrap64 (head c + index) mod capacity c * stride c))"

definition Deque_isEmpty :: "Collection option \<Rightarrow> bool" where
  "Deque_isEmpty deque = Collection_isEmpty deque"

definition Deque_size :: "Collection option \<Rightarrow> nat" where
  "Deque_size deque = Collection_size deque"

definition Deque_exhaustionCount :: "Collection option \<Rightarrow> u64" where
  "Deque_exhaustionCount deque = Collection_exhaustionCount deque"

definition Deque_length :: "Collection option \<Rightarrow> nat" where
  "Deque_length deque = Collection_length deque"

definition Deque_capacity :: "Collection option \<Rightarrow> nat" where
  "Deque_capacity deque = Collection_capacity deque"

definition Deque_elementClassId :: "Collection option \<Rightarrow> u32" where
  "Deque_elementClassId deque = Collection_elementClassId deque"

definition Deque_stride :: "Collection option \<Rightarrow> nat" where
  "Deque_stride deque = Collection_stride deque"

definition Deque_head :: "Collection option \<Rightarrow> nat" where
  "Deque_head deque = Collection_head deque"

definition Deque_dataBuffer :: "Collection option \<Rightarrow> u8 list option" where
  "Deque_dataBuffer deque = Collection_dataBuffer deque"

section \<open>The ends\<close>

lemma Deque_ensureCapacity_eq: "Deque_ensureCapacity = Queue_ensureCapacity"
  by (simp add: fun_eq_iff Deque_ensureCapacity_def Queue_ensureCapacity_def)

lemma Deque_addLast_eq: "Deque_addLast = Queue_push"
  unfolding fun_eq_iff Deque_addLast_def Queue_push_def Deque_ensureCapacity_eq by simp

lemma Deque_removeFirst_eq: "Deque_removeFirst = Queue_pop"
  by (simp add: fun_eq_iff Deque_removeFirst_def Queue_pop_def)

lemma Deque_exhaustionCount_eq: "Deque_exhaustionCount = Queue_exhaustionCount"
  by (simp add: fun_eq_iff Deque_exhaustionCount_def Queue_exhaustionCount_def)

lemma circPrepend_wf:
  assumes "circWf c" "activeCount c < capacity c" "Suc (activeCount c) * stride c < 4294967296"
  shows "circWf (circPrepend c v)"
    and "circElems (circPrepend c v) = slotValue (stride c) v # circElems c"
    and "activeCount (circPrepend c v) = Suc (activeCount c)"
proof -
  let ?h = "if head c = 0 then capacity c - 1 else head c - 1"
  have wf: "collWf c" "capacity c \<le> 2147483648" "head c < capacity c" "0 < capacity c"
    using assms(1) by (auto simp: circWf_def)
  have h: "?h < capacity c" "Suc ?h mod capacity c = head c" using wf(3,4) by auto
  have "wrap32 (head c + 4294967295 + capacity c) = (if head c = 0 then capacity c - 1
      else head c - 1 + capacity c)"
  proof (cases "head c = 0")
    case True
    have "capacity c + 4294967295 = capacity c - 1 + 4294967296" using wf(4) by linarith
    moreover have "capacity c - 1 < 4294967296" using wf(2) by linarith
    ultimately have "wrap32 (capacity c + 4294967295) = capacity c - 1"
      by (simp only: wrap32_def mod_add_self2 mod_less)
    then show ?thesis using True by (simp add: add.commute)
  next
    case False
    have "head c + 4294967295 + capacity c = head c - 1 + capacity c + 4294967296"
      using False by linarith
    moreover have "head c - 1 + capacity c < 4294967296" using wf(2,3) by linarith
    ultimately show ?thesis
      using False by (simp only: wrap32_def mod_add_self2 mod_less if_False)
  qed
  then have new: "wrap32 (head c + 4294967295 + capacity c) mod capacity c = ?h"
  proof (cases "head c = 0")
    case False
    then have "head c - 1 + capacity c = head c - 1 + 1 * capacity c" "head c - 1 < capacity c"
      using wf(3) by simp_all
    then show ?thesis
      using \<open>wrap32 _ = _\<close> False by (simp only: if_False mod_mult_self1 mod_less)
  qed (use \<open>wrap32 _ = _\<close> wf(4) in simp)
  have w: "wrap32 ?h = ?h" "wrap32 (activeCount c + 1) = Suc (activeCount c)"
    using wf assms(2) by auto
  have eq: "circPrepend c v = c\<lparr>data := writeSlotAt (data c) (?h * stride c) (stride c) v,
      head := ?h, activeCount := Suc (activeCount c)\<rparr>"
    unfolding circPrepend_def new Let_def w ..
  show "circWf (circPrepend c v)" "activeCount (circPrepend c v) = Suc (activeCount c)"
    unfolding eq using assms wf h(1) length_write_wf [OF wf(1) h(1), of v]
    by (simp_all add: circWf_def collWf_def)
  have buf: "capacity c * stride c \<le> length (data c)" "strideOk (stride c)"
    using wf(1) by (auto simp: collWf_def)
  have first: "readSlotAt (data (circPrepend c v)) (?h * stride c) (stride c) = slotValue (stride c) v"
    unfolding eq using read_write_same [OF h(1) buf] by simp
  have "circSlots (circPrepend c v) (head c) (activeCount c) = circElems c"
  proof (rule nth_equalityI)
    fix k assume "k < length (circSlots (circPrepend c v) (head c) (activeCount c))"
    then have k: "k < activeCount c" by simp
    have io: "(head c + k) mod capacity c < capacity c" using wf(4) by simp
    have "?h \<noteq> (head c + k) mod capacity c"
    proof -
      have "(?h + Suc k) mod capacity c = (head c + k) mod capacity c"
        using h(2) by (metis add_Suc add_Suc_shift mod_add_left_eq)
      moreover have "(?h + 0) mod capacity c = ?h" using h(1) by simp
      ultimately show ?thesis
        using circ_mod_inj [of "Suc k" "capacity c" 0 ?h] k assms(2) wf(4) by simp
    qed
    then show "circSlots (circPrepend c v) (head c) (activeCount c) ! k = circElems c ! k"
      unfolding eq using k read_write_other [OF h(1) io _ buf] by simp
  qed simp
  then show "circElems (circPrepend c v) = slotValue (stride c) v # circElems c"
    using first h unfolding eq by (simp add: circSlots_Cons)
qed

lemma circPrepend_fields [simp]:
  "stride (circPrepend c v) = stride c" "exhaustionCount (circPrepend c v) = exhaustionCount c"
  by (simp_all add: circPrepend_def Let_def)

lemma Deque_addFirst_cases:
  assumes "circInv h" "0 < handleRoom h" "Deque_addFirst h v w = (h', w')"
  shows "circInv h' \<and> handleKeep h' = handleKeep h \<and>
    (circList h' = handleKeep h v # circList h \<and> handleRoom h' = handleRoom h - 1 \<and>
       Deque_exhaustionCount h' = Deque_exhaustionCount h \<and> (willing w \<longrightarrow> willing w') \<or>
     circList h' = circList h \<and> handleRoom h' = handleRoom h \<and>
       Deque_exhaustionCount h' = Deque_exhaustionCount h + 1 \<and> \<not> willing w)"
proof -
  obtain c where c: "h = Some c" "circWf c" using assms(1) by (auto simp: circInv_iff)
  have room: "0 < elementRoom c" using assms(2) c by (simp add: handleRoom_def)
  obtain r c1 w1 where e: "circEnsure c w = (r, c1, w1)" by (cases "circEnsure c w") auto
  from circEnsure_cases [OF c(2) room e] show ?thesis
  proof (elim disjE conjE)
    assume r: "r" and c1: "circWf c1" "circElems c1 = circElems c" "stride c1 = stride c"
      "activeCount c1 = activeCount c" "activeCount c1 < capacity c1"
      "exhaustionCount c1 = exhaustionCount c" "willing w \<longrightarrow> willing w1"
    have "Suc (activeCount c1) * stride c1 < 4294967296"
      using limit_bytes(1) [of "activeCount c1" "stride c1"] room c1(3,4)
      by (simp add: elementRoom_def)
    note new = circPrepend_wf [OF c1(1,5) this, of v]
    have "h' = Some (circPrepend c1 v)" "w' = w1"
      using assms(3) c e r by (auto simp: Deque_addFirst_def Deque_ensureCapacity_def)
    then show ?thesis using c c1 new
      by (auto simp: circ_views Deque_exhaustionCount_def fun_eq_iff)
  next
    assume r: "\<not> r" "\<not> willing w"
      and c1: "c1 = c\<lparr>exhaustionCount := exhaustionCount c + 1, exhaustionReported := True\<rparr>"
    have "h' = Some c1"
      using assms(3) c e r by (auto simp: Deque_addFirst_def Deque_ensureCapacity_def)
    then show ?thesis using c c1 r(2)
      by (auto simp: circ_views Deque_exhaustionCount_def fun_eq_iff)
  qed
qed

lemma Deque_removeLast_last:
  assumes "circInv h" "circList h = xs @ [x]"
  shows "\<exists>h'. Deque_removeLast h = (x, h') \<and> circInv h' \<and> circList h' = xs"
proof -
  obtain c where c: "h = Some c" "circWf c" using assms(1) by (auto simp: circInv_iff)
  let ?n = "activeCount c - 1" let ?c = "c\<lparr>activeCount := activeCount c - 1\<rparr>"
  have elems: "circElems c = xs @ [x]" using assms(2) c by (simp add: circList_def)
  then have n: "activeCount c = Suc ?n" using length_circSlots [of c "head c" "activeCount c"] by simp
  have wf: "collWf c" "capacity c \<le> 2147483648" "head c < capacity c" "0 < capacity c"
    using c(2) by (auto simp: circWf_def)
  have parts: "xs = circSlots c (head c) ?n"
    "x = readSlotAt (data c) ((head c + ?n) mod capacity c * stride c) (stride c)"
    using elems circSlots_snoc [of c "head c" ?n] n by simp_all
  have "wrap32 (head c + activeCount c - 1) = head c + ?n"
  proof -
    have "activeCount c \<le> capacity c" using wf(1) by (simp add: collWf_def)
    then have "head c + ?n < 4294967296" using wf(2,3) n by linarith
    moreover have "head c + activeCount c - 1 = head c + ?n" using n by linarith
    ultimately show ?thesis by simp
  qed
  then have tail: "circTail c = (head c + ?n) mod capacity c" by (simp add: circTail_def)
  have "Collection_readSlot (Some c) (circTail c) = x"
    unfolding tail parts(2) by (rule readSlot_in [OF wf(1)]) (use wf(4) in simp)
  then have "Deque_removeLast h = (x, Some ?c)" using c n by (simp add: Deque_removeLast_def)
  moreover have "circWf ?c" using wf by (simp add: circWf_def)
  moreover have "circElems ?c = xs" unfolding parts(1) by (simp add: circSlots_def)
  ultimately show ?thesis by (auto simp: circInv_def circList_def)
qed

lemma Deque_removeLast_none: "circInv h \<Longrightarrow> circList h = [] \<Longrightarrow> Deque_removeLast h = (0, h)"
  by (auto simp: circInv_iff circList_def Deque_removeLast_def circSlots_def)

lemma Deque_get_elems:
  assumes "circInv h"
  shows "Deque_get h i = (if i < length (circList h) then circList h ! i else 0)"
proof -
  obtain c where c: "h = Some c" "circWf c" using assms by (auto simp: circInv_iff)
  then have wf: "collWf c" "capacity c \<le> 2147483648" "head c < capacity c" "0 < capacity c"
    by (auto simp: circWf_def)
  have "wrap64 (head c + i) = head c + i" if "i < activeCount c"
    using that wf by (simp add: collWf_def)
  then show ?thesis using c wf by (simp add: Deque_get_def circList_def)
qed

text \<open>Back and front, last-in first-out and first-in first-out.\<close>

interpretation deque_back: lifo circInv circList handleRoom handleKeep Deque_exhaustionCount
    Deque_addLast Deque_removeLast
  unfolding Deque_addLast_eq Deque_exhaustionCount_eq
  by unfold_locales
    (blast dest: Queue_push_cases intro: Deque_removeLast_last Deque_removeLast_none)+

interpretation deque_forward: fifo circInv circList handleRoom handleKeep Deque_exhaustionCount
    Deque_addLast Deque_removeFirst
  unfolding Deque_addLast_eq Deque_exhaustionCount_eq Deque_removeFirst_eq
  by (rule queue.fifo_axioms)

abbreviation revList :: "Collection option \<Rightarrow> u64 list" where
  "revList h \<equiv> rev (circList h)"

lemma revList_snoc: "revList h = xs @ [x] \<longleftrightarrow> circList h = x # rev xs"
  by (metis rev_eq_Cons_iff rev_rev_ident rev_swap)

lemma revList_Cons: "revList h = x # xs \<longleftrightarrow> circList h = rev xs @ [x]"
  by (metis rev.simps(2) rev_swap)

interpretation deque_front: lifo circInv revList handleRoom handleKeep Deque_exhaustionCount
    Deque_addFirst Deque_removeFirst
proof unfold_locales
  fix h v w h' w' assume a: "circInv h" "0 < handleRoom h" "Deque_addFirst h v w = (h', w')"
  show "circInv h' \<and> handleKeep h' = handleKeep h \<and>
    (revList h' = revList h @ [handleKeep h v] \<and> handleRoom h' = handleRoom h - 1 \<and>
       Deque_exhaustionCount h' = Deque_exhaustionCount h \<or>
     revList h' = revList h \<and> handleRoom h' = handleRoom h \<and>
       Deque_exhaustionCount h' = Deque_exhaustionCount h + 1)"
    using Deque_addFirst_cases [OF a] by auto
  assume "willing w"
  then show "revList h' = revList h @ [handleKeep h v] \<and> willing w'"
    using Deque_addFirst_cases [OF a] by auto
next
  fix h xs x assume "circInv h" "revList h = xs @ [x]"
  then show "\<exists>h'. Deque_removeFirst h = (x, h') \<and> circInv h' \<and> revList h' = xs"
    using Queue_pop_first [of h x "rev xs"] unfolding Deque_removeFirst_eq revList_snoc by auto
next
  fix h assume "circInv h" "revList h = []"
  then show "Deque_removeFirst h = (0, h)"
    using Queue_pop_none unfolding Deque_removeFirst_eq by simp
qed

interpretation deque_backward: fifo circInv revList handleRoom handleKeep Deque_exhaustionCount
    Deque_addFirst Deque_removeLast
proof unfold_locales
  fix h x xs assume "circInv h" "revList h = x # xs"
  then show "\<exists>h'. Deque_removeLast h = (x, h') \<and> circInv h' \<and> revList h' = xs"
    using Deque_removeLast_last [of h "rev xs" x] unfolding revList_Cons by auto
next
  fix h assume "circInv h" "revList h = []"
  then show "Deque_removeLast h = (0, h)" using Deque_removeLast_none by simp
qed

end
