(* ===== verification/Containers.thy ===== *)
theory Containers
  imports Stack Deque List_Container
begin

text \<open>
  What the growing containers of \<open>src/struct/\<close> promise over whole runs, read off the
  interpretations of the interfaces of Sequences on the code's operations: last in first out,
  first in first out, the deque against a plain list, refusals that are counted, and the two
  places where 32-bit arithmetic breaks the growth.
\<close>

section \<open>Fresh containers\<close>

lemma newCollection_willing:
  assumes "willing w" "newCollection tag cls cap count w = (h, w')"
  shows "h \<noteq> None \<and> willing w'"
proof -
  obtain g w1 where g: "Memory_object w = (g, w1)" by fastforce
  obtain b w2 where b: "Memory_bytes (wrap64 (cap * Stride_get (MASK_CLASS w) cls)) w1 = (b, w2)"
    by fastforce
  have "g" "willing w1" using Memory_object_willing [OF assms(1) g] by auto
  moreover have "b \<noteq> None" "willing w2" using Memory_bytes_willing [OF _ b] calculation by auto
  ultimately show ?thesis
    using assms(2) g b unfolding newCollection_def Let_def by (auto split: option.splits)
qed

lemma limit_stride:
  assumes "strideOk st"
  shows "67108863 \<le> elementLimit st"
proof -
  have "0 < st" "st \<le> 64" using strideOk_pos [OF assms] assms by (auto simp: strideOk_def)
  then have "4294967295 div 64 \<le> (4294967295 div st :: nat)" by (intro div_le_mono2)
  then show ?thesis by (simp add: elementLimit_def)
qed

text \<open>An empty container of a granting allocator: what every run below starts from.\<close>

lemma fresh_collection:
  assumes "newCollection tag cls cap 0 w = (h, w')" "cap < 4294967296" "willing w"
  obtains c where "h = Some c" "collWf c" "activeCount c = 0" "capacity c = cap" "head c = 0"
    "stride c = Stride_get (MASK_CLASS w) cls" "67108863 \<le> elementRoom c" "willing w'"
proof -
  have "h \<noteq> None" "willing w'" using newCollection_willing assms by blast+
  moreover obtain c where "h = Some c" "collWf c" "activeCount c = 0" "capacity c = cap" "head c = 0"
    "stride c = Stride_get (MASK_CLASS w) cls"
    using newCollection_cases [OF assms(1,2)] calculation(1) by auto
  moreover have "67108863 \<le> elementRoom c"
    using limit_stride calculation by (simp add: elementRoom_def)
  ultimately show thesis using that by blast
qed

text \<open>An allocator that grants everything, for the examples.\<close>

definition openWorld :: World where
  "openWorld = \<lparr>answers = [], s_constructionCount = 0, s_constructionReported = False,
     MASK_CLASS = 255\<rparr>"

lemma openWorld_willing: "willing openWorld"
  by (simp add: willing_def openWorld_def)

lemma openWorld_values:
  "slotValue (Stride_get (MASK_CLASS openWorld) ID_LONG) v = v"
proof -
  have "Stride_get (MASK_CLASS openWorld) ID_LONG = 8" by code_simp
  then show ?thesis by simp
qed

section \<open>Stacks\<close>

text \<open>
C11: Over an allocator that grants every request, a new stack takes any run of pushes, growing as
it goes, and the same number of pops hands the values back last first, each cut to the width of
the element class; then the stack is empty.
\<close>

theorem Stack_run_lifo:
  assumes "Stack_2 cls cap w = (s0, w0)" "cap < 4294967296" "willing w"
    and "length vs \<le> 67108863" "feed Stack_push vs s0 w0 = (s1, w1)"
  shows "\<exists>s2. drain Stack_pop (length vs) s1 =
    (rev (map (slotValue (Stride_get (MASK_CLASS w) cls)) vs), s2) \<and> Stack_isEmpty s2"
proof -
  have new: "newCollection TYPE_STACK cls
      (if cap < Stack_DEFAULT_CAPACITY then Stack_DEFAULT_CAPACITY else cap) 0 w = (s0, w0)"
    using assms(1) by (simp add: Stack_2_def Stack_instant_def)
  obtain c where c: "s0 = Some c" "collWf c" "activeCount c = 0"
    "stride c = Stride_get (MASK_CLASS w) cls" "67108863 \<le> elementRoom c" "willing w0"
    by (rule fresh_collection [OF new]) (use assms(2,3) in \<open>auto simp: Stack_DEFAULT_CAPACITY_def\<close>)
  have s0: "linearInv s0" "linearElems s0 = []" "length vs \<le> handleRoom s0"
    "handleKeep s0 = slotValue (Stride_get (MASK_CLASS w) cls)"
    using c assms(4) by (auto simp: linearInv_def linearElems_def handleRoom_def handleKeep_def)
  note fw = stack.feed_willing [OF s0(1,3) c(6) assms(5)]
  from stack.drain_reverses [of s1 "[]" "map (handleKeep s0) vs"] fw s0
  obtain s2 where s2: "drain Stack_pop (length vs) s1 =
      (rev (map (slotValue (Stride_get (MASK_CLASS w) cls)) vs), s2)"
    "linearInv s2" "linearElems s2 = []" by auto
  moreover from s2(2,3) have "Stack_isEmpty s2"
    by (auto simp: linearInv_iff linearElems_def Stack_isEmpty_def Collection_isEmpty_def
        slots_def Collection_size_def)
  ultimately show ?thesis by blast
qed

theorem Stack_run_lifo_witness:
  "\<exists>s0 w0 s1 w1 s2. Stack_2 ID_LONG 16 openWorld = (s0, w0) \<and>
     feed Stack_push [1, 2, 3] s0 w0 = (s1, w1) \<and> drain Stack_pop 3 s1 = ([3, 2, 1], s2) \<and>
     Stack_isEmpty s2"
proof -
  obtain s0 w0 where s0: "Stack_2 ID_LONG 16 openWorld = (s0, w0)" by fastforce
  obtain s1 w1 where s1: "feed Stack_push [1, 2, 3] s0 w0 = (s1, w1)" by fastforce
  from Stack_run_lifo [OF s0 _ openWorld_willing _ s1] obtain s2 where
    "drain Stack_pop 3 s1 = ([3, 2, 1], s2)" "Stack_isEmpty s2"
    by (auto simp: openWorld_values numeral_3_eq_3)
  then show ?thesis using s0 s1 by blast
qed

section \<open>Queues\<close>

text \<open>The queue and the deque start from the same empty circle.\<close>

lemma fresh_circle:
  assumes "newCollection tag cls cap 0 w = (h, w')" "0 < cap" "cap \<le> 2147483648" "willing w"
  shows "circInv h \<and> circList h = [] \<and> 67108863 \<le> handleRoom h \<and>
    handleKeep h = slotValue (Stride_get (MASK_CLASS w) cls) \<and> willing w'"
proof -
  have "cap < 4294967296" using assms(3) by simp
  then obtain c where "h = Some c" "collWf c" "activeCount c = 0" "capacity c = cap" "head c = 0"
    "stride c = Stride_get (MASK_CLASS w) cls" "67108863 \<le> elementRoom c" "willing w'"
    using fresh_collection [OF assms(1) _ assms(4)] by blast
  then show ?thesis
    using assms(2,3) by (auto simp: circInv_def circWf_def circList_def circSlots_def
        handleRoom_def handleKeep_def)
qed

lemma Queue_2_fresh:
  assumes "Queue_2 cls cap w = (q, w')" "cap \<le> 2147483648" "willing w"
  shows "circInv q \<and> circList q = [] \<and> 67108863 \<le> handleRoom q \<and>
    handleKeep q = slotValue (Stride_get (MASK_CLASS w) cls) \<and> willing w'"
  using assms fresh_circle [of TYPE_QUEUE cls "if cap < 1024 then 1024 else cap" w q w']
  by (simp add: Queue_2_def Queue_instant_def Queue_DEFAULT_CAPACITY_def split: if_splits)



text \<open>
C13: Against any allocator, whatever it refuses: a run of pushes keeps the queue well formed, the
values it admits are appended in order after those already there, the others are dropped, and
the refusal counter of the queue rises by exactly the number dropped.
\<close>

theorem Queue_refusals_counted:
  assumes "circInv q" "length vs \<le> handleRoom q" "feed Queue_push vs q w = (q', w')"
  shows "circInv q' \<and> (\<exists>ks. subseq ks (map (handleKeep q) vs) \<and> circList q' = circList q @ ks \<and>
    Queue_exhaustionCount q' = Queue_exhaustionCount q + of_nat (length vs - length ks))"
  by (rule queue.feed_counts [OF assms])

theorem Queue_refusals_counted_witness:
  "\<exists>q w q' w' ks. Queue_2 ID_LONG 16 openWorld = (q, w) \<and> feed Queue_push [1, 2] q w = (q', w') \<and>
     subseq ks (map (handleKeep q) [1, 2]) \<and>
     circList q' = circList q @ ks"
proof -
  obtain q w where q: "Queue_2 ID_LONG 16 openWorld = (q, w)" by fastforce
  obtain q' w' where q': "feed Queue_push [1, 2] q w = (q', w')" by fastforce
  from Queue_2_fresh [OF q _ openWorld_willing] have "circInv q" "length [1, 2 :: u64] \<le> handleRoom q"
    by simp_all
  from Queue_refusals_counted [OF this q'] show ?thesis using q q' by blast
qed

section \<open>The deque against a list\<close>

text \<open>
  Scripts of operations, run on the code's deque and on a list.  A removal from an empty deque
  answers zero on both sides; so does a read beyond the end.
\<close>

datatype DequeOp = AddFirst u64 | AddLast u64 | RemoveFirst | RemoveLast | GetAt nat

fun Deque_do ::
    "DequeOp \<Rightarrow> Collection option \<Rightarrow> World \<Rightarrow> u64 \<times> Collection option \<times> World" where
  "Deque_do (AddFirst v) d w = (0, Deque_addFirst d v w)"
| "Deque_do (AddLast v) d w = (0, Deque_addLast d v w)"
| "Deque_do RemoveFirst d w = (let (x, d1) = Deque_removeFirst d in (x, d1, w))"
| "Deque_do RemoveLast d w = (let (x, d1) = Deque_removeLast d in (x, d1, w))"
| "Deque_do (GetAt i) d w = (Deque_get d i, d, w)"

fun listDo :: "(u64 \<Rightarrow> u64) \<Rightarrow> DequeOp \<Rightarrow> u64 list \<Rightarrow> u64 \<times> u64 list" where
  "listDo narrow (AddFirst v) xs = (0, narrow v # xs)"
| "listDo narrow (AddLast v) xs = (0, xs @ [narrow v])"
| "listDo narrow RemoveFirst xs = (if xs = [] then (0, []) else (hd xs, tl xs))"
| "listDo narrow RemoveLast xs = (if xs = [] then (0, []) else (last xs, butlast xs))"
| "listDo narrow (GetAt i) xs = (if i < length xs then xs ! i else 0, xs)"

primrec Deque_script ::
    "DequeOp list \<Rightarrow> Collection option \<Rightarrow> World \<Rightarrow> u64 list \<times> Collection option" where
  "Deque_script [] d w = ([], d)"
| "Deque_script (op # ops) d w =
     (let (x, d1, w1) = Deque_do op d w; (xs, d2) = Deque_script ops d1 w1 in (x # xs, d2))"

primrec listScript :: "(u64 \<Rightarrow> u64) \<Rightarrow> DequeOp list \<Rightarrow> u64 list \<Rightarrow> u64 list \<times> u64 list" where
  "listScript narrow [] xs = ([], xs)"
| "listScript narrow (op # ops) xs =
     (let (y, xs1) = listDo narrow op xs; (ys, xs2) = listScript narrow ops xs1 in (y # ys, xs2))"

lemma Deque_remove_room:
  "Deque_removeFirst d = (x, d') \<Longrightarrow> handleRoom d \<le> handleRoom d' \<and> handleKeep d' = handleKeep d"
  "Deque_removeLast d = (x, d') \<Longrightarrow> handleRoom d \<le> handleRoom d' \<and> handleKeep d' = handleKeep d"
  by (auto simp: Deque_removeFirst_def Deque_removeLast_def circTake_def Let_def handleRoom_def
      handleKeep_def elementRoom_def fun_eq_iff split: option.splits if_splits)

text \<open>One operation: the answers agree and the deque holds what the list became.\<close>

lemma Deque_do_simulates:
  assumes "circInv d" "0 < handleRoom d" "willing w" "Deque_do op d w = (x, d', w')"
  shows "circInv d' \<and> willing w' \<and> handleKeep d' = handleKeep d \<and>
    handleRoom d - 1 \<le> handleRoom d' \<and> listDo (handleKeep d) op (circList d) = (x, circList d')"
proof (cases op)
  case (AddFirst v)
  then show ?thesis using Deque_addFirst_cases [OF assms(1,2), of v w] assms(3,4) by auto
next
  case (AddLast v)
  then show ?thesis
    using Queue_push_cases [OF assms(1,2), of v w] assms(3,4) by (auto simp: Deque_addLast_eq)
next
  case RemoveFirst
  then have r: "Deque_removeFirst d = (x, d')" "w' = w" using assms(4) by (auto split: prod.splits)
  note room = Deque_remove_room(1) [OF r(1)]
  show ?thesis
  proof (cases "circList d")
    case Nil
    then have "(x, d') = (0, d)"
      using r(1) Queue_pop_none [OF assms(1)] by (simp add: Deque_removeFirst_eq)
    then show ?thesis using Nil RemoveFirst assms r by simp
  next
    case (Cons y ys)
    then show ?thesis
      using r Queue_pop_first [OF assms(1)] RemoveFirst assms(3) room
      by (auto simp: Deque_removeFirst_eq)
  qed
next
  case RemoveLast
  then have r: "Deque_removeLast d = (x, d')" "w' = w" using assms(4) by (auto split: prod.splits)
  note room = Deque_remove_room(2) [OF r(1)]
  show ?thesis
  proof (cases "circList d" rule: rev_cases)
    case Nil
    then have "(x, d') = (0, d)" using r(1) Deque_removeLast_none [OF assms(1)] by simp
    then show ?thesis using Nil RemoveLast assms r by simp
  next
    case (snoc ys y)
    then show ?thesis
      using r Deque_removeLast_last [OF assms(1)] RemoveLast assms(3) room by fastforce
  qed
next
  case (GetAt i)
  then show ?thesis using assms Deque_get_elems [OF assms(1), of i] by auto
qed

lemma Deque_script_simulates:
  "circInv d \<Longrightarrow> length ops \<le> handleRoom d \<Longrightarrow> willing w \<Longrightarrow> Deque_script ops d w = (out, d') \<Longrightarrow>
   listScript (handleKeep d) ops (circList d) = (out, circList d')"
proof (induction ops arbitrary: d w out)
  case Nil
  then show ?case by simp
next
  case (Cons op ops)
  obtain x d1 w1 where o: "Deque_do op d w = (x, d1, w1)" by (cases "Deque_do op d w") auto
  obtain xs where xs: "Deque_script ops d1 w1 = (xs, d')" "out = x # xs"
    using Cons.prems(4) o by (auto split: prod.splits)
  have "0 < handleRoom d" using Cons.prems(2) by simp
  note step = Deque_do_simulates [OF Cons.prems(1) this Cons.prems(3) o]
  then have "circInv d1" "length ops \<le> handleRoom d1" "willing w1" using Cons.prems(2) by auto
  from Cons.IH [OF this xs(1)] step xs(2) show ?case by auto
qed

text \<open>
C14: A new deque over a granting allocator runs every script of additions, removals at either end
and indexed reads exactly as a list does: the same answers in the same order, and in the end the
deque holds the list.
\<close>

theorem Deque_script_refines:
  assumes "Deque_2 cls cap w = (d0, w0)" "cap \<le> 2147483648" "willing w"
    and "length ops \<le> 67108863" "Deque_script ops d0 w0 = (out, d1)"
  shows "listScript (slotValue (Stride_get (MASK_CLASS w) cls)) ops [] = (out, circList d1)"
proof -
  have "circInv d0 \<and> circList d0 = [] \<and> 67108863 \<le> handleRoom d0 \<and>
      handleKeep d0 = slotValue (Stride_get (MASK_CLASS w) cls) \<and> willing w0"
    using assms(1-3) fresh_circle [of TYPE_DEQUE cls "if cap < 1024 then 1024 else cap" w d0 w0]
    by (simp add: Deque_2_def Deque_instant_def Deque_DEFAULT_CAPACITY_def split: if_splits)
  then show ?thesis using Deque_script_simulates [OF _ _ _ assms(5)] assms(4) by fastforce
qed

theorem Deque_script_refines_witness:
  "\<exists>d0 w0 d1. Deque_2 ID_LONG 16 openWorld = (d0, w0) \<and>
     Deque_script [AddLast 1, AddFirst 2, AddLast 3, GetAt 2, RemoveLast, RemoveFirst] d0 w0 =
       ([0, 0, 0, 3, 3, 2], d1) \<and> circList d1 = [1]"
proof -
  let ?ops = "[AddLast 1, AddFirst 2, AddLast 3, GetAt 2, RemoveLast, RemoveFirst]"
  obtain d0 w0 where d0: "Deque_2 ID_LONG 16 openWorld = (d0, w0)" by fastforce
  obtain out d1 where d1: "Deque_script ?ops d0 w0 = (out, d1)" by fastforce
  from Deque_script_refines [OF d0 _ openWorld_willing _ d1]
  have "([0, 0, 0, 3, 3, 2], [1]) = (out, circList d1)"
    by (simp add: openWorld_values)
  then show ?thesis using d0 d1 by auto
qed

section \<open>Lists\<close>

primrec List_adds ::
    "u64 list \<Rightarrow> Collection option \<Rightarrow> World \<Rightarrow> (Collection option \<times> World) option" where
  "List_adds [] l w = Some (l, w)"
| "List_adds (v # vs) l w =
     (case List_add l v w of None \<Rightarrow> None | Some (l1, w1) \<Rightarrow> List_adds vs l1 w1)"

lemma List_adds_fed:
  "linearInv l \<Longrightarrow> length vs \<le> handleRoom l \<Longrightarrow> List_adds vs l w = Some (feed List_added vs l w)"
proof (induction vs arbitrary: l w)
  case Nil
  then show ?case by simp
next
  case (Cons v vs)
  have "0 < handleRoom l" using Cons.prems(2) by simp
  from List_add_cases [OF Cons.prems(1) this, of v w] obtain l1 w1
    where r: "List_add l v w = Some (l1, w1)" by auto
  then have a: "List_added l v w = (l1, w1)" by (simp add: List_added_def)
  have "linearInv l1" "length vs \<le> handleRoom l1"
    using list_growth.add_cases [OF Cons.prems(1) \<open>0 < handleRoom l\<close> a] Cons.prems(2) by auto
  from Cons.IH [OF this] show ?case using r a by simp
qed

text \<open>
C15: Over a granting allocator a new list takes any run of additions, and every addition returns
(the doubling loop ends); afterwards index reads give the values in order and zero beyond the
end, and removing an index closes the gap.
\<close>

theorem List_adds_get_remove:
  assumes "List_2 cls cap w = (l0, w0)" "cap < 4294967296" "willing w" "length vs \<le> 67108863"
  shows "\<exists>l1 w1 xs. List_adds vs l0 w0 = Some (l1, w1) \<and>
    xs = map (slotValue (Stride_get (MASK_CLASS w) cls)) vs \<and>
    (\<forall>i. List_get l1 i = (if i < length xs then xs ! i else 0)) \<and>
    (\<forall>i < length xs. \<forall>j. List_get (List_remove l1 i) j =
       (let ys = take i xs @ drop (Suc i) xs in if j < length ys then ys ! j else 0))"
proof -
  have new: "newCollection TYPE_LIST cls
      (if cap < List_DEFAULT_CAPACITY then List_DEFAULT_CAPACITY else cap) 0 w = (l0, w0)"
    using assms(1) by (simp add: List_2_def List_instant_def)
  obtain c where c: "l0 = Some c" "collWf c" "activeCount c = 0"
    "stride c = Stride_get (MASK_CLASS w) cls" "67108863 \<le> elementRoom c" "willing w0"
    by (rule fresh_collection [OF new]) (use assms(2,3) in \<open>auto simp: List_DEFAULT_CAPACITY_def\<close>)
  have l0: "linearInv l0" "linearElems l0 = []" "length vs \<le> handleRoom l0"
    "handleKeep l0 = slotValue (Stride_get (MASK_CLASS w) cls)"
    using c assms(4) by (auto simp: linearInv_def linearElems_def handleRoom_def handleKeep_def)
  obtain l1 w1 where f: "feed List_added vs l0 w0 = (l1, w1)" by fastforce
  note fw = list_growth.feed_willing [OF l0(1,3) c(6) f]
  have removed: "linearInv (List_remove l1 i)" "i < length (linearElems l1) \<Longrightarrow>
      linearElems (List_remove l1 i) = take i (linearElems l1) @ drop (Suc i) (linearElems l1)" for i
    using List_remove_elems [of l1 i] fw by auto
  show ?thesis
    using List_adds_fed [OF l0(1,3), of w0] f fw l0(2,4) removed List_get_elems
    by (intro exI [of _ l1] exI [of _ w1]) (auto simp: Let_def)
qed

theorem List_adds_get_remove_witness:
  "\<exists>l0 w0 l1 w1. List_2 ID_LONG 16 openWorld = (l0, w0) \<and>
     List_adds [5, 6, 7] l0 w0 = Some (l1, w1) \<and> List_get l1 2 = 7 \<and> List_get l1 3 = 0 \<and>
     List_get (List_remove l1 0) 0 = 6"
proof -
  obtain l0 w0 where l0: "List_2 ID_LONG 16 openWorld = (l0, w0)" by fastforce
  from List_adds_get_remove [OF l0 _ openWorld_willing, of "[5, 6, 7]"] show ?thesis
    using l0 by (fastforce simp: openWorld_values)
qed

section \<open>Where the growth breaks\<close>

lemma wrap32_full: "wrap32 4294967296 = 0"
  by (simp add: wrap32_def)

text \<open>
The queue doubles its capacity in 32 bits: when a queue of two to the power 31 slots is full,
the capacity becomes zero while every element is still counted, and the push that follows divides
by it.
\<close>

theorem Queue_growth_wraps:
  assumes "capacity c = 2147483648" "activeCount c = 2147483648" "willing w"
  shows "\<exists>c1 w1. Queue_ensureCapacity c w = (True, c1, w1) \<and> capacity c1 = 0 \<and>
    activeCount c1 = 2147483648"
proof -
  obtain b w1 where b: "Memory_bytes 0 w = (b, w1)" by fastforce
  obtain d where "b = Some d" using Memory_bytes_willing [OF assms(3) b] by auto
  then show ?thesis
    using assms(1,2) b
    by (simp add: Queue_ensureCapacity_def circEnsure_def Let_def wrap32_full circUnroll_def)
qed

definition hugeCollection :: Collection where
  "hugeCollection = \<lparr>typeId = TYPE_QUEUE, activeCount = 2147483648, elementClass = ID_LONG,
     stride = 8, capacity = 2147483648, head = 0, data = [], exhaustionCount = 0,
     exhaustionReported = False\<rparr>"

theorem Queue_growth_wraps_witness:
  "\<exists>c1 w1. Queue_ensureCapacity hugeCollection openWorld = (True, c1, w1) \<and> capacity c1 = 0 \<and>
    activeCount c1 = 2147483648"
  by (rule Queue_growth_wraps [OF _ _ openWorld_willing]) (simp_all add: hugeCollection_def)

text \<open>
The stack copies its elements into the bigger buffer with a 32-bit byte count: at two to the
power 29 elements of eight bytes the count is zero, the growth reports success, and the new
buffer is the same whatever the stack held.
\<close>

theorem Stack_growth_forgets:
  assumes "capacity c = 536870912" "activeCount c = 536870912" "stride c = 8" "willing w"
  shows "\<exists>c1 w1. \<forall>d. Stack_grow (c\<lparr>data := d\<rparr>) w = (Inr c1, w1) \<and> activeCount c1 = 536870912"
proof -
  obtain b w1 where b: "Memory_bytes 8589934592 w = (b, w1)" by fastforce
  obtain d where "b = Some d" using Memory_bytes_willing [OF assms(4) b] by auto
  then show ?thesis
    using assms(1-3) b
    by (simp add: Stack_grow_def adoptBuffer_def memcpy_def mem_write_def mem_read_def wrap32_full)
qed

theorem Stack_growth_forgets_witness:
  "\<exists>c1 w1. \<forall>d. Stack_grow (hugeCollection\<lparr>activeCount := 536870912, capacity := 536870912,
     data := d\<rparr>) openWorld = (Inr c1, w1) \<and> activeCount c1 = 536870912"
  using Stack_growth_forgets [of "hugeCollection\<lparr>activeCount := 536870912, capacity := 536870912\<rparr>",
      OF _ _ _ openWorld_willing] by (simp add: hugeCollection_def)

end
