(* ===== verification/Ranges.thy ===== *)
theory Ranges
  imports Bytes "HOL-Library.Multiset"
begin

text \<open>
  Rearranging part of an array in place.  \<open>rearranged b e xs ys\<close> says that \<open>ys\<close> is \<open>xs\<close> with the
  elements of the positions from \<open>b\<close> up to \<open>e\<close> permuted and everything else left alone; the
  sorting routines are chains of such steps.  \<open>ordered\<close> is sortedness of a range by a comparator.
\<close>

definition swapElements :: "'a list \<Rightarrow> nat \<Rightarrow> nat \<Rightarrow> 'a list" where
  "swapElements xs i j = xs[i := xs ! j, j := xs ! i]"

definition rearranged :: "nat \<Rightarrow> nat \<Rightarrow> 'a list \<Rightarrow> 'a list \<Rightarrow> bool" where
  "rearranged b e xs ys \<longleftrightarrow> mset ys = mset xs \<and> (\<forall>i. i < b \<or> e \<le> i \<longrightarrow> ys ! i = xs ! i)"

lemma length_swapElements [simp]: "length (swapElements xs i j) = length xs"
  by (simp add: swapElements_def)

lemma mset_swapElements [simp]:
  "i < length xs \<Longrightarrow> j < length xs \<Longrightarrow> mset (swapElements xs i j) = mset xs"
  by (simp add: swapElements_def mset_swap)

lemma nth_swapElements:
  "i < length xs \<Longrightarrow> j < length xs \<Longrightarrow>
   swapElements xs i j ! k = (if k = i then xs ! j else if k = j then xs ! i else xs ! k)"
  by (auto simp: swapElements_def nth_list_update)

lemma swapElements_same [simp]: "swapElements xs i i = xs"
  by (simp add: swapElements_def)

lemma rearranged_refl [simp, intro]: "rearranged b e xs xs"
  by (simp add: rearranged_def)

lemma rearranged_length: "rearranged b e xs ys \<Longrightarrow> length ys = length xs"
  by (auto simp: rearranged_def dest: mset_eq_length)

lemma rearranged_mset: "rearranged b e xs ys \<Longrightarrow> mset ys = mset xs"
  by (simp add: rearranged_def)

lemma rearranged_outside: "rearranged b e xs ys \<Longrightarrow> i < b \<or> e \<le> i \<Longrightarrow> ys ! i = xs ! i"
  unfolding rearranged_def by blast

lemma rearranged_trans [trans]:
  "rearranged b e xs ys \<Longrightarrow> rearranged b e ys zs \<Longrightarrow> rearranged b e xs zs"
  by (auto simp: rearranged_def)

lemma rearranged_widen:
  "rearranged b e xs ys \<Longrightarrow> b' \<le> b \<Longrightarrow> e \<le> e' \<Longrightarrow> rearranged b' e' xs ys"
  by (auto simp: rearranged_def)

lemma rearranged_swap:
  "b \<le> i \<Longrightarrow> i < e \<Longrightarrow> b \<le> j \<Longrightarrow> j < e \<Longrightarrow> e \<le> length xs \<Longrightarrow>
   rearranged b e xs (swapElements xs i j)"
  by (auto simp: rearranged_def nth_swapElements)

text \<open>The elements of the range are permuted among themselves.\<close>

lemma rearranged_parts:
  assumes "rearranged b e xs ys" "b \<le> e" "e \<le> length xs"
  shows "take b ys = take b xs" "drop e ys = drop e xs"
    "mset (take (e - b) (drop b ys)) = mset (take (e - b) (drop b xs))"
proof -
  have len: "length ys = length xs" using assms(1) by (rule rearranged_length)
  show t: "take b ys = take b xs"
    using assms len by (intro nth_equalityI) (auto simp: rearranged_def)
  show d: "drop e ys = drop e xs"
    using assms len by (intro nth_equalityI) (auto simp: rearranged_def)
  have split: "zs = take b zs @ take (e - b) (drop b zs) @ drop e zs" if "b \<le> e" for zs :: "'a list"
    using that by (metis append_take_drop_id drop_drop le_add_diff_inverse2)
  have "mset ys = mset (take b ys) + mset (take (e - b) (drop b ys)) + mset (drop e ys)"
    using arg_cong [OF split [OF assms(2), of ys], of mset] by simp
  moreover have "mset xs = mset (take b xs) + mset (take (e - b) (drop b xs)) + mset (drop e xs)"
    using arg_cong [OF split [OF assms(2), of xs], of mset] by simp
  ultimately show "mset (take (e - b) (drop b ys)) = mset (take (e - b) (drop b xs))"
    using rearranged_mset [OF assms(1)] t d by simp
qed

lemma set_range: "e \<le> length xs \<Longrightarrow> set (take (e - b) (drop b xs)) = (!) xs ` {b ..< e}"
proof -
  assume e: "e \<le> length xs"
  have "take (e - b) (drop b xs) = map ((!) xs) [b ..< e]"
    using e by (intro nth_equalityI) auto
  then show ?thesis by simp
qed

lemma rearranged_image:
  assumes "rearranged b e xs ys" "e \<le> length xs"
  shows "(!) ys ` {b ..< e} = (!) xs ` {b ..< e}"
proof (cases "b \<le> e")
  case True
  then show ?thesis
    using rearranged_parts(3) [OF assms(1) True assms(2)] set_range [OF assms(2), of b]
      set_range [of e ys b] rearranged_length [OF assms(1)] assms(2)
    by (metis set_mset_mset)
qed simp

text \<open>A property of every element of the range survives rearranging it.\<close>

lemma rearranged_all:
  assumes "rearranged b e xs ys" "e \<le> length xs" "\<And>i. b \<le> i \<Longrightarrow> i < e \<Longrightarrow> P (xs ! i)"
    and "b \<le> i" "i < e"
  shows "P (ys ! i)"
proof -
  have "ys ! i \<in> (!) xs ` {b ..< e}"
    using rearranged_image [OF assms(1,2)] assms(4,5) by auto
  then show ?thesis using assms(3) by auto
qed

text \<open>The same inside a bigger range, whose property the elements share.\<close>

lemma rearranged_all_within:
  assumes "rearranged b e xs ys" "e \<le> length xs" "b' \<le> b" "e \<le> e'"
    and "\<And>i. b' \<le> i \<Longrightarrow> i < e' \<Longrightarrow> P (xs ! i)" "b' \<le> i" "i < e'"
  shows "P (ys ! i)"
proof (cases "b \<le> i \<and> i < e")
  case True
  then show ?thesis using rearranged_all [OF assms(1,2), of P i] assms(3-5) by auto
next
  case False
  then show ?thesis using assms(5-7) rearranged_outside [OF assms(1), of i] by auto
qed

section \<open>Comparators\<close>

text \<open>
  A comparator answers with the sign of an \<open>int\<close>.  \<open>algo/sort.h\<close> requires an ordering that stays
  consistent: the sign flips with the arguments, and \<open>\<le>\<close> is transitive.
\<close>

definition consistent :: "('a \<Rightarrow> 'a \<Rightarrow> int) \<Rightarrow> bool" where
  "consistent cmp \<longleftrightarrow> (\<forall>a b. cmp a b < 0 \<longleftrightarrow> 0 < cmp b a) \<and>
     (\<forall>a b c. cmp a b \<le> 0 \<longrightarrow> cmp b c \<le> 0 \<longrightarrow> cmp a c \<le> 0)"

lemma consistent_flip: "consistent cmp \<Longrightarrow> cmp a b < 0 \<longleftrightarrow> 0 < cmp b a"
  by (simp add: consistent_def)

lemma consistent_total: "consistent cmp \<Longrightarrow> cmp a b \<le> 0 \<or> cmp b a < 0"
  by (meson consistent_flip not_less)

lemma consistent_not_less: "consistent cmp \<Longrightarrow> \<not> cmp a b < 0 \<longleftrightarrow> cmp b a \<le> 0"
  by (meson consistent_flip not_less)

lemma consistent_refl [simp]: "consistent cmp \<Longrightarrow> cmp a a \<le> 0"
  by (metis consistent_flip not_less less_asym)

lemma consistent_trans: "consistent cmp \<Longrightarrow> cmp a b \<le> 0 \<Longrightarrow> cmp b c \<le> 0 \<Longrightarrow> cmp a c \<le> 0"
  unfolding consistent_def by blast

definition ordered :: "('a \<Rightarrow> 'a \<Rightarrow> int) \<Rightarrow> nat \<Rightarrow> nat \<Rightarrow> 'a list \<Rightarrow> bool" where
  "ordered cmp b e xs \<longleftrightarrow> (\<forall>j < e. \<forall>i < j. b \<le> i \<longrightarrow> cmp (xs ! i) (xs ! j) \<le> 0)"

lemma orderedD: "ordered cmp b e xs \<Longrightarrow> b \<le> i \<Longrightarrow> i < j \<Longrightarrow> j < e \<Longrightarrow> cmp (xs ! i) (xs ! j) \<le> 0"
  by (simp add: ordered_def)

lemma orderedI:
  "(\<And>i j. b \<le> i \<Longrightarrow> i < j \<Longrightarrow> j < e \<Longrightarrow> cmp (xs ! i) (xs ! j) \<le> 0) \<Longrightarrow> ordered cmp b e xs"
  by (simp add: ordered_def)

lemma ordered_short [simp]: "e \<le> Suc b \<Longrightarrow> ordered cmp b e xs"
  by (auto simp: ordered_def)

lemma ordered_sorted_wrt:
  "e \<le> length xs \<Longrightarrow> ordered cmp 0 e xs \<Longrightarrow> sorted_wrt (\<lambda>a b. cmp a b \<le> 0) (take e xs)"
  by (auto simp: ordered_def sorted_wrt_iff_nth_less)

lemma ordered_untouched:
  "ordered cmp b e xs \<Longrightarrow> rearranged b' e' xs ys \<Longrightarrow> e \<le> b' \<or> e' \<le> b \<Longrightarrow> ordered cmp b e ys"
  unfolding ordered_def rearranged_def by (smt (verit) le_trans less_le_trans nat_less_le not_less)

text \<open>Two ordered parts around a pivot make an ordered whole.\<close>

lemma ordered_around:
  assumes "consistent cmp" "ordered cmp b p xs" "ordered cmp (Suc p) e xs"
    and "\<And>i. b \<le> i \<Longrightarrow> i < p \<Longrightarrow> cmp (xs ! i) (xs ! p) \<le> 0"
    and "\<And>i. p < i \<Longrightarrow> i < e \<Longrightarrow> cmp (xs ! p) (xs ! i) \<le> 0"
  shows "ordered cmp b e xs"
proof (rule orderedI)
  fix i j assume ij: "b \<le> i" "i < j" "j < e"
  consider "j < p" | "j = p" | "p < j" "i < p" | "i = p" | "p < i" using ij by linarith
  then show "cmp (xs ! i) (xs ! j) \<le> 0"
  proof cases
    case 3
    then show ?thesis using assms(4,5) ij consistent_trans [OF assms(1)] by blast
  next
    case 5
    then show ?thesis using orderedD [OF assms(3), of i j] ij by simp
  qed (use assms(2,4,5) ij orderedD in auto)
qed

text \<open>The order of the comparator on numbers, for examples and for the integer arrays.\<close>

definition compareNat :: "nat \<Rightarrow> nat \<Rightarrow> int" where
  "compareNat a b = (if a < b then - 1 else if a = b then 0 else 1)"

lemma compareNat_consistent: "consistent compareNat"
  by (auto simp: consistent_def compareNat_def split: if_splits)

end
