(* ===== verification/Sort.thy ===== *)
theory Sort
  imports Ranges
begin

text \<open>
  \<open>src/algo/sort.c\<close>, the comparison sorts.  An array is the list of its elements, a null pointer
  is \<open>None\<close>; the routines touch the first \<open>count\<close> of them.  Loops over index ranges are folds,
  the others recursions.  Comparators are arbitrary functions here: what needs a consistent one
  says so.
\<close>

definition validComparisonRange ::
    "'a list option \<Rightarrow> nat \<Rightarrow> nat \<Rightarrow> ('a \<Rightarrow> 'a \<Rightarrow> int) option \<Rightarrow> bool" where
  "validComparisonRange values cnt elementSize compare =
     (if cnt = 0 then True
      else values \<noteq> None \<and> 0 < elementSize \<and> compare \<noteq> None \<and>
        cnt \<le> 18446744073709551615 div elementSize)"

text \<open>The entry points: refuse an invalid range, otherwise sort in place and answer yes.\<close>

definition guardedSort ::
    "(('a \<Rightarrow> 'a \<Rightarrow> int) \<Rightarrow> 'a list \<Rightarrow> 'a list) \<Rightarrow> 'a list option \<Rightarrow> nat \<Rightarrow> nat \<Rightarrow>
     ('a \<Rightarrow> 'a \<Rightarrow> int) option \<Rightarrow> bool \<times> 'a list option" where
  "guardedSort sorter values cnt elementSize compare =
     (if \<not> validComparisonRange values cnt elementSize compare then (False, values)
      else if cnt = 0 then (True, values)
      else (True, Some (sorter (the compare) (the values))))"

section \<open>Insertion sort\<close>

fun sinkLeft :: "('a \<Rightarrow> 'a \<Rightarrow> int) \<Rightarrow> nat \<Rightarrow> nat \<Rightarrow> 'a list \<Rightarrow> 'a list" where
  "sinkLeft cmp start current xs =
     (if start < current \<and> cmp (xs ! current) (xs ! (current - 1)) < 0
      then sinkLeft cmp start (current - 1) (swapElements xs current (current - 1))
      else xs)"

declare sinkLeft.simps [simp del]

definition insertionSortRange ::
    "('a \<Rightarrow> 'a \<Rightarrow> int) \<Rightarrow> nat \<Rightarrow> nat \<Rightarrow> 'a list \<Rightarrow> 'a list" where
  "insertionSortRange cmp start stop xs =
     fold (\<lambda>i. sinkLeft cmp start i) [start + (if start < stop then 1 else 0) ..< stop] xs"

definition Sort_insertionSort ::
    "'a list option \<Rightarrow> nat \<Rightarrow> nat \<Rightarrow> ('a \<Rightarrow> 'a \<Rightarrow> int) option \<Rightarrow> bool \<times> 'a list option" where
  "Sort_insertionSort values cnt elementSize compare =
     guardedSort (\<lambda>cmp. insertionSortRange cmp 0 cnt) values cnt elementSize compare"

section \<open>Selection sort\<close>

definition minimumFrom :: "('a \<Rightarrow> 'a \<Rightarrow> int) \<Rightarrow> 'a list \<Rightarrow> nat \<Rightarrow> nat \<Rightarrow> nat" where
  "minimumFrom cmp xs first cnt =
     fold (\<lambda>candidate minimum. if cmp (xs ! candidate) (xs ! minimum) < 0 then candidate else minimum)
       [first + 1 ..< cnt] first"

definition selectionSortRange :: "('a \<Rightarrow> 'a \<Rightarrow> int) \<Rightarrow> nat \<Rightarrow> 'a list \<Rightarrow> 'a list" where
  "selectionSortRange cmp cnt xs =
     fold (\<lambda>first xs. swapElements xs first (minimumFrom cmp xs first cnt)) [0 ..< cnt] xs"

definition Sort_selectionSort ::
    "'a list option \<Rightarrow> nat \<Rightarrow> nat \<Rightarrow> ('a \<Rightarrow> 'a \<Rightarrow> int) option \<Rightarrow> bool \<times> 'a list option" where
  "Sort_selectionSort values cnt elementSize compare =
     guardedSort (\<lambda>cmp. selectionSortRange cmp cnt) values cnt elementSize compare"

section \<open>Bubble sort\<close>

definition bubbleStep ::
    "('a \<Rightarrow> 'a \<Rightarrow> int) \<Rightarrow> nat \<Rightarrow> bool \<times> 'a list \<Rightarrow> bool \<times> 'a list" where
  "bubbleStep cmp i s = (case s of (changed, xs) \<Rightarrow>
     if cmp (xs ! i) (xs ! (i - 1)) < 0 then (True, swapElements xs i (i - 1)) else (changed, xs))"

definition bubblePass :: "('a \<Rightarrow> 'a \<Rightarrow> int) \<Rightarrow> nat \<Rightarrow> 'a list \<Rightarrow> bool \<times> 'a list" where
  "bubblePass cmp unsorted xs = fold (bubbleStep cmp) [1 ..< unsorted] (False, xs)"

fun bubbleLoop :: "('a \<Rightarrow> 'a \<Rightarrow> int) \<Rightarrow> nat \<Rightarrow> 'a list \<Rightarrow> 'a list" where
  "bubbleLoop cmp unsorted xs =
     (if 1 < unsorted
      then (case bubblePass cmp unsorted xs of (changed, ys) \<Rightarrow>
              if changed then bubbleLoop cmp (unsorted - 1) ys else ys)
      else xs)"

declare bubbleLoop.simps [simp del]

definition Sort_bubbleSort ::
    "'a list option \<Rightarrow> nat \<Rightarrow> nat \<Rightarrow> ('a \<Rightarrow> 'a \<Rightarrow> int) option \<Rightarrow> bool \<times> 'a list option" where
  "Sort_bubbleSort values cnt elementSize compare =
     guardedSort (\<lambda>cmp. bubbleLoop cmp cnt) values cnt elementSize compare"

section \<open>Heap sort\<close>

definition greaterChild :: "('a \<Rightarrow> 'a \<Rightarrow> int) \<Rightarrow> nat \<Rightarrow> nat \<Rightarrow> 'a list \<Rightarrow> nat" where
  "greaterChild cmp root cnt xs =
     (let child = root * 2 + 1
      in if child + 1 < cnt \<and> cmp (xs ! child) (xs ! (child + 1)) < 0 then child + 1 else child)"

function siftDown :: "('a \<Rightarrow> 'a \<Rightarrow> int) \<Rightarrow> nat \<Rightarrow> nat \<Rightarrow> 'a list \<Rightarrow> 'a list" where
  "siftDown cmp root cnt xs =
     (if root < cnt div 2 then
        (let child = greaterChild cmp root cnt xs
         in if 0 \<le> cmp (xs ! root) (xs ! child) then xs
            else siftDown cmp child cnt (swapElements xs root child))
      else xs)"
  by pat_completeness auto
termination
  by (relation "measure (\<lambda>(cmp, root, cnt, xs). cnt - root)")
    (auto simp: greaterChild_def Let_def split: if_splits)

declare siftDown.simps [simp del]

text \<open>The array from an element on is the part of the list that starts there.\<close>

definition heapBuild :: "('a \<Rightarrow> 'a \<Rightarrow> int) \<Rightarrow> nat \<Rightarrow> 'a list \<Rightarrow> 'a list" where
  "heapBuild cmp cnt xs =
     fold (\<lambda>parent. siftDown cmp (parent - 1) cnt) (rev [1 ..< cnt div 2 + 1]) xs"

definition heapDrain :: "('a \<Rightarrow> 'a \<Rightarrow> int) \<Rightarrow> nat \<Rightarrow> 'a list \<Rightarrow> 'a list" where
  "heapDrain cmp cnt xs =
     fold (\<lambda>remaining xs. siftDown cmp 0 (remaining - 1) (swapElements xs 0 (remaining - 1)))
       (rev [2 ..< cnt + 1]) xs"

definition heapSortRange :: "('a \<Rightarrow> 'a \<Rightarrow> int) \<Rightarrow> nat \<Rightarrow> nat \<Rightarrow> 'a list \<Rightarrow> 'a list" where
  "heapSortRange cmp start stop xs =
     (let cnt = stop - start
      in if cnt < 2 then xs
         else take start xs @ heapDrain cmp cnt (heapBuild cmp cnt (drop start xs)))"

definition Sort_heapSort ::
    "'a list option \<Rightarrow> nat \<Rightarrow> nat \<Rightarrow> ('a \<Rightarrow> 'a \<Rightarrow> int) option \<Rightarrow> bool \<times> 'a list option" where
  "Sort_heapSort values cnt elementSize compare =
     guardedSort (\<lambda>cmp. heapSortRange cmp 0 cnt) values cnt elementSize compare"

section \<open>Quick sort\<close>

definition swapIf :: "bool \<Rightarrow> nat \<Rightarrow> nat \<Rightarrow> 'a list \<Rightarrow> 'a list" where
  "swapIf b i j xs = (if b then swapElements xs i j else xs)"

text \<open>The median of the first, middle and last element goes to the end.\<close>

definition medianToLast :: "('a \<Rightarrow> 'a \<Rightarrow> int) \<Rightarrow> nat \<Rightarrow> nat \<Rightarrow> 'a list \<Rightarrow> 'a list" where
  "medianToLast cmp start final xs =
     (let middle = start + (final - start) div 2;
          xs1 = swapIf (0 < cmp (xs ! start) (xs ! middle)) start middle xs;
          xs2 = swapIf (0 < cmp (xs1 ! middle) (xs1 ! final)) middle final xs1;
          xs3 = swapIf (0 < cmp (xs2 ! start) (xs2 ! middle)) start middle xs2
      in swapElements xs3 middle final)"

definition partitionStep ::
    "('a \<Rightarrow> 'a \<Rightarrow> int) \<Rightarrow> nat \<Rightarrow> nat \<Rightarrow> nat \<times> 'a list \<Rightarrow> nat \<times> 'a list" where
  "partitionStep cmp final candidate s = (case s of (boundary, xs) \<Rightarrow>
     if cmp (xs ! candidate) (xs ! final) < 0
     then (boundary + 1, swapElements xs boundary candidate) else (boundary, xs))"

definition partitionRange ::
    "('a \<Rightarrow> 'a \<Rightarrow> int) \<Rightarrow> nat \<Rightarrow> nat \<Rightarrow> 'a list \<Rightarrow> nat \<times> 'a list" where
  "partitionRange cmp start stop xs =
     (let final = stop - 1;
          (boundary, ys) =
            fold (partitionStep cmp final) [start ..< final] (start, medianToLast cmp start final xs)
      in (boundary, swapElements ys boundary final))"

text \<open>
  The loop and the recursion both spend one unit of the depth limit; the smaller side is sorted
  first.
\<close>

primrec quickSortRange ::
    "nat \<Rightarrow> ('a \<Rightarrow> 'a \<Rightarrow> int) \<Rightarrow> nat \<Rightarrow> nat \<Rightarrow> 'a list \<Rightarrow> 'a list" where
  "quickSortRange 0 cmp start stop xs =
     (if 16 < stop - start then heapSortRange cmp start stop xs
      else insertionSortRange cmp start stop xs)"
| "quickSortRange (Suc depth) cmp start stop xs =
     (if 16 < stop - start then
        (case partitionRange cmp start stop xs of (pivot, ys) \<Rightarrow>
           if pivot - start < stop - (pivot + 1)
           then quickSortRange depth cmp (pivot + 1) stop (quickSortRange depth cmp start pivot ys)
           else quickSortRange depth cmp start pivot (quickSortRange depth cmp (pivot + 1) stop ys))
      else insertionSortRange cmp start stop xs)"

fun depthLimitFrom :: "nat \<Rightarrow> nat \<Rightarrow> nat" where
  "depthLimitFrom remaining depthLimit =
     (if 1 < remaining then depthLimitFrom (remaining div 2) (depthLimit + 2) else depthLimit)"

declare depthLimitFrom.simps [simp del]

definition Sort_quickSort ::
    "'a list option \<Rightarrow> nat \<Rightarrow> nat \<Rightarrow> ('a \<Rightarrow> 'a \<Rightarrow> int) option \<Rightarrow> bool \<times> 'a list option" where
  "Sort_quickSort values cnt elementSize compare =
     guardedSort (\<lambda>cmp. quickSortRange (depthLimitFrom cnt 0) cmp 0 cnt)
       values cnt elementSize compare"

end
