(* ===== verification/Sort_Correct.thy ===== *)
theory Sort_Correct
  imports Sort
begin

text \<open>
  The comparison sorts of \<open>src/algo/sort.c\<close> rearrange their range whatever the comparator
  answers, and order it when the comparator is consistent: one lemma of each kind per routine.
\<close>

lemma fold_rearranged:
  assumes "\<And>i ys. i \<in> set is \<Longrightarrow> length ys = length xs \<Longrightarrow> rearranged b e ys (f i ys)"
  shows "rearranged b e xs (fold f is xs)"
  using assms
proof (induction "is" arbitrary: xs)
  case (Cons i "is")
  have s: "rearranged b e xs (f i xs)" using Cons.prems by simp
  then have "rearranged b e (f i xs) (fold f is (f i xs))"
    using Cons rearranged_length [OF s] by simp
  then show ?case using rearranged_trans [OF s] by simp
qed simp

section \<open>Insertion\<close>

lemma sinkLeft_rearranged:
  "start \<le> cur \<Longrightarrow> cur < e \<Longrightarrow> e \<le> length xs \<Longrightarrow> rearranged start e xs (sinkLeft cmp start cur xs)"
proof (induction cmp start cur xs rule: sinkLeft.induct)
  case (1 cmp start cur xs)
  show ?case
  proof (cases "start < cur \<and> cmp (xs ! cur) (xs ! (cur - 1)) < 0")
    case True
    then have sw: "rearranged start e xs (swapElements xs cur (cur - 1))"
      using "1.prems" by (intro rearranged_swap) auto
    moreover have "rearranged start e (swapElements xs cur (cur - 1))
        (sinkLeft cmp start (cur - 1) (swapElements xs cur (cur - 1)))"
      by (rule "1.IH" [OF True]) (use True "1.prems" in auto)
    ultimately show ?thesis using True rearranged_trans by (subst sinkLeft.simps) auto
  next
    case False
    then show ?thesis by (subst sinkLeft.simps) auto
  qed
qed

lemma sinkLeft_ordered:
  "consistent cmp \<Longrightarrow> start \<le> cur \<Longrightarrow> cur < e \<Longrightarrow> e \<le> length xs \<Longrightarrow>
   (\<And>j k. start \<le> j \<Longrightarrow> j < k \<Longrightarrow> k < e \<Longrightarrow> j \<noteq> cur \<Longrightarrow> k \<noteq> cur \<Longrightarrow> cmp (xs ! j) (xs ! k) \<le> 0) \<Longrightarrow>
   (\<And>k. cur < k \<Longrightarrow> k < e \<Longrightarrow> cmp (xs ! cur) (xs ! k) \<le> 0) \<Longrightarrow>
   ordered cmp start e (sinkLeft cmp start cur xs)"
proof (induction cmp start cur xs rule: sinkLeft.induct)
  case (1 cmp start cur xs)
  note prems = "1.prems"
  show ?case
  proof (cases "start < cur \<and> cmp (xs ! cur) (xs ! (cur - 1)) < 0")
    case True
    let ?ys = "swapElements xs cur (cur - 1)"
    have nth: "?ys ! k = (if k = cur then xs ! (cur - 1) else if k = cur - 1 then xs ! cur else xs ! k)" for k
      using prems True by (subst nth_swapElements) auto
    have "ordered cmp start e (sinkLeft cmp start (cur - 1) ?ys)"
    proof (rule "1.IH" [OF True])
      fix j k assume jk: "start \<le> j" "j < k" "k < e" "j \<noteq> cur - 1" "k \<noteq> cur - 1"
      then show "cmp (?ys ! j) (?ys ! k) \<le> 0"
        using prems(5) [of j k] prems(5) [of "cur - 1" k] prems(5) [of j "cur - 1"] True
        unfolding nth by (cases "j = cur"; cases "k = cur") auto
    next
      fix k assume k: "cur - 1 < k" "k < e"
      show "cmp (?ys ! (cur - 1)) (?ys ! k) \<le> 0"
        using k True prems(6) [of k] unfolding nth by (cases "k = cur") auto
    qed (use prems True in auto)
    then show ?thesis using True by (subst sinkLeft.simps) simp
  next
    case False
    have low: "cmp (xs ! j) (xs ! cur) \<le> 0" if "start \<le> j" "j < cur" for j
    proof -
      have last: "cmp (xs ! (cur - 1)) (xs ! cur) \<le> 0"
        using False that consistent_not_less [OF prems(1)] by auto
      show ?thesis
        using that prems(3) prems(5) [of j "cur - 1"] last consistent_trans [OF prems(1) _ last]
        by (cases "j = cur - 1") auto
    qed
    have "ordered cmp start e xs"
    proof (rule orderedI)
      fix i j assume "start \<le> i" "i < j" "j < e"
      then show "cmp (xs ! i) (xs ! j) \<le> 0"
        using prems(5) [of i j] prems(6) [of j] low [of i] by (cases "i = cur"; cases "j = cur") auto
    qed
    moreover have "sinkLeft cmp start cur xs = xs" using False by (subst sinkLeft.simps) auto
    ultimately show ?thesis by simp
  qed
qed

lemma insertionSortRange_rearranged:
  "stop \<le> length xs \<Longrightarrow> rearranged start stop xs (insertionSortRange cmp start stop xs)"
  unfolding insertionSortRange_def
  by (rule fold_rearranged) (auto intro!: sinkLeft_rearranged split: if_splits)

lemma insertionSortRange_ordered:
  assumes "consistent cmp" "stop \<le> length xs"
  shows "ordered cmp start stop (insertionSortRange cmp start stop xs)"
proof (cases "start < stop")
  case False
  then show ?thesis by simp
next
  case True
  have "\<And>n. Suc start \<le> n \<Longrightarrow> n \<le> stop \<Longrightarrow>
      ordered cmp start n (fold (sinkLeft cmp start) [Suc start ..< n] xs) \<and>
      rearranged start n xs (fold (sinkLeft cmp start) [Suc start ..< n] xs)"
  proof -
    fix n assume "Suc start \<le> n" "n \<le> stop"
    then show "ordered cmp start n (fold (sinkLeft cmp start) [Suc start ..< n] xs) \<and>
      rearranged start n xs (fold (sinkLeft cmp start) [Suc start ..< n] xs)"
    proof (induction n rule: dec_induct)
      case base
      show ?case by simp
    next
      case (step n)
      let ?ys = "fold (sinkLeft cmp start) [Suc start ..< n] xs"
      have ys: "ordered cmp start n ?ys" "rearranged start n xs ?ys" using step by auto
      then have len: "length ?ys = length xs" by (blast dest: rearranged_length)
      have fold: "fold (sinkLeft cmp start) [Suc start ..< Suc n] xs = sinkLeft cmp start n ?ys"
        using step.hyps by simp
      have "ordered cmp start (Suc n) (sinkLeft cmp start n ?ys)"
        using assms step ys(1) len
        by (intro sinkLeft_ordered) (auto dest: orderedD)
      moreover have "rearranged start (Suc n) ?ys (sinkLeft cmp start n ?ys)"
        using assms step len by (intro sinkLeft_rearranged) auto
      then have "rearranged start (Suc n) xs (sinkLeft cmp start n ?ys)"
        using rearranged_trans [OF rearranged_widen [OF ys(2), of start "Suc n"]] by simp
      ultimately show ?case unfolding fold by blast
    qed
  qed
  from this [of stop] show ?thesis using True by (simp add: insertionSortRange_def)
qed

section \<open>Selection\<close>

lemma minimumFrom_least:
  assumes "consistent cmp" "first < n"
  shows "first \<le> minimumFrom cmp xs first n \<and> minimumFrom cmp xs first n < n \<and>
    (\<forall>k. first \<le> k \<longrightarrow> k < n \<longrightarrow> cmp (xs ! minimumFrom cmp xs first n) (xs ! k) \<le> 0)"
  using assms(2)
proof (induction n)
  case (Suc n)
  show ?case
  proof (cases "first = n")
    case True
    then show ?thesis using assms(1) le_less_Suc_eq by (auto simp: minimumFrom_def)
  next
    case False
    let ?m = "minimumFrom cmp xs first n"
    have IH: "first \<le> ?m" "?m < n" "\<And>k. first \<le> k \<Longrightarrow> k < n \<Longrightarrow> cmp (xs ! ?m) (xs ! k) \<le> 0"
      using Suc False by auto
    have step: "minimumFrom cmp xs first (Suc n) = (if cmp (xs ! n) (xs ! ?m) < 0 then n else ?m)"
      using Suc.prems False by (simp add: minimumFrom_def)
    show ?thesis
    proof (cases "cmp (xs ! n) (xs ! ?m) < 0")
      case True
      then have "cmp (xs ! n) (xs ! k) \<le> 0" if "first \<le> k" "k \<le> n" for k
        using that IH(3) [of k] consistent_trans [OF assms(1), of "xs ! n" "xs ! ?m" "xs ! k"] assms(1)
        by (cases "k = n") auto
      then show ?thesis using True Suc.prems by (simp add: step)
    next
      case False
      then have "cmp (xs ! ?m) (xs ! n) \<le> 0" using consistent_not_less [OF assms(1)] by blast
      then have "cmp (xs ! ?m) (xs ! k) \<le> 0" if "first \<le> k" "k \<le> n" for k
        using that IH(3) [of k] by (cases "k = n") auto
      then show ?thesis using False IH by (simp add: step)
    qed
  qed
qed simp

lemma minimumFrom_range: "first < n \<Longrightarrow> first \<le> minimumFrom cmp xs first n \<and> minimumFrom cmp xs first n < n"
proof -
  have "first \<le> fold (\<lambda>c m. if cmp (xs ! c) (xs ! m) < 0 then c else m) is m \<and>
      fold (\<lambda>c m. if cmp (xs ! c) (xs ! m) < 0 then c else m) is m < n"
    if "\<forall>i \<in> set is. first \<le> i \<and> i < n" "first \<le> m" "m < n" for "is" m
    using that by (induction "is" arbitrary: m) auto
  from this [of "[first + 1 ..< n]" first] show "first < n \<Longrightarrow> ?thesis"
    by (auto simp: minimumFrom_def)
qed

lemma selectionSortRange_rearranged:
  "n \<le> length xs \<Longrightarrow> rearranged 0 n xs (selectionSortRange cmp n xs)"
  unfolding selectionSortRange_def
  by (rule fold_rearranged) (use minimumFrom_range in \<open>auto intro!: rearranged_swap\<close>)

lemma selectionSortRange_ordered:
  assumes "consistent cmp" "n \<le> length xs"
  shows "ordered cmp 0 n (selectionSortRange cmp n xs)"
proof -
  let ?f = "\<lambda>first xs. swapElements xs first (minimumFrom cmp xs first n)"
  have "k \<le> n \<Longrightarrow> length (fold ?f [0 ..< k] xs) = length xs \<and>
      (\<forall>i j. i < j \<longrightarrow> i < k \<longrightarrow> j < n \<longrightarrow>
        cmp (fold ?f [0 ..< k] xs ! i) (fold ?f [0 ..< k] xs ! j) \<le> 0)" for k
  proof (induction k)
    case (Suc k)
    let ?ys = "fold ?f [0 ..< k] xs" let ?m = "minimumFrom cmp ?ys k n"
    have IH: "length ?ys = length xs" "\<And>i j. i < j \<Longrightarrow> i < k \<Longrightarrow> j < n \<Longrightarrow> cmp (?ys ! i) (?ys ! j) \<le> 0"
      using Suc by auto
    have m: "k \<le> ?m" "?m < n" "\<And>j. k \<le> j \<Longrightarrow> j < n \<Longrightarrow> cmp (?ys ! ?m) (?ys ! j) \<le> 0"
      using minimumFrom_least [OF assms(1), of k n ?ys] Suc.prems by auto
    have nth: "swapElements ?ys k ?m ! i = (if i = k then ?ys ! ?m else if i = ?m then ?ys ! k else ?ys ! i)" for i
      using Suc.prems assms(2) IH(1) m(2) by (intro nth_swapElements) auto
    have "cmp (swapElements ?ys k ?m ! i) (swapElements ?ys k ?m ! j) \<le> 0"
      if "i < j" "i < Suc k" "j < n" for i j
      using that m Suc.prems IH(2) [of i] by (auto simp: nth less_Suc_eq)
    then show ?case using IH(1) by simp
  qed simp
  from this [of n] show ?thesis unfolding selectionSortRange_def by (auto intro!: orderedI)
qed

section \<open>Bubble\<close>

text \<open>The first \<open>k\<close> comparisons of a pass carry the greatest element to position \<open>k\<close>.\<close>

lemma bubble_prefix:
  assumes "n \<le> length xs" "Suc k \<le> n"
  shows "case fold (bubbleStep cmp) [1 ..< Suc k] (False, xs) of (changed, ys) \<Rightarrow>
    rearranged 0 (Suc k) xs ys \<and>
    (consistent cmp \<longrightarrow> (\<forall>j \<le> k. cmp (ys ! j) (ys ! k) \<le> 0)) \<and>
    (\<not> changed \<longrightarrow> ys = xs \<and> (\<forall>i < k. \<not> cmp (xs ! Suc i) (xs ! i) < 0))"
  using assms(2)
proof (induction k)
  case 0
  then show ?case by simp
next
  case (Suc k)
  obtain ch ys where ys: "fold (bubbleStep cmp) [1 ..< Suc k] (False, xs) = (ch, ys)" by fastforce
  have IH: "rearranged 0 (Suc k) xs ys" "consistent cmp \<Longrightarrow> \<forall>j \<le> k. cmp (ys ! j) (ys ! k) \<le> 0"
    "\<not> ch \<Longrightarrow> ys = xs \<and> (\<forall>i < k. \<not> cmp (xs ! Suc i) (xs ! i) < 0)"
    using Suc unfolding ys by auto
  have len: "length ys = length xs" using IH(1) by (rule rearranged_length)
  have step: "fold (bubbleStep cmp) [1 ..< Suc (Suc k)] (False, xs) = bubbleStep cmp (Suc k) (ch, ys)"
    using ys by simp
  have nth: "swapElements ys (Suc k) k ! i =
      (if i = Suc k then ys ! k else if i = k then ys ! Suc k else ys ! i)" for i
    using Suc.prems assms(1) len by (intro nth_swapElements) auto
  have wide: "rearranged 0 (Suc (Suc k)) xs ys" using IH(1) by (rule rearranged_widen) auto
  show ?case
  proof (cases "cmp (ys ! Suc k) (ys ! k) < 0")
    case True
    have "rearranged 0 (Suc (Suc k)) ys (swapElements ys (Suc k) k)"
      using Suc.prems assms(1) len by (intro rearranged_swap) auto
    moreover have "\<forall>j \<le> Suc k. cmp (swapElements ys (Suc k) k ! j) (swapElements ys (Suc k) k ! Suc k) \<le> 0"
      if "consistent cmp" using IH(2) [OF that] True that unfolding nth by (auto simp: le_Suc_eq)
    ultimately show ?thesis
      using True rearranged_trans [OF wide] unfolding step by (simp add: bubbleStep_def)
  next
    case False
    have "\<forall>j \<le> Suc k. cmp (ys ! j) (ys ! Suc k) \<le> 0" if c: "consistent cmp"
      using IH(2) [OF c] False consistent_not_less [OF c] consistent_trans [OF c] c
      by (metis consistent_refl le_Suc_eq)
    moreover have "\<not> ch \<longrightarrow> \<not> cmp (xs ! Suc k) (xs ! k) < 0" using IH(3) False by auto
    ultimately show ?thesis
      using False IH(3) wide unfolding step by (simp add: bubbleStep_def less_Suc_eq)
  qed
qed

lemma bubblePass_cases:
  assumes "n \<le> length xs" "1 < u" "u \<le> n" "bubblePass cmp u xs = (changed, ys)"
  shows "rearranged 0 u xs ys" "consistent cmp \<Longrightarrow> j < u \<Longrightarrow> cmp (ys ! j) (ys ! (u - 1)) \<le> 0"
    "\<not> changed \<Longrightarrow> ys = xs \<and> (\<forall>i. Suc i < u \<longrightarrow> \<not> cmp (xs ! Suc i) (xs ! i) < 0)"
proof -
  obtain k where k: "u = Suc k" using assms(2) by (cases u) auto
  have ys: "fold (bubbleStep cmp) [1 ..< Suc k] (False, xs) = (changed, ys)"
    using assms(4) k by (simp add: bubblePass_def)
  have "Suc k \<le> n" using assms(3) k by simp
  note P = bubble_prefix [OF assms(1) this, of cmp, unfolded ys prod.case]
  show "rearranged 0 u xs ys" "consistent cmp \<Longrightarrow> j < u \<Longrightarrow> cmp (ys ! j) (ys ! (u - 1)) \<le> 0"
    "\<not> changed \<Longrightarrow> ys = xs \<and> (\<forall>i. Suc i < u \<longrightarrow> \<not> cmp (xs ! Suc i) (xs ! i) < 0)"
    using P k by auto
qed

lemma bubbleLoop_rearranged:
  "u \<le> n \<Longrightarrow> n \<le> length xs \<Longrightarrow> rearranged 0 n xs (bubbleLoop cmp u xs)"
proof (induction cmp u xs rule: bubbleLoop.induct)
  case (1 cmp u xs)
  show ?case
  proof (cases "1 < u")
    case False
    then show ?thesis by (subst bubbleLoop.simps) simp
  next
    case True
    obtain ch ys where p: "bubblePass cmp u xs = (ch, ys)" by fastforce
    have r: "rearranged 0 n xs ys"
      using bubblePass_cases(1) [OF "1.prems"(2) True "1.prems"(1) p] by (rule rearranged_widen) (use "1.prems" in auto)
    then have len: "length ys = length xs" by (rule rearranged_length)
    have "rearranged 0 n ys (bubbleLoop cmp (u - 1) ys)" if ch
      using "1.IH" [OF True p [symmetric] that] "1.prems" len by simp
    then show ?thesis
      using True p r rearranged_trans [OF r] by (subst bubbleLoop.simps) (auto split: prod.splits)
  qed
qed

lemma ordered_adjacent:
  assumes "consistent cmp" "\<And>i. Suc i < e \<Longrightarrow> \<not> cmp (xs ! Suc i) (xs ! i) < 0"
  shows "ordered cmp 0 e xs"
proof (rule orderedI)
  fix i j assume "i < j" "j < e"
  then show "cmp (xs ! i) (xs ! j) \<le> 0"
  proof (induction j)
    case (Suc j)
    have "cmp (xs ! j) (xs ! Suc j) \<le> 0"
      using assms(2) [of j] consistent_not_less [OF assms(1)] Suc.prems by blast
    then show ?case
      using Suc consistent_trans [OF assms(1)] by (cases "i = j") (auto simp: less_Suc_eq)
  qed simp
qed

lemma bubbleLoop_ordered:
  "consistent cmp \<Longrightarrow> u \<le> n \<Longrightarrow> n \<le> length xs \<Longrightarrow>
   (\<And>i j. u \<le> j \<Longrightarrow> j < n \<Longrightarrow> i < j \<Longrightarrow> cmp (xs ! i) (xs ! j) \<le> 0) \<Longrightarrow>
   ordered cmp 0 n (bubbleLoop cmp u xs)"
proof (induction cmp u xs rule: bubbleLoop.induct)
  case (1 cmp u xs)
  note prems = "1.prems"
  show ?case
  proof (cases "1 < u")
    case False
    have "ordered cmp 0 n xs"
    proof (rule orderedI)
      fix i j assume "i < j" "j < n" then show "cmp (xs ! i) (xs ! j) \<le> 0"
        using prems(4) [of j i] False by simp
    qed
    then show ?thesis using False by (subst bubbleLoop.simps) simp
  next
    case True
    obtain ch ys where p: "bubblePass cmp u xs = (ch, ys)" by fastforce
    note P = bubblePass_cases [OF prems(3) True prems(2) p]
    have len: "length ys = length xs" using P(1) by (rule rearranged_length)
    have above: "cmp (ys ! i) (ys ! j) \<le> 0" if "u \<le> j" "j < n" "i < j" for i j
    proof -
      have "ys ! j = xs ! j" using rearranged_outside [OF P(1)] that(1) by simp
      moreover have "cmp (ys ! i) (xs ! j) \<le> 0"
      proof (cases "i < u")
        case True
        then show ?thesis
          using rearranged_all [OF P(1), of "\<lambda>a. cmp a (xs ! j) \<le> 0" i] prems(2,3,4) that by auto
      next
        case False
        then show ?thesis using rearranged_outside [OF P(1), of i] prems(4) that by simp
      qed
      ultimately show ?thesis by simp
    qed
    show ?thesis
    proof (cases ch)
      case True
      have "cmp (ys ! i) (ys ! j) \<le> 0" if "u - 1 \<le> j" "j < n" "i < j" for i j
        using above [of j i] P(2) [OF prems(1), of i] that by (cases "j = u - 1") auto
      then have "ordered cmp 0 n (bubbleLoop cmp (u - 1) ys)"
        using "1.IH" [OF \<open>1 < u\<close> p [symmetric] True] prems len by simp
      then show ?thesis using \<open>1 < u\<close> True p by (subst bubbleLoop.simps) simp
    next
      case False
      then have o: "ordered cmp 0 u xs" using ordered_adjacent [OF prems(1)] P(3) by blast
      have "ordered cmp 0 n xs"
      proof (rule orderedI)
        fix i j assume "i < j" "j < n" then show "cmp (xs ! i) (xs ! j) \<le> 0"
          using prems(4) [of j i] orderedD [OF o, of i j] by (cases "j < u") auto
      qed
      then show ?thesis using \<open>1 < u\<close> False p P(3) by (subst bubbleLoop.simps) simp
    qed
  qed
qed

end
