(* ===== verification/Sort_Heap.thy ===== *)
theory Sort_Heap
  imports Sort_Correct
begin

text \<open>
  Heap sort: the order of the heap, restored by sifting, and the drain that takes the greatest
  element to the end again and again.
\<close>

definition childOf :: "nat \<Rightarrow> nat \<Rightarrow> bool" where
  "childOf i c \<longleftrightarrow> c = i * 2 + 1 \<or> c = i * 2 + 2"

definition heapAt :: "('a \<Rightarrow> 'a \<Rightarrow> int) \<Rightarrow> nat \<Rightarrow> 'a list \<Rightarrow> nat \<Rightarrow> bool" where
  "heapAt cmp n xs i \<longleftrightarrow> (\<forall>c. childOf i c \<longrightarrow> c < n \<longrightarrow> cmp (xs ! c) (xs ! i) \<le> 0)"

lemma childOf_less: "childOf i c \<Longrightarrow> i < c"
  by (auto simp: childOf_def)

lemma childOf_unique: "childOf i c \<Longrightarrow> childOf j c \<Longrightarrow> i = j"
  by (auto simp: childOf_def)

lemma childOf_half: "childOf i c \<Longrightarrow> c < n \<Longrightarrow> i < n div 2"
  by (auto simp: childOf_def)

lemma greaterChild_child:
  assumes "r < n div 2"
  shows "childOf r (greaterChild cmp r n xs)" "greaterChild cmp r n xs < n"
  using assms by (auto simp: childOf_def greaterChild_def Let_def)

lemma greaterChild_greater:
  assumes "consistent cmp" "childOf r c" "c < n"
  shows "cmp (xs ! c) (xs ! greaterChild cmp r n xs) \<le> 0"
  using assms consistent_not_less [OF assms(1), of "xs ! (r * 2 + 1)" "xs ! (r * 2 + 2)"]
  by (auto simp: childOf_def greaterChild_def Let_def)

lemma siftDown_rearranged:
  "n \<le> length xs \<Longrightarrow> rearranged r n xs (siftDown cmp r n xs)"
proof (induction "n - r" arbitrary: r xs rule: less_induct)
  case less
  show ?case
  proof (cases "r < n div 2")
    case False
    then show ?thesis by (subst siftDown.simps) simp
  next
    case True
    let ?child = "greaterChild cmp r n xs"
    note c = greaterChild_child [OF True, of cmp xs]
    then have lt: "r < ?child" by (simp add: childOf_less)
    have "rearranged r n xs (swapElements xs r ?child)"
      using lt c(2) less.prems by (intro rearranged_swap) auto
    moreover have "rearranged ?child n (swapElements xs r ?child) (siftDown cmp ?child n (swapElements xs r ?child))"
      using less.hyps [of ?child "swapElements xs r ?child"] lt c(2) less.prems by simp
    then have "rearranged r n (swapElements xs r ?child) (siftDown cmp ?child n (swapElements xs r ?child))"
      by (rule rearranged_widen) (use lt in auto)
    ultimately show ?thesis
      using True rearranged_trans by (subst siftDown.simps) (auto simp: Let_def)
  qed
qed

lemma siftDown_heap:
  "consistent cmp \<Longrightarrow> n \<le> length xs \<Longrightarrow> k \<le> r \<Longrightarrow>
   (\<And>i. k \<le> i \<Longrightarrow> i \<noteq> r \<Longrightarrow> heapAt cmp n xs i) \<Longrightarrow>
   (\<And>i c. k \<le> i \<Longrightarrow> childOf i r \<Longrightarrow> childOf r c \<Longrightarrow> c < n \<Longrightarrow> cmp (xs ! c) (xs ! i) \<le> 0) \<Longrightarrow>
   k \<le> i \<Longrightarrow> heapAt cmp n (siftDown cmp r n xs) i"
proof (induction "n - r" arbitrary: r xs i rule: less_induct)
  case less
  note cons = less.prems(1) and len = less.prems(2) and kr = less.prems(3)
  note H1 = less.prems(4) and H2 = less.prems(5)
  show ?case
  proof (cases "r < n div 2")
    case False
    then have "heapAt cmp n xs r" using childOf_half by (auto simp: heapAt_def)
    then show ?thesis using H1 less.prems(6) False by (subst siftDown.simps) (cases "i = r"; simp)
  next
    case half: True
    let ?child = "greaterChild cmp r n xs"
    note c = greaterChild_child [OF half, of cmp xs] greaterChild_greater [OF cons]
    have lt: "r < ?child" using c(1) by (rule childOf_less)
    let ?ys = "swapElements xs r ?child"
    have step: "siftDown cmp r n xs = (if 0 \<le> cmp (xs ! r) (xs ! ?child) then xs else siftDown cmp ?child n ?ys)"
      using half by (subst siftDown.simps) (simp add: Let_def)
    show ?thesis
    proof (cases "0 \<le> cmp (xs ! r) (xs ! ?child)")
      case True
      then have "cmp (xs ! ?child) (xs ! r) \<le> 0" using consistent_not_less [OF cons, of "xs ! r"] by (simp add: not_less)
      then have "heapAt cmp n xs r"
        using c(3) consistent_trans [OF cons] unfolding heapAt_def by blast
      then show ?thesis using True H1 less.prems(6) unfolding step by (cases "i = r") auto
    next
      case False
      have nth: "?ys ! j = (if j = r then xs ! ?child else if j = ?child then xs ! r else xs ! j)" for j
        using lt c(2) len by (intro nth_swapElements) auto
      have "heapAt cmp n (siftDown cmp ?child n ?ys) i"
      proof (rule less.hyps)
        fix j assume j: "k \<le> j" "j \<noteq> ?child"
        show "heapAt cmp n ?ys j"
          unfolding heapAt_def
        proof (intro allI impI)
          fix d assume d: "childOf j d" "d < n"
          show "cmp (?ys ! d) (?ys ! j) \<le> 0"
          proof (cases "j = r")
            case True
            then show ?thesis
              using greaterChild_greater [OF cons, of r d n xs] d False childOf_less [of r d] unfolding nth by (cases "d = ?child") auto
          next
            case njr: False
            have dc: "d \<noteq> ?child" using childOf_unique [OF d(1)] c(1) njr by blast
            have "cmp (xs ! d) (xs ! j) \<le> 0" using H1 [OF j(1) njr] d by (simp add: heapAt_def)
            moreover have "cmp (xs ! ?child) (xs ! j) \<le> 0" if "d = r"
              using H2 [OF j(1) _ c(1,2)] d(1) that by simp
            ultimately show ?thesis using njr dc j(2) unfolding nth by auto
          qed
        qed
      next
        fix j d assume a: "k \<le> j" "childOf j ?child" "childOf ?child d" "d < n"
        have "j = r" using childOf_unique [OF a(2) c(1)] .
        moreover have "cmp (xs ! d) (xs ! ?child) \<le> 0"
          using H1 [of ?child] a(3,4) kr lt by (simp add: heapAt_def)
        ultimately show "cmp (?ys ! d) (?ys ! j) \<le> 0"
          using childOf_less [OF a(3)] lt unfolding nth by auto
      qed (use lt c(2) len kr less.prems(6) cons in auto)
      then show ?thesis using False unfolding step by simp
    qed
  qed
qed

text \<open>The root of a heap is its greatest element.\<close>

lemma heap_root:
  assumes "consistent cmp" "\<And>i. heapAt cmp n xs i"
  shows "i < n \<Longrightarrow> cmp (xs ! i) (xs ! 0) \<le> 0"
proof (induction i rule: less_induct)
  case (less i)
  show ?case
  proof (cases "i = 0")
    case False
    have "childOf ((i - 1) div 2) i" unfolding childOf_def using False by presburger
    moreover have "(i - 1) div 2 < i" using False by presburger
    ultimately show ?thesis
      using assms(2) [of "(i - 1) div 2"] less consistent_trans [OF assms(1)]
      unfolding heapAt_def by (meson less_trans)
  qed (use assms in simp)
qed

section \<open>Building and draining\<close>

lemma heapBuild_rearranged: "n \<le> length xs \<Longrightarrow> rearranged 0 n xs (heapBuild cmp n xs)"
  unfolding heapBuild_def
  by (rule fold_rearranged, rule rearranged_widen [OF siftDown_rearranged]) auto

lemma heapBuild_heap:
  assumes "consistent cmp" "n \<le> length xs"
  shows "heapAt cmp n (heapBuild cmp n xs) i"
proof -
  let ?f = "\<lambda>p :: nat. siftDown cmp (p - 1) n"
  have "m \<le> n div 2 \<Longrightarrow> length (fold ?f (rev [m + 1 ..< n div 2 + 1]) xs) = length xs \<and>
      (\<forall>i \<ge> m. heapAt cmp n (fold ?f (rev [m + 1 ..< n div 2 + 1]) xs) i)" for m
  proof (induction "n div 2 - m" arbitrary: m)
    case 0
    then show ?case using childOf_half by (fastforce simp: heapAt_def)
  next
    case (Suc d)
    let ?ys = "fold ?f (rev [Suc m + 1 ..< n div 2 + 1]) xs"
    have IH: "length ?ys = length xs" "\<forall>i \<ge> Suc m. heapAt cmp n ?ys i"
      using Suc.hyps(1) [of "Suc m"] Suc.hyps(2) Suc.prems by auto
    have upt: "[m + 1 ..< n div 2 + 1] = Suc m # [Suc m + 1 ..< n div 2 + 1]"
      using Suc.hyps(2) by (simp add: upt_rec)
    have step: "fold ?f (rev [m + 1 ..< n div 2 + 1]) xs = siftDown cmp m n ?ys"
      unfolding upt by simp
    have "heapAt cmp n (siftDown cmp m n ?ys) i" if "m \<le> i" for i
      by (rule siftDown_heap [OF assms(1), where k = m])
        (use IH assms(2) that in \<open>auto dest: childOf_less\<close>)
    moreover have "rearranged m n ?ys (siftDown cmp m n ?ys)"
      by (rule siftDown_rearranged) (use IH(1) assms(2) in simp)
    then have "length (siftDown cmp m n ?ys) = length xs" using rearranged_length IH(1) by fastforce
    ultimately show ?case unfolding step by blast
  qed
  from this [of 0] show ?thesis unfolding heapBuild_def by simp
qed

lemma heapDrain_rearranged: "n \<le> length xs \<Longrightarrow> rearranged 0 n xs (heapDrain cmp n xs)"
  unfolding heapDrain_def
proof (rule fold_rearranged)
  fix i and ys :: "'a list"
  assume i: "n \<le> length xs" "i \<in> set (rev [2 ..< n + 1])" "length ys = length xs"
  then have "rearranged 0 n ys (swapElements ys 0 (i - 1))" by (intro rearranged_swap) auto
  moreover have "rearranged 0 n (swapElements ys 0 (i - 1))
      (siftDown cmp 0 (i - 1) (swapElements ys 0 (i - 1)))"
    by (rule rearranged_widen [OF siftDown_rearranged]) (use i in auto)
  ultimately show "rearranged 0 n ys (siftDown cmp 0 (i - 1) (swapElements ys 0 (i - 1)))"
    by (rule rearranged_trans)
qed

lemma heapDrain_ordered:
  assumes "consistent cmp" "n \<le> length xs" "\<And>i. heapAt cmp n xs i" "1 \<le> n"
  shows "ordered cmp 0 n (heapDrain cmp n xs)"
proof -
  let ?f = "\<lambda>r xs. siftDown cmp 0 (r - 1) (swapElements xs 0 (r - 1))"
  have "1 \<le> m \<Longrightarrow> m \<le> n \<Longrightarrow>
      (let ys = fold ?f (rev [m + 1 ..< n + 1]) xs in
        length ys = length xs \<and> (\<forall>i. heapAt cmp m ys i) \<and> 
        (\<forall>i j. m \<le> j \<longrightarrow> j < n \<longrightarrow> i < j \<longrightarrow> cmp (ys ! i) (ys ! j) \<le> 0))" for m
  proof (induction "n - m" arbitrary: m)
    case 0
    then show ?case using assms(3) by (auto simp: Let_def)
  next
    case (Suc d)
    let ?ys = "fold ?f (rev [Suc m + 1 ..< n + 1]) xs"
    have IH: "length ?ys = length xs" "\<And>i. heapAt cmp (Suc m) ?ys i"
      "\<And>i j. Suc m \<le> j \<Longrightarrow> j < n \<Longrightarrow> i < j \<Longrightarrow> cmp (?ys ! i) (?ys ! j) \<le> 0"
      using Suc.hyps(1) [of "Suc m"] Suc.hyps(2) Suc.prems by (auto simp: Let_def)
    let ?zs = "swapElements ?ys 0 m"
    have nth: "?zs ! j = (if j = 0 then ?ys ! m else if j = m then ?ys ! 0 else ?ys ! j)" for j
      using Suc.hyps(2) Suc.prems IH(1) assms(2) by (intro nth_swapElements) auto
    have upt: "[m + 1 ..< n + 1] = Suc m # [Suc m + 1 ..< n + 1]"
      using Suc.hyps(2) by (simp add: upt_rec)
    have step: "fold ?f (rev [m + 1 ..< n + 1]) xs = siftDown cmp 0 m ?zs"
      unfolding upt by simp
    have heap: "heapAt cmp m (siftDown cmp 0 m ?zs) i" for i :: nat
    proof (rule siftDown_heap [OF assms(1), where k = 0])
      fix j :: nat assume "j \<noteq> 0"
      show "heapAt cmp m ?zs j"
        unfolding heapAt_def
      proof (intro allI impI)
        fix d assume d: "childOf j d" "d < m"
        then have "j < d" by (simp add: childOf_less)
        moreover have "cmp (?ys ! d) (?ys ! j) \<le> 0" using IH(2) [of j] d by (simp add: heapAt_def)
        ultimately show "cmp (?zs ! d) (?zs ! j) \<le> 0" using \<open>j \<noteq> 0\<close> d(2) unfolding nth by auto
      qed
    next
      fix j c assume "childOf j 0" then show "cmp (?zs ! c) (?zs ! j) \<le> 0"
        by (simp add: childOf_def)
    qed (use Suc.hyps(2) IH(1) assms(2) in auto)
    have r: "rearranged 0 m ?zs (siftDown cmp 0 m ?zs)"
      by (rule siftDown_rearranged) (use Suc.hyps(2) IH(1) assms(2) in auto)
    have top: "cmp (?ys ! i) (?ys ! 0) \<le> 0" if "i \<le> m" for i
      using heap_root [OF assms(1) IH(2), of i] that by simp
    have "cmp (siftDown cmp 0 m ?zs ! i) (siftDown cmp 0 m ?zs ! j) \<le> 0"
      if j: "m \<le> j" "j < n" "i < j" for i j
    proof -
      have fin: "siftDown cmp 0 m ?zs ! j = ?zs ! j" using rearranged_outside [OF r] j(1) by blast
      have all: "cmp (?zs ! l) (?zs ! j) \<le> 0" if "l < j" for l
      proof (cases "j = m")
        case True
        then show ?thesis using top [of l] top [of m] that Suc.prems(1) unfolding nth by auto
      next
        case False
        then show ?thesis
          using IH(3) [of j l] IH(3) [of j m] IH(3) [of j 0] that j Suc.prems(1) unfolding nth by auto
      qed
      have "cmp (siftDown cmp 0 m ?zs ! i) (?zs ! j) \<le> 0"
      proof (cases "i < m")
        case True
        then show ?thesis
          using rearranged_all [OF r, of "\<lambda>a. cmp a (?zs ! j) \<le> 0" i] all j(1) Suc.hyps(2) IH(1) assms(2)
          by auto
      next
        case False
        then show ?thesis using rearranged_outside [OF r, of i] all [OF j(3)] by simp
      qed
      then show ?thesis unfolding fin .
    qed
    moreover have "length (siftDown cmp 0 m ?zs) = length xs"
      using rearranged_length [OF r] IH(1) by simp
    ultimately show ?case unfolding step Let_def using heap by blast
  qed
  from this [of 1] have "\<forall>i j. 1 \<le> j \<longrightarrow> j < n \<longrightarrow> i < j \<longrightarrow>
      cmp (heapDrain cmp n xs ! i) (heapDrain cmp n xs ! j) \<le> 0"
    using assms(4) unfolding heapDrain_def by (simp add: Let_def numeral_2_eq_2)
  then show ?thesis by (auto intro!: orderedI)
qed

lemma heapSortRange_rearranged:
  assumes "stop \<le> length xs"
  shows "rearranged start stop xs (heapSortRange cmp start stop xs)"
proof (cases "stop - start < 2")
  case False
  let ?d = "drop start xs" let ?n = "stop - start"
  let ?ys = "heapDrain cmp ?n (heapBuild cmp ?n ?d)"
  have n: "?n \<le> length ?d" using assms by simp
  have b: "rearranged 0 ?n ?d (heapBuild cmp ?n ?d)" using n by (rule heapBuild_rearranged)
  have r: "rearranged 0 ?n ?d ?ys"
    using rearranged_trans [OF b heapDrain_rearranged] n rearranged_length [OF b] by simp
  have "(take start xs @ ?ys) ! i = xs ! i" if "i < start \<or> stop \<le> i" for i
    using rearranged_outside [OF r, of "i - start"] that False assms by (auto simp: nth_append)
  then show ?thesis
    using False rearranged_mset [OF r] mset_append [of "take start xs" "drop start xs"]
    unfolding heapSortRange_def rearranged_def Let_def by simp
qed (simp add: heapSortRange_def Let_def)

lemma heapSortRange_ordered:
  assumes "consistent cmp" "stop \<le> length xs"
  shows "ordered cmp start stop (heapSortRange cmp start stop xs)"
proof (cases "stop - start < 2")
  case False
  let ?d = "drop start xs" let ?n = "stop - start"
  have n: "?n \<le> length ?d" using assms by simp
  have "length (heapBuild cmp ?n ?d) = length ?d"
    using rearranged_length [OF heapBuild_rearranged [OF n]] .
  then have o: "ordered cmp 0 ?n (heapDrain cmp ?n (heapBuild cmp ?n ?d))"
    using heapDrain_ordered [OF assms(1)] heapBuild_heap [OF assms(1) n] n False by simp
  show ?thesis
  proof (rule orderedI)
    fix i j assume "start \<le> i" "i < j" "j < stop"
    then show "cmp (heapSortRange cmp start stop xs ! i) (heapSortRange cmp start stop xs ! j) \<le> 0"
      using orderedD [OF o, of "i - start" "j - start"] False assms(2)
      by (simp add: heapSortRange_def nth_append Let_def)
  qed
qed simp

end
