(* ===== verification/Sort_Quick.thy ===== *)
theory Sort_Quick
  imports Sort_Heap
begin

text \<open>
  Quick sort: the partition around the median of three, the recursion with its depth limit, and
  the entry points of all in-place comparison sorts.
\<close>

section \<open>Partition\<close>

lemma swapIf_rearranged:
  "b \<le> i \<Longrightarrow> i < e \<Longrightarrow> b \<le> j \<Longrightarrow> j < e \<Longrightarrow> e \<le> length xs \<Longrightarrow> rearranged b e xs (swapIf p i j xs)"
  by (simp add: swapIf_def rearranged_swap)

lemma medianToLast_rearranged:
  assumes "start < stop" "stop \<le> length xs"
  shows "rearranged start stop xs (medianToLast cmp start (stop - 1) xs)"
proof -
  let ?l = "stop - 1" let ?m = "start + (?l - start) div 2"
  have i: "start \<le> ?m" "?m < stop" "?l < stop" "start \<le> ?l" using assms(1) by auto
  let ?xs1 = "swapIf (0 < cmp (xs ! start) (xs ! ?m)) start ?m xs"
  let ?xs2 = "swapIf (0 < cmp (?xs1 ! ?m) (?xs1 ! ?l)) ?m ?l ?xs1"
  let ?xs3 = "swapIf (0 < cmp (?xs2 ! start) (?xs2 ! ?m)) start ?m ?xs2"
  have r1: "rearranged start stop xs ?xs1"
    by (rule swapIf_rearranged) (use i assms in auto)
  have r2: "rearranged start stop xs ?xs2"
    by (rule rearranged_trans [OF r1 swapIf_rearranged])
      (use i assms rearranged_length [OF r1] in auto)
  have r3: "rearranged start stop xs ?xs3"
    by (rule rearranged_trans [OF r2 swapIf_rearranged])
      (use i assms rearranged_length [OF r2] in auto)
  have "rearranged start stop xs (swapElements ?xs3 ?m ?l)"
    by (rule rearranged_trans [OF r3 rearranged_swap])
      (use i assms rearranged_length [OF r3] in auto)
  then show ?thesis by (simp add: medianToLast_def Let_def)
qed

text \<open>
  The scan keeps the smaller elements below the boundary and the others between it and the
  candidate; the pivot at the end stays.
\<close>

lemma partition_scan:
  assumes "l < length xs" "start \<le> k" "k \<le> l"
  shows "case fold (partitionStep cmp l) [start ..< k] (start, xs) of (p, ys) \<Rightarrow>
    rearranged start l xs ys \<and> start \<le> p \<and> p \<le> k \<and> ys ! l = xs ! l \<and>
    (\<forall>i. start \<le> i \<longrightarrow> i < p \<longrightarrow> cmp (ys ! i) (xs ! l) < 0) \<and>
    (\<forall>i. p \<le> i \<longrightarrow> i < k \<longrightarrow> \<not> cmp (ys ! i) (xs ! l) < 0)"
  using assms(2,3)
proof (induction k rule: dec_induct)
  case base
  show ?case by simp
next
  case (step k)
  obtain p ys where ys: "fold (partitionStep cmp l) [start ..< k] (start, xs) = (p, ys)" by fastforce
  have IH: "rearranged start l xs ys" "start \<le> p" "p \<le> k" "ys ! l = xs ! l"
    "\<forall>i. start \<le> i \<longrightarrow> i < p \<longrightarrow> cmp (ys ! i) (xs ! l) < 0"
    "\<forall>i. p \<le> i \<longrightarrow> i < k \<longrightarrow> \<not> cmp (ys ! i) (xs ! l) < 0"
    using step unfolding ys by auto
  have fold: "fold (partitionStep cmp l) [start ..< Suc k] (start, xs) = partitionStep cmp l k (p, ys)"
    using ys step.hyps by simp
  have len: "length ys = length xs" using IH(1) by (rule rearranged_length)
  show ?case
  proof (cases "cmp (ys ! k) (xs ! l) < 0")
    case True
    have nth: "swapElements ys p k ! i = (if i = p then ys ! k else if i = k then ys ! p else ys ! i)" for i
      using step IH(2,3) len assms(1) by (intro nth_swapElements) auto
    have "rearranged start l ys (swapElements ys p k)"
      by (rule rearranged_swap) (use step IH(2,3) len assms(1) in auto)
    then have "rearranged start l xs (swapElements ys p k)" by (rule rearranged_trans [OF IH(1)])
    then show ?thesis
      unfolding fold using True step IH by (auto simp: partitionStep_def nth)
  next
    case False
    then show ?thesis unfolding fold using step IH by (auto simp: partitionStep_def less_Suc_eq)
  qed
qed

lemma partitionRange_cases:
  assumes "start < stop" "stop \<le> length xs" "partitionRange cmp start stop xs = (p, ys)"
  shows "rearranged start stop xs ys" "start \<le> p" "p < stop"
    "start \<le> i \<Longrightarrow> i < p \<Longrightarrow> cmp (ys ! i) (ys ! p) < 0"
    "p < i \<Longrightarrow> i < stop \<Longrightarrow> consistent cmp \<Longrightarrow> cmp (ys ! p) (ys ! i) \<le> 0"
proof -
  let ?l = "stop - 1" let ?xs = "medianToLast cmp start ?l xs"
  have r0: "rearranged start stop xs ?xs" by (rule medianToLast_rearranged [OF assms(1,2)])
  then have len0: "length ?xs = length xs" by (rule rearranged_length)
  have l: "?l < length ?xs" "start \<le> ?l" "stop = Suc ?l" using assms(1,2) len0 by auto
  obtain q zs where q: "fold (partitionStep cmp ?l) [start ..< ?l] (start, ?xs) = (q, zs)" by fastforce
  note S = partition_scan [OF l(1,2) order_refl, of cmp, unfolded q prod.case]
  have eq: "p = q" "ys = swapElements zs q ?l"
    using assms(3) q by (auto simp: partitionRange_def Let_def)
  have len: "length zs = length xs" using S rearranged_length len0 by metis
  have nth: "ys ! i = (if i = p then zs ! ?l else if i = ?l then zs ! p else zs ! i)" for i
    unfolding eq using S len l len0 by (intro nth_swapElements) auto
  have "rearranged start stop ?xs zs" using S rearranged_widen [of start ?l ?xs zs start stop] l by auto
  moreover have "rearranged start stop zs ys"
    unfolding eq by (rule rearranged_swap) (use S l len len0 in auto)
  ultimately show "rearranged start stop xs ys" using r0 rearranged_trans by blast
  show "start \<le> p" "p < stop" using S eq l by auto
  have low: "cmp (zs ! i) (zs ! ?l) < 0" if "start \<le> i" "i < p" for i
    using S that eq by auto
  have high: "\<not> cmp (zs ! i) (zs ! ?l) < 0" if "p \<le> i" "i < ?l" for i
    using S that eq by auto
  show "cmp (ys ! i) (ys ! p) < 0" if "start \<le> i" "i < p"
    using low [OF that] that S eq unfolding nth by auto
  show "cmp (ys ! p) (ys ! i) \<le> 0" if "p < i" "i < stop" "consistent cmp"
    using high [of i] high [of p] that l(3) consistent_not_less [OF that(3)] unfolding nth
    by (cases "i = ?l") auto
qed

section \<open>Recursion\<close>

lemma quickSortRange_rearranged:
  "stop \<le> length xs \<Longrightarrow> rearranged start stop xs (quickSortRange d cmp start stop xs)"
proof (induction d arbitrary: start stop xs)
  case 0
  then show ?case by (simp add: heapSortRange_rearranged insertionSortRange_rearranged)
next
  case (Suc d)
  show ?case
  proof (cases "16 < stop - start")
    case False
    then show ?thesis using Suc.prems by (simp add: insertionSortRange_rearranged)
  next
    case True
    obtain p ys where p: "partitionRange cmp start stop xs = (p, ys)" by fastforce
    have "start < stop" using True by simp
    note P = partitionRange_cases [OF this Suc.prems p]
    have lft: "rearranged start stop zs (quickSortRange d cmp start p zs)"
      and rgt: "rearranged start stop zs (quickSortRange d cmp (p + 1) stop zs)"
      if "length zs = length xs" for zs
      by (rule rearranged_widen [OF Suc.IH]; use that P(2,3) Suc.prems in simp)+
    have len: "length ys = length xs" using P(1) by (rule rearranged_length)
    have both: "rearranged start stop ys
        (quickSortRange d cmp (p + 1) stop (quickSortRange d cmp start p ys))"
      "rearranged start stop ys (quickSortRange d cmp start p (quickSortRange d cmp (p + 1) stop ys))"
      using rearranged_trans [OF lft [OF len] rgt] rearranged_trans [OF rgt [OF len] lft]
        rearranged_length [OF lft [OF len]] rearranged_length [OF rgt [OF len]] len by auto
    show ?thesis
      using True p rearranged_trans [OF P(1) both(1)] rearranged_trans [OF P(1) both(2)] by simp
  qed
qed

text \<open>Sorting the two sides of a pivot, in either order, sorts the whole.\<close>

lemma sides_ordered:
  assumes "consistent cmp" "stop \<le> length ys" "start \<le> p" "p < stop"
    and lo: "\<And>i. start \<le> i \<Longrightarrow> i < p \<Longrightarrow> cmp (ys ! i) (ys ! p) \<le> 0"
    and hi: "\<And>i. p < i \<Longrightarrow> i < stop \<Longrightarrow> cmp (ys ! p) (ys ! i) \<le> 0"
    and two: "rearranged start p ys us \<and> rearranged (Suc p) stop us zs \<and>
        ordered cmp start p us \<and> ordered cmp (Suc p) stop zs \<or>
      rearranged (Suc p) stop ys us \<and> rearranged start p us zs \<and>
        ordered cmp (Suc p) stop us \<and> ordered cmp start p zs"
  shows "ordered cmp start stop zs"
proof -
  have len: "length us = length ys" using two rearranged_length by metis
  have o: "ordered cmp start p zs" "ordered cmp (Suc p) stop zs"
    using two ordered_untouched [of cmp start p us] ordered_untouched [of cmp "Suc p" stop us]
    by (metis le_SucI order_refl)+
  have mid: "zs ! p = ys ! p" using two unfolding rearranged_def by fastforce
  have "cmp (zs ! i) (ys ! p) \<le> 0" if "start \<le> i" "i < p" for i
    using two
  proof (elim disjE conjE)
    assume "rearranged start p ys us" "rearranged (Suc p) stop us zs"
    then show ?thesis
      using rearranged_all [of start p ys us "\<lambda>a. cmp a (ys ! p) \<le> 0" i] lo that assms(2,4)
      by (simp add: rearranged_outside)
  next
    assume a: "rearranged (Suc p) stop ys us" "rearranged start p us zs"
    then have "cmp (us ! i) (ys ! p) \<le> 0" if "start \<le> i" "i < p" for i
      using lo [OF that] that by (simp add: rearranged_outside)
    then show ?thesis
      using rearranged_all [OF a(2), of "\<lambda>a. cmp a (ys ! p) \<le> 0" i] that assms(2,4) len by simp
  qed
  moreover have "cmp (ys ! p) (zs ! i) \<le> 0" if "p < i" "i < stop" for i
    using two
  proof (elim disjE conjE)
    assume a: "rearranged start p ys us" "rearranged (Suc p) stop us zs"
    then have "cmp (ys ! p) (us ! i) \<le> 0" if "p < i" "i < stop" for i
      using hi [OF that] that by (simp add: rearranged_outside)
    then show ?thesis
      using rearranged_all [OF a(2), of "\<lambda>a. cmp (ys ! p) a \<le> 0" i] that assms(2) len by simp
  next
    assume "rearranged (Suc p) stop ys us" "rearranged start p us zs"
    then show ?thesis
      using rearranged_all [of "Suc p" stop ys us "\<lambda>a. cmp (ys ! p) a \<le> 0" i] hi that assms(2)
      by (simp add: rearranged_outside)
  qed
  ultimately show ?thesis using ordered_around [OF assms(1) o] mid by simp
qed

lemma quickSortRange_ordered:
  "consistent cmp \<Longrightarrow> stop \<le> length xs \<Longrightarrow> ordered cmp start stop (quickSortRange d cmp start stop xs)"
proof (induction d arbitrary: start stop xs)
  case 0
  then show ?case by (simp add: heapSortRange_ordered insertionSortRange_ordered)
next
  case (Suc d)
  note cons = Suc.prems(1)
  show ?case
  proof (cases "16 < stop - start")
    case False
    then show ?thesis using Suc.prems by (simp add: insertionSortRange_ordered)
  next
    case True
    obtain p ys where p: "partitionRange cmp start stop xs = (p, ys)" by fastforce
    have "start < stop" using True by simp
    note P = partitionRange_cases [OF this Suc.prems(2) p]
    have len: "length ys = length xs" using P(1) by (rule rearranged_length)
    let ?a = "quickSortRange d cmp start p ys" let ?b = "quickSortRange d cmp (Suc p) stop ys"
    have lens: "length ?a = length ys" "length ?b = length ys"
      by (rule rearranged_length [OF quickSortRange_rearranged]; use P(3) len Suc.prems(2) in simp)+
    have sides: "ordered cmp start stop zs"
      if "rearranged start p ys us \<and> rearranged (Suc p) stop us zs \<and>
          ordered cmp start p us \<and> ordered cmp (Suc p) stop zs \<or>
        rearranged (Suc p) stop ys us \<and> rearranged start p us zs \<and>
          ordered cmp (Suc p) stop us \<and> ordered cmp start p zs" for us zs
      by (rule sides_ordered [OF cons _ P(2,3) _ _ that])
        (use P(4,5) cons len Suc.prems(2) in \<open>auto simp: less_imp_le\<close>)
    have pl: "p \<le> length xs" using P(3) Suc.prems(2) by simp
    have a: "rearranged start p ys ?a \<and> rearranged (Suc p) stop ?a (quickSortRange d cmp (Suc p) stop ?a) \<and>
        ordered cmp start p ?a \<and> ordered cmp (Suc p) stop (quickSortRange d cmp (Suc p) stop ?a)"
      using Suc.IH [OF cons] pl lens len Suc.prems(2) by (simp add: quickSortRange_rearranged)
    have b: "rearranged (Suc p) stop ys ?b \<and> rearranged start p ?b (quickSortRange d cmp start p ?b) \<and>
        ordered cmp (Suc p) stop ?b \<and> ordered cmp start p (quickSortRange d cmp start p ?b)"
      using Suc.IH [OF cons] pl lens len Suc.prems(2) by (simp add: quickSortRange_rearranged)
    show ?thesis using True p sides [OF disjI1 [OF a]] sides [OF disjI2 [OF b]] by simp
  qed
qed

section \<open>Entry points\<close>

text \<open>
C21: Whatever the comparator answers, consistently or not, each of the five in-place comparison
sorts returns, answers yes on a valid range, and leaves a permutation of the array that agrees with
it beyond the count.
\<close>

theorem Sort_permutes:
  assumes "validComparisonRange (Some xs) n width (Some cmp)" "n \<le> length xs"
    and "sorter \<in> {Sort_insertionSort, Sort_selectionSort, Sort_bubbleSort, Sort_heapSort, Sort_quickSort}"
  shows "\<exists>ys. sorter (Some xs) n width (Some cmp) = (True, Some ys) \<and> mset ys = mset xs \<and>
    drop n ys = drop n xs"
proof -
  have part: "mset ys = mset xs \<and> drop n ys = drop n xs" if "rearranged 0 n xs ys" for ys
    using that rearranged_parts(2) [OF that _ assms(2)] by (simp add: rearranged_mset)
  have fact: "\<exists>ys. guardedSort f (Some xs) n width (Some cmp) = (True, Some ys) \<and> mset ys = mset xs \<and>
      drop n ys = drop n xs" if "rearranged 0 n xs (f cmp xs)" for f
    using part [OF that] assms(1) by (simp add: guardedSort_def)
  show ?thesis
    using assms(3) insertionSortRange_rearranged [OF assms(2)] selectionSortRange_rearranged [OF assms(2)]
      bubbleLoop_rearranged [OF order_refl assms(2)] heapSortRange_rearranged [OF assms(2)]
      quickSortRange_rearranged [OF assms(2)]
    unfolding Sort_insertionSort_def Sort_selectionSort_def Sort_bubbleSort_def Sort_heapSort_def
      Sort_quickSort_def by (auto intro!: fact)
qed

text \<open>
C20: With a consistent comparator each of the five sorts leaves the first elements, as many as the
count says, in ascending order.
\<close>

theorem Sort_sorts:
  assumes "validComparisonRange (Some xs) n width (Some cmp)" "n \<le> length xs" "consistent cmp"
    and "sorter \<in> {Sort_insertionSort, Sort_selectionSort, Sort_bubbleSort, Sort_heapSort, Sort_quickSort}"
  shows "\<exists>ys. sorter (Some xs) n width (Some cmp) = (True, Some ys) \<and>
    sorted_wrt (\<lambda>a b. cmp a b \<le> 0) (take n ys) \<and> mset (take n ys) = mset (take n xs)"
proof -
  have part: "sorted_wrt (\<lambda>a b. cmp a b \<le> 0) (take n ys) \<and> mset (take n ys) = mset (take n xs)"
    if "rearranged 0 n xs ys" "ordered cmp 0 n ys" for ys
    using ordered_sorted_wrt [OF _ that(2)] rearranged_length [OF that(1)] assms(2)
      rearranged_parts(3) [OF that(1) _ assms(2)] by simp
  have fact: "\<exists>ys. guardedSort f (Some xs) n width (Some cmp) = (True, Some ys) \<and>
      sorted_wrt (\<lambda>a b. cmp a b \<le> 0) (take n ys) \<and> mset (take n ys) = mset (take n xs)"
    if "rearranged 0 n xs (f cmp xs)" "ordered cmp 0 n (f cmp xs)" for f
    using part [OF that] assms(1) by (simp add: guardedSort_def)
  have bubble: "ordered cmp 0 n (bubbleLoop cmp n xs)"
    by (rule bubbleLoop_ordered [OF assms(3) order_refl assms(2)]) simp
  show ?thesis
    using assms(4) insertionSortRange_rearranged [OF assms(2)] selectionSortRange_rearranged [OF assms(2)]
      bubbleLoop_rearranged [OF order_refl assms(2)] heapSortRange_rearranged [OF assms(2)]
      quickSortRange_rearranged [OF assms(2)] insertionSortRange_ordered [OF assms(3,2)]
      selectionSortRange_ordered [OF assms(3,2)] bubble heapSortRange_ordered [OF assms(3,2)]
      quickSortRange_ordered [OF assms(3,2)]
    unfolding Sort_insertionSort_def Sort_selectionSort_def Sort_bubbleSort_def Sort_heapSort_def
      Sort_quickSort_def by (auto intro!: fact)
qed

theorem Sort_permutes_witness:
  "\<exists>ys. Sort_quickSort (Some [3, 1, 2 :: nat]) 3 8 (Some (\<lambda>a b. - 1)) = (True, Some ys) \<and>
    mset ys = {#1, 2, 3#}"
  using Sort_permutes [of "[3, 1, 2 :: nat]" 3 8 "\<lambda>a b. - 1" Sort_quickSort]
  by (auto simp: validComparisonRange_def)

theorem Sort_sorts_witness:
  "\<exists>ys. Sort_heapSort (Some [3, 1, 2, 0 :: nat]) 3 8 (Some compareNat) = (True, Some ys) \<and>
    sorted_wrt (\<lambda>a b. compareNat a b \<le> 0) (take 3 ys) \<and> mset (take 3 ys) = {#1, 2, 3#}"
  using Sort_sorts [of "[3, 1, 2, 0 :: nat]" 3 8 compareNat Sort_heapSort]
  by (auto simp: validComparisonRange_def compareNat_consistent)

end
