(* ===== verification/Sort_Radix.thy ===== *)
theory Sort_Radix
  imports Sort_Merge Memory
begin

text \<open>
  The unsigned radix sorts of \<open>src/algo/sort.c\<close>: eight-bit digits from the lowest up, each pass a
  counting sort through 256 offsets into the other array.  A pass is the stable grouping by one
  digit, so the passes together are the library's stable sort by the key.
\<close>

section \<open>The code\<close>

definition bucketOf :: "nat \<Rightarrow> u64 \<Rightarrow> nat" where
  "bucketOf shift k = unat (drop_bit shift k AND 255)"

definition bucketCounts :: "('a \<Rightarrow> u64) \<Rightarrow> nat \<Rightarrow> nat \<Rightarrow> 'a list \<Rightarrow> nat list" where
  "bucketCounts key shift cnt src =
     fold (\<lambda>i counts. let b = bucketOf shift (key (src ! i)) in counts[b := counts ! b + 1])
       [0 ..< cnt] (replicate 256 0)"

definition offsetStep :: "nat list \<Rightarrow> nat \<Rightarrow> nat \<times> nat list \<Rightarrow> nat \<times> nat list" where
  "offsetStep counts b s = (case s of (offset, offsets) \<Rightarrow>
     (offset + counts ! b, offsets[b := offset]))"

definition bucketOffsets :: "nat list \<Rightarrow> nat list" where
  "bucketOffsets counts = snd (fold (offsetStep counts) [0 ..< 256] (0, replicate 256 0))"

definition scatterStep ::
    "('a \<Rightarrow> u64) \<Rightarrow> nat \<Rightarrow> 'a list \<Rightarrow> nat \<Rightarrow> nat list \<times> 'a list \<Rightarrow> nat list \<times> 'a list" where
  "scatterStep key shift src i s = (case s of (offsets, dst) \<Rightarrow>
     (let b = bucketOf shift (key (src ! i)); target = offsets ! b
      in (offsets[b := target + 1], dst[target := src ! i])))"

definition radixPass :: "('a \<Rightarrow> u64) \<Rightarrow> nat \<Rightarrow> nat \<Rightarrow> 'a list \<Rightarrow> 'a list \<Rightarrow> 'a list" where
  "radixPass key shift cnt src dst =
     snd (fold (scatterStep key shift src) [0 ..< cnt]
       (bucketOffsets (bucketCounts key shift cnt src), dst))"

definition radixLoop ::
    "('a \<Rightarrow> u64) \<Rightarrow> nat \<Rightarrow> nat \<Rightarrow> 'a list \<Rightarrow> 'a list \<Rightarrow> bool \<times> 'a list \<times> 'a list" where
  "radixLoop key passes cnt values temporary =
     fold (\<lambda>pass (swapped, source, destination).
         (\<not> swapped, radixPass key (pass * 8) cnt source destination, source))
       [0 ..< passes] (False, values, temporary)"

definition unsignedKey :: "'w::len word \<Rightarrow> u64" where
  "unsignedKey k = ucast k"

text \<open>The keys a fresh block happens to hold.\<close>

definition staleKeys :: "nat \<Rightarrow> nat \<Rightarrow> u8 list \<Rightarrow> 'w::len word list" where
  "staleKeys keySize cnt block = map (\<lambda>i. le_read (mem_read block (i * keySize) keySize)) [0 ..< cnt]"

definition radixSortUnsigned ::
    "'w::len word list option \<Rightarrow> nat \<Rightarrow> nat \<Rightarrow> World \<Rightarrow> bool \<times> 'w word list option \<times> World" where
  "radixSortUnsigned values cnt keySize w =
     (if cnt \<le> 1 then (True, values, w)
      else (case values of
        None \<Rightarrow> (False, None, w)
      | Some xs \<Rightarrow>
          if 18446744073709551615 div keySize < cnt then (False, values, w)
          else
            (case Memory_bytes (cnt * keySize) w of
               (None, w1) \<Rightarrow> (False, values, w1)
             | (Some block, w1) \<Rightarrow>
                 (case radixLoop unsignedKey keySize cnt xs (staleKeys keySize cnt block) of
                    (swapped, source, destination) \<Rightarrow>
                      (True,
                       Some (if swapped then take cnt source @ drop cnt destination else source),
                       w1)))))"

definition Sort_radixSortUint32 ::
    "u32 list option \<Rightarrow> nat \<Rightarrow> World \<Rightarrow> bool \<times> u32 list option \<times> World" where
  "Sort_radixSortUint32 values cnt w = radixSortUnsigned values cnt 4 w"

definition Sort_radixSortUint64 ::
    "u64 list option \<Rightarrow> nat \<Rightarrow> World \<Rightarrow> bool \<times> u64 list option \<times> World" where
  "Sort_radixSortUint64 values cnt w = radixSortUnsigned values cnt 8 w"

text \<open>Keys with a value each, in two parallel arrays.\<close>

definition pairStep ::
    "nat \<Rightarrow> u64 list \<Rightarrow> u64 list \<Rightarrow> nat \<Rightarrow> nat list \<times> u64 list \<times> u64 list \<Rightarrow>
     nat list \<times> u64 list \<times> u64 list" where
  "pairStep shift ks vs i s = (case s of (offsets, dk, dv) \<Rightarrow>
     (let b = bucketOf shift (ks ! i); target = offsets ! b
      in (offsets[b := target + 1], dk[target := ks ! i], dv[target := vs ! i])))"

definition pairPass ::
    "nat \<Rightarrow> nat \<Rightarrow> u64 list \<times> u64 list \<Rightarrow> u64 list \<times> u64 list \<Rightarrow> u64 list \<times> u64 list" where
  "pairPass shift cnt src dst = (case src of (ks, vs) \<Rightarrow>
     snd (fold (pairStep shift ks vs) [0 ..< cnt]
       (bucketOffsets (bucketCounts (\<lambda>k. k) shift cnt ks), dst)))"

definition pairLoop ::
    "nat \<Rightarrow> u64 list \<times> u64 list \<Rightarrow> u64 list \<times> u64 list \<Rightarrow>
     bool \<times> (u64 list \<times> u64 list) \<times> (u64 list \<times> u64 list)" where
  "pairLoop cnt values temporary =
     fold (\<lambda>pass (swapped, source, destination).
         (\<not> swapped, pairPass (pass * 8) cnt source destination, source))
       [0 ..< 8] (False, values, temporary)"

definition Sort_radixSortPairsUint64 ::
    "u64 list option \<Rightarrow> u64 list option \<Rightarrow> nat \<Rightarrow> World \<Rightarrow>
     bool \<times> (u64 list \<times> u64 list) option \<times> World" where
  "Sort_radixSortPairsUint64 keys values cnt w =
     (if cnt \<le> 1 then (True, Option.bind keys (\<lambda>ks. map_option (Pair ks) values), w)
      else (case (keys, values) of
        (Some ks, Some vs) \<Rightarrow>
          if 18446744073709551615 div 8 < cnt then (False, Some (ks, vs), w)
          else
            (case Memory_bytes (cnt * 8) w of (kblock, w1) \<Rightarrow>
             case Memory_bytes (cnt * 8) w1 of (vblock, w2) \<Rightarrow>
               case (kblock, vblock) of
                 (Some kb, Some vb) \<Rightarrow>
                   (case pairLoop cnt (ks, vs) (staleKeys 8 cnt kb, staleKeys 8 cnt vb) of
                      (swapped, (sk, sv), (dk, dv)) \<Rightarrow>
                        (True,
                         Some (if swapped then (take cnt sk @ drop cnt dk, take cnt sv @ drop cnt dv)
                               else (sk, sv)), w2))
               | _ \<Rightarrow> (False, Some (ks, vs), w2))
      | _ \<Rightarrow> (False, Option.bind keys (\<lambda>ks. map_option (Pair ks) values), w)))"

section \<open>One pass groups by the digit\<close>

lemma bucketOf_less: "bucketOf shift k < 256"
proof -
  have "unat (drop_bit shift k AND 255) \<le> unat (255 :: u64)"
    by (metis word_and_le1 word_le_nat_alt)
  then show ?thesis by (simp add: bucketOf_def)
qed

lemma bucketOf_digit: "bucketOf (m * 8) k = unat k div 256 ^ m mod 256"
proof -
  have "drop_bit (m * 8) k AND 255 = take_bit 8 (drop_bit (m * 8) k)"
    by (simp add: take_bit_eq_mask mask_eq_exp_minus_1)
  then have "bucketOf (m * 8) k = unat (drop_bit (m * 8) k) mod 256"
    by (simp add: bucketOf_def take_bit_eq_mod unat_mod)
  also have "unat (drop_bit (m * 8) k) = unat k div 2 ^ (m * 8)"
    unfolding unat_drop_bit_eq by (rule drop_bit_eq_div)
  also have "(2 :: nat) ^ (m * 8) = 256 ^ m"
    unfolding mult.commute [of m] power_mult by simp
  finally show ?thesis .
qed

text \<open>The elements of one bucket, in order, and how many there are below it.\<close>

abbreviation inBucket :: "('a \<Rightarrow> nat) \<Rightarrow> nat \<Rightarrow> 'a list \<Rightarrow> 'a list" where
  "inBucket g b xs \<equiv> filter (\<lambda>x. g x = b) xs"

definition below :: "('a \<Rightarrow> nat) \<Rightarrow> 'a list \<Rightarrow> nat \<Rightarrow> nat" where
  "below g xs b = (\<Sum>c < b. length (inBucket g c xs))"

lemma below_Suc: "below g xs (Suc b) = below g xs b + length (inBucket g b xs)"
  by (simp add: below_def)

lemma below_0 [simp]: "below g xs 0 = 0"
  by (simp add: below_def)

lemma below_mono: "b \<le> c \<Longrightarrow> below g xs b \<le> below g xs c"
  by (induction c) (auto simp: below_Suc le_Suc_eq)

lemma below_block: "b < c \<Longrightarrow> below g xs b + length (inBucket g b xs) \<le> below g xs c"
  using below_mono [of "Suc b" c g xs] by (simp add: below_Suc)

lemma concat_buckets_length: "length (concat (map (\<lambda>b. inBucket g b xs) [0 ..< m])) = below g xs m"
  by (induction m) (simp_all add: below_Suc)

lemma below_all: "(\<And>x. x \<in> set xs \<Longrightarrow> g x < m) \<Longrightarrow> below g xs m = length xs"
proof (induction xs)
  case (Cons x xs)
  have "below g (x # xs) m = below g xs m + (\<Sum>c < m. if g x = c then 1 else 0)"
    unfolding below_def by (subst sum.distrib [symmetric]) (rule sum.cong, auto)
  also have "(\<Sum>c < m. if g x = c then 1 else 0 :: nat) = 1"
    using Cons.prems by (simp add: sum.delta')
  finally show ?case using Cons by simp
qed (simp add: below_def)

text \<open>Counting, then summing up: where each bucket starts.\<close>

lemma bucketCounts_nth:
  assumes "cnt \<le> length src" "b < 256"
  shows "bucketCounts key shift cnt src ! b =
    length (inBucket (\<lambda>x. bucketOf shift (key x)) b (take cnt src))"
proof -
  let ?g = "\<lambda>x. bucketOf shift (key x)"
  let ?f = "\<lambda>i counts :: nat list. let b = ?g (src ! i) in counts[b := counts ! b + 1]"
  have "k \<le> cnt \<Longrightarrow> length (fold ?f [0 ..< k] (replicate 256 0)) = 256 \<and>
      (\<forall>b < 256. fold ?f [0 ..< k] (replicate 256 0) ! b = length (inBucket ?g b (take k src)))" for k
  proof (induction k)
    case (Suc k)
    define c where "c = fold ?f [0 ..< k] (replicate 256 0)"
    have IH: "length c = 256" "\<And>b. b < 256 \<Longrightarrow> c ! b = length (inBucket ?g b (take k src))"
      using Suc unfolding c_def by auto
    have "take (Suc k) src = take k src @ [src ! k]"
      using Suc.prems assms(1) by (simp add: take_Suc_conv_app_nth)
    moreover have "fold ?f [0 ..< Suc k] (replicate 256 0) = c[?g (src ! k) := c ! ?g (src ! k) + 1]"
      by (simp add: c_def Let_def)
    ultimately show ?case
      using IH bucketOf_less [of shift "key (src ! k)"] by (simp add: nth_list_update)
  qed simp
  from this [of cnt] show ?thesis using assms(2) by (simp add: bucketCounts_def)
qed

lemma bucketOffsets_nth:
  assumes "\<And>b. b < 256 \<Longrightarrow> counts ! b = length (inBucket g b xs)" "b < 256"
  shows "bucketOffsets counts ! b = below g xs b" and "length (bucketOffsets counts) = 256"
proof -
  have P: "m \<le> 256 \<Longrightarrow> (case fold (offsetStep counts) [0 ..< m] (0, replicate 256 0) of (offset, offs) \<Rightarrow>
      offset = below g xs m \<and> length offs = 256 \<and> (\<forall>b < m. offs ! b = below g xs b))" for m
  proof (induction m)
    case (Suc m)
    then show ?case
      using assms(1) [of m]
      by (auto simp: offsetStep_def below_Suc nth_list_update less_Suc_eq split: prod.splits)
  qed simp
  from P [of 256] show "bucketOffsets counts ! b = below g xs b" "length (bucketOffsets counts) = 256"
    using assms(2) by (auto simp: bucketOffsets_def split: prod.splits)
qed

text \<open>After \<open>k\<close> elements each block holds the elements of its bucket met so far.\<close>

lemma scatter_prefix:
  fixes key :: "'a \<Rightarrow> u64" and shift :: nat and src :: "'a list" and cnt :: nat
  defines "g \<equiv> \<lambda>x. bucketOf shift (key x)" and "xs \<equiv> take cnt src"
  assumes "cnt \<le> length src" "cnt \<le> length dst" "k \<le> cnt" "length offs = 256"
    and "\<And>b. b < 256 \<Longrightarrow> offs ! b = below g xs b"
  shows "case fold (scatterStep key shift src) [0 ..< k] (offs, dst) of (o1, d1) \<Rightarrow>
    length o1 = 256 \<and> length d1 = length dst \<and> drop cnt d1 = drop cnt dst \<and>
    (\<forall>b < 256. o1 ! b = below g xs b + length (inBucket g b (take k xs)) \<and>
      (\<forall>j < length (inBucket g b (take k xs)). d1 ! (below g xs b + j) = inBucket g b (take k xs) ! j))"
  using assms(5)
proof (induction k)
  case 0
  then show ?case using assms(6,7) by simp
next
  case (Suc k)
  obtain o1 d1 where f: "fold (scatterStep key shift src) [0 ..< k] (offs, dst) = (o1, d1)" by fastforce
  have IH: "length o1 = 256" "length d1 = length dst" "drop cnt d1 = drop cnt dst"
    "\<And>b. b < 256 \<Longrightarrow> o1 ! b = below g xs b + length (inBucket g b (take k xs))"
    "\<And>b j. b < 256 \<Longrightarrow> j < length (inBucket g b (take k xs)) \<Longrightarrow>
      d1 ! (below g xs b + j) = inBucket g b (take k xs) ! j"
    using Suc unfolding f by auto
  let ?x = "src ! k" let ?b = "g ?x" let ?t = "o1 ! ?b"
  have b: "?b < 256" by (simp add: g_def bucketOf_less)
  have k: "k < length xs" "xs ! k = ?x" using Suc.prems assms(3) by (auto simp: xs_def)
  have step: "take (Suc k) xs = take k xs @ [?x]" using k by (simp add: take_Suc_conv_app_nth)
  have fold: "fold (scatterStep key shift src) [0 ..< Suc k] (offs, dst) =
      (o1[?b := ?t + 1], d1[?t := ?x])"
    using f by (simp add: scatterStep_def Let_def g_def)
  have prefix: "length (inBucket g c (take m xs)) \<le> length (inBucket g c xs)" for c m
    using append_take_drop_id [of m xs] by (metis filter_append length_append le_add1)
  have room: "length (inBucket g ?b (take k xs)) < length (inBucket g ?b xs)"
    using prefix [of ?b "Suc k"] unfolding step by simp
  have all: "below g xs 256 = cnt"
    using below_all [of xs g 256] bucketOf_less assms(3) by (simp add: g_def xs_def)
  have t: "?t < cnt"
    using IH(4) [OF b] room below_block [OF b, of g xs] all by linarith
  have apart: "?t \<noteq> below g xs c + j"
    if c: "c < 256" "c \<noteq> ?b" "j < length (inBucket g c (take k xs))" for c j
  proof (cases "c < ?b")
    case True
    then show ?thesis
      using IH(4) [OF b] below_block [OF True, of g xs] prefix [of c k] c(3) by linarith
  next
    case False
    then have "?b < c" using c(2) by simp
    then show ?thesis using IH(4) [OF b] below_block [of ?b c g xs] room by linarith
  qed
  have "d1[?t := ?x] ! (below g xs c + j) = inBucket g c (take (Suc k) xs) ! j"
    if c: "c < 256" "j < length (inBucket g c (take (Suc k) xs))" for c j
  proof (cases "c = ?b")
    case True
    then have "j \<le> length (inBucket g ?b (take k xs))" using c(2) unfolding step by simp
    then show ?thesis
      using True IH(2,4,5) b t assms(4) unfolding step
      by (cases "j = length (inBucket g ?b (take k xs))") (auto simp: nth_append)
  next
    case False
    then have j: "j < length (inBucket g c (take k xs))" using c(2) unfolding step by simp
    then show ?thesis using apart [OF c(1) False j] IH(5) [OF c(1) j] False unfolding step by simp
  qed
  moreover have "o1[?b := ?t + 1] ! c = below g xs c + length (inBucket g c (take (Suc k) xs))"
    if "c < 256" for c
    using IH(1) IH(4) [OF that] that IH(4) [OF b] b unfolding step by (auto simp: nth_list_update)
  moreover have "drop cnt (d1[?t := ?x]) = drop cnt dst" using t IH(3) by simp
  ultimately show ?case unfolding fold using IH(1,2) by simp
qed

text \<open>Blocks side by side are the concatenation of the buckets.\<close>

lemma blocks_concat:
  assumes "\<And>b j. b < m \<Longrightarrow> j < length (inBucket g b xs) \<Longrightarrow> d ! (below g xs b + j) = inBucket g b xs ! j"
    and "below g xs m \<le> length d"
  shows "take (below g xs m) d = concat (map (\<lambda>b. inBucket g b xs) [0 ..< m])"
  using assms
proof (induction m)
  case (Suc m)
  have "below g xs m \<le> length d" using Suc.prems(2) by (simp add: below_Suc)
  then have IH: "take (below g xs m) d = concat (map (\<lambda>b. inBucket g b xs) [0 ..< m])"
    using Suc by simp
  have "take (length (inBucket g m xs)) (drop (below g xs m) d) = inBucket g m xs"
    by (rule nth_equalityI) (use Suc.prems in \<open>auto simp: below_Suc\<close>)
  then show ?case using IH by (simp add: below_Suc take_add)
qed simp

lemma radixPass_groups:
  assumes "cnt \<le> length src" "cnt \<le> length dst"
  shows "radixPass key shift cnt src dst =
    concat (map (\<lambda>b. inBucket (\<lambda>x. bucketOf shift (key x)) b (take cnt src)) [0 ..< 256]) @ drop cnt dst"
proof -
  let ?g = "\<lambda>x. bucketOf shift (key x)" let ?xs = "take cnt src"
  let ?o = "bucketOffsets (bucketCounts key shift cnt src)"
  note off = bucketOffsets_nth [of "bucketCounts key shift cnt src" ?g ?xs,
      OF bucketCounts_nth [OF assms(1)]]
  obtain o1 d1 where f: "fold (scatterStep key shift src) [0 ..< cnt] (?o, dst) = (o1, d1)" by fastforce
  have "length ?o = 256" using off(2) [of 0] by simp
  note S = scatter_prefix [OF assms order_refl this off(1), unfolded f prod.case]
  have all: "below ?g ?xs 256 = cnt"
    using below_all [of ?xs ?g 256] bucketOf_less assms(1) by simp
  have "take (below ?g ?xs 256) d1 = concat (map (\<lambda>b. inBucket ?g b ?xs) [0 ..< 256])"
    by (rule blocks_concat) (use S all assms(2) in auto)
  then have "take cnt d1 = concat (map (\<lambda>b. inBucket ?g b ?xs) [0 ..< 256])" unfolding all .
  moreover have "drop cnt d1 = drop cnt dst" using S by blast
  ultimately show ?thesis
    using f append_take_drop_id [of cnt d1] by (simp add: radixPass_def)
qed

section \<open>All passes sort\<close>

lemma mset_buckets:
  "(\<And>x. x \<in> set xs \<Longrightarrow> g x < m) \<Longrightarrow> mset (concat (map (\<lambda>b. inBucket g b xs) [0 ..< m])) = mset xs"
proof (induction m arbitrary: xs)
  case 0
  then show ?case by (cases xs) auto
next
  case (Suc m)
  let ?lo = "filter (\<lambda>x. g x \<noteq> m) xs"
  have "inBucket g b xs = inBucket g b ?lo" if "b < m" for b
    using that by (auto intro: filter_cong)
  then have "concat (map (\<lambda>b. inBucket g b xs) [0 ..< m]) = concat (map (\<lambda>b. inBucket g b ?lo) [0 ..< m])"
    by (auto intro!: arg_cong [where f = concat] map_cong)
  moreover have "g x < m" if "x \<in> set ?lo" for x using Suc.prems [of x] that by auto
  then have "mset (concat (map (\<lambda>b. inBucket g b ?lo) [0 ..< m])) = mset ?lo" using Suc.IH by blast
  ultimately show ?case
    using multiset_partition [of "mset xs" "\<lambda>x. g x = m"] by (simp add: add.commute)
qed

text \<open>Grouping by a digit is the stable sort by that digit.\<close>

lemma buckets_sort:
  assumes "\<And>x. x \<in> set xs \<Longrightarrow> g x < m"
  shows "concat (map (\<lambda>b. inBucket g b xs) [0 ..< m]) = sort_key g xs"
proof (rule properties_for_sort_key [symmetric])
  let ?ys = "concat (map (\<lambda>b. inBucket g b xs) [0 ..< m])"
  show "mset ?ys = mset xs" by (rule mset_buckets [OF assms])
  show "filter (\<lambda>x. g k = g x) ?ys = filter (\<lambda>x. g k = g x) xs" if "k \<in> set ?ys" for k
  proof -
    have k: "g k < m" using that assms by auto
    have "filter (\<lambda>x. g k = g x) (concat (map (\<lambda>b. inBucket g b xs) [0 ..< n])) =
        (if g k < n then filter (\<lambda>x. g k = g x) xs else [])" for n
      by (induction n) (auto intro: filter_cong simp: less_Suc_eq)
    then show ?thesis using k by simp
  qed
  have "map g (inBucket g n xs) = replicate (length (inBucket g n xs)) n" for n
    by (induction xs) auto
  then have "sorted (map g (concat (map (\<lambda>b. inBucket g b xs) [0 ..< n]))) \<and>
      (\<forall>x \<in> set (concat (map (\<lambda>b. inBucket g b xs) [0 ..< n])). g x < n)" for n
    by (induction n) (auto simp: sorted_append less_Suc_eq intro: less_imp_le)
  then show "sorted (map g ?ys)" by blast
qed

text \<open>A stable sort by the next digit after a stable sort by the lower ones sorts by both.\<close>

lemma sort_digits:
  fixes key :: "'a \<Rightarrow> nat"
  assumes "0 < B" "0 < C"
  shows "sort_key (\<lambda>x. key x div B mod C) (sort_key (\<lambda>x. key x mod B) xs) =
    sort_key (\<lambda>x. key x mod (B * C)) xs"
proof (rule properties_for_sort_key [symmetric])
  let ?hi = "\<lambda>x. key x div B mod C" and ?lo = "\<lambda>x. key x mod B" and ?k = "\<lambda>x. key x mod (B * C)"
  let ?ys = "sort_key ?lo xs" let ?zs = "sort_key ?hi ?ys"
  have k: "?k x = B * ?hi x + ?lo x" for x by (rule mod_mult2_eq)
  have "?k x div B = ?hi x" "?k x mod B = ?lo x" for x
    unfolding k using assms(1) by simp_all
  then have parts: "?k x = ?k y \<longleftrightarrow> ?hi x = ?hi y \<and> ?lo x = ?lo y" for x y
    using k by metis
  show "mset ?zs = mset xs" by simp
  show "filter (\<lambda>x. ?k a = ?k x) ?zs = filter (\<lambda>x. ?k a = ?k x) xs" for a
  proof -
    have two: "filter (\<lambda>x. ?k a = ?k x) zs = filter (\<lambda>x. ?lo x = ?lo a) (filter (\<lambda>x. ?hi x = ?hi a) zs)"
      and two': "filter (\<lambda>x. ?hi x = ?hi a) (filter (\<lambda>x. ?lo x = ?lo a) zs) = filter (\<lambda>x. ?k a = ?k x) zs"
      for zs unfolding filter_filter
      by (rule filter_cong [OF refl], use parts [of a] in metis)+
    have "filter (\<lambda>x. ?k a = ?k x) ?zs = filter (\<lambda>x. ?lo x = ?lo a) (filter (\<lambda>x. ?hi x = ?hi a) ?ys)"
      unfolding two sort_key_stable ..
    also have "\<dots> = filter (\<lambda>x. ?hi x = ?hi a) (filter (\<lambda>x. ?lo x = ?lo a) ?ys)"
      unfolding filter_filter by (rule filter_cong [OF refl]) (rule conj_commute)
    also have "\<dots> = filter (\<lambda>x. ?k a = ?k x) xs" unfolding sort_key_stable two' ..
    finally show ?thesis .
  qed
  have block: "sorted (map ?k (inBucket ?hi n ?ys))" for n
  proof -
    have "map ?k (inBucket ?hi n ?ys) = map (\<lambda>x. B * n + ?lo x) (inBucket ?hi n ?ys)"
      unfolding k by (rule map_cong) auto
    moreover have "sorted (map ?lo (inBucket ?hi n ?ys))" by (rule sorted_filter) simp
    then have "sorted (map (\<lambda>x. B * n + ?lo x) (inBucket ?hi n ?ys))"
      by (simp add: sorted_wrt_map sorted_map)
    ultimately show ?thesis by (simp only:)
  qed
  have "sorted (map ?k (concat (map (\<lambda>b. inBucket ?hi b ?ys) [0 ..< n]))) \<and>
      (\<forall>x \<in> set (concat (map (\<lambda>b. inBucket ?hi b ?ys) [0 ..< n])). ?k x < B * n)" for n
  proof (induction n)
    case (Suc n)
    have "B * n \<le> ?k y \<and> ?k y < B * Suc n" if "?hi y = n" for y
      unfolding k that using assms(1) by simp
    then show ?case using Suc block [of n] by (fastforce simp: sorted_append intro: less_imp_le)
  qed simp
  then have "sorted (map ?k (concat (map (\<lambda>b. inBucket ?hi b ?ys) [0 ..< C])))" by blast
  moreover have "concat (map (\<lambda>b. inBucket ?hi b ?ys) [0 ..< C]) = ?zs"
    by (rule buckets_sort) (use assms(2) in simp)
  ultimately show "sorted (map ?k ?zs)" by (simp only:)
qed

lemma radixPass_sort:
  assumes "cnt \<le> length src" "cnt \<le> length dst"
  shows "radixPass key shift cnt src dst =
    sort_key (\<lambda>x. bucketOf shift (key x)) (take cnt src) @ drop cnt dst"
  unfolding radixPass_groups [OF assms] by (simp add: buckets_sort bucketOf_less)

text \<open>
  Any loop of passes that alternate between two arrays, seen through a function from the arrays
  to lists: the key array alone, or the pairs of two parallel arrays.
\<close>

lemma passes_sort:
  fixes key :: "'a \<Rightarrow> u64" and view :: "'s \<Rightarrow> 'a list" and pass_step :: "nat \<Rightarrow> 's \<Rightarrow> 's \<Rightarrow> 's"
  assumes step: "\<And>m src dst. good src \<Longrightarrow> good dst \<Longrightarrow> good (pass_step m src dst) \<and>
      view (pass_step m src dst) =
        sort_key (\<lambda>x. bucketOf (m * 8) (key x)) (take cnt (view src)) @ drop cnt (view dst)"
    and wide: "\<And>s. good s \<Longrightarrow> cnt \<le> length (view s)"
    and start: "good values" "good temporary"
  shows "case fold (\<lambda>m (swapped, source, destination).
        (\<not> swapped, pass_step m source destination, source)) [0 ..< n] (False, values, temporary) of
      (swapped, source, destination) \<Rightarrow> swapped = odd n \<and> good source \<and> good destination \<and>
        take cnt (view source) = sort_key (\<lambda>x. unat (key x) mod 256 ^ n) (take cnt (view values)) \<and>
        drop cnt (view (if swapped then destination else source)) = drop cnt (view values)"
proof (induction n)
  case 0
  have "sort_key (\<lambda>x. 0 :: nat) xs = xs" for xs :: "'a list"
    by (rule sort_key_id_if_sorted) (simp add: sorted_iff_nth_mono)
  then show ?case using start by simp
next
  case (Suc n)
  let ?f = "\<lambda>m (swapped, source, destination). (\<not> swapped, pass_step m source destination, source)"
  obtain sw src dst where f: "fold ?f [0 ..< n] (False, values, temporary) = (sw, src, dst)"
    by (cases "fold ?f [0 ..< n] (False, values, temporary)" rule: prod_cases3)
  have IH: "sw = odd n" "good src" "good dst"
    "take cnt (view src) = sort_key (\<lambda>x. unat (key x) mod 256 ^ n) (take cnt (view values))"
    "drop cnt (view (if sw then dst else src)) = drop cnt (view values)"
    using Suc unfolding f by auto
  have fold: "fold ?f [0 ..< Suc n] (False, values, temporary) = (\<not> sw, pass_step n src dst, src)"
    using f by simp
  note new = step [OF IH(2,3), of n]
  have len: "length (sort_key (\<lambda>x. bucketOf (n * 8) (key x)) (take cnt (view src))) = cnt"
    using wide [OF IH(2)] by simp
  have "take cnt (view (pass_step n src dst)) =
      sort_key (\<lambda>x. bucketOf (n * 8) (key x)) (take cnt (view src))"
    using new len by simp
  also have "\<dots> = sort_key (\<lambda>x. unat (key x) mod (256 ^ n * 256)) (take cnt (view values))"
    unfolding IH(4) bucketOf_digit by (rule sort_digits) simp_all
  finally have "take cnt (view (pass_step n src dst)) =
      sort_key (\<lambda>x. unat (key x) mod 256 ^ Suc n) (take cnt (view values))"
    by (simp add: mult.commute)
  moreover have "drop cnt (view (pass_step n src dst)) = drop cnt (view dst)" using new len by simp
  ultimately show ?case unfolding fold using IH new by auto
qed

lemma radixLoop_sort:
  assumes "cnt \<le> length xs" "cnt \<le> length ys"
  shows "case radixLoop key passes cnt xs ys of (swapped, source, destination) \<Rightarrow>
      swapped = odd passes \<and>
      take cnt source = sort_key (\<lambda>x. unat (key x) mod 256 ^ passes) (take cnt xs) \<and>
      drop cnt (if swapped then destination else source) = drop cnt xs"
proof -
  have "case fold (\<lambda>m (swapped, source, destination).
        (\<not> swapped, radixPass key (m * 8) cnt source destination, source)) [0 ..< passes] (False, xs, ys) of
      (swapped, source, destination) \<Rightarrow> swapped = odd passes \<and> cnt \<le> length source \<and>
        cnt \<le> length destination \<and>
        take cnt source = sort_key (\<lambda>x. unat (key x) mod 256 ^ passes) (take cnt xs) \<and>
        drop cnt (if swapped then destination else source) = drop cnt xs"
    by (rule passes_sort [where good = "\<lambda>xs. cnt \<le> length xs" and view = "\<lambda>xs. xs"])
      (use assms in \<open>auto simp: radixPass_sort\<close>)
  then show ?thesis unfolding radixLoop_def by (auto split: prod.splits if_splits)
qed

lemma radixSortUnsigned_sorts:
  fixes xs :: "'w::len word list"
  assumes "cnt \<le> length xs" "cnt \<le> 18446744073709551615 div keySize" "even keySize"
    and "2 ^ LENGTH('w) = (256 :: nat) ^ keySize" "LENGTH('w) \<le> 64" "willing w"
  shows "\<exists>w'. radixSortUnsigned (Some xs) cnt keySize w =
    (True, Some (sort (take cnt xs) @ drop cnt xs), w')"
proof (cases "cnt \<le> 1")
  case True
  then have "sort (take cnt xs) = take cnt xs" by (cases cnt; cases xs) auto
  then show ?thesis using True by (simp add: radixSortUnsigned_def)
next
  case False
  obtain b w1 where b: "Memory_bytes (cnt * keySize) w = (b, w1)" by fastforce
  then obtain block where block: "b = Some block" using Memory_bytes_willing [OF assms(6) b] by auto
  let ?t = "staleKeys keySize cnt block :: 'w word list"
  obtain sw src dst where l: "radixLoop unsignedKey keySize cnt xs ?t = (sw, src, dst)"
    by (metis prod_cases3)
  have "cnt \<le> length ?t" by (simp add: staleKeys_def)
  note L = radixLoop_sort [OF assms(1) this, where key = unsignedKey and passes = keySize, unfolded l prod.case]
  have key: "unat (unsignedKey x) mod 256 ^ keySize = unat x" for x :: "'w word"
  proof -
    have "unat x < 2 ^ LENGTH('w)" by (rule unsigned_less)
    also have "\<dots> \<le> 2 ^ 64" using assms(5) by (intro power_increasing) simp_all
    finally have "unat (unsignedKey x) = unat x"
      by (simp add: unsignedKey_def unsigned_ucast_eq take_bit_nat_eq_self)
    moreover have "unat x < 2 ^ LENGTH('w)" by (rule unsigned_less)
    then have "unat x < 256 ^ keySize" unfolding assms(4) .
    ultimately show ?thesis by simp
  qed
  have "take cnt src = sort_key unat (take cnt xs)" using L key by simp
  also have "\<dots> = sort (take cnt xs)"
  proof (rule properties_for_sort [symmetric])
    have "sorted (map unat (sort_key unat (take cnt xs)))" by simp
    then show "sorted (sort_key unat (take cnt xs))" by (simp add: sorted_map flip: word_le_nat_alt)
  qed simp
  finally have src: "take cnt src = sort (take cnt xs)" .
  have "\<not> sw" using L assms(3) by simp
  then have "(if sw then dst else src) = src" by simp
  then have "drop cnt src = drop cnt xs" using L by metis
  then have "src = sort (take cnt xs) @ drop cnt xs"
    using append_take_drop_id [of cnt src] unfolding src by simp
  then show ?thesis
    using False assms(2) b block l \<open>\<not> sw\<close> by (simp add: radixSortUnsigned_def)
qed

text \<open>
C23: Over an allocator that grants the temporary array the radix sorts of 32-bit and of 64-bit keys
sort: the first elements become the library's sorted list, the rest is untouched.
\<close>

theorem Sort_radixSort_sorts:
  assumes "n \<le> length xs" "n \<le> length ys" "n \<le> 2305843009213693951" "willing w"
  shows "\<exists>w1 w2. Sort_radixSortUint32 (Some xs) n w = (True, Some (sort (take n xs) @ drop n xs), w1) \<and>
    Sort_radixSortUint64 (Some ys) n w = (True, Some (sort (take n ys) @ drop n ys), w2)"
proof -
  have "n \<le> 18446744073709551615 div 4" "n \<le> 18446744073709551615 div 8" using assms(3) by simp_all
  from radixSortUnsigned_sorts [OF assms(1) this(1) _ _ _ assms(4)]
    radixSortUnsigned_sorts [OF assms(2) this(2) _ _ _ assms(4)]
  show ?thesis by (simp add: Sort_radixSortUint32_def Sort_radixSortUint64_def)
qed

theorem Sort_radixSort_sorts_witness:
  "\<exists>w1. Sort_radixSortUint32 (Some [300, 7, 65536, 2]) 3 \<lparr>answers = [], s_constructionCount = 0,
     s_constructionReported = False, MASK_CLASS = 0\<rparr> = (True, Some [7, 300, 65536, 2], w1)"
proof -
  have "sort [300, 7, 65536 :: u32] = [7, 300, 65536]" by code_simp
  then show ?thesis
    using Sort_radixSort_sorts [of 3 "[300, 7, 65536, 2]" "[1, 2, 3]"
        "\<lparr>answers = [], s_constructionCount = 0, s_constructionReported = False, MASK_CLASS = 0\<rparr>"]
    by (auto simp: willing_def numeral_3_eq_3)
qed

section \<open>Pairs\<close>

lemma pairPass_zip:
  assumes "length ks = length vs" "length dk = length dv"
  shows "case pairPass shift cnt (ks, vs) (dk, dv) of (rk, rv) \<Rightarrow>
    length rk = length dk \<and> length rv = length dv \<and>
    (cnt \<le> length ks \<longrightarrow> zip rk rv = radixPass fst shift cnt (zip ks vs) (zip dk dv))"
proof -
  have P: "case fold (pairStep shift ks vs) is (offs, dk, dv) of (o1, rk, rv) \<Rightarrow>
      length rk = length dk \<and> length rv = length dv \<and>
      ((\<forall>i \<in> set is. i < length ks) \<longrightarrow>
        fold (scatterStep fst shift (zip ks vs)) is (offs, zip dk dv) = (o1, zip rk rv))"
    if "length dk = length dv" for "is" offs dk dv
    using that
  proof (induction "is" arbitrary: offs dk dv)
    case (Cons i "is")
    let ?b = "bucketOf shift (ks ! i)" let ?t = "offs ! ?b"
    have "length (dk[?t := ks ! i]) = length (dv[?t := vs ! i])" using Cons.prems by simp
    note IH = Cons.IH [OF this, of "offs[?b := ?t + 1]"]
    have "scatterStep fst shift (zip ks vs) i (offs, zip dk dv) =
        (offs[?b := ?t + 1], zip (dk[?t := ks ! i]) (dv[?t := vs ! i]))" if "i < length ks"
      using that assms(1) by (simp add: scatterStep_def Let_def update_zip)
    then show ?case using IH by (auto simp: pairStep_def Let_def split: prod.splits)
  qed simp
  have c: "bucketCounts (\<lambda>k. k) shift cnt ks = bucketCounts fst shift cnt (zip ks vs)"
    if "cnt \<le> length ks"
    unfolding bucketCounts_def by (rule fold_cong) (use that assms(1) in auto)
  show ?thesis
    using P [OF assms(2), of "[0 ..< cnt]" "bucketOffsets (bucketCounts (\<lambda>k. k) shift cnt ks)"] c
    by (auto simp: pairPass_def radixPass_def split: prod.splits)
qed

text \<open>
Sorting keys with a value each is stable: the pairs come out as the library's stable sort by key
gives them, so values with equal keys keep their order.
\<close>

theorem Sort_radixSortPairs_stable:
  assumes "length ks = length vs" "n \<le> length ks" "n \<le> 2305843009213693951" "willing w"
  shows "\<exists>ks' vs' w'. Sort_radixSortPairsUint64 (Some ks) (Some vs) n w = (True, Some (ks', vs'), w') \<and>
    zip ks' vs' = sort_key fst (take n (zip ks vs)) @ drop n (zip ks vs)"
proof (cases "n \<le> 1")
  case True
  then have "sort_key fst (take n (zip ks vs)) = take n (zip ks vs)"
    by (cases n; cases "zip ks vs") auto
  then show ?thesis using True by (simp add: Sort_radixSortPairsUint64_def)
next
  case False
  obtain kb w1 where kb: "Memory_bytes (n * 8) w = (kb, w1)" by fastforce
  obtain vb w2 where vb: "Memory_bytes (n * 8) w1 = (vb, w2)" by fastforce
  obtain kblock vblock where blocks: "kb = Some kblock" "vb = Some vblock"
    using Memory_bytes_willing [OF assms(4) kb] Memory_bytes_willing [OF _ vb] by auto
  let ?tk = "staleKeys 8 n kblock :: u64 list" let ?tv = "staleKeys 8 n vblock :: u64 list"
  obtain sw sk sv dk dv where l: "pairLoop n (ks, vs) (?tk, ?tv) = (sw, (sk, sv), (dk, dv))"
    by (metis prod.exhaust)
  have "case pairLoop n (ks, vs) (?tk, ?tv) of (swapped, source, destination) \<Rightarrow>
      swapped = odd (8 :: nat) \<and>
      (length (fst source) = length (snd source) \<and> n \<le> length (fst source)) \<and>
      (length (fst destination) = length (snd destination) \<and> n \<le> length (fst destination)) \<and>
      take n (zip (fst source) (snd source)) =
        sort_key (\<lambda>x. unat (fst x) mod 256 ^ 8) (take n (zip (fst (ks, vs)) (snd (ks, vs)))) \<and>
      drop n (zip (fst (if swapped then destination else source)) (snd (if swapped then destination else source))) =
        drop n (zip (fst (ks, vs)) (snd (ks, vs)))"
    unfolding pairLoop_def
  proof (rule passes_sort [where good = "\<lambda>s. length (fst s) = length (snd s) \<and> n \<le> length (fst s)"
        and view = "\<lambda>s. zip (fst s) (snd s)" and key = fst])
    fix m :: nat and src dst :: "u64 list \<times> u64 list"
    assume src: "length (fst src) = length (snd src) \<and> n \<le> length (fst src)"
      and dst: "length (fst dst) = length (snd dst) \<and> n \<le> length (fst dst)"
    show "(length (fst (pairPass (m * 8) n src dst)) = length (snd (pairPass (m * 8) n src dst)) \<and>
          n \<le> length (fst (pairPass (m * 8) n src dst))) \<and>
        zip (fst (pairPass (m * 8) n src dst)) (snd (pairPass (m * 8) n src dst)) =
          sort_key (\<lambda>x. bucketOf (m * 8) (fst x)) (take n (zip (fst src) (snd src))) @
          drop n (zip (fst dst) (snd dst))"
      using pairPass_zip [of "fst src" "snd src" "fst dst" "snd dst", where shift = "m * 8" and cnt = n] src dst
        radixPass_sort [of n "zip (fst src) (snd src)" "zip (fst dst) (snd dst)" fst "m * 8"]
      by (auto split: prod.splits)
  qed (use assms in \<open>auto simp: staleKeys_def\<close>)
  then have L: "\<not> sw" "take n (zip sk sv) = sort_key (\<lambda>x. unat (fst x) mod 256 ^ 8) (take n (zip ks vs))"
    "drop n (zip sk sv) = drop n (zip ks vs)" unfolding l by auto
  have key: "unat x mod 256 ^ 8 = unat x" for x :: u64
  proof -
    have "unat x < 2 ^ LENGTH(64)" by (rule unsigned_less)
    then show ?thesis by simp
  qed
  have "sort_key (\<lambda>x. unat (fst x)) zs = sort_key fst zs" for zs :: "(u64 \<times> u64) list"
  proof (rule properties_for_sort_key [symmetric])
    show "filter (\<lambda>x. fst k = fst x) (sort_key (\<lambda>x. unat (fst x)) zs) = filter (\<lambda>x. fst k = fst x) zs" for k
    proof -
      have "(\<lambda>x. fst k = fst x) = (\<lambda>x :: u64 \<times> u64. unat (fst x) = unat (fst k))"
        by (auto simp: fun_eq_iff dest: word_unat_eq_iff [THEN iffD2])
      then show ?thesis using sort_key_stable [of "\<lambda>x. unat (fst x)" "unat (fst k)" zs] by simp
    qed
    have "sorted (map (\<lambda>x. unat (fst x)) (sort_key (\<lambda>x. unat (fst x)) zs))" by simp
    then show "sorted (map fst (sort_key (\<lambda>x. unat (fst x)) zs))"
      by (simp add: sorted_map flip: word_le_nat_alt)
  qed simp
  then have "zip sk sv = sort_key fst (take n (zip ks vs)) @ drop n (zip ks vs)"
    using L key append_take_drop_id [of n "zip sk sv"] by simp
  then show ?thesis
    using False assms(3) kb vb blocks l L(1) by (simp add: Sort_radixSortPairsUint64_def)
qed

theorem Sort_radixSortPairs_stable_witness:
  "\<exists>ks' vs' w'. Sort_radixSortPairsUint64 (Some [2, 1, 2]) (Some [10, 20, 30]) 3
      \<lparr>answers = [], s_constructionCount = 0, s_constructionReported = False, MASK_CLASS = 0\<rparr> =
      (True, Some (ks', vs'), w') \<and> zip ks' vs' = [(1, 20), (2, 10), (2, 30)]"
proof -
  have "sort_key fst [(2, 10), (1, 20), (2, 30 :: u64)] = [(1 :: u64, 20), (2, 10), (2, 30)]" by code_simp
  then show ?thesis
    using Sort_radixSortPairs_stable [of "[2, 1, 2]" "[10, 20, 30]" 3
        "\<lparr>answers = [], s_constructionCount = 0, s_constructionReported = False, MASK_CLASS = 0\<rparr>"]
    by (simp add: willing_def numeral_3_eq_3)
qed

end
