(* ===== verification/Arrays.thy ===== *)
theory Arrays
  imports Sort_Quick
begin

text \<open>
  \<open>src/util/arrays.c\<close>: quick sort and binary search over buffers of signed integers, and the two
  block operations.  The 32-bit and the 64-bit routines are the same text over another element
  type; the shared loops are stated once, over any linear order.
\<close>

section \<open>Quick sort\<close>

definition lomutoStep :: "nat \<Rightarrow> nat \<Rightarrow> nat \<times> 'a::linorder list \<Rightarrow> nat \<times> 'a list" where
  "lomutoStep high j s = (case s of (i, xs) \<Rightarrow>
     if xs ! j \<le> xs ! high then (i + 1, swapElements xs i j) else (i, xs))"

definition lomuto :: "nat \<Rightarrow> nat \<Rightarrow> 'a::linorder list \<Rightarrow> nat \<times> 'a list" where
  "lomuto low high xs =
     (case fold (lomutoStep high) [low ..< high] (low, xs) of
        (i, ys) \<Rightarrow> (i, swapElements ys i high))"

lemma lomuto_scan_bound:
  "low \<le> k \<Longrightarrow> fold (lomutoStep high) [low ..< k] (low, xs) = (i, ys) \<Longrightarrow> low \<le> i \<and> i \<le> k"
proof (induction k arbitrary: i ys)
  case (Suc k)
  show ?case
  proof (cases "low \<le> k")
    case True
    obtain i' ys' where f: "fold (lomutoStep high) [low ..< k] (low, xs) = (i', ys')" by fastforce
    then have "lomutoStep high k (i', ys') = (i, ys)" using Suc.prems(2) True by simp
    then show ?thesis
      using Suc.IH [OF True f] by (auto simp: lomutoStep_def split: if_splits)
  qed (use Suc.prems in auto)
qed simp

lemma lomuto_bound:
  assumes "low \<le> high" "lomuto low high xs = (p, ys)"
  shows "low \<le> p \<and> p \<le> high"
proof -
  obtain i zs where f: "fold (lomutoStep high) [low ..< high] (low, xs) = (i, zs)" by fastforce
  then have "p = i" using assms(2) by (simp add: lomuto_def)
  then show ?thesis using lomuto_scan_bound [OF assms(1) f] by simp
qed

lemma lomuto_bound_sym: "(p, ys) = lomuto low high xs \<Longrightarrow> low < high \<Longrightarrow> low \<le> p \<and> p \<le> high"
  using lomuto_bound [of low high xs p ys] by simp

function lomutoSort :: "nat \<Rightarrow> nat \<Rightarrow> 'a::linorder list \<Rightarrow> 'a list" where
  "lomutoSort low high xs =
     (if high \<le> low then xs
      else
        (let (pi, ys) = lomuto low high xs;
             zs = (if low < pi then lomutoSort low (pi - 1) ys else ys)
         in if pi < high then lomutoSort (pi + 1) high zs else zs))"
  by pat_completeness auto
termination
  by (relation "measure (\<lambda>(low, high, xs). high - low)")
    (auto dest!: lomuto_bound_sym simp: not_le)

declare lomutoSort.simps [simp del]

definition swap_int :: "int list \<Rightarrow> nat \<Rightarrow> nat \<Rightarrow> int list" where
  "swap_int xs i j = swapElements xs i j"

definition swap_long :: "int list \<Rightarrow> nat \<Rightarrow> nat \<Rightarrow> int list" where
  "swap_long xs i j = swapElements xs i j"

definition partition_int :: "nat \<Rightarrow> nat \<Rightarrow> int list \<Rightarrow> nat \<times> int list" where
  "partition_int low high xs = lomuto low high xs"

definition partition_long :: "nat \<Rightarrow> nat \<Rightarrow> int list \<Rightarrow> nat \<times> int list" where
  "partition_long low high xs = lomuto low high xs"

definition quicksort_int :: "nat \<Rightarrow> nat \<Rightarrow> int list \<Rightarrow> int list" where
  "quicksort_int low high xs = lomutoSort low high xs"

definition quicksort_long :: "nat \<Rightarrow> nat \<Rightarrow> int list \<Rightarrow> int list" where
  "quicksort_long low high xs = lomutoSort low high xs"

definition Arrays_sortInt :: "int list option \<Rightarrow> nat \<Rightarrow> int list option" where
  "Arrays_sortInt data n = (case data of
     None \<Rightarrow> None
   | Some xs \<Rightarrow> if n \<le> 1 then Some xs else Some (quicksort_int 0 (n - 1) xs))"

definition Arrays_sortLong :: "int list option \<Rightarrow> nat \<Rightarrow> int list option" where
  "Arrays_sortLong data n = (case data of
     None \<Rightarrow> None
   | Some xs \<Rightarrow> if n \<le> 1 then Some xs else Some (quicksort_long 0 (n - 1) xs))"

section \<open>Binary search\<close>

function bisect :: "'a::linorder list \<Rightarrow> 'a \<Rightarrow> nat \<Rightarrow> nat \<Rightarrow> int" where
  "bisect xs key low high =
     (if low < high then
        (let mid = low + (high - low) div 2
         in if xs ! mid < key then bisect xs key (mid + 1) high
            else if key < xs ! mid then bisect xs key low mid
            else int mid)
      else - int (low + 1))"
  by pat_completeness auto
termination
  by (relation "measure (\<lambda>(xs, key, low, high). high - low)") auto

declare bisect.simps [simp del]

definition Arrays_binarySearchInt :: "int list option \<Rightarrow> nat \<Rightarrow> int \<Rightarrow> int" where
  "Arrays_binarySearchInt data n key = (case data of None \<Rightarrow> - 1 | Some xs \<Rightarrow> bisect xs key 0 n)"

definition Arrays_binarySearchLong :: "int list option \<Rightarrow> nat \<Rightarrow> int \<Rightarrow> int" where
  "Arrays_binarySearchLong data n key = (case data of None \<Rightarrow> - 1 | Some xs \<Rightarrow> bisect xs key 0 n)"

section \<open>Blocks\<close>

definition Arrays_fill :: "u8 list option \<Rightarrow> nat \<Rightarrow> u8 \<Rightarrow> u8 list option" where
  "Arrays_fill data n v = (case data of
     None \<Rightarrow> None
   | Some d \<Rightarrow> if n = 0 then Some d else Some (memset d 0 v n))"

definition Arrays_copy :: "u8 list option \<Rightarrow> u8 list option \<Rightarrow> nat \<Rightarrow> u8 list option" where
  "Arrays_copy src dest n = (case (src, dest) of
     (Some s, Some d) \<Rightarrow> if n = 0 then Some d else Some (memcpy d 0 s 0 n)
   | _ \<Rightarrow> dest)"

section \<open>Sorting sorts\<close>

definition compareOrder :: "'a::linorder \<Rightarrow> 'a \<Rightarrow> int" where
  "compareOrder a b = (if a < b then - 1 else if a = b then 0 else 1)"

lemma compareOrder_le [simp]: "compareOrder a b \<le> 0 \<longleftrightarrow> a \<le> b"
  by (auto simp: compareOrder_def)

lemma compareOrder_consistent: "consistent compareOrder"
  by (auto simp: consistent_def compareOrder_def split: if_splits)

lemma lomuto_scan:
  assumes "high < length xs" "low \<le> k" "k \<le> high"
  shows "case fold (lomutoStep high) [low ..< k] (low, xs) of (p, ys) \<Rightarrow>
    rearranged low high xs ys \<and> ys ! high = xs ! high \<and>
    (\<forall>i. low \<le> i \<longrightarrow> i < p \<longrightarrow> ys ! i \<le> xs ! high) \<and>
    (\<forall>i. p \<le> i \<longrightarrow> i < k \<longrightarrow> xs ! high < ys ! i)"
  using assms(2,3)
proof (induction k rule: dec_induct)
  case base
  show ?case by simp
next
  case (step k)
  obtain p ys where ys: "fold (lomutoStep high) [low ..< k] (low, xs) = (p, ys)" by fastforce
  have IH: "rearranged low high xs ys" "ys ! high = xs ! high"
    "\<forall>i. low \<le> i \<longrightarrow> i < p \<longrightarrow> ys ! i \<le> xs ! high" "\<forall>i. p \<le> i \<longrightarrow> i < k \<longrightarrow> xs ! high < ys ! i"
    using step unfolding ys by auto
  have p: "low \<le> p" "p \<le> k" using lomuto_scan_bound [OF step.hyps(1) ys] by auto
  have fold: "fold (lomutoStep high) [low ..< Suc k] (low, xs) = lomutoStep high k (p, ys)"
    using ys step.hyps by simp
  have len: "length ys = length xs" using IH(1) by (rule rearranged_length)
  show ?case
  proof (cases "ys ! k \<le> xs ! high")
    case True
    have nth: "swapElements ys p k ! i = (if i = p then ys ! k else if i = k then ys ! p else ys ! i)" for i
      using step p len assms(1) by (intro nth_swapElements) auto
    have "rearranged low high ys (swapElements ys p k)"
      by (rule rearranged_swap) (use step p len assms(1) in auto)
    then have "rearranged low high xs (swapElements ys p k)" by (rule rearranged_trans [OF IH(1)])
    then show ?thesis unfolding fold using True step p IH by (auto simp: lomutoStep_def nth)
  next
    case False
    then show ?thesis unfolding fold using step IH by (auto simp: lomutoStep_def less_Suc_eq)
  qed
qed

lemma lomuto_cases:
  assumes "low < high" "high < length xs" "lomuto low high xs = (p, ys)"
  shows "rearranged low (Suc high) xs ys" "low \<le> p" "p \<le> high"
    "low \<le> i \<Longrightarrow> i < p \<Longrightarrow> ys ! i \<le> ys ! p" "p < i \<Longrightarrow> i \<le> high \<Longrightarrow> ys ! p \<le> ys ! i"
proof -
  obtain q zs where q: "fold (lomutoStep high) [low ..< high] (low, xs) = (q, zs)" by fastforce
  have eq: "p = q" "ys = swapElements zs q high" using assms(3) q by (auto simp: lomuto_def)
  show b: "low \<le> p" "p \<le> high" using lomuto_bound [OF _ assms(3)] assms(1) by auto
  note S = lomuto_scan [OF assms(2) less_imp_le [OF assms(1)] order_refl, unfolded q prod.case]
  have r: "rearranged low (Suc high) xs zs"
    using S by (blast intro: rearranged_widen le_SucI)
  then have len: "length zs = length xs" by (rule rearranged_length)
  have nth: "ys ! i = (if i = p then zs ! high else if i = high then zs ! p else zs ! i)" for i
    unfolding eq using b eq assms(2) len by (intro nth_swapElements) auto
  have "rearranged low (Suc high) zs ys"
    unfolding eq by (rule rearranged_swap) (use b eq assms(1,2) len in auto)
  with r show "rearranged low (Suc high) xs ys" by (rule rearranged_trans)
  show "ys ! i \<le> ys ! p" if "low \<le> i" "i < p"
    using S that b eq unfolding nth by auto
  show "ys ! p \<le> ys ! i" if "p < i" "i \<le> high"
    using S that eq unfolding nth by (cases "i = high") (auto simp: less_imp_le)
qed

lemma lomutoSort_step:
  assumes "low < high" "lomuto low high xs = (p, ys)"
  shows "lomutoSort low high xs =
    (let zs = (if low < p then lomutoSort low (p - 1) ys else ys)
     in if p < high then lomutoSort (p + 1) high zs else zs)"
  using assms by (subst lomutoSort.simps) simp

lemma lomutoSort_sorts:
  "high < length xs \<Longrightarrow> rearranged low (Suc high) xs (lomutoSort low high xs) \<and>
   ordered compareOrder low (Suc high) (lomutoSort low high xs)"
proof (induction "high - low" arbitrary: low high xs rule: less_induct)
  case less
  show ?case
  proof (cases "low < high")
    case False
    then show ?thesis by (subst (1 2) lomutoSort.simps) simp
  next
    case True
    obtain p ys where p: "lomuto low high xs = (p, ys)" by fastforce
    note L = lomuto_cases [OF True less.prems p]
    have len: "length ys = length xs" using L(1) by (rule rearranged_length)
    let ?us = "if low < p then lomutoSort low (p - 1) ys else ys"
    let ?zs = "if p < high then lomutoSort (p + 1) high ?us else ?us"
    have us: "rearranged low p ys ?us \<and> ordered compareOrder low p ?us"
    proof (cases "low < p")
      case lp: True
      have "p - 1 - low < high - low" "p - 1 < length ys" using lp L(3) len less.prems by auto
      from less.hyps [OF this] lp show ?thesis by simp
    qed (use L(2) in simp)
    then have lu: "length ?us = length xs" using rearranged_length len by metis
    have zs: "rearranged (Suc p) (Suc high) ?us ?zs \<and> ordered compareOrder (Suc p) (Suc high) ?zs"
    proof (cases "p < high")
      case ph: True
      have "high - (p + 1) < high - low" "high < length ?us" using True ph L(2) lu less.prems by auto
      from less.hyps [OF this] ph show ?thesis by simp
    qed (use L(3) in simp)
    have eq: "lomutoSort low high xs = ?zs" using lomutoSort_step [OF True p] by (simp only: Let_def)
    have "ordered compareOrder low (Suc high) ?zs"
      by (rule sides_ordered [OF compareOrder_consistent _ L(2), where ys = ys and us = ?us])
        (use us zs L(3-5) len less.prems in \<open>auto simp del: if_split\<close>)
    moreover have "rearranged low (Suc high) ys ?us"
      by (rule rearranged_widen [of low p]) (use us L(3) in auto)
    moreover have "rearranged low (Suc high) ?us ?zs"
      by (rule rearranged_widen [of "Suc p" "Suc high"]) (use zs L(2) in auto)
    ultimately show ?thesis unfolding eq using L(1) rearranged_trans by metis
  qed
qed

lemma lomutoSort_array:
  fixes xs :: "'a::linorder list"
  assumes "1 < n" "n \<le> length xs"
  shows "lomutoSort 0 (n - 1) xs = sort (take n xs) @ drop n xs"
proof -
  let ?ys = "lomutoSort 0 (n - 1) xs"
  have n: "Suc (n - 1) = n" using assms(1) by simp
  have S: "rearranged 0 n xs ?ys" "ordered compareOrder 0 n ?ys"
    using lomutoSort_sorts [of "n - 1" xs 0] assms n by auto
  have "n \<le> length ?ys" using rearranged_length [OF S(1)] assms by simp
  from ordered_sorted_wrt [OF this S(2)] have "sorted (take n ?ys)" by simp
  moreover have "mset (take n ?ys) = mset (take n xs)" "drop n ?ys = drop n xs"
    using rearranged_parts [OF S(1) _ assms(2)] by simp_all
  ultimately show ?thesis
    using properties_for_sort [of "take n ?ys" "take n xs"] append_take_drop_id [of n ?ys] by simp
qed

text \<open>
The in-place quick sorts of the integer arrays sort: the first elements become the library's
sorted list and the rest is untouched.
\<close>

theorem Arrays_sort_sorts:
  assumes "n \<le> length xs"
  shows "Arrays_sortInt (Some xs) n = Some (sort (take n xs) @ drop n xs) \<and>
    Arrays_sortLong (Some xs) n = Some (sort (take n xs) @ drop n xs)"
proof (cases "n \<le> 1")
  case True
  then have "sort (take n xs) = take n xs" by (cases n; cases xs) auto
  then show ?thesis using True by (simp add: Arrays_sortInt_def Arrays_sortLong_def)
next
  case False
  then show ?thesis
    using lomutoSort_array [OF _ assms]
    by (simp add: Arrays_sortInt_def Arrays_sortLong_def quicksort_int_def quicksort_long_def)
qed

theorem Arrays_sort_sorts_witness: "Arrays_sortInt (Some [3, 1, 2, 0]) 3 = Some [1, 2, 3, 0]"
proof -
  have "sort [3, 1, 2 :: int] = [1, 2, 3]" by code_simp
  then show ?thesis using Arrays_sort_sorts [of 3 "[3, 1, 2, 0]"] by (simp add: numeral_3_eq_3)
qed

section \<open>Searching finds\<close>

lemma bisect_finds:
  assumes "high \<le> length xs" "\<And>i j. i < j \<Longrightarrow> j < n \<Longrightarrow> xs ! i \<le> xs ! j" "high \<le> n" "low \<le> high"
    and "\<And>i. i < low \<Longrightarrow> xs ! i < key" "\<And>i. high \<le> i \<Longrightarrow> i < n \<Longrightarrow> key < xs ! i"
  shows "(\<exists>i < n. bisect xs key low high = int i \<and> xs ! i = key) \<or>
    (\<exists>p \<le> n. bisect xs key low high = - int (p + 1) \<and> (\<forall>i < p. xs ! i < key) \<and>
      (\<forall>i. p \<le> i \<longrightarrow> i < n \<longrightarrow> key < xs ! i))"
  using assms
proof (induction xs key low high rule: bisect.induct)
  case (1 xs key low high)
  note prems = "1.prems"
  show ?case
  proof (cases "low < high")
    case False
    then have "bisect xs key low high = - int (low + 1)" by (subst bisect.simps) simp
    then show ?thesis using False prems by (intro disjI2 exI [of _ low]) auto
  next
    case True
    let ?m = "low + (high - low) div 2"
    have m: "low \<le> ?m" "?m < high" using True by auto
    have mono: "xs ! i \<le> xs ! j" if "i \<le> j" "j < n" for i j
      using prems(2) [of i j] that by (cases "i = j") auto
    consider "xs ! ?m < key" | "key < xs ! ?m" | "xs ! ?m = key" by fastforce
    then show ?thesis
    proof cases
      case 1
      have "bisect xs key low high = bisect xs key (?m + 1) high"
        using 1 True by (subst bisect.simps) (simp add: Let_def)
      moreover have "xs ! i < key" if "i < ?m + 1" for i
        using mono [of i ?m] 1 that m prems(3) by auto
      ultimately show ?thesis
        using "1.IH"(1) [OF True refl 1 prems(1,2,3)] m prems(6) by auto
    next
      case 2
      then have nl: "\<not> xs ! ?m < key" by (rule less_not_sym)
      then have "bisect xs key low high = bisect xs key low ?m"
        using 2 True by (subst bisect.simps) (simp only: Let_def if_True if_False simp_thms)
      moreover have "key < xs ! i" if "?m \<le> i" "i < n" for i
        using mono [of ?m i] 2 that by auto
      ultimately show ?thesis
        using "1.IH"(2) [OF True refl nl 2 _ prems(2)] m prems(1,3,5) by auto
    next
      case 3
      then have "bisect xs key low high = int ?m"
        using True by (subst bisect.simps) (simp add: Let_def)
      moreover have "?m < n" using m(2) prems(3) by (rule less_le_trans)
      ultimately show ?thesis using 3 by blast
    qed
  qed
qed

text \<open>
C24: On an ascending array the binary searches return the index of the key, or the complement of the
one place where inserting it keeps the order.
\<close>

theorem Arrays_binarySearch_finds:
  assumes "n \<le> length xs" "sorted (take n xs)"
    and "r = Arrays_binarySearchInt (Some xs) n key \<or> r = Arrays_binarySearchLong (Some xs) n key"
  shows "if 0 \<le> r then nat r < n \<and> xs ! nat r = key
    else nat (- r - 1) \<le> n \<and> (\<forall>i < nat (- r - 1). xs ! i < key) \<and>
      (\<forall>i < n. nat (- r - 1) \<le> i \<longrightarrow> key < xs ! i)"
proof -
  have mono: "xs ! i \<le> xs ! j" if "i < j" "j < n" for i j
    using sorted_nth_mono [OF assms(2), of i j] that assms(1) by simp
  have "r = bisect xs key 0 n"
    using assms(3) by (auto simp: Arrays_binarySearchInt_def Arrays_binarySearchLong_def)
  with bisect_finds [OF assms(1) mono order_refl, of 0 key] show ?thesis by auto
qed

theorem Arrays_binarySearch_finds_witness:
  "Arrays_binarySearchInt (Some [1, 3, 5]) 3 4 = - 3 \<and> [1, 3, 5] ! 1 < (4 :: int) \<and> (4 :: int) < [1, 3, 5] ! 2"
proof -
  have "Arrays_binarySearchInt (Some [1, 3, 5]) 3 4 = - 3" by code_simp
  with Arrays_binarySearch_finds [of 3 "[1, 3, 5]" "- 3" 4] show ?thesis
    by (simp add: numeral_3_eq_3)
qed

end
