(* ===== verification/Set_Sorted.thy ===== *)
theory Set_Sorted
  imports Set_Container Arrays
begin

text \<open>
  The sorted snapshot of a set (\<open>Set_toSortedList\<close>): the list of the members, its buffer read as
  signed integers of the stride's width, sorted in place.
\<close>

definition bufferInts :: "nat \<Rightarrow> nat \<Rightarrow> u8 list \<Rightarrow> int list" where
  "bufferInts width n d =
     map (\<lambda>i. if width = 4 then sint (le_read (mem_read d (i * 4) 4) :: 32 word)
              else sint (le_read (mem_read d (i * 8) 8) :: 64 word)) [0 ..< n]"

definition intsBuffer :: "nat \<Rightarrow> int list \<Rightarrow> u8 list \<Rightarrow> u8 list" where
  "intsBuffer width xs d =
     mem_write d 0
       (if width = 4 then concat (map (\<lambda>x. le_write 4 (word_of_int x :: 32 word)) xs)
        else concat (map (\<lambda>x. le_write 8 (word_of_int x :: 64 word)) xs))"

definition Set_toSortedList ::
    "SetTable option \<Rightarrow> World \<Rightarrow> (Collection option \<times> World) option" where
  "Set_toSortedList st w =
     (case Set_toList st w of
        None \<Rightarrow> None
      | Some (None, w1) \<Rightarrow> Some (None, w1)
      | Some (Some c, w1) \<Rightarrow>
          (let n = List_size (Some c); width = List_stride (Some c)
           in if 1 < n \<and> width = 4 then
                Some (Some (c\<lparr>data := intsBuffer 4
                  (the (Arrays_sortInt (Some (bufferInts 4 n (data c))) n)) (data c)\<rparr>), w1)
              else if 1 < n \<and> width = 8 then
                Some (Some (c\<lparr>data := intsBuffer 8
                  (the (Arrays_sortLong (Some (bufferInts 8 n (data c))) n)) (data c)\<rparr>), w1)
              else Some (Some c, w1)))"

text \<open>What the buffer holds afterwards: the same integers, sorted.\<close>

lemma length_le_blocks:
  "length (concat (map (\<lambda>x. le_write k (f x)) xs)) = k * length xs"
  by (induction xs) simp_all

lemma block_of_concat:
  "i < length xs \<Longrightarrow> take k (drop (i * k) (concat (map (\<lambda>x. le_write k (f x)) xs))) = le_write k (f (xs ! i))"
proof (induction xs arbitrary: i)
  case (Cons x xs)
  then show ?case by (cases i) simp_all
qed simp

lemma length_bufferInts [simp]: "length (bufferInts width n d) = n"
  by (simp add: bufferInts_def)

lemma signed_back:
  "x \<in> range (sint :: 'w::len word \<Rightarrow> int) \<Longrightarrow> sint (word_of_int x :: 'w word) = x"
  by auto

lemma ints_back:
  assumes "width = 4 \<or> width = 8" "width * length xs \<le> length d"
    and "set xs \<subseteq> (if width = 4 then range (sint :: 32 word \<Rightarrow> int) else range (sint :: 64 word \<Rightarrow> int))"
  shows "bufferInts width (length xs) (intsBuffer width xs d) = xs"
proof (rule nth_equalityI)
  fix i assume "i < length (bufferInts width (length xs) (intsBuffer width xs d))"
  then have i: "i < length xs" by simp
  then have x: "xs ! i \<in> (if width = 4 then range (sint :: 32 word \<Rightarrow> int) else range (sint :: 64 word \<Rightarrow> int))"
    using assms(3) nth_mem by blast
  have fit: "i * width + width \<le> width * length xs"
    using i mult_le_mono2 [of "Suc i" "length xs" width] by (simp add: mult.commute)
  show "bufferInts width (length xs) (intsBuffer width xs d) ! i = xs ! i"
  proof (cases "width = 4")
    case True
    let ?bs = "concat (map (\<lambda>x. le_write 4 (word_of_int x :: 32 word)) xs)"
    have "mem_read (mem_write d 0 ?bs) (i * 4) 4 = le_write 4 (word_of_int (xs ! i) :: 32 word)"
      using assms(2) fit True block_of_concat [OF i, of 4]
      by (simp add: mem_read_def mem_write_def length_le_blocks)
    then show ?thesis
      using True i x by (simp add: bufferInts_def intsBuffer_def le_read_write take_bit_word_eq_self signed_back)
  next
    case False
    then have w: "width = 8" using assms(1) by simp
    let ?bs = "concat (map (\<lambda>x. le_write 8 (word_of_int x :: 64 word)) xs)"
    have "mem_read (mem_write d 0 ?bs) (i * 8) 8 = le_write 8 (word_of_int (xs ! i) :: 64 word)"
      using assms(2) fit w block_of_concat [OF i, of 8]
      by (simp add: mem_read_def mem_write_def length_le_blocks)
    then show ?thesis
      using w i x by (simp add: bufferInts_def intsBuffer_def le_read_write take_bit_word_eq_self signed_back)
  qed
qed simp

text \<open>The sorted snapshot is the snapshot, its elements in ascending order of their signed values.\<close>

lemma Set_toSortedList_sorted:
  assumes "Set_toList st w = Some (Some c, w1)" "stride c = 4 \<or> stride c = 8"
    and "activeCount c * stride c \<le> length (data c)"
  shows "\<exists>c'. Set_toSortedList st w = Some (Some c', w1) \<and> activeCount c' = activeCount c \<and>
    bufferInts (stride c) (activeCount c) (data c') = sort (bufferInts (stride c) (activeCount c) (data c))"
proof (cases "1 < activeCount c")
  case False
  then have "sort (bufferInts (stride c) (activeCount c) (data c)) = bufferInts (stride c) (activeCount c) (data c)"
    by (cases "activeCount c") (auto simp: bufferInts_def)
  then show ?thesis
    using assms(1) False by (simp add: Set_toSortedList_def List_size_def Collection_size_def Let_def)
next
  case True
  let ?n = "activeCount c" let ?xs = "bufferInts (stride c) ?n (data c)"
  have "set ?xs \<subseteq> (if stride c = 4 then range (sint :: 32 word \<Rightarrow> int) else range (sint :: 64 word \<Rightarrow> int))"
    by (auto simp: bufferInts_def)
  then have again: "bufferInts (stride c) ?n (intsBuffer (stride c) (sort ?xs) (data c)) = sort ?xs"
    using ints_back [of "stride c" "sort ?xs" "data c"] assms(2,3) by (simp add: mult.commute)
  have "Arrays_sortInt (Some ?xs) ?n = Some (sort ?xs)" "Arrays_sortLong (Some ?xs) ?n = Some (sort ?xs)"
    using lomutoSort_array [of ?n ?xs] True
    by (simp_all add: Arrays_sortInt_def Arrays_sortLong_def quicksort_int_def quicksort_long_def)
  then show ?thesis
    using assms(1,2) True again
    by (auto simp: Set_toSortedList_def List_size_def Collection_size_def List_stride_def
        Collection_stride_def Let_def)
qed

end
