(* ===== verification/Base32.thy ===== *)
theory Base32
  imports Bytes
begin

text \<open>
  \<open>src/security/base32.c\<close>: the base-32 text of a byte string and back.  A destination is a buffer
  that the loops write by index; a pointer that may be null is an option.  The section on bit
  streams reads both loops as moving one and the same sequence of bits.
\<close>


section \<open>The operations\<close>

definition ALPHABET :: "u8 list" where
  "ALPHABET = [65, 66, 67, 68, 69, 70, 71, 72, 73, 74, 75, 76, 77, 78, 79, 80, 81, 82, 83, 84, 85, 86,
    87, 88, 89, 90, 50, 51, 52, 53, 54, 55]"

definition Base32_encodedLength :: "nat \<Rightarrow> nat" where
  "Base32_encodedLength byteLen = wrap64 (wrap64 (byteLen + 4) div 5 * 8)"

definition Base32_decodedLength :: "nat \<Rightarrow> nat" where
  "Base32_decodedLength charLen = wrap64 (charLen * 5) div 8"

definition decodeChar :: "u8 \<Rightarrow> int" where
  "decodeChar c =
    (if ch_A \<le> c \<and> c \<le> ch_Z then uint c - uint ch_A
     else if ch_a \<le> c \<and> c \<le> ch_z then uint c - uint ch_a
     else if 50 \<le> c \<and> c \<le> 55 then 26 + (uint c - 50)
     else - 1)"

definition encodeGroup :: "u8 list \<Rightarrow> nat \<Rightarrow> nat \<Rightarrow> u64" where
  "encodeGroup bytes i t =
    foldl (\<lambda>grp j. push_bit 8 grp OR (if j < t then ucast (bytes ! (i + j)) else 0)) 0 [0..<5]"

definition encodeChars :: "u64 \<Rightarrow> u8 list \<Rightarrow> nat \<Rightarrow> u8 list" where
  "encodeChars grp dest out =
    foldl (\<lambda>d j. d[out + j := ALPHABET ! unat (drop_bit (35 - j * 5) grp AND 0x1F)]) dest [0..<8]"

definition encodePad :: "u8 list \<Rightarrow> nat \<Rightarrow> nat \<Rightarrow> u8 list" where
  "encodePad dest out t = foldl (\<lambda>d p. d[out - 1 - p := 61]) dest [0..<(5 - t) * 8 div 5]"

function encodeLoop :: "u8 list \<Rightarrow> nat \<Rightarrow> u8 list \<Rightarrow> nat \<Rightarrow> nat \<Rightarrow> u8 list \<times> nat" where
  "encodeLoop bytes len dest out i =
    (if i < len then
       let t = (if len - i < 5 then len - i else 5);
           dest1 = encodeChars (encodeGroup bytes i t) dest out;
           out1 = out + 8
       in encodeLoop bytes len (encodePad dest1 out1 t) out1 (i + 5)
     else (dest, out))"
  by pat_completeness auto
termination by (relation "measure (\<lambda>(bytes, len, dest, out, i). len - i)") auto

declare encodeLoop.simps [simp del]

text \<open>The result, the destination and the flag (\<open>None\<close>: no flag was asked for).\<close>

definition Base32_encode ::
  "u8 list option \<Rightarrow> nat \<Rightarrow> u8 list option \<Rightarrow> nat \<Rightarrow> bool option \<Rightarrow> bool \<times> u8 list option \<times> bool option"
where
  "Base32_encode bytes len dest cap outTruncated =
    (let flag = map_option (\<lambda>_. False) outTruncated
     in if bytes = None \<and> len \<noteq> 0 \<or> dest = None then (False, dest, flag)
        else
          let need = Base32_encodedLength len
          in if cap < wrap64 (need + 1) then (False, dest, map_option (\<lambda>_. True) outTruncated)
             else
               let (d, out) = encodeLoop (case bytes of None \<Rightarrow> [] | Some bs \<Rightarrow> bs) len (the dest) 0 0
               in (True, Some (d[out := 0]), flag))"

text \<open>The loop of the decoder: the text from \<open>text[i]\<close> on, then \<open>dest\<close>, \<open>cap\<close>, \<open>out\<close>, \<open>acc\<close>
  and \<open>bits\<close>.\<close>

fun decodeLoop ::
  "u8 list \<Rightarrow> u8 list \<Rightarrow> nat \<Rightarrow> nat \<Rightarrow> u32 \<Rightarrow> nat \<Rightarrow> bool \<times> u8 list \<times> nat"
where
  "decodeLoop [] dest cap out acc bits = (True, dest, out)"
| "decodeLoop (c # cs) dest cap out acc bits =
    (if c = 61 then (True, dest, out)
     else if c = 32 \<or> c = ch_minus \<or> c = 10 \<or> c = 13 \<or> c = 9 then decodeLoop cs dest cap out acc bits
     else
       let v = decodeChar c
       in if v < 0 then (False, dest, out)
          else
            let acc1 = push_bit 5 acc OR word_of_int v; bits1 = bits + 5
            in if 8 \<le> bits1 then
                 if cap \<le> out then (False, dest, out)
                 else decodeLoop cs (dest[out := ucast (drop_bit (bits1 - 8) acc1 AND 0xFF)]) cap (out + 1)
                   acc1 (bits1 - 8)
               else decodeLoop cs dest cap out acc1 bits1)"

definition Base32_decode ::
  "u8 list option \<Rightarrow> nat \<Rightarrow> u8 list option \<Rightarrow> nat \<Rightarrow> nat option \<Rightarrow> bool \<times> u8 list option \<times> nat option"
where
  "Base32_decode txt len dest cap outLen =
    (let ol = map_option (\<lambda>_. 0) outLen
     in if txt = None \<or> dest = None then (False, dest, ol)
        else
          let (ok, d, out) = decodeLoop (take len (the txt)) (the dest) cap 0 0 0
          in (ok, Some d, if ok then map_option (\<lambda>_. out) outLen else ol))"

section \<open>Bit streams\<close>

text \<open>Bit \<open>k\<close> of a byte string, most significant first, and zero after its end.\<close>

definition streamBit :: "u8 list \<Rightarrow> nat \<Rightarrow> bool" where
  "streamBit bs k \<longleftrightarrow> k < 8 * length bs \<and> bit (bs ! (k div 8)) (7 - k mod 8)"

text \<open>The five bits that character \<open>k\<close> carries, and the character.\<close>

definition quintet :: "u8 list \<Rightarrow> nat \<Rightarrow> u64" where
  "quintet bs k =
    (let i = k div 8 * 5
     in drop_bit (35 - (k mod 8) * 5) (encodeGroup bs i (min 5 (length bs - i))) AND 0x1F)"

definition charOf :: "u8 list \<Rightarrow> nat \<Rightarrow> u8" where
  "charOf bs k = (if 5 * k < 8 * length bs then ALPHABET ! unat (quintet bs k) else 61)"

lemma foldl_le_read:
  "foldl (\<lambda>g b. push_bit 8 g OR ucast (b :: u8)) (0 :: 'a::len word) bs = le_read (rev bs)"
  by (induction bs rule: rev_induct) (simp_all add: or.commute)

lemma encodeGroup_read:
  "encodeGroup bs i t = le_read (rev (map (\<lambda>j. if j < t then bs ! (i + j) else 0) [0..<5]))"
  unfolding foldl_le_read [symmetric] encodeGroup_def
  by (simp add: foldl_map if_distrib cong: if_cong)

lemma encodeGroup_bit:
  assumes "n < 40" "t = min 5 (length bs - i)"
  shows "bit (encodeGroup bs i t) n \<longleftrightarrow> streamBit bs (8 * i + 39 - n)"
proof -
  define q r where "q = n div 8" and "r = n mod 8"
  have n: "n = 8 * q + r" "r < 8" "q \<le> 4" "n < 64"
    using assms(1) unfolding q_def r_def by simp_all
  have split: "8 * i + 39 - n = (7 - r) + 8 * (i + (4 - q))"
    unfolding n(1) using n(2,3) by simp
  have pos: "(8 * i + 39 - n) div 8 = i + (4 - q)" "7 - (8 * i + 39 - n) mod 8 = r"
    unfolding split using n(2) by (simp_all only: div_mult_self2 mod_mult_self2) simp_all
  have inside: "4 - q < t \<longleftrightarrow> 8 * i + 39 - n < 8 * length bs"
    unfolding split assms(2) using n(2) by (cases "q = 0") auto
  have "rev (map (\<lambda>j. if j < t then bs ! (i + j) else 0) [0..<5]) ! q =
      (if 4 - q < t then bs ! (i + (4 - q)) else 0)"
    using n(3) by (simp add: rev_nth del: upt_Suc)
  then have "bit (encodeGroup bs i t) n \<longleftrightarrow> bit (if 4 - q < t then bs ! (i + (4 - q)) else 0) r"
    unfolding encodeGroup_read using n(3,4)
    by (subst le_read_bit) (auto simp: q_def [symmetric] r_def [symmetric] simp del: upt_Suc)
  then show ?thesis
    unfolding streamBit_def pos inside by simp
qed

lemma quintet_bit: "bit (quintet bs k) r \<longleftrightarrow> r < 5 \<and> streamBit bs (5 * k + 4 - r)"
proof -
  have mask: "(0x1F :: u64) = mask 5" by (simp add: mask_numeral)
  show ?thesis
  proof (cases "r < 5")
    case True
    have k: "k = k mod 8 + 8 * (k div 8)" "k mod 8 < 8" by simp_all
    have "8 * (k div 8 * 5) + 39 - (35 - k mod 8 * 5 + r) = 5 * k + 4 - r"
      using True k by linarith
    moreover have "35 - k mod 8 * 5 + r < 40" using True k(2) by linarith
    ultimately show ?thesis
      using True unfolding quintet_def Let_def mask
      by (simp add: bit_and_iff bit_drop_bit_eq encodeGroup_bit bit_mask_iff)
  next
    case False
    then show ?thesis
      unfolding quintet_def Let_def mask by (simp add: bit_and_iff bit_mask_iff)
  qed
qed

lemma quintet_less: "unat (quintet bs k) < 32"
proof -
  have "quintet bs k = take_bit 5 (quintet bs k)"
    by (rule bit_word_eqI) (auto simp: bit_take_bit_iff quintet_bit)
  then have "unat (quintet bs k) = take_bit 5 (unat (quintet bs k))"
    by (metis unsigned_take_bit_eq)
  also have "\<dots> < 2 ^ 5" by (rule take_bit_nat_less_exp)
  finally show ?thesis by simp
qed

section \<open>The encoder writes the stream\<close>

lemma length_foldl_update [simp]: "length (foldl (\<lambda>d j. d[f j := v j]) d js) = length d"
  by (induction js arbitrary: d) simp_all

lemma nth_foldl_up:
  "k < length d \<Longrightarrow>
   foldl (\<lambda>d j. d[out + j := v j]) d [0..<n] ! k = (if out \<le> k \<and> k < out + n then v (k - out) else d ! k)"
proof (induction n)
  case (Suc n)
  then show ?case by (cases "k = out + n") auto
qed auto

lemma nth_foldl_down:
  "k < length d \<Longrightarrow> n \<le> out \<Longrightarrow>
   foldl (\<lambda>d p. d[out - 1 - p := v]) d [0..<n] ! k = (if out - n \<le> k \<and> k < out then v else d ! k)"
proof (induction n)
  case (Suc n)
  then show ?case by (cases "k = out - 1 - n") auto
qed auto

lemma length_encodeChars [simp]: "length (encodeChars g d out) = length d"
  and length_encodePad [simp]: "length (encodePad d out t) = length d"
  by (simp_all add: encodeChars_def encodePad_def)

lemma padding_position:
  assumes "0 < t" "t \<le> 5" "j < (8 :: nat)"
  shows "8 - (5 - t) * 8 div 5 \<le> j \<longleftrightarrow> \<not> 5 * j < 8 * t"
proof -
  have "t \<in> {1, 2, 3, 4, 5}" using assms by auto
  then show ?thesis using assms(3) by auto
qed

lemma encode_step:
  assumes "5 * g < length bs" "8 * g + 8 \<le> length d" "k < length d"
    and "t = min 5 (length bs - 5 * g)"
  shows "encodePad (encodeChars (encodeGroup bs (5 * g) t) d (8 * g)) (8 * g + 8) t ! k =
    (if 8 * g \<le> k \<and> k < 8 * g + 8 then charOf bs k else d ! k)"
proof -
  let ?n = "(5 - t) * 8 div 5"
  have t: "0 < t" "t \<le> 5" using assms by auto
  then have n: "?n \<le> 8" by auto
  have pad: "encodePad d1 (8 * g + 8) t ! k =
      (if 8 * g + 8 - ?n \<le> k \<and> k < 8 * g + 8 then 61 else d1 ! k)" if "length d1 = length d" for d1
    unfolding encodePad_def using nth_foldl_down [of k d1 ?n "8 * g + 8" 61] that assms(3) n by simp
  have chars: "encodeChars grp d (8 * g) ! k = (if 8 * g \<le> k \<and> k < 8 * g + 8
      then ALPHABET ! unat (drop_bit (35 - (k - 8 * g) * 5) grp AND 0x1F) else d ! k)" for grp
    unfolding encodeChars_def using assms(3) by (subst nth_foldl_up) auto
  show ?thesis
  proof (cases "8 * g \<le> k \<and> k < 8 * g + 8")
    case True
    define j where "j = k - 8 * g"
    have j: "k = 8 * g + j" "j < 8" using True by (auto simp: j_def)
    then have kd: "k div 8 = g" "k mod 8 = j" by simp_all
    have "8 * g + 8 - ?n \<le> k \<longleftrightarrow> \<not> 5 * j < 8 * t"
      using padding_position [OF t j(2)] n unfolding j(1) by linarith
    moreover have "5 * j < 8 * t \<longleftrightarrow> 5 * k < 8 * length bs"
      using j assms(1,4) by (auto simp: min_def)
    ultimately show ?thesis
      using True pad [of "encodeChars (encodeGroup bs (5 * g) t) d (8 * g)"]
      by (simp add: chars charOf_def quintet_def kd Let_def assms(4) [symmetric]
          mult.commute [of g 5] j_def [symmetric])
  next
    case False
    then show ?thesis 
      using n pad [of "encodeChars (encodeGroup bs (5 * g) t) d (8 * g)"] by (auto simp: chars)
  qed
qed

lemma encodeLoop_stream:
  assumes "8 * ((length bs + 4) div 5) \<le> length d" "5 * g < length bs + 5"
    and "\<forall>k < 8 * g. d ! k = charOf bs k"
  shows "\<exists>d'. encodeLoop bs (length bs) d (8 * g) (5 * g) = (d', 8 * ((length bs + 4) div 5)) \<and>
    length d' = length d \<and> (\<forall>k < 8 * ((length bs + 4) div 5). d' ! k = charOf bs k)"
  using assms
proof (induction "length bs - 5 * g" arbitrary: d g rule: less_induct)
  case less
  show ?case
  proof (cases "5 * g < length bs")
    case True
    let ?t = "min 5 (length bs - 5 * g)"
    let ?d = "encodePad (encodeChars (encodeGroup bs (5 * g) ?t) d (8 * g)) (8 * g + 8) ?t"
    have "Suc g \<le> (length bs + 4) div 5" using True by simp
    then have room: "8 * g + 8 \<le> length d" using less.prems(1) by linarith
    have "\<exists>d'. encodeLoop bs (length bs) ?d (8 * Suc g) (5 * Suc g) = (d', 8 * ((length bs + 4) div 5)) \<and>
        length d' = length ?d \<and> (\<forall>k < 8 * ((length bs + 4) div 5). d' ! k = charOf bs k)"
    proof (rule less.hyps)
      show "length bs - 5 * Suc g < length bs - 5 * g" using True by simp
      show "8 * ((length bs + 4) div 5) \<le> length ?d" using less.prems(1) by simp
      show "5 * Suc g < length bs + 5" using True by simp
      show "\<forall>k < 8 * Suc g. ?d ! k = charOf bs k"
        using room less.prems(3) by (auto simp: encode_step [OF True room])
    qed
    moreover have "encodeLoop bs (length bs) d (8 * g) (5 * g) =
        encodeLoop bs (length bs) ?d (8 * Suc g) (5 * Suc g)"
      using True by (subst encodeLoop.simps) (simp add: Let_def min_def add.commute)
    ultimately show ?thesis by simp
  next
    case False
    then have "(length bs + 4) div 5 = g" using less.prems(2) by linarith
    then show ?thesis using False less.prems(3) by (subst encodeLoop.simps) simp
  qed
qed

section \<open>The decoder reads it back\<close>

lemma alphabet_codes:
  "list_all (\<lambda>v. decodeChar (ALPHABET ! v) = int v \<and> ALPHABET ! v \<noteq> 61 \<and> ALPHABET ! v \<noteq> 32 \<and>
     ALPHABET ! v \<noteq> ch_minus \<and> ALPHABET ! v \<noteq> 10 \<and> ALPHABET ! v \<noteq> 13 \<and> ALPHABET ! v \<noteq> 9) [0..<32]"
  by code_simp

lemma alphabet_code:
  assumes "v < 32"
  shows "decodeChar (ALPHABET ! v) = int v" "ALPHABET ! v \<notin> {61, 32, ch_minus, 10, 13, 9}"
  using alphabet_codes assms by (auto simp: list_all_iff)

lemma append_quintet_bit:
  fixes acc :: u32
  assumes "\<forall>r < 32. r < 5 * m \<longrightarrow> bit acc r = streamBit bs (5 * m - 1 - r)"
    and "r < 32" "r < 5 * Suc m"
  shows "bit (push_bit 5 acc OR word_of_int (int (unat (quintet bs m)))) r =
    streamBit bs (5 * Suc m - 1 - r)"
proof -
  have "bit (word_of_int (int (unat (quintet bs m))) :: u32) r = bit (quintet bs m) r"
    using assms(2) by (simp add: bit_word_of_int_iff bit_of_nat_iff_bit bit_unsigned_iff)
  moreover have "5 * Suc m - 1 - r = 5 * m + 4 - r" by simp
  moreover have "5 * m - 1 - (r - 5) = 5 * m + 4 - r" if "5 \<le> r" using that by simp
  ultimately show ?thesis
    using assms by (cases "r < 5") (simp_all add: bit_or_iff bit_push_bit_iff quintet_bit)
qed

lemma streamBit_at: "e < 8 \<Longrightarrow> j < length bs \<Longrightarrow> streamBit bs (e + 8 * j) = bit (bs ! j) (7 - e)"
  by (simp add: streamBit_def)

lemma low_byte_of_stream:
  fixes acc :: u32
  assumes "\<forall>r < 12. r < 5 * m \<longrightarrow> bit acc r = streamBit bs (5 * m - 1 - r)"
    and "8 * Suc j + s = 5 * m" "s < 5" "j < length bs"
  shows "(ucast (drop_bit s acc AND 0xFF) :: u8) = bs ! j"
proof (rule bit_word_eqI)
  fix q assume q: "q < LENGTH(8)"
  have mask: "(0xFF :: u32) = mask 8" by (simp add: mask_numeral)
  have "bit acc (s + q) = streamBit bs (5 * m - 1 - (s + q))"
    using assms(1,2,3) q by auto
  moreover have "5 * m - 1 - (s + q) = (7 - q) + 8 * j" using assms(2) q by auto
  moreover have "streamBit bs ((7 - q) + 8 * j) = bit (bs ! j) q"
    using q assms(4) by (subst streamBit_at) simp_all
  ultimately show "bit (ucast (drop_bit s acc AND 0xFF) :: u8) q = bit (bs ! j) q"
    using q assms(3) unfolding mask
    by (simp add: bit_ucast_iff bit_and_iff bit_drop_bit_eq bit_mask_iff)
qed

lemma decodeLoop_data:
  assumes "decodeChar c = int v" "c \<notin> {61, 32, ch_minus, 10, 13, 9}"
    and "acc' = push_bit 5 acc OR word_of_int (int v)"
  shows "decodeLoop (c # cs) dest cap out acc bits =
    (if 8 \<le> bits + 5 then
       if cap \<le> out then (False, dest, out)
       else decodeLoop cs (dest[out := ucast (drop_bit (bits + 5 - 8) acc' AND 0xFF)]) cap (out + 1)
         acc' (bits + 5 - 8)
     else decodeLoop cs dest cap out acc' (bits + 5))"
  using assms(2) unfolding decodeLoop.simps assms(1,3) by simp

lemma divide_by_eight:
  fixes x :: nat
  obtains q r where "x = 8 * q + r" "r < 8" "x div 8 = q" "x mod 8 = r"
  by (metis mult_div_mod_eq mod_less_divisor zero_less_numeral)

lemma bits_stay:
  assumes "\<not> 8 \<le> 5 * m mod 8 + (5 :: nat)"
  shows "5 * Suc m div 8 = 5 * m div 8" "5 * Suc m mod 8 = 5 * m mod 8 + 5"
proof -
  obtain q r where x: "5 * m = 8 * q + r" "r < 8" "5 * m div 8 = q" "5 * m mod 8 = r"
    by (rule divide_by_eight)
  have sum: "5 * Suc m = (r + 5) + 8 * q" using x(1) by simp
  have "r + 5 < 8" using assms x(4) by simp
  then have "((r + 5) + 8 * q) div 8 = q" "((r + 5) + 8 * q) mod 8 = r + 5"
    by (simp_all only: div_mult_self2 mod_mult_self2) simp_all
  then show "5 * Suc m div 8 = 5 * m div 8" "5 * Suc m mod 8 = 5 * m mod 8 + 5"
    unfolding sum x(3,4) .
qed

lemma bits_carry:
  assumes "8 \<le> 5 * m mod 8 + (5 :: nat)"
  shows "5 * Suc m div 8 = Suc (5 * m div 8)" "5 * Suc m mod 8 = 5 * m mod 8 + 5 - 8"
    "8 * Suc (5 * m div 8) + (5 * m mod 8 + 5 - 8) = 5 * Suc m" "5 * m mod 8 + 5 - 8 < 5"
proof -
  obtain q r where x: "5 * m = 8 * q + r" "r < 8" "5 * m div 8 = q" "5 * m mod 8 = r"
    by (rule divide_by_eight)
  have r: "8 \<le> r + 5" using assms x(4) by simp
  then have sum: "5 * Suc m = (r + 5 - 8) + 8 * Suc q" using x(1) by simp
  have "((r + 5 - 8) + 8 * Suc q) div 8 = Suc q" "((r + 5 - 8) + 8 * Suc q) mod 8 = r + 5 - 8"
    using x(2) by (simp_all only: div_mult_self2 mod_mult_self2) simp_all
  then show "5 * Suc m div 8 = Suc (5 * m div 8)" "5 * Suc m mod 8 = 5 * m mod 8 + 5 - 8"
    unfolding sum x(3,4) .
  show "8 * Suc (5 * m div 8) + (5 * m mod 8 + 5 - 8) = 5 * Suc m" "5 * m mod 8 + 5 - 8 < 5"
    unfolding x(3,4) using sum x(2) by simp_all
qed

lemma decodeLoop_stream:
  assumes "\<forall>k < length ts. ts ! k = charOf bs k" "8 * length bs \<le> 5 * length ts"
    and "length bs \<le> cap" "cap \<le> length buf"
    and "m \<le> length ts" "5 * m < 8 * length bs + 5"
    and "\<forall>r < 32. r < 5 * m \<longrightarrow> bit acc r = streamBit bs (5 * m - 1 - r)"
    and "take (5 * m div 8) buf = take (5 * m div 8) bs"
  shows "\<exists>buf'. decodeLoop (drop m ts) buf cap (5 * m div 8) acc (5 * m mod 8) =
      (True, buf', length bs) \<and> length buf' = length buf \<and> take (length bs) buf' = bs"
  using assms
proof (induction "length ts - m" arbitrary: m acc buf rule: less_induct)
  case less
  show ?case
  proof (cases "5 * m < 8 * length bs")
    case False
    then have full: "5 * m div 8 = length bs" using less.prems(6) by linarith
    have "decodeLoop (drop m ts) buf cap (5 * m div 8) acc (5 * m mod 8) = (True, buf, 5 * m div 8)"
    proof (cases "m < length ts")
      case True
      then have "drop m ts = 61 # drop (Suc m) ts"
        using less.prems(1) False by (simp add: Cons_nth_drop_Suc [symmetric] charOf_def)
      then show ?thesis by simp
    qed simp
    then show ?thesis using less.prems(8) full by auto
  next
    case True
    let ?v = "unat (quintet bs m)"
    let ?acc = "push_bit 5 acc OR word_of_int (int ?v) :: u32"
    have "m < length ts" using True less.prems(2) by linarith
    then have ts: "drop m ts = ALPHABET ! ?v # drop (Suc m) ts"
      using less.prems(1) True by (simp add: Cons_nth_drop_Suc [symmetric] charOf_def)
    have code: "decodeChar (ALPHABET ! ?v) = int ?v" "ALPHABET ! ?v \<notin> {61, 32, ch_minus, 10, 13, 9}"
      using alphabet_code [OF quintet_less] by auto
    have acc: "\<forall>r < 32. r < 5 * Suc m \<longrightarrow> bit ?acc r = streamBit bs (5 * Suc m - 1 - r)"
      using append_quintet_bit [OF less.prems(7)] by blast
    have step: "\<exists>buf''. decodeLoop (drop (Suc m) ts) buf' cap (5 * Suc m div 8) ?acc (5 * Suc m mod 8) =
        (True, buf'', length bs) \<and> length buf'' = length buf' \<and> take (length bs) buf'' = bs"
      if "cap \<le> length buf'" "take (5 * Suc m div 8) buf' = take (5 * Suc m div 8) bs" for buf'
      by (rule less.hyps [OF _ less.prems(1-3) that(1) _ _ acc that(2)])
        (use \<open>m < length ts\<close> True in simp_all)
    show ?thesis
    proof (cases "8 \<le> 5 * m mod 8 + 5")
      case False
      then have same: "5 * Suc m div 8 = 5 * m div 8" "5 * Suc m mod 8 = 5 * m mod 8 + 5"
        by (rule bits_stay)+
      have "decodeLoop (drop m ts) buf cap (5 * m div 8) acc (5 * m mod 8) =
          decodeLoop (drop (Suc m) ts) buf cap (5 * Suc m div 8) ?acc (5 * Suc m mod 8)"
        unfolding ts decodeLoop_data [OF code refl] same using False by simp
      with step [of buf] less.prems(4,8) show ?thesis unfolding same by simp
    next
      case carry: True
      then have over: "5 * Suc m div 8 = Suc (5 * m div 8)" "5 * Suc m mod 8 = 5 * m mod 8 + 5 - 8"
        by (rule bits_carry)+
      let ?j = "5 * m div 8" and ?s = "5 * m mod 8 + 5 - 8"
      let ?buf = "buf[?j := ucast (drop_bit ?s ?acc AND 0xFF)]"
      have j: "?j < length bs" using True by simp
      have byte: "(ucast (drop_bit ?s ?acc AND 0xFF) :: u8) = bs ! ?j"
        using acc by (intro low_byte_of_stream [OF _ bits_carry(3,4) [OF carry] j]) simp
      have "take (Suc ?j) ?buf = take (Suc ?j) bs"
        unfolding byte using less.prems(3,4,8) j by (simp add: take_Suc_conv_app_nth)
      moreover have "decodeLoop (drop m ts) buf cap ?j acc (5 * m mod 8) =
          decodeLoop (drop (Suc m) ts) ?buf cap (5 * Suc m div 8) ?acc (5 * Suc m mod 8)"
        unfolding ts decodeLoop_data [OF code refl] over using carry j less.prems(3) by simp
      ultimately show ?thesis using step [of ?buf] less.prems(4) unfolding over by simp
    qed
  qed
qed

lemma encodedLength_exact:
  "n < 2 ^ 60 \<Longrightarrow> Base32_encodedLength n = 8 * ((n + 4) div 5)"
  by (simp add: Base32_encodedLength_def)

text \<open>
C25: the text of a byte string decodes to the byte string, for every length below 2^60, every
destination that has room for the text and its terminator, and every buffer that has room for
the bytes: both calls succeed and the decoder reports the length.
\<close>

theorem Base32_roundtrip:
  assumes "length bs < 2 ^ 60" "Base32_encodedLength (length bs) + 1 \<le> cap" "cap \<le> length d"
    and "length bs \<le> cap'" "cap' \<le> length buf"
  shows "\<exists>txt buf'. Base32_encode (Some bs) (length bs) (Some d) cap tr =
      (True, Some txt, map_option (\<lambda>_. False) tr) \<and>
    Base32_decode (Some txt) (Base32_encodedLength (length bs)) (Some buf) cap' (Some n) =
      (True, Some buf', Some (length bs)) \<and> take (length bs) buf' = bs"
proof -
  let ?n = "8 * ((length bs + 4) div 5)"
  have need: "Base32_encodedLength (length bs) = ?n" "?n + 1 < 18446744073709551616"
    using assms(1) by (simp_all add: encodedLength_exact)
  obtain d' where d': "encodeLoop bs (length bs) d 0 0 = (d', ?n)" "length d' = length d"
      "\<forall>k < ?n. d' ! k = charOf bs k"
    using encodeLoop_stream [of bs d 0] assms(2,3) need by auto
  have enc: "Base32_encode (Some bs) (length bs) (Some d) cap tr =
      (True, Some (d'[?n := 0]), map_option (\<lambda>_. False) tr)"
    using assms(2) need by (simp add: Base32_encode_def d')
  let ?ts = "take ?n (d'[?n := 0])"
  have ts: "length ?ts = ?n" "\<forall>k < length ?ts. ?ts ! k = charOf bs k"
    using d' assms(2,3) need by auto
  have "8 * length bs \<le> 5 * length ?ts" unfolding ts(1) by linarith
  with decodeLoop_stream [OF ts(2) _ assms(4,5), of 0 0] obtain buf' where
    "decodeLoop ?ts buf cap' 0 0 0 = (True, buf', length bs)" "take (length bs) buf' = bs"
    by auto
  then show ?thesis using enc need by (simp add: Base32_decode_def)
qed

theorem Base32_roundtrip_witness:
  "\<exists>txt buf'. Base32_encode (Some [102, 111, 111, 0]) 4 (Some (replicate 9 1)) 9 None =
      (True, Some txt, None) \<and>
    Base32_decode (Some txt) 8 (Some [7, 7, 7, 7]) 4 (Some 0) = (True, Some buf', Some 4) \<and>
    take 4 buf' = [102, 111, 111, 0]"
proof -
  have "length [102 :: u8, 111, 111, 0] = 4" by simp
  then show ?thesis
    using Base32_roundtrip [of "[102, 111, 111, 0]" 9 "replicate 9 1" 4 "[7, 7, 7, 7]" None 0]
    by (simp only: list.size) (simp add: Base32_encodedLength_def)
qed

end
