(* ===== verification/Digest.thy ===== *)
theory Digest
  imports Bytes
begin

text \<open>
  What the two hash functions of \<open>src/security\<close> share: the iteration of a compression function
  over 64-byte blocks, the padding of FIPS 180-4, big-endian words, and the contract of a
  streaming context (\<open>Init\<close>, \<open>Update\<close>, \<open>Final\<close>) on which the message authentication code
  rests.  The code repeats these parts in each file; the definitions here are the reference that
  the models of the files are compared with.
\<close>

section \<open>Big-endian words\<close>

definition be_write32 :: "u32 \<Rightarrow> u8 list" where
  "be_write32 v = [ucast (drop_bit 24 v), ucast (drop_bit 16 v), ucast (drop_bit 8 v), ucast v]"

definition be_write64 :: "u64 \<Rightarrow> u8 list" where
  "be_write64 v = map (\<lambda>i. ucast (drop_bit (56 - i * 8) v)) [0..<8]"

lemma length_be_write32 [simp]: "length (be_write32 v) = 4"
  and length_be_write64 [simp]: "length (be_write64 w) = 8"
  by (simp_all add: be_write32_def be_write64_def)

lemma ucast_and_255: "(ucast (v AND 0xFF) :: u8) = ucast (v :: 'a::len word)"
proof (rule bit_word_eqI)
  fix n assume "n < LENGTH(8)"
  moreover have mask: "(0xFF :: 'a word) = mask 8" by (simp add: mask_numeral)
  ultimately show "bit (ucast (v AND 0xFF) :: u8) n = bit (ucast v :: u8) n"
    unfolding mask by (auto simp: bit_ucast_iff bit_and_iff bit_mask_iff dest: bit_imp_le_length)
qed

lemma length_concat_words [simp]: "length (concat (map be_write32 ws)) = 4 * length ws"
  by (induction ws) simp_all

lemma write_word:
  assumes "length d = k" "4 \<le> length r"
  shows "(d @ r)[k := w, k + 1 := x, k + 2 := y, k + 3 := z] = (d @ [w, x, y, z]) @ drop 4 r"
proof -
  obtain r0 r1 r2 r3 r' where "r = r0 # r1 # r2 # r3 # r'"
    using assms(2) by (auto simp: numeral_eq_Suc Suc_le_length_iff)
  then show ?thesis using assms(1) by (simp add: list_update_append numeral_eq_Suc)
qed

lemma words_written:
  assumes "n \<le> length ws" "4 * n \<le> length out"
  shows "fold (\<lambda>i d. d[i * 4 := ucast (drop_bit 24 (ws ! i)), i * 4 + 1 := ucast (drop_bit 16 (ws ! i)),
      i * 4 + 2 := ucast (drop_bit 8 (ws ! i)), i * 4 + 3 := ucast (ws ! i)]) [0..<n] out =
    concat (map be_write32 (take n ws)) @ drop (4 * n) out"
  using assms
proof (induction n)
  case (Suc n)
  let ?F = "\<lambda>i d. d[i * 4 := ucast (drop_bit 24 (ws ! i)), i * 4 + 1 := ucast (drop_bit 16 (ws ! i)),
      i * 4 + 2 := ucast (drop_bit 8 (ws ! i)), i * 4 + 3 := ucast (ws ! i)]"
  let ?A = "concat (map be_write32 (take n ws))"
  have len: "length ?A = n * 4" and room: "4 \<le> length (drop (4 * n) out)" using Suc.prems by simp_all
  have "fold ?F [0..<Suc n] out = ?F n (fold ?F [0..<n] out)" by simp
  also have "\<dots> = ?F n (?A @ drop (4 * n) out)" using Suc by simp
  also have "\<dots> = (?A @ be_write32 (ws ! n)) @ drop 4 (drop (4 * n) out)"
    unfolding be_write32_def [of "ws ! n"] by (rule write_word [OF len room])
  finally show ?case using Suc.prems by (simp add: take_Suc_conv_app_nth add.commute)
qed simp

lemma eight_of:
  assumes "length xs = 8"
  obtains x0 x1 x2 x3 x4 x5 x6 x7 where "xs = [x0, x1, x2, x3, x4, x5, x6, x7]"
  using assms by (auto simp: length_Suc_conv numeral_eq_Suc)

lemma updates_after:
  assumes f: "length f = 56"
  shows "(f @ [b0, b1, b2, b3, b4, b5, b6, b7])[56 := c0, 57 := c1, 58 := c2, 59 := c3, 60 := c4,
      61 := c5, 62 := c6, 63 := c7] = f @ [c0, c1, c2, c3, c4, c5, c6, c7]"
proof -
  have u: "(f @ r)[56 + k := x] = f @ r[k := x]" for r k x using f by (simp add: list_update_append)
  show ?thesis
    using u [of _ 0] u [of _ 1] u [of _ 2] u [of _ 3] u [of _ 4] u [of _ 5] u [of _ 6] u [of _ 7] by simp
qed

lemma last_eight:
  assumes "length b = 64"
  obtains f b0 b1 b2 b3 b4 b5 b6 b7 where
    "f = take 56 b" "b = f @ [b0, b1, b2, b3, b4, b5, b6, b7]" "length f = 56"
proof -
  obtain b0 b1 b2 b3 b4 b5 b6 b7 where "drop 56 b = [b0, b1, b2, b3, b4, b5, b6, b7]"
    by (rule eight_of [of "drop 56 b"]) (use assms in auto)
  then show thesis
    using that [of "take 56 b" b0 b1 b2 b3 b4 b5 b6 b7] append_take_drop_id [of 56 b] assms by simp
qed

section \<open>Iterated compression\<close>

function chain :: "('s \<Rightarrow> u8 list \<Rightarrow> 's) \<Rightarrow> 's \<Rightarrow> u8 list \<Rightarrow> 's" where
  "chain f st p = (if 64 \<le> length p then chain f (f st (take 64 p)) (drop 64 p) else st)"
  by pat_completeness auto
termination by (relation "measure (\<lambda>(f, st, p). length p)") auto

declare chain.simps [simp del]

lemma chain_short [simp]: "length p < 64 \<Longrightarrow> chain f st p = st"
  by (subst chain.simps) simp

lemma chain_block: "length b = 64 \<Longrightarrow> chain f st (b @ p) = chain f (f st b) p"
  by (subst chain.simps) simp

lemma chain_append: "length p mod 64 = 0 \<Longrightarrow> chain f st (p @ q) = chain f (chain f st p) q"
proof (induction f st p rule: chain.induct)
  case (1 f st p)
  show ?case
  proof (cases "64 \<le> length p")
    case True
    then have "length (drop 64 p) mod 64 = 0" using "1.prems" by (simp add: mod_if)
    with 1 True show ?thesis
      by (subst (1 2) chain.simps) simp
  next
    case False
    then have "p = []" using "1.prems" by simp
    then show ?thesis by simp
  qed
qed

text \<open>The bytes of a message that no full block holds.\<close>

definition tailOf :: "u8 list \<Rightarrow> u8 list" where
  "tailOf p = drop (length p - length p mod 64) p"

lemma length_tailOf [simp]: "length (tailOf p) = length p mod 64"
  by (simp add: tailOf_def)

lemma tailOf_Nil_iff [simp]: "tailOf p = [] \<longleftrightarrow> 64 dvd length p"
  by (metis length_0_conv length_tailOf dvd_eq_mod_eq_0)

lemma add_mod_short: "m mod 64 + n < (64 :: nat) \<Longrightarrow> (m + n) mod 64 = m mod 64 + n"
  by (metis mod_add_left_eq mod_less)

lemma add_mod_over: "64 \<le> m mod 64 + n \<Longrightarrow> (m + n) mod 64 = (n - (64 - m mod 64)) mod (64 :: nat)"
proof -
  assume "64 \<le> m mod 64 + n"
  then have "m mod 64 + n = (n - (64 - m mod 64)) + 64" using mod_less_divisor [of 64 m] by linarith
  then show ?thesis by (metis mod_add_left_eq mod_add_self2)
qed

lemma tailOf_dvd [simp]: "64 dvd length p \<Longrightarrow> tailOf p = []"
  by simp

lemma tailOf_short [simp]: "length p < 64 \<Longrightarrow> tailOf p = p"
  by (simp add: tailOf_def)

lemma length_fullPart: "(length p - length p mod 64) mod 64 = (0 :: nat)"
  by (metis minus_mod_eq_mult_div mod_mult_self1_is_0)

lemma chain_tailOf: "chain f st (p @ q) = chain f (chain f st p) (tailOf p @ q)"
proof -
  let ?n = "length p - length p mod 64"
  have full: "length (take ?n p) mod 64 = 0"
    unfolding length_take min_absorb2 [OF diff_le_self] by (rule length_fullPart)
  have p: "p = take ?n p @ tailOf p" by (simp add: tailOf_def)
  have "chain f st p = chain f st (take ?n p)"
    by (subst p, subst chain_append [OF full]) simp
  moreover have "chain f st (p @ q) = chain f (chain f st (take ?n p)) (tailOf p @ q)"
    by (subst p) (simp only: append_assoc chain_append [OF full])
  ultimately show ?thesis by simp
qed

lemma tailOf_full: "length p mod 64 = 0 \<Longrightarrow> tailOf (p @ q) = tailOf q"
  by (auto simp: tailOf_def mod_simps mod_eq_0_iff_dvd elim!: dvdE)

lemma tailOf_append: "tailOf (p @ q) = tailOf (tailOf p @ q)"
proof -
  let ?n = "length p - length p mod 64"
  have full: "length (take ?n p) mod 64 = 0"
    unfolding length_take min_absorb2 [OF diff_le_self] by (rule length_fullPart)
  have "p @ q = take ?n p @ (tailOf p @ q)" by (simp add: tailOf_def)
  then show ?thesis by (simp only: tailOf_full [OF full])
qed

section \<open>Padding\<close>

definition mdPad :: "u8 list \<Rightarrow> u8 list" where
  "mdPad m = m @ [0x80] @ replicate ((119 - length m mod 64) mod 64) 0 @ be_write64 (of_nat (length m) * 8)"

lemma pad_zeros:
  "r < 56 \<Longrightarrow> (119 - r) mod 64 = 55 - (r :: nat)"
  "56 \<le> r \<Longrightarrow> r < 64 \<Longrightarrow> (119 - r) mod 64 = (63 - r) + 56"
proof -
  assume "r < 56"
  then have "119 - r = (55 - r) + 64" by simp
  then show "(119 - r) mod 64 = 55 - r" using \<open>r < 56\<close> by (simp only: mod_add_self2) simp
qed simp

lemma zeros_to_56:
  assumes "r < (64 :: nat)"
  shows "(120 - r) mod 64 = (if r \<le> 56 then 56 - r else 120 - r)"
proof (cases "r \<le> 56")
  case True
  then have "120 - r = (56 - r) + 64" by simp
  then show ?thesis using True by (simp only: mod_add_self2) simp
qed (use assms in simp)

lemma zeros_step:
  "(120 - n mod 64) mod 64 = Suc k \<Longrightarrow> (120 - Suc n mod 64) mod 64 = (k :: nat)"
  "(120 - n mod 64) mod 64 = (0 :: nat) \<Longrightarrow> n mod 64 = 56"
  "(120 - Suc n mod 64) mod 64 = (119 - n mod 64) mod (64 :: nat)"
proof -
  define r where "r = n mod 64"
  have r: "r < 64" "Suc n mod 64 = (if r = 63 then 0 else Suc r)" by (auto simp: r_def mod_Suc)
  have z: "(120 - Suc n mod 64) mod 64 = (if r = 63 then 56 else if r \<le> 55 then 55 - r else 119 - r)"
    using r(1) unfolding r(2) by (cases "r = 63"; cases "r \<le> 55") (auto simp: pad_zeros(1))
  show "(120 - Suc n mod 64) mod 64 = k" if "(120 - n mod 64) mod 64 = Suc k"
    using that r(1) unfolding z r_def [symmetric] zeros_to_56 [OF r(1)] by (auto split: if_splits)
  show "n mod 64 = 56" if "(120 - n mod 64) mod 64 = (0 :: nat)"
    using that r(1) unfolding r_def [symmetric] zeros_to_56 [OF r(1)] by (auto split: if_splits)
  show "(120 - Suc n mod 64) mod 64 = (119 - n mod 64) mod 64"
  proof (cases "r < 56")
    case True
    then show ?thesis unfolding z r_def [symmetric] pad_zeros(1) [OF True] by simp
  next
    case False
    then show ?thesis using r(1) unfolding z r_def [symmetric] by auto
  qed
qed

lemma length_mdPad: "length (mdPad m) mod 64 = 0"
proof -
  define r where "r = length m mod 64"
  have r: "r < 64" by (simp add: r_def)
  have "(r + (9 + (119 - r) mod 64)) mod 64 = (r + 9 + (119 - r)) mod 64"
    by (metis add.assoc mod_add_right_eq)
  also have "\<dots> = 128 mod 64" using r by (intro arg_cong [where f = "\<lambda>n. n mod 64"]) simp
  finally have "(length m + (9 + (119 - r) mod 64)) mod 64 = 0"
    unfolding r_def by (simp only: mod_add_left_eq) simp
  moreover have "length (mdPad m) = length m + (9 + (119 - r) mod 64)" by (simp add: mdPad_def r_def)
  ultimately show ?thesis by simp
qed

section \<open>The contract of a streaming context\<close>

text \<open>An input that may be null: it can be read when the length asked for is there.\<close>

definition readable :: "u8 list option \<Rightarrow> nat \<Rightarrow> bool" where
  "readable bytes len \<longleftrightarrow> (case bytes of None \<Rightarrow> len = 0 | Some bs \<Rightarrow> len \<le> length bs)"

definition given :: "u8 list option \<Rightarrow> nat \<Rightarrow> u8 list" where
  "given bytes len = (case bytes of None \<Rightarrow> [] | Some bs \<Rightarrow> take len bs)"

lemma readable_simps [simp]:
  "readable None len \<longleftrightarrow> len = 0" "readable (Some bs) len \<longleftrightarrow> len \<le> length bs"
  by (simp_all add: readable_def)

lemma given_simps [simp]: "given None len = []" "given (Some bs) len = take len bs"
  by (simp_all add: given_def)

locale streaming_hash =
  fixes start :: "'c \<Rightarrow> 'c" and feed :: "'c \<Rightarrow> u8 list option \<Rightarrow> nat \<Rightarrow> 'c"
    and finish :: "'c \<Rightarrow> u8 list option \<Rightarrow> 'c \<times> u8 list option"
    and usable :: "'c \<Rightarrow> bool" and holds :: "'c \<Rightarrow> u8 list \<Rightarrow> bool"
    and digest :: "u8 list \<Rightarrow> u8 list" and width :: nat
  assumes start_holds: "usable c \<Longrightarrow> holds (start c) []"
    and feed_holds: "holds c m \<Longrightarrow> readable d n \<Longrightarrow> holds (feed c d n) (m @ given d n)"
    and finish_digest: "holds c m \<Longrightarrow> width \<le> length out \<Longrightarrow>
      snd (finish c (Some out)) = Some (digest m @ drop width out)"
    and finish_usable: "holds c m \<Longrightarrow> width \<le> length out \<Longrightarrow> usable (fst (finish c (Some out)))"
begin

lemma feeds_holds:
  "holds c m \<Longrightarrow> list_all (\<lambda>(d, n). readable d n) ps \<Longrightarrow>
   holds (fold (\<lambda>(d, n) c. feed c d n) ps c) (m @ concat (map (\<lambda>(d, n). given d n) ps))"
proof (induction ps arbitrary: c m)
  case (Cons p ps)
  obtain d n where p: "p = (d, n)" by (cases p)
  have "holds (feed c d n) (m @ given d n)" using Cons.prems feed_holds p by simp
  from Cons.IH [OF this] Cons.prems(2) p show ?case by simp
qed simp

lemma pieces:
  assumes "usable c" "list_all (\<lambda>(d, n). readable d n) ps" "width \<le> length out"
  shows "snd (finish (fold (\<lambda>(d, n) c. feed c d n) ps (start c)) (Some out)) =
    Some (digest (concat (map (\<lambda>(d, n). given d n) ps)) @ drop width out)"
  using finish_digest [OF feeds_holds [OF start_holds [OF assms(1)] assms(2)] assms(3)] by simp

lemma one_piece:
  "usable c \<Longrightarrow> readable d n \<Longrightarrow> width \<le> length out \<Longrightarrow>
   snd (finish (feed (start c) d n) (Some out)) = Some (digest (given d n) @ drop width out)"
  using pieces [of c "[(d, n)]" out] by simp

lemma two_pieces:
  "usable c \<Longrightarrow> readable d n \<Longrightarrow> readable e k \<Longrightarrow> width \<le> length out \<Longrightarrow>
   snd (finish (feed (feed (start c) d n) e k) (Some out)) =
     Some (digest (given d n @ given e k) @ drop width out)"
  using pieces [of c "[(d, n), (e, k)]" out] by simp

lemma two_pieces_usable:
  "usable c \<Longrightarrow> readable d n \<Longrightarrow> readable e k \<Longrightarrow> width \<le> length out \<Longrightarrow>
   usable (fst (finish (feed (feed (start c) d n) e k) (Some out)))"
  using finish_usable [OF feeds_holds [OF start_holds, of c "[(d, n), (e, k)]"]] by simp

end

end
