(* ===== verification/Fips180.thy ===== *)
theory Fips180
  imports Digest
begin

text \<open>
  The two digests as FIPS 180-4 defines them, from the standard and not from the code: rotation is
  the library's, words of a block are its bytes concatenated, the message schedule is the recursive
  equation of the standard, and the round constants are computed as the fractional parts of roots.
  The theories of the two files show that the code's compression functions are these.
\<close>

section \<open>Roots\<close>

text \<open>The greatest \<open>q\<close> below \<open>k + 2 ^ n\<close> with \<open>q ^ r \<le> x\<close>, bit by bit.\<close>

primrec rootBits :: "nat \<Rightarrow> nat \<Rightarrow> nat \<Rightarrow> nat \<Rightarrow> nat" where
  "rootBits r x 0 k = k"
| "rootBits r x (Suc n) k = rootBits r x n (if (k + 2 ^ n) ^ r \<le> x then k + 2 ^ n else k)"

lemma rootBits_root:
  "k ^ r \<le> x \<Longrightarrow> x < (k + 2 ^ n) ^ r \<Longrightarrow> rootBits r x n k ^ r \<le> x \<and> x < (rootBits r x n k + 1) ^ r"
proof (induction n arbitrary: k)
  case (Suc n)
  have split: "k + 2 ^ Suc n = (k + 2 ^ n) + 2 ^ n" by simp
  show ?case
  proof (cases "(k + 2 ^ n) ^ r \<le> x")
    case True
    then show ?thesis using Suc.IH [of "k + 2 ^ n"] Suc.prems(2) unfolding split by simp
  next
    case False
    then show ?thesis using Suc.IH [of k] Suc.prems(1) by (simp add: not_le)
  qed
qed simp

lemma rootBits_eq:
  assumes "q ^ r \<le> x" "x < (q + 1) ^ r" "x < (2 ^ n) ^ r" "0 < r"
  shows "rootBits r x n 0 = q"
proof -
  have root: "rootBits r x n 0 ^ r \<le> x" "x < (rootBits r x n 0 + 1) ^ r"
    using rootBits_root [of 0 r x n] assms(3,4) by (auto simp: zero_power)
  have "q < rootBits r x n 0 + 1" "rootBits r x n 0 < q + 1"
    using le_less_trans [OF assms(1) root(2)] le_less_trans [OF root(1) assms(2)]
    by (auto dest!: power_less_imp_less_base)
  then show ?thesis by simp
qed

text \<open>The fractional part of the \<open>r\<close>-th root of a number below \<open>8 ^ r\<close>: its first 32 bits.\<close>

definition fracRoot :: "nat \<Rightarrow> nat \<Rightarrow> u32" where
  "fracRoot r p = of_nat (rootBits r (p * 2 ^ (32 * r)) 35 0)"

lemma fracRoot_eq:
  assumes "q ^ r \<le> p * (2 ^ 32) ^ r" "p * (2 ^ 32) ^ r < (q + 1) ^ r" "0 < r" "p < 8 ^ r"
  shows "fracRoot r p = of_nat q"
proof -
  have "p * (2 ^ 32) ^ r < 8 ^ r * (2 ^ 32) ^ r" using assms(4) by simp
  also have "\<dots> = (2 ^ 35) ^ r" by (simp flip: power_mult_distrib)
  finally show ?thesis
    using assms by (simp add: fracRoot_def rootBits_eq power_mult)
qed

lemma fracRoot_map:
  "list_all2 (\<lambda>p q. q ^ r \<le> p * (2 ^ 32) ^ r \<and> p * (2 ^ 32) ^ r < (q + 1) ^ r \<and> 0 < r \<and> p < 8 ^ r) ps qs \<Longrightarrow>
   map (fracRoot r) ps = map of_nat qs"
  by (induction rule: list_all2_induct) (auto simp: fracRoot_eq)

definition firstPrimes :: "nat list" where
  "firstPrimes = [2, 3, 5, 7, 11, 13, 17, 19, 23, 29, 31, 37, 41, 43, 47, 53, 59, 61, 67, 71, 73, 79,
    83, 89, 97, 101, 103, 107, 109, 113, 127, 131, 137, 139, 149, 151, 157, 163, 167, 173, 179, 181,
    191, 193, 197, 199, 211, 223, 227, 229, 233, 239, 241, 251, 257, 263, 269, 271, 277, 281, 283,
    293, 307, 311]"

lemma length_firstPrimes [simp]: "length firstPrimes = 64"
  by (simp add: firstPrimes_def)

section \<open>Words\<close>

definition blockWord :: "u8 list \<Rightarrow> nat \<Rightarrow> u32" where
  "blockWord b t = word_rcat (take 4 (drop (4 * t) b))"

lemma rotr_shifts:
  assumes "0 < n" "n < 32"
  shows "word_rotr n (x :: u32) = drop_bit n x OR push_bit (32 - n) x"
proof (rule bit_word_eqI)
  fix i assume i: "i < LENGTH(32)"
  show "bit (word_rotr n x) i = bit (drop_bit n x OR push_bit (32 - n) x) i"
  proof (cases "i + n < 32")
    case True
    then show ?thesis using i assms
      by (auto simp: bit_word_rotr_iff bit_or_iff bit_drop_bit_eq bit_push_bit_iff ac_simps)
  next
    case False
    then have "(i + n) mod 32 = i + n - 32" using i assms by (simp add: mod_if)
    moreover have "\<not> bit x (n + i)" using False by (auto dest: bit_imp_le_length)
    ultimately show ?thesis using i assms False
      by (auto simp: bit_word_rotr_iff bit_or_iff bit_drop_bit_eq bit_push_bit_iff ac_simps)
  qed
qed

lemma rcat_four:
  "(word_rcat [a, b, c, d :: u8] :: u32) =
    push_bit 24 (ucast a) OR push_bit 16 (ucast b) OR push_bit 8 (ucast c) OR ucast d"
proof (rule bit_word_eqI)
  fix i assume "i < LENGTH(32)"
  then have i: "i < 32" by simp
  have rcat: "bit (word_rcat [a, b, c, d] :: u32) i \<longleftrightarrow> bit ([d, c, b, a] ! (i div 8)) (i mod 8)"
    using i by (simp only: word_rcat_def comp_apply rev.simps append.simps bit_word_of_int_iff
        bit_horner_sum_uint_exp_iff) (simp add: less_mult_imp_div_less)
  consider "i < 8" | "8 \<le> i" "i < 16" | "16 \<le> i" "i < 24" | "24 \<le> i" using i by linarith
  then show "bit (word_rcat [a, b, c, d] :: u32) i =
      bit (push_bit 24 (ucast a) OR push_bit 16 (ucast b) OR push_bit 8 (ucast c) OR ucast d :: u32) i"
  proof cases
    case 1
    then show ?thesis unfolding rcat by (simp add: bit_simps)
  next
    case 2
    then have "i div 8 = 1" "i mod 8 = i - 8" by (simp_all add: div_nat_eqI mod_if)
    with 2 show ?thesis unfolding rcat by (auto simp: bit_simps dest: bit_imp_le_length)
  next
    case 3
    then have "i div 8 = 2" "i mod 8 = i - 16" by (simp_all add: div_nat_eqI mod_if)
    with 3 show ?thesis unfolding rcat by (auto simp: bit_simps dest: bit_imp_le_length)
  next
    case 4
    then have "i div 8 = 3" "i mod 8 = i - 24" using i by (simp_all add: div_nat_eqI mod_if)
    with 4 show ?thesis unfolding rcat by (auto simp: bit_simps nth_Cons' dest: bit_imp_le_length)
  qed
qed

lemma blockWord_bytes:
  assumes "length b = 64" "t < 16"
  shows "blockWord b t = push_bit 24 (ucast (b ! (t * 4))) OR push_bit 16 (ucast (b ! (t * 4 + 1))) OR
    push_bit 8 (ucast (b ! (t * 4 + 2))) OR ucast (b ! (t * 4 + 3))"
proof -
  have "take 4 (drop (4 * t) b) = [b ! (t * 4), b ! (t * 4 + 1), b ! (t * 4 + 2), b ! (t * 4 + 3)]"
    using assms by (intro nth_equalityI) (auto simp: nth_Cons' numeral_eq_Suc less_Suc_eq ac_simps)
  then show ?thesis unfolding blockWord_def by (simp only: rcat_four)
qed

text \<open>A compression may be replaced by one that agrees with it on whole blocks and whole states.\<close>

lemma chain_cong:
  "(\<And>st b. length st = n \<Longrightarrow> length b = 64 \<Longrightarrow> f st b = g st b \<and> length (g st b) = n) \<Longrightarrow>
   length st = n \<Longrightarrow> chain f st p = chain g st p"
proof (induction f st p rule: chain.induct)
  case (1 f st p)
  show ?case
  proof (cases "64 \<le> length p")
    case True
    then have "f st (take 64 p) = g st (take 64 p)" "length (g st (take 64 p)) = n"
      using "1.prems"(2) "1.prems"(1) [of st "take 64 p"] by auto
    then show ?thesis
      using True "1.IH" "1.prems"(1) by (subst (1 2) chain.simps) simp
  qed simp
qed

section \<open>SHA-256\<close>

definition SIGMA0 :: "u32 \<Rightarrow> u32" where
  "SIGMA0 x = word_rotr 2 x XOR word_rotr 13 x XOR word_rotr 22 x"

definition SIGMA1 :: "u32 \<Rightarrow> u32" where
  "SIGMA1 x = word_rotr 6 x XOR word_rotr 11 x XOR word_rotr 25 x"

definition sigma0 :: "u32 \<Rightarrow> u32" where
  "sigma0 x = word_rotr 7 x XOR word_rotr 18 x XOR drop_bit 3 x"

definition sigma1 :: "u32 \<Rightarrow> u32" where
  "sigma1 x = word_rotr 17 x XOR word_rotr 19 x XOR drop_bit 10 x"

function W256 :: "u8 list \<Rightarrow> nat \<Rightarrow> u32" where
  "W256 b t =
    (if t < 16 then blockWord b t
     else sigma1 (W256 b (t - 2)) + W256 b (t - 7) + sigma0 (W256 b (t - 15)) + W256 b (t - 16))"
  by auto
termination by (relation "measure (\<lambda>(b, t). t)") auto

declare W256.simps [simp del]

lemma W256_start: "t < 16 \<Longrightarrow> W256 b t = blockWord b t"
  and W256_next: "16 \<le> t \<Longrightarrow>
    W256 b t = sigma1 (W256 b (t - 2)) + W256 b (t - 7) + sigma0 (W256 b (t - 15)) + W256 b (t - 16)"
  by (subst W256.simps, simp)+

primrec rounds256 :: "u8 list \<Rightarrow> u32 list \<Rightarrow> nat \<Rightarrow> u32 \<times> u32 \<times> u32 \<times> u32 \<times> u32 \<times> u32 \<times> u32 \<times> u32" where
  "rounds256 b st 0 = (st ! 0, st ! 1, st ! 2, st ! 3, st ! 4, st ! 5, st ! 6, st ! 7)"
| "rounds256 b st (Suc t) =
    (let (a, b', c, d, e, f, g, h) = rounds256 b st t;
         T1 = h + SIGMA1 e + ((e AND f) XOR (NOT e AND g)) + fracRoot 3 (firstPrimes ! t) + W256 b t;
         T2 = SIGMA0 a + ((a AND b') XOR (a AND c) XOR (b' AND c))
     in (T1 + T2, a, b', c, d + T1, e, f, g))"

definition fips256 :: "u32 list \<Rightarrow> u8 list \<Rightarrow> u32 list" where
  "fips256 st b =
    (let (a, b', c, d, e, f, g, h) = rounds256 b st 64
     in map2 (+) [a, b', c, d, e, f, g, h] st)"

text \<open>The initial state: square roots of the first eight primes.\<close>

definition H256 :: "u32 list" where
  "H256 = map (fracRoot 2) (take 8 firstPrimes)"

definition sha256Digest :: "u8 list \<Rightarrow> u8 list" where
  "sha256Digest m = concat (map be_write32 (chain fips256 H256 (mdPad m)))"

section \<open>SHA-1\<close>

function W1 :: "u8 list \<Rightarrow> nat \<Rightarrow> u32" where
  "W1 b t =
    (if t < 16 then blockWord b t
     else word_rotl 1 (W1 b (t - 3) XOR W1 b (t - 8) XOR W1 b (t - 14) XOR W1 b (t - 16)))"
  by auto
termination by (relation "measure (\<lambda>(b, t). t)") auto

declare W1.simps [simp del]

lemma W1_start: "t < 16 \<Longrightarrow> W1 b t = blockWord b t"
  and W1_next: "16 \<le> t \<Longrightarrow>
    W1 b t = word_rotl 1 (W1 b (t - 3) XOR W1 b (t - 8) XOR W1 b (t - 14) XOR W1 b (t - 16))"
  by (subst W1.simps, simp)+

text \<open>The function and the constant of a round; the constant is a square root scaled by \<open>2 ^ 30\<close>.\<close>

definition F1 :: "nat \<Rightarrow> u32 \<Rightarrow> u32 \<Rightarrow> u32 \<Rightarrow> u32" where
  "F1 t x y z =
    (if t < 20 then (x AND y) XOR (NOT x AND z)
     else if t < 40 then x XOR y XOR z
     else if t < 60 then (x AND y) XOR (x AND z) XOR (y AND z)
     else x XOR y XOR z)"

definition K1 :: "nat \<Rightarrow> u32" where
  "K1 t = of_nat (rootBits 2 ([2, 3, 5, 10] ! (t div 20) * 2 ^ 60) 32 0)"

primrec rounds1 :: "u8 list \<Rightarrow> u32 list \<Rightarrow> nat \<Rightarrow> u32 \<times> u32 \<times> u32 \<times> u32 \<times> u32" where
  "rounds1 b st 0 = (st ! 0, st ! 1, st ! 2, st ! 3, st ! 4)"
| "rounds1 b st (Suc t) =
    (let (a, b', c, d, e) = rounds1 b st t
     in (word_rotl 5 a + F1 t b' c d + e + K1 t + W1 b t, a, word_rotl 30 b', c, d))"

definition fips1 :: "u32 list \<Rightarrow> u8 list \<Rightarrow> u32 list" where
  "fips1 st b = (let (a, b', c, d, e) = rounds1 b st 80 in map2 (+) [a, b', c, d, e] st)"

text \<open>The initial state: the hexadecimal digits counted up and down, least significant byte first.\<close>

definition H1 :: "u32 list" where
  "H1 = map (word_rcat \<circ> rev)
    [[0x01, 0x23, 0x45, 0x67 :: u8], [0x89, 0xAB, 0xCD, 0xEF], [0xFE, 0xDC, 0xBA, 0x98],
     [0x76, 0x54, 0x32, 0x10], [0xF0, 0xE1, 0xD2, 0xC3]]"

definition sha1Digest :: "u8 list \<Rightarrow> u8 list" where
  "sha1Digest m = concat (map be_write32 (chain fips1 H1 (mdPad m)))"

lemma length_fips256 [simp]: "length st = 8 \<Longrightarrow> length (fips256 st b) = 8"
  by (simp add: fips256_def split: prod.splits)

lemma length_fips1 [simp]: "length st = 5 \<Longrightarrow> length (fips1 st b) = 5"
  by (simp add: fips1_def split: prod.splits)

lemma length_H256 [simp]: "length H256 = 8"
  and length_H1 [simp]: "length H1 = 5"
  by (simp_all add: H256_def H1_def firstPrimes_def)

lemma length_chain_fips [simp]:
  "length st = 8 \<Longrightarrow> length (chain fips256 st p) = 8"
  "length st = 5 \<Longrightarrow> length (chain fips1 st p) = 5"
proof -
  have "length st = n \<Longrightarrow> (\<And>s b. length s = n \<Longrightarrow> length (f s b) = n) \<Longrightarrow> length (chain f st p) = n" for f n
    by (induction f st p rule: chain.induct) (subst chain.simps, simp)
  then show "length st = 8 \<Longrightarrow> length (chain fips256 st p) = 8"
    "length st = 5 \<Longrightarrow> length (chain fips1 st p) = 5" by auto
qed

lemma length_sha256Digest [simp]: "length (sha256Digest m) = 32"
  and length_sha1Digest [simp]: "length (sha1Digest m) = 20"
  by (simp_all add: sha256Digest_def sha1Digest_def)

text \<open>A schedule that a loop appends to is the recursive one, when its words are.\<close>

lemma schedule_words:
  assumes "\<And>i. 16 \<le> i \<Longrightarrow> i < n \<Longrightarrow> step i (map w [0..<i]) = w i" "16 \<le> n"
  shows "fold (\<lambda>i m. m @ [step i m]) [16..<n] (map w [0..<16]) = map w [0..<n]"
  using assms(2,1)
proof (induction n rule: dec_induct)
  case (step n)
  then show ?case by simp
qed simp

end
