(* ===== verification/Sha256.thy ===== *)
theory Sha256
  imports Fips180
begin

text \<open>
  \<open>src/security/crypto.c\<close>, the SHA-256 part: the compression function, the streaming context and
  the one-shot digest, shown to give the digest of Fips180.  Pointers that may be null are options; an output array is a buffer
  that the code writes from its start.
\<close>

section \<open>Compression\<close>

definition Crypto_rotr :: "u32 \<Rightarrow> nat \<Rightarrow> u32" where
  "Crypto_rotr x n = drop_bit n x OR push_bit (32 - n) x"

definition CH :: "u32 \<Rightarrow> u32 \<Rightarrow> u32 \<Rightarrow> u32" where
  "CH x y z = (x AND y) XOR (NOT x AND z)"

definition MAJ :: "u32 \<Rightarrow> u32 \<Rightarrow> u32 \<Rightarrow> u32" where
  "MAJ x y z = (x AND y) XOR (x AND z) XOR (y AND z)"

definition EP0 :: "u32 \<Rightarrow> u32" where
  "EP0 x = Crypto_rotr x 2 XOR Crypto_rotr x 13 XOR Crypto_rotr x 22"

definition EP1 :: "u32 \<Rightarrow> u32" where
  "EP1 x = Crypto_rotr x 6 XOR Crypto_rotr x 11 XOR Crypto_rotr x 25"

definition SIG0 :: "u32 \<Rightarrow> u32" where
  "SIG0 x = Crypto_rotr x 7 XOR Crypto_rotr x 18 XOR drop_bit 3 x"

definition SIG1 :: "u32 \<Rightarrow> u32" where
  "SIG1 x = Crypto_rotr x 17 XOR Crypto_rotr x 19 XOR drop_bit 10 x"

definition K256 :: "u32 list" where
  "K256 = concat [
    [0x428a2f98, 0x71374491, 0xb5c0fbcf, 0xe9b5dba5],
    [0x3956c25b, 0x59f111f1, 0x923f82a4, 0xab1c5ed5],
    [0xd807aa98, 0x12835b01, 0x243185be, 0x550c7dc3],
    [0x72be5d74, 0x80deb1fe, 0x9bdc06a7, 0xc19bf174],
    [0xe49b69c1, 0xefbe4786, 0x0fc19dc6, 0x240ca1cc],
    [0x2de92c6f, 0x4a7484aa, 0x5cb0a9dc, 0x76f988da],
    [0x983e5152, 0xa831c66d, 0xb00327c8, 0xbf597fc7],
    [0xc6e00bf3, 0xd5a79147, 0x06ca6351, 0x14292967],
    [0x27b70a85, 0x2e1b2138, 0x4d2c6dfc, 0x53380d13],
    [0x650a7354, 0x766a0abb, 0x81c2c92e, 0x92722c85],
    [0xa2bfe8a1, 0xa81a664b, 0xc24b8b70, 0xc76c51a3],
    [0xd192e819, 0xd6990624, 0xf40e3585, 0x106aa070],
    [0x19a4c116, 0x1e376c08, 0x2748774c, 0x34b0bcb5],
    [0x391c0cb3, 0x4ed8aa4a, 0x5b9cca4f, 0x682e6ff3],
    [0x748f82ee, 0x78a5636f, 0x84c87814, 0x8cc70208],
    [0x90befffa, 0xa4506ceb, 0xbef9a3f7, 0xc67178f2]]"

definition sha256Schedule :: "u8 list \<Rightarrow> u32 list" where
  "sha256Schedule bs =
    fold (\<lambda>i m. m @ [SIG1 (m ! (i - 2)) + m ! (i - 7) + SIG0 (m ! (i - 15)) + m ! (i - 16)]) [16..<64]
      (map (\<lambda>i. push_bit 24 (ucast (bs ! (i * 4))) OR push_bit 16 (ucast (bs ! (i * 4 + 1))) OR
        push_bit 8 (ucast (bs ! (i * 4 + 2))) OR ucast (bs ! (i * 4 + 3))) [0..<16])"

type_synonym vars256 = "u32 \<times> u32 \<times> u32 \<times> u32 \<times> u32 \<times> u32 \<times> u32 \<times> u32"

definition sha256Round :: "u32 list \<Rightarrow> nat \<Rightarrow> vars256 \<Rightarrow> vars256" where
  "sha256Round m i = (\<lambda>(a, b, c, d, e, f, g, h).
    let t1 = h + EP1 e + CH e f g + K256 ! i + m ! i;
        t2 = EP0 a + MAJ a b c
    in (t1 + t2, a, b, c, d + t1, e, f, g))"

definition sha256Compress :: "u32 list \<Rightarrow> u8 list \<Rightarrow> u32 list" where
  "sha256Compress st bs =
    (let m = sha256Schedule bs;
         (a, b, c, d, e, f, g, h) =
           fold (sha256Round m) [0..<64]
             (st ! 0, st ! 1, st ! 2, st ! 3, st ! 4, st ! 5, st ! 6, st ! 7)
     in [st ! 0 + a, st ! 1 + b, st ! 2 + c, st ! 3 + d, st ! 4 + e, st ! 5 + f, st ! 6 + g, st ! 7 + h])"

section \<open>The streaming context\<close>

record CryptoSha256 =
  state256 :: "u32 list"
  count256 :: u64
  buffer256 :: "u8 list"

definition Crypto_sha256Transform :: "CryptoSha256 \<Rightarrow> u8 list \<Rightarrow> CryptoSha256" where
  "Crypto_sha256Transform ctx bs = ctx\<lparr>state256 := sha256Compress (state256 ctx) bs\<rparr>"

definition sha256Start :: "u32 list" where
  "sha256Start = [0x6a09e667, 0xbb67ae85, 0x3c6ef372, 0xa54ff53a, 0x510e527f, 0x9b05688c, 0x1f83d9ab,
    0x5be0cd19]"

definition Crypto_sha256Init :: "CryptoSha256 option \<Rightarrow> CryptoSha256 option" where
  "Crypto_sha256Init ctx =
    (case ctx of None \<Rightarrow> None | Some c \<Rightarrow> Some (c\<lparr>count256 := 0, state256 := sha256Start\<rparr>))"

function sha256Blocks :: "CryptoSha256 \<Rightarrow> u8 list \<Rightarrow> CryptoSha256 \<times> u8 list" where
  "sha256Blocks ctx p =
    (if 64 \<le> length p then sha256Blocks (Crypto_sha256Transform ctx (take 64 p)) (drop 64 p) else (ctx, p))"
  by pat_completeness auto
termination by (relation "measure (\<lambda>(ctx, p). length p)") auto

declare sha256Blocks.simps [simp del]

definition sha256Rest :: "CryptoSha256 \<Rightarrow> u8 list \<Rightarrow> CryptoSha256" where
  "sha256Rest ctx p =
    (let (ctx1, q) = sha256Blocks ctx p
     in if 0 < length q then ctx1\<lparr>buffer256 := memcpy (buffer256 ctx1) 0 q 0 (length q)\<rparr> else ctx1)"

definition Crypto_sha256Update ::
  "CryptoSha256 option \<Rightarrow> u8 list option \<Rightarrow> nat \<Rightarrow> CryptoSha256 option"
where
  "Crypto_sha256Update ctx bytes len =
    (case (ctx, bytes) of
       (Some c, Some bs) \<Rightarrow>
         if len = 0 then ctx
         else
           let p = take len bs;
               bufIdx = unat (count256 c AND 0x3F);
               c1 = c\<lparr>count256 := count256 c + of_nat len\<rparr>
           in if 0 < bufIdx then
                let needed = 64 - bufIdx
                in if len < needed then
                     Some (c1\<lparr>buffer256 := memcpy (buffer256 c1) bufIdx p 0 len\<rparr>)
                   else
                     let c2 = c1\<lparr>buffer256 := memcpy (buffer256 c1) bufIdx p 0 needed\<rparr>;
                         c3 = Crypto_sha256Transform c2 (buffer256 c2)
                     in Some (sha256Rest c3 (drop needed p))
              else Some (sha256Rest c1 p)
     | _ \<Rightarrow> ctx)"

text \<open>The state after the padding: what \<open>Crypto_sha256Final\<close> leaves in the context.\<close>

definition sha256Close :: "CryptoSha256 \<Rightarrow> CryptoSha256" where
  "sha256Close c =
    (let bitCount = count256 c * 8;
         bufIdx = unat (count256 c AND 0x3F);
         c1 = c\<lparr>buffer256 := (buffer256 c)[bufIdx := 0x80]\<rparr>;
         bufIdx1 = bufIdx + 1;
         c2 = (if 56 < bufIdx1 then
                 let c3 = c1\<lparr>buffer256 := memset (buffer256 c1) bufIdx1 0 (64 - bufIdx1)\<rparr>;
                     c4 = Crypto_sha256Transform c3 (buffer256 c3)
                 in c4\<lparr>buffer256 := memset (buffer256 c4) 0 0 56\<rparr>
               else c1\<lparr>buffer256 := memset (buffer256 c1) bufIdx1 0 (56 - bufIdx1)\<rparr>);
         c5 = c2\<lparr>buffer256 := fold (\<lambda>i b. b[56 + (7 - i) := ucast (drop_bit (i * 8) bitCount AND 0xFF)])
                   (rev [0..<8]) (buffer256 c2)\<rparr>
     in Crypto_sha256Transform c5 (buffer256 c5))"

definition sha256Out :: "u32 list \<Rightarrow> u8 list \<Rightarrow> u8 list" where
  "sha256Out st out =
    fold (\<lambda>i d. d[i * 4 := ucast (drop_bit 24 (st ! i) AND 0xFF),
        i * 4 + 1 := ucast (drop_bit 16 (st ! i) AND 0xFF),
        i * 4 + 2 := ucast (drop_bit 8 (st ! i) AND 0xFF),
        i * 4 + 3 := ucast (st ! i AND 0xFF)]) [0..<8] out"

definition Crypto_sha256Final ::
  "CryptoSha256 option \<Rightarrow> u8 list option \<Rightarrow> CryptoSha256 option \<times> u8 list option"
where
  "Crypto_sha256Final ctx outDigest =
    (case (ctx, outDigest) of
       (Some c, Some out) \<Rightarrow> let c1 = sha256Close c in (Some c1, Some (sha256Out (state256 c1) out))
     | _ \<Rightarrow> (ctx, outDigest))"

text \<open>\<open>junk\<close> is what the uninitialised local context holds.\<close>

definition Crypto_sha256 ::
  "CryptoSha256 \<Rightarrow> u8 list option \<Rightarrow> nat \<Rightarrow> u8 list option \<Rightarrow> u8 list option"
where
  "Crypto_sha256 junk bytes len outDigest =
    (let ctx = Crypto_sha256Init (Some junk);
         ctx1 = Crypto_sha256Update ctx bytes len
     in snd (Crypto_sha256Final ctx1 outDigest))"

section \<open>The compression is the standard's\<close>

lemma length_sha256Compress [simp]: "length (sha256Compress st b) = 8"
  by (simp add: sha256Compress_def Let_def split: prod.splits)

lemma length_chain256 [simp]: "length st = 8 \<Longrightarrow> length (chain sha256Compress st p) = 8"
  by (induction sha256Compress st p rule: chain.induct) (subst chain.simps, simp)

lemma length_sha256Start [simp]: "length sha256Start = 8"
  by (simp add: sha256Start_def)

text \<open>The cube roots, with their integer parts.\<close>

definition cubeRoots :: "nat list" where
  "cubeRoots = [
    0x1428a2f98, 0x171374491, 0x1b5c0fbcf, 0x1e9b5dba5, 0x23956c25b, 0x259f111f1,
    0x2923f82a4, 0x2ab1c5ed5, 0x2d807aa98, 0x312835b01, 0x3243185be, 0x3550c7dc3,
    0x372be5d74, 0x380deb1fe, 0x39bdc06a7, 0x3c19bf174, 0x3e49b69c1, 0x3efbe4786,
    0x40fc19dc6, 0x4240ca1cc, 0x42de92c6f, 0x44a7484aa, 0x45cb0a9dc, 0x476f988da,
    0x4983e5152, 0x4a831c66d, 0x4b00327c8, 0x4bf597fc7, 0x4c6e00bf3, 0x4d5a79147,
    0x506ca6351, 0x514292967, 0x527b70a85, 0x52e1b2138, 0x54d2c6dfc, 0x553380d13,
    0x5650a7354, 0x5766a0abb, 0x581c2c92e, 0x592722c85, 0x5a2bfe8a1, 0x5a81a664b,
    0x5c24b8b70, 0x5c76c51a3, 0x5d192e819, 0x5d6990624, 0x5f40e3585, 0x6106aa070,
    0x619a4c116, 0x61e376c08, 0x62748774c, 0x634b0bcb5, 0x6391c0cb3, 0x64ed8aa4a,
    0x65b9cca4f, 0x6682e6ff3, 0x6748f82ee, 0x678a5636f, 0x684c87814, 0x68cc70208,
    0x690befffa, 0x6a4506ceb, 0x6bef9a3f7, 0x6c67178f2]"

lemma K256_roots: "K256 = map (fracRoot 3) firstPrimes"
proof -
  have "map (fracRoot 3) firstPrimes = map of_nat cubeRoots"
    by (rule fracRoot_map) (simp add: firstPrimes_def cubeRoots_def)
  also have "\<dots> = K256" by (simp add: K256_def cubeRoots_def)
  finally show ?thesis by simp
qed

lemma sha256Start_roots: "sha256Start = H256"
  by code_simp

lemma sha256_functions:
  "EP0 = SIGMA0" "EP1 = SIGMA1" "SIG0 = sigma0" "SIG1 = sigma1"
  by (simp_all add: fun_eq_iff Crypto_rotr_def rotr_shifts EP0_def EP1_def SIG0_def SIG1_def
      SIGMA0_def SIGMA1_def sigma0_def sigma1_def)

lemma sha256Schedule_words:
  assumes "length b = 64"
  shows "sha256Schedule b = map (W256 b) [0..<64]"
proof -
  have start: "map (\<lambda>i. push_bit 24 (ucast (b ! (i * 4))) OR push_bit 16 (ucast (b ! (i * 4 + 1))) OR
      push_bit 8 (ucast (b ! (i * 4 + 2))) OR ucast (b ! (i * 4 + 3))) [0..<16] = map (W256 b) [0..<16]"
    by (rule map_cong) (simp_all add: W256_start blockWord_bytes [OF assms])
  have step: "SIG1 (map (W256 b) [0..<i] ! (i - 2)) + map (W256 b) [0..<i] ! (i - 7) +
      SIG0 (map (W256 b) [0..<i] ! (i - 15)) + map (W256 b) [0..<i] ! (i - 16) = W256 b i" if "16 \<le> i" for i
    using that by (simp add: sha256_functions W256_next [OF that])
  show ?thesis
    unfolding sha256Schedule_def start
    by (rule schedule_words [of 64 "\<lambda>i m. SIG1 (m ! (i - 2)) + m ! (i - 7) + SIG0 (m ! (i - 15)) + m ! (i - 16)"])
      (use step in simp_all)
qed

lemma sha256Rounds:
  assumes "length b = 64" "n \<le> 64"
  shows "fold (sha256Round (sha256Schedule b)) [0..<n]
      (st ! 0, st ! 1, st ! 2, st ! 3, st ! 4, st ! 5, st ! 6, st ! 7) = rounds256 b st n"
  using assms(2)
proof (induction n)
  case (Suc n)
  then have "sha256Schedule b ! n = W256 b n" "K256 ! n = fracRoot 3 (firstPrimes ! n)"
    by (simp_all add: sha256Schedule_words [OF assms(1)] K256_roots)
  with Suc show ?case
    by (simp add: sha256Round_def sha256_functions CH_def MAJ_def Let_def split: prod.split)
qed simp

lemma sha256Compress_fips:
  assumes "length st = 8" "length b = 64"
  shows "sha256Compress st b = fips256 st b"
proof -
  obtain s0 s1 s2 s3 s4 s5 s6 s7 where "st = [s0, s1, s2, s3, s4, s5, s6, s7]"
    using eight_of [OF assms(1)] by metis
  then show ?thesis
    using sha256Rounds [OF assms(2), of 64 st]
    by (simp add: sha256Compress_def fips256_def Let_def add.commute split: prod.split)
qed

lemma sha256Digest_code: "sha256Digest m = concat (map be_write32 (chain sha256Compress sha256Start (mdPad m)))"
  unfolding sha256Digest_def sha256Start_roots [symmetric]
  by (subst chain_cong [of 8 fips256 sha256Compress]) (simp_all add: sha256Compress_fips)

section \<open>What a context holds\<close>

definition sha256Holds :: "CryptoSha256 \<Rightarrow> u8 list \<Rightarrow> bool" where
  "sha256Holds c m \<longleftrightarrow> length (buffer256 c) = 64 \<and> count256 c = of_nat (length m) \<and>
    state256 c = chain sha256Compress sha256Start m \<and>
    take (length m mod 64) (buffer256 c) = tailOf m"

lemma sha256Blocks_chain:
  "sha256Blocks c p = (c\<lparr>state256 := chain sha256Compress (state256 c) p\<rparr>, tailOf p)"
proof (induction c p rule: sha256Blocks.induct)
  case (1 c p)
  show ?case
  proof (cases "64 \<le> length p")
    case True
    then have "tailOf (drop 64 p) = tailOf p"
      using tailOf_full [of "take 64 p" "drop 64 p"] by simp
    with 1 True show ?thesis
      by (subst sha256Blocks.simps, subst chain.simps) (simp add: Crypto_sha256Transform_def)
  qed (simp add: sha256Blocks.simps)
qed

lemma sha256Rest_holds:
  assumes "length (buffer256 c) = 64"
  shows "state256 (sha256Rest c p) = chain sha256Compress (state256 c) p"
    "count256 (sha256Rest c p) = count256 c" "length (buffer256 (sha256Rest c p)) = 64"
    "take (length p mod 64) (buffer256 (sha256Rest c p)) = tailOf p"
  using assms mod_less_divisor [of 64 "length p"]
  by (auto simp: sha256Rest_def sha256Blocks_chain memcpy_def mem_write_def mem_read_def)

lemma bufIdx_of_nat: "unat ((of_nat n :: u64) AND 0x3F) = n mod 64"
proof -
  have "(0x3F :: u64) = mask 6" by (simp add: mask_numeral)
  then have "(of_nat n :: u64) AND 0x3F = take_bit 6 (of_nat n)" by (simp add: take_bit_eq_mask)
  also have "\<dots> = of_nat (take_bit 6 n)" by (simp add: take_bit_of_nat)
  finally show ?thesis by (simp add: take_bit_eq_mod unat_of_nat)
qed

lemma Crypto_sha256Update_holds:
  assumes "sha256Holds c m" "len \<le> length bs"
  shows "\<exists>c'. Crypto_sha256Update (Some c) (Some bs) len = Some c' \<and> sha256Holds c' (m @ take len bs)"
proof (cases "len = 0")
  case True
  then show ?thesis using assms(1) by (simp add: Crypto_sha256Update_def)
next
  case False
  let ?p = "take len bs" and ?n = "length m mod 64"
  let ?c1 = "c\<lparr>count256 := count256 c + of_nat len\<rparr>"
  have c: "length (buffer256 c) = 64" "count256 c = of_nat (length m)"
    "state256 c = chain sha256Compress sha256Start m" "take ?n (buffer256 c) = tailOf m"
    using assms(1) by (simp_all add: sha256Holds_def)
  have p: "length ?p = len" using assms(2) by simp
  have n: "unat (count256 c AND 0x3F) = ?n" unfolding c(2) by (rule bufIdx_of_nat)
  have chain: "chain sha256Compress sha256Start (m @ ?p) =
      chain sha256Compress (state256 c) (tailOf m @ ?p)"
    unfolding c(3) by (rule chain_tailOf)
  have tail: "tailOf (m @ ?p) = tailOf (tailOf m @ ?p)" by (rule tailOf_append)
  consider "?n = 0" | "0 < ?n" "len < 64 - ?n" | "0 < ?n" "64 - ?n \<le> len" by linarith
  then show ?thesis
  proof cases
    case 1
    then have "tailOf m = []" by (simp add: dvd_eq_mod_eq_0)
    moreover have "(length m + len) mod 64 = len mod 64" using 1 by (metis add_0 mod_add_left_eq)
    ultimately show ?thesis
      using False 1 c p n chain tail sha256Rest_holds [of ?c1 ?p]
      by (simp add: Crypto_sha256Update_def Let_def sha256Holds_def)
  next
    case 2
    then have "(length m + len) mod 64 = ?n + len" by (intro add_mod_short) simp
    moreover have "tailOf (tailOf m @ ?p) = tailOf m @ ?p"
      "chain sha256Compress (state256 c) (tailOf m @ ?p) = state256 c"
      using 2 p by simp_all
    ultimately show ?thesis
      using False 2 c p n chain tail
      by (simp add: Crypto_sha256Update_def Let_def sha256Holds_def memcpy_def mem_write_def mem_read_def)
  next
    case 3
    let ?k = "64 - ?n"
    have block: "memcpy (buffer256 c) ?n ?p 0 ?k = tailOf m @ take ?k ?p"
      using 3 c(1,4) p by (simp add: memcpy_def mem_write_def mem_read_def)
    let ?c3 = "Crypto_sha256Transform (?c1\<lparr>buffer256 := tailOf m @ take ?k ?p\<rparr>) (tailOf m @ take ?k ?p)"
    have split: "tailOf m @ ?p = (tailOf m @ take ?k ?p) @ drop ?k ?p"
      by (simp only: append_assoc append_take_drop_id)
    have len64: "length (tailOf m @ take ?k ?p) = 64" using 3 p by simp
    have "length (drop ?k ?p) mod 64 = (length m + len) mod 64"
      using 3 add_mod_over [of "length m" len] assms(2) by (simp add: min_absorb2)
    moreover have "chain sha256Compress sha256Start (m @ ?p) =
        chain sha256Compress (state256 ?c3) (drop ?k ?p)"
      unfolding chain split chain_block [OF len64] by (simp add: Crypto_sha256Transform_def)
    moreover have "tailOf (m @ ?p) = tailOf (drop ?k ?p)"
      unfolding tail split by (rule tailOf_full) (simp only: len64, simp)
    moreover have "Crypto_sha256Update (Some c) (Some bs) len = Some (sha256Rest ?c3 (drop ?k ?p))"
      using False 3 n block by (simp add: Crypto_sha256Update_def Let_def Crypto_sha256Transform_def)
    moreover have "length (buffer256 ?c3) = 64" "count256 ?c3 = of_nat (length (m @ ?p))"
      using len64 c(2) p by (simp_all add: Crypto_sha256Transform_def)
    ultimately show ?thesis
      using sha256Rest_holds [of ?c3 "drop ?k ?p"] p by (auto simp only: sha256Holds_def length_append)
  qed
qed

section \<open>Closing a context\<close>

lemma length_bytes_written:
  assumes "length b = 64"
  shows "fold (\<lambda>i b. b[56 + (7 - i) := ucast (drop_bit (i * 8) v AND 0xFF)]) (rev [0..<8]) b =
    take 56 b @ be_write64 v"
proof -
  obtain f b0 b1 b2 b3 b4 b5 b6 b7 where
    b: "f = take 56 b" "b = f @ [b0, b1, b2, b3, b4, b5, b6, b7]" "length f = 56"
    by (rule last_eight [OF assms])
  have rev: "rev [0..<8] = [7, 6, 5, 4, 3, 2, 1, 0 :: nat]" by code_simp
  have up: "[0..<8] = [0, 1, 2, 3, 4, 5, 6, 7 :: nat]" by code_simp
  have "fold (\<lambda>i b. b[56 + (7 - i) := ucast (drop_bit (i * 8) v AND 0xFF)]) (rev [0..<8]) b =
    b[56 := ucast (drop_bit 56 v), 57 := ucast (drop_bit 48 v), 58 := ucast (drop_bit 40 v),
      59 := ucast (drop_bit 32 v), 60 := ucast (drop_bit 24 v), 61 := ucast (drop_bit 16 v),
      62 := ucast (drop_bit 8 v), 63 := ucast v]"
    unfolding rev ucast_and_255 by simp
  also have "\<dots> = f @ be_write64 v"
    unfolding b(2) updates_after [OF b(3)] be_write64_def up by simp
  finally show ?thesis unfolding b(1) .
qed

lemma sha256Out_words:
  assumes "length st = 8" "32 \<le> length out"
  shows "sha256Out st out = concat (map be_write32 st) @ drop 32 out"
  using words_written [of 8 st out] assms by (simp add: sha256Out_def ucast_and_255)

lemma cleared_block:
  assumes "length b = 64"
  shows "take 56 (memset b 0 0 56) = replicate 56 0" "length (memset b 0 0 56) = 64"
  using assms by (simp_all add: memset_def mem_write_def)

lemma sha256Close_state:
  assumes "sha256Holds c m"
  shows "state256 (sha256Close c) = chain sha256Compress sha256Start (mdPad m)"
proof -
  let ?n = "length m mod 64" and ?f = sha256Compress
  let ?bits = "be_write64 (of_nat (length m) * 8)"
  have c: "length (buffer256 c) = 64" "count256 c = of_nat (length m)"
    "state256 c = chain ?f sha256Start m" "take ?n (buffer256 c) = tailOf m"
    using assms by (simp_all add: sha256Holds_def)
  have n: "unat (count256 c AND 0x3F) = ?n" "?n < 64"
    unfolding c(2) by (simp_all add: bufIdx_of_nat)
  let ?b1 = "(buffer256 c)[?n := 0x80]"
  have b1: "take (Suc ?n) ?b1 = tailOf m @ [0x80]" "length ?b1 = 64"
    using c(1,4) n(2) by (simp_all add: take_Suc_conv_app_nth)
  have pad: "chain ?f sha256Start (mdPad m) = chain ?f (state256 c)
      (tailOf m @ [0x80] @ replicate ((119 - ?n) mod 64) 0 @ ?bits)"
    unfolding mdPad_def c(3) by (rule chain_tailOf)
  show ?thesis
  proof (cases "56 < ?n + 1")
    case False
    let ?b2 = "memset ?b1 (?n + 1) 0 (56 - (?n + 1))"
    have zeros: "(119 - ?n) mod 64 = 55 - ?n" using False by (intro pad_zeros) simp
    have b2: "length ?b2 = 64" "take 56 ?b2 = tailOf m @ [0x80] @ replicate (55 - ?n) 0"
      using False b1 Suc_diff_le [of ?n 55] by (simp_all add: memset_def mem_write_def)
    have "chain ?f sha256Start (mdPad m) = ?f (state256 c) (take 56 ?b2 @ ?bits)"
      unfolding pad zeros b2(2) using False chain_block
        [of "tailOf m @ [0x80] @ replicate (55 - ?n) 0 @ ?bits" ?f "state256 c" "[]"] by simp
    then show ?thesis
      using False n b2(1) length_bytes_written [OF b2(1)]
      by (simp add: sha256Close_def Let_def c(2) Crypto_sha256Transform_def)
  next
    case True
    let ?b2 = "memset ?b1 (?n + 1) 0 (64 - (?n + 1))"
    let ?b3 = "memset ?b2 0 0 56"
    have zeros: "(119 - ?n) mod 64 = (63 - ?n) + 56" using True n(2) by (intro pad_zeros) simp_all
    have b2: "?b2 = tailOf m @ [0x80] @ replicate (63 - ?n) 0" "length ?b2 = 64"
      using True b1 n(2) by (simp_all add: memset_def mem_write_def)
    have b3: "take 56 ?b3 = replicate 56 0" "length ?b3 = 64"
      by (rule cleared_block [OF b2(2)])+
    have len2: "length (take 56 ?b3 @ ?bits) = 64" unfolding b3(1) by simp
    have "chain ?f sha256Start (mdPad m) =
        chain ?f (state256 c) (?b2 @ ((take 56 ?b3 @ ?bits) @ []))"
      unfolding pad zeros b3(1) unfolding b2(1) replicate_add by simp
    also have "\<dots> = ?f (?f (state256 c) ?b2) (take 56 ?b3 @ ?bits)"
      unfolding chain_block [OF b2(2)] chain_block [OF len2] by simp
    finally show ?thesis
      using True n b3(2) length_bytes_written [OF b3(2)]
      by (simp add: sha256Close_def Let_def c(2) Crypto_sha256Transform_def)
  qed
qed

lemma sha256Close_buffer:
  assumes "length (buffer256 c) = 64"
  shows "length (buffer256 (sha256Close c)) = 64"
proof -
  have n: "unat (count256 c AND 0x3F) < 64"
  proof -
    have "count256 c = of_nat (unat (count256 c))" by simp
    then show ?thesis by (metis bufIdx_of_nat mod_less_divisor zero_less_numeral)
  qed
  have fold: "length (fold (\<lambda>i b. b[56 + (7 - i) := f i]) is b) = length b" for f :: "nat \<Rightarrow> u8" and "is" b
    by (induction "is" arbitrary: b) simp_all
  show ?thesis
    using assms n by (simp add: sha256Close_def Let_def Crypto_sha256Transform_def fold)
qed

section \<open>The contract\<close>

definition sha256Usable :: "CryptoSha256 option \<Rightarrow> bool" where
  "sha256Usable ctx \<longleftrightarrow> (\<exists>c. ctx = Some c \<and> length (buffer256 c) = 64)"

definition sha256Ctx :: "CryptoSha256 option \<Rightarrow> u8 list \<Rightarrow> bool" where
  "sha256Ctx ctx m \<longleftrightarrow> (\<exists>c. ctx = Some c \<and> sha256Holds c m)"

interpretation sha256: streaming_hash Crypto_sha256Init Crypto_sha256Update Crypto_sha256Final
  sha256Usable sha256Ctx sha256Digest 32
proof
  fix c m d n and out :: "u8 list"
  show "sha256Ctx (Crypto_sha256Init c) []" if "sha256Usable c"
    using that by (auto simp: sha256Usable_def sha256Ctx_def sha256Holds_def Crypto_sha256Init_def)
  show "sha256Ctx (Crypto_sha256Update c d n) (m @ given d n)" if "sha256Ctx c m" "readable d n"
  proof (cases d)
    case None
    then show ?thesis using that by (auto simp: Crypto_sha256Update_def sha256Ctx_def)
  next
    case (Some bs)
    then show ?thesis
      using that Crypto_sha256Update_holds [of _ m n bs] by (auto simp: sha256Ctx_def)
  qed
  show "snd (Crypto_sha256Final c (Some out)) = Some (sha256Digest m @ drop 32 out)"
    if "sha256Ctx c m" "32 \<le> length out"
    using that by (auto simp: sha256Ctx_def Crypto_sha256Final_def sha256Close_state sha256Digest_code
        sha256Out_words)
  show "sha256Usable (fst (Crypto_sha256Final c (Some out)))" if "sha256Ctx c m" "32 \<le> length out"
    using that sha256Close_buffer
    by (auto simp: sha256Ctx_def sha256Usable_def sha256Holds_def Crypto_sha256Final_def Let_def)
qed

text \<open>
C26: a SHA-256 context, whatever its buffer and counters held before, that is fed any number of
pieces (null pieces of no bytes included) closes with the digest of their
concatenation that FIPS 180-4 defines (Fips180: constants from roots of primes, library rotations, the
standard's schedule), and the rest of a longer output buffer is not written.
\<close>

theorem Crypto_sha256_streaming:
  assumes "length (buffer256 c) = 64" "list_all (\<lambda>(d, n). readable d n) ps" "32 \<le> length out"
  shows "snd (Crypto_sha256Final
      (fold (\<lambda>(d, n) ctx. Crypto_sha256Update ctx d n) ps (Crypto_sha256Init (Some c))) (Some out)) =
    Some (sha256Digest (concat (map (\<lambda>(d, n). given d n) ps)) @ drop 32 out)"
  by (rule sha256.pieces [OF _ assms(2,3)]) (simp add: sha256Usable_def assms(1))

theorem Crypto_sha256_streaming_witness:
  "snd (Crypto_sha256Final (Crypto_sha256Update (Crypto_sha256Update (Crypto_sha256Init
      (Some \<lparr>state256 = [], count256 = 5, buffer256 = replicate 64 9\<rparr>)) (Some [97, 98]) 2) (Some [99]) 1)
      (Some (replicate 33 7))) = Some (sha256Digest [97, 98, 99] @ [7])"
  using Crypto_sha256_streaming [of "\<lparr>state256 = [], count256 = 5, buffer256 = replicate 64 9\<rparr>"
      "[(Some [97, 98], 2), (Some [99], 1)]" "replicate 33 7"]
  by simp

lemma Crypto_sha256_digest:
  "length (buffer256 junk) = 64 \<Longrightarrow> readable bytes len \<Longrightarrow> 32 \<le> length out \<Longrightarrow>
   Crypto_sha256 junk bytes len (Some out) = Some (sha256Digest (given bytes len) @ drop 32 out)"
  unfolding Crypto_sha256_def Let_def by (rule sha256.one_piece) (simp_all add: sha256Usable_def)

end
