(* ===== verification/Sha1.thy ===== *)
theory Sha1
  imports Fips180 "HOL-Library.Monad_Syntax"
begin

text \<open>
  \<open>src/security/sha1.c\<close>: the compression function, the streaming context and the one-shot digest.
  The two loops over the block end only because the fill level stays below 64, so they are partial
  functions: \<open>None\<close> is a run that does not return.  Inside a result, the context is an option for
  the pointer that may be null.
\<close>

section \<open>Compression\<close>

definition rotr1 :: "u32 \<Rightarrow> nat \<Rightarrow> u32" where
  "rotr1 v bits = drop_bit bits v OR push_bit (32 - bits) v"

record CryptoSha1 =
  state1 :: "u32 list"
  total1 :: u64
  block1 :: "u8 list"
  used1 :: nat

definition sha1Schedule :: "u8 list \<Rightarrow> u32 list" where
  "sha1Schedule bs =
    fold (\<lambda>i w. w @ [rotr1 (w ! (i - 3) XOR w ! (i - 8) XOR w ! (i - 14) XOR w ! (i - 16)) 31]) [16..<80]
      (map (\<lambda>i. push_bit 24 (ucast (bs ! (i * 4))) OR push_bit 16 (ucast (bs ! (i * 4 + 1))) OR
        push_bit 8 (ucast (bs ! (i * 4 + 2))) OR ucast (bs ! (i * 4 + 3))) [0..<16])"

type_synonym vars1 = "u32 \<times> u32 \<times> u32 \<times> u32 \<times> u32"

definition sha1Round :: "u32 list \<Rightarrow> nat \<Rightarrow> vars1 \<Rightarrow> vars1" where
  "sha1Round w i = (\<lambda>(a, b, c, d, e).
    let (f, k) =
      (if i < 20 then ((b AND c) OR (NOT b AND d), 0x5A827999)
       else if i < 40 then (b XOR c XOR d, 0x6ED9EBA1)
       else if i < 60 then ((b AND c) OR (b AND d) OR (c AND d), 0x8F1BBCDC)
       else (b XOR c XOR d, 0xCA62C1D6));
      temp = rotr1 a 27 + f + e + k + w ! i
    in (temp, a, rotr1 b 2, c, d))"

definition sha1State :: "u32 list \<Rightarrow> u8 list \<Rightarrow> u32 list" where
  "sha1State st bs =
    (let w = sha1Schedule bs;
         (a, b, c, d, e) = fold (sha1Round w) [0..<80] (st ! 0, st ! 1, st ! 2, st ! 3, st ! 4)
     in [st ! 0 + a, st ! 1 + b, st ! 2 + c, st ! 3 + d, st ! 4 + e])"

definition sha1Compress :: "CryptoSha1 \<Rightarrow> u8 list \<Rightarrow> CryptoSha1" where
  "sha1Compress ctx bs = ctx\<lparr>state1 := sha1State (state1 ctx) bs\<rparr>"

section \<open>The streaming context\<close>

definition sha1Start :: "u32 list" where
  "sha1Start = [0x67452301, 0xEFCDAB89, 0x98BADCFE, 0x10325476, 0xC3D2E1F0]"

definition Crypto_sha1Init :: "CryptoSha1 option \<Rightarrow> CryptoSha1 option" where
  "Crypto_sha1Init ctx =
    (case ctx of None \<Rightarrow> None | Some c \<Rightarrow> Some (c\<lparr>state1 := sha1Start, total1 := 0, used1 := 0\<rparr>))"

text \<open>One round of the loop of \<open>Crypto_sha1Update\<close>: \<open>n\<close> bytes go into the block, a full block is
  compressed.\<close>

definition sha1Fill :: "CryptoSha1 \<Rightarrow> u8 list \<Rightarrow> nat \<Rightarrow> CryptoSha1" where
  "sha1Fill c bs n =
    (let c1 = c\<lparr>block1 := fold (\<lambda>i b. b[used1 c + i := bs ! i]) [0..<n] (block1 c), used1 := used1 c + n\<rparr>
     in if used1 c1 = 64 then (sha1Compress c1 (block1 c1))\<lparr>used1 := 0\<rparr> else c1)"

partial_function (option) sha1Feed :: "CryptoSha1 \<Rightarrow> u8 list \<Rightarrow> CryptoSha1 option" where
  "sha1Feed c bs =
    (if 0 < length bs then
       let room = 64 - used1 c;
           n = (if length bs < room then length bs else room)
       in sha1Feed (sha1Fill c bs n) (drop n bs)
     else Some c)"

declare sha1Feed.simps [code]

definition Crypto_sha1Update ::
  "CryptoSha1 option \<Rightarrow> u8 list option \<Rightarrow> nat \<Rightarrow> CryptoSha1 option option"
where
  "Crypto_sha1Update ctx bytes len =
    (if ctx = None \<or> bytes = None \<and> len \<noteq> 0 then Some ctx
     else map_option Some
       (sha1Feed ((the ctx)\<lparr>total1 := total1 (the ctx) + of_nat len\<rparr>) (given bytes len)))"

partial_function (option) sha1Zeros :: "CryptoSha1 option \<Rightarrow> CryptoSha1 option option" where
  "sha1Zeros ctx =
    (if used1 (the ctx) \<noteq> 64 - 8 then do { ctx1 \<leftarrow> Crypto_sha1Update ctx (Some [0]) 1; sha1Zeros ctx1 }
     else Some ctx)"

declare sha1Zeros.simps [code]

definition sha1Out :: "u32 list \<Rightarrow> u8 list \<Rightarrow> u8 list" where
  "sha1Out st out =
    fold (\<lambda>i d. d[i * 4 := ucast (drop_bit 24 (st ! i)), i * 4 + 1 := ucast (drop_bit 16 (st ! i)),
        i * 4 + 2 := ucast (drop_bit 8 (st ! i)), i * 4 + 3 := ucast (st ! i)]) [0..<5] out"

definition sha1Wipe :: "CryptoSha1 \<Rightarrow> CryptoSha1" where
  "sha1Wipe c = c\<lparr>state1 := fold (\<lambda>i s. s[i := 0]) [0..<5] (state1 c),
    block1 := fold (\<lambda>i b. b[i := 0]) [0..<64] (block1 c)\<rparr>"

definition Crypto_sha1Final ::
  "CryptoSha1 option \<Rightarrow> u8 list option \<Rightarrow> (CryptoSha1 option \<times> u8 list option) option"
where
  "Crypto_sha1Final ctx outDigest =
    (if ctx = None \<or> outDigest = None then Some (ctx, outDigest)
     else do {
       let bits = total1 (the ctx) * 8;
       ctx1 \<leftarrow> Crypto_sha1Update ctx (Some [0x80]) 1;
       ctx2 \<leftarrow> sha1Zeros ctx1;
       ctx3 \<leftarrow> Crypto_sha1Update ctx2 (Some (map (\<lambda>i. ucast (drop_bit (56 - i * 8) bits)) [0..<8])) 8;
       Some (map_option sha1Wipe ctx3, Some (sha1Out (state1 (the ctx3)) (the outDigest)))
     })"

text \<open>\<open>junk\<close> is what the uninitialised local context holds.\<close>

definition Crypto_sha1 ::
  "CryptoSha1 \<Rightarrow> u8 list option \<Rightarrow> nat \<Rightarrow> u8 list option \<Rightarrow> u8 list option option"
where
  "Crypto_sha1 junk bytes len outDigest =
    do {
      ctx \<leftarrow> Crypto_sha1Update (Crypto_sha1Init (Some junk)) bytes len;
      map_option snd (Crypto_sha1Final ctx outDigest)
    }"

section \<open>The compression is the standard's\<close>

lemma length_sha1State [simp]: "length (sha1State st b) = 5"
  by (simp add: sha1State_def Let_def split: prod.splits)

lemma length_chain1 [simp]: "length st = 5 \<Longrightarrow> length (chain sha1State st p) = 5"
  by (induction sha1State st p rule: chain.induct) (subst chain.simps, simp)

lemma length_sha1Start [simp]: "length sha1Start = 5"
  by (simp add: sha1Start_def)

lemma sha1Start_H1: "sha1Start = H1"
  by (simp add: sha1Start_def H1_def rcat_four)

lemma rotr1_rotl: "0 < n \<Longrightarrow> n < 32 \<Longrightarrow> rotr1 x (32 - n) = word_rotl n x"
  by (simp add: rotr1_def rotr_shifts word_rotl_eq_word_rotr)

lemmas rotr1_rotls = rotr1_rotl [of 1, simplified] rotr1_rotl [of 5, simplified] rotr1_rotl [of 30, simplified]

lemma sha1_choice: "(x AND y) OR (NOT x AND z) = (x AND y) XOR (NOT x AND z :: u32)"
  "(x AND y) OR (x AND z) OR (y AND z) = (x AND y) XOR (x AND z) XOR (y AND z :: u32)"
  by (auto intro!: bit_word_eqI simp: bit_simps)

lemma K1_roots:
  assumes "t < 80"
  shows "K1 t = (if t < 20 then 0x5A827999 else if t < 40 then 0x6ED9EBA1 else if t < 60 then 0x8F1BBCDC
    else 0xCA62C1D6)"
proof -
  have roots: "rootBits 2 (2 * 2 ^ 60) 32 0 = 0x5A827999" "rootBits 2 (3 * 2 ^ 60) 32 0 = 0x6ED9EBA1"
    "rootBits 2 (5 * 2 ^ 60) 32 0 = 0x8F1BBCDC" "rootBits 2 (10 * 2 ^ 60) 32 0 = 0xCA62C1D6"
    by (rule rootBits_eq; simp)+
  consider "t < 20" | "20 \<le> t" "t < 40" | "40 \<le> t" "t < 60" | "60 \<le> t" by linarith
  then show ?thesis
  proof cases
    case 1
    then show ?thesis using roots(1) by (simp add: K1_def)
  next
    case 2
    then have "t div 20 = 1" by (intro div_nat_eqI) simp_all
    then show ?thesis using 2 roots(2) by (simp add: K1_def)
  next
    case 3
    then have "t div 20 = 2" by (intro div_nat_eqI) simp_all
    then show ?thesis using 3 roots(3) by (simp add: K1_def)
  next
    case 4
    then have "t div 20 = 3" using assms by (intro div_nat_eqI) simp_all
    then show ?thesis using 4 roots(4) by (simp add: K1_def)
  qed
qed

lemma sha1Schedule_words:
  assumes "length b = 64"
  shows "sha1Schedule b = map (W1 b) [0..<80]"
proof -
  have start: "map (\<lambda>i. push_bit 24 (ucast (b ! (i * 4))) OR push_bit 16 (ucast (b ! (i * 4 + 1))) OR
      push_bit 8 (ucast (b ! (i * 4 + 2))) OR ucast (b ! (i * 4 + 3))) [0..<16] = map (W1 b) [0..<16]"
    by (rule map_cong) (simp_all add: W1_start blockWord_bytes [OF assms])
  have step: "rotr1 (map (W1 b) [0..<i] ! (i - 3) XOR map (W1 b) [0..<i] ! (i - 8) XOR
      map (W1 b) [0..<i] ! (i - 14) XOR map (W1 b) [0..<i] ! (i - 16)) 31 = W1 b i" if "16 \<le> i" for i
    using that by (simp add: rotr1_rotls W1_next [OF that])
  show ?thesis
    unfolding sha1Schedule_def start
    by (rule schedule_words [of 80 "\<lambda>i w. rotr1 (w ! (i - 3) XOR w ! (i - 8) XOR w ! (i - 14) XOR w ! (i - 16)) 31"])
      (use step in simp_all)
qed

lemma sha1Rounds:
  assumes "length b = 64" "n \<le> 80"
  shows "fold (sha1Round (sha1Schedule b)) [0..<n] (st ! 0, st ! 1, st ! 2, st ! 3, st ! 4) = rounds1 b st n"
  using assms(2)
proof (induction n)
  case (Suc n)
  then have "sha1Schedule b ! n = W1 b n" by (simp add: sha1Schedule_words [OF assms(1)])
  with Suc K1_roots [of n] show ?case
    by (auto simp: sha1Round_def F1_def sha1_choice rotr1_rotls Let_def split: prod.split)
qed simp

lemma sha1State_fips:
  assumes "length st = 5" "length b = 64"
  shows "sha1State st b = fips1 st b"
proof -
  obtain s0 s1 s2 s3 s4 where "st = [s0, s1, s2, s3, s4]"
    using assms(1) by (auto simp: numeral_eq_Suc length_Suc_conv)
  then show ?thesis
    using sha1Rounds [OF assms(2), of 80 st]
    by (simp add: sha1State_def fips1_def Let_def add.commute split: prod.split)
qed

lemma sha1Digest_code: "sha1Digest m = concat (map be_write32 (chain sha1State sha1Start (mdPad m)))"
  unfolding sha1Digest_def sha1Start_H1 [symmetric]
  by (subst chain_cong [of 5 fips1 sha1State]) (simp_all add: sha1State_fips)

section \<open>What a context holds\<close>

definition sha1Placed :: "CryptoSha1 \<Rightarrow> u8 list \<Rightarrow> bool" where
  "sha1Placed c m \<longleftrightarrow> length (block1 c) = 64 \<and> used1 c = length m mod 64 \<and>
    state1 c = chain sha1State sha1Start m \<and> take (length m mod 64) (block1 c) = tailOf m"

lemma length_fold_update [simp]: "length (fold (\<lambda>i b. b[f i := v i]) is b) = length b"
  by (induction "is" arbitrary: b) simp_all

lemma fold_update_copy:
  assumes "u + n \<le> length b" "n \<le> length bs"
  shows "fold (\<lambda>i b. b[u + i := bs ! i]) [0..<n] b = take u b @ take n bs @ drop (u + n) b"
  using assms
proof (induction n)
  case (Suc n)
  have "drop (u + n) b = b ! (u + n) # drop (u + Suc n) b"
    using Suc.prems by (simp add: Cons_nth_drop_Suc)
  with Suc show ?case by (simp add: list_update_append take_Suc_conv_app_nth)
qed simp

lemma sha1Fill_placed:
  assumes "sha1Placed c m" "n \<le> length bs" "n \<le> 64 - used1 c"
  shows "sha1Placed (sha1Fill c bs n) (m @ take n bs)" "total1 (sha1Fill c bs n) = total1 c"
proof -
  let ?u = "length m mod 64"
  have c: "length (block1 c) = 64" "used1 c = ?u" "state1 c = chain sha1State sha1Start m"
    "take ?u (block1 c) = tailOf m"
    using assms(1) by (simp_all add: sha1Placed_def)
  have fit: "?u + n \<le> 64" using assms(3) c(2) mod_less_divisor [of 64 "length m"] by linarith
  have block: "fold (\<lambda>i b. b[?u + i := bs ! i]) [0..<n] (block1 c) =
      (tailOf m @ take n bs) @ drop (?u + n) (block1 c)"
    using fold_update_copy [of ?u n "block1 c" bs] assms(2) fit c(1,4) by simp
  have chain: "chain sha1State sha1Start (m @ take n bs) = chain sha1State (state1 c) (tailOf m @ take n bs)"
    unfolding c(3) by (rule chain_tailOf)
  have tail: "tailOf (m @ take n bs) = tailOf (tailOf m @ take n bs)" by (rule tailOf_append)
  show "sha1Placed (sha1Fill c bs n) (m @ take n bs)"
  proof (cases "?u + n = 64")
    case False
    then have "?u + n < 64" using fit by simp
    moreover from this have "(length m + n) mod 64 = ?u + n" by (rule add_mod_short)
    ultimately show ?thesis
      using False assms(2) c(1,2,3) unfolding sha1Placed_def chain tail sha1Fill_def Let_def c(2) block
      by simp
  next
    case True
    then have full: "length (tailOf m @ take n bs) = 64" using assms(2) by simp
    have "chain sha1State (state1 c) (tailOf m @ take n bs) = sha1State (state1 c) (tailOf m @ take n bs)"
      using chain_block [OF full, of sha1State "state1 c" "[]"] by simp
    moreover have "tailOf (tailOf m @ take n bs) = []" by (rule tailOf_dvd) (simp only: full, simp)
    moreover have "(length m + n) mod 64 = 0" using True by (metis mod_add_left_eq mod_self)
    ultimately show ?thesis
      using True assms(2) c(1,2,3) full unfolding sha1Placed_def chain tail sha1Fill_def Let_def c(2) block
      by (simp add: sha1Compress_def)
  qed
  show "total1 (sha1Fill c bs n) = total1 c"
    by (simp add: sha1Fill_def sha1Compress_def Let_def)
qed

text \<open>The loop returns: a context in place always has room for a byte.\<close>

lemma sha1Feed_placed:
  "sha1Placed c m \<Longrightarrow> \<exists>c'. sha1Feed c bs = Some c' \<and> sha1Placed c' (m @ bs) \<and> total1 c' = total1 c"
proof (induction "length bs" arbitrary: c m bs rule: less_induct)
  case less
  show ?case
  proof (cases "bs = []")
    case True
    then show ?thesis using less.prems by (subst sha1Feed.simps) simp
  next
    case False
    define n where "n = (if length bs < 64 - used1 c then length bs else 64 - used1 c)"
    have "used1 c < 64" using less.prems by (simp add: sha1Placed_def)
    then have n: "0 < n" "n \<le> length bs" "n \<le> 64 - used1 c" using False by (auto simp: n_def)
    note fill = sha1Fill_placed [OF less.prems n(2,3)]
    have "sha1Feed c bs = sha1Feed (sha1Fill c bs n) (drop n bs)"
      using False by (subst sha1Feed.simps) (simp add: n_def Let_def)
    with less.hyps [OF _ fill(1), of "drop n bs"] n fill(2) show ?thesis by simp
  qed
qed

definition sha1Holds :: "CryptoSha1 \<Rightarrow> u8 list \<Rightarrow> bool" where
  "sha1Holds c m \<longleftrightarrow> sha1Placed c m \<and> total1 c = of_nat (length m)"

lemma Crypto_sha1Update_holds:
  assumes "sha1Holds c m" "readable bytes len"
  shows "\<exists>c'. Crypto_sha1Update (Some c) bytes len = Some (Some c') \<and> sha1Holds c' (m @ given bytes len)"
proof -
  let ?c = "c\<lparr>total1 := total1 c + of_nat len\<rparr>"
  have "length (given bytes len) = len" using assms(2) by (cases bytes) simp_all
  moreover have "sha1Placed ?c m" using assms(1) by (simp add: sha1Holds_def sha1Placed_def)
  ultimately show ?thesis
    using sha1Feed_placed [of ?c m "given bytes len"] assms
    by (cases bytes) (auto simp: Crypto_sha1Update_def sha1Holds_def simp del: given_simps(1))
qed

section \<open>Closing a context\<close>

lemma sha1Zeros_holds:
  "sha1Holds c m \<Longrightarrow> k = (120 - length m mod 64) mod 64 \<Longrightarrow>
   \<exists>c'. sha1Zeros (Some c) = Some (Some c') \<and> sha1Holds c' (m @ replicate k 0)"
proof (induction k arbitrary: c m)
  case 0
  have "length m mod 64 = 56" using 0(2) by (intro zeros_step(2)) simp
  then show ?case using 0(1) by (subst sha1Zeros.simps) (simp add: sha1Holds_def sha1Placed_def)
next
  case (Suc k)
  obtain c' where c': "Crypto_sha1Update (Some c) (Some [0]) 1 = Some (Some c')" "sha1Holds c' (m @ [0])"
    using Crypto_sha1Update_holds [OF Suc.prems(1), of "Some [0]" 1] by auto
  have "length m mod 64 \<noteq> 56" using Suc.prems(2) by auto
  moreover have "k = (120 - length (m @ [0]) mod 64) mod 64"
    using zeros_step(1) [of "length m" k] Suc.prems(2) by simp
  ultimately show ?case
    using Suc.IH [OF c'(2)] Suc.prems(1) c'(1)
    by (subst sha1Zeros.simps) (auto simp: sha1Holds_def sha1Placed_def)
qed

lemma sha1Out_words:
  "length st = 5 \<Longrightarrow> 20 \<le> length out \<Longrightarrow> sha1Out st out = concat (map be_write32 st) @ drop 20 out"
  using words_written [of 5 st out] by (simp add: sha1Out_def)

lemma fold_clear: "n \<le> length xs \<Longrightarrow> fold (\<lambda>i s. s[i := 0]) [0..<n] xs = replicate n 0 @ drop n xs"
proof (induction n)
  case (Suc n)
  have "drop n xs = xs ! n # drop (Suc n) xs" using Suc.prems by (simp add: Cons_nth_drop_Suc)
  with Suc show ?case by (simp add: list_update_append replicate_append_same)
qed simp

lemma Crypto_sha1Final_digest:
  assumes "sha1Holds c m" "20 \<le> length out"
  shows "\<exists>c'. Crypto_sha1Final (Some c) (Some out) = Some (Some c', Some (sha1Digest m @ drop 20 out)) \<and>
    length (block1 c') = 64 \<and> state1 c' = replicate 5 0 \<and> block1 c' = replicate 64 0 \<and>
    used1 c' = 0 \<and> total1 c' = of_nat (length (mdPad m))"
proof -
  let ?pad = "m @ [0x80]" and ?k = "(119 - length m mod 64) mod 64"
  let ?len = "map (\<lambda>i. ucast (drop_bit (56 - i * 8) (total1 c * 8))) [0..<8]"
  obtain c1 where c1: "Crypto_sha1Update (Some c) (Some [0x80]) 1 = Some (Some c1)" "sha1Holds c1 ?pad"
    using Crypto_sha1Update_holds [OF assms(1), of "Some [0x80]" 1] by auto
  have "?k = (120 - length ?pad mod 64) mod 64"
    using zeros_step(3) [of "length m"] by simp
  from sha1Zeros_holds [OF c1(2) this] obtain c2 where
    c2: "sha1Zeros (Some c1) = Some (Some c2)" "sha1Holds c2 (?pad @ replicate ?k 0)"
    by auto
  obtain c3 where c3: "Crypto_sha1Update (Some c2) (Some ?len) 8 = Some (Some c3)"
      "sha1Holds c3 ((?pad @ replicate ?k 0) @ ?len)"
    using Crypto_sha1Update_holds [OF c2(2), of "Some ?len" 8] by auto
  have "(?pad @ replicate ?k 0) @ ?len = mdPad m"
    using assms(1) by (simp add: mdPad_def be_write64_def sha1Holds_def)
  then have "state1 c3 = chain sha1State sha1Start (mdPad m)" "length (block1 c3) = 64"
      "length (state1 c3) = 5" "used1 c3 = length (mdPad m) mod 64" "total1 c3 = of_nat (length (mdPad m))"
    using c3(2) by (simp_all add: sha1Holds_def sha1Placed_def)
  moreover have "length (mdPad m) mod 64 = 0" by (rule length_mdPad)
  ultimately show ?thesis
    using c1(1) c2(1) c3(1) assms(2)
    by (simp add: Crypto_sha1Final_def sha1Out_words sha1Digest_code sha1Wipe_def Let_def fold_clear)
qed

section \<open>The contract\<close>

text \<open>The contract speaks of the results of the calls: a call on a run that did not return does not
  return.\<close>

definition sha1Usable :: "CryptoSha1 option option \<Rightarrow> bool" where
  "sha1Usable r \<longleftrightarrow> (\<exists>c. r = Some (Some c) \<and> length (block1 c) = 64)"

definition sha1Ctx :: "CryptoSha1 option option \<Rightarrow> u8 list \<Rightarrow> bool" where
  "sha1Ctx r m \<longleftrightarrow> (\<exists>c. r = Some (Some c) \<and> sha1Holds c m)"

definition sha1Finish ::
  "CryptoSha1 option option \<Rightarrow> u8 list option \<Rightarrow> CryptoSha1 option option \<times> u8 list option"
where
  "sha1Finish r out =
    (case Option.bind r (\<lambda>ctx. Crypto_sha1Final ctx out) of
       None \<Rightarrow> (None, None) | Some (ctx, dst) \<Rightarrow> (Some ctx, dst))"

interpretation sha1: streaming_hash "map_option Crypto_sha1Init"
  "\<lambda>r d n. Option.bind r (\<lambda>ctx. Crypto_sha1Update ctx d n)" sha1Finish sha1Usable sha1Ctx sha1Digest 20
proof
  fix r m d n and out :: "u8 list"
  show "sha1Ctx (map_option Crypto_sha1Init r) []" if "sha1Usable r"
    using that by (auto simp: sha1Usable_def sha1Ctx_def sha1Holds_def sha1Placed_def Crypto_sha1Init_def)
  show "sha1Ctx (Option.bind r (\<lambda>ctx. Crypto_sha1Update ctx d n)) (m @ given d n)"
    if "sha1Ctx r m" "readable d n"
    using that Crypto_sha1Update_holds [of _ m d n] by (auto simp: sha1Ctx_def)
  have final: "\<exists>c'. sha1Finish r (Some out) = (Some (Some c'), Some (sha1Digest m @ drop 20 out)) \<and>
      length (block1 c') = 64" if "sha1Ctx r m" "20 \<le> length out"
    using that Crypto_sha1Final_digest [of _ m out] by (fastforce simp: sha1Ctx_def sha1Finish_def)
  show "snd (sha1Finish r (Some out)) = Some (sha1Digest m @ drop 20 out)"
    if "sha1Ctx r m" "20 \<le> length out"
    using final [OF that] by auto
  show "sha1Usable (fst (sha1Finish r (Some out)))" if "sha1Ctx r m" "20 \<le> length out"
    using final [OF that] by (auto simp: sha1Usable_def)
qed

text \<open>
C27: a SHA-1 context, whatever its block and counters held before, that is fed any number of
pieces returns from every call and closes with the digest of their concatenation that FIPS 180-4 defines (Fips180);
the rest of a longer output buffer is not written.  The context it leaves has its state and its block cleared,
while its byte count is still that of the padded message.
\<close>

theorem Crypto_sha1_streaming:
  assumes "length (block1 c) = 64" "list_all (\<lambda>(d, n). readable d n) ps" "20 \<le> length out"
  shows "\<exists>c'. Option.bind
      (fold (\<lambda>(d, n) r. Option.bind r (\<lambda>ctx. Crypto_sha1Update ctx d n)) ps
        (Some (Crypto_sha1Init (Some c)))) (\<lambda>ctx. Crypto_sha1Final ctx (Some out)) =
    Some (Some c', Some (sha1Digest (concat (map (\<lambda>(d, n). given d n) ps)) @ drop 20 out)) \<and>
    state1 c' = replicate 5 0 \<and> block1 c' = replicate 64 0 \<and> used1 c' = 0 \<and>
    total1 c' = of_nat (length (mdPad (concat (map (\<lambda>(d, n). given d n) ps))))"
proof -
  let ?r = "fold (\<lambda>(d, n) r. Option.bind r (\<lambda>ctx. Crypto_sha1Update ctx d n)) ps
      (Some (Crypto_sha1Init (Some c)))"
  have "sha1Usable (Some (Some c))" using assms(1) by (simp add: sha1Usable_def)
  from sha1.feeds_holds [OF sha1.start_holds [OF this] assms(2)]
  obtain c1 where c1: "?r = Some (Some c1)" "sha1Holds c1 (concat (map (\<lambda>(d, n). given d n) ps))"
    by (auto simp: sha1Ctx_def)
  from Crypto_sha1Final_digest [OF c1(2) assms(3)] show ?thesis by (auto simp: c1(1))
qed

theorem Crypto_sha1_streaming_witness:
  "\<exists>c'. Option.bind (Crypto_sha1Update (Crypto_sha1Init
      (Some \<lparr>state1 = [], total1 = 5, block1 = replicate 64 9, used1 = 80\<rparr>)) (Some [97]) 1)
      (\<lambda>ctx. Crypto_sha1Final ctx (Some (replicate 20 7))) =
    Some (Some c', Some (sha1Digest [97])) \<and> state1 c' = replicate 5 0 \<and> block1 c' = replicate 64 0 \<and>
    used1 c' = 0 \<and> total1 c' = 64"
  using Crypto_sha1_streaming [of "\<lparr>state1 = [], total1 = 5, block1 = replicate 64 9, used1 = 80\<rparr>"
      "[(Some [97], 1)]" "replicate 20 7"]
  by (simp add: mdPad_def)

lemma Crypto_sha1_digest:
  assumes "length (block1 junk) = 64" "readable bytes len" "20 \<le> length out"
  shows "Crypto_sha1 junk bytes len (Some out) = Some (Some (sha1Digest (given bytes len) @ drop 20 out))"
proof -
  let ?r = "Crypto_sha1Update (Crypto_sha1Init (Some junk)) bytes len"
  have "sha1Usable (Some (Some junk))" using assms(1) by (simp add: sha1Usable_def)
  from sha1.one_piece [OF this assms(2,3)]
  have "snd (sha1Finish ?r (Some out)) = Some (sha1Digest (given bytes len) @ drop 20 out)" by simp
  then show ?thesis
    by (auto simp: Crypto_sha1_def sha1Finish_def split: option.splits Option.bind_splits)
qed

end
