(* ===== verification/Hmac.thy ===== *)
theory Hmac
  imports Sha256 Sha1
begin

text \<open>
  \<open>src/security/hmac.c\<close>: the keyed digests over SHA-1 and SHA-256, compared with the construction of
  RFC 2104.  \<open>junk\<close> is what the uninitialised local context holds; a local array that is fully
  written before it is read starts with zeros.
\<close>

section \<open>The operations\<close>

definition xorBytes :: "u8 \<Rightarrow> u8 list \<Rightarrow> u8 list" where
  "xorBytes x pad = map (\<lambda>b. b XOR x) pad"

text \<open>The key inside the zeroed pad: the two loops of either routine, for a key that fits.\<close>

definition keyPad :: "u8 list option \<Rightarrow> nat \<Rightarrow> u8 list" where
  "keyPad key keyLen = fold (\<lambda>i p. p[i := the key ! i]) [0..<keyLen] (replicate 64 0)"

definition hmacSha1Block ::
  "CryptoSha1 \<Rightarrow> u8 list option \<Rightarrow> nat \<Rightarrow> u8 list option \<Rightarrow> nat \<Rightarrow> u8 list option \<Rightarrow> u8 list option option"
where
  "hmacSha1Block junk key keyLen bytes len out =
    do {
      pad \<leftarrow> (if 64 < keyLen then map_option the (Crypto_sha1 junk key keyLen (Some (replicate 64 0)))
             else Some (keyPad key keyLen));
      let ipad = xorBytes 0x36 pad;
      let opad = xorBytes 0x5C pad;
      ctx1 \<leftarrow> Crypto_sha1Update (Crypto_sha1Init (Some junk)) (Some ipad) 64;
      ctx2 \<leftarrow> Crypto_sha1Update ctx1 bytes len;
      (ctx3, inner) \<leftarrow> Crypto_sha1Final ctx2 (Some (replicate 20 0));
      ctx4 \<leftarrow> Crypto_sha1Update (Crypto_sha1Init ctx3) (Some opad) 64;
      ctx5 \<leftarrow> Crypto_sha1Update ctx4 inner 20;
      map_option snd (Crypto_sha1Final ctx5 out)
    }"

definition Hmac_sha1 ::
  "CryptoSha1 \<Rightarrow> u8 list option \<Rightarrow> nat \<Rightarrow> u8 list option \<Rightarrow> nat \<Rightarrow> u8 list option \<Rightarrow> u8 list option option"
where
  "Hmac_sha1 junk key keyLen bytes len out =
    (if key = None \<and> keyLen \<noteq> 0 \<or> bytes = None \<and> len \<noteq> 0 \<or> out = None then Some out
     else hmacSha1Block junk key keyLen bytes len out)"

definition Hmac_sha256 ::
  "CryptoSha256 \<Rightarrow> u8 list option \<Rightarrow> nat \<Rightarrow> u8 list option \<Rightarrow> nat \<Rightarrow> u8 list option \<Rightarrow> u8 list option"
where
  "Hmac_sha256 junk key keyLen bytes len out =
    (if key = None \<and> keyLen \<noteq> 0 \<or> bytes = None \<and> len \<noteq> 0 \<or> out = None then out
     else
       let pad = (if 64 < keyLen then the (Crypto_sha256 junk key keyLen (Some (replicate 64 0)))
                  else keyPad key keyLen);
           ipad = xorBytes 0x36 pad;
           opad = xorBytes 0x5C pad;
           ctx1 = Crypto_sha256Update (Crypto_sha256Init (Some junk)) (Some ipad) 64;
           ctx2 = Crypto_sha256Update ctx1 bytes len;
           (ctx3, inner) = Crypto_sha256Final ctx2 (Some (replicate 32 0));
           ctx4 = Crypto_sha256Update (Crypto_sha256Init ctx3) (Some opad) 64;
           ctx5 = Crypto_sha256Update ctx4 inner 32
       in snd (Crypto_sha256Final ctx5 out))"

section \<open>The construction of RFC 2104\<close>

definition hmacKey :: "(u8 list \<Rightarrow> u8 list) \<Rightarrow> u8 list \<Rightarrow> u8 list" where
  "hmacKey H key = (let k = (if 64 < length key then H key else key) in k @ replicate (64 - length k) 0)"

definition hmac :: "(u8 list \<Rightarrow> u8 list) \<Rightarrow> u8 list \<Rightarrow> u8 list \<Rightarrow> u8 list" where
  "hmac H key m =
    (let k = hmacKey H key
     in H (map (\<lambda>b. b XOR 0x5C) k @ H (map (\<lambda>b. b XOR 0x36) k @ m)))"

lemma length_xorBytes [simp]: "length (xorBytes x pad) = length pad"
  by (simp add: xorBytes_def)

lemma keyPad_key:
  assumes "readable key n" "n \<le> 64"
  shows "keyPad key n = hmacKey H (given key n)" "length (keyPad key n) = 64"
proof -
  have pad: "keyPad key n = given key n @ replicate (64 - n) 0" and len: "length (given key n) = n"
  proof -
    show "length (given key n) = n" using assms(1) by (cases key) simp_all
    show "keyPad key n = given key n @ replicate (64 - n) 0"
    proof (cases key)
      case None
      then show ?thesis using assms(1) by (simp add: keyPad_def)
    next
      case (Some bs)
      then show ?thesis
        using fold_update_copy [of 0 n "replicate 64 0" bs] assms by (simp add: keyPad_def)
    qed
  qed
  show "keyPad key n = hmacKey H (given key n)" "length (keyPad key n) = 64"
    using assms(2) by (simp_all add: pad len hmacKey_def)
qed

lemma longKey:
  assumes "64 < n" "readable key n" "length (H (given key n)) \<le> 64"
  shows "H (given key n) @ drop (length (H (given key n))) (replicate 64 0) = hmacKey H (given key n)"
proof -
  have "length (given key n) = n" using assms(2) by (cases key) simp_all
  then show ?thesis using assms(1) by (simp add: hmacKey_def Let_def)
qed

context streaming_hash
begin

text \<open>Two passes over one context, the second over the digest of the first, are the construction.\<close>

lemma two_passes:
  assumes "usable c" "length k = 64" "readable d n" "width \<le> length out" "width = length dst"
    and width: "\<And>m. length (digest m) = width"
  shows "snd (finish (feed (feed (start (fst (finish (feed (feed (start c) (Some (xorBytes 0x36 k)) 64) d n)
        (Some dst)))) (Some (xorBytes 0x5C k)) 64)
      (snd (finish (feed (feed (start c) (Some (xorBytes 0x36 k)) 64) d n) (Some dst))) width) (Some out)) =
    Some (digest (xorBytes 0x5C k @ digest (xorBytes 0x36 k @ given d n)) @ drop width out)"
  using two_pieces [of c "Some (xorBytes 0x36 k)" 64 d n dst]
    two_pieces [OF two_pieces_usable [of c "Some (xorBytes 0x36 k)" 64 d n dst], of "Some (xorBytes 0x5C k)" 64
      "Some (digest (xorBytes 0x36 k @ given d n))" width out]
    assms
  by simp

end

lemma hmac_key: "hmac H key m = H (xorBytes 0x5C (hmacKey H key) @ H (xorBytes 0x36 (hmacKey H key) @ m))"
  by (simp add: hmac_def xorBytes_def Let_def)

lemma length_hmacKey: "length (H key) \<le> 64 \<Longrightarrow> length (hmacKey H key) = 64"
  by (auto simp: hmacKey_def Let_def)

lemma Hmac_sha256_hmac:
  assumes "length (buffer256 junk) = 64" "readable key keyLen" "readable bytes len" "32 \<le> length out"
  shows "Hmac_sha256 junk key keyLen bytes len (Some out) =
    Some (hmac sha256Digest (given key keyLen) (given bytes len) @ drop 32 out)"
proof -
  let ?k = "hmacKey sha256Digest (given key keyLen)"
  have len: "length ?k = 64" by (rule length_hmacKey) simp
  have pad: "(if 64 < keyLen then the (Crypto_sha256 junk key keyLen (Some (replicate 64 0)))
      else keyPad key keyLen) = ?k"
    using Crypto_sha256_digest [OF assms(1,2), of "replicate 64 0"] keyPad_key(1) [OF assms(2)]
      longKey [of keyLen key sha256Digest] assms(2)
    by simp
  have ok: "\<not> (key = None \<and> keyLen \<noteq> 0 \<or> bytes = None \<and> len \<noteq> 0 \<or> Some out = None)"
    using assms(2,3) by (cases key; cases bytes) auto
  have "sha256Usable (Some junk)" using assms(1) by (simp add: sha256Usable_def)
  from sha256.two_passes [OF this len assms(3,4) _ length_sha256Digest, of "replicate 32 0"] show ?thesis
    unfolding Hmac_sha256_def if_not_P [OF ok] pad by (simp add: Let_def hmac_key case_prod_beta)
qed

lemma sha1_fed:
  assumes "length (block1 c) = 64" "readable d n" "readable e k"
  shows "\<exists>c1 c2. Crypto_sha1Update (Crypto_sha1Init (Some c)) d n = Some (Some c1) \<and>
    Crypto_sha1Update (Some c1) e k = Some (Some c2) \<and> sha1Holds c2 (given d n @ given e k)"
proof -
  have "sha1Usable (Some (Some c))" using assms(1) by (simp add: sha1Usable_def)
  from sha1.feed_holds [OF sha1.start_holds [OF this] assms(2)]
  obtain c1 where c1: "Crypto_sha1Update (Crypto_sha1Init (Some c)) d n = Some (Some c1)"
      "sha1Holds c1 (given d n)"
    by (auto simp: sha1Ctx_def)
  with Crypto_sha1Update_holds [OF c1(2) assms(3)] show ?thesis by auto
qed

lemma Hmac_sha1_hmac:
  assumes "length (block1 junk) = 64" "readable key keyLen" "readable bytes len" "20 \<le> length out"
  shows "Hmac_sha1 junk key keyLen bytes len (Some out) =
    Some (Some (hmac sha1Digest (given key keyLen) (given bytes len) @ drop 20 out))"
proof -
  let ?k = "hmacKey sha1Digest (given key keyLen)"
  let ?ik = "xorBytes 0x36 ?k" and ?ok = "xorBytes 0x5C ?k"
  have len: "length ?k = 64" by (rule length_hmacKey) simp
  have pad: "(if 64 < keyLen then map_option the (Crypto_sha1 junk key keyLen (Some (replicate 64 0)))
      else Some (keyPad key keyLen)) = Some ?k"
    using Crypto_sha1_digest [OF assms(1,2), of "replicate 64 0"] keyPad_key(1) [OF assms(2)]
      longKey [of keyLen key sha1Digest] assms(2)
    by simp
  have ok: "\<not> (key = None \<and> keyLen \<noteq> 0 \<or> bytes = None \<and> len \<noteq> 0 \<or> Some out = None)"
    using assms(2,3) by (cases key; cases bytes) auto
  obtain c1 c2 where c12: "Crypto_sha1Update (Crypto_sha1Init (Some junk)) (Some ?ik) 64 = Some (Some c1)"
      "Crypto_sha1Update (Some c1) bytes len = Some (Some c2)" "sha1Holds c2 (?ik @ given bytes len)"
    using sha1_fed [OF assms(1) _ assms(3), of "Some ?ik" 64] len by auto
  let ?inner = "sha1Digest (?ik @ given bytes len)"
  obtain c3 where c3: "Crypto_sha1Final (Some c2) (Some (replicate 20 0)) = Some (Some c3, Some ?inner)"
      "length (block1 c3) = 64"
    using Crypto_sha1Final_digest [OF c12(3), of "replicate 20 0"] by auto
  obtain c4 c5 where c45: "Crypto_sha1Update (Crypto_sha1Init (Some c3)) (Some ?ok) 64 = Some (Some c4)"
      "Crypto_sha1Update (Some c4) (Some ?inner) 20 = Some (Some c5)" "sha1Holds c5 (?ok @ ?inner)"
    using sha1_fed [OF c3(2), of "Some ?ok" 64 "Some ?inner" 20] len by auto
  obtain c6 where "Crypto_sha1Final (Some c5) (Some out) =
      Some (Some c6, Some (sha1Digest (?ok @ ?inner) @ drop 20 out))"
    using Crypto_sha1Final_digest [OF c45(3) assms(4)] by auto
  then show ?thesis
    unfolding Hmac_sha1_def if_not_P [OF ok] hmacSha1Block_def pad
    by (simp add: c12 c3(1) c45 Let_def hmac_key)
qed

text \<open>
C28: both keyed digests are the construction of RFC 2104 over their hash function, for keys of any
length (a key above 64 bytes is hashed first) and for null pointers of no bytes; they return, they
do not depend on what the local context held, and they write the digest alone.
\<close>

theorem Hmac_correct:
  assumes "readable key keyLen" "readable bytes len"
  shows "(length (block1 j1) = 64 \<and> 20 \<le> length out \<longrightarrow>
      Hmac_sha1 j1 key keyLen bytes len (Some out) =
        Some (Some (hmac sha1Digest (given key keyLen) (given bytes len) @ drop 20 out))) \<and>
    (length (buffer256 j2) = 64 \<and> 32 \<le> length out \<longrightarrow>
      Hmac_sha256 j2 key keyLen bytes len (Some out) =
        Some (hmac sha256Digest (given key keyLen) (given bytes len) @ drop 32 out))"
  using assms Hmac_sha1_hmac Hmac_sha256_hmac by blast

theorem Hmac_correct_witness:
  "Hmac_sha1 \<lparr>state1 = [], total1 = 5, block1 = replicate 64 9, used1 = 80\<rparr> (Some [1, 2]) 2 None 0
      (Some (replicate 32 7)) = Some (Some (hmac sha1Digest [1, 2] [] @ replicate 12 7)) \<and>
   Hmac_sha256 \<lparr>state256 = [], count256 = 5, buffer256 = replicate 64 9\<rparr> (Some [1, 2]) 2 None 0
      (Some (replicate 32 7)) = Some (hmac sha256Digest [1, 2] [])"
  using Hmac_correct [of "Some [1, 2]" 2 None 0
      "\<lparr>state1 = [], total1 = 5, block1 = replicate 64 9, used1 = 80\<rparr>" "replicate 32 7"
      "\<lparr>state256 = [], count256 = 5, buffer256 = replicate 64 9\<rparr>"]
  by simp

end
