(* ===== verification/Hkdf.thy ===== *)
theory Hkdf
  imports Hmac
begin

text \<open>
  \<open>src/security/hkdf.c\<close>: extraction and expansion of key material over the SHA-256 code, compared
  with RFC 5869.  \<open>granted\<close> is the answer of \<open>malloc\<close>, \<open>junk\<close> and \<open>prk0\<close> what the uninitialised locals
  hold.
\<close>

section \<open>The operations\<close>

definition Hkdf_extract ::
  "CryptoSha256 \<Rightarrow> u8 list option \<Rightarrow> nat \<Rightarrow> u8 list option \<Rightarrow> nat \<Rightarrow> u8 list option \<Rightarrow> u8 list option"
where
  "Hkdf_extract junk salt saltLen ikm ikmLen prk =
    (if prk = None \<or> ikm = None \<and> ikmLen \<noteq> 0 then prk
     else
       let (salt1, saltLen1) =
         (if salt = None \<or> saltLen = 0 then (Some (replicate 32 0), 32) else (salt, saltLen))
       in Hmac_sha256 junk salt1 saltLen1 ikm ikmLen prk)"

text \<open>The loop of the expansion; the arguments are the locals of the code in the order it declares
  them.\<close>

function hkdfLoop ::
  "CryptoSha256 \<Rightarrow> u8 list option \<Rightarrow> u8 list option \<Rightarrow> nat \<Rightarrow> u8 list \<Rightarrow> nat \<Rightarrow>
   u8 list \<Rightarrow> nat \<Rightarrow> nat \<Rightarrow> u8 \<Rightarrow> u8 list \<Rightarrow> u8 list"
where
  "hkdfLoop junk prk info infoLen okm okmLen t tLen offset counter buffer =
    (if offset < okmLen then
       let (buffer1, fill1) = (if 0 < tLen then (memcpy buffer 0 t 0 tLen, tLen) else (buffer, 0));
           (buffer2, fill2) =
             (if 0 < infoLen then (memcpy buffer1 fill1 (the info) 0 infoLen, fill1 + infoLen)
              else (buffer1, fill1));
           buffer3 = buffer2[fill2 := counter];
           fill3 = fill2 + 1;
           t1 = the (Hmac_sha256 junk prk 32 (Some buffer3) fill3 (Some t));
           n = (if okmLen - offset < 32 then okmLen - offset else 32)
       in hkdfLoop junk prk info infoLen (memcpy okm offset t1 0 n) okmLen t1 32 (offset + n)
            (counter + 1) buffer3
     else okm)"
  by pat_completeness auto
termination
  by (relation "measure (\<lambda>(junk, prk, info, infoLen, okm, okmLen, t, tLen, offset, counter, buffer).
        okmLen - offset)") auto

declare hkdfLoop.simps [simp del]

definition Hkdf_expand ::
  "CryptoSha256 \<Rightarrow> bool \<Rightarrow> u8 list option \<Rightarrow> u8 list option \<Rightarrow> nat \<Rightarrow> u8 list option \<Rightarrow> nat \<Rightarrow> u8 list option"
where
  "Hkdf_expand junk granted prk info infoLen okm okmLen =
    (if prk = None \<or> okm = None \<and> okmLen \<noteq> 0 \<or> info = None \<and> infoLen \<noteq> 0 \<or> 255 * 32 < okmLen then okm
     else if okmLen = 0 then okm
     else
       let bufferBytes = wrap64 (32 + infoLen + 1)
       in if \<not> granted then okm
          else Some (hkdfLoop junk prk info infoLen (the okm) okmLen (replicate 32 0) 0 0 1
                 (replicate bufferBytes 0)))"

definition Hkdf ::
  "CryptoSha256 \<Rightarrow> bool \<Rightarrow> u8 list \<Rightarrow> u8 list option \<Rightarrow> nat \<Rightarrow> u8 list option \<Rightarrow> nat \<Rightarrow>
   u8 list option \<Rightarrow> nat \<Rightarrow> u8 list option \<Rightarrow> nat \<Rightarrow> u8 list option"
where
  "Hkdf junk granted prk0 salt saltLen ikm ikmLen info infoLen okm okmLen =
    (let prk = Hkdf_extract junk salt saltLen ikm ikmLen (Some prk0)
     in Hkdf_expand junk granted prk info infoLen okm okmLen)"

section \<open>RFC 5869\<close>

definition hkdfExtract :: "u8 list \<Rightarrow> u8 list \<Rightarrow> u8 list" where
  "hkdfExtract salt ikm = hmac sha256Digest (if salt = [] then replicate 32 0 else salt) ikm"

text \<open>The blocks \<open>T(i), T(i+1), ...\<close> that follow the block \<open>t\<close>.\<close>

primrec hkdfBlocks :: "u8 list \<Rightarrow> u8 list \<Rightarrow> u8 list \<Rightarrow> nat \<Rightarrow> nat \<Rightarrow> u8 list" where
  "hkdfBlocks prk info t i 0 = []"
| "hkdfBlocks prk info t i (Suc n) =
    (let t1 = hmac sha256Digest prk (t @ info @ [of_nat i]) in t1 @ hkdfBlocks prk info t1 (Suc i) n)"

definition hkdfExpand :: "u8 list \<Rightarrow> u8 list \<Rightarrow> nat \<Rightarrow> u8 list" where
  "hkdfExpand prk info len = take len (hkdfBlocks prk info [] 1 ((len + 31) div 32))"

section \<open>The expansion\<close>

lemma length_hmac256 [simp]: "length (hmac sha256Digest k m) = 32"
  by (simp add: hmac_def Let_def)

lemma length_hkdfBlocks [simp]: "length (hkdfBlocks prk info t i n) = 32 * n"
  by (induction n arbitrary: t i) (simp_all add: Let_def)

text \<open>What one round feeds to the keyed digest.\<close>

lemma hkdf_message:
  assumes "readable info infoLen" "tLen \<le> length t" "tLen + infoLen < length buffer"
    and "(buffer1, fill1) = (if 0 < tLen then (memcpy buffer 0 t 0 tLen, tLen) else (buffer, 0))"
    and "(buffer2, fill2) = (if 0 < infoLen then (memcpy buffer1 fill1 (the info) 0 infoLen, fill1 + infoLen)
      else (buffer1, fill1))"
  shows "take (fill2 + 1) (buffer2[fill2 := counter]) = take tLen t @ given info infoLen @ [counter]"
    "length buffer2 = length buffer" "fill2 = tLen + infoLen"
proof -
  have b1: "take tLen buffer1 = take tLen t" "length buffer1 = length buffer" "fill1 = tLen"
    using assms(2,3,4) by (auto simp: memcpy_def mem_write_def mem_read_def split: if_splits)
  have b2: "take (tLen + infoLen) buffer2 = take tLen t @ given info infoLen"
      "length buffer2 = length buffer" "fill2 = tLen + infoLen"
  proof (atomize (full), cases "infoLen = 0")
    case True
    then have "given info infoLen = []" by (simp add: given_def split: option.splits)
    then show "take (tLen + infoLen) buffer2 = take tLen t @ given info infoLen \<and>
        length buffer2 = length buffer \<and> fill2 = tLen + infoLen"
      using True assms(5) b1 by simp
  next
    case False
    then obtain bs where "info = Some bs" "infoLen \<le> length bs" using assms(1) by (cases info) auto
    then show "take (tLen + infoLen) buffer2 = take tLen t @ given info infoLen \<and>
        length buffer2 = length buffer \<and> fill2 = tLen + infoLen"
      using False assms(2,3,5) b1 by (simp add: memcpy_def mem_write_def mem_read_def)
  qed
  show "take (fill2 + 1) (buffer2[fill2 := counter]) = take tLen t @ given info infoLen @ [counter]"
    using b2 assms(3) by (simp add: take_Suc_conv_app_nth)
  show "length buffer2 = length buffer" "fill2 = tLen + infoLen" using b2 by simp_all
qed

lemma hkdfLoop_blocks:
  assumes junk: "length (buffer256 junk) = 64" and "length key = 32" "readable info infoLen"
    and "length t = 32" "tLen = 0 \<or> tLen = 32" "32 + infoLen < length buffer"
    and "offset \<le> okmLen" "okmLen \<le> length okm" "okmLen - offset \<le> 32 * n" "counter = of_nat i"
  shows "hkdfLoop junk (Some key) info infoLen okm okmLen t tLen offset counter buffer =
    take offset okm @ take (okmLen - offset) (hkdfBlocks key (given info infoLen) (take tLen t) i n) @
    drop okmLen okm"
  using assms(4-)
proof (induction n arbitrary: okm t tLen offset counter buffer i)
  case 0
  then show ?case by (subst hkdfLoop.simps) simp
next
  case (Suc n)
  show ?case
  proof (cases "offset < okmLen")
    case False
    then show ?thesis using Suc.prems by (subst hkdfLoop.simps) simp
  next
    case True
    obtain buffer1 fill1 where one:
      "(buffer1, fill1) = (if 0 < tLen then (memcpy buffer 0 t 0 tLen, tLen) else (buffer, 0))"
      by (metis surj_pair)
    obtain buffer2 fill2 where two:
      "(buffer2, fill2) = (if 0 < infoLen then (memcpy buffer1 fill1 (the info) 0 infoLen, fill1 + infoLen)
        else (buffer1, fill1))"
      by (metis surj_pair)
    have room: "tLen \<le> length t" "tLen + infoLen < length buffer" using Suc.prems(1,2,3) by auto
    note msg = hkdf_message(1) [where counter = counter, OF assms(3) room one two]
      hkdf_message(2,3) [OF assms(3) room one two]
    let ?m = "take tLen t @ given info infoLen @ [counter]"
    let ?t = "hmac sha256Digest key ?m"
    let ?n = "if okmLen - offset < 32 then okmLen - offset else 32"
    have "Hmac_sha256 junk (Some key) 32 (Some (buffer2[fill2 := counter])) (fill2 + 1) (Some t) =
        Some (hmac sha256Digest (take 32 key) ?m @ drop 32 t)"
      using Hmac_sha256_hmac [OF junk, of "Some key" 32 "Some (buffer2[fill2 := counter])" "fill2 + 1" t]
        assms(2) Suc.prems(1) msg room(2) by simp
    then have mac: "the (Hmac_sha256 junk (Some key) 32 (Some (buffer2[fill2 := counter])) (fill2 + 1)
        (Some t)) = ?t"
      using assms(2) Suc.prems(1) by simp
    have "hkdfLoop junk (Some key) info infoLen okm okmLen t tLen offset counter buffer =
        hkdfLoop junk (Some key) info infoLen (memcpy okm offset ?t 0 ?n) okmLen ?t 32 (offset + ?n)
          (counter + 1) (buffer2[fill2 := counter])"
      by (subst hkdfLoop.simps) (simp only: True if_True Let_def one [symmetric] two [symmetric] mac prod.case)
    also have "\<dots> = take (offset + ?n) (memcpy okm offset ?t 0 ?n) @
        take (okmLen - (offset + ?n)) (hkdfBlocks key (given info infoLen) (take 32 ?t) (Suc i) n) @
        drop okmLen (memcpy okm offset ?t 0 ?n)"
      using Suc.prems True msg(2) by (intro Suc.IH) (auto simp: add.commute)
    also have "\<dots> = take offset okm @ take (okmLen - offset)
        (hkdfBlocks key (given info infoLen) (take tLen t) i (Suc n)) @ drop okmLen okm"
      using Suc.prems True by (auto simp: memcpy_def mem_write_def mem_read_def Let_def)
    finally show ?thesis .
  qed
qed

section \<open>Agreement with RFC 5869\<close>

lemma Hkdf_extract_correct:
  assumes "length (buffer256 junk) = 64" "readable salt saltLen" "readable ikm ikmLen" "length prk = 32"
  shows "Hkdf_extract junk salt saltLen ikm ikmLen (Some prk) =
    Some (hkdfExtract (given salt saltLen) (given ikm ikmLen))"
proof -
  have ok: "\<not> (Some prk = None \<or> ikm = None \<and> ikmLen \<noteq> 0)"
    using assms(3) by (cases ikm) auto
  show ?thesis
  proof (cases "salt = None \<or> saltLen = 0")
    case True
    then have "given salt saltLen = []" by (auto simp: given_def split: option.splits)
    then show ?thesis
      using True Hmac_sha256_hmac [OF assms(1), of "Some (replicate 32 0)" 32 ikm ikmLen prk] assms(3,4)
      unfolding Hkdf_extract_def if_not_P [OF ok] by (simp add: hkdfExtract_def)
  next
    case False
    then have "given salt saltLen \<noteq> []" using assms(2) by (cases salt) auto
    then show ?thesis
      using False Hmac_sha256_hmac [OF assms(1,2,3), of prk] assms(4)
      unfolding Hkdf_extract_def if_not_P [OF ok] by (auto simp: hkdfExtract_def)
  qed
qed

lemma Hkdf_expand_correct:
  assumes "length (buffer256 junk) = 64" "length key = 32" "readable info infoLen"
    and "okmLen \<le> length okm" "okmLen \<le> 8160" "infoLen < 2 ^ 63"
  shows "Hkdf_expand junk True (Some key) info infoLen (Some okm) okmLen =
    Some (hkdfExpand key (given info infoLen) okmLen @ drop okmLen okm)"
proof (cases "okmLen = 0")
  case True
  then show ?thesis by (simp add: Hkdf_expand_def hkdfExpand_def)
next
  case False
  have ok: "\<not> (info = None \<and> infoLen \<noteq> 0)" using assms(3) by (cases info) auto
  have "wrap64 (32 + infoLen + 1) = 32 + infoLen + 1" using assms(6) by simp
  moreover have "okmLen \<le> 32 * ((okmLen + 31) div 32)" by linarith
  ultimately show ?thesis
    using False ok assms(5) hkdfLoop_blocks [OF assms(1,2,3), of "replicate 32 0" 0
      "replicate (32 + infoLen + 1) 0" 0 okmLen okm "(okmLen + 31) div 32" 1 1] assms(4)
    by (auto simp: Hkdf_expand_def hkdfExpand_def)
qed

text \<open>
C29: key derivation returns the output of RFC 5869, extraction and then expansion, for every output
length up to its ceiling of 255 blocks, with or without salt and context, and writes no byte after
it.
\<close>

theorem Hkdf_correct:
  assumes "length (buffer256 junk) = 64" "length prk0 = 32"
    and "readable salt saltLen" "readable ikm ikmLen" "readable info infoLen" "infoLen < 2 ^ 63"
    and "okmLen \<le> length okm" "okmLen \<le> 8160"
  shows "Hkdf junk True prk0 salt saltLen ikm ikmLen info infoLen (Some okm) okmLen =
    Some (hkdfExpand (hkdfExtract (given salt saltLen) (given ikm ikmLen)) (given info infoLen) okmLen @
      drop okmLen okm)"
  using Hkdf_extract_correct [OF assms(1,3,4,2)]
    Hkdf_expand_correct [OF assms(1) _ assms(5,7,8,6)]
  by (simp add: Hkdf_def hkdfExtract_def)

theorem Hkdf_correct_witness:
  "Hkdf \<lparr>state256 = [], count256 = 5, buffer256 = replicate 64 9\<rparr> True (replicate 32 3) None 0
      (Some [1, 2, 3]) 3 (Some [4]) 1 (Some (replicate 43 0)) 42 =
    Some (hkdfExpand (hkdfExtract [] [1, 2, 3]) [4] 42 @ [0])"
  using Hkdf_correct [of "\<lparr>state256 = [], count256 = 5, buffer256 = replicate 64 9\<rparr>" "replicate 32 3"
      None 0 "Some [1, 2, 3]" 3 "Some [4]" 1 42 "replicate 43 0"]
  by simp

text \<open>A refused extraction is not noticed: the expansion goes on from whatever the local key array
  held.\<close>

lemma Hkdf_refused_extract:
  "ikmLen \<noteq> 0 \<Longrightarrow>
   Hkdf junk granted prk0 salt saltLen None ikmLen info infoLen okm okmLen =
     Hkdf_expand junk granted (Some prk0) info infoLen okm okmLen"
  by (simp add: Hkdf_def Hkdf_extract_def)

end
