(* ===== verification/Crypto.thy ===== *)
theory Crypto
  imports Sha256 Hash
begin

text \<open>
  The rest of \<open>src/security/crypto.c\<close>: the comparison that does not stop early, the 64-bit and the
  32-bit byte hash, the seeded generator (a state of two words, and the generator of the process as
  one more state), and the hexadecimal text of bytes and back.
\<close>

section \<open>Comparison\<close>

definition Crypto_constantTimeEquals :: "u8 list option \<Rightarrow> u8 list option \<Rightarrow> nat \<Rightarrow> bool" where
  "Crypto_constantTimeEquals a b len =
    (if a = None \<or> b = None then False
     else fold (\<lambda>i diff. diff OR (the a ! i XOR the b ! i)) [0..<len] (0 :: u8) = 0)"

lemma or_zero_iff: "(a :: 'a::len word) OR b = 0 \<longleftrightarrow> a = 0 \<and> b = 0"
  by (auto simp: bit_eq_iff bit_or_iff)

lemma xor_zero_iff: "(a :: 'a::len word) XOR b = 0 \<longleftrightarrow> a = b"
  by (metis xor.right_neutral xor.left_commute xor_self_eq)

lemma fold_or_zero:
  "fold (\<lambda>i (d :: u8). d OR f i) is d = 0 \<longleftrightarrow> d = 0 \<and> (\<forall>i \<in> set is. f i = 0)"
  by (induction "is" arbitrary: d) (auto simp: or_zero_iff)

lemma Crypto_constantTimeEquals_iff:
  "len \<le> length a \<Longrightarrow> len \<le> length b \<Longrightarrow>
   Crypto_constantTimeEquals (Some a) (Some b) len \<longleftrightarrow> take len a = take len b"
  by (auto simp: Crypto_constantTimeEquals_def fold_or_zero xor_zero_iff list_eq_iff_nth_eq)

section \<open>Byte hashes\<close>

definition Crypto_hash64 :: "u8 list option \<Rightarrow> nat \<Rightarrow> u64" where
  "Crypto_hash64 bytes len =
    (if bytes = None \<or> len = 0 then 0
     else
       let h = fold (\<lambda>i h. (h XOR ucast (the bytes ! i)) * 0x100000001b3) [0..<len] 0xcbf29ce484222325;
           h1 = h XOR drop_bit 33 h;
           h2 = h1 * 0xff51afd7ed558ccd;
           h3 = h2 XOR drop_bit 33 h2;
           h4 = h3 * 0xc4ceb9fe1a85ec53
       in h4 XOR drop_bit 33 h4)"

definition Crypto_hash32 :: "u8 list option \<Rightarrow> nat \<Rightarrow> u32" where
  "Crypto_hash32 bytes len = (let h = Crypto_hash64 bytes len in ucast (h XOR drop_bit 32 h))"

section \<open>The seeded generator\<close>

record CryptoRng =
  rng0 :: u64
  rng1 :: u64

definition splitmix64 :: "u64 \<Rightarrow> u64 \<times> u64" where
  "splitmix64 seed =
    (let s = seed + 0x9e3779b97f4a7c15;
         z1 = (s XOR drop_bit 30 s) * 0xbf58476d1ce4e5b9;
         z2 = (z1 XOR drop_bit 27 z1) * 0x94d049bb133111eb
     in (z2 XOR drop_bit 31 z2, s))"

definition Crypto_rngInit :: "CryptoRng option \<Rightarrow> u64 \<Rightarrow> CryptoRng option" where
  "Crypto_rngInit rng seed =
    (case rng of None \<Rightarrow> None
     | Some r \<Rightarrow>
       let seed1 = (if seed = 0 then 0x853c49e6748fea9b else seed);
           (a, sm1) = splitmix64 seed1;
           (b, sm2) = splitmix64 sm1
       in Some (r\<lparr>rng0 := a, rng1 := b\<rparr>))"

definition Crypto_rngNextU64 :: "CryptoRng option \<Rightarrow> u64 \<times> CryptoRng option" where
  "Crypto_rngNextU64 rng =
    (case rng of None \<Rightarrow> (0, None)
     | Some r \<Rightarrow>
       let s1 = rng0 r;
           s0 = rng1 r;
           s2 = s1 XOR push_bit 23 s1;
           r1 = r\<lparr>rng0 := s0, rng1 := s2 XOR s0 XOR drop_bit 18 s2 XOR drop_bit 5 s0\<rparr>
       in (rng1 r1 + s0, Some r1))"

function rngWords :: "CryptoRng option \<Rightarrow> u8 list \<Rightarrow> nat \<Rightarrow> nat \<Rightarrow> CryptoRng option \<times> u8 list" where
  "rngWords rng p off len =
    (if 8 \<le> len then
       let (val, rng1) = Crypto_rngNextU64 rng
       in rngWords rng1 (memcpy p off (le_write 8 val) 0 8) (off + 8) (len - 8)
     else if 0 < len then
       let (val, rng1) = Crypto_rngNextU64 rng
       in (rng1, memcpy p off (le_write 8 val) 0 len)
     else (rng, p))"
  by pat_completeness auto
termination by (relation "measure (\<lambda>(rng, p, off, len). len)") auto

definition Crypto_rngBytes ::
  "CryptoRng option \<Rightarrow> u8 list option \<Rightarrow> nat \<Rightarrow> CryptoRng option \<times> u8 list option"
where
  "Crypto_rngBytes rng dest len =
    (case (rng, dest) of
       (Some r, Some p) \<Rightarrow> if len = 0 then (rng, dest) else map_prod id Some (rngWords rng p 0 len)
     | _ \<Rightarrow> (rng, dest))"

definition g_defaultRng :: CryptoRng where
  "g_defaultRng = \<lparr>rng0 = 0x123456789abcdef0, rng1 = 0xfedcba9876543210\<rparr>"

definition Crypto_prngSeed :: "u64 \<Rightarrow> CryptoRng \<Rightarrow> CryptoRng" where
  "Crypto_prngSeed seed g = the (Crypto_rngInit (Some g) seed)"

definition Crypto_prngU64 :: "CryptoRng \<Rightarrow> u64 \<times> CryptoRng" where
  "Crypto_prngU64 g = map_prod id the (Crypto_rngNextU64 (Some g))"

definition Crypto_prngBytes :: "u8 list option \<Rightarrow> nat \<Rightarrow> CryptoRng \<Rightarrow> CryptoRng \<times> u8 list option" where
  "Crypto_prngBytes dest len g = map_prod the id (Crypto_rngBytes (Some g) dest len)"

lemma length_rngWords: "off + len \<le> length p \<Longrightarrow> length (snd (rngWords rng p off len)) = length p"
proof (induction rng p off len rule: rngWords.induct)
  case (1 rng p off len)
  obtain val r where draw: "Crypto_rngNextU64 rng = (val, r)" by (cases "Crypto_rngNextU64 rng")
  have len: "length (memcpy p off (le_write 8 val) 0 n) = length p" if "n \<le> 8" "n \<le> len" for n
    using "1.prems" that by (intro length_memcpy) simp_all
  show ?case
  proof (cases "8 \<le> len")
    case True
    then have "length (snd (rngWords r (memcpy p off (le_write 8 val) 0 8) (off + 8) (len - 8))) = length p"
      using "1.IH" [OF True draw [symmetric] refl] "1.prems" len by simp
    then show ?thesis using True by (subst rngWords.simps) (simp add: draw)
  next
    case False
    then show ?thesis using len by (subst rngWords.simps) (simp add: draw)
  qed
qed

section \<open>Hexadecimal text\<close>

definition HEX_CHARS :: "u8 list" where
  "HEX_CHARS = [48, 49, 50, 51, 52, 53, 54, 55, 56, 57, 97, 98, 99, 100, 101, 102]"

definition Crypto_toHex :: "u8 list option \<Rightarrow> nat \<Rightarrow> u8 list option \<Rightarrow> u8 list option" where
  "Crypto_toHex bytes len outHex =
    (case outHex of None \<Rightarrow> None
     | Some out \<Rightarrow>
       if bytes = None \<or> len = 0 then Some (out[0 := 0])
       else Some ((fold (\<lambda>i d. d[i * 2 := HEX_CHARS ! unat (drop_bit 4 (the bytes ! i) AND 0x0F),
           i * 2 + 1 := HEX_CHARS ! unat (the bytes ! i AND 0x0F)]) [0..<len] out)[len * 2 := 0]))"

definition hexVal :: "u8 \<Rightarrow> int" where
  "hexVal c =
    (if ch_0 \<le> c \<and> c \<le> ch_9 then uint c - uint ch_0
     else if ch_a \<le> c \<and> c \<le> ch_f then uint c - uint ch_a + 10
     else if ch_A \<le> c \<and> c \<le> ch_F then uint c - uint ch_A + 10
     else - 1)"

text \<open>The loop of \<open>Crypto_fromHex\<close>: the buffer and the number of bytes read.\<close>

function fromHexLoop :: "u8 list \<Rightarrow> u8 list \<Rightarrow> nat \<Rightarrow> nat \<Rightarrow> u8 list \<times> nat" where
  "fromHexLoop hex out byteCount i =
    (if i < byteCount then
       let hi = hexVal (hex ! (i * 2)); lo = hexVal (hex ! (i * 2 + 1))
       in if hi < 0 \<or> lo < 0 then (out, i)
          else fromHexLoop hex (out[i := word_of_int (or (push_bit 4 hi) lo)]) byteCount (i + 1)
     else (out, byteCount))"
  by pat_completeness auto
termination by (relation "measure (\<lambda>(hex, out, byteCount, i). byteCount - i)") auto

declare fromHexLoop.simps [simp del]

text \<open>\<open>strlen\<close> of the text is the number of bytes in front of its terminator.\<close>

definition Crypto_fromHex :: "u8 list option \<Rightarrow> u8 list option \<Rightarrow> nat \<Rightarrow> u8 list option \<times> nat" where
  "Crypto_fromHex hex outBytes maxBytes =
    (if hex = None \<or> outBytes = None \<or> maxBytes = 0 then (outBytes, 0)
     else
       let hexLen = length (takeWhile (\<lambda>c. c \<noteq> 0) (the hex));
           byteCount = hexLen div 2;
           byteCount1 = (if maxBytes < byteCount then maxBytes else byteCount);
           (out, n) = fromHexLoop (the hex) (the outBytes) byteCount1 0
       in (Some out, n))"

definition Crypto_sha256Hex ::
  "CryptoSha256 \<Rightarrow> u8 list option \<Rightarrow> nat \<Rightarrow> u8 list option \<Rightarrow> u8 list option"
where
  "Crypto_sha256Hex junk bytes len outHex =
    Crypto_toHex (Crypto_sha256 junk bytes len (Some (replicate 32 0))) 32 outHex"

lemma hex_codes:
  "list_all (\<lambda>v. hexVal (HEX_CHARS ! v) = int v \<and> HEX_CHARS ! v \<noteq> 0) [0..<16]"
  by code_simp

lemma hex_code:
  assumes "v < 16"
  shows "hexVal (HEX_CHARS ! v) = int v" "HEX_CHARS ! v \<noteq> 0"
  using hex_codes assms by (auto simp: list_all_iff)

lemma nibble_less: "unat ((b :: u8) AND 0x0F) < 16"
proof -
  have "(0x0F :: u8) = mask 4" by (simp add: mask_numeral)
  then have "unat (b AND 0x0F) = take_bit 4 (unat b)"
    by (metis take_bit_eq_mask unsigned_take_bit_eq)
  then show ?thesis using take_bit_nat_less_exp [of 4 "unat b"] by simp
qed

lemma nibbles_join:
  "(word_of_int (or (push_bit 4 (uint (drop_bit 4 b AND 0x0F))) (uint (b AND 0x0F))) :: u8) = b"
proof (rule bit_word_eqI)
  fix n assume n: "n < LENGTH(8)"
  have mask: "(0x0F :: u8) = mask 4" by (simp add: mask_numeral)
  have bits: "bit (uint w) k = bit w k" for w :: u8 and k
    by (auto simp: bit_unsigned_iff dest: bit_imp_le_length)
  show "bit (word_of_int (or (push_bit 4 (uint (drop_bit 4 b AND 0x0F))) (uint (b AND 0x0F))) :: u8) n =
      bit b n"
    using n unfolding mask
    by (cases "n < 4") (auto simp: bit_word_of_int_iff bit_or_iff bit_push_bit_iff bits bit_and_iff
        bit_mask_iff bit_drop_bit_eq dest: bit_imp_le_length)
qed

text \<open>Character \<open>k\<close> of the text of a byte string.\<close>

definition hexChar :: "u8 list \<Rightarrow> nat \<Rightarrow> u8" where
  "hexChar bs k = HEX_CHARS ! unat (if even k then drop_bit 4 (bs ! (k div 2)) AND 0x0F
    else bs ! (k div 2) AND 0x0F)"

lemma hexChar_nonzero: "hexChar bs k \<noteq> 0"
  using nibble_less by (simp add: hexChar_def hex_code(2))

lemma toHex_written:
  assumes "2 * n < length out"
  shows "fold (\<lambda>i d. d[i * 2 := HEX_CHARS ! unat (drop_bit 4 (bs ! i) AND 0x0F),
      i * 2 + 1 := HEX_CHARS ! unat (bs ! i AND 0x0F)]) [0..<n] out =
    map (hexChar bs) [0..<2 * n] @ drop (2 * n) out"
  using assms
proof (induction n)
  case (Suc n)
  let ?d = "map (hexChar bs) [0..<2 * n]"
  obtain x y r where r: "drop (2 * n) out = x # y # r" "drop (2 * Suc n) out = r"
  proof -
    have "2 \<le> length (drop (2 * n) out)" using Suc.prems by simp
    then obtain x y r where "drop (2 * n) out = x # y # r"
      by (cases "drop (2 * n) out"; cases "tl (drop (2 * n) out)") auto
    moreover have "drop (2 * Suc n) out = drop 2 (drop (2 * n) out)" by (simp only: drop_drop) simp
    ultimately show thesis using that [of x y r] by simp
  qed
  have "map (hexChar bs) [0..<2 * Suc n] = ?d @ [hexChar bs (2 * n), hexChar bs (2 * n + 1)]" by simp
  then show ?case using Suc r by (simp add: list_update_append hexChar_def mult.commute)
qed simp

lemma fromHexLoop_reads:
  assumes "\<forall>k < 2 * n. hex ! k = hexChar bs k" "n \<le> length bs" "n \<le> length out" "i \<le> n"
    and "take i out = take i bs"
  shows "\<exists>out'. fromHexLoop hex out n i = (out', n) \<and> length out' = length out \<and> take n out' = take n bs"
  using assms
proof (induction "n - i" arbitrary: i out)
  case 0
  then show ?case by (subst fromHexLoop.simps) simp
next
  case (Suc x)
  then have i: "i < n" by simp
  have "hexVal (hex ! (i * 2)) = uint (drop_bit 4 (bs ! i) AND 0x0F)"
      "hexVal (hex ! (i * 2 + 1)) = uint (bs ! i AND 0x0F)"
    using Suc.prems(1) i nibble_less by (simp_all add: hexChar_def hex_code(1) mult.commute)
  then have "fromHexLoop hex out n i = fromHexLoop hex (out[i := bs ! i]) n (Suc i)"
    using i by (subst fromHexLoop.simps) (simp add: nibbles_join)
  moreover have "take (Suc i) (out[i := bs ! i]) = take (Suc i) bs"
    using Suc.prems(2,3,5) i by (simp add: take_Suc_conv_app_nth)
  ultimately show ?case using Suc.hyps(1) [of "Suc i" "out[i := bs ! i]"] Suc.hyps(2) Suc.prems i by simp
qed

lemma Crypto_hex_roundtrip:
  assumes "0 < length bs" "2 * length bs < length d" "length bs \<le> n" "n \<le> length buf"
  shows "\<exists>txt buf'. Crypto_toHex (Some bs) (length bs) (Some d) = Some txt \<and>
    Crypto_fromHex (Some txt) (Some buf) n = (Some buf', length bs) \<and> take (length bs) buf' = bs"
proof -
  let ?m = "2 * length bs"
  let ?txt = "(map (hexChar bs) [0..<?m] @ drop ?m d)[length bs * 2 := 0]"
  have n: "n \<noteq> 0" using assms(1,3) by linarith
  have text_is: "?txt = map (hexChar bs) [0..<?m] @ 0 # drop (Suc ?m) d"
    using assms(2) by (simp add: list_update_append Cons_nth_drop_Suc [symmetric] mult.commute)
  have hex: "Crypto_toHex (Some bs) (length bs) (Some d) = Some ?txt"
    using assms(1) toHex_written [OF assms(2), of bs] by (auto simp: Crypto_toHex_def)
  have "takeWhile (\<lambda>c. c \<noteq> 0) ?txt = map (hexChar bs) [0..<?m]"
    unfolding text_is using hexChar_nonzero by (subst takeWhile_append2) auto
  then have len: "length (takeWhile (\<lambda>c. c \<noteq> 0) ?txt) = ?m" by simp
  have "\<forall>k < ?m. ?txt ! k = hexChar bs k" unfolding text_is by (simp add: nth_append)
  from fromHexLoop_reads [OF this order_refl, of buf 0] assms(3,4) obtain buf' where
    "fromHexLoop ?txt buf (length bs) 0 = (buf', length bs)" "take (length bs) buf' = bs"
    by auto
  then have "Crypto_fromHex (Some ?txt) (Some buf) n = (Some buf', length bs)"
    using len n assms(3) by (simp add: Crypto_fromHex_def)
  with hex \<open>take (length bs) buf' = bs\<close> show ?thesis by blast
qed

end
