(* ===== verification/Totp.thy ===== *)
theory Totp
  imports Hmac Crypto
begin

text \<open>
  \<open>src/security/totp.c\<close>: one-time codes from a shared secret and the clock, and their verification
  within a window of steps, with the last accepted step as the state that refuses a replay.
\<close>

section \<open>The operations\<close>

definition digitsModulus :: "u32 \<Rightarrow> u32" where
  "digitsModulus digits =
    (if digits = 6 then 1000000 else if digits = 7 then 10000000 else if digits = 8 then 100000000 else 0)"

definition stepCounter :: "u64 \<Rightarrow> u8 list" where
  "stepCounter s = map (\<lambda>i. ucast (drop_bit (56 - i * 8) s)) [0..<8]"

text \<open>The dynamic truncation of a keyed digest.\<close>

definition totpBinary :: "u8 list \<Rightarrow> u32" where
  "totpBinary mac =
    (let offset = unat (mac ! (20 - 1) AND 0x0F)
     in push_bit 24 (ucast (mac ! offset AND 0x7F)) OR push_bit 16 (ucast (mac ! (offset + 1))) OR
        push_bit 8 (ucast (mac ! (offset + 2))) OR ucast (mac ! (offset + 3)))"

definition Totp_code ::
  "CryptoSha1 \<Rightarrow> u8 list option \<Rightarrow> nat \<Rightarrow> u64 \<Rightarrow> u32 \<Rightarrow> u32 \<Rightarrow> u32 option"
where
  "Totp_code junk secret secretLen unixTime digits stepSeconds =
    (let modulus = digitsModulus digits
     in if secret = None \<or> secretLen = 0 \<or> modulus = 0 \<or> stepSeconds = 0 then Some 0
        else do {
          let cnt = stepCounter (unixTime div ucast stepSeconds);
          mac \<leftarrow> Hmac_sha1 junk secret secretLen (Some cnt) 8 (Some (replicate 20 0));
          Some (totpBinary (the mac) mod modulus)
        })"

text \<open>The loop over the window, from an offset up to the span.  The offset is a C \<open>int\<close>: counting past
  its greatest value is undefined, here no result.  The last accepted step is the memory behind a pointer
  that may be null: without it there is no replay tracking.\<close>

definition INT_MAX :: int where
  "INT_MAX = 2147483647"

function totpScan ::
  "CryptoSha1 \<Rightarrow> u8 list option \<Rightarrow> nat \<Rightarrow> u32 \<Rightarrow> u64 \<Rightarrow> u32 \<Rightarrow> u32 \<Rightarrow> int \<Rightarrow> int \<Rightarrow> u64 option \<Rightarrow>
   (bool \<times> u64 option) option"
where
  "totpScan junk secret secretLen code s digits stepSeconds span offset lst =
    (if span < offset then Some (False, lst)
     else
       let continue = (if offset = INT_MAX then None
             else totpScan junk secret secretLen code s digits stepSeconds span (offset + 1) lst)
       in if offset < 0 \<and> s < word_of_int (- offset) then continue
          else
            let candidate = (if offset < 0 then s - word_of_int (- offset) else s + word_of_int offset)
            in do {
              expected \<leftarrow> Totp_code junk secret secretLen (candidate * ucast stepSeconds) digits stepSeconds;
              if \<not> Crypto_constantTimeEquals (Some (le_write 4 expected)) (Some (le_write 4 code)) 4 then continue
              else
                case lst of
                  None \<Rightarrow> Some (True, None)
                | Some l \<Rightarrow> if candidate \<le> l then Some (False, lst) else Some (True, Some candidate)
            })"
  by pat_completeness auto
termination
  by (relation "measure (\<lambda>(junk, secret, secretLen, code, s, digits, stepSeconds, span, offset, lst).
    nat (span + 1 - offset))") auto

declare totpScan.simps [simp del]

definition Totp_verify ::
  "CryptoSha1 \<Rightarrow> u8 list option \<Rightarrow> nat \<Rightarrow> u32 \<Rightarrow> u64 \<Rightarrow> u32 \<Rightarrow> u32 \<Rightarrow> 32 word \<Rightarrow> u64 option \<Rightarrow>
   (bool \<times> u64 option) option"
where
  "Totp_verify junk secret secretLen code unixTime digits stepSeconds window ioLastAcceptedStep =
    (if secret = None \<or> secretLen = 0 \<or> stepSeconds = 0 \<or> digitsModulus digits = 0 then
       Some (False, ioLastAcceptedStep)
     else
       let span = (if sint window < 0 then 0 else sint window);
           s = unixTime div ucast stepSeconds
       in totpScan junk secret secretLen code s digits stepSeconds span (- span) ioLastAcceptedStep)"

section \<open>The code of an instant\<close>

text \<open>RFC 4226: the truncated keyed digest of the eight-byte counter.\<close>

definition hotp :: "u8 list \<Rightarrow> u64 \<Rightarrow> u32 \<Rightarrow> u32" where
  "hotp key cnt digits = totpBinary (hmac sha1Digest key (be_write64 cnt)) mod digitsModulus digits"

lemma Totp_code_hotp:
  assumes "length (block1 junk) = 64" "secretLen \<le> length key" "0 < secretLen"
    "digitsModulus digits \<noteq> 0" "stepSeconds \<noteq> 0"
  shows "Totp_code junk (Some key) secretLen t digits stepSeconds =
    Some (hotp (take secretLen key) (t div ucast stepSeconds) digits)"
proof -
  have "take 8 (be_write64 x) = be_write64 x" for x by simp
  moreover have "length (hmac sha1Digest k m) = 20" for k m by (simp add: hmac_def Let_def)
  ultimately show ?thesis
    using assms Hmac_sha1_hmac [OF assms(1), of "Some key" secretLen
        "Some (be_write64 (t div ucast stepSeconds))" 8 "replicate 20 0"]
    by (simp add: Totp_code_def hotp_def stepCounter_def be_write64_def [symmetric] Let_def)
qed

lemma code_matches:
  "Crypto_constantTimeEquals (Some (le_write 4 a)) (Some (le_write 4 (b :: u32))) 4 \<longleftrightarrow> a = b"
proof -
  have "le_read (le_write 4 v) = v" for v :: u32
    by (simp add: le_read_write take_bit_word_eq_self)
  then have "le_write 4 a = le_write 4 b \<longleftrightarrow> a = b" by metis
  then show ?thesis by (subst Crypto_constantTimeEquals_iff) simp_all
qed

section \<open>Verification\<close>

text \<open>The steps of a window around a step: no step before the first one; the counter of steps itself
  has 64 bits.  And the code of a step.\<close>

definition windowStep :: "u64 \<Rightarrow> int \<Rightarrow> int \<Rightarrow> u64 \<Rightarrow> bool" where
  "windowStep s span k n \<longleftrightarrow> - span \<le> k \<and> k \<le> span \<and> 0 \<le> uint s + k \<and> uint n = (uint s + k) mod 2 ^ 64"

definition stepCode :: "u8 list \<Rightarrow> u32 \<Rightarrow> u32 \<Rightarrow> u64 \<Rightarrow> u32" where
  "stepCode key digits stepSeconds n = hotp key (n * ucast stepSeconds div ucast stepSeconds) digits"

text \<open>The step that an offset names, whether the code presented is its code, and the answer then.\<close>

definition stepAt :: "u64 \<Rightarrow> int \<Rightarrow> u64" where
  "stepAt s k = s + word_of_int k"

definition codeFits :: "u8 list \<Rightarrow> u32 \<Rightarrow> u32 \<Rightarrow> u32 \<Rightarrow> u64 \<Rightarrow> int \<Rightarrow> bool" where
  "codeFits key code digits stepSeconds s k \<longleftrightarrow> 0 \<le> uint s + k \<and> stepCode key digits stepSeconds (stepAt s k) = code"

definition verdict :: "u64 option \<Rightarrow> u64 \<Rightarrow> bool \<times> u64 option" where
  "verdict lst c =
    (case lst of None \<Rightarrow> (True, None) | Some l \<Rightarrow> if c \<le> l then (False, lst) else (True, Some c))"

lemma stepAt_window:
  "- span \<le> k \<Longrightarrow> k \<le> span \<Longrightarrow> 0 \<le> uint s + k \<Longrightarrow> windowStep s span k n \<longleftrightarrow> n = stepAt s k"
proof -
  have "n = stepAt s k \<longleftrightarrow> uint n = (uint s + k) mod 2 ^ 64"
  proof -
    have "stepAt s k = word_of_int (uint s + k)" by (simp add: stepAt_def)
    then have "uint (stepAt s k) = (uint s + k) mod 2 ^ 64"
      by (simp only: uint_word_of_int) simp
    then show ?thesis by (metis word_uint_eq_iff)
  qed
  then show "- span \<le> k \<Longrightarrow> k \<le> span \<Longrightarrow> 0 \<le> uint s + k \<Longrightarrow> windowStep s span k n \<longleftrightarrow> n = stepAt s k"
    by (simp add: windowStep_def)
qed

lemma before_first:
  assumes "- 2147483648 \<le> k"
  shows "(k < 0 \<and> (s :: u64) < word_of_int (- k)) \<longleftrightarrow> uint s + k < 0"
proof (cases "k < 0")
  case True
  then obtain m where m: "k = - m" "0 < m" "m \<le> 2147483648" using assms by (metis minus_minus neg_0_less_iff_less neg_le_iff_le)
  then have "uint (word_of_int m :: u64) = m" by (simp add: uint_word_of_int)
  then show ?thesis using m(2) unfolding m(1) by (simp add: word_less_def)
qed (simp add: not_less)

text \<open>The scan decides by the first offset that fits.\<close>

lemma totpScan_first:
  assumes "length (block1 junk) = 64" "secretLen \<le> length key" "0 < secretLen"
    "digitsModulus digits \<noteq> 0" "stepSeconds \<noteq> 0"
  shows "- INT_MAX \<le> k \<Longrightarrow> span \<le> INT_MAX \<Longrightarrow>
    totpScan junk (Some key) secretLen code s digits stepSeconds span k lst =
    (case find (codeFits (take secretLen key) code digits stepSeconds s) [k..span] of
        None \<Rightarrow> if span = INT_MAX \<and> k \<le> span then None else Some (False, lst)
      | Some k \<Rightarrow> Some (verdict lst (stepAt s k)))"
proof (induction "nat (span + 1 - k)" arbitrary: k rule: less_induct)
  case less
  let ?fits = "codeFits (take secretLen key) code digits stepSeconds s"
  show ?case
  proof (cases "span < k")
    case True
    then show ?thesis by (subst totpScan.simps) simp
  next
    case False
    define cont where "cont = (if k = INT_MAX then None
      else totpScan junk (Some key) secretLen code s digits stepSeconds span (k + 1) lst)"
    have list: "[k..span] = k # [k + 1..span]" using False by (simp add: upto_rec1)
    have cont: "cont = (case find ?fits [k + 1..span] of
        None \<Rightarrow> if span = INT_MAX then None else Some (False, lst)
      | Some k \<Rightarrow> Some (verdict lst (stepAt s k)))"
      using less.hyps [of "k + 1"] less.prems False by (auto simp: cont_def split: option.splits)
    have at: "(if k < 0 then s - word_of_int (- k) else s + word_of_int k) = stepAt s k"
      by (simp add: stepAt_def)
    have guard: "(k < 0 \<and> s < word_of_int (- k)) \<longleftrightarrow> uint s + k < 0"
      using before_first [of k s] less.prems(1) by (simp add: INT_MAX_def)
    have code: "Totp_code junk (Some key) secretLen (stepAt s k * ucast stepSeconds) digits stepSeconds =
        Some (stepCode (take secretLen key) digits stepSeconds (stepAt s k))"
      by (simp only: Totp_code_hotp [OF assms] stepCode_def)
    have "totpScan junk (Some key) secretLen code s digits stepSeconds span k lst =
        (if uint s + k < 0 then cont
         else if stepCode (take secretLen key) digits stepSeconds (stepAt s k) \<noteq> code then cont
         else Some (verdict lst (stepAt s k)))"
      by (subst totpScan.simps) (unfold Let_def cont_def [symmetric] guard at code
        bind.bind_lunit code_matches if_not_P [OF False], simp add: verdict_def split: option.split)
    then show ?thesis
      unfolding list find.simps cont using False by (auto simp: codeFits_def not_le not_less)
  qed
qed

lemma Totp_verify_first:
  assumes "length (block1 junk) = 64" "secretLen \<le> length key"
  shows "Totp_verify junk (Some key) secretLen code t digits stepSeconds window lst =
    (if secretLen = 0 \<or> stepSeconds = 0 \<or> digitsModulus digits = 0 then Some (False, lst)
     else case find (codeFits (take secretLen key) code digits stepSeconds (t div ucast stepSeconds))
          [- max 0 (sint window)..max 0 (sint window)] of
        None \<Rightarrow> if sint window = INT_MAX then None else Some (False, lst)
      | Some k \<Rightarrow> Some (verdict lst (stepAt (t div ucast stepSeconds) k)))"
proof -
  have span: "(if sint window < 0 then 0 else sint window) = max 0 (sint window)" by simp
  have top: "max 0 (sint window) \<le> INT_MAX" using sint_lt [of window] by (simp add: INT_MAX_def)
  then have "- INT_MAX \<le> - max 0 (sint window)" by simp
  note scan = totpScan_first [OF assms _ _ _ this top, of digits stepSeconds code "t div ucast stepSeconds" lst]
  have last: "(max 0 (sint window) = INT_MAX \<and> - max 0 (sint window) \<le> max 0 (sint window)) \<longleftrightarrow>
      sint window = INT_MAX"
    by (auto simp: INT_MAX_def max_def split: if_splits)
  show ?thesis
  proof (cases "secretLen = 0 \<or> stepSeconds = 0 \<or> digitsModulus digits = 0")
    case False
    then show ?thesis
      using scan unfolding Totp_verify_def Let_def span last by simp
  qed (auto simp: Totp_verify_def)
qed

lemma find_None_all: "find P xs = None \<longleftrightarrow> (\<forall>x \<in> set xs. \<not> P x)"
  by (induction xs) auto

lemma find_Some_fits: "find P xs = Some x \<Longrightarrow> P x \<and> x \<in> set xs"
  by (induction xs) (auto split: if_splits)

text \<open>With the greatest window the offset is counted past its range, unless some step fits.\<close>

lemma Totp_verify_overflow:
  assumes "length (block1 junk) = 64" "secretLen \<le> length key" "0 < secretLen" "stepSeconds \<noteq> 0"
    "digitsModulus digits \<noteq> 0" "sint window = INT_MAX"
    "\<And>k n. windowStep (t div ucast stepSeconds) INT_MAX k n \<Longrightarrow> stepCode (take secretLen key) digits stepSeconds n \<noteq> code"
  shows "Totp_verify junk (Some key) secretLen code t digits stepSeconds window lst = None"
proof -
  have w: "max 0 (sint window) = INT_MAX" using assms(6) by (simp add: INT_MAX_def)
  have "\<not> codeFits (take secretLen key) code digits stepSeconds (t div ucast stepSeconds) k"
    if "- INT_MAX \<le> k" "k \<le> INT_MAX" for k
    using stepAt_window [OF that] assms(7) by (auto simp: codeFits_def)
  then have "find (codeFits (take secretLen key) code digits stepSeconds (t div ucast stepSeconds)) [- INT_MAX..INT_MAX] = None"
    unfolding find_None_all set_upto by auto
  then show ?thesis
    unfolding Totp_verify_first [OF assms(1,2)] w using assms(3-6) by simp
qed

text \<open>
C30: verification returns, unless the window is the greatest \<open>int\<close> and the offset is counted past it.  It accepts a
code only for a step of the window, never one before the first step, whose code it is and that lies after the
last accepted step; that step becomes the last accepted step, and the same call right after it is refused.  A
refusal leaves the last accepted step alone, and with usable parameters it means that no step of
the window has the code, or that one that is not after the last accepted step has it.
\<close>

theorem Totp_verify_refuses_replay:
  assumes "length (block1 junk) = 64" "secretLen \<le> length key"
  shows "case Totp_verify junk (Some key) secretLen code t digits stepSeconds window (Some l) of
      None \<Rightarrow> sint window = INT_MAX
    | Some (ok, l') \<Rightarrow>
        (if ok then \<exists>n. l' = Some n \<and> l < n \<and>
            (\<exists>k. windowStep (t div ucast stepSeconds) (max 0 (sint window)) k n) \<and>
            stepCode (take secretLen key) digits stepSeconds n = code \<and>
            Totp_verify junk (Some key) secretLen code t digits stepSeconds window (Some n) = Some (False, Some n)
         else l' = Some l \<and>
           (secretLen = 0 \<or> stepSeconds = 0 \<or> digitsModulus digits = 0 \<or>
            (\<forall>k n. windowStep (t div ucast stepSeconds) (max 0 (sint window)) k n \<longrightarrow>
               stepCode (take secretLen key) digits stepSeconds n \<noteq> code) \<or>
            (\<exists>k n. windowStep (t div ucast stepSeconds) (max 0 (sint window)) k n \<and>
               stepCode (take secretLen key) digits stepSeconds n = code \<and> n \<le> l)))"
proof -
  let ?s = "t div ucast stepSeconds" and ?w = "max 0 (sint window)"
  let ?fits = "codeFits (take secretLen key) code digits stepSeconds ?s"
  let ?bad = "secretLen = 0 \<or> stepSeconds = 0 \<or> digitsModulus digits = 0"
  note first = Totp_verify_first [OF assms, of code t digits stepSeconds window]
  show ?thesis
  proof (cases ?bad)
    case True
    then show ?thesis unfolding first if_P [OF True] by auto
  next
    case good: False
    show ?thesis
    proof (cases "find ?fits [- ?w..?w]")
      case None
      then have "\<not> ?fits k" if "- ?w \<le> k" "k \<le> ?w" for k
        using that unfolding find_None_all set_upto by auto
      then have "stepCode (take secretLen key) digits stepSeconds n \<noteq> code" if "windowStep ?s ?w k n" for k n
        using that stepAt_window [of ?w k ?s n] by (auto simp: codeFits_def windowStep_def)
      then show ?thesis unfolding first if_not_P [OF good] None by auto
    next
      case (Some k)
      have fits: "?fits k" and inside: "- ?w \<le> k" "k \<le> ?w"
        using find_Some_fits [OF Some] unfolding set_upto atLeastAtMost_iff by blast+
      have step: "windowStep ?s ?w k (stepAt ?s k)" "stepCode (take secretLen key) digits stepSeconds (stepAt ?s k) = code"
        using fits stepAt_window [OF inside] by (auto simp: codeFits_def)
      have verify: "Totp_verify junk (Some key) secretLen code t digits stepSeconds window (Some x) =
          Some (if stepAt ?s k \<le> x then (False, Some x) else (True, Some (stepAt ?s k)))" for x
        unfolding first if_not_P [OF good] Some by (simp add: verdict_def)
      show ?thesis
      proof (cases "stepAt ?s k \<le> l")
        case True
        then show ?thesis using step unfolding verify by auto
      next
        case False
        then show ?thesis using step unfolding verify by (auto simp: not_le)
      qed
    qed
  qed
qed

text \<open>The code of the third step of thirty seconds, presented in that step with the step before last
  as the last accepted one: accepted once.\<close>

definition sampleContext :: CryptoSha1 where
  "sampleContext = \<lparr>state1 = [], total1 = 5, block1 = replicate 64 9, used1 = 80\<rparr>"

theorem Totp_verify_refuses_replay_witness:
  "\<exists>n. Totp_verify sampleContext (Some [1, 2, 3]) 3 (hotp [1, 2, 3] 3 6) 90 6 30 1 (Some 1) = Some (True, Some n) \<and>
    1 < n \<and>
    Totp_verify sampleContext (Some [1, 2, 3]) 3 (hotp [1, 2, 3] 3 6) 90 6 30 1 (Some n) = Some (False, Some n)"
proof -
  let ?code = "hotp [1, 2, 3] 3 6"
  let ?r = "Totp_verify sampleContext (Some [1, 2, 3]) 3 ?code 90 6 30 1 (Some 1)"
  have params: "length (block1 sampleContext) = 64" "(90 :: u64) div ucast (30 :: u32) = 3" "max 0 (sint (1 :: 32 word)) = 1"
    "sint (1 :: 32 word) \<noteq> INT_MAX" "digitsModulus 6 \<noteq> 0" "take 3 [1, 2, 3 :: u8] = [1, 2, 3]"
    by (simp_all add: sampleContext_def INT_MAX_def digitsModulus_def)
  have here: "windowStep 3 1 0 3" "stepCode [1, 2, 3] 6 30 3 = ?code"
    by (simp_all add: windowStep_def stepCode_def)
  have late: "\<not> n \<le> 1" if "windowStep 3 1 k n" for k n
    using that by (auto simp: windowStep_def word_le_def)
  note claim = Totp_verify_refuses_replay [where junk = sampleContext and secretLen = 3 and key = "[1, 2, 3]"
      and code = ?code and t = 90 and digits = 6 and stepSeconds = 30 and window = 1 and l = 1]
  show ?thesis
  proof (cases ?r)
    case None
    then show ?thesis using claim params by simp
  next
    case (Some p)
    then obtain okay l' where p: "?r = Some (okay, l')" by (cases p) simp
    have okay
    proof (rule ccontr)
      assume "\<not> okay"
      then show False using claim params here late unfolding p by auto
    qed
    then show ?thesis using claim params unfolding p by auto
  qed
qed

end
