(* ===== verification/ChaCha20.thy ===== *)
theory ChaCha20
  imports Digest
begin

text \<open>
  \<open>src/security/chacha20.c\<close>: the block function and the stream cipher built on it.  The state is a
  list of sixteen words, a pointer that may be null is an option.  The local block of the cipher is
  uninitialised and fully written before it is read; it starts with zeros here.
\<close>

section \<open>The operations\<close>

definition load32 :: "u8 list \<Rightarrow> nat \<Rightarrow> u32" where
  "load32 p k = ucast (p ! k) OR push_bit 8 (ucast (p ! (k + 1))) OR
    push_bit 16 (ucast (p ! (k + 2))) OR push_bit 24 (ucast (p ! (k + 3)))"

definition store32 :: "u8 list \<Rightarrow> nat \<Rightarrow> u32 \<Rightarrow> u8 list" where
  "store32 p k v = p[k := ucast v, k + 1 := ucast (drop_bit 8 v), k + 2 := ucast (drop_bit 16 v),
    k + 3 := ucast (drop_bit 24 v)]"

definition rotl32 :: "u32 \<Rightarrow> nat \<Rightarrow> u32" where
  "rotl32 v bits = push_bit bits v OR drop_bit (32 - bits) v"

definition quarterRound :: "nat \<Rightarrow> nat \<Rightarrow> nat \<Rightarrow> nat \<Rightarrow> u32 list \<Rightarrow> u32 list" where
  "quarterRound a b c d s =
    (let s = s[a := s ! a + s ! b];
         s = s[d := s ! d XOR s ! a];
         s = s[d := rotl32 (s ! d) 16];
         s = s[c := s ! c + s ! d];
         s = s[b := s ! b XOR s ! c];
         s = s[b := rotl32 (s ! b) 12];
         s = s[a := s ! a + s ! b];
         s = s[d := s ! d XOR s ! a];
         s = s[d := rotl32 (s ! d) 8];
         s = s[c := s ! c + s ! d];
         s = s[b := s ! b XOR s ! c]
     in s[b := rotl32 (s ! b) 7])"

text \<open>The input words of a block: the four constants, the key, the counter and the nonce.\<close>

definition chachaState :: "u8 list \<Rightarrow> u32 \<Rightarrow> u8 list \<Rightarrow> u32 list" where
  "chachaState key cnt nonce =
    (let s = (replicate 16 0)[0 := 0x61707865, 1 := 0x3320646e, 2 := 0x79622d32, 3 := 0x6b206574];
         s = fold (\<lambda>i s. s[4 + i := load32 key (4 * i)]) [0..<8] s;
         s = s[12 := cnt]
     in fold (\<lambda>i s. s[13 + i := load32 nonce (4 * i)]) [0..<3] s)"

definition doubleRound :: "u32 list \<Rightarrow> u32 list" where
  "doubleRound w =
    (let w = quarterRound 0 4 8 12 w;
         w = quarterRound 1 5 9 13 w;
         w = quarterRound 2 6 10 14 w;
         w = quarterRound 3 7 11 15 w;
         w = quarterRound 0 5 10 15 w;
         w = quarterRound 1 6 11 12 w;
         w = quarterRound 2 7 8 13 w
     in quarterRound 3 4 9 14 w)"

definition ChaCha20_block ::
  "u8 list option \<Rightarrow> u8 list option \<Rightarrow> u32 \<Rightarrow> u8 list option \<Rightarrow> u8 list option"
where
  "ChaCha20_block out key cnt nonce =
    (if out = None \<or> key = None \<or> nonce = None then out
     else
       let st = chachaState (the key) cnt (the nonce);
           working = fold (\<lambda>_ w. doubleRound w) [0..<10] st
       in Some (fold (\<lambda>i o'. store32 o' (4 * i) (working ! i + st ! i)) [0..<16] (the out)))"

function xorLoop ::
  "u8 list \<Rightarrow> nat \<Rightarrow> u8 list option \<Rightarrow> u32 \<Rightarrow> u8 list option \<Rightarrow> u8 list option \<Rightarrow> nat \<Rightarrow> u8 list"
where
  "xorLoop bytes len key cnt nonce block offset =
    (if offset < len then
       let block1 = ChaCha20_block block key cnt nonce;
           n = (if len - offset < 64 then len - offset else 64);
           bytes1 = fold (\<lambda>i d. d[offset + i := d ! (offset + i) XOR the block1 ! i]) [0..<n] bytes
       in xorLoop bytes1 len key (cnt + 1) nonce block1 (offset + n)
     else bytes)"
  by pat_completeness auto
termination by (relation "measure (\<lambda>(bytes, len, key, cnt, nonce, block, offset). len - offset)") auto

declare xorLoop.simps [simp del]

definition ChaCha20_xor ::
  "u8 list option \<Rightarrow> nat \<Rightarrow> u8 list option \<Rightarrow> u32 \<Rightarrow> u8 list option \<Rightarrow> u8 list option"
where
  "ChaCha20_xor bytes len key cnt nonce =
    (if len = 0 \<or> bytes = None \<or> key = None \<or> nonce = None then bytes
     else Some (xorLoop (the bytes) len key cnt nonce (Some (replicate 64 0)) 0))"

section \<open>The block\<close>

text \<open>The key stream of a key and a nonce: block by block, the counter one up for each.\<close>

definition chachaBlock :: "u8 list \<Rightarrow> u32 \<Rightarrow> u8 list \<Rightarrow> u8 list" where
  "chachaBlock key cnt nonce =
    (let st = chachaState key cnt nonce; working = (doubleRound ^^ 10) st
     in concat (map (\<lambda>i. le_write 4 (working ! i + st ! i)) [0..<16]))"

definition chachaStream :: "u8 list \<Rightarrow> u32 \<Rightarrow> u8 list \<Rightarrow> nat \<Rightarrow> u8" where
  "chachaStream key cnt nonce i = chachaBlock key (cnt + of_nat (i div 64)) nonce ! (i mod 64)"

lemma le_write_4:
  "le_write 4 (v :: u32) = [ucast v, ucast (drop_bit 8 v), ucast (drop_bit 16 v), ucast (drop_bit 24 v)]"
  by (simp add: numeral_eq_Suc drop_bit_drop_bit)

lemma stored_words:
  "4 * n \<le> length out \<Longrightarrow>
   fold (\<lambda>i o'. store32 o' (4 * i) (f i)) [0..<n] out =
     concat (map (\<lambda>i. le_write 4 (f i)) [0..<n]) @ drop (4 * n) out"
proof (induction n)
  case (Suc n)
  let ?d = "concat (map (\<lambda>i. le_write 4 (f i)) [0..<n])"
  have len: "length ?d = 4 * n" by (induction n) simp_all
  have room: "4 \<le> length (drop (4 * n) out)" using Suc.prems by simp
  have "fold (\<lambda>i o'. store32 o' (4 * i) (f i)) [0..<Suc n] out = store32 (?d @ drop (4 * n) out) (4 * n) (f n)"
    using Suc by simp
  also have "\<dots> = (?d @ le_write 4 (f n)) @ drop 4 (drop (4 * n) out)"
    unfolding store32_def le_write_4 [of "f n"] by (rule write_word [OF len room])
  finally show ?case by (simp add: add.commute)
qed simp

lemma length_chachaBlock [simp]: "length (chachaBlock key cnt nonce) = 64"
  by (simp add: chachaBlock_def Let_def length_concat comp_def sum_list_triv)

lemma fold_repeat: "fold (\<lambda>_. f) [0..<n] x = (f ^^ n) x"
  by (induction n) simp_all

lemma ChaCha20_block_eq:
  "64 \<le> length out \<Longrightarrow>
   ChaCha20_block (Some out) (Some key) cnt (Some nonce) = Some (chachaBlock key cnt nonce @ drop 64 out)"
  by (simp add: ChaCha20_block_def chachaBlock_def Let_def stored_words fold_repeat)

section \<open>The cipher\<close>

lemma length_xor_run [simp]: "length (fold (\<lambda>i d. d[f i := g d i]) is d) = length d"
  by (induction "is" arbitrary: d) simp_all

lemma xor_run_nth:
  "k < length d \<Longrightarrow>
   fold (\<lambda>i d. d[off + i := d ! (off + i) XOR b ! i]) [0..<n] d ! k =
     (if off \<le> k \<and> k < off + n then d ! k XOR b ! (k - off) else d ! k)"
proof (induction n)
  case (Suc n)
  then show ?case by (cases "k = off + n") auto
qed auto

lemma xorLoop_stream:
  assumes "len \<le> length d" "length b = 64"
  shows "length (xorLoop d len (Some key) cnt (Some nonce) (Some b) off) = length d \<and>
    (\<forall>k < length d. xorLoop d len (Some key) cnt (Some nonce) (Some b) off ! k =
      (if off \<le> k \<and> k < len then d ! k XOR chachaStream key cnt nonce (k - off) else d ! k))"
  using assms
proof (induction "len - off" arbitrary: d b cnt off rule: less_induct)
  case less
  show ?case
  proof (cases "off < len")
    case False
    then show ?thesis by (subst (1 2) xorLoop.simps) auto
  next
    case True
    define n where "n = (if len - off < 64 then len - off else 64)"
    have n: "0 < n" "n \<le> 64" "off + n \<le> len" "n = 64 \<or> off + n = len" using True by (auto simp: n_def)
    let ?b = "chachaBlock key cnt nonce"
    let ?d = "fold (\<lambda>i d. d[off + i := d ! (off + i) XOR ?b ! i]) [0..<n] d"
    have step: "xorLoop d len (Some key) cnt (Some nonce) (Some b) off =
        xorLoop ?d len (Some key) (cnt + 1) (Some nonce) (Some ?b) (off + n)"
      using True less.prems(2)
      by (subst xorLoop.simps) (simp add: n_def [symmetric] Let_def ChaCha20_block_eq)
    have IH: "length (xorLoop ?d len (Some key) (cnt + 1) (Some nonce) (Some ?b) (off + n)) = length d \<and>
      (\<forall>k < length d. xorLoop ?d len (Some key) (cnt + 1) (Some nonce) (Some ?b) (off + n) ! k =
        (if off + n \<le> k \<and> k < len then ?d ! k XOR chachaStream key (cnt + 1) nonce (k - (off + n))
         else ?d ! k))"
      using less.hyps [of "off + n" ?d ?b "cnt + 1"] True n(1) less.prems(1) by simp
    have here: "?b ! (k - off) = chachaStream key cnt nonce (k - off)" if "k - off < 64" for k
      using that by (simp add: chachaStream_def)
    have later: "chachaStream key (cnt + 1) nonce (k - (off + 64)) = chachaStream key cnt nonce (k - off)"
      if "off + 64 \<le> k" for k
    proof -
      have "k - off = 64 + (k - (off + 64))" using that by simp
      then have "(k - off) div 64 = Suc ((k - (off + 64)) div 64)" "(k - off) mod 64 = (k - (off + 64)) mod 64"
        by (simp_all only: div_add_self1 mod_add_self1)
      then show ?thesis by (simp add: chachaStream_def ac_simps)
    qed
    have "xorLoop ?d len (Some key) (cnt + 1) (Some nonce) (Some ?b) (off + n) ! k =
        (if off \<le> k \<and> k < len then d ! k XOR chachaStream key cnt nonce (k - off) else d ! k)"
      if "k < length d" for k
    proof (cases "off + n \<le> k \<and> k < len")
      case rest: True
      then have "n = 64" "off + 64 \<le> k" using n(4) by auto
      moreover have "?d ! k = d ! k" using rest that by (subst xor_run_nth) auto
      ultimately show ?thesis using IH that rest later [of k] by simp
    next
      case False
      then have "off \<le> k \<and> k < len \<longleftrightarrow> off \<le> k \<and> k < off + n" using n(3) by auto
      moreover have "k - off < 64" if "k < off + n" using that n(2) by auto
      moreover have "xorLoop ?d len (Some key) (cnt + 1) (Some nonce) (Some ?b) (off + n) ! k = ?d ! k"
        using IH that False by presburger
      moreover have "?d ! k = (if off \<le> k \<and> k < off + n then d ! k XOR ?b ! (k - off) else d ! k)"
        by (rule xor_run_nth [OF that])
      ultimately show ?thesis using here [of k] by (cases "off \<le> k \<and> k < off + n") auto
    qed
    then show ?thesis using IH unfolding step by simp
  qed
qed

text \<open>
C31: the cipher adds to the bytes the key stream of its key and nonce, one block for each value of
the counter, and touches nothing after the length given; applied twice with the same key, counter
and nonce it gives the bytes back.
\<close>

theorem ChaCha20_xor_roundtrip:
  assumes "len \<le> length d"
  shows "ChaCha20_xor (Some d) len (Some key) cnt (Some nonce) =
      Some (map (\<lambda>i. d ! i XOR chachaStream key cnt nonce i) [0..<len] @ drop len d) \<and>
    ChaCha20_xor (ChaCha20_xor (Some d) len (Some key) cnt (Some nonce)) len (Some key) cnt (Some nonce) =
      Some d"
proof -
  have enc: "ChaCha20_xor (Some e) len (Some key) cnt (Some nonce) =
      Some (map (\<lambda>i. e ! i XOR chachaStream key cnt nonce i) [0..<len] @ drop len e)"
    if "len \<le> length e" for e
  proof (cases "len = 0")
    case False
    have "xorLoop e len (Some key) cnt (Some nonce) (Some (replicate 64 0)) 0 =
        map (\<lambda>i. e ! i XOR chachaStream key cnt nonce i) [0..<len] @ drop len e"
      using xorLoop_stream [OF that, of "replicate 64 0" key cnt nonce 0] that
      by (intro nth_equalityI) (auto simp: nth_append)
    then show ?thesis using False by (simp add: ChaCha20_xor_def)
  qed (simp add: ChaCha20_xor_def)
  have restored: "map (\<lambda>i. (map (\<lambda>i. d ! i XOR chachaStream key cnt nonce i) [0..<len] @ drop len d) ! i XOR
      chachaStream key cnt nonce i) [0..<len] = take len d"
    using assms by (intro nth_equalityI) (simp_all add: nth_append xor.assoc)
  show ?thesis using enc [OF assms] assms restored by (simp add: enc)
qed

theorem ChaCha20_xor_roundtrip_witness:
  "ChaCha20_xor (ChaCha20_xor (Some [1, 2, 3]) 2 (Some (replicate 32 5)) 7 (Some (replicate 12 0))) 2
    (Some (replicate 32 5)) 7 (Some (replicate 12 0)) = Some [1, 2, 3]"
  by (rule conjunct2 [OF ChaCha20_xor_roundtrip [of 2 "[1, 2, 3]" "replicate 32 5" 7 "replicate 12 0"]])
    simp

end
