(* ===== verification/Sparse_Set.thy ===== *)
theory Sparse_Set
  imports Memory
begin

text \<open>
  \<open>src/struct/sparseset.c\<close>: entity numbers mapped to a packed index, with a block of component bytes
  per entry.  The 32-bit fields are integers, the arrays of integers lists of them; a returned
  pointer is an offset into the component block, or the sentinel that stands for presence without
  data.
\<close>

section \<open>The operations\<close>

record SparseSet =
  ss_capacity :: int
  ss_maxEntities :: int
  ss_count :: int
  ss_stride :: int
  ss_dense :: "int list"
  ss_sparse :: "int list"
  ss_data :: "u8 list option"
  ss_exhaustionCount :: u64
  ss_exhaustionReported :: bool

datatype place = Data nat | Sentinel

text \<open>The conversion of a size to a 32-bit integer.\<close>

definition toInt32 :: "nat \<Rightarrow> int" where
  "toInt32 n = sint (word_of_nat n :: u32)"

definition allocateInts :: "nat \<Rightarrow> World \<Rightarrow> int list option \<times> World" where
  "allocateInts n w =
    (let (block, w1) = Memory_bytes (wrap64 (n * 4)) w
     in (map_option (\<lambda>bs. map (\<lambda>i. sint (le_read (mem_read bs (4 * i) 4) :: u32)) [0..<n]) block, w1))"

definition SparseSet_3 :: "nat \<Rightarrow> nat \<Rightarrow> nat \<Rightarrow> World \<Rightarrow> SparseSet option \<times> World" where
  "SparseSet_3 capacity maxEntities stride w =
    (let (granted, w1) = Memory_object w
     in if \<not> granted then (None, snd (Struct_reportConstructionExhaustion w1))
        else
          let (dense, w2) = allocateInts capacity w1
          in case dense of None \<Rightarrow> (None, snd (Struct_reportConstructionExhaustion w2))
          | Some dn \<Rightarrow>
            let (sparse, w3) = allocateInts maxEntities w2
            in case sparse of None \<Rightarrow> (None, snd (Struct_reportConstructionExhaustion w3))
            | Some sp \<Rightarrow>
              let ss = \<lparr>ss_capacity = toInt32 capacity, ss_maxEntities = toInt32 maxEntities, ss_count = 0,
                    ss_stride = toInt32 stride, ss_dense = dn,
                    ss_sparse = fold (\<lambda>i s. s[i := - 1]) [0..<maxEntities] sp, ss_data = None,
                    ss_exhaustionCount = 0, ss_exhaustionReported = False\<rparr>
              in if 0 < stride then
                   let (d, w4) = Memory_bytes (wrap64 (capacity * stride)) w3
                   in case d of None \<Rightarrow> (None, snd (Struct_reportConstructionExhaustion w4))
                   | Some bs \<Rightarrow> (Some (ss\<lparr>ss_data := Some bs\<rparr>), w4)
                 else (Some ss, w3))"

definition SparseSet_count :: "SparseSet option \<Rightarrow> nat" where
  "SparseSet_count ss = (case ss of None \<Rightarrow> 0 | Some s \<Rightarrow> nat (ss_count s))"

definition SparseSet_exhaustionCount :: "SparseSet option \<Rightarrow> u64" where
  "SparseSet_exhaustionCount ss = Struct_exhaustionCount (map_option ss_exhaustionCount ss)"

definition SparseSet_capacity :: "SparseSet option \<Rightarrow> nat" where
  "SparseSet_capacity ss = (case ss of None \<Rightarrow> 0 | Some s \<Rightarrow> nat (ss_capacity s))"

definition SparseSet_maxEntities :: "SparseSet option \<Rightarrow> nat" where
  "SparseSet_maxEntities ss = (case ss of None \<Rightarrow> 0 | Some s \<Rightarrow> nat (ss_maxEntities s))"

definition SparseSet_contains :: "SparseSet option \<Rightarrow> int \<Rightarrow> bool" where
  "SparseSet_contains ss entityId =
    (case ss of None \<Rightarrow> False
     | Some s \<Rightarrow>
       if entityId < 0 \<or> ss_maxEntities s \<le> entityId then False
       else ss_sparse s ! nat entityId \<noteq> - 1)"

text \<open>The address of a component.\<close>

definition placeAt :: "SparseSet \<Rightarrow> int \<Rightarrow> place option" where
  "placeAt s i =
    (if 0 < ss_stride s then Some (Data (nat i * nat (ss_stride s)))
     else map_option (\<lambda>_. Data 0) (ss_data s))"

definition SparseSet_add :: "SparseSet option \<Rightarrow> int \<Rightarrow> place option \<times> SparseSet option" where
  "SparseSet_add ss entityId =
    (case ss of None \<Rightarrow> (None, None)
     | Some s \<Rightarrow>
       if entityId < 0 \<or> ss_maxEntities s \<le> entityId then (None, ss)
       else
         let denseIndex = ss_sparse s ! nat entityId
         in if denseIndex \<noteq> - 1 then (placeAt s denseIndex, ss)
            else if ss_capacity s \<le> ss_count s then
              let (n, r) = the (snd (Struct_reportExhaustion
                    (Some (ss_exhaustionCount s, ss_exhaustionReported s))))
              in (None, Some (s\<lparr>ss_exhaustionCount := n, ss_exhaustionReported := r\<rparr>))
            else
              let cnt = ss_count s;
                  s1 = s\<lparr>ss_dense := (ss_dense s)[nat cnt := entityId],
                    ss_sparse := (ss_sparse s)[nat entityId := cnt], ss_count := cnt + 1\<rparr>
              in (placeAt s1 cnt, Some s1))"

definition SparseSet_remove :: "SparseSet option \<Rightarrow> int \<Rightarrow> SparseSet option" where
  "SparseSet_remove ss entityId =
    (case ss of None \<Rightarrow> None
     | Some s \<Rightarrow>
       if entityId < 0 \<or> ss_maxEntities s \<le> entityId then ss
       else
         let denseIndex = ss_sparse s ! nat entityId
         in if denseIndex = - 1 then ss
            else
              let cnt = ss_count s - 1;
                  lastEntity = ss_dense s ! nat cnt;
                  s1 = (if denseIndex \<noteq> cnt then
                      let s2 = s\<lparr>ss_dense := (ss_dense s)[nat denseIndex := lastEntity],
                            ss_sparse := (ss_sparse s)[nat lastEntity := denseIndex]\<rparr>
                      in if 0 < ss_stride s2 then
                           s2\<lparr>ss_data := map_option (\<lambda>d. memcpy d (nat denseIndex * nat (ss_stride s))
                             d (nat cnt * nat (ss_stride s)) (nat (ss_stride s))) (ss_data s2)\<rparr>
                         else s2
                    else s)
              in Some (s1\<lparr>ss_sparse := (ss_sparse s1)[nat entityId := - 1], ss_count := cnt\<rparr>))"

definition SparseSet_get :: "SparseSet option \<Rightarrow> int \<Rightarrow> place option" where
  "SparseSet_get ss entityId =
    (case ss of None \<Rightarrow> None
     | Some s \<Rightarrow>
       if entityId < 0 \<or> ss_maxEntities s \<le> entityId then None
       else
         let denseIndex = ss_sparse s ! nat entityId
         in if denseIndex = - 1 then None
            else if ss_stride s = 0 then Some Sentinel
            else Some (Data (nat denseIndex * nat (ss_stride s))))"

definition SparseSet_denseEntities :: "SparseSet option \<Rightarrow> int list option" where
  "SparseSet_denseEntities ss = map_option ss_dense ss"

definition SparseSet_denseData :: "SparseSet option \<Rightarrow> u8 list option" where
  "SparseSet_denseData ss = Option.bind ss ss_data"

section \<open>The map a set stands for\<close>

definition ssWf :: "SparseSet \<Rightarrow> bool" where
  "ssWf s \<longleftrightarrow> 0 \<le> ss_count s \<and> ss_count s \<le> ss_capacity s \<and> int (length (ss_dense s)) = ss_capacity s \<and>
    int (length (ss_sparse s)) = ss_maxEntities s \<and> 0 \<le> ss_stride s \<and>
    (\<forall>e. 0 \<le> e \<and> e < ss_maxEntities s \<longrightarrow> ss_sparse s ! nat e = - 1 \<or>
      0 \<le> ss_sparse s ! nat e \<and> ss_sparse s ! nat e < ss_count s \<and> ss_dense s ! nat (ss_sparse s ! nat e) = e) \<and>
    (\<forall>i. 0 \<le> i \<and> i < ss_count s \<longrightarrow> 0 \<le> ss_dense s ! nat i \<and> ss_dense s ! nat i < ss_maxEntities s \<and>
      ss_sparse s ! nat (ss_dense s ! nat i) = i) \<and>
    (if ss_stride s = 0 then ss_data s = None
     else \<exists>d. ss_data s = Some d \<and> length d = length (ss_dense s) * nat (ss_stride s))"

text \<open>The bytes of a packed index, and the component of an entity: absent, or its bytes.\<close>

definition slotBytes :: "SparseSet \<Rightarrow> int \<Rightarrow> u8 list" where
  "slotBytes s i = (case ss_data s of None \<Rightarrow> []
     | Some d \<Rightarrow> mem_read d (nat i * nat (ss_stride s)) (nat (ss_stride s)))"

definition components :: "SparseSet \<Rightarrow> int \<Rightarrow> u8 list option" where
  "components s e =
    (if SparseSet_contains (Some s) e then Some (slotBytes s (ss_sparse s ! nat e)) else None)"

text \<open>What a caller writes through a returned pointer.\<close>

definition storeAt :: "place option \<Rightarrow> u8 list \<Rightarrow> SparseSet option \<Rightarrow> SparseSet option" where
  "storeAt p bs ss =
    (case p of Some (Data off) \<Rightarrow> map_option (\<lambda>s. s\<lparr>ss_data := map_option (\<lambda>d. mem_write d off bs) (ss_data s)\<rparr>) ss
     | _ \<Rightarrow> ss)"

section \<open>Invariant\<close>

lemma contains_iff:
  "SparseSet_contains (Some s) e \<longleftrightarrow> 0 \<le> e \<and> e < ss_maxEntities s \<and> ss_sparse s ! nat e \<noteq> - 1"
  by (auto simp: SparseSet_contains_def)

lemma ssWf_bounds:
  assumes "ssWf s"
  shows "0 \<le> ss_count s" "ss_count s \<le> ss_capacity s" "int (length (ss_dense s)) = ss_capacity s"
    "int (length (ss_sparse s)) = ss_maxEntities s" "0 \<le> ss_stride s"
  using assms by (simp_all add: ssWf_def)

lemma ssWf_index:
  assumes "ssWf s" "SparseSet_contains (Some s) e"
  shows "0 \<le> ss_sparse s ! nat e" "ss_sparse s ! nat e < ss_count s" "ss_dense s ! nat (ss_sparse s ! nat e) = e"
  using assms by (auto simp: ssWf_def contains_iff)

lemma ssWf_entity:
  assumes "ssWf s" "0 \<le> i" "i < ss_count s"
  shows "0 \<le> ss_dense s ! nat i" "ss_dense s ! nat i < ss_maxEntities s" "ss_sparse s ! nat (ss_dense s ! nat i) = i"
    "SparseSet_contains (Some s) (ss_dense s ! nat i)"
  using assms by (auto simp: ssWf_def contains_iff)

lemma ssWf_data:
  assumes "ssWf s"
  obtains "ss_stride s = 0" "ss_data s = None"
  | d where "0 < ss_stride s" "ss_data s = Some d" "length d = length (ss_dense s) * nat (ss_stride s)"
  using assms by (auto simp: ssWf_def split: if_splits)

lemma ssWf_set_only: "ssWf s \<Longrightarrow> ss_stride s = 0 \<Longrightarrow> ss_data s = None"
  by (simp add: ssWf_def)

lemma slot_in:
  "i < n \<Longrightarrow> length d = n * st \<Longrightarrow> i * st + st \<le> length (d :: u8 list)"
  by (metis Suc_leI add.commute mult_Suc mult_le_mono1)

lemma slots_disjoint: "i \<noteq> j \<Longrightarrow> i * st + st \<le> j * st \<or> j * st + st \<le> i * (st :: nat)"
  by (metis Suc_leI add.commute linorder_neqE_nat mult_Suc mult_le_mono1)

lemma ssWf_index_inj:
  assumes "ssWf s" "SparseSet_contains (Some s) e" "SparseSet_contains (Some s) x" "e \<noteq> x"
  shows "ss_sparse s ! nat e \<noteq> ss_sparse s ! nat x"
  using ssWf_index(3) [OF assms(1,2)] ssWf_index(3) [OF assms(1,3)] assms(4) by metis

lemma nat_neq: "0 \<le> a \<Longrightarrow> 0 \<le> b \<Longrightarrow> a \<noteq> b \<Longrightarrow> nat a \<noteq> nat b"
  by auto

section \<open>Additions\<close>

lemma SparseSet_add_new:
  assumes "ssWf s" "0 \<le> e" "e < ss_maxEntities s" "\<not> SparseSet_contains (Some s) e"
    "ss_count s < ss_capacity s"
  shows "\<exists>s'. SparseSet_add (Some s) e = (placeAt s (ss_count s), Some s') \<and> ssWf s' \<and>
    ss_sparse s' ! nat e = ss_count s \<and> ss_stride s' = ss_stride s \<and> ss_capacity s' = ss_capacity s \<and>
    ss_maxEntities s' = ss_maxEntities s \<and> ss_count s' = ss_count s + 1 \<and> SparseSet_contains (Some s') e \<and>
    (\<forall>x. x \<noteq> e \<longrightarrow> components s' x = components s x)"
proof -
  let ?s = "s\<lparr>ss_dense := (ss_dense s)[nat (ss_count s) := e], ss_sparse := (ss_sparse s)[nat e := ss_count s],
      ss_count := ss_count s + 1\<rparr>"
  note b = ssWf_bounds [OF assms(1)]
  have absent: "ss_sparse s ! nat e = - 1" using assms(2,3,4) by (simp add: contains_iff)
  have add: "SparseSet_add (Some s) e = (placeAt s (ss_count s), Some ?s)"
    using assms(2,3,5) absent by (simp add: SparseSet_add_def placeAt_def Let_def)
  have sp: "ss_sparse ?s ! nat x = (if x = e then ss_count s else ss_sparse s ! nat x)"
    if "0 \<le> x" "x < ss_maxEntities s" for x
    using that assms(2,3) b(4) by (auto simp: nth_list_update)
  have dn: "ss_dense ?s ! nat i = (if i = ss_count s then e else ss_dense s ! nat i)"
    if "0 \<le> i" "i \<le> ss_count s" for i
    using that b assms(5) by (auto simp: nth_list_update)
  have wf: "ssWf ?s"
    unfolding ssWf_def
  proof (intro conjI allI impI)
    fix x assume x: "0 \<le> x \<and> x < ss_maxEntities ?s"
    show "ss_sparse ?s ! nat x = - 1 \<or> 0 \<le> ss_sparse ?s ! nat x \<and> ss_sparse ?s ! nat x < ss_count ?s \<and>
        ss_dense ?s ! nat (ss_sparse ?s ! nat x) = x"
    proof (cases "x = e \<or> ss_sparse s ! nat x = - 1")
      case True
      then show ?thesis using x sp [of x] dn [of "ss_count s"] b(1) by auto
    next
      case False
      then have "SparseSet_contains (Some s) x" using x by (simp add: contains_iff)
      from ssWf_index [OF assms(1) this] show ?thesis
        using False x sp [of x] dn [of "ss_sparse s ! nat x"] by auto
    qed
  next
    fix i assume i: "0 \<le> i \<and> i < ss_count ?s"
    have "0 \<le> ss_dense ?s ! nat i \<and> ss_dense ?s ! nat i < ss_maxEntities ?s \<and>
        ss_sparse ?s ! nat (ss_dense ?s ! nat i) = i"
    proof (cases "i = ss_count s")
      case True
      then show ?thesis using dn [of i] sp [of e] assms(2,3) b(1) by simp
    next
      case False
      then have old: "0 \<le> i" "i < ss_count s" "ss_dense ?s ! nat i = ss_dense s ! nat i"
        using i dn [of i] by auto
      note here = ssWf_entity [OF assms(1) old(1,2)]
      moreover have "ss_dense s ! nat i \<noteq> e" using here(4) assms(4) by auto
      ultimately show ?thesis using old(3) sp [of "ss_dense s ! nat i"] by simp
    qed
    then show "0 \<le> ss_dense ?s ! nat i" "ss_dense ?s ! nat i < ss_maxEntities ?s"
      "ss_sparse ?s ! nat (ss_dense ?s ! nat i) = i"
      by blast+
  qed (use assms b in \<open>auto simp: ssWf_def\<close>)
  have cont: "SparseSet_contains (Some ?s) x \<longleftrightarrow> x = e \<or> SparseSet_contains (Some s) x" for x
    using sp [of x] assms(2,3) b(1) by (auto simp: contains_iff split: if_splits simp del: nth_list_update)
  have "components ?s x = components s x" if "x \<noteq> e" for x
    using that sp [of x]
    by (auto simp: components_def cont slotBytes_def contains_iff simp del: nth_list_update split: option.splits)
  then show ?thesis
    using add wf cont sp [of e] assms(2,3) by (intro exI [of _ ?s]) (auto simp del: nth_list_update)
qed

lemma SparseSet_add_refused:
  assumes "ssWf s" "e < 0 \<or> ss_maxEntities s \<le> e \<or>
    \<not> SparseSet_contains (Some s) e \<and> ss_capacity s \<le> ss_count s"
  shows "\<exists>n r. SparseSet_add (Some s) e =
    (None, Some (s\<lparr>ss_exhaustionCount := n, ss_exhaustionReported := r\<rparr>))"
proof (cases "e < 0 \<or> ss_maxEntities s \<le> e")
  case True
  then show ?thesis
    by (intro exI [of _ "ss_exhaustionCount s"] exI [of _ "ss_exhaustionReported s"])
      (simp add: SparseSet_add_def)
next
  case False
  then show ?thesis using assms(2) by (auto simp: SparseSet_add_def contains_iff)
qed

lemma SparseSet_add_present:
  "SparseSet_contains (Some s) e \<Longrightarrow>
   SparseSet_add (Some s) e = (placeAt s (ss_sparse s ! nat e), Some s)"
  by (auto simp: SparseSet_add_def contains_iff)

lemma SparseSet_wf_counters [simp]:
  "ssWf (s\<lparr>ss_exhaustionCount := n, ss_exhaustionReported := r\<rparr>) \<longleftrightarrow> ssWf s"
  "components (s\<lparr>ss_exhaustionCount := n, ss_exhaustionReported := r\<rparr>) = components s"
  by (auto simp: ssWf_def components_def slotBytes_def contains_iff fun_eq_iff split: option.splits)

section \<open>Writes through the returned pointer\<close>

lemma storeAt_component:
  assumes "ssWf s" "SparseSet_contains (Some s) e" "length bs = nat (ss_stride s)"
  shows "\<exists>s'. storeAt (placeAt s (ss_sparse s ! nat e)) bs (Some s) = Some s' \<and> ssWf s' \<and>
    components s' = (components s)(e \<mapsto> bs) \<and> ss_stride s' = ss_stride s \<and> ss_capacity s' = ss_capacity s \<and>
    ss_maxEntities s' = ss_maxEntities s \<and> ss_count s' = ss_count s"
proof (cases rule: ssWf_data [OF assms(1)])
  case 1
  then have "components s = (components s)(e \<mapsto> bs)"
    using assms(2,3) by (auto simp: components_def slotBytes_def fun_eq_iff)
  then show ?thesis using 1 assms(1) by (simp add: storeAt_def placeAt_def)
next
  case (2 d)
  let ?st = "nat (ss_stride s)" and ?i = "nat (ss_sparse s ! nat e)"
  let ?s = "s\<lparr>ss_data := Some (mem_write d (?i * ?st) bs)\<rparr>"
  note b = ssWf_bounds [OF assms(1)]
  have slot: "nat (ss_sparse s ! nat x) * ?st + ?st \<le> length d" if "SparseSet_contains (Some s) x" for x
    using ssWf_index [OF assms(1) that] b(2,3) 2(3) by (intro slot_in [of _ "length (ss_dense s)"]) auto
  have "components ?s x = ((components s)(e \<mapsto> bs)) x" for x
  proof (cases "SparseSet_contains (Some s) x \<and> x \<noteq> e")
    case True
    let ?j = "nat (ss_sparse s ! nat x)"
    have "?i \<noteq> ?j"
      using ssWf_index_inj [OF assms(1,2), of x] ssWf_index(1) [OF assms(1)] assms(2) True by (intro nat_neq) auto
    then have "mem_read (mem_write d (?i * ?st) bs) (?j * ?st) ?st = mem_read d (?j * ?st) ?st"
      using slots_disjoint [of ?j ?i ?st] slot [OF assms(2)] slot [of x] True assms(3)
      by (intro mem_read_write_apart) auto
    then show ?thesis using True 2(2) by (simp add: components_def slotBytes_def contains_iff)
  next
    case False
    then show ?thesis
      using assms(2,3) 2(2) slot [OF assms(2)] mem_read_write_same [of "?i * ?st" bs d]
      by (auto simp: components_def slotBytes_def contains_iff)
  qed
  moreover have "ssWf ?s" using assms(1,3) 2 slot [OF assms(2)] by (simp add: ssWf_def)
  ultimately show ?thesis
    using 2 by (intro exI [of _ ?s]) (auto simp: storeAt_def placeAt_def fun_eq_iff)
qed

section \<open>Removal\<close>

text \<open>What a removal writes: the last entry moves into the gap, with its bytes.\<close>

lemma SparseSet_remove_writes:
  assumes "ssWf s" "SparseSet_contains (Some s) e"
  defines "i \<equiv> ss_sparse s ! nat e" and "k \<equiv> ss_count s - 1"
  shows "\<exists>s'. SparseSet_remove (Some s) e = Some s' \<and> ss_count s' = k \<and> ss_capacity s' = ss_capacity s \<and>
    ss_maxEntities s' = ss_maxEntities s \<and> ss_stride s' = ss_stride s \<and>
    length (ss_dense s') = length (ss_dense s) \<and> length (ss_sparse s') = length (ss_sparse s) \<and>
    (\<forall>x. 0 \<le> x \<and> x < ss_maxEntities s \<longrightarrow> ss_sparse s' ! nat x =
      (if x = e then - 1 else if x = ss_dense s ! nat k then i else ss_sparse s ! nat x)) \<and>
    (\<forall>j. 0 \<le> j \<and> j < k \<longrightarrow> ss_dense s' ! nat j = (if j = i then ss_dense s ! nat k else ss_dense s ! nat j) \<and>
      slotBytes s' j = (if j = i then slotBytes s k else slotBytes s j)) \<and>
    (if ss_stride s = 0 then ss_data s' = None
     else \<exists>d. ss_data s' = Some d \<and> length d = length (ss_dense s) * nat (ss_stride s))"
proof -
  note b = ssWf_bounds [OF assms(1)] and idx = ssWf_index [OF assms(1,2), folded i_def]
  have e: "0 \<le> e" "e < ss_maxEntities s" "i \<noteq> - 1" using assms(2) by (simp_all add: contains_iff i_def)
  have k: "0 \<le> k" "k < ss_count s" "i \<le> k" using idx by (simp_all add: k_def)
  note lst = ssWf_entity [OF assms(1) k(1,2)]
  show ?thesis
  proof (cases "i = k")
    case True
    then have "ss_dense s ! nat k = e" using idx(3) by simp
    moreover have "SparseSet_remove (Some s) e =
        Some (s\<lparr>ss_sparse := (ss_sparse s)[nat e := - 1], ss_count := k\<rparr>)"
      using e True by (simp add: SparseSet_remove_def i_def k_def Let_def)
    moreover have "if ss_stride s = 0 then ss_data s = None
        else \<exists>d. ss_data s = Some d \<and> length d = length (ss_dense s) * nat (ss_stride s)"
      using assms(1) by (simp add: ssWf_def)
    ultimately show ?thesis
      using e b(4) True by (auto simp: slotBytes_def nth_list_update split: option.splits)
  next
    case False
    let ?st = "nat (ss_stride s)" and ?l = "ss_dense s ! nat k"
    define dat where "dat = (if 0 < ss_stride s
      then map_option (\<lambda>d. memcpy d (nat i * ?st) d (nat k * ?st) ?st) (ss_data s) else ss_data s)"
    let ?s = "s\<lparr>ss_dense := (ss_dense s)[nat i := ?l], ss_sparse := (ss_sparse s)[nat ?l := i, nat e := - 1],
        ss_data := dat, ss_count := k\<rparr>"
    have remove: "SparseSet_remove (Some s) e = Some ?s"
      using e False by (simp add: SparseSet_remove_def i_def [symmetric] k_def [symmetric] Let_def dat_def)
    have dat: "(if ss_stride s = 0 then dat = None
        else \<exists>d. dat = Some d \<and> length d = length (ss_dense s) * ?st) \<and>
      (\<forall>j. 0 \<le> j \<and> j < k \<longrightarrow> slotBytes ?s j = (if j = i then slotBytes s k else slotBytes s j))"
    proof (cases rule: ssWf_data [OF assms(1)])
      case 1
      then show ?thesis by (simp add: dat_def slotBytes_def)
    next
      case (2 d)
      have slot: "nat j * ?st + ?st \<le> length d" if "0 \<le> j" "j \<le> k" for j
        using that k b(2,3) 2(3) by (intro slot_in [of _ "length (ss_dense s)"]) auto
      have len: "length (memcpy d (nat i * ?st) d (nat k * ?st) ?st) = length d"
        using slot [of i] slot [of k] idx(1) k by simp
      have "mem_read (memcpy d (nat i * ?st) d (nat k * ?st) ?st) (nat j * ?st) ?st =
          (if j = i then mem_read d (nat k * ?st) ?st else mem_read d (nat j * ?st) ?st)"
        if "0 \<le> j" "j < k" for j
      proof (cases "j = i")
        case True
        then show ?thesis using slot [of i] slot [of k] idx(1) k by (simp add: mem_read_memcpy_in)
      next
        case False
        then show ?thesis
          using slot [of i] slot [of k] slot [of j] slots_disjoint [of "nat j" "nat i" ?st]
            nat_neq [of j i] that idx(1) k
          by (subst mem_read_memcpy_apart) auto
      qed
      then show ?thesis using 2 len by (simp add: dat_def slotBytes_def)
    qed
    have sp: "ss_sparse ?s ! nat x = (if x = e then - 1 else if x = ?l then i else ss_sparse s ! nat x)"
      if "0 \<le> x" "x < ss_maxEntities s" for x
      using that e(1,2) lst(1,2) b(4) by (auto simp: nth_list_update)
    have dn: "ss_dense ?s ! nat j = (if j = i then ?l else ss_dense s ! nat j)" if "0 \<le> j" "j < k" for j
      using that idx(1) b(2,3) k by (auto simp: nth_list_update)
    show ?thesis
      using remove dat sp dn by (intro exI [of _ ?s]) (simp del: nth_list_update)
  qed
qed

lemma SparseSet_remove_present:
  assumes "ssWf s" "SparseSet_contains (Some s) e"
  shows "\<exists>s'. SparseSet_remove (Some s) e = Some s' \<and> ssWf s' \<and> components s' = (components s)(e := None) \<and>
    ss_stride s' = ss_stride s \<and> ss_capacity s' = ss_capacity s \<and> ss_maxEntities s' = ss_maxEntities s \<and>
    ss_count s' = ss_count s - 1"
proof -
  define i k where "i = ss_sparse s ! nat e" and "k = ss_count s - 1"
  obtain s' where s': "SparseSet_remove (Some s) e = Some s'" "ss_count s' = k"
      "ss_capacity s' = ss_capacity s" "ss_maxEntities s' = ss_maxEntities s" "ss_stride s' = ss_stride s"
      "length (ss_dense s') = length (ss_dense s)" "length (ss_sparse s') = length (ss_sparse s)"
    and sp: "\<And>x. 0 \<le> x \<Longrightarrow> x < ss_maxEntities s \<Longrightarrow> ss_sparse s' ! nat x =
      (if x = e then - 1 else if x = ss_dense s ! nat k then i else ss_sparse s ! nat x)"
    and dn: "\<And>j. 0 \<le> j \<Longrightarrow> j < k \<Longrightarrow>
      ss_dense s' ! nat j = (if j = i then ss_dense s ! nat k else ss_dense s ! nat j)"
    and bytes: "\<And>j. 0 \<le> j \<Longrightarrow> j < k \<Longrightarrow> slotBytes s' j = (if j = i then slotBytes s k else slotBytes s j)"
    and dat: "if ss_stride s = 0 then ss_data s' = None
      else \<exists>d. ss_data s' = Some d \<and> length d = length (ss_dense s) * nat (ss_stride s)"
    using SparseSet_remove_writes [OF assms, folded i_def k_def] by blast
  note b = ssWf_bounds [OF assms(1)] and idx = ssWf_index [OF assms, folded i_def]
  have e: "0 \<le> e" "e < ss_maxEntities s" using assms(2) by (simp_all add: contains_iff)
  have k: "0 \<le> k" "k < ss_count s" "i \<le> k" using idx by (simp_all add: k_def)
  note lst = ssWf_entity [OF assms(1) k(1,2)]
  text \<open>An entity other than the removed one keeps an index below the new count.\<close>
  have kept: "0 \<le> ss_sparse s' ! nat x \<and> ss_sparse s' ! nat x < k \<and> ss_dense s' ! nat (ss_sparse s' ! nat x) = x \<and>
      slotBytes s' (ss_sparse s' ! nat x) = slotBytes s (ss_sparse s ! nat x)"
    if x: "SparseSet_contains (Some s) x" "x \<noteq> e" for x
  proof -
    note xi = ssWf_index [OF assms(1) x(1)]
    have ne: "ss_sparse s ! nat x \<noteq> i"
      using ssWf_index_inj [OF assms x(1)] x(2) unfolding i_def by auto
    have range: "0 \<le> x" "x < ss_maxEntities s" using x(1) by (simp_all add: contains_iff)
    show ?thesis
    proof (cases "x = ss_dense s ! nat k")
      case True
      then have "ss_sparse s ! nat x = k" using lst(3) by simp
      then show ?thesis
        using True ne k idx(1) range x(2) sp [of x] dn [of i] bytes [of i] by simp
    next
      case False
      then have "ss_sparse s ! nat x \<noteq> k" using xi(3) by auto
      then show ?thesis
        using False ne range x(2) xi sp [of x] dn [of "ss_sparse s ! nat x"] bytes [of "ss_sparse s ! nat x"]
        by (simp add: k_def)
    qed
  qed
  have cont: "SparseSet_contains (Some s') x \<longleftrightarrow> x \<noteq> e \<and> SparseSet_contains (Some s) x" for x
    using sp [of x] kept [of x] lst(4) idx(1) s'(4) by (auto simp: contains_iff split: if_splits)
  have "components s' x = ((components s)(e := None)) x" for x
    using cont [of x] kept [of x] by (auto simp: components_def)
  moreover have "ssWf s'"
    unfolding ssWf_def
  proof (intro conjI allI impI)
    fix x assume "0 \<le> x \<and> x < ss_maxEntities s'"
    then show "ss_sparse s' ! nat x = - 1 \<or> 0 \<le> ss_sparse s' ! nat x \<and> ss_sparse s' ! nat x < ss_count s' \<and>
        ss_dense s' ! nat (ss_sparse s' ! nat x) = x"
      using cont [of x] kept [of x] s'(2) by (auto simp: contains_iff)
  next
    fix j assume "0 \<le> j \<and> j < ss_count s'"
    then have j: "0 \<le> j" "j < k" using s'(2) by simp_all
    have "0 \<le> ss_dense s' ! nat j \<and> ss_dense s' ! nat j < ss_maxEntities s' \<and>
        ss_sparse s' ! nat (ss_dense s' ! nat j) = j"
    proof (cases "j = i")
      case True
      then have "ss_dense s ! nat k \<noteq> e" using lst(3) j(2) i_def by auto
      then show ?thesis using True dn [OF j] sp [OF lst(1,2)] lst(1,2) s'(4) by simp
    next
      case False
      have "j < ss_count s" using j k by simp
      note here = ssWf_entity [OF assms(1) j(1) this]
      have "ss_dense s ! nat j \<noteq> e" using here(3) False i_def by auto
      moreover have "ss_dense s ! nat j \<noteq> ss_dense s ! nat k" using here(3) lst(3) j(2) by auto
      ultimately show ?thesis using False dn [OF j] sp [OF here(1,2)] here s'(4) by simp
    qed
    then show "0 \<le> ss_dense s' ! nat j" "ss_dense s' ! nat j < ss_maxEntities s'"
      "ss_sparse s' ! nat (ss_dense s' ! nat j) = j"
      by blast+
  qed (use assms(1) b s' dat k in \<open>auto simp: ssWf_def\<close>)
  ultimately show ?thesis using s' by (auto simp: k_def fun_eq_iff)
qed

section \<open>Scripts\<close>

text \<open>The calls of an entity system: attach a component (the bytes go through the returned pointer,
  if there is one) or detach it.\<close>

datatype SparseOp = Attach int "u8 list" | Detach int

fun SparseSet_do :: "SparseOp \<Rightarrow> SparseSet option \<Rightarrow> SparseSet option" where
  "SparseSet_do (Attach e bs) ss = (let (p, ss1) = SparseSet_add ss e in storeAt p bs ss1)"
| "SparseSet_do (Detach e) ss = SparseSet_remove ss e"

text \<open>The same calls on a finite map with room for \<open>cap\<close> entities below \<open>bound\<close>.\<close>

fun mapDo :: "int \<Rightarrow> int \<Rightarrow> SparseOp \<Rightarrow> (int \<rightharpoonup> u8 list) \<Rightarrow> (int \<rightharpoonup> u8 list)" where
  "mapDo cap bound (Attach e bs) m =
    (if 0 \<le> e \<and> e < bound \<and> (e \<in> dom m \<or> int (card (dom m)) < cap) then m(e \<mapsto> bs) else m)"
| "mapDo cap bound (Detach e) m = m(e := None)"

lemma members:
  assumes "ssWf s"
  shows "dom (components s) = set (take (nat (ss_count s)) (ss_dense s))"
    "distinct (take (nat (ss_count s)) (ss_dense s))" "int (card (dom (components s))) = ss_count s"
proof -
  note b = ssWf_bounds [OF assms]
  let ?n = "nat (ss_count s)"
  have len: "length (take ?n (ss_dense s)) = ?n" using b by simp
  show dom: "dom (components s) = set (take ?n (ss_dense s))"
  proof (intro equalityI subsetI)
    fix e assume "e \<in> dom (components s)"
    then have "SparseSet_contains (Some s) e" by (auto simp: components_def split: if_splits)
    from ssWf_index [OF assms this] b show "e \<in> set (take ?n (ss_dense s))"
      by (auto simp: in_set_conv_nth intro!: exI [of _ "nat (ss_sparse s ! nat e)"])
  next
    fix e assume "e \<in> set (take ?n (ss_dense s))"
    then obtain j where "j < ?n" "e = ss_dense s ! j" by (auto simp: in_set_conv_nth)
    then show "e \<in> dom (components s)"
      using ssWf_entity(4) [OF assms, of "int j"] by (simp add: components_def domIff)
  qed
  show dist: "distinct (take ?n (ss_dense s))"
    unfolding distinct_conv_nth
  proof (intro allI impI)
    fix j k assume jk: "j < length (take ?n (ss_dense s))" "k < length (take ?n (ss_dense s))" "j \<noteq> k"
    then have "int j < ss_count s" "int k < ss_count s" by (simp_all add: zless_nat_eq_int_zless)
    with jk show "take ?n (ss_dense s) ! j \<noteq> take ?n (ss_dense s) ! k"
      using ssWf_entity(3) [OF assms, of "int j"] ssWf_entity(3) [OF assms, of "int k"] by auto
  qed
  show "int (card (dom (components s))) = ss_count s"
    using distinct_card [OF dist] len b(1) unfolding dom by simp
qed

lemma contains_dom: "SparseSet_contains (Some s) e \<longleftrightarrow> e \<in> dom (components s)"
  by (auto simp: components_def split: if_splits)

text \<open>The arguments of a call fit the set: a component has the bytes the set has room for.\<close>

definition opFits :: "nat \<Rightarrow> SparseOp \<Rightarrow> bool" where
  "opFits st oper \<longleftrightarrow> (case oper of Attach e bs \<Rightarrow> length bs = st | Detach e \<Rightarrow> True)"

lemma SparseSet_do_simulates:
  assumes "ssWf s" "opFits (nat (ss_stride s)) oper"
  shows "\<exists>s'. SparseSet_do oper (Some s) = Some s' \<and> ssWf s' \<and> ss_stride s' = ss_stride s \<and>
    ss_capacity s' = ss_capacity s \<and> ss_maxEntities s' = ss_maxEntities s \<and>
    components s' = mapDo (ss_capacity s) (ss_maxEntities s) oper (components s)"
proof (cases oper)
  case (Detach e)
  show ?thesis
  proof (cases "SparseSet_contains (Some s) e")
    case True
    then show ?thesis using SparseSet_remove_present [OF assms(1)] Detach by fastforce
  next
    case False
    moreover from this have "components s e = None" by (simp add: components_def)
    ultimately show ?thesis
      using assms(1) Detach by (auto simp: SparseSet_remove_def contains_iff fun_upd_idem Let_def)
  qed
next
  case (Attach e bs)
  have bs: "length bs = nat (ss_stride s)" using assms(2) Attach by (simp add: opFits_def)
  consider (present) "SparseSet_contains (Some s) e"
    | (fresh) "0 \<le> e" "e < ss_maxEntities s" "\<not> SparseSet_contains (Some s) e" "ss_count s < ss_capacity s"
    | (refused) "e < 0 \<or> ss_maxEntities s \<le> e \<or>
        \<not> SparseSet_contains (Some s) e \<and> ss_capacity s \<le> ss_count s" "\<not> SparseSet_contains (Some s) e"
    by (cases "SparseSet_contains (Some s) e"; cases "ss_count s < ss_capacity s"; cases "0 \<le> e";
        cases "e < ss_maxEntities s") auto
  then show ?thesis
  proof cases
    case present
    then have "0 \<le> e" "e < ss_maxEntities s" "e \<in> dom (components s)"
      by (simp_all add: contains_iff flip: contains_dom)
    then show ?thesis
      using storeAt_component [OF assms(1) present bs] SparseSet_add_present [OF present] Attach by auto
  next
    case fresh
    obtain s1 where s1: "SparseSet_add (Some s) e = (placeAt s (ss_count s), Some s1)" "ssWf s1"
        "ss_sparse s1 ! nat e = ss_count s" "ss_stride s1 = ss_stride s" "ss_capacity s1 = ss_capacity s"
        "ss_maxEntities s1 = ss_maxEntities s" "SparseSet_contains (Some s1) e"
        "\<forall>x. x \<noteq> e \<longrightarrow> components s1 x = components s x"
      using SparseSet_add_new [OF assms(1) fresh] by blast
    have "placeAt s (ss_count s) = placeAt s1 (ss_sparse s1 ! nat e)"
      using s1(3,4) ssWf_set_only [OF assms(1)] ssWf_set_only [OF s1(2)] ssWf_bounds(5) [OF assms(1)]
      by (cases "ss_stride s = 0") (simp_all add: placeAt_def)
    moreover obtain s2 where s2: "storeAt (placeAt s1 (ss_sparse s1 ! nat e)) bs (Some s1) = Some s2" "ssWf s2"
        "components s2 = (components s1)(e \<mapsto> bs)" "ss_stride s2 = ss_stride s1" "ss_capacity s2 = ss_capacity s1"
        "ss_maxEntities s2 = ss_maxEntities s1"
      using storeAt_component [OF s1(2,7), of bs] bs s1(4) by auto
    moreover have "components s2 = (components s)(e \<mapsto> bs)" using s2(3) s1(8) by auto
    moreover have "int (card (dom (components s))) < ss_capacity s" using members(3) [OF assms(1)] fresh(4) by simp
    ultimately show ?thesis using Attach s1 fresh(1,2) by simp
  next
    case refused
    then obtain n r where "SparseSet_add (Some s) e =
        (None, Some (s\<lparr>ss_exhaustionCount := n, ss_exhaustionReported := r\<rparr>))"
      using SparseSet_add_refused [OF assms(1)] by blast
    moreover have "\<not> (0 \<le> e \<and> e < ss_maxEntities s \<and>
        (e \<in> dom (components s) \<or> int (card (dom (components s))) < ss_capacity s))"
      using refused members(3) [OF assms(1)] by (auto simp: contains_dom [symmetric])
    ultimately show ?thesis using assms(1) Attach by (auto simp: storeAt_def)
  qed
qed

lemma SparseSet_script:
  assumes "ssWf s" "list_all (opFits (nat (ss_stride s))) ops"
  shows "\<exists>s'. fold SparseSet_do ops (Some s) = Some s' \<and> ssWf s' \<and>
    components s' = fold (mapDo (ss_capacity s) (ss_maxEntities s)) ops (components s)"
  using assms
proof (induction ops arbitrary: s)
  case (Cons oper ops)
  then obtain s1 where "SparseSet_do oper (Some s) = Some s1" "ssWf s1" "ss_stride s1 = ss_stride s"
    "ss_capacity s1 = ss_capacity s" "ss_maxEntities s1 = ss_maxEntities s"
    "components s1 = mapDo (ss_capacity s) (ss_maxEntities s) oper (components s)"
    using SparseSet_do_simulates [of s oper] by auto
  then show ?case using Cons.IH [of s1] Cons.prems(2) by simp
qed auto

section \<open>A new set\<close>

lemma fold_absent: "n \<le> length xs \<Longrightarrow> fold (\<lambda>i s. s[i := - 1]) [0..<n] xs = replicate n (- 1 :: int) @ drop n xs"
proof (induction n)
  case (Suc n)
  have "drop n xs = xs ! n # drop (Suc n) xs" using Suc.prems by (simp add: Cons_nth_drop_Suc)
  with Suc show ?case by (simp add: list_update_append replicate_append_same)
qed simp

lemma toInt32_small: "n < 2 ^ 31 \<Longrightarrow> toInt32 n = int n"
  by (simp add: toInt32_def signed_of_nat signed_take_bit_int_eq_self)

lemma allocateInts_willing:
  assumes "willing w"
  shows "\<exists>xs w'. allocateInts n w = (Some xs, w') \<and> length xs = n \<and> willing w'"
proof -
  obtain b w' where mem: "Memory_bytes (wrap64 (n * 4)) w = (b, w')" by fastforce
  then obtain bs where "b = Some bs" "willing w'" using Memory_bytes_willing [OF assms] by blast
  then show ?thesis by (simp add: allocateInts_def mem)
qed

lemma SparseSet_3_new:
  assumes "willing w" "capacity < 2 ^ 31" "maxEntities < 2 ^ 31" "stride < 2 ^ 31"
  shows "\<exists>s w'. SparseSet_3 capacity maxEntities stride w = (Some s, w') \<and> ssWf s \<and>
    components s = Map.empty \<and> ss_capacity s = int capacity \<and> ss_maxEntities s = int maxEntities \<and>
    ss_stride s = int stride"
proof -
  obtain g w1 where w1: "Memory_object w = (g, w1)" by fastforce
  then have g: "g" "willing w1" using Memory_object_willing [OF assms(1)] by auto
  obtain dn w2 where w2: "allocateInts capacity w1 = (Some dn, w2)" "length dn = capacity" "willing w2"
    using allocateInts_willing [OF g(2)] by blast
  obtain sp w3 where w3: "allocateInts maxEntities w2 = (Some sp, w3)" "length sp = maxEntities" "willing w3"
    using allocateInts_willing [OF w2(3)] by blast
  have sparse: "fold (\<lambda>i s. s[i := - 1]) [0..<maxEntities] sp = replicate maxEntities (- 1)"
    using fold_absent [of maxEntities sp] w3(2) by simp
  have "capacity * stride < 2 ^ 31 * 2 ^ 31" using assms(2,4) by (intro mult_strict_mono) simp_all
  then have room: "wrap64 (capacity * stride) = capacity * stride" by simp
  show ?thesis
  proof (cases "0 < stride")
    case False
    then show ?thesis
      using w1 g w2 w3 assms
      by (auto simp: SparseSet_3_def sparse toInt32_small ssWf_def components_def contains_iff fun_eq_iff)
  next
    case True
    obtain bs w4 where w4: "Memory_bytes (capacity * stride) w3 = (Some bs, w4)"
      using Memory_bytes_willing [OF w3(3)] by (metis not_None_eq surj_pair)
    then have "length bs = capacity * stride" by (rule Memory_bytes_length)
    then show ?thesis
      using True w1 g w2 w3 w4 assms
      by (auto simp: SparseSet_3_def sparse room toInt32_small ssWf_def components_def contains_iff fun_eq_iff)
  qed
qed

text \<open>
C32: a new set, driven by any script of attachments and detachments, holds the components a finite
map with the same room holds after it: an attachment is refused only out of range or on a full set,
a removal moves the last entry without disturbing any other component.
\<close>

theorem SparseSet_script_refines:
  assumes "willing w" "capacity < 2 ^ 31" "maxEntities < 2 ^ 31" "stride < 2 ^ 31"
    and "list_all (opFits stride) ops"
  shows "\<exists>s. fold SparseSet_do ops (fst (SparseSet_3 capacity maxEntities stride w)) = Some s \<and>
    components s = fold (mapDo (int capacity) (int maxEntities)) ops Map.empty \<and>
    dom (components s) = set (take (SparseSet_count (Some s)) (ss_dense s)) \<and>
    distinct (take (SparseSet_count (Some s)) (ss_dense s))"
proof -
  obtain s w' where s: "SparseSet_3 capacity maxEntities stride w = (Some s, w')" "ssWf s"
    "components s = Map.empty" "ss_capacity s = int capacity" "ss_maxEntities s = int maxEntities"
    "ss_stride s = int stride"
    using SparseSet_3_new [OF assms(1-4)] by blast
  with SparseSet_script [OF s(2), of ops] assms(5) obtain s' where
    "fold SparseSet_do ops (Some s) = Some s'" "ssWf s'"
    "components s' = fold (mapDo (int capacity) (int maxEntities)) ops Map.empty"
    by auto
  with members [of s'] s(1) show ?thesis by (simp add: SparseSet_count_def)
qed

theorem SparseSet_script_refines_witness:
  "\<exists>s. fold SparseSet_do [Attach 3 [7, 8], Attach 1 [5, 6], Detach 3] (fst (SparseSet_3 2 4 2
      \<lparr>answers = [], s_constructionCount = 0, s_constructionReported = False, MASK_CLASS = 0\<rparr>)) = Some s \<and>
    components s = [1 \<mapsto> [5, 6]]"
proof -
  let ?w = "\<lparr>answers = [], s_constructionCount = 0, s_constructionReported = False, MASK_CLASS = 0\<rparr>"
  have "list_all (opFits 2) [Attach 3 [7, 8], Attach 1 [5, 6], Detach 3]" by (simp add: opFits_def)
  moreover have "willing ?w" by (simp add: willing_def)
  ultimately obtain s where "fold SparseSet_do [Attach 3 [7, 8], Attach 1 [5, 6], Detach 3] (fst (SparseSet_3 2 4 2 ?w)) = Some s"
    "components s = fold (mapDo (int 2) (int 4)) [Attach 3 [7, 8], Attach 1 [5, 6], Detach 3] Map.empty"
    using SparseSet_script_refines [of ?w 2 4 2 "[Attach 3 [7, 8], Attach 1 [5, 6], Detach 3]"] by auto
  then show ?thesis by (auto simp: fun_eq_iff)
qed

end
