(* ===== verification/Min_Heap.thy ===== *)
theory Min_Heap
  imports Sparse_Set Ranges "HOL-Library.Multiset"
begin

text \<open>
  \<open>src/struct/minheap.c\<close>: a priority queue over pairs of an item and a priority, in two arrays
  counted from one.  The priorities are floats of which only the order is used: they are the
  elements of any linear order (a NaN is outside it), and what an uninitialised block holds is read
  by a parameter.
\<close>

section \<open>The operations\<close>

record 'p MinHeap =
  mh_size :: int
  mh_capacity :: int
  mh_items :: "int list"
  mh_priorities :: "'p list"
  mh_exhaustionCount :: u64
  mh_exhaustionReported :: bool

text \<open>The loop of \<open>sift_up\<close> carries the item and the priority; the hole moves to the parent.\<close>

function upLoop :: "int \<Rightarrow> 'p::linorder \<Rightarrow> int list \<Rightarrow> 'p list \<Rightarrow> nat \<Rightarrow> int list \<times> 'p list" where
  "upLoop item prio items prios index =
    (if 1 < index then
       let parent = index div 2;
           parentPrio = prios ! parent
       in if parentPrio \<le> prio then (items[index := item], prios[index := prio])
          else upLoop item prio (items[index := items ! parent]) (prios[index := parentPrio]) parent
     else (items[index := item], prios[index := prio]))"
  by pat_completeness auto
termination by (relation "measure (\<lambda>(item, prio, items, prios, index). index)") auto

declare upLoop.simps [simp del]

definition sift_up :: "('p::linorder) MinHeap \<Rightarrow> nat \<Rightarrow> 'p MinHeap" where
  "sift_up h index =
    (let (items, prios) = upLoop (mh_items h ! index) (mh_priorities h ! index) (mh_items h) (mh_priorities h) index
     in h\<lparr>mh_items := items, mh_priorities := prios\<rparr>)"

definition bestChild :: "('p::linorder) list \<Rightarrow> nat \<Rightarrow> nat \<Rightarrow> nat" where
  "bestChild prios n index =
    (let left = index * 2;
         right = left + 1
     in if right \<le> n \<and> prios ! right < prios ! left then right else left)"

function downLoop :: "int \<Rightarrow> 'p::linorder \<Rightarrow> nat \<Rightarrow> int list \<Rightarrow> 'p list \<Rightarrow> nat \<Rightarrow> int list \<times> 'p list" where
  "downLoop item prio n items prios index =
    (if 0 < index \<and> index \<le> n div 2 then
       let best = bestChild prios n index;
           bestPrio = prios ! best
       in if prio \<le> bestPrio then (items[index := item], prios[index := prio])
          else downLoop item prio n (items[index := items ! best]) (prios[index := bestPrio]) best
     else (items[index := item], prios[index := prio]))"
  by pat_completeness auto
termination
  by (relation "measure (\<lambda>(item, prio, n, items, prios, index). 2 * n + 2 - index)")
    (auto simp: bestChild_def Let_def)

declare downLoop.simps [simp del]

definition sift_down :: "('p::linorder) MinHeap \<Rightarrow> nat \<Rightarrow> 'p MinHeap" where
  "sift_down h index =
    (let (items, prios) = downLoop (mh_items h ! index) (mh_priorities h ! index) (nat (mh_size h))
           (mh_items h) (mh_priorities h) index
     in h\<lparr>mh_items := items, mh_priorities := prios\<rparr>)"

definition MinHeap_1 :: "(u8 list \<Rightarrow> 'p) \<Rightarrow> nat \<Rightarrow> World \<Rightarrow> 'p MinHeap option \<times> World" where
  "MinHeap_1 readFloat capacity w =
    (let slots = wrap64 (capacity + 1);
         (granted, w1) = Memory_object w
     in if \<not> granted then (None, snd (Struct_reportConstructionExhaustion w1))
        else
          let (items, w2) = allocateInts slots w1;
              (block, w3) = Memory_bytes (wrap64 (slots * 4)) w2
          in case (items, block) of
               (Some is, Some bs) \<Rightarrow>
                 (Some \<lparr>mh_size = 0, mh_capacity = toInt32 capacity, mh_items = is,
                    mh_priorities = map (\<lambda>i. readFloat (mem_read bs (4 * i) 4)) [0..<slots],
                    mh_exhaustionCount = 0, mh_exhaustionReported = False\<rparr>, w3)
             | _ \<Rightarrow> (None, w3))"

definition MinHeap_0 :: "(u8 list \<Rightarrow> 'p) \<Rightarrow> World \<Rightarrow> 'p MinHeap option \<times> World" where
  "MinHeap_0 readFloat w = MinHeap_1 readFloat 16 w"

definition MinHeap_size :: "'p MinHeap option \<Rightarrow> nat" where
  "MinHeap_size heap = (case heap of None \<Rightarrow> 0 | Some h \<Rightarrow> nat (mh_size h))"

definition MinHeap_capacity :: "'p MinHeap option \<Rightarrow> nat" where
  "MinHeap_capacity heap = (case heap of None \<Rightarrow> 0 | Some h \<Rightarrow> nat (mh_capacity h))"

definition MinHeap_isEmpty :: "'p MinHeap option \<Rightarrow> bool" where
  "MinHeap_isEmpty heap \<longleftrightarrow> MinHeap_size heap = 0"

definition MinHeap_exhaustionCount :: "'p MinHeap option \<Rightarrow> u64" where
  "MinHeap_exhaustionCount heap = Struct_exhaustionCount (map_option mh_exhaustionCount heap)"

definition MinHeap_push ::
  "('p::linorder) MinHeap option \<Rightarrow> int \<Rightarrow> 'p \<Rightarrow> int \<times> 'p MinHeap option"
where
  "MinHeap_push heap item priority =
    (case heap of None \<Rightarrow> (0, None)
     | Some h \<Rightarrow>
       if mh_capacity h \<le> mh_size h then
         let (n, r) = the (snd (Struct_reportExhaustion
               (Some (mh_exhaustionCount h, mh_exhaustionReported h))))
         in (0, Some (h\<lparr>mh_exhaustionCount := n, mh_exhaustionReported := r\<rparr>))
       else
         let h1 = h\<lparr>mh_size := mh_size h + 1\<rparr>;
             index = nat (mh_size h1);
             h2 = h1\<lparr>mh_items := (mh_items h1)[index := item], mh_priorities := (mh_priorities h1)[index := priority]\<rparr>
         in (1, Some (sift_up h2 index)))"

definition MinHeap_popItem :: "('p::linorder) MinHeap option \<Rightarrow> int \<times> 'p MinHeap option" where
  "MinHeap_popItem heap =
    (case heap of None \<Rightarrow> (0, None)
     | Some h \<Rightarrow>
       if mh_size h = 0 then (0, heap)
       else
         let result = mh_items h ! 1;
             n = nat (mh_size h);
             h1 = h\<lparr>mh_items := (mh_items h)[1 := mh_items h ! n],
               mh_priorities := (mh_priorities h)[1 := mh_priorities h ! n], mh_size := mh_size h - 1\<rparr>
         in (result, Some (if 0 < mh_size h1 then sift_down h1 1 else h1)))"

definition MinHeap_peekItem :: "('p::linorder) MinHeap option \<Rightarrow> int" where
  "MinHeap_peekItem heap =
    (case heap of None \<Rightarrow> 0 | Some h \<Rightarrow> if mh_size h = 0 then 0 else mh_items h ! 1)"

section \<open>Moving a hole\<close>

text \<open>Both arrays as one list of pairs; \<open>rank\<close> is the priority of a pair.\<close>

abbreviation rank :: "int \<times> 'p \<Rightarrow> 'p" where "rank \<equiv> snd"

function riseTo :: "int \<times> 'p::linorder \<Rightarrow> (int \<times> 'p) list \<Rightarrow> nat \<Rightarrow> (int \<times> 'p) list" where
  "riseTo x cs i =
    (if 1 < i \<and> rank x < rank (cs ! (i div 2)) then riseTo x (cs[i := cs ! (i div 2)]) (i div 2) else cs[i := x])"
  by pat_completeness auto
termination by (relation "measure (\<lambda>(x, cs, i). i)") auto

declare riseTo.simps [simp del]

function sinkTo :: "nat \<Rightarrow> int \<times> 'p::linorder \<Rightarrow> (int \<times> 'p) list \<Rightarrow> nat \<Rightarrow> (int \<times> 'p) list" where
  "sinkTo n x cs i =
    (let b = bestChild (map rank cs) n i
     in if 0 < i \<and> i \<le> n div 2 \<and> rank (cs ! b) < rank x then sinkTo n x (cs[i := cs ! b]) b else cs[i := x])"
  by pat_completeness auto
termination
  by (relation "measure (\<lambda>(n, x, cs, i). 2 * n + 2 - i)") (auto simp: bestChild_def Let_def)

declare sinkTo.simps [simp del]

lemma upLoop_cells:
  "length items = length prios \<Longrightarrow> index < length items \<Longrightarrow>
   case_prod zip (upLoop item prio items prios index) = riseTo (item, prio) (zip items prios) index"
proof (induction item prio items prios index rule: upLoop.induct)
  case (1 item prio items prios index)
  show ?case
  proof (cases "1 < index \<and> prio < prios ! (index div 2)")
    case True
    then have up: "1 < index" "\<not> prios ! (index div 2) \<le> prio" by auto
    have p: "index div 2 < length items" using "1.prems"(2) by simp
    note IH = "1.IH" [OF up(1) refl refl up(2)]
    have "upLoop item prio items prios index =
        upLoop item prio (items[index := items ! (index div 2)]) (prios[index := prios ! (index div 2)]) (index div 2)"
      using up by (subst upLoop.simps) (simp add: Let_def)
    moreover have "riseTo (item, prio) (zip items prios) index =
        riseTo (item, prio) (zip (items[index := items ! (index div 2)]) (prios[index := prios ! (index div 2)]))
          (index div 2)"
      using up p "1.prems" by (subst riseTo.simps) (simp add: update_zip not_le)
    ultimately show ?thesis using IH p "1.prems" by simp
  next
    case False
    moreover have "index div 2 < length items" using "1.prems"(2) by simp
    ultimately show ?thesis
      using "1.prems" by (subst upLoop.simps, subst riseTo.simps) (auto simp: Let_def update_zip not_le)
  qed
qed

lemma bestChild_bounds:
  "0 < i \<Longrightarrow> i \<le> n div 2 \<Longrightarrow> i < bestChild prios n i \<and> bestChild prios n i \<le> n \<and> bestChild prios n i div 2 = i"
  by (auto simp: bestChild_def Let_def)

lemma downLoop_cells:
  "length items = length prios \<Longrightarrow> n < length items \<Longrightarrow> index < length items \<Longrightarrow>
   case_prod zip (downLoop item prio n items prios index) = sinkTo n (item, prio) (zip items prios) index"
proof (induction item prio n items prios index rule: downLoop.induct)
  case (1 item prio n items prios index)
  have ranks: "map rank (zip items prios) = prios" using "1.prems"(1) by simp
  show ?case
  proof (cases "0 < index \<and> index \<le> n div 2")
    case True
    let ?b = "bestChild prios n index"
    have b: "?b < length items" using bestChild_bounds [of index n prios] True "1.prems"(2) by auto
    show ?thesis
    proof (cases "prio \<le> prios ! ?b")
      case False
      note IH = "1.IH" [OF True refl refl False]
      have "downLoop item prio n items prios index =
          downLoop item prio n (items[index := items ! ?b]) (prios[index := prios ! ?b]) ?b"
        using True False by (subst downLoop.simps) (simp add: Let_def)
      moreover have "sinkTo n (item, prio) (zip items prios) index =
          sinkTo n (item, prio) (zip (items[index := items ! ?b]) (prios[index := prios ! ?b])) ?b"
        using True False b ranks "1.prems" by (subst sinkTo.simps) (simp add: Let_def update_zip not_le)
      ultimately show ?thesis using IH b "1.prems" by simp
    next
      case le: True
      then show ?thesis
        using "1.prems" True b ranks
        by (subst downLoop.simps, subst sinkTo.simps) (auto simp: Let_def update_zip)
    qed
  next
    case False
    then show ?thesis
      using "1.prems" ranks by (subst downLoop.simps, subst sinkTo.simps) (auto simp: Let_def update_zip)
  qed
qed

section \<open>The heap order\<close>

definition heapOn :: "nat \<Rightarrow> (int \<times> 'p::linorder) list \<Rightarrow> bool" where
  "heapOn n cs \<longleftrightarrow> (\<forall>j. 2 \<le> j \<and> j \<le> n \<longrightarrow> rank (cs ! (j div 2)) \<le> rank (cs ! j))"

text \<open>The pairs at the positions \<open>1..n\<close>.\<close>

definition entries :: "nat \<Rightarrow> (int \<times> 'p) list \<Rightarrow> (int \<times> 'p) multiset" where
  "entries n cs = mset (take n (drop 1 cs))"

lemma entries_rearranged:
  "rearranged 1 (Suc n) cs cs' \<Longrightarrow> n < length cs \<Longrightarrow> entries n cs' = entries n cs"
  using rearranged_parts(3) [of 1 "Suc n" cs cs'] by (simp add: entries_def)

lemma move_hole:
  "i < length cs \<Longrightarrow> p < length cs \<Longrightarrow> i \<noteq> p \<Longrightarrow> cs[i := cs ! p, p := x] = swapElements (cs[i := x]) i p"
  by (intro nth_equalityI) (auto simp: nth_swapElements nth_list_update)

lemma riseTo_rearranged:
  "1 \<le> i \<Longrightarrow> i \<le> n \<Longrightarrow> n < length cs \<Longrightarrow> rearranged 1 (Suc n) (cs[i := x]) (riseTo x cs i)"
proof (induction x cs i rule: riseTo.induct)
  case (1 x cs i)
  show ?case
  proof (cases "1 < i \<and> rank x < rank (cs ! (i div 2))")
    case True
    let ?p = "i div 2"
    have p: "1 \<le> ?p" "?p < i" using True by auto
    have "rearranged 1 (Suc n) (cs[i := x]) (cs[i := cs ! ?p, ?p := x])"
      using "1.prems" p by (subst move_hole) (auto intro: rearranged_swap)
    also have "rearranged 1 (Suc n) \<dots> (riseTo x (cs[i := cs ! ?p]) ?p)"
      using "1.IH" [OF True] "1.prems" p by simp
    finally show ?thesis using True by (subst riseTo.simps) simp
  next
    case False
    then show ?thesis by (subst riseTo.simps) auto
  qed
qed

text \<open>All of the order but what the hole owes its parent, and the parent already fits below it.\<close>

definition heapBut :: "nat \<Rightarrow> (int \<times> 'p::linorder) list \<Rightarrow> nat \<Rightarrow> bool" where
  "heapBut n h i \<longleftrightarrow> (\<forall>j. 2 \<le> j \<and> j \<le> n \<and> j \<noteq> i \<longrightarrow> rank (h ! (j div 2)) \<le> rank (h ! j)) \<and>
    (1 < i \<longrightarrow> (\<forall>j. 2 \<le> j \<and> j \<le> n \<and> j div 2 = i \<longrightarrow> rank (h ! (i div 2)) \<le> rank (h ! j)))"

lemma riseTo_heap:
  "1 \<le> i \<Longrightarrow> i \<le> n \<Longrightarrow> n < length cs \<Longrightarrow> heapBut n (cs[i := x]) i \<Longrightarrow> heapOn n (riseTo x cs i)"
proof (induction x cs i rule: riseTo.induct)
  case (1 x cs i)
  show ?case
  proof (cases "1 < i \<and> rank x < rank (cs ! (i div 2))")
    case True
    let ?p = "i div 2" and ?h = "cs[i := x]"
    have p: "1 \<le> ?p" "?p < i" using True by auto
    have h: "rank (?h ! (j div 2)) \<le> rank (?h ! j)" if "2 \<le> j" "j \<le> n" "j \<noteq> i" for j
      using "1.prems"(4) that unfolding heapBut_def by blast
    have under: "rank (cs ! ?p) \<le> rank (?h ! j)" if "2 \<le> j" "j \<le> n" "j div 2 = i" for j
    proof -
      have "rank (?h ! ?p) \<le> rank (?h ! j)" using "1.prems"(4) that True unfolding heapBut_def by blast
      then show ?thesis using p by simp
    qed
    let ?g = "cs[i := cs ! ?p, ?p := x]"
    have g: "?g ! k = (if k = i then cs ! ?p else if k = ?p then x else cs ! k)" for k
      using "1.prems"(2,3) p by (cases "k = i"; cases "k = ?p") auto
    have hk: "?h ! k = (if k = i then x else cs ! k)" for k
      using "1.prems"(2,3) by (cases "k = i") auto
    have "heapBut n ?g ?p"
      unfolding heapBut_def
    proof (intro conjI allI impI)
      fix j assume j: "2 \<le> j \<and> j \<le> n \<and> j \<noteq> ?p"
      consider "j = i" | "j \<noteq> i" "j div 2 = i" | "j \<noteq> i" "j div 2 = ?p" | "j \<noteq> i" "j div 2 \<noteq> i" "j div 2 \<noteq> ?p"
        by blast
      then show "rank (?g ! (j div 2)) \<le> rank (?g ! j)"
      proof cases
        case 1
        then show ?thesis using True p by (simp only: g) auto
      next
        case 2
        then show ?thesis using under [of j] j by (simp only: g hk) simp
      next
        case 3
        then show ?thesis using h [of j] j True p by (simp only: g hk) auto
      next
        case 4
        then show ?thesis using h [of j] j by (simp only: g hk) simp
      qed
    next
      fix j assume "1 < ?p" and j: "2 \<le> j \<and> j \<le> n \<and> j div 2 = ?p"
      have up: "rank (cs ! (?p div 2)) \<le> rank (cs ! ?p)"
        using h [of ?p] \<open>1 < ?p\<close> p "1.prems"(2) by (simp only: hk) (auto split: if_splits)
      have "rank (?g ! (?p div 2)) \<le> rank (cs ! ?p)"
        using up \<open>1 < ?p\<close> p by (simp only: g) auto
      also have "rank (cs ! ?p) \<le> rank (?g ! j)"
      proof (cases "j = i")
        case False
        then have "rank (cs ! ?p) \<le> rank (cs ! j)" using h [of j] j p by (simp only: hk) auto
        moreover have "j \<noteq> ?p" using j p by auto
        ultimately show ?thesis using False by (simp only: g) simp
      qed (simp only: g, simp)
      finally show "rank (?g ! (?p div 2)) \<le> rank (?g ! j)" .
    qed
    then have "heapOn n (riseTo x (cs[i := cs ! ?p]) ?p)"
      using "1.IH" [OF True] "1.prems" p by simp
    then show ?thesis using True by (subst riseTo.simps) simp
  next
    case False
    have "rank (cs[i := x] ! (i div 2)) \<le> rank (cs[i := x] ! i)" if "2 \<le> i"
      using False that "1.prems"(2,3) by auto
    then have "heapOn n (cs[i := x])"
      using "1.prems"(4) unfolding heapBut_def heapOn_def by metis
    then show ?thesis using False by (subst riseTo.simps) auto
  qed
qed

lemma bestChild_least:
  assumes "0 < i" "j div 2 = i" "j \<le> n" "n < length cs"
  shows "rank (cs ! bestChild (map rank cs) n i) \<le> rank (cs ! j)"
proof -
  have "j = i * 2 \<or> j = i * 2 + 1" using assms(2) by auto
  then show ?thesis using assms by (auto simp: bestChild_def Let_def not_less)
qed

lemma sinkTo_rearranged:
  "1 \<le> i \<Longrightarrow> i \<le> n \<Longrightarrow> n < length cs \<Longrightarrow> rearranged 1 (Suc n) (cs[i := x]) (sinkTo n x cs i)"
proof (induction n x cs i rule: sinkTo.induct)
  case (1 n x cs i)
  let ?b = "bestChild (map rank cs) n i"
  show ?case
  proof (cases "0 < i \<and> i \<le> n div 2 \<and> rank (cs ! ?b) < rank x")
    case True
    then have b: "i < ?b" "?b \<le> n" using bestChild_bounds [of i n "map rank cs"] by auto
    have "rearranged 1 (Suc n) (cs[i := x]) (cs[i := cs ! ?b, ?b := x])"
      using "1.prems" b by (subst move_hole) (auto intro: rearranged_swap)
    also have "rearranged 1 (Suc n) \<dots> (sinkTo n x (cs[i := cs ! ?b]) ?b)"
      using "1.IH" [OF refl True] "1.prems" b by simp
    finally show ?thesis using True by (subst sinkTo.simps) (simp add: Let_def)
  next
    case False
    then show ?thesis by (subst sinkTo.simps) (auto simp: Let_def)
  qed
qed

text \<open>All of the order but what the hole owes its children, which fit below its parent.\<close>

definition heapAbove :: "nat \<Rightarrow> (int \<times> 'p::linorder) list \<Rightarrow> nat \<Rightarrow> bool" where
  "heapAbove n h i \<longleftrightarrow> (\<forall>j. 2 \<le> j \<and> j \<le> n \<and> j div 2 \<noteq> i \<longrightarrow> rank (h ! (j div 2)) \<le> rank (h ! j)) \<and>
    (1 < i \<longrightarrow> (\<forall>j. 2 \<le> j \<and> j \<le> n \<and> j div 2 = i \<longrightarrow> rank (h ! (i div 2)) \<le> rank (h ! j)))"

lemma sinkTo_heap:
  "1 \<le> i \<Longrightarrow> i \<le> n \<Longrightarrow> n < length cs \<Longrightarrow> heapAbove n (cs[i := x]) i \<Longrightarrow> heapOn n (sinkTo n x cs i)"
proof (induction n x cs i rule: sinkTo.induct)
  case (1 n x cs i)
  let ?b = "bestChild (map rank cs) n i" and ?h = "cs[i := x]"
  have hk: "?h ! k = (if k = i then x else cs ! k)" for k
    using "1.prems"(2,3) by (cases "k = i") auto
  have h: "rank (?h ! (j div 2)) \<le> rank (?h ! j)" if "2 \<le> j" "j \<le> n" "j div 2 \<noteq> i" for j
    using "1.prems"(4) that unfolding heapAbove_def by blast
  have least: "rank (cs ! ?b) \<le> rank (cs ! j)" if "j div 2 = i" "j \<le> n" for j
    using bestChild_least [OF _ that "1.prems"(3)] "1.prems"(1) by simp
  show ?case
  proof (cases "0 < i \<and> i \<le> n div 2 \<and> rank (cs ! ?b) < rank x")
    case True
    then have b: "i < ?b" "?b \<le> n" "?b div 2 = i" using bestChild_bounds [of i n "map rank cs"] by auto
    let ?g = "cs[i := cs ! ?b, ?b := x]"
    have g: "?g ! k = (if k = i then cs ! ?b else if k = ?b then x else cs ! k)" for k
      using "1.prems"(2,3) b by (cases "k = i"; cases "k = ?b") auto
    have "heapAbove n ?g ?b"
      unfolding heapAbove_def
    proof (intro conjI allI impI)
      fix j assume j: "2 \<le> j \<and> j \<le> n \<and> j div 2 \<noteq> ?b"
      consider "j = i" | "j = ?b" | "j \<noteq> ?b" "j div 2 = i" | "j \<noteq> i" "j \<noteq> ?b" "j div 2 \<noteq> i" by blast
      then show "rank (?g ! (j div 2)) \<le> rank (?g ! j)"
      proof cases
        case 1
        have "1 < i" using 1 j by simp
        then have "rank (?h ! (i div 2)) \<le> rank (?h ! k)" if "2 \<le> k" "k \<le> n" "k div 2 = i" for k
          using "1.prems"(4) that unfolding heapAbove_def by blast
        from this [of ?b] have "rank (?h ! (i div 2)) \<le> rank (?h ! ?b)" using b \<open>1 < i\<close> by simp
        then show ?thesis using 1 b \<open>1 < i\<close> by (simp only: g hk) (auto split: if_splits)
      next
        case 2
        then show ?thesis using True b by (simp only: g) auto
      next
        case 3
        then show ?thesis using least [of j] j b by (simp only: g) auto
      next
        case 4
        then show ?thesis using h [of j] j b by (simp only: g hk) auto
      qed
    next
      fix j assume "1 < ?b" and j: "2 \<le> j \<and> j \<le> n \<and> j div 2 = ?b"
      have "rank (?h ! ?b) \<le> rank (?h ! j)" using h [of j] j b by auto
      moreover have "j \<noteq> i" "j \<noteq> ?b" using j b by auto
      ultimately show "rank (?g ! (?b div 2)) \<le> rank (?g ! j)"
        using b by (simp only: g hk) auto
    qed
    then have "heapOn n (sinkTo n x (cs[i := cs ! ?b]) ?b)"
      using "1.IH" [OF refl True] "1.prems" b by simp
    then show ?thesis using True by (subst sinkTo.simps) (simp add: Let_def)
  next
    case False
    have "rank (?h ! (j div 2)) \<le> rank (?h ! j)" if j: "2 \<le> j" "j \<le> n" for j
    proof (cases "j div 2 = i")
      case True
      then have "0 < i" "i \<le> n div 2" using j by auto
      then have "rank x \<le> rank (cs ! ?b)" using False by auto
      also have "\<dots> \<le> rank (cs ! j)" by (rule least [OF True j(2)])
      finally show ?thesis using True j by (simp only: hk) auto
    qed (rule h [OF j])
    then have "heapOn n ?h" unfolding heapOn_def by blast
    then show ?thesis using False by (subst sinkTo.simps) (auto simp: Let_def)
  qed
qed

lemma heapOn_root:
  "heapOn n cs \<Longrightarrow> 1 \<le> j \<Longrightarrow> j \<le> n \<Longrightarrow> rank (cs ! 1) \<le> rank (cs ! j)"
proof (induction j rule: less_induct)
  case (less j)
  show ?case
  proof (cases "j = 1")
    case False
    then have "rank (cs ! 1) \<le> rank (cs ! (j div 2))" using less by simp
    also have "\<dots> \<le> rank (cs ! j)" using less.prems False unfolding heapOn_def by simp
    finally show ?thesis .
  qed simp
qed

section \<open>The contract of a priority queue\<close>

primrec popMany :: "('q \<Rightarrow> int \<times> 'q) \<Rightarrow> nat \<Rightarrow> 'q \<Rightarrow> int list \<times> 'q" where
  "popMany pop 0 q = ([], q)"
| "popMany pop (Suc n) q = (let (x, q1) = pop q; (xs, q2) = popMany pop n q1 in (x # xs, q2))"

locale priority_queue =
  fixes push :: "'q \<Rightarrow> int \<Rightarrow> 'p::linorder \<Rightarrow> int \<times> 'q" and pop :: "'q \<Rightarrow> int \<times> 'q"
    and inv :: "'q \<Rightarrow> bool" and content :: "'q \<Rightarrow> (int \<times> 'p) multiset" and room :: "'q \<Rightarrow> nat"
  assumes push_law: "inv q \<Longrightarrow> 0 < room q \<Longrightarrow> push q x p = (r, q') \<Longrightarrow>
      r = 1 \<and> inv q' \<and> content q' = add_mset (x, p) (content q) \<and> Suc (room q') = room q"
    and pop_law: "inv q \<Longrightarrow> content q \<noteq> {#} \<Longrightarrow> pop q = (x, q') \<Longrightarrow>
      inv q' \<and> (\<exists>p. (x, p) \<in># content q \<and> (\<forall>e \<in># content q. p \<le> rank e) \<and> content q' = content q - {#(x, p)#})"
begin

lemma pushes:
  "inv q \<Longrightarrow> length xs \<le> room q \<Longrightarrow>
   inv (fold (\<lambda>(x, p) q. snd (push q x p)) xs q) \<and>
   content (fold (\<lambda>(x, p) q. snd (push q x p)) xs q) = content q + mset xs"
proof (induction xs arbitrary: q)
  case (Cons xp xs)
  obtain x p where xp: "xp = (x, p)" by (cases xp)
  obtain r q' where q': "push q x p = (r, q')" by fastforce
  have "inv q' \<and> content q' = add_mset (x, p) (content q) \<and> Suc (room q') = room q"
    using push_law [OF Cons.prems(1) _ q'] Cons.prems(2) by simp
  with Cons.IH [of q'] Cons.prems(2) q' xp show ?case by simp
qed simp

lemma drains:
  "inv q \<Longrightarrow> size (content q) = n \<Longrightarrow>
   \<exists>ys. fst (popMany pop n q) = map fst ys \<and> mset ys = content q \<and> sorted (map rank ys)"
proof (induction n arbitrary: q)
  case (Suc n)
  obtain x q' where q': "pop q = (x, q')" by fastforce
  have "content q \<noteq> {#}" using Suc.prems(2) by auto
  from pop_law [OF Suc.prems(1) this q'] obtain p where p: "inv q'" "(x, p) \<in># content q"
    "\<forall>e \<in># content q. p \<le> rank e" "content q' = content q - {#(x, p)#}"
    by blast
  have "size (content q') = n" using p(2,4) Suc.prems(2) by (simp add: size_Diff_singleton)
  from Suc.IH [OF p(1) this] obtain ys where ys: "fst (popMany pop n q') = map fst ys"
    "mset ys = content q'" "sorted (map rank ys)"
    by blast
  have all: "mset ((x, p) # ys) = content q" using ys(2) p(2,4) by simp
  have "\<forall>e \<in> set ys. p \<le> rank e"
    using p(3) unfolding all [symmetric] by simp
  then have "sorted (map rank ((x, p) # ys))" using ys(3) by simp
  moreover have "fst (popMany pop (Suc n) q) = map fst ((x, p) # ys)"
    using q' ys(1) by (simp add: split_beta)
  ultimately show ?case using all by blast
qed simp

lemma sorts:
  assumes "inv q" "content q = {#}" "length xs \<le> room q"
  shows "\<exists>ys. fst (popMany pop (length xs) (fold (\<lambda>(x, p) q. snd (push q x p)) xs q)) = map fst ys \<and>
    mset ys = mset xs \<and> sorted (map rank ys)"
  using drains [of "fold (\<lambda>(x, p) q. snd (push q x p)) xs q" "length xs"] pushes [OF assms(1,3)] assms(2)
  by (simp add: size_mset)

end

section \<open>The heap implements it\<close>

definition mhCells :: "'p MinHeap \<Rightarrow> (int \<times> 'p) list" where
  "mhCells h = zip (mh_items h) (mh_priorities h)"

definition mhWf :: "('p::linorder) MinHeap \<Rightarrow> bool" where
  "mhWf h \<longleftrightarrow> 0 \<le> mh_size h \<and> mh_size h \<le> mh_capacity h \<and>
    int (length (mh_items h)) = mh_capacity h + 1 \<and> int (length (mh_priorities h)) = mh_capacity h + 1 \<and>
    heapOn (nat (mh_size h)) (mhCells h)"

definition mhContent :: "'p MinHeap \<Rightarrow> (int \<times> 'p) multiset" where
  "mhContent h = entries (nat (mh_size h)) (mhCells h)"

lemma length_upLoop:
  "upLoop item prio items prios i = (items', prios') \<Longrightarrow>
   length items' = length items \<and> length prios' = length prios"
  by (induction item prio items prios i arbitrary: items' prios' rule: upLoop.induct)
    (subst (asm) (2) upLoop.simps, auto simp: Let_def split: if_splits)

lemma length_downLoop:
  "downLoop item prio n items prios i = (items', prios') \<Longrightarrow>
   length items' = length items \<and> length prios' = length prios"
  by (induction item prio n items prios i arbitrary: items' prios' rule: downLoop.induct)
    (subst (asm) (2) downLoop.simps, auto simp: Let_def split: if_splits)

lemma sift_up_cells:
  assumes "length (mh_items h) = length (mh_priorities h)" "i < length (mh_items h)"
  shows "mhCells (sift_up h i) = riseTo (mhCells h ! i) (mhCells h) i"
    "mh_size (sift_up h i) = mh_size h" "mh_capacity (sift_up h i) = mh_capacity h"
    "length (mh_items (sift_up h i)) = length (mh_items h)"
    "length (mh_priorities (sift_up h i)) = length (mh_priorities h)"
proof -
  obtain items prios where up: "upLoop (mh_items h ! i) (mh_priorities h ! i) (mh_items h) (mh_priorities h) i =
      (items, prios)"
    by fastforce
  have "zip items prios = riseTo (mh_items h ! i, mh_priorities h ! i) (mhCells h) i"
    using upLoop_cells [OF assms, of "mh_items h ! i" "mh_priorities h ! i"] by (simp add: up mhCells_def)
  then show "mhCells (sift_up h i) = riseTo (mhCells h ! i) (mhCells h) i"
    "mh_size (sift_up h i) = mh_size h" "mh_capacity (sift_up h i) = mh_capacity h"
    "length (mh_items (sift_up h i)) = length (mh_items h)"
    "length (mh_priorities (sift_up h i)) = length (mh_priorities h)"
    using length_upLoop [OF up] assms by (simp_all add: sift_up_def up mhCells_def)
qed

lemma sift_down_cells:
  assumes "length (mh_items h) = length (mh_priorities h)" "i < length (mh_items h)"
    "nat (mh_size h) < length (mh_items h)"
  shows "mhCells (sift_down h i) = sinkTo (nat (mh_size h)) (mhCells h ! i) (mhCells h) i"
    "mh_size (sift_down h i) = mh_size h" "mh_capacity (sift_down h i) = mh_capacity h"
    "length (mh_items (sift_down h i)) = length (mh_items h)"
    "length (mh_priorities (sift_down h i)) = length (mh_priorities h)"
proof -
  obtain items prios where down: "downLoop (mh_items h ! i) (mh_priorities h ! i) (nat (mh_size h))
      (mh_items h) (mh_priorities h) i = (items, prios)"
    by fastforce
  have "zip items prios = sinkTo (nat (mh_size h)) (mh_items h ! i, mh_priorities h ! i) (mhCells h) i"
    using downLoop_cells [OF assms(1,3,2), of "mh_items h ! i" "mh_priorities h ! i"]
    by (simp add: down mhCells_def)
  then show "mhCells (sift_down h i) = sinkTo (nat (mh_size h)) (mhCells h ! i) (mhCells h) i"
    "mh_size (sift_down h i) = mh_size h" "mh_capacity (sift_down h i) = mh_capacity h"
    "length (mh_items (sift_down h i)) = length (mh_items h)"
    "length (mh_priorities (sift_down h i)) = length (mh_priorities h)"
    using length_downLoop [OF down] assms by (simp_all add: sift_down_def down mhCells_def)
qed

lemma entries_snoc:
  "Suc n < length cs \<Longrightarrow> entries (Suc n) (cs[Suc n := x]) = add_mset x (entries n cs)"
  by (simp add: entries_def take_Suc_conv_app_nth drop_update_swap)

lemma MinHeap_push_room:
  assumes "mhWf h" "mh_size h < mh_capacity h"
  shows "\<exists>h'. MinHeap_push (Some h) item p = (1, Some h') \<and> mhWf h' \<and>
    mhContent h' = add_mset (item, p) (mhContent h) \<and> mh_size h' = mh_size h + 1 \<and> mh_capacity h' = mh_capacity h"
proof -
  define n where "n = nat (mh_size h)"
  let ?cs = "mhCells h" and ?x = "(item, p)"
  let ?h = "h\<lparr>mh_size := mh_size h + 1, mh_items := (mh_items h)[Suc n := item],
      mh_priorities := (mh_priorities h)[Suc n := p]\<rparr>"
  have h: "0 \<le> mh_size h" "int (length (mh_items h)) = mh_capacity h + 1"
    "length (mh_items h) = length (mh_priorities h)" "heapOn n ?cs"
    using assms(1) by (simp_all add: mhWf_def n_def)
  have idx: "nat (mh_size h + 1) = Suc n" "Suc n < length (mh_items h)"
    using h assms(2) by (simp_all add: n_def)
  have push: "MinHeap_push (Some h) item p = (1, Some (sift_up ?h (Suc n)))"
    using assms(2) idx by (simp add: MinHeap_push_def Let_def)
  have cells: "mhCells ?h = ?cs[Suc n := ?x]" by (simp add: mhCells_def update_zip)
  have len: "length ?cs = length (mh_items h)" using h(3) by (simp add: mhCells_def)
  have up: "mhCells (sift_up ?h (Suc n)) = riseTo ?x (?cs[Suc n := ?x]) (Suc n)"
    using sift_up_cells(1) [of ?h "Suc n"] h(3) idx(2) len by (simp add: cells)
  have "heapBut (Suc n) (?cs[Suc n := ?x]) (Suc n)"
    using h(4) unfolding heapBut_def heapOn_def by auto
  then have "heapOn (Suc n) (mhCells (sift_up ?h (Suc n)))"
    unfolding up using idx(2) len by (intro riseTo_heap) simp_all
  moreover have "rearranged 1 (Suc (Suc n)) (?cs[Suc n := ?x]) (mhCells (sift_up ?h (Suc n)))"
    using riseTo_rearranged [of "Suc n" "Suc n" "?cs[Suc n := ?x]" ?x] idx(2) len by (simp add: up)
  then have "entries (Suc n) (mhCells (sift_up ?h (Suc n))) = add_mset ?x (entries n ?cs)"
    using entries_rearranged [of "Suc n" "?cs[Suc n := ?x]"] entries_snoc [of n ?cs ?x] idx(2) len by simp
  ultimately show ?thesis
    using push sift_up_cells(2-) [of ?h "Suc n"] h assms(2) idx
    by (intro exI [of _ "sift_up ?h (Suc n)"]) (simp add: mhWf_def mhContent_def n_def [symmetric])
qed

lemma mset_replace_first:
  "ys \<noteq> [] \<Longrightarrow> mset ((butlast ys)[0 := last ys]) = mset ys - {#hd ys#}"
  by (cases ys; cases "tl ys" rule: rev_cases) auto

lemma entries_replace_first:
  assumes "Suc n < length cs"
  shows "entries n (cs[1 := cs ! Suc n]) = entries (Suc n) cs - {#cs ! 1#}"
proof -
  let ?ys = "take (Suc n) (drop 1 cs)"
  have ne: "?ys \<noteq> []" using assms by simp
  have "hd ?ys = cs ! 1" "last ?ys = cs ! Suc n"
    using assms ne by (simp_all add: hd_conv_nth last_conv_nth)
  moreover have "take n (drop 1 (cs[1 := cs ! Suc n])) = (butlast ?ys)[0 := cs ! Suc n]"
    using assms by (simp add: butlast_take drop_update_swap take_update_swap)
  ultimately show ?thesis using mset_replace_first [OF ne] by (simp add: entries_def)
qed

lemma entries_at: "1 \<le> j \<Longrightarrow> j \<le> n \<Longrightarrow> n < length cs \<Longrightarrow> cs ! j \<in># entries n cs"
  by (auto simp: entries_def in_set_conv_nth intro!: exI [of _ "j - 1"])

lemma entries_rank:
  assumes "heapOn n cs" "n < length cs" "e \<in># entries n cs"
  shows "rank (cs ! 1) \<le> rank e"
proof -
  obtain k where "k < n" "e = cs ! Suc k"
    using assms(2,3) by (auto simp: entries_def in_set_conv_nth)
  then show ?thesis using heapOn_root [OF assms(1), of "Suc k"] by simp
qed

lemma MinHeap_pop_least:
  assumes "mhWf h" "0 < mh_size h"
  shows "\<exists>p h'. MinHeap_popItem (Some h) = (MinHeap_peekItem (Some h), Some h') \<and> mhWf h' \<and>
    (MinHeap_peekItem (Some h), p) \<in># mhContent h \<and> (\<forall>e \<in># mhContent h. p \<le> rank e) \<and>
    mhContent h' = mhContent h - {#(MinHeap_peekItem (Some h), p)#} \<and> mh_capacity h' = mh_capacity h"
proof -
  obtain n where n: "nat (mh_size h) = Suc n" using assms(2) by (metis Suc_pred' nat_0_iff not_le neq0_conv)
  let ?cs = "mhCells h" and ?item = "mh_items h ! 1" and ?p = "mh_priorities h ! 1"
  let ?h = "h\<lparr>mh_items := (mh_items h)[1 := mh_items h ! Suc n],
      mh_priorities := (mh_priorities h)[1 := mh_priorities h ! Suc n], mh_size := mh_size h - 1\<rparr>"
  have h: "int (length (mh_items h)) = mh_capacity h + 1" "length (mh_items h) = length (mh_priorities h)"
      "mh_size h \<le> mh_capacity h" "heapOn (Suc n) ?cs"
    using assms(1) n by (simp_all add: mhWf_def)
  have room: "Suc n < length (mh_items h)" using h(1,3) n by simp
  have size: "nat (mh_size h - 1) = n" "mh_size h - 1 = int n" using n by simp_all
  have len: "length ?cs = length (mh_items h)" using h(2) by (simp add: mhCells_def)
  have first: "?cs ! 1 = (?item, ?p)" using h(2) room by (simp add: mhCells_def)
  have peek: "MinHeap_peekItem (Some h) = ?item" using assms(2) by (simp add: MinHeap_peekItem_def)
  have cells: "mhCells ?h = ?cs[1 := ?cs ! Suc n]"
    using h(2) room by (simp add: mhCells_def update_zip)
  have less: "entries n (mhCells ?h) = entries (Suc n) ?cs - {#(?item, ?p)#}"
    unfolding cells using entries_replace_first [of n ?cs] room len first by simp
  define h' where "h' = (if 0 < n then sift_down ?h 1 else ?h)"
  have pop: "MinHeap_popItem (Some h) = (?item, Some h')"
    using assms(2) n size by (simp add: MinHeap_popItem_def Let_def h'_def)
  have frame: "mh_size h' = int n" "mh_capacity h' = mh_capacity h"
      "length (mh_items h') = length (mh_items h)" "length (mh_priorities h') = length (mh_priorities h)"
    using sift_down_cells(2-) [of ?h 1] h(2) room size by (simp_all add: h'_def)
  have kept: "heapOn n (mhCells h') \<and> entries n (mhCells h') = entries n (mhCells ?h)"
  proof (cases "0 < n")
    case True
    have down: "mhCells h' = sinkTo n (mhCells ?h ! 1) (mhCells ?h) 1"
      using True sift_down_cells(1) [of ?h 1] h(2) room size by (simp add: h'_def)
    have "heapAbove n (mhCells ?h) 1"
      using h(4) room len unfolding heapAbove_def heapOn_def cells by (auto simp: nth_list_update)
    moreover have lenh: "length (mhCells ?h) = length ?cs" unfolding cells by simp
    ultimately have "heapOn n (mhCells h')"
      unfolding down using sinkTo_heap [of 1 n "mhCells ?h" "mhCells ?h ! 1"] True room len
      by (simp only: list_update_id)
    moreover have "rearranged 1 (Suc n) (mhCells ?h) (mhCells h')"
      using sinkTo_rearranged [of 1 n "mhCells ?h" "mhCells ?h ! 1"] True room len
      unfolding down by (simp only: list_update_id lenh)
    moreover have "n < length (mhCells ?h)" unfolding lenh len using room by simp
    ultimately show ?thesis using entries_rearranged by blast
  next
    case False
    then show ?thesis by (simp add: h'_def heapOn_def)
  qed
  then have "mhWf h'" "mhContent h' = mhContent h - {#(?item, ?p)#}"
    using frame h n less by (simp_all add: mhWf_def mhContent_def)
  moreover have "(?item, ?p) \<in># mhContent h"
    using entries_at [of 1 "Suc n" ?cs] room len first n by (simp add: mhContent_def)
  moreover have "\<forall>e \<in># mhContent h. ?p \<le> rank e"
    using entries_rank [OF h(4)] room len first n by (simp add: mhContent_def)
  ultimately show ?thesis using pop frame(2) peek by auto
qed

definition mhInv :: "('p::linorder) MinHeap option \<Rightarrow> bool" where
  "mhInv heap \<longleftrightarrow> (\<exists>h. heap = Some h \<and> mhWf h)"

definition mhHeld :: "'p MinHeap option \<Rightarrow> (int \<times> 'p) multiset" where
  "mhHeld heap = (case heap of None \<Rightarrow> {#} | Some h \<Rightarrow> mhContent h)"

definition mhRoom :: "'p MinHeap option \<Rightarrow> nat" where
  "mhRoom heap = MinHeap_capacity heap - MinHeap_size heap"

interpretation min_heap: priority_queue "MinHeap_push :: ('p::linorder) MinHeap option \<Rightarrow> int \<Rightarrow> 'p \<Rightarrow> _"
  MinHeap_popItem mhInv mhHeld mhRoom
proof
  fix q q' :: "'p MinHeap option" and x p r
  assume inv: "mhInv q" and room: "0 < mhRoom q" and push: "MinHeap_push q x p = (r, q')"
  obtain h where h: "q = Some h" "mhWf h" using inv by (auto simp: mhInv_def)
  have "mh_size h < mh_capacity h" using room h by (simp add: mhRoom_def MinHeap_capacity_def MinHeap_size_def)
  from MinHeap_push_room [OF h(2) this, of x p] obtain h' where h': "r = 1" "q' = Some h'" "mhWf h'"
    "mhContent h' = add_mset (x, p) (mhContent h)" "mh_size h' = mh_size h + 1" "mh_capacity h' = mh_capacity h"
    using push h(1) by auto
  then show "r = 1 \<and> mhInv q' \<and> mhHeld q' = add_mset (x, p) (mhHeld q) \<and> Suc (mhRoom q') = mhRoom q"
    using h room
    by (auto simp: mhInv_def mhHeld_def mhRoom_def MinHeap_capacity_def MinHeap_size_def mhWf_def)
next
  fix q q' :: "'p MinHeap option" and x
  assume inv: "mhInv q" and some: "mhHeld q \<noteq> {#}" and pop: "MinHeap_popItem q = (x, q')"
  obtain h where h: "q = Some h" "mhWf h" using inv by (auto simp: mhInv_def)
  have "mh_size h \<noteq> 0" using some h by (auto simp: mhHeld_def mhContent_def entries_def)
  then have "0 < mh_size h" using h(2) by (simp add: mhWf_def)
  from MinHeap_pop_least [OF h(2) this] show "mhInv q' \<and> (\<exists>p. (x, p) \<in># mhHeld q \<and>
      (\<forall>e \<in># mhHeld q. p \<le> rank e) \<and> mhHeld q' = mhHeld q - {#(x, p)#})"
    using pop h(1) by (auto simp: mhInv_def mhHeld_def)
qed

lemma MinHeap_1_new:
  assumes "willing w" "capacity < 2 ^ 31"
  shows "\<exists>h w'. MinHeap_1 readFloat capacity w = (Some h, w') \<and> mhWf h \<and> mhContent h = {#} \<and>
    mh_capacity h = int capacity \<and> mh_size h = 0"
proof -
  obtain g w1 where w1: "Memory_object w = (g, w1)" by fastforce
  then have g: "g" "willing w1" using Memory_object_willing [OF assms(1)] by auto
  obtain xs w2 where w2: "allocateInts (capacity + 1) w1 = (Some xs, w2)" "length xs = capacity + 1" "willing w2"
    using allocateInts_willing [OF g(2)] by blast
  obtain bs w3 where w3: "Memory_bytes (wrap64 ((capacity + 1) * 4)) w2 = (Some bs, w3)"
    using Memory_bytes_willing [OF w2(3)] by (metis not_None_eq surj_pair)
  have "wrap64 (capacity + 1) = capacity + 1" using assms(2) by simp
  then show ?thesis
    using w1 g w2 w3 assms(2)
    by (auto simp: MinHeap_1_def toInt32_small mhWf_def mhContent_def entries_def heapOn_def)
qed

text \<open>
C33: a new heap into which any pairs are pushed, as many as it has room for, hands their items back
in ascending order of priority.
\<close>

theorem MinHeap_sorts:
  assumes "willing w" "capacity < 2 ^ 31" "length xs \<le> capacity"
  shows "\<exists>ys. fst (popMany MinHeap_popItem (length xs)
      (fold (\<lambda>(item, p) h. snd (MinHeap_push h item p)) xs (fst (MinHeap_1 readFloat capacity w)))) = map fst ys \<and>
    mset ys = mset xs \<and> sorted (map rank ys)"
proof -
  obtain h w' where h: "MinHeap_1 readFloat capacity w = (Some h, w')" "mhWf h" "mhContent h = {#}"
    "mh_capacity h = int capacity" "mh_size h = 0"
    using MinHeap_1_new [OF assms(1,2)] by blast
  then show ?thesis
    using min_heap.sorts [of "Some h" xs] assms(3)
    by (simp add: mhInv_def mhHeld_def mhRoom_def MinHeap_capacity_def MinHeap_size_def)
qed

theorem MinHeap_sorts_witness:
  "\<exists>ys. fst (popMany MinHeap_popItem 3 (fold (\<lambda>(item, p) h. snd (MinHeap_push h item p))
      [(7, 3 :: int), (8, 1), (9, 2)] (fst (MinHeap_1 (\<lambda>_. 0) 4
      \<lparr>answers = [], s_constructionCount = 0, s_constructionReported = False, MASK_CLASS = 0\<rparr>)))) = map fst ys \<and>
    mset ys = mset [(7, 3 :: int), (8, 1), (9, 2)] \<and> sorted (map rank ys)"
proof -
  let ?w = "\<lparr>answers = [], s_constructionCount = 0, s_constructionReported = False, MASK_CLASS = 0\<rparr>"
  have three: "length [(7, 3 :: int), (8, 1), (9, 2)] = 3" by simp
  have "willing ?w" "4 < (2 :: nat) ^ 31" "length [(7 :: int, 3 :: int), (8, 1), (9, 2)] \<le> 4"
    by (simp_all add: willing_def)
  from MinHeap_sorts [OF this, of "\<lambda>_. 0"] show ?thesis unfolding three by assumption
qed

end
