(* ===== verification/Date_Time.thy ===== *)
theory Date_Time
  imports Prelude "HOL-Library.Signed_Division"
begin

text \<open>
  \<open>src/time/datetime.c\<close>: the calendar fields of an instant.  Signed integers of C are \<open>int\<close>;
  division and remainder round toward zero (\<open>sdiv\<close>, \<open>smod\<close>), casts to 32 bits are written out.
  For an instant of 64 bits no other operation leaves its type: the quantities are bounded by
  the instant divided by 1000, and the fields by 400 times the number of eras.
  The theory ends with the lemmas that turn these divisions into floored ones.
\<close>

section \<open>The operations\<close>

record DateTime =
  dt_epochMillis :: int
  dt_year :: int
  dt_month :: int
  dt_day :: int
  dt_hour :: int
  dt_minute :: int
  dt_second :: int
  dt_millisecond :: int
  dt_dayOfWeek :: int

text \<open>The cast to a signed integer of 32 bits.\<close>

definition cast32 :: "int \<Rightarrow> int" where
  "cast32 x = signed_take_bit 31 x"

text \<open>One link of the chain: quotient and remainder by a unit, the remainder brought above zero.\<close>

definition splitUnit :: "int \<Rightarrow> int \<Rightarrow> int \<times> int" where
  "splitUnit unit n =
    (let q = n sdiv unit; r = cast32 (n smod unit)
     in if r < 0 then (q - 1, r + unit) else (q, r))"

definition isoDay :: "int \<Rightarrow> int" where
  "isoDay totalDays =
    (let r = cast32 ((totalDays + 3) smod 7) in (if r < 0 then r + 7 else r) + 1)"

definition civilFromDays :: "int \<Rightarrow> int \<times> int \<times> int" where
  "civilFromDays totalDays =
    (let z = totalDays + 719468;
         era = (if 0 \<le> z then z else z - 146096) sdiv 146097;
         doe = cast32 (z - era * 146097);
         yoe = (doe - doe sdiv 1460 + doe sdiv 36524 - doe sdiv 146096) sdiv 365;
         y = yoe + cast32 (era * 400);
         doy = doe - (365 * yoe + yoe sdiv 4 - yoe sdiv 100);
         mp = (5 * doy + 2) sdiv 153;
         day = doy - (153 * mp + 2) sdiv 5 + 1;
         month = mp + (if mp < 10 then 3 else - 9);
         year = y + (if month \<le> 2 then 1 else 0)
     in (year, month, day))"

definition setEpochMillis :: "DateTime \<Rightarrow> int \<Rightarrow> DateTime" where
  "setEpochMillis dt epochMillis =
    (let (totalSeconds, millisecond) = splitUnit 1000 epochMillis;
         (totalMinutes, second) = splitUnit 60 totalSeconds;
         (totalHours, minute) = splitUnit 60 totalMinutes;
         (totalDays, hour) = splitUnit 24 totalHours;
         (year, month, day) = civilFromDays totalDays
     in dt\<lparr>dt_epochMillis := epochMillis, dt_year := year, dt_month := month, dt_day := day,
           dt_hour := hour, dt_minute := minute, dt_second := second,
           dt_millisecond := millisecond, dt_dayOfWeek := isoDay totalDays\<rparr>)"

text \<open>The realtime clock is a parameter: its reading in seconds and nanoseconds.\<close>

definition DateTime_set :: "DateTime \<Rightarrow> int \<times> int \<Rightarrow> DateTime" where
  "DateTime_set dt ts = setEpochMillis dt (fst ts * 1000 + snd ts sdiv 1000000)"

definition DateTime_epochMillis :: "DateTime \<Rightarrow> int" where
  "DateTime_epochMillis dt = dt_epochMillis dt"

definition DateTime_year :: "DateTime \<Rightarrow> int" where
  "DateTime_year dt = dt_year dt"

definition DateTime_month :: "DateTime \<Rightarrow> int" where
  "DateTime_month dt = dt_month dt"

definition DateTime_day :: "DateTime \<Rightarrow> int" where
  "DateTime_day dt = dt_day dt"

definition DateTime_hour :: "DateTime \<Rightarrow> int" where
  "DateTime_hour dt = dt_hour dt"

definition DateTime_minute :: "DateTime \<Rightarrow> int" where
  "DateTime_minute dt = dt_minute dt"

definition DateTime_second :: "DateTime \<Rightarrow> int" where
  "DateTime_second dt = dt_second dt"

definition DateTime_millisecond :: "DateTime \<Rightarrow> int" where
  "DateTime_millisecond dt = dt_millisecond dt"

definition DateTime_dayOfWeek :: "DateTime \<Rightarrow> int" where
  "DateTime_dayOfWeek dt = dt_dayOfWeek dt"

lemmas DateTime_gets = DateTime_epochMillis_def DateTime_year_def DateTime_month_def
  DateTime_day_def DateTime_hour_def DateTime_minute_def DateTime_second_def
  DateTime_millisecond_def DateTime_dayOfWeek_def

section \<open>Division that rounds toward zero\<close>

lemma cast32_id: "- (2 ^ 31) \<le> x \<Longrightarrow> x < 2 ^ 31 \<Longrightarrow> cast32 x = x"
  by (simp add: cast32_def signed_take_bit_int_eq_self)

lemma sdiv_nonneg: "0 \<le> (a :: int) \<Longrightarrow> 0 < b \<Longrightarrow> a sdiv b = a div b"
  by (simp add: signed_divide_int_def sgn_if)

lemma smod_nonneg: "0 \<le> (a :: int) \<Longrightarrow> 0 < b \<Longrightarrow> a smod b = a mod b"
  by (simp add: signed_modulo_int_def sgn_if)

lemma smod_sign:
  assumes "0 < (k :: int)"
  shows "(if n smod k < 0 then (n sdiv k - 1, n smod k + k) else (n sdiv k, n smod k)) = (n div k, n mod k)"
proof (cases "0 \<le> n")
  case True
  then show ?thesis using assms by (simp add: sdiv_nonneg smod_nonneg not_less)
next
  case False
  define a where "a = - n"
  have a: "0 \<le> a" "n = - a" using False by (auto simp: a_def)
  have "a mod k = 0 \<or> 0 < a mod k" using assms pos_mod_sign [of k a] by linarith
  then show ?thesis
    using a assms by (auto simp: sdiv_nonneg smod_nonneg zdiv_zminus1_eq_if zmod_zminus1_eq_if)
qed

lemma smod_abs: "0 < (k :: int) \<Longrightarrow> \<bar>n smod k\<bar> < k"
  by (simp add: signed_modulo_int_def abs_mult abs_sgn_eq)

lemma splitUnit_floor: "0 < k \<Longrightarrow> k < 2 ^ 31 \<Longrightarrow> splitUnit k n = (n div k, n mod k)"
  using smod_sign [of k n] smod_abs [of k n] cast32_id [of "n smod k"]
  by (simp add: splitUnit_def Let_def)

lemma isoDay_floor: "isoDay n = (n + 3) mod 7 + 1"
proof -
  have "isoDay n = snd (splitUnit 7 (n + 3)) + 1"
    by (simp add: isoDay_def splitUnit_def Let_def)
  then show ?thesis by (simp add: splitUnit_floor)
qed

text \<open>The bias by which a quotient of negative numbers is made to round down.\<close>

lemma floor_bias:
  assumes "0 < (k :: int)" and "b = k - 1"
  shows "(if 0 \<le> z then z else z - b) sdiv k = z div k"
proof (cases "0 \<le> z")
  case False
  define a where "a = - z - 1"
  have "0 \<le> a" using False by (simp add: a_def)
  have "(z - b) sdiv k = - ((a + k) sdiv k)"
    using minus_sdiv_eq [of "a + k" k] by (simp add: a_def assms(2) algebra_simps)
  also have "\<dots> = - (a div k + 1)"
    using \<open>0 \<le> a\<close> assms by (simp add: sdiv_nonneg div_add_self2)
  also have "\<dots> = (- a - 1) div k"
  proof -
    have "a = k * (a div k) + a mod k" by simp
    then have "- a - 1 = k * (- (a div k) - 1) + (k - 1 - a mod k)" by (simp add: algebra_simps)
    moreover have "0 \<le> k - 1 - a mod k" "k - 1 - a mod k < k" using pos_mod_bound [OF assms(1), of a] pos_mod_sign [OF assms(1), of a] by linarith+
    ultimately have "(- a - 1) div k = - (a div k) - 1"
      by (metis div_mult_self4 div_pos_pos_trivial add.right_neutral assms less_irrefl)
    then show ?thesis by simp
  qed
  finally show ?thesis using False by (simp add: a_def)
qed (simp add: sdiv_nonneg assms)

end
