(* ===== verification/Gregorian.thy ===== *)
theory Gregorian
  imports Date_Time
begin

text \<open>
  The count of days of the proleptic Gregorian calendar (\<open>dayNumber\<close>, \<open>nextDate\<close>), over the month
  lengths of \<open>src/time/calendar.c\<close>, and the proof that the civil-from-days chain of divisions of
  \<open>src/time/datetime.c\<close> is its inverse: the year within an era by evaluation at the two ends of each
  of the 400 years and monotonicity between them, the month by linear arithmetic.
\<close>

section \<open>The lengths of the months\<close>

definition Calendar_isLeapYear :: "int \<Rightarrow> bool" where
  "Calendar_isLeapYear year \<longleftrightarrow>
    (year smod 4 = 0 \<and> year smod 100 \<noteq> 0) \<or> year smod 400 = 0"

definition Calendar_daysInMonth :: "int \<Rightarrow> int \<Rightarrow> int" where
  "Calendar_daysInMonth year month =
    (if month < 1 \<or> month > 12 then 0
     else if month = 2 then (if Calendar_isLeapYear year then 29 else 28)
     else if month = 4 \<or> month = 6 \<or> month = 9 \<or> month = 11 then 30
     else 31)"

section \<open>The count of days\<close>

text \<open>Dates of the proleptic Gregorian calendar, and the day after a date.\<close>

type_synonym date = "int \<times> int \<times> int"

fun validDate :: "date \<Rightarrow> bool" where
  "validDate (y, m, d) \<longleftrightarrow> 1 \<le> m \<and> m \<le> 12 \<and> 1 \<le> d \<and> d \<le> Calendar_daysInMonth y m"

fun nextDate :: "date \<Rightarrow> date" where
  "nextDate (y, m, d) =
    (if d < Calendar_daysInMonth y m then (y, m, d + 1)
     else if m < 12 then (y, m + 1, 1)
     else (y + 1, 1, 1))"

text \<open>
  The first day of a year that begins in March, counted from the first of March of year 0, and
  the first day of a month within such a year.
\<close>

definition yearStart :: "int \<Rightarrow> int" where
  "yearStart y = 365 * y + y div 4 - y div 100 + y div 400"

definition monthStart :: "int \<Rightarrow> int" where
  "monthStart mp = (153 * mp + 2) div 5"

fun dayNumber :: "date \<Rightarrow> int" where
  "dayNumber (y, m, d) =
    yearStart (if m \<le> 2 then y - 1 else y) + monthStart (if m \<le> 2 then m + 9 else m - 3) + d - 1 - 719468"

lemma smod_eq_0_iff: "n smod k = 0 \<longleftrightarrow> k dvd n" for n k :: int
  by (auto simp: signed_modulo_int_def sgn_0_0 dvd_eq_mod_eq_0 [symmetric])

lemma isLeapYear_dvd: "Calendar_isLeapYear y \<longleftrightarrow> (4 dvd y \<and> \<not> 100 dvd y) \<or> 400 dvd y"
  by (simp add: Calendar_isLeapYear_def smod_eq_0_iff)

lemma div_step: "0 < k \<Longrightarrow> (y + 1) div k = y div k + of_bool (k dvd y + 1)" for y k :: int
proof -
  assume k: "0 < k"
  define q r where "q = y div k" and "r = y mod k"
  have y: "y = q * k + r" and r: "0 \<le> r" "r < k" using k by (simp_all add: q_def r_def)
  show ?thesis
  proof (cases "r + 1 = k")
    case True
    have "y + 1 = (q + 1) * k" using y True by (simp add: algebra_simps)
    then show ?thesis using k by (simp add: q_def [symmetric])
  next
    case False
    have e: "y + 1 = (r + 1) + q * k" using y by simp
    have "(y + 1) div k = q" unfolding e using r False by simp
    moreover have "(y + 1) mod k = r + 1" unfolding e using r False by simp
    ultimately show ?thesis using r by (simp add: q_def [symmetric] dvd_eq_mod_eq_0)
  qed
qed

lemma yearStart_step: "yearStart (y + 1) = yearStart y + 365 + of_bool (Calendar_isLeapYear (y + 1))"
proof -
  have "400 dvd y + 1 \<Longrightarrow> 100 dvd y + 1" "100 dvd y + 1 \<Longrightarrow> 4 dvd y + 1"
    by (rule dvd_trans [rotated], assumption, simp)+
  then show ?thesis by (auto simp: yearStart_def div_step isLeapYear_dvd)
qed

lemma yearStart_mono: "a \<le> b \<Longrightarrow> yearStart a \<le> yearStart b"
  by (induction b rule: int_ge_induct) (auto simp: yearStart_step)

lemma yearStart_unique:
  assumes "yearStart a \<le> z" "z < yearStart (a + 1)" "yearStart b \<le> z" "z < yearStart (b + 1)"
  shows "a = b"
  using assms yearStart_mono [of "a + 1" b] yearStart_mono [of "b + 1" a] by linarith

lemma yearStart_era: "yearStart (y + 400 * e) = yearStart y + 146097 * e"
proof -
  have "(y + 400 * e) div 4 = y div 4 + 100 * e" "(y + 400 * e) div 100 = y div 100 + 4 * e"
    "(y + 400 * e) div 400 = y div 400 + e"
    using div_mult_self2 [of 4 y "100 * e"] div_mult_self2 [of 100 y "4 * e"] by simp_all
  then show ?thesis by (simp add: yearStart_def)
qed

lemma div_eq_iff: "0 < k \<Longrightarrow> x div k = q \<longleftrightarrow> k * q \<le> x \<and> x < k * q + k" for x k q :: int
proof (intro iffI)
  assume k: "0 < k" and q: "x div k = q"
  have "x = k * q + x mod k" using mult_div_mod_eq [of k x] q by simp
  then show "k * q \<le> x \<and> x < k * q + k" using pos_mod_bound [OF k, of x] pos_mod_sign [OF k, of x] by linarith
next
  assume k: "0 < k" and q: "k * q \<le> x \<and> x < k * q + k"
  show "x div k = q" by (rule int_div_pos_eq [of x k q "x - k * q"]) (use q in auto)
qed

lemma monthStart_bounds: "153 * mp - 2 \<le> 5 * monthStart mp \<and> 5 * monthStart mp \<le> 153 * mp + 2"
  using div_eq_iff [of 5 "153 * mp + 2" "monthStart mp"] by (simp add: monthStart_def)

lemma monthStart_iff: "(5 * doy + 2) div 153 = mp \<longleftrightarrow> monthStart mp \<le> doy \<and> doy < monthStart (mp + 1)"
  unfolding div_eq_iff [of 153, simplified] using monthStart_bounds [of mp] monthStart_bounds [of "mp + 1"]
  by auto

text \<open>
  The year within an era of 400 years from the day within the era: the chain of divisions is
  monotone, so its value at the first and the last day of each year settles the days between.
\<close>

definition eraYear :: "int \<Rightarrow> int" where
  "eraYear doe = (doe - doe div 1460 + doe div 36524 - doe div 146096) div 365"

definition eraDays :: "int \<Rightarrow> int" where
  "eraDays y = 365 * y + y div 4 - y div 100"

lemma eraYear_step:
  assumes "0 \<le> n" "n < 146096"
  shows "eraYear n \<le> eraYear (n + 1)"
proof -
  have "of_bool (1460 dvd n + 1) + of_bool (146096 dvd n + 1) \<le> (1 :: int)"
  proof (cases "n + 1 = 146096")
    case False
    then have "\<not> 146096 dvd n + 1" using zdvd_not_zless [of "n + 1" 146096] assms by simp
    then show ?thesis by simp
  qed simp
  then have "n - n div 1460 + n div 36524 - n div 146096
      \<le> (n + 1) - (n + 1) div 1460 + (n + 1) div 36524 - (n + 1) div 146096"
    by (simp add: div_step)
  then show ?thesis unfolding eraYear_def by (rule zdiv_mono1) simp
qed

lemma eraYear_mono: "a \<le> b \<Longrightarrow> 0 \<le> a \<Longrightarrow> b \<le> 146096 \<Longrightarrow> eraYear a \<le> eraYear b"
proof (induction b rule: int_ge_induct)
  case (step i)
  then show ?case using eraYear_step [of i] by simp
qed simp

lemma eraYear_ends:
  "\<forall>y \<in> set [0..399]. eraYear (eraDays y) = y \<and>
     eraYear (if y = 399 then 146096 else eraDays (y + 1) - 1) = y"
  by code_simp

lemma eraYear_inside:
  assumes "0 \<le> doe" "doe \<le> 146096"
  shows "0 \<le> eraYear doe \<and> eraYear doe \<le> 399"
proof -
  have "eraYear 0 = 0" "eraYear 146096 = 399" by (simp_all add: eraYear_def)
  then show ?thesis using eraYear_mono [of 0 doe] eraYear_mono [of doe 146096] assms by simp
qed

lemma eraDays_mono: "a \<le> b \<Longrightarrow> eraDays a \<le> eraDays b"
proof (induction b rule: int_ge_induct)
  case (step i)
  then show ?case by (simp add: eraDays_def div_step split: if_splits) 
qed simp

lemma eraYear_spec:
  assumes "0 \<le> doe" "doe \<le> 146096"
  shows "eraDays (eraYear doe) \<le> doe \<and> doe < (if eraYear doe = 399 then 146097 else eraDays (eraYear doe + 1))"
proof -
  define y where "y = eraYear doe"
  have y: "0 \<le> y" "y \<le> 399" using eraYear_inside [OF assms] by (auto simp: y_def)
  have ends: "eraYear (eraDays i) = i \<and> eraYear (if i = 399 then 146096 else eraDays (i + 1) - 1) = i"
    if "0 \<le> i" "i \<le> 399" for i
    using eraYear_ends that by simp
  have "eraDays y \<le> doe"
  proof (rule ccontr)
    assume "\<not> eraDays y \<le> doe"
    moreover from this assms(1) have "y \<noteq> 0" by (auto simp: eraDays_def)
    ultimately have "doe \<le> eraDays (y - 1 + 1) - 1" "0 \<le> y - 1" using y by auto
    moreover have "eraDays y \<le> 146096" using eraDays_mono [of y 399] y by (simp add: eraDays_def)
    ultimately have "y \<le> eraYear (eraDays (y - 1 + 1) - 1)"
      using eraYear_mono [of doe "eraDays (y - 1 + 1) - 1"] assms by (simp add: y_def)
    then show False using ends [of "y - 1"] y \<open>0 \<le> y - 1\<close> by simp
  qed
  moreover have "doe < eraDays (y + 1)" if "y \<noteq> 399"
  proof (rule ccontr)
    assume a: "\<not> doe < eraDays (y + 1)"
    have "0 \<le> eraDays (y + 1)" using eraDays_mono [of 0 "y + 1"] y by (simp add: eraDays_def)
    then have "eraYear (eraDays (y + 1)) \<le> y" using eraYear_mono [of "eraDays (y + 1)" doe] a assms by (simp add: y_def)
    then show False using ends [of "y + 1"] y that by simp
  qed
  ultimately show ?thesis using assms by (simp add: y_def [symmetric])
qed

section \<open>The chain of divisions is the calendar\<close>

lemma eraYear_code:
  assumes "0 \<le> doe"
  shows "(doe - doe sdiv 1460 + doe sdiv 36524 - doe sdiv 146096) sdiv 365 = eraYear doe"
proof -
  have "doe div 1460 \<le> doe" using zdiv_mono2 [of doe 1 1460] assms by simp
  moreover have "doe div 146096 \<le> doe div 36524" using zdiv_mono2 [of doe 36524 146096] assms by simp
  ultimately show ?thesis using assms by (simp add: eraYear_def sdiv_nonneg)
qed

lemma monthStart_code: "0 \<le> mp \<Longrightarrow> (153 * mp + 2) sdiv 5 = monthStart mp"
  by (simp add: monthStart_def sdiv_nonneg)

lemma yearStart_eraDays:
  assumes "0 \<le> yoe" "yoe \<le> 399"
  shows "yearStart yoe = eraDays yoe"
    and "yearStart (yoe + 1) = (if yoe = 399 then 146097 else eraDays (yoe + 1))"
  using assms by (simp_all add: yearStart_def eraDays_def)

text \<open>A number of days, as a year that begins in March, a month and a day of it.\<close>

lemma civilFromDays_parts:
  assumes "\<bar>n\<bar> < 2 ^ 38"
  obtains y mp d where
    "civilFromDays n = (if mp < 10 then y else y + 1, if mp < 10 then mp + 3 else mp - 9, d)"
    "n + 719468 < yearStart (y + 1)" "0 \<le> mp" "mp \<le> 11" "1 \<le> d" "monthStart mp + d \<le> monthStart (mp + 1)"
    "n + 719468 = yearStart y + monthStart mp + d - 1"
proof -
  define z where "z = n + 719468"
  define era where "era = z div 146097"
  define doe where "doe = z mod 146097"
  have doe: "0 \<le> doe" "doe \<le> 146096" using pos_mod_bound [of 146097 z] by (simp_all add: doe_def)
  have z: "z = era * 146097 + doe" by (simp add: era_def doe_def)
  define yoe where "yoe = eraYear doe"
  define doy where "doy = doe - eraDays yoe"
  define mp where "mp = (5 * doy + 2) div 153"
  define d where "d = doy - monthStart mp + 1"
  have yoe: "0 \<le> yoe" "yoe \<le> 399" using eraYear_inside [OF doe] by (auto simp: yoe_def)
  have doy: "0 \<le> doy" "doe < yearStart (yoe + 1)"
    using eraYear_spec [OF doe, folded yoe_def] by (auto simp: doy_def yearStart_eraDays(2) [OF yoe])
  have "yearStart (yoe + 1) \<le> yearStart yoe + 366" by (simp add: yearStart_step)
  then have doy366: "doy < 366" using doy by (simp add: doy_def yearStart_eraDays(1) [OF yoe])
  have mp: "0 \<le> mp" "mp \<le> 11" using doy(1) doy366 by (auto simp: mp_def)
  have d: "1 \<le> d" "monthStart mp + d \<le> monthStart (mp + 1)"
    using monthStart_iff [of doy mp] by (auto simp: mp_def d_def)
  have "\<bar>z\<bar> < 2 ^ 39" using assms by (simp add: z_def)
  then have "\<bar>era * 400\<bar> < 2 ^ 31" using z doe by auto
  then have cast: "cast32 (era * 400) = era * 400" "cast32 doe = doe"
    using doe by (auto intro!: cast32_id)
  have eraq: "(if 0 \<le> z then z else z - 146096) sdiv 146097 = era"
    unfolding era_def by (rule floor_bias) simp_all
  have parts: "z - era * 146097 = doe" "365 * yoe + yoe sdiv 4 - yoe sdiv 100 = eraDays yoe"
    "doe - eraDays yoe = doy" "(5 * doy + 2) sdiv 153 = mp"
    using yoe doy(1) by (simp_all add: z eraDays_def sdiv_nonneg doy_def mp_def)
  have "civilFromDays n =
      (let m = mp + (if mp < 10 then 3 else - 9) in (yoe + era * 400 + (if m \<le> 2 then 1 else 0), m, d))"
    unfolding civilFromDays_def z_def [symmetric]
    by (simp only: Let_def eraq parts cast eraYear_code [OF doe(1), folded yoe_def] monthStart_code [OF mp(1)] d_def)
  then have "civilFromDays n =
      (if mp < 10 then yoe + 400 * era else yoe + 400 * era + 1, if mp < 10 then mp + 3 else mp - 9, d)"
    using mp by (auto simp: Let_def)
  moreover have "z < yearStart (yoe + 400 * era + 1)" "z = yearStart (yoe + 400 * era) + monthStart mp + d - 1"
    using yearStart_era [of "yoe + 1" era] doy(2) yearStart_era [of yoe era]
    by (simp_all add: z d_def doy_def yearStart_eraDays(1) [OF yoe] algebra_simps)
  ultimately show ?thesis using mp d that [of mp "yoe + 400 * era" d] by (simp add: z_def)
qed

lemma month_cases:
  assumes "1 \<le> m" "m \<le> 12"
  obtains "m = 1" | "m = 2" | "m = 3" | "m = 4" | "m = 5" | "m = 6" | "m = 7" | "m = 8" | "m = 9"
    | "m = 10" | "m = 11" | "m = (12 :: int)"
proof -
  have "m = 1 \<or> m = 2 \<or> m = 3 \<or> m = 4 \<or> m = 5 \<or> m = 6 \<or> m = 7 \<or> m = 8 \<or> m = 9 \<or> m = 10 \<or> m = 11 \<or> m = 12"
    using assms by presburger
  then show ?thesis using that by blast
qed

lemma daysInMonth_march:
  assumes "1 \<le> m" "m \<le> 12" "m \<noteq> 2"
  shows "Calendar_daysInMonth y m = (let mp = if m \<le> 2 then m + 9 else m - 3 in monthStart (mp + 1) - monthStart mp)"
  using assms(1,2) by (cases rule: month_cases) (use assms(3) in \<open>simp_all add: Calendar_daysInMonth_def monthStart_def\<close>)

lemma daysInMonth_february: "monthStart 11 + Calendar_daysInMonth (y + 1) 2 = yearStart (y + 1) - yearStart y"
  by (simp add: Calendar_daysInMonth_def monthStart_def yearStart_step)

lemma validDate_parts:
  assumes "validDate (y0, m, d)" and "y = (if m \<le> 2 then y0 - 1 else y0)" and "mp = (if m \<le> 2 then m + 9 else m - 3)"
  shows "0 \<le> mp \<and> mp \<le> 11 \<and> 1 \<le> d \<and> monthStart mp + d \<le> monthStart (mp + 1)
    \<and> yearStart y + monthStart mp + d - 1 < yearStart (y + 1)"
proof -
  have m: "1 \<le> m" "m \<le> 12" and d: "1 \<le> d" "d \<le> Calendar_daysInMonth y0 m" using assms(1) by auto
  from m show ?thesis
    by (cases rule: month_cases)
      (use d assms(2,3) daysInMonth_february [of "y0 - 1"] in
        \<open>auto simp: Calendar_daysInMonth_def monthStart_def yearStart_step split: if_splits\<close>)
qed

lemma civilFromDays_valid:
  assumes "\<bar>n\<bar> < 2 ^ 38"
  shows "validDate (civilFromDays n) \<and> dayNumber (civilFromDays n) = n"
proof -
  obtain y mp d where p:
    "civilFromDays n = (if mp < 10 then y else y + 1, if mp < 10 then mp + 3 else mp - 9, d)"
    "n + 719468 < yearStart (y + 1)" "0 \<le> mp" "mp \<le> 11" "1 \<le> d" "monthStart mp + d \<le> monthStart (mp + 1)"
    "n + 719468 = yearStart y + monthStart mp + d - 1"
    by (rule civilFromDays_parts [OF assms])
  have "d \<le> Calendar_daysInMonth (if mp < 10 then y else y + 1) (if mp < 10 then mp + 3 else mp - 9)"
  proof (cases "mp = 11")
    case True
    then show ?thesis using p(2,7) daysInMonth_february [of y] by simp
  next
    case False
    then show ?thesis using p(3,4,6) by (auto simp: daysInMonth_march Let_def add.commute [of 1 mp])
  qed
  then show ?thesis using p by auto
qed

lemma dayNumber_inj:
  assumes "validDate a" "validDate b" "dayNumber a = dayNumber b"
  shows "a = b"
proof -
  obtain y1 m1 d1 y2 m2 d2 where ab: "a = (y1, m1, d1)" "b = (y2, m2, d2)" by (cases a; cases b) auto
  define ya where "ya = (if m1 \<le> 2 then y1 - 1 else y1)"
  define yb where "yb = (if m2 \<le> 2 then y2 - 1 else y2)"
  define pa where "pa = (if m1 \<le> 2 then m1 + 9 else m1 - 3)"
  define pb where "pb = (if m2 \<le> 2 then m2 + 9 else m2 - 3)"
  note A = validDate_parts [OF assms(1) [unfolded ab] ya_def pa_def]
  note B = validDate_parts [OF assms(2) [unfolded ab] yb_def pb_def]
  have mono: "0 \<le> monthStart pa" "0 \<le> monthStart pb" using A B monthStart_bounds [of pa] monthStart_bounds [of pb] by linarith+
  have eq: "yearStart ya + monthStart pa + d1 = yearStart yb + monthStart pb + d2"
    using assms(3) by (simp add: ab ya_def yb_def pa_def pb_def)
  have y: "ya = yb"
    by (rule yearStart_unique [of _ "yearStart ya + monthStart pa + d1 - 1"]) (use A B mono eq in auto)
  then have "monthStart pa + d1 = monthStart pb + d2" using eq by simp
  then have "pa = pb" using A B monthStart_iff [of "monthStart pa + d1 - 1" pa] monthStart_iff [of "monthStart pa + d1 - 1" pb] by simp
  moreover from this eq y have "d1 = d2" by simp
  moreover have "1 \<le> m1" "m1 \<le> 12" "1 \<le> m2" "m2 \<le> 12" using assms(1,2) ab by auto
  ultimately show ?thesis using y by (auto simp: ab ya_def yb_def pa_def pb_def split: if_splits)
qed

lemma dayNumber_nextDate:
  assumes "validDate c"
  shows "validDate (nextDate c) \<and> dayNumber (nextDate c) = dayNumber c + 1"
proof -
  obtain y m d where c: "c = (y, m, d)" by (cases c) auto
  have m: "1 \<le> m" "m \<le> 12" and d: "1 \<le> d" "d \<le> Calendar_daysInMonth y m" using assms c by auto
  from m show ?thesis
    by (cases rule: month_cases)
      (use d daysInMonth_february [of "y - 1"] in
        \<open>auto simp: c Calendar_daysInMonth_def monthStart_def yearStart_step split: if_splits\<close>)
qed

lemma civilFromDays_dayNumber:
  assumes "validDate c" "\<bar>dayNumber c\<bar> < 2 ^ 38"
  shows "civilFromDays (dayNumber c) = c"
  using dayNumber_inj [OF _ assms(1)] civilFromDays_valid [OF assms(2)] by blast

section \<open>Counting forward\<close>

text \<open>What a calendar promises its clients: every date has a successor, numbered one more, and no two
  dates share a number.\<close>

locale day_count =
  fixes valid :: "'d \<Rightarrow> bool" and succ_day :: "'d \<Rightarrow> 'd" and number :: "'d \<Rightarrow> int"
  assumes succ_valid: "valid c \<Longrightarrow> valid (succ_day c)"
    and succ_number: "valid c \<Longrightarrow> number (succ_day c) = number c + 1"
    and number_inj: "valid a \<Longrightarrow> valid b \<Longrightarrow> number a = number b \<Longrightarrow> a = b"
begin

lemma iterate: "valid c \<Longrightarrow> valid ((succ_day ^^ n) c) \<and> number ((succ_day ^^ n) c) = number c + int n"
  by (induction n) (simp_all add: succ_valid succ_number)

lemma iterate_unique: "valid a \<Longrightarrow> valid b \<Longrightarrow> number b = number a + int n \<Longrightarrow> b = (succ_day ^^ n) a"
  using iterate number_inj by metis

end

interpretation gregorian: day_count validDate nextDate dayNumber
  by unfold_locales (use dayNumber_nextDate dayNumber_inj in blast)+

lemma civilFromDays_Suc:
  assumes "\<bar>n\<bar> < 2 ^ 37"
  shows "civilFromDays (n + 1) = nextDate (civilFromDays n)"
  using gregorian.iterate_unique [of "civilFromDays n" "civilFromDays (n + 1)" 1]
    civilFromDays_valid [of n] civilFromDays_valid [of "n + 1"] assms by simp

end
