(* ===== verification/Calendar.thy ===== *)
theory Calendar
  imports Gregorian "HOL-Library.Monad_Syntax"
begin

text \<open>
  \<open>src/time/calendar.c\<close>: date arithmetic.  Arithmetic that leaves the signed type of its operands is
  undefined in C: the guards \<open>s32\<close> and \<open>s64\<close> make such a run \<open>None\<close>.  The operators without a guard
  have operands whose bounds keep the result inside the type.
\<close>

section \<open>The operations\<close>

definition fits32 :: "int \<Rightarrow> bool" where
  "fits32 x \<longleftrightarrow> - (2 ^ 31) \<le> x \<and> x < 2 ^ 31"

definition fits64 :: "int \<Rightarrow> bool" where
  "fits64 x \<longleftrightarrow> - (2 ^ 63) \<le> x \<and> x < 2 ^ 63"

definition s32 :: "int \<Rightarrow> int option" where
  "s32 x = (if fits32 x then Some x else None)"

definition s64 :: "int \<Rightarrow> int option" where
  "s64 x = (if fits64 x then Some x else None)"

definition Calendar_dayOfWeek :: "int \<Rightarrow> int \<Rightarrow> int \<Rightarrow> int option" where
  "Calendar_dayOfWeek year0 month0 day = do {
     let month = (if month0 < 3 then month0 + 12 else month0);
     year \<leftarrow> s32 (if month0 < 3 then year0 - 1 else year0);
     let k = year smod 100;
     let j = year sdiv 100;
     a \<leftarrow> s32 (month + 1);
     b \<leftarrow> s32 (13 * a);
     c1 \<leftarrow> s32 (day + b sdiv 5);
     c2 \<leftarrow> s32 (c1 + k);
     c3 \<leftarrow> s32 (c2 + k sdiv 4);
     c4 \<leftarrow> s32 (c3 + j sdiv 4);
     c5 \<leftarrow> s32 (c4 + 5 * j);
     let h = c5 smod 7;
     Some (if h = 0 then 6 else if h = 1 then 7 else if h = 2 then 1 else if h = 3 then 2
           else if h = 4 then 3 else if h = 5 then 4 else 5)
   }"

definition Calendar_addDays :: "DateTime \<Rightarrow> int \<Rightarrow> DateTime option" where
  "Calendar_addDays dt days = do {
     t \<leftarrow> s64 (DateTime_epochMillis dt + days * 86400000);
     Some (setEpochMillis dt t)
   }"

definition toEpochMillis :: "int \<Rightarrow> int \<Rightarrow> int \<Rightarrow> int \<Rightarrow> int \<Rightarrow> int \<Rightarrow> int \<Rightarrow> int option" where
  "toEpochMillis year month day hour minute second millisecond = do {
     y \<leftarrow> s32 (year - (if month \<le> 2 then 1 else 0));
     let m = month + (if month \<le> 2 then 9 else - 3);
     e \<leftarrow> s32 (if 0 \<le> y then y else y - 399);
     let era = e sdiv 400;
     let yoe = y - era * 400;
     a \<leftarrow> s32 (153 * m);
     b \<leftarrow> s32 (a + 2);
     c \<leftarrow> s32 (b sdiv 5 + day);
     doy \<leftarrow> s32 (c - 1);
     doe \<leftarrow> s32 (yoe * 365 + yoe sdiv 4 - yoe sdiv 100 + doy);
     let totalDays = era * 146097 + doe - 719468;
     let totalSecs = totalDays * 86400 + hour * 3600 + minute * 60 + second;
     millis \<leftarrow> s64 (totalSecs * 1000);
     s64 (millis + millisecond)
   }"

definition Calendar_addMonths :: "DateTime \<Rightarrow> int \<Rightarrow> DateTime option" where
  "Calendar_addMonths dt months = do {
     let day = DateTime_day dt;
     a \<leftarrow> s32 (DateTime_year dt * 12);
     b \<leftarrow> s32 (DateTime_month dt - 1);
     c \<leftarrow> s32 (a + b);
     totalMonths \<leftarrow> s32 (c + months);
     let newYear = totalMonths sdiv 12;
     let newMonth = totalMonths smod 12 + 1;
     let maxDays = Calendar_daysInMonth newYear newMonth;
     let newDay = (if day < maxDays then day else maxDays);
     t \<leftarrow> toEpochMillis newYear newMonth newDay
            (DateTime_hour dt) (DateTime_minute dt) (DateTime_second dt) (DateTime_millisecond dt);
     Some (setEpochMillis dt t)
   }"

definition Calendar_addYears :: "DateTime \<Rightarrow> int \<Rightarrow> DateTime option" where
  "Calendar_addYears dt years = do {
     let month = DateTime_month dt;
     let day = DateTime_day dt;
     newYear \<leftarrow> s32 (DateTime_year dt + years);
     let maxDays = Calendar_daysInMonth newYear month;
     let newDay = (if day < maxDays then day else maxDays);
     t \<leftarrow> toEpochMillis newYear month newDay
            (DateTime_hour dt) (DateTime_minute dt) (DateTime_second dt) (DateTime_millisecond dt);
     Some (setEpochMillis dt t)
   }"

section \<open>The fields of an instant\<close>

definition dateOf :: "DateTime \<Rightarrow> date" where
  "dateOf dt = (dt_year dt, dt_month dt, dt_day dt)"

definition timeOf :: "DateTime \<Rightarrow> int \<times> int \<times> int \<times> int" where
  "timeOf dt = (dt_hour dt, dt_minute dt, dt_second dt, dt_millisecond dt)"

fun validTime :: "int \<times> int \<times> int \<times> int \<Rightarrow> bool" where
  "validTime (h, mi, s, ms) \<longleftrightarrow>
    0 \<le> h \<and> h < 24 \<and> 0 \<le> mi \<and> mi < 60 \<and> 0 \<le> s \<and> s < 60 \<and> 0 \<le> ms \<and> ms < 1000"

fun millisOfDay :: "int \<times> int \<times> int \<times> int \<Rightarrow> int" where
  "millisOfDay (h, mi, s, ms) = ((h * 60 + mi) * 60 + s) * 1000 + ms"

lemma setEpochMillis_fields:
  "dateOf (setEpochMillis dt t) = civilFromDays (t div 86400000)"
  "timeOf (setEpochMillis dt t) = (t div 3600000 mod 24, t div 60000 mod 60, t div 1000 mod 60, t mod 1000)"
  "dt_dayOfWeek (setEpochMillis dt t) = (t div 86400000 + 3) mod 7 + 1"
  "dt_epochMillis (setEpochMillis dt t) = t"
  by (simp_all add: setEpochMillis_def splitUnit_floor isoDay_floor dateOf_def timeOf_def zdiv_zmult2_eq [symmetric]
      split: prod.splits)

lemma fits64_days:
  assumes "fits64 t"
  shows "\<bar>t div 86400000\<bar> < 2 ^ 37"
proof -
  define q where "q = t div 86400000"
  have "86400000 * q \<le> t" "t < 86400000 * q + 86400000"
    using div_eq_iff [of 86400000 t q] by (simp_all add: q_def)
  then have "\<bar>q\<bar> < 2 ^ 37" using assms by (simp add: fits64_def abs_less_iff)
  then show ?thesis by (simp add: q_def)
qed

lemma setEpochMillis_valid:
  assumes "fits64 t"
  shows "validDate (dateOf (setEpochMillis dt t))" "dayNumber (dateOf (setEpochMillis dt t)) = t div 86400000"
    "validTime (timeOf (setEpochMillis dt t))"
  using civilFromDays_valid [of "t div 86400000"] fits64_days [OF assms] by (simp_all add: setEpochMillis_fields)

text \<open>An instant is a day and a time of that day.\<close>

lemma millisOfDay_split: "t = t div 86400000 * 86400000 + millisOfDay (timeOf (setEpochMillis dt t))"
proof -
  define a b c n where "a = t div 1000" and "b = a div 60" and "c = b div 60" and "n = c div 24"
  have q: "t div 86400000 = n" "t div 3600000 = c" "t div 60000 = b"
    by (simp_all add: a_def b_def c_def n_def zdiv_zmult2_eq [symmetric])
  have "t = a * 1000 + t mod 1000" "a = b * 60 + a mod 60" "b = c * 60 + b mod 60" "c = n * 24 + c mod 24"
    unfolding n_def c_def b_def a_def by (simp_all only: div_mult_mod_eq)
  moreover have "t = n * 86400000 + (((r1 * 60 + r2) * 60 + r3) * 1000 + r4)"
    if "t = a * 1000 + r4" "a = b * 60 + r3" "b = c * 60 + r2" "c = n * 24 + r1" for r1 r2 r3 r4
    using that by simp
  ultimately show ?thesis unfolding setEpochMillis_fields q a_def [symmetric] millisOfDay.simps by blast
qed

lemma millisOfDay_bounds: "validTime tm \<Longrightarrow> 0 \<le> millisOfDay tm \<and> millisOfDay tm < 86400000"
proof -
  assume v: "validTime tm"
  obtain h mi s ms where tm: "tm = (h, mi, s, ms)" by (cases tm rule: millisOfDay.cases) auto
  have "0 \<le> h * 60 + mi" "h * 60 + mi < 1440" using v tm by simp_all
  moreover from this have "0 \<le> (h * 60 + mi) * 60 + s" "(h * 60 + mi) * 60 + s < 86400" using v tm by simp_all
  ultimately show ?thesis using v tm by simp
qed

lemma div_mod_eqs:
  assumes "0 \<le> r" "r < (k :: int)"
  shows "(q * k + r) div k = q" "(q * k + r) mod k = r"
  using assms by simp_all

lemma timeOf_millis:
  assumes "validTime tm"
  shows "timeOf (setEpochMillis dt (n * 86400000 + millisOfDay tm)) = tm"
    "(n * 86400000 + millisOfDay tm) div 86400000 = n"
proof -
  obtain h mi s ms where tm: "tm = (h, mi, s, ms)" by (cases tm rule: millisOfDay.cases) auto
  have b: "0 \<le> h" "h < 24" "0 \<le> mi" "mi < 60" "0 \<le> s" "s < 60" "0 \<le> ms" "ms < 1000" using assms tm by auto
  define t where "t = n * 86400000 + millisOfDay tm"
  define h' where "h' = n * 24 + h"
  define mi' where "mi' = h' * 60 + mi"
  define s' where "s' = mi' * 60 + s"
  have t: "t = s' * 1000 + ms" by (simp add: t_def tm h'_def mi'_def s'_def)
  note q = div_mod_eqs [OF b(7,8), of s', folded t] div_mod_eqs [OF b(5,6), of mi', folded s'_def]
    div_mod_eqs [OF b(3,4), of h', folded mi'_def] div_mod_eqs [OF b(1,2), of n, folded h'_def]
  have "t div 60000 = t div 1000 div 60" "t div 3600000 = t div 1000 div 60 div 60"
    by (simp_all add: zdiv_zmult2_eq [symmetric])
  then have "timeOf (setEpochMillis dt t) = tm" by (simp add: setEpochMillis_fields tm q)
  then show "timeOf (setEpochMillis dt (n * 86400000 + millisOfDay tm)) = tm" by (simp add: t_def)
  show "(n * 86400000 + millisOfDay tm) div 86400000 = n"
    using millisOfDay_bounds [OF assms] by simp
qed

lemma add_days_split: "t + n * 86400000 = (t div 86400000 + n) * 86400000 + millisOfDay (timeOf (setEpochMillis dt t))"
  using millisOfDay_split [of t dt] unfolding distrib_right by linarith

lemma timeOf_add_days: "fits64 t \<Longrightarrow> timeOf (setEpochMillis dt (t + n * 86400000)) = timeOf (setEpochMillis dt t)"
  unfolding add_days_split [of t n dt] by (rule timeOf_millis(1)) (rule setEpochMillis_valid(3))

text \<open>The inverse of the chain, on dates and times that are valid.\<close>

lemma s32_eq [simp]: "fits32 x \<Longrightarrow> s32 x = Some x"
  by (simp add: s32_def)

lemma toEpochMillis_value:
  assumes "validDate (y, m, d)" "validTime (h, mi, s, ms)" "\<bar>y\<bar> \<le> 2 ^ 30"
    "e = dayNumber (y, m, d) * 86400000 + millisOfDay (h, mi, s, ms)" "fits64 (e - ms)" "fits64 e"
  shows "toEpochMillis y m d h mi s ms = Some e"
proof -
  define y' where "y' = y - (if m \<le> 2 then 1 else 0)"
  define m' where "m' = m + (if m \<le> 2 then 9 else - 3)"
  define era where "era = y' div 400"
  define yoe where "yoe = y' mod 400"
  define doe where "doe = eraDays yoe + (monthStart m' + d - 1)"
  have m: "1 \<le> m" "m \<le> 12" "1 \<le> d" "d \<le> 31"
    using assms(1) by (auto simp: Calendar_daysInMonth_def split: if_splits)
  have m': "0 \<le> m'" "m' \<le> 11" using m by (auto simp: m'_def)
  have yoe: "0 \<le> yoe" "yoe \<le> 399" "y' = yoe + 400 * era" by (auto simp: yoe_def era_def)
  have ms: "0 \<le> monthStart m'" "monthStart m' \<le> 400" using monthStart_bounds [of m'] m' by linarith+
  have ed: "0 \<le> eraDays yoe" "eraDays yoe \<le> 146000"
    using eraDays_mono [of 0 yoe] eraDays_mono [of yoe 399] yoe by (auto simp: eraDays_def)
  have e: "dayNumber (y, m, d) = era * 146097 + doe - 719468"
    using yearStart_era [of yoe era] yoe yearStart_eraDays(1) [of yoe]
    by (simp add: doe_def y'_def m'_def split: if_splits)
  have y32: "fits32 y'" "fits32 (if 0 \<le> y' then y' else y' - 399)"
    using assms(3) by (auto simp: fits32_def y'_def)
  have eraq: "(if 0 \<le> y' then y' else y' - 399) sdiv 400 = era"
    unfolding era_def by (rule floor_bias) simp_all
  have parts: "y' - era * 400 = yoe" "yoe * 365 + yoe sdiv 4 - yoe sdiv 100 = eraDays yoe"
    using yoe by (simp_all add: eraDays_def sdiv_nonneg)
  have month: "fits32 (153 * m')" "fits32 (153 * m' + 2)" "(153 * m' + 2) sdiv 5 = monthStart m'"
    "fits32 (monthStart m' + d)" "fits32 (monthStart m' + d - 1)" "fits32 (eraDays yoe + (monthStart m' + d - 1))"
    using m' m ms ed monthStart_code [OF m'(1)] by (auto simp: fits32_def)
  have doe: "s32 doe = Some doe" using month(6) by (simp add: doe_def)
  have "((era * 146097 + doe - 719468) * 86400 + h * 3600 + mi * 60 + s) * 1000 = e - ms"
    by (simp add: assms(4) e algebra_simps del: dayNumber.simps)
  then show ?thesis
    using assms(5,6) unfolding toEpochMillis_def y'_def [symmetric] m'_def [symmetric] Let_def
    by (simp only: s32_eq y32 eraq parts month doe_def [symmetric] doe bind.bind_lunit) (simp add: s64_def)
qed

lemma year_bound:
  assumes "validDate (y, m, d)" "\<bar>dayNumber (y, m, d)\<bar> < 2 ^ 37"
  shows "\<bar>y\<bar> \<le> 2 ^ 30"
proof -
  define y' where "y' = (if m \<le> 2 then y - 1 else y)"
  define mp where "mp = (if m \<le> 2 then m + 9 else m - 3)"
  note p = validDate_parts [OF assms(1) y'_def mp_def]
  have "0 \<le> monthStart mp" using p monthStart_bounds [of mp] by linarith
  moreover have n: "dayNumber (y, m, d) = yearStart y' + monthStart mp + d - 1 - 719468"
    by (simp add: y'_def mp_def)
  ultimately have b: "yearStart y' < 2 ^ 38" "- (2 ^ 38) < yearStart (y' + 1)" using assms(2) p by auto
  have "\<not> 2 ^ 30 \<le> y'" using b(1) yearStart_mono [of "2 ^ 30" y'] by (auto simp: yearStart_def)
  moreover have "\<not> y' + 1 \<le> - (2 ^ 30) + 1" using b(2) yearStart_mono [of "y' + 1" "- (2 ^ 30) + 1"] by (auto simp: yearStart_def)
  ultimately show ?thesis by (auto simp: y'_def split: if_splits)
qed

lemma dayNumber_bound:
  assumes "validDate (y, m, d)" "\<bar>y\<bar> \<le> 2 ^ 28"
  shows "\<bar>dayNumber (y, m, d)\<bar> < 10 ^ 11"
proof -
  define y' where "y' = (if m \<le> 2 then y - 1 else y)"
  define mp where "mp = (if m \<le> 2 then m + 9 else m - 3)"
  note p = validDate_parts [OF assms(1) y'_def mp_def]
  have "0 \<le> monthStart mp" using p monthStart_bounds [of mp] by linarith
  moreover have "yearStart (- (2 ^ 28) - 1) \<le> yearStart y'" "yearStart (y' + 1) \<le> yearStart (2 ^ 28 + 1)"
    using assms(2) by (auto intro!: yearStart_mono simp: y'_def)
  moreover have "dayNumber (y, m, d) = yearStart y' + monthStart mp + d - 1 - 719468"
    by (simp add: y'_def mp_def)
  moreover have "- 99000000000 < yearStart (- (2 ^ 28) - 1)" "yearStart (2 ^ 28 + 1) < 99000000000"
    by (simp_all add: yearStart_def)
  ultimately show ?thesis using p by auto
qed

lemma setEpochMillis_of_date:
  assumes "validDate c" "\<bar>dayNumber c\<bar> < 2 ^ 38" "validTime tm"
  shows "dateOf (setEpochMillis dt (dayNumber c * 86400000 + millisOfDay tm)) = c"
    "timeOf (setEpochMillis dt (dayNumber c * 86400000 + millisOfDay tm)) = tm"
proof -
  show "timeOf (setEpochMillis dt (dayNumber c * 86400000 + millisOfDay tm)) = tm" by (rule timeOf_millis(1) [OF assms(3)])
  show "dateOf (setEpochMillis dt (dayNumber c * 86400000 + millisOfDay tm)) = c"
    using civilFromDays_dayNumber [OF assms(1,2)] by (simp only: setEpochMillis_fields timeOf_millis(2) [OF assms(3)])
qed

declare dayNumber.simps [simp del] millisOfDay.simps [simp del]

text \<open>What the adders do last: a valid date and a time of day, back to the fields.\<close>

lemma rebuild:
  assumes "validDate (y, m, d)" "validTime (h, mi, s, ms)" "\<bar>y\<bar> \<le> 2 ^ 28"
  obtains e where "toEpochMillis y m d h mi s ms = Some e"
    "dateOf (setEpochMillis dt e) = (y, m, d)" "timeOf (setEpochMillis dt e) = (h, mi, s, ms)"
proof -
  define e where "e = dayNumber (y, m, d) * 86400000 + millisOfDay (h, mi, s, ms)"
  have n: "\<bar>dayNumber (y, m, d)\<bar> < 10 ^ 11" by (rule dayNumber_bound [OF assms(1,3)])
  have "fits64 (e - ms)" "fits64 e"
    using n millisOfDay_bounds [OF assms(2)] assms(2) by (auto simp: fits64_def e_def abs_less_iff)
  then have "toEpochMillis y m d h mi s ms = Some e"
    using toEpochMillis_value [OF assms(1,2) _ e_def] assms(3) by simp
  moreover have "\<bar>dayNumber (y, m, d)\<bar> < 2 ^ 38" using n by simp
  ultimately show ?thesis using that setEpochMillis_of_date [OF assms(1) _ assms(2), of dt] by (simp add: e_def [symmetric])
qed

section \<open>The calendar\<close>

text \<open>A cleared structure, for the examples.\<close>

definition epoch0 :: DateTime where
  "epoch0 = \<lparr>dt_epochMillis = 0, dt_year = 0, dt_month = 0, dt_day = 0, dt_hour = 0, dt_minute = 0,
    dt_second = 0, dt_millisecond = 0, dt_dayOfWeek = 0\<rparr>"

text \<open>
C34: \<open>setEpochMillis\<close> is the proleptic Gregorian calendar.  The epoch is Thursday, the first of January
1970; whatever the instant of 64 bits, the stored date and time of day exist; and a day later the
time of day is the same, the date is the next date and the weekday is the next weekday.
\<close>

theorem setEpochMillis_calendar:
  assumes "fits64 t" "fits64 (t + 86400000)"
  shows "dateOf (setEpochMillis dt 0) = (1970, 1, 1) \<and> dt_dayOfWeek (setEpochMillis dt 0) = 4 \<and>
    validDate (dateOf (setEpochMillis dt t)) \<and> validTime (timeOf (setEpochMillis dt t)) \<and>
    millisOfDay (timeOf (setEpochMillis dt t)) = t mod 86400000 \<and>
    dateOf (setEpochMillis dt (t + 86400000)) = nextDate (dateOf (setEpochMillis dt t)) \<and>
    timeOf (setEpochMillis dt (t + 86400000)) = timeOf (setEpochMillis dt t) \<and>
    dt_dayOfWeek (setEpochMillis dt (t + 86400000)) = dt_dayOfWeek (setEpochMillis dt t) mod 7 + 1"
proof -
  have D: "(t + 86400000) div 86400000 = t div 86400000 + 1" by (rule div_add_self2) simp
  have "dayNumber (1970, 1, 1) = 0" by (simp add: dayNumber.simps yearStart_def monthStart_def)
  then have "civilFromDays 0 = (1970, 1, 1)"
    using civilFromDays_dayNumber [of "(1970, 1, 1)"] by (simp add: Calendar_daysInMonth_def)
  then have "dateOf (setEpochMillis dt 0) = (1970, 1, 1)" "dt_dayOfWeek (setEpochMillis dt 0) = 4"
    by (simp_all add: setEpochMillis_fields)
  moreover have "millisOfDay (timeOf (setEpochMillis dt t)) = t mod 86400000"
    using millisOfDay_split [of t dt] by (simp add: minus_div_mult_eq_mod [symmetric])
  moreover have "dateOf (setEpochMillis dt (t + 86400000)) = nextDate (dateOf (setEpochMillis dt t))"
    using civilFromDays_Suc [OF fits64_days [OF assms(1)]] by (simp add: setEpochMillis_fields D)
  moreover have "dt_dayOfWeek (setEpochMillis dt (t + 86400000)) = dt_dayOfWeek (setEpochMillis dt t) mod 7 + 1"
    by (simp add: setEpochMillis_fields D mod_simps ac_simps)
  ultimately show ?thesis
    using setEpochMillis_valid [OF assms(1)] timeOf_add_days [OF assms(1), of dt 1] by simp
qed

theorem setEpochMillis_calendar_witness:
  "dateOf (setEpochMillis epoch0 (- 1 + 86400000)) = nextDate (dateOf (setEpochMillis epoch0 (- 1)))"
  using setEpochMillis_calendar [of "- 1" epoch0] by (simp add: fits64_def)

text \<open>
C35: The fields of an instant determine it: the conversion of \<open>calendar.c\<close> back to milliseconds runs
without overflow and returns the instant, unless the start of its second lies below the range of
64 bits; and the instant of any date and time that exist has that date and time as its fields.
\<close>

theorem toEpochMillis_roundtrip:
  assumes "fits64 t" "fits64 (t - t mod 1000)"
    and "validDate (y, m, d)" "validTime (h, mi, s, ms)" "\<bar>y\<bar> \<le> 2 ^ 28"
  shows "(let f = setEpochMillis dt t in
      toEpochMillis (dt_year f) (dt_month f) (dt_day f) (dt_hour f) (dt_minute f) (dt_second f) (dt_millisecond f)) = Some t \<and>
    map_option (\<lambda>e. (dateOf (setEpochMillis dt e), timeOf (setEpochMillis dt e)))
      (toEpochMillis y m d h mi s ms) = Some ((y, m, d), (h, mi, s, ms))"
proof -
  define f where "f = setEpochMillis dt t"
  have v: "validDate (dt_year f, dt_month f, dt_day f)" "dayNumber (dt_year f, dt_month f, dt_day f) = t div 86400000"
    "validTime (dt_hour f, dt_minute f, dt_second f, dt_millisecond f)"
    using setEpochMillis_valid [OF assms(1), of dt] by (simp_all add: f_def dateOf_def timeOf_def)
  have "dt_millisecond f = t mod 1000" using setEpochMillis_fields(2) [of dt t] by (simp add: f_def timeOf_def)
  then have "toEpochMillis (dt_year f) (dt_month f) (dt_day f) (dt_hour f) (dt_minute f) (dt_second f) (dt_millisecond f) = Some t"
  proof (intro toEpochMillis_value [OF v(1,3)] year_bound [OF v(1)])
    show "\<bar>dayNumber (dt_year f, dt_month f, dt_day f)\<bar> < 2 ^ 37" using v(2) fits64_days [OF assms(1)] by simp
    show "t = dayNumber (dt_year f, dt_month f, dt_day f) * 86400000 +
        millisOfDay (dt_hour f, dt_minute f, dt_second f, dt_millisecond f)"
      using millisOfDay_split [of t dt] v(2) by (simp add: f_def timeOf_def)
  qed (use assms(1,2) in simp_all)
  moreover obtain e where "toEpochMillis y m d h mi s ms = Some e" "dateOf (setEpochMillis dt e) = (y, m, d)"
    "timeOf (setEpochMillis dt e) = (h, mi, s, ms)"
    by (rule rebuild [OF assms(3-5)])
  ultimately show ?thesis by (simp add: f_def Let_def)
qed

theorem toEpochMillis_roundtrip_witness:
  "(let f = setEpochMillis epoch0 (- 1) in
      toEpochMillis (dt_year f) (dt_month f) (dt_day f) (dt_hour f) (dt_minute f) (dt_second f) (dt_millisecond f)) = Some (- 1)"
  using toEpochMillis_roundtrip [of "- 1" 2024 2 29 23 59 59 999 epoch0]
  by (simp add: fits64_def Calendar_daysInMonth_def isLeapYear_dvd)

text \<open>The clipped day exists.\<close>

lemma clip_valid:
  assumes "1 \<le> m" "m \<le> 12" "1 \<le> d"
  shows "validDate (y, m, min d (Calendar_daysInMonth y m))"
proof -
  have "28 \<le> Calendar_daysInMonth y m" using assms(1,2) by (simp add: Calendar_daysInMonth_def)
  then show ?thesis using assms by simp
qed

lemma clip_min: "(if d < n then d else n) = min d (n :: int)"
  by simp

lemma rebuild_clip:
  assumes "validDate (dateOf f)" "validTime (timeOf f)" "\<bar>y\<bar> \<le> 2 ^ 28" "1 \<le> m" "m \<le> 12"
  shows "map_option (\<lambda>e. (dateOf (setEpochMillis dt e), timeOf (setEpochMillis dt e)))
    (toEpochMillis y m (min (dt_day f) (Calendar_daysInMonth y m))
      (dt_hour f) (dt_minute f) (dt_second f) (dt_millisecond f))
    = Some ((y, m, min (dt_day f) (Calendar_daysInMonth y m)), timeOf f)"
proof -
  have "1 \<le> dt_day f" using assms(1) by (simp add: dateOf_def)
  then have "validDate (y, m, min (dt_day f) (Calendar_daysInMonth y m))" using clip_valid assms(4,5) by blast
  then show ?thesis using rebuild [of y m _ "dt_hour f" "dt_minute f" "dt_second f" "dt_millisecond f" dt thesis] assms(2,3)
    by (auto simp: timeOf_def elim!: rebuild simp del: validDate.simps validTime.simps)
qed

text \<open>
C36: Adding months moves the date by whole months, counted from the first month of year 0, clips the
day to the end of the month it lands in and keeps the time of day; adding years does the same to the
year.  Both return, without overflow, when the months before and after stay in range.
\<close>

theorem Calendar_addMonths_clips:
  assumes "fits64 t" "f = setEpochMillis dt t" "\<bar>dt_year f\<bar> \<le> 2 ^ 27"
    and "tm = dt_year f * 12 + (dt_month f - 1) + months" "0 \<le> tm" "tm < 2 ^ 31"
    and "\<bar>dt_year f + years\<bar> \<le> 2 ^ 28"
  shows "map_option (\<lambda>r. (dateOf r, timeOf r)) (Calendar_addMonths f months) =
      Some ((tm div 12, tm mod 12 + 1,
             min (dt_day f) (Calendar_daysInMonth (tm div 12) (tm mod 12 + 1))), timeOf f) \<and>
    map_option (\<lambda>r. (dateOf r, timeOf r)) (Calendar_addYears f years) =
      Some ((dt_year f + years, dt_month f,
             min (dt_day f) (Calendar_daysInMonth (dt_year f + years) (dt_month f))), timeOf f)"
proof -
  have v: "validDate (dateOf f)" "validTime (timeOf f)" using setEpochMillis_valid(1,3) [OF assms(1)] assms(2) by simp_all
  then have m: "1 \<le> dt_month f" "dt_month f \<le> 12" by (simp_all add: dateOf_def)
  have ok: "fits32 (dt_year f * 12)" "fits32 (dt_month f - 1)" "fits32 (dt_year f * 12 + (dt_month f - 1))"
    "fits32 tm" "fits32 (dt_year f + years)"
    using assms(3,5-7) m by (auto simp: fits32_def)
  have "\<bar>tm div 12\<bar> \<le> 2 ^ 28" "1 \<le> tm mod 12 + 1" using assms(5,6) by auto
  moreover have "tm mod 12 + 1 \<le> 12" using pos_mod_bound [of 12 tm] by simp
  ultimately have R: "map_option (\<lambda>e. (dateOf (setEpochMillis f e), timeOf (setEpochMillis f e)))
      (toEpochMillis (tm div 12) (tm mod 12 + 1) (min (dt_day f) (Calendar_daysInMonth (tm div 12) (tm mod 12 + 1)))
        (dt_hour f) (dt_minute f) (dt_second f) (dt_millisecond f))
      = Some ((tm div 12, tm mod 12 + 1, min (dt_day f) (Calendar_daysInMonth (tm div 12) (tm mod 12 + 1))), timeOf f)"
    by (rule rebuild_clip [OF v])
  then have "map_option (\<lambda>r. (dateOf r, timeOf r)) (Calendar_addMonths f months) =
      Some ((tm div 12, tm mod 12 + 1,
             min (dt_day f) (Calendar_daysInMonth (tm div 12) (tm mod 12 + 1))), timeOf f)"
    using ok assms(5) by (auto simp: Calendar_addMonths_def DateTime_gets assms(4) [symmetric] sdiv_nonneg smod_nonneg clip_min)
  moreover have "map_option (\<lambda>r. (dateOf r, timeOf r)) (Calendar_addYears f years) =
      Some ((dt_year f + years, dt_month f,
             min (dt_day f) (Calendar_daysInMonth (dt_year f + years) (dt_month f))), timeOf f)"
    using ok rebuild_clip [OF v assms(7) m, of f] by (auto simp: Calendar_addYears_def DateTime_gets clip_min)
  ultimately show ?thesis by blast
qed

theorem Calendar_addMonths_clips_witness:
  "map_option (\<lambda>r. (dateOf r, timeOf r)) (Calendar_addMonths (setEpochMillis epoch0 1706659200000) 13) =
      Some ((2025, 2, 28), (0, 0, 0, 0))"
proof -
  have "dayNumber (2024, 1, 31) = 19753" by (simp add: dayNumber.simps yearStart_def monthStart_def)
  then have "civilFromDays 19753 = (2024, 1, 31)"
    using civilFromDays_dayNumber [of "(2024, 1, 31)"] by (simp add: Calendar_daysInMonth_def)
  then have "dateOf (setEpochMillis epoch0 1706659200000) = (2024, 1, 31)"
    and t: "timeOf (setEpochMillis epoch0 1706659200000) = (0, 0, 0, 0)" by (simp_all add: setEpochMillis_fields)
  then have "dt_year (setEpochMillis epoch0 1706659200000) = 2024" "dt_month (setEpochMillis epoch0 1706659200000) = 1"
    "dt_day (setEpochMillis epoch0 1706659200000) = 31" by (simp_all add: dateOf_def)
  then show ?thesis
    using Calendar_addMonths_clips [of 1706659200000 "setEpochMillis epoch0 1706659200000" epoch0 24301 13 0] t
    by (simp add: fits64_def Calendar_daysInMonth_def isLeapYear_dvd)
qed

text \<open>Adding days moves the day count and keeps the time of day; forward, it is the iterated next date.\<close>

lemma Calendar_addDays_counts:
  assumes "fits64 t" "f = setEpochMillis dt t" "fits64 (t + days * 86400000)"
  shows "map_option (\<lambda>r. (dayNumber (dateOf r), timeOf r)) (Calendar_addDays f days) =
    Some (dayNumber (dateOf f) + days, timeOf f)"
proof -
  have "Calendar_addDays f days = Some (setEpochMillis f (t + days * 86400000))"
    using assms(3) by (simp add: Calendar_addDays_def DateTime_gets assms(2) setEpochMillis_fields s64_def)
  moreover have "(t + days * 86400000) div 86400000 = t div 86400000 + days" using div_mult_self1 [of 86400000 t days] by simp
  moreover have "timeOf (setEpochMillis f (t + days * 86400000)) = timeOf f"
    using timeOf_add_days [OF assms(1), of f days] by (simp add: assms(2) setEpochMillis_fields)
  ultimately show ?thesis
    using setEpochMillis_valid(2) [OF assms(1), of dt] setEpochMillis_valid(2) [OF assms(3), of f] assms(2) by simp
qed

lemma Calendar_addDays_iterates:
  assumes "fits64 t" "f = setEpochMillis dt t" "fits64 (t + int n * 86400000)"
  shows "map_option dateOf (Calendar_addDays f (int n)) = Some ((nextDate ^^ n) (dateOf f))"
proof -
  obtain r where r: "Calendar_addDays f (int n) = Some r" "dayNumber (dateOf r) = dayNumber (dateOf f) + int n"
    using Calendar_addDays_counts [OF assms] by auto
  moreover have "validDate (dateOf r)"
    using r(1) assms setEpochMillis_valid(1) [OF assms(3)]
    by (auto simp: Calendar_addDays_def DateTime_gets setEpochMillis_fields s64_def)
  ultimately show ?thesis
    using gregorian.iterate_unique [of "dateOf f" "dateOf r" n] setEpochMillis_valid(1) [OF assms(1), of dt] assms(2)
    by simp
qed

text \<open>Zeller's congruence against the day count: the years and the months separately.\<close>

definition zeller :: "int \<Rightarrow> int \<Rightarrow> int \<Rightarrow> int" where
  "zeller y m d = d + 13 * (m + 1) div 5 + y mod 100 + y mod 100 div 4 + y div 100 div 4 + 5 * (y div 100)"

lemma zeller_years: "yearStart y = 7 * (5217 * (y div 100) + 52 * (y mod 100)) +
  (y mod 100 + y mod 100 div 4 + y div 100 div 4 + 5 * (y div 100))"
proof -
  define k j where "k = y mod 100" and "j = y div 100"
  have y: "y = k + 100 * j" by (simp add: k_def j_def)
  have "y div 4 = k div 4 + 25 * j" using div_mult_self2 [of 4 k "25 * j"] by (simp add: y)
  moreover have "y div 400 = j div 4" using zdiv_zmult2_eq [of 4 y 100] by (simp add: j_def)
  ultimately have "yearStart y = 365 * y + (k div 4 + 25 * j) - j + j div 4"
    by (simp only: yearStart_def j_def)
  then show ?thesis unfolding k_def [symmetric] j_def [symmetric] using y by simp
qed

lemma zeller_months:
  assumes "3 \<le> m" "m \<le> 14"
  shows "7 dvd monthStart (m - 3) - 13 * (m + 1) div 5 - 4"
proof -
  have "1 \<le> m - 2" "m - 2 \<le> 12" using assms by simp_all
  then show ?thesis by (cases rule: month_cases) (auto simp: monthStart_def diff_eq_eq)
qed

lemma zeller_dayNumber:
  assumes "validDate (y, m, d)"
  shows "(dayNumber (y, m, d) + 3) mod 7 = (zeller (if m < 3 then y - 1 else y) (if m < 3 then m + 12 else m) d + 5) mod 7"
proof -
  define mz where "mz = (if m < 3 then m + 12 else m)"
  define yz where "yz = (if m < 3 then y - 1 else y)"
  have mz: "3 \<le> mz" "mz \<le> 14" using assms by (auto simp: mz_def)
  obtain q where q: "monthStart (mz - 3) - 13 * (mz + 1) div 5 - 4 = 7 * q" using zeller_months [OF mz] by blast
  have "dayNumber (y, m, d) = yearStart yz + monthStart (mz - 3) + d - 1 - 719468"
    by (auto simp: dayNumber.simps yz_def mz_def add.commute [of 9 m])
  then have "dayNumber (y, m, d) + 3 = zeller yz mz d + 5 + 7 * (5217 * (yz div 100) + 52 * (yz mod 100) + q - 102781)"
    using q by (simp add: zeller_def zeller_years)
  then show ?thesis unfolding mz_def [symmetric] yz_def [symmetric] by (simp only: mod_mult_self2)
qed

lemma zeller_switch:
  "(if z mod 7 = 0 then 6 else if z mod 7 = 1 then 7 else if z mod 7 = 2 then 1 else if z mod 7 = 3 then 2
    else if z mod 7 = 4 then 3 else if z mod 7 = 5 then 4 else 5) = (z + 5) mod 7 + (1 :: int)"
proof -
  define r where "r = z mod 7"
  have "(z + 5) mod 7 = (r + 5) mod 7" by (simp add: r_def mod_simps)
  moreover have "r = 0 \<or> r = 1 \<or> r = 2 \<or> r = 3 \<or> r = 4 \<or> r = 5 \<or> r = 6"
    using pos_mod_bound [of 7 z] pos_mod_sign [of 7 z] by (simp add: r_def) presburger
  ultimately show ?thesis unfolding r_def [symmetric] by auto
qed

text \<open>
C37: The weekday computed from a date by Zeller's congruence is the weekday stored with the instant,
for every date of the year 1 or later.
\<close>

theorem Calendar_dayOfWeek_agrees:
  assumes "fits64 t" "f = setEpochMillis dt t" "1 \<le> dt_year f"
  shows "Calendar_dayOfWeek (dt_year f) (dt_month f) (dt_day f) = Some (dt_dayOfWeek f)"
proof -
  define y where "y = (if dt_month f < 3 then dt_year f - 1 else dt_year f)"
  define m where "m = (if dt_month f < 3 then dt_month f + 12 else dt_month f)"
  have v: "validDate (dt_year f, dt_month f, dt_day f)" "dayNumber (dt_year f, dt_month f, dt_day f) = t div 86400000"
    using setEpochMillis_valid [OF assms(1), of dt] assms(2) by (simp_all add: dateOf_def)
  have "\<bar>dt_year f\<bar> \<le> 2 ^ 30" using year_bound [OF v(1)] v(2) fits64_days [OF assms(1)] by simp
  then have y: "0 \<le> y" "y \<le> 2 ^ 30" using assms(3) by (auto simp: y_def)
  have m: "3 \<le> m" "m \<le> 14" and d: "1 \<le> dt_day f" "dt_day f \<le> 31"
    using v(1) by (auto simp: m_def Calendar_daysInMonth_def split: if_splits)
  define k j a where "k = y mod 100" and "j = y div 100" and "a = 13 * (m + 1) div 5"
  have b: "0 \<le> k" "k < 100" "0 \<le> j" "j \<le> 10737419" "0 \<le> a" "a \<le> 39"
    using y m by (auto simp: k_def j_def a_def)
  then have q: "0 \<le> k div 4" "k div 4 \<le> k" "0 \<le> j div 4" "j div 4 \<le> j" using zdiv_mono2 [of k 1 4] zdiv_mono2 [of j 1 4] by simp_all
  have code: "y smod 100 = k" "y sdiv 100 = j" "13 * (m + 1) sdiv 5 = a" "k sdiv 4 = k div 4" "j sdiv 4 = j div 4"
    using y m b by (simp_all add: sdiv_nonneg smod_nonneg k_def j_def a_def)
  have fit: "fits32 y" "fits32 (m + 1)" "fits32 (13 * (m + 1))" "fits32 (dt_day f + a)" "fits32 (dt_day f + a + k)"
    "fits32 (dt_day f + a + k + k div 4)" "fits32 (dt_day f + a + k + k div 4 + j div 4)"
    "fits32 (dt_day f + a + k + k div 4 + j div 4 + 5 * j)"
    using y m d b q by (simp_all add: fits32_def)
  have z: "zeller y m (dt_day f) = dt_day f + a + k + k div 4 + j div 4 + 5 * j"
    by (simp add: zeller_def k_def j_def a_def)
  have "zeller y m (dt_day f) smod 7 = zeller y m (dt_day f) mod 7"
    using d b q by (intro smod_nonneg) (simp_all add: z)
  then have "Calendar_dayOfWeek (dt_year f) (dt_month f) (dt_day f) = Some ((zeller y m (dt_day f) + 5) mod 7 + 1)"
    unfolding Calendar_dayOfWeek_def y_def [symmetric] m_def [symmetric] Let_def
    by (simp only: s32_eq fit code z bind.bind_lunit zeller_switch)
  then show ?thesis
    using zeller_dayNumber [OF v(1), folded y_def m_def] v(2) assms(2) by (simp add: setEpochMillis_fields)
qed

theorem Calendar_dayOfWeek_agrees_witness:
  "Calendar_dayOfWeek 1970 1 1 = Some 4"
proof -
  have "dateOf (setEpochMillis epoch0 0) = (1970, 1, 1)" "dt_dayOfWeek (setEpochMillis epoch0 0) = 4"
    using civilFromDays_dayNumber [of "(1970, 1, 1)"]
    by (simp_all add: setEpochMillis_fields dayNumber.simps yearStart_def monthStart_def Calendar_daysInMonth_def)
  then show ?thesis
    using Calendar_dayOfWeek_agrees [of 0 "setEpochMillis epoch0 0" epoch0] by (simp add: fits64_def dateOf_def)
qed

text \<open>
Before the year 1 the two disagree: the remainders of negative years are negative.  The first of
January of year 0 was a Saturday.  And from January of year 0 the month before it, computed with
a quotient that rounds toward zero, is month 0 of year 0, which has no days: the date becomes the
last of November of the year -1.
\<close>

lemma Calendar_dayOfWeek_year_0:
  "Calendar_dayOfWeek 0 1 1 = Some 7 \<and> isoDay (dayNumber (0, 1, 1)) = 6"
  by code_simp

lemma Calendar_addMonths_before_0:
  "dateOf (setEpochMillis dt (- 62166009600000)) = (0, 1, 15) \<and>
    map_option dateOf (Calendar_addMonths (setEpochMillis dt (- 62166009600000)) (- 1)) = Some (- 1, 11, 30)"
proof -
  have "dateOf (setEpochMillis dt (- 62166009600000)) = (0, 1, 15)" "timeOf (setEpochMillis dt (- 62166009600000)) = (0, 0, 0, 0)"
    using civilFromDays_dayNumber [of "(0, 1, 15)"]
    by (simp_all add: setEpochMillis_fields dayNumber.simps yearStart_def monthStart_def Calendar_daysInMonth_def)
  moreover have "toEpochMillis 0 0 0 0 0 0 0 = Some (- 62169984000000)" by code_simp
  moreover have "dateOf (setEpochMillis f (- 62169984000000)) = (- 1, 11, 30)" for f
    using civilFromDays_dayNumber [of "(- 1, 11, 30)"]
    by (simp add: setEpochMillis_fields dayNumber.simps yearStart_def monthStart_def Calendar_daysInMonth_def)
  ultimately show ?thesis
    by (simp add: Calendar_addMonths_def DateTime_gets dateOf_def timeOf_def fits32_def Calendar_daysInMonth_def signed_modulo_int_def signed_divide_int_def)
qed

end
