(* ===== verification/Json.thy ===== *)
theory Json
  imports Bytes "HOL-Library.Monad_Syntax"
begin

text \<open>
  \<open>src/net/json.c\<close>, the reader: a recursive descent over a NUL-terminated text into a pool of nodes
  and a scratch area that the caller owns.

  A pointer into the text is its index; reading at or behind the end gives the terminating NUL.  A
  node reference is an index into the pool or negative.  The scratch area is the memory behind the
  pointer \<open>scratch\<close>, from which the code may use \<open>scratchCap\<close> bytes: a function of the index, so that
  a store behind the area is visible.  Numbers are a type with a zero; \<open>strtod\<close> is a parameter that
  reads the rest of the text and gives the number and how many bytes it took.

  A result has two layers: \<open>None\<close> is a loop that does not end, and \<open>Some (None, ps)\<close> is a refusal.
\<close>

section \<open>Documents\<close>

datatype JsonType = JSON_NULL | JSON_FALSE | JSON_TRUE | JSON_NUMBER | JSON_STRING | JSON_ARRAY | JSON_OBJECT

type_synonym JsonRef = int

record 'f JsonNode =
  jtype :: JsonType
  child :: JsonRef
  sibling :: JsonRef
  offset :: nat
  jlength :: nat
  inScratch :: bool
  number :: 'f

record 'f JsonDoc =
  nodes :: "'f JsonNode list"
  nodeCap :: nat
  nodeCount :: nat
  src :: "u8 list"
  scratch :: "nat \<Rightarrow> u8"
  scratchCap :: nat
  scratchUsed :: nat
  root :: JsonRef
  ok :: bool

record 'f Parser =
  doc :: "'f JsonDoc"
  pos :: nat

type_synonym 'f strtod = "u8 list \<Rightarrow> 'f \<times> nat"

definition JSON_MAX_DEPTH :: nat where
  "JSON_MAX_DEPTH = 32"

abbreviation ch_tab :: u8 where "ch_tab \<equiv> 9"
abbreviation ch_cr :: u8 where "ch_cr \<equiv> 13"
abbreviation ch_bs :: u8 where "ch_bs \<equiv> 8"
abbreviation ch_ff :: u8 where "ch_ff \<equiv> 12"
abbreviation ch_space :: u8 where "ch_space \<equiv> 32"
abbreviation ch_quote :: u8 where "ch_quote \<equiv> 34"
abbreviation ch_slash :: u8 where "ch_slash \<equiv> 47"
abbreviation ch_b :: u8 where "ch_b \<equiv> 98"
abbreviation ch_n :: u8 where "ch_n \<equiv> 110"
abbreviation ch_r :: u8 where "ch_r \<equiv> 114"
abbreviation ch_t :: u8 where "ch_t \<equiv> 116"
abbreviation ch_u :: u8 where "ch_u \<equiv> 117"

text \<open>The texts of the literals.\<close>

abbreviation txt_true :: "u8 list" where "txt_true \<equiv> [116, 114, 117, 101]"
abbreviation txt_false :: "u8 list" where "txt_false \<equiv> [102, 97, 108, 115, 101]"
abbreviation txt_null :: "u8 list" where "txt_null \<equiv> [110, 117, 108, 108]"

text \<open>A byte of a NUL-terminated text, and the byte at the cursor.\<close>

definition charAt :: "u8 list \<Rightarrow> nat \<Rightarrow> u8" where
  "charAt tx i = (if i < length tx then tx ! i else 0)"

definition cur :: "'f Parser \<Rightarrow> u8" where
  "cur ps = charAt (src (doc ps)) (pos ps)"

definition adv :: "'f Parser \<Rightarrow> 'f Parser" where
  "adv ps = ps\<lparr>pos := pos ps + 1\<rparr>"

definition jfail :: "'f Parser \<Rightarrow> 'a option \<times> 'f Parser" where
  "jfail ps = (None, ps\<lparr>doc := (doc ps)\<lparr>ok := False\<rparr>\<rparr>)"

text \<open>The reference of a fresh node: a 32-bit cast of the counter.\<close>

definition toRef :: "nat \<Rightarrow> JsonRef" where
  "toRef n = sint (word_of_nat n :: u32)"

definition setNode :: "JsonRef \<Rightarrow> ('f JsonNode \<Rightarrow> 'f JsonNode) \<Rightarrow> 'f Parser \<Rightarrow> 'f Parser" where
  "setNode r f ps =
    ps\<lparr>doc := (doc ps)\<lparr>nodes := (nodes (doc ps))[nat r := f (nodes (doc ps) ! nat r)]\<rparr>\<rparr>"

definition clearNode :: "'f::zero JsonNode" where
  "clearNode = \<lparr>jtype = JSON_NULL, child = - 1, sibling = - 1, offset = 0, jlength = 0, inScratch = False, number = 0\<rparr>"

definition allocNode :: "'f::zero Parser \<Rightarrow> JsonRef \<times> 'f Parser" where
  "allocNode ps =
    (let d = doc ps in
     if nodeCap d \<le> nodeCount d then (- 1, ps)
     else (toRef (nodeCount d),
           ps\<lparr>doc := d\<lparr>nodes := (nodes d)[nodeCount d := clearNode], nodeCount := nodeCount d + 1\<rparr>\<rparr>))"

lemma charAt_nonzero: "charAt tx i \<noteq> 0 \<Longrightarrow> i < length tx"
  by (simp add: charAt_def split: if_splits)

lemma charAt_backslash: "charAt tx i = ch_backslash \<Longrightarrow> i < length tx"
  by (rule charAt_nonzero) simp

function skipFrom :: "u8 list \<Rightarrow> nat \<Rightarrow> nat" where
  "skipFrom tx p =
    (if charAt tx p = ch_space \<or> charAt tx p = ch_tab \<or> charAt tx p = ch_newline \<or> charAt tx p = ch_cr
     then skipFrom tx (p + 1) else p)"
  by auto
termination
  by (relation "measure (\<lambda>(tx, p). length tx - p)") (auto simp: charAt_def split: if_splits)

definition skipWs :: "'f Parser \<Rightarrow> 'f Parser" where
  "skipWs ps = ps\<lparr>pos := skipFrom (src (doc ps)) (pos ps)\<rparr>"

section \<open>Strings\<close>

function quoteFrom :: "u8 list \<Rightarrow> nat \<Rightarrow> nat" where
  "quoteFrom tx q =
    (if charAt tx q \<noteq> 0 \<and> charAt tx q \<noteq> ch_quote \<and> charAt tx q \<noteq> ch_backslash
     then quoteFrom tx (q + 1) else q)"
  by auto
termination
  by (relation "measure (\<lambda>(tx, p). length tx - p)") (auto dest: charAt_nonzero)

definition escapeChar :: "u8 \<Rightarrow> u8 option" where
  "escapeChar c =
    (if c = ch_quote then Some ch_quote
     else if c = ch_backslash then Some ch_backslash
     else if c = ch_slash then Some ch_slash
     else if c = ch_b then Some ch_bs
     else if c = ch_f then Some ch_ff
     else if c = ch_n then Some ch_newline
     else if c = ch_r then Some ch_cr
     else if c = ch_t then Some ch_tab
     else None)"

definition hexNibble :: "u8 \<Rightarrow> u32 option" where
  "hexNibble h =
    (if ch_0 \<le> h \<and> h \<le> ch_9 then Some (ucast (h - ch_0))
     else if ch_a \<le> h \<and> h \<le> ch_f then Some (ucast (h - ch_a + 10))
     else if ch_A \<le> h \<and> h \<le> ch_F then Some (ucast (h - ch_A + 10))
     else None)"

text \<open>The digits of an escaped code point; the cursor stands before the first and is left at the
  last, or at the one that is not a digit.\<close>

fun hexLoop :: "u8 list \<Rightarrow> nat \<Rightarrow> nat \<Rightarrow> u32 \<Rightarrow> u32 option \<times> nat" where
  "hexLoop tx 0 p cp = (Some cp, p)"
| "hexLoop tx (Suc n) p cp =
    (case hexNibble (charAt tx (p + 1)) of
       None \<Rightarrow> (None, p + 1)
     | Some h \<Rightarrow> hexLoop tx n (p + 1) (push_bit 4 cp OR h))"

definition utf8 :: "u32 \<Rightarrow> u8 list" where
  "utf8 cp =
    (if cp < 0x80 then [ucast cp]
     else if cp < 0x800 then [ucast (0xC0 OR drop_bit 6 cp), ucast (0x80 OR (cp AND 0x3F))]
     else [ucast (0xE0 OR drop_bit 12 cp), ucast (0x80 OR (drop_bit 6 cp AND 0x3F)), ucast (0x80 OR (cp AND 0x3F))])"

text \<open>Stores into the memory behind the scratch pointer.\<close>

definition scratchPut :: "nat \<Rightarrow> u8 list \<Rightarrow> (nat \<Rightarrow> u8) \<Rightarrow> nat \<Rightarrow> u8" where
  "scratchPut at bs mem i = (if at \<le> i \<and> i < at + length bs then bs ! (i - at) else mem i)"

lemma hexLoop_advances: "p \<le> snd (hexLoop tx n p cp)"
  by (induction tx n p cp rule: hexLoop.induct) (auto split: option.splits)

lemma hexLoop_le: "hexLoop tx n p cp = (r, p') \<Longrightarrow> p \<le> p'"
  using hexLoop_advances [of p tx n cp] by simp

text \<open>
  The copying loop: \<open>used\<close> is where the string starts in the area, \<open>out\<close> how many bytes it has.
  It gives the length of the string, or none for a refusal, with the cursor and the memory.
\<close>

function copyLoop :: "u8 list \<Rightarrow> nat \<Rightarrow> nat \<Rightarrow> nat \<Rightarrow> nat \<Rightarrow> (nat \<Rightarrow> u8) \<Rightarrow> nat option \<times> nat \<times> (nat \<Rightarrow> u8)" where
  "copyLoop tx used capLeft p out mem =
    (let c = charAt tx p in
     if c = 0 \<or> c = ch_quote then (Some out, p, mem)
     else if c = ch_backslash then
       (if charAt tx (p + 1) = ch_u then
          (case hexLoop tx 4 (p + 1) 0 of
             (None, p') \<Rightarrow> (None, p', mem)
           | (Some cp, p') \<Rightarrow>
               let bs = utf8 cp in
               if capLeft < out + length bs then (None, p' + 1, mem)
               else copyLoop tx used capLeft (p' + 1) (out + length bs) (scratchPut (used + out) bs mem))
        else
          case escapeChar (charAt tx (p + 1)) of
            None \<Rightarrow> (None, p + 1, mem)
          | Some e \<Rightarrow>
              if capLeft < out + 1 then (None, p + 2, mem)
              else copyLoop tx used capLeft (p + 2) (out + 1) (scratchPut (used + out) [e] mem))
     else if capLeft < out + 1 then (None, p + 1, mem)
     else copyLoop tx used capLeft (p + 1) (out + 1) (scratchPut (used + out) [c] mem))"
  by pat_completeness auto
termination
  by (relation "measure (\<lambda>(tx, used, capLeft, p, out, mem). length tx - p)")
    (auto dest!: charAt_nonzero charAt_backslash hexLoop_le [OF sym])

definition parseStringBody :: "'f Parser \<Rightarrow> (nat \<times> nat \<times> bool) option \<times> 'f Parser" where
  "parseStringBody ps =
    (let d = doc ps; start = pos ps; q = quoteFrom (src d) start in
     if charAt (src d) q = ch_quote then
       (Some (wrap32 start, wrap32 (q - start), False), ps\<lparr>pos := q + 1\<rparr>)
     else if charAt (src d) q = 0 then jfail ps
     else
       let capLeft = wrap32 (scratchCap d + 2 ^ 32 - scratchUsed d) in
       case copyLoop (src d) (scratchUsed d) capLeft start 0 (scratch d) of
         (None, p, mem) \<Rightarrow> jfail (ps\<lparr>doc := d\<lparr>scratch := mem\<rparr>, pos := p\<rparr>)
       | (Some out, p, mem) \<Rightarrow>
           if charAt (src d) p \<noteq> ch_quote then jfail (ps\<lparr>doc := d\<lparr>scratch := mem\<rparr>, pos := p\<rparr>)
           else
             let used = wrap32 (scratchUsed d + wrap32 (out + 1));
                 mem1 = (if used < scratchCap d then scratchPut (wrap32 (used + 2 ^ 32 - 1)) [0] mem else mem)
             in (Some (wrap32 (scratchUsed d), wrap32 out, True),
                 ps\<lparr>doc := d\<lparr>scratch := mem1, scratchUsed := used\<rparr>, pos := p + 1\<rparr>))"

section \<open>Values\<close>

text \<open>The loops take the parser of a member's value as an argument.\<close>

type_synonym ('a, 'f) parsed = "('a option \<times> 'f Parser) option"

definition linkNode :: "JsonRef \<Rightarrow> JsonRef \<Rightarrow> JsonRef \<Rightarrow> 'f Parser \<Rightarrow> 'f Parser" where
  "linkNode owner tail r ps =
    (if tail < 0 then setNode owner (\<lambda>n. n\<lparr>child := r\<rparr>) ps else setNode tail (\<lambda>n. n\<lparr>sibling := r\<rparr>) ps)"

partial_function (option) objectLoop ::
  "('f::zero Parser \<Rightarrow> (JsonRef, 'f) parsed) \<Rightarrow> JsonRef \<Rightarrow> JsonRef \<Rightarrow> 'f Parser \<Rightarrow> (JsonRef, 'f) parsed"
where
  "objectLoop value obj tail ps0 =
    (let ps = skipWs ps0 in
     if cur ps \<noteq> ch_quote then Some (jfail ps)
     else case parseStringBody (adv ps) of
       (None, ps) \<Rightarrow> Some (jfail ps)
     | (Some (kOff, kLen, kScratch), ps) \<Rightarrow>
         let ps = skipWs ps in
         if cur ps \<noteq> ch_colon then Some (jfail ps)
         else case allocNode (adv ps) of
           (member, ps) \<Rightarrow>
             if member < 0 then Some (jfail ps)
             else Option.bind
               (value (setNode member (\<lambda>n. n\<lparr>offset := kOff, jlength := kLen, inScratch := kScratch\<rparr>) ps))
               (\<lambda>(r, ps). case r of
                  None \<Rightarrow> Some (jfail ps)
                | Some v \<Rightarrow>
                    let ps = skipWs (linkNode obj tail member (setNode member (\<lambda>n. n\<lparr>child := v\<rparr>) ps)) in
                    if cur ps = ch_comma then objectLoop value obj member (adv ps)
                    else if cur ps = ch_rbrace then Some (Some obj, adv ps)
                    else Some (jfail ps)))"

partial_function (option) arrayLoop ::
  "('f::zero Parser \<Rightarrow> (JsonRef, 'f) parsed) \<Rightarrow> JsonRef \<Rightarrow> JsonRef \<Rightarrow> 'f Parser \<Rightarrow> (JsonRef, 'f) parsed"
where
  "arrayLoop value arr tail ps0 =
    (case allocNode ps0 of
       (element, ps) \<Rightarrow>
         if element < 0 then Some (jfail ps)
         else Option.bind (value ps)
           (\<lambda>(r, ps). case r of
              None \<Rightarrow> Some (jfail ps)
            | Some v \<Rightarrow>
                let ps = skipWs (linkNode arr tail element (setNode element (\<lambda>n. n\<lparr>child := v\<rparr>) ps)) in
                if cur ps = ch_comma then arrayLoop value arr element (adv ps)
                else if cur ps = ch_rbracket then Some (Some arr, adv ps)
                else Some (jfail ps)))"

declare objectLoop.simps [code] arrayLoop.simps [code]

definition parseObject ::
  "('f::zero Parser \<Rightarrow> (JsonRef, 'f) parsed) \<Rightarrow> 'f Parser \<Rightarrow> (JsonRef, 'f) parsed"
where
  "parseObject value ps =
    (let (obj, ps) = allocNode ps in
     if obj < 0 then Some (jfail ps)
     else let ps = skipWs (adv (setNode obj (\<lambda>n. n\<lparr>jtype := JSON_OBJECT\<rparr>) ps)) in
       if cur ps = ch_rbrace then Some (Some obj, adv ps)
       else objectLoop value obj (- 1) ps)"

definition parseArray ::
  "('f::zero Parser \<Rightarrow> (JsonRef, 'f) parsed) \<Rightarrow> 'f Parser \<Rightarrow> (JsonRef, 'f) parsed"
where
  "parseArray value ps =
    (let (arr, ps) = allocNode ps in
     if arr < 0 then Some (jfail ps)
     else let ps = skipWs (adv (setNode arr (\<lambda>n. n\<lparr>jtype := JSON_ARRAY\<rparr>) ps)) in
       if cur ps = ch_rbracket then Some (Some arr, adv ps)
       else arrayLoop value arr (- 1) ps)"

text \<open>The last step of the scalar cases: a node, filled in.\<close>

definition leaf :: "('f JsonNode \<Rightarrow> 'f JsonNode) \<Rightarrow> 'f::zero Parser \<Rightarrow> (JsonRef, 'f) parsed" where
  "leaf f ps =
    (let (v, ps) = allocNode ps in
     if v < 0 then Some (jfail ps) else Some (Some v, setNode v f ps))"

text \<open>A literal: the comparison of its length in bytes, and its node.\<close>

definition literal :: "u8 list \<Rightarrow> JsonType \<Rightarrow> 'f::zero Parser \<Rightarrow> (JsonRef, 'f) parsed" where
  "literal word ty ps =
    (if map (\<lambda>i. charAt (src (doc ps)) (pos ps + i)) [0..<length word] \<noteq> word then Some (jfail ps)
     else leaf (\<lambda>n. n\<lparr>jtype := ty\<rparr>) (ps\<lparr>pos := pos ps + length word\<rparr>))"

definition parseString :: "'f::zero Parser \<Rightarrow> (JsonRef, 'f) parsed" where
  "parseString ps =
    (case parseStringBody (adv ps) of
       (None, ps) \<Rightarrow> Some (jfail ps)
     | (Some (off, len, scr), ps) \<Rightarrow>
         leaf (\<lambda>n. n\<lparr>jtype := JSON_STRING, offset := off, jlength := len, inScratch := scr\<rparr>) ps)"

definition parseNumber :: "'f::zero strtod \<Rightarrow> 'f Parser \<Rightarrow> (JsonRef, 'f) parsed" where
  "parseNumber strtod ps =
    (let (num, taken) = strtod (drop (pos ps) (src (doc ps))) in
     if taken = 0 then Some (jfail ps)
     else let (v, ps) = allocNode ps in
       if v < 0 then Some (jfail ps)
       else Some (Some v, (setNode v (\<lambda>n. n\<lparr>jtype := JSON_NUMBER, number := num\<rparr>) ps)\<lparr>pos := pos ps + taken\<rparr>))"

function parseValue :: "'f::zero strtod \<Rightarrow> nat \<Rightarrow> 'f Parser \<Rightarrow> (JsonRef, 'f) parsed" where
  "parseValue strtod depth ps0 =
    (if JSON_MAX_DEPTH < depth then Some (jfail ps0)
     else let ps = skipWs ps0; c = cur ps in
       if c = ch_lbrace then parseObject (\<lambda>ps. parseValue strtod (depth + 1) ps) ps
       else if c = ch_lbracket then parseArray (\<lambda>ps. parseValue strtod (depth + 1) ps) ps
       else if c = ch_quote then parseString ps
       else if c = ch_t then literal txt_true JSON_TRUE ps
       else if c = ch_f then literal txt_false JSON_FALSE ps
       else if c = ch_n then literal txt_null JSON_NULL ps
       else parseNumber strtod ps)"
  by auto
termination
  by (relation "measure (\<lambda>(strtod, depth, ps). Suc JSON_MAX_DEPTH - depth)") (auto simp: JSON_MAX_DEPTH_def)

text \<open>The answer of \<open>Json_parse\<close> is the field \<open>ok\<close> of the document it leaves.\<close>

definition Json_parse ::
  "'f::zero strtod \<Rightarrow> 'f JsonNode list \<Rightarrow> nat \<Rightarrow> (nat \<Rightarrow> u8) \<Rightarrow> nat \<Rightarrow> u8 list \<Rightarrow> (bool \<times> 'f JsonDoc) option"
where
  "Json_parse strtod pool cap mem memCap tx = do {
     let d = \<lparr>nodes = pool, nodeCap = cap, nodeCount = 0, src = tx, scratch = mem, scratchCap = memCap,
              scratchUsed = 0, root = - 1, ok = True\<rparr>;
     (r, ps) \<leftarrow> parseValue strtod 0 \<lparr>doc = d, pos = 0\<rparr>;
     case r of
       None \<Rightarrow> Some (False, (doc ps)\<lparr>ok := False\<rparr>)
     | Some v \<Rightarrow>
         let ps = skipWs ps;
             d = (if cur ps \<noteq> 0 then (doc ps)\<lparr>ok := False\<rparr> else doc ps)
         in Some (ok d, d\<lparr>root := v\<rparr>)
   }"

section \<open>Reading a document\<close>

definition Json_root :: "'f JsonDoc \<Rightarrow> JsonRef" where
  "Json_root d = root d"

definition Json_ok :: "'f JsonDoc \<Rightarrow> bool" where
  "Json_ok d = ok d"

definition nodeAt :: "'f JsonDoc \<Rightarrow> JsonRef \<Rightarrow> 'f JsonNode" where
  "nodeAt d r = nodes d ! nat r"

text \<open>The bytes a view stands for: \<open>length\<close> bytes of the text or of the scratch area.\<close>

definition viewOf :: "'f JsonDoc \<Rightarrow> 'f JsonNode \<Rightarrow> u8 list" where
  "viewOf d n =
    (if inScratch n then map (\<lambda>i. scratch d (offset n + i)) [0..<jlength n]
     else map (\<lambda>i. charAt (src d) (offset n + i)) [0..<jlength n])"

definition Json_key :: "'f JsonDoc \<Rightarrow> JsonRef \<Rightarrow> u8 list" where
  "Json_key d r = (if r < 0 then [] else viewOf d (nodeAt d r))"

definition Json_string :: "'f JsonDoc \<Rightarrow> JsonRef \<Rightarrow> u8 list" where
  "Json_string d r = (if r < 0 \<or> jtype (nodeAt d r) \<noteq> JSON_STRING then [] else viewOf d (nodeAt d r))"

definition Json_getString :: "'f JsonDoc option \<Rightarrow> JsonRef \<Rightarrow> u8 list option" where
  "Json_getString d r =
    (case d of None \<Rightarrow> None
     | Some d \<Rightarrow> if r < 0 \<or> jtype (nodeAt d r) \<noteq> JSON_STRING then None else Some (Json_string d r))"

partial_function (option) memberFrom :: "'f JsonDoc \<Rightarrow> u8 list \<Rightarrow> JsonRef \<Rightarrow> JsonRef option" where
  "memberFrom d key m =
    (if m < 0 then Some (- 1)
     else if Json_key d m = key then Some (child (nodeAt d m))
     else memberFrom d key (sibling (nodeAt d m)))"

definition Json_member :: "'f JsonDoc \<Rightarrow> JsonRef \<Rightarrow> u8 list \<Rightarrow> JsonRef option" where
  "Json_member d obj key =
    (if obj < 0 \<or> jtype (nodeAt d obj) \<noteq> JSON_OBJECT then Some (- 1)
     else memberFrom d key (child (nodeAt d obj)))"

partial_function (option) atFrom :: "'f JsonDoc \<Rightarrow> nat \<Rightarrow> JsonRef \<Rightarrow> nat \<Rightarrow> JsonRef option" where
  "atFrom d index e i =
    (if e < 0 then Some (- 1)
     else if i = index then Some (child (nodeAt d e))
     else atFrom d index (sibling (nodeAt d e)) (wrap32 (i + 1)))"

definition Json_at :: "'f JsonDoc \<Rightarrow> JsonRef \<Rightarrow> nat \<Rightarrow> JsonRef option" where
  "Json_at d r index =
    (if r < 0 \<or> jtype (nodeAt d r) \<noteq> JSON_ARRAY \<and> jtype (nodeAt d r) \<noteq> JSON_OBJECT then Some (- 1)
     else atFrom d index (child (nodeAt d r)) 0)"

partial_function (option) countFrom :: "'f JsonDoc \<Rightarrow> JsonRef \<Rightarrow> nat \<Rightarrow> nat option" where
  "countFrom d e n = (if e < 0 then Some n else countFrom d (sibling (nodeAt d e)) (wrap32 (n + 1)))"

definition Json_count :: "'f JsonDoc \<Rightarrow> JsonRef \<Rightarrow> nat option" where
  "Json_count d r =
    (if r < 0 \<or> jtype (nodeAt d r) \<noteq> JSON_ARRAY \<and> jtype (nodeAt d r) \<noteq> JSON_OBJECT then Some 0
     else countFrom d (child (nodeAt d r)) 0)"

definition Json_type :: "'f JsonDoc \<Rightarrow> JsonRef \<Rightarrow> JsonType" where
  "Json_type d r = (if r < 0 then JSON_NULL else jtype (nodeAt d r))"

definition Json_bool :: "'f JsonDoc \<Rightarrow> JsonRef \<Rightarrow> bool" where
  "Json_bool d r = (if r < 0 then False else jtype (nodeAt d r) = JSON_TRUE)"

definition Json_number :: "'f::zero JsonDoc \<Rightarrow> JsonRef \<Rightarrow> 'f" where
  "Json_number d r = (if r < 0 then 0 else number (nodeAt d r))"

definition Json_getBool :: "'f JsonDoc option \<Rightarrow> JsonRef \<Rightarrow> bool \<Rightarrow> bool" where
  "Json_getBool d r def =
    (case d of None \<Rightarrow> def
     | Some d \<Rightarrow>
         if r < 0 then def
         else if jtype (nodeAt d r) = JSON_TRUE then True
         else if jtype (nodeAt d r) = JSON_FALSE then False
         else def)"

definition Json_getNumber :: "'f JsonDoc option \<Rightarrow> JsonRef \<Rightarrow> 'f \<Rightarrow> 'f" where
  "Json_getNumber d r def =
    (case d of None \<Rightarrow> def
     | Some d \<Rightarrow> if r < 0 \<or> jtype (nodeAt d r) \<noteq> JSON_NUMBER then def else number (nodeAt d r))"

definition Json_has :: "'f JsonDoc option \<Rightarrow> JsonRef \<Rightarrow> u8 list option \<Rightarrow> bool option" where
  "Json_has d obj key =
    (if d = None \<or> obj < 0 \<or> key = None then Some False
     else map_option (\<lambda>r. 0 \<le> r) (Json_member (the d) obj (the key)))"

declare memberFrom.simps [code] atFrom.simps [code] countFrom.simps [code]

text \<open>Paths such as \<open>a.b[0]\<close>: the end of a key, and the digits of an index.\<close>

function keyEnd :: "u8 list \<Rightarrow> nat \<Rightarrow> nat" where
  "keyEnd path p =
    (if charAt path p \<noteq> 0 \<and> charAt path p \<noteq> ch_dot \<and> charAt path p \<noteq> ch_lbracket
     then keyEnd path (p + 1) else p)"
  by auto
termination
  by (relation "measure (\<lambda>(path, p). length path - p)") (auto dest: charAt_nonzero)

function indexLoop :: "u8 list \<Rightarrow> nat \<Rightarrow> nat \<Rightarrow> nat \<times> nat" where
  "indexLoop path p idx =
    (if ch_0 \<le> charAt path p \<and> charAt path p \<le> ch_9
     then indexLoop path (p + 1) (wrap32 (idx * 10 + unat (charAt path p - ch_0)))
     else (idx, p))"
  by auto
termination
  by (relation "measure (\<lambda>(path, p, idx). length path - p)") (auto simp: charAt_def split: if_splits)

partial_function (option) pathFrom :: "'f JsonDoc \<Rightarrow> u8 list \<Rightarrow> nat \<Rightarrow> JsonRef \<Rightarrow> JsonRef option" where
  "pathFrom d path p at =
    (if charAt path p = 0 then Some at
     else if charAt path p = ch_dot then pathFrom d path (p + 1) at
     else if charAt path p \<noteq> ch_lbracket then
       let q = keyEnd path p in
       if 127 < q - p then Some (- 1)
       else if at < 0 \<or> jtype (nodeAt d at) \<noteq> JSON_OBJECT then Some (- 1)
       else Option.bind (Json_member d at (take (q - p) (drop p path)))
         (\<lambda>r. if r < 0 then Some (- 1) else pathFrom d path q r)
     else
       let (idx, q) = indexLoop path (p + 1) 0 in
       if q = p + 1 \<or> charAt path q \<noteq> ch_rbracket then Some (- 1)
       else Option.bind (Json_at d at idx)
         (\<lambda>r. if r < 0 then Some (- 1) else pathFrom d path (q + 1) r))"

declare pathFrom.simps [code]

definition Json_path :: "'f JsonDoc option \<Rightarrow> JsonRef \<Rightarrow> u8 list option \<Rightarrow> JsonRef option" where
  "Json_path d r path =
    (case (d, path) of
       (Some d, Some path) \<Rightarrow> if r < 0 \<or> charAt path 0 = 0 then Some (- 1) else pathFrom d path 0 r
     | _ \<Rightarrow> Some (- 1))"

declare skipFrom.simps [simp del] quoteFrom.simps [simp del] copyLoop.simps [simp del]
  parseValue.simps [simp del] keyEnd.simps [simp del] indexLoop.simps [simp del]

end
