(* ===== verification/Json_Pool.thy ===== *)
theory Json_Pool
  imports Json
begin

text \<open>
  What the reader does to the pool, on every text: it returns; the nodes in use stay inside the
  capacity; and every reference of a node in use leads to a later node in use, so the walks over
  children and siblings end.  \<open>value_parser\<close> is the contract between the parser of a value and the
  two loops that call it back.
\<close>

section \<open>The contract\<close>

definition later :: "nat \<Rightarrow> int \<Rightarrow> JsonRef \<Rightarrow> bool" where
  "later n i r \<longleftrightarrow> r = - 1 \<or> i < r \<and> r < int n"

definition pool_wf :: "'f JsonDoc \<Rightarrow> bool" where
  "pool_wf d \<longleftrightarrow> length (nodes d) = nodeCap d \<and> nodeCount d \<le> nodeCap d \<and> nodeCap d < 2 ^ 31 \<and>
    (\<forall>i < nodeCount d. later (nodeCount d) (int i) (child (nodes d ! i)) \<and>
                       later (nodeCount d) (int i) (sibling (nodes d ! i)))"

text \<open>
  Stores into the scratch area stay below the length of the text, because a decoded string is
  shorter than its source: as long as the used part is not ahead of the cursor.
\<close>

definition quiet :: "'f Parser \<Rightarrow> 'f Parser \<Rightarrow> bool" where
  "quiet ps ps' \<longleftrightarrow> (scratchUsed (doc ps) \<le> pos ps \<longrightarrow> length (src (doc ps)) < 2 ^ 32 \<longrightarrow>
    (\<forall>i \<ge> length (src (doc ps)). scratch (doc ps') i = scratch (doc ps) i))"

text \<open>What every run keeps, and what an accepting one does.\<close>

definition keeps :: "'f Parser \<Rightarrow> 'f Parser \<Rightarrow> bool" where
  "keeps ps ps' \<longleftrightarrow> src (doc ps') = src (doc ps) \<and> nodeCap (doc ps') = nodeCap (doc ps) \<and>
    root (doc ps') = root (doc ps) \<and> pool_wf (doc ps') \<and> quiet ps ps'"

definition pool_grows :: "'f Parser \<Rightarrow> 'f Parser \<Rightarrow> bool" where
  "pool_grows ps ps' \<longleftrightarrow> keeps ps ps' \<and> nodeCount (doc ps) \<le> nodeCount (doc ps') \<and> pos ps \<le> pos ps' \<and>
    (scratchUsed (doc ps) \<le> pos ps \<longrightarrow> scratchUsed (doc ps') \<le> pos ps')"

definition parse_delivers :: "(JsonRef \<Rightarrow> 'f Parser \<Rightarrow> bool) \<Rightarrow> 'f Parser \<Rightarrow> (JsonRef, 'f) parsed \<Rightarrow> bool" where
  "parse_delivers Q ps res \<longleftrightarrow> (\<exists>r ps'. res = Some (r, ps') \<and> keeps ps ps' \<and>
    (\<forall>v. r = Some v \<longrightarrow> pool_grows ps ps' \<and> pos ps < pos ps' \<and> Q v ps'))"

text \<open>A fresh node, in use afterwards.\<close>

definition fresh :: "'f Parser \<Rightarrow> JsonRef \<Rightarrow> 'f Parser \<Rightarrow> bool" where
  "fresh ps v ps' \<longleftrightarrow> int (nodeCount (doc ps)) \<le> v \<and> v < int (nodeCount (doc ps'))"

lemma keeps_refl [simp]: "keeps ps ps \<longleftrightarrow> pool_wf (doc ps)"
  by (simp add: keeps_def quiet_def)

lemma pool_grows_refl [simp]: "pool_grows ps ps \<longleftrightarrow> pool_wf (doc ps)"
  by (simp add: pool_grows_def)

lemma pool_grows_keeps: "pool_grows a b \<Longrightarrow> keeps b c \<Longrightarrow> keeps a c"
  by (auto simp: pool_grows_def keeps_def quiet_def)

lemma pool_grows_trans: "pool_grows a b \<Longrightarrow> pool_grows b c \<Longrightarrow> pool_grows a c"
  using pool_grows_keeps by (fastforce simp: pool_grows_def)

lemma pool_grows_keeps_self: "pool_grows a b \<Longrightarrow> keeps a b"
  by (simp add: pool_grows_def)

lemma keeps_wf: "keeps a b \<Longrightarrow> pool_wf (doc b)"
  by (simp add: keeps_def)

lemma pool_grows_wf: "pool_grows a b \<Longrightarrow> pool_wf (doc b)"
  by (simp add: pool_grows_def keeps_def)

lemma growsD: "pool_grows a b \<Longrightarrow> src (doc b) = src (doc a)" "pool_grows a b \<Longrightarrow> nodeCount (doc a) \<le> nodeCount (doc b)"
  "pool_grows a b \<Longrightarrow> pos a \<le> pos b"
  by (simp_all add: pool_grows_def keeps_def)

lemma parse_delivers_fail [simp]: "parse_delivers Q ps (Some (jfail ps')) \<longleftrightarrow> keeps ps ps'"
  by (simp add: parse_delivers_def jfail_def keeps_def pool_wf_def quiet_def)

lemma parse_delivers_some: "pool_grows ps ps' \<Longrightarrow> pos ps < pos ps' \<Longrightarrow> Q v ps' \<Longrightarrow> parse_delivers Q ps (Some (Some v, ps'))"
  by (auto simp: parse_delivers_def pool_grows_def)

text \<open>What holds from a later state holds from here.\<close>

lemma parse_delivers_grows: "pool_grows a b \<Longrightarrow> parse_delivers Q b res \<Longrightarrow> parse_delivers Q a res"
  unfolding parse_delivers_def using pool_grows_keeps [of a b] pool_grows_trans [of a b] growsD(3) [of a b] by fastforce

lemma parse_delivers_mono: "parse_delivers Q ps res \<Longrightarrow> (\<And>v ps'. pool_grows ps ps' \<Longrightarrow> Q v ps' \<Longrightarrow> R v ps') \<Longrightarrow> parse_delivers R ps res"
  unfolding parse_delivers_def by blast

section \<open>The steps\<close>

lemma skipFrom_le: "p \<le> skipFrom tx p"
  by (induction tx p rule: skipFrom.induct) (subst skipFrom.simps, auto)

lemma skipWs_doc [simp]: "doc (skipWs ps) = doc ps"
  by (simp add: skipWs_def)

lemma skipWs_pos: "pos ps \<le> pos (skipWs ps)"
  by (simp add: skipWs_def skipFrom_le)

lemma adv_simps [simp]: "doc (adv ps) = doc ps" "pos (adv ps) = pos ps + 1"
  by (simp_all add: adv_def)

lemma cur_nonzero: "cur ps \<noteq> 0 \<Longrightarrow> pos ps < length (src (doc ps))"
  by (auto simp: cur_def dest: charAt_nonzero)

lemma quoteFrom_le: "p \<le> quoteFrom tx p"
  by (induction tx p rule: quoteFrom.induct) (subst quoteFrom.simps, auto)

lemma copyLoop_le: "copyLoop tx used capLeft p out mem = (r, p', mem') \<Longrightarrow> p \<le> p'"
proof (induction "length tx - p" arbitrary: p out mem rule: less_induct)
  case less
  have IH: "q \<le> p'" if "copyLoop tx used capLeft q out2 mem2 = (r, p', mem')" "p < q" "p < length tx" for q out2 mem2
    using less.hyps that by simp
  have len: "charAt tx p \<noteq> 0 \<Longrightarrow> p < length tx" by (rule charAt_nonzero)
  show ?case
  proof (cases "charAt tx p = 0 \<or> charAt tx p = ch_quote")
    case True
    then show ?thesis using less.prems by (auto simp: copyLoop.simps [of tx used capLeft p])
  next
    case False
    then have "p < length tx" using len by blast
    then show ?thesis
      using less.prems False IH hexLoop_advances [of "p + 1" tx 4 0]
      by (auto simp: copyLoop.simps [of tx used capLeft p] Let_def split: if_splits option.splits prod.splits
          dest!: IH)
  qed
qed

lemma parseStringBody_frame:
  assumes "parseStringBody ps = (r, ps')"
  shows "nodes (doc ps') = nodes (doc ps)" "nodeCap (doc ps') = nodeCap (doc ps)"
    "nodeCount (doc ps') = nodeCount (doc ps)" "src (doc ps') = src (doc ps)" "root (doc ps') = root (doc ps)"
    "r \<noteq> None \<Longrightarrow> pos ps < pos ps'"
  using assms quoteFrom_le [of "pos ps" "src (doc ps)"]
  by (auto simp: parseStringBody_def jfail_def Let_def split: if_splits prod.splits option.splits dest: copyLoop_le)

text \<open>The copying loop writes behind the string so far and in front of the cursor.\<close>

lemma utf8_length: "length (utf8 cp) \<le> 3"
  by (simp add: utf8_def)

lemma hexLoop_some:
  "hexLoop tx n p cp = (Some c, p') \<Longrightarrow> p' = p + n \<and> (0 < n \<longrightarrow> p + n < length tx)"
proof (induction tx n p cp rule: hexLoop.induct)
  case (2 tx n p cp)
  then obtain h where h: "hexNibble (charAt tx (p + 1)) = Some h" by (auto split: option.splits)
  then have "charAt tx (p + 1) \<noteq> 0" by (auto simp: hexNibble_def)
  then show ?case using 2 h charAt_nonzero [of tx "p + 1"] by (cases n) auto
qed simp

lemma utf8_nonempty: "utf8 cp \<noteq> []"
  by (simp add: utf8_def)

lemma copyLoop_bounds:
  assumes "copyLoop tx used capLeft p out mem = (r, p', mem')" "used + out \<le> p"
  shows "\<forall>i \<ge> length tx. mem' i = mem i" "r = Some n \<Longrightarrow> used + n \<le> p'"
proof -
  have "(\<forall>i \<ge> length tx. mem' i = mem i) \<and> (\<forall>n. r = Some n \<longrightarrow> used + n \<le> p')"
    using assms
  proof (induction "length tx - p" arbitrary: p out mem rule: less_induct)
    case less
    show ?case
    proof (cases "charAt tx p = 0 \<or> charAt tx p = ch_quote")
      case True
      then show ?thesis using less.prems by (auto simp: copyLoop.simps [of tx used capLeft p])
    next
      case False
      then have p: "p < length tx" using charAt_nonzero by blast
      have IH: "(\<forall>i \<ge> length tx. mem' i = mem i) \<and> (\<forall>n. r = Some n \<longrightarrow> used + n \<le> p')"
        if "copyLoop tx used capLeft q (out + length bs) (scratchPut (used + out) bs mem) = (r, p', mem')"
          "p + length bs \<le> q" "bs \<noteq> []" "p + length bs \<le> length tx" for q bs
      proof -
        have "p < q" using that(2,3) by (cases bs) auto
        moreover have "used + (out + length bs) \<le> q" using less.prems(2) that(2) by simp
        ultimately have "(\<forall>i \<ge> length tx. mem' i = scratchPut (used + out) bs mem i) \<and> (\<forall>n. r = Some n \<longrightarrow> used + n \<le> p')"
          using less.hyps [OF _ that(1)] p by auto
        then show ?thesis using less.prems(2) that(4) by (auto simp: scratchPut_def)
      qed
      obtain q cp p2 where x: "hexLoop tx 4 (p + 1) 0 = (cp, p2)" by fastforce
      have c: "charAt tx p \<noteq> 0" using False by blast
      show ?thesis
      proof (cases "charAt tx p = ch_backslash")
        case esc: True
        show ?thesis
        proof (cases "charAt tx (p + 1) = ch_u")
          case True
          show ?thesis
          proof (cases cp)
            case None
            then show ?thesis
              using less.prems(1) esc x True by (auto simp: copyLoop.simps [of tx used capLeft p])
          next
            case (Some c)
            then have "p2 = p + 5" "p + 5 < length tx" using hexLoop_some [of tx 4 "p + 1" 0 c p2] x by auto
            then show ?thesis
              using less.prems(1) esc x True Some utf8_length [of c] IH [of "p2 + 1" "utf8 c"]
              by (auto simp: copyLoop.simps [of tx used capLeft p] Let_def utf8_nonempty split: if_splits)
          qed
        next
          case u: False
          then show ?thesis
            using less.prems(1) esc p IH [of "p + 2" "[the (escapeChar (charAt tx (p + 1)))]"]
            by (auto simp: copyLoop.simps [of tx used capLeft p] Let_def split: option.splits if_splits)
        qed
      next
        case plain: False
        then show ?thesis
          using less.prems(1) False p IH [of "p + 1" "[charAt tx p]"]
          by (auto simp: copyLoop.simps [of tx used capLeft p] Let_def split: if_splits)
      qed
    qed
  qed
  then show "\<forall>i \<ge> length tx. mem' i = mem i" "r = Some n \<Longrightarrow> used + n \<le> p'" by auto
qed

lemma parseStringBody_grows:
  assumes "parseStringBody ps = (r, ps')" "pool_wf (doc ps)"
  shows "keeps ps ps'" "r \<noteq> None \<Longrightarrow> pool_grows ps ps'"
proof -
  define d start q where "d = doc ps" and "start = pos ps" and "q = quoteFrom (src (doc ps)) (pos ps)"
  define c where "c = copyLoop (src d) (scratchUsed d) (wrap32 (scratchCap d + 2 ^ 32 - scratchUsed d)) start 0 (scratch d)"
  obtain n p mem where c': "c = (n, p, mem)" by (cases c) auto
  note frame = parseStringBody_frame [OF assms(1)]
  have same: "\<forall>i \<ge> length (src d). mem i = scratch d i" "\<And>out. n = Some out \<Longrightarrow> scratchUsed d + out \<le> p"
    if "scratchUsed d \<le> start"
    using copyLoop_bounds [OF c' [unfolded c_def]] that by auto
  have key: "quiet ps ps' \<and> (r \<noteq> None \<longrightarrow> scratchUsed d \<le> start \<longrightarrow> scratchUsed (doc ps') \<le> pos ps')"
  proof (cases "charAt (src d) q = ch_quote \<or> charAt (src d) q = 0")
    case True
    then show ?thesis
      using assms(1) quoteFrom_le [of start "src d"]
      by (auto simp: parseStringBody_def d_def start_def q_def jfail_def quiet_def Let_def split: if_splits)
  next
    case False
    show ?thesis
    proof (cases "n = None \<or> charAt (src d) p \<noteq> ch_quote")
      case True
      then have "doc ps' = d\<lparr>scratch := mem, ok := False\<rparr>" "r = None"
        using assms(1) False c'
        by (auto simp: parseStringBody_def d_def start_def q_def c_def jfail_def Let_def split: option.splits)
      then show ?thesis using same by (simp add: quiet_def d_def start_def)
    next
      case ok: False
      then obtain out where n: "n = Some out" by auto
      define used where "used = wrap32 (scratchUsed d + wrap32 (out + 1))"
      have e: "doc ps' = d\<lparr>scratch := (if used < scratchCap d then scratchPut (wrap32 (used + 2 ^ 32 - 1)) [0] mem else mem), scratchUsed := used\<rparr>"
        "pos ps' = p + 1"
        using assms(1) False c' ok n
        by (auto simp: parseStringBody_def d_def start_def q_def c_def used_def Let_def split: if_splits)
      have "p < length (src d)" using ok charAt_nonzero [of "src d" p] by auto
      have wr: "wrap32 k \<le> k" for k by (simp add: wrap32_def)
      have u: "used \<le> p + 1" if "scratchUsed d \<le> start"
        using same(2) [OF that n] wr [of "scratchUsed d + wrap32 (out + 1)"] wr [of "out + 1"] by (simp add: used_def)
      have "wrap32 (used + 2 ^ 32 - 1) < length (src d)" if small: "scratchUsed d \<le> start" "length (src d) < 2 ^ 32"
      proof -
        have "scratchUsed d + out < length (src d)" using same(2) [OF small(1) n] \<open>p < length (src d)\<close> by simp
        then have "used = scratchUsed d + out + 1" using small(2) by (simp add: used_def)
        then have "wrap32 (used + 2 ^ 32 - 1) = scratchUsed d + out"
          using \<open>scratchUsed d + out < length (src d)\<close> small(2) by (simp add: wrap32_def)
        then show ?thesis using \<open>scratchUsed d + out < length (src d)\<close> by simp
      qed
      then show ?thesis using e u same by (auto simp: quiet_def scratchPut_def d_def start_def)
    qed
  qed
  then show "keeps ps ps'" "r \<noteq> None \<Longrightarrow> pool_grows ps ps'"
    using frame assms(2) by (auto simp: keeps_def pool_grows_def pool_wf_def d_def start_def)
qed

lemma toRef_id: "n < 2 ^ 31 \<Longrightarrow> toRef n = int n"
  by (simp add: toRef_def signed_of_nat signed_take_bit_int_eq_self)

lemma later_mono: "later n i r \<Longrightarrow> n \<le> m \<Longrightarrow> later m i r"
  by (auto simp: later_def)

lemma allocNode_cases:
  assumes "allocNode ps = (r, ps')" "pool_wf (doc ps)"
  obtains "r < 0" "ps' = ps"
  | "r = int (nodeCount (doc ps))" "pool_grows ps ps'" "nodeCount (doc ps') = nodeCount (doc ps) + 1" "pos ps' = pos ps"
    "nodes (doc ps') = (nodes (doc ps))[nodeCount (doc ps) := clearNode]"
    "doc ps' = (doc ps)\<lparr>nodes := (nodes (doc ps))[nodeCount (doc ps) := clearNode], nodeCount := nodeCount (doc ps) + 1\<rparr>"
proof (cases "nodeCap (doc ps) \<le> nodeCount (doc ps)")
  case True
  then show ?thesis using assms that(1) by (simp add: allocNode_def)
next
  case False
  define c where "c = nodeCount (doc ps)"
  have "later (Suc c) (int i) (child ((nodes (doc ps))[c := clearNode] ! i)) \<and>
      later (Suc c) (int i) (sibling ((nodes (doc ps))[c := clearNode] ! i))" if "i < Suc c" for i
  proof (cases "i = c")
    case True
    then show ?thesis using assms(2) False by (simp add: pool_wf_def c_def clearNode_def later_def)
  next
    case i: False
    then show ?thesis using assms(2) that later_mono [of c _ _ "Suc c"] by (simp add: pool_wf_def c_def)
  qed
  then have "pool_wf (doc ps')"
    using assms False by (auto simp: allocNode_def pool_wf_def Let_def c_def)
  then show ?thesis
    using assms False that(2)
    by (auto simp: allocNode_def Let_def pool_grows_def keeps_def quiet_def toRef_id pool_wf_def)
qed

text \<open>An update of a node in use that keeps its references, or points them at later nodes.\<close>

lemma setNode_simps [simp]:
  "pos (setNode r f ps) = pos ps" "nodeCap (doc (setNode r f ps)) = nodeCap (doc ps)"
  "nodeCount (doc (setNode r f ps)) = nodeCount (doc ps)" "src (doc (setNode r f ps)) = src (doc ps)"
  "scratch (doc (setNode r f ps)) = scratch (doc ps)" "scratchUsed (doc (setNode r f ps)) = scratchUsed (doc ps)"
  "scratchCap (doc (setNode r f ps)) = scratchCap (doc ps)" "ok (doc (setNode r f ps)) = ok (doc ps)"
  "root (doc (setNode r f ps)) = root (doc ps)"
  "nodes (doc (setNode r f ps)) = (nodes (doc ps))[nat r := f (nodes (doc ps) ! nat r)]"
  by (simp_all add: setNode_def)

lemma setNode_grows:
  assumes "pool_wf (doc ps)" "0 \<le> r"
    and "\<And>n. later (nodeCount (doc ps)) r (child n) \<Longrightarrow> later (nodeCount (doc ps)) r (child (f n))"
    and "\<And>n. later (nodeCount (doc ps)) r (sibling n) \<Longrightarrow> later (nodeCount (doc ps)) r (sibling (f n))"
  shows "pool_grows ps (setNode r f ps)"
proof -
  let ?n = "nodeCount (doc ps)"
  have "later ?n (int i) (child ((nodes (doc ps))[nat r := f (nodes (doc ps) ! nat r)] ! i)) \<and>
      later ?n (int i) (sibling ((nodes (doc ps))[nat r := f (nodes (doc ps) ! nat r)] ! i))" if "i < ?n" for i
  proof (cases "i = nat r")
    case True
    then have "int i = r" "i < length (nodes (doc ps))" using assms(1,2) that by (auto simp: pool_wf_def)
    then show ?thesis using True assms(1,3,4) that by (auto simp: pool_wf_def)
  next
    case False
    then show ?thesis using assms(1) that by (simp add: pool_wf_def)
  qed
  then show ?thesis using assms(1) by (simp add: pool_grows_def keeps_def quiet_def pool_wf_def)
qed

lemma pool_grows_skipWs: "pool_wf (doc ps) \<Longrightarrow> pool_grows ps (skipWs ps)"
  using skipWs_pos [of ps] by (simp add: pool_grows_def keeps_def quiet_def)

lemma pool_grows_adv: "pool_wf (doc ps) \<Longrightarrow> pool_grows ps (adv ps)"
  by (simp add: pool_grows_def keeps_def quiet_def)

lemma pool_grows_then: "pool_grows a b \<Longrightarrow> pool_grows a (skipWs b)" "pool_grows a b \<Longrightarrow> pool_grows a (adv b)"
  using pool_grows_trans pool_grows_skipWs pool_grows_adv pool_grows_wf by blast+

lemma later_next: "i < r \<Longrightarrow> r < int n \<Longrightarrow> later n i r"
  by (simp add: later_def)

lemma linkNode_grows:
  assumes "pool_wf (doc ps)" "0 \<le> owner" "owner < r" "r < int (nodeCount (doc ps))" "tail < r"
  shows "pool_grows ps (linkNode owner tail r ps)"
  using assms by (auto simp: linkNode_def later_def intro!: setNode_grows)

lemma linkNode_count [simp]: "nodeCount (doc (linkNode owner tail r ps)) = nodeCount (doc ps)"
  "pos (linkNode owner tail r ps) = pos ps" "src (doc (linkNode owner tail r ps)) = src (doc ps)"
  by (simp_all add: linkNode_def)

text \<open>A value behind a fresh element, hung into the list.\<close>

lemma hang:
  assumes "pool_grows a b" "pool_wf (doc a)" "0 \<le> owner" "owner < e" "tail < e" "e < int (nodeCount (doc a))"
    "int (nodeCount (doc a)) \<le> v" "v < int (nodeCount (doc b))"
  shows "pool_grows a (skipWs (linkNode owner tail e (setNode e (\<lambda>n. n\<lparr>child := v\<rparr>) b)))"
proof -
  let ?c = "setNode e (\<lambda>n. n\<lparr>child := v\<rparr>) b"
  have b: "pool_wf (doc b)" "nodeCount (doc a) \<le> nodeCount (doc b)" using assms(1) by (auto simp: pool_grows_def keeps_def quiet_def)
  have c: "pool_grows b ?c" by (rule setNode_grows) (use assms b in \<open>auto intro: later_next\<close>)
  have d: "pool_grows ?c (linkNode owner tail e ?c)"
    by (rule linkNode_grows) (use pool_grows_wf [OF c] assms b in auto)
  show ?thesis
    using pool_grows_trans [OF assms(1)] pool_grows_trans [OF c] pool_grows_trans [OF d] pool_grows_skipWs [OF pool_grows_wf [OF d]] by blast
qed

section \<open>The loops\<close>

locale value_parser =
  fixes "value" :: "'f::zero Parser \<Rightarrow> (JsonRef, 'f) parsed"
  assumes value_delivers: "pool_wf (doc ps) \<Longrightarrow> parse_delivers (fresh ps) ps (value ps)"
begin

text \<open>What both loops do once an element has its node: the value, the link, and the byte behind it.\<close>

lemma element_delivers:
  assumes "pool_wf (doc ps)" "0 \<le> owner" "owner < e" "tail < e" "e < int (nodeCount (doc ps))"
    and more: "\<And>ps'. pool_grows ps ps' \<Longrightarrow> pos ps < pos ps' \<Longrightarrow> cur ps' = ch_comma \<Longrightarrow>
      parse_delivers (\<lambda>v _. v = owner) (adv ps') (continue (adv ps'))"
  shows "parse_delivers (\<lambda>v _. v = owner) ps (Option.bind (value ps)
           (\<lambda>(r, ps). case r of
              None \<Rightarrow> Some (jfail ps)
            | Some v \<Rightarrow>
                let ps = skipWs (linkNode owner tail e (setNode e (\<lambda>n. n\<lparr>child := v\<rparr>) ps)) in
                if cur ps = ch_comma then continue (adv ps)
                else if cur ps = close then Some (Some owner, adv ps)
                else Some (jfail ps)))"
proof -
  obtain r ps2 where v: "value ps = Some (r, ps2)" and w: "keeps ps ps2"
    and s: "\<And>v. r = Some v \<Longrightarrow> pool_grows ps ps2 \<and> pos ps < pos ps2 \<and> fresh ps v ps2"
    using value_delivers [OF assms(1)] by (auto simp: parse_delivers_def)
  show ?thesis
  proof (cases r)
    case None
    then show ?thesis using v w by simp
  next
    case (Some x)
    define ps3 where "ps3 = skipWs (linkNode owner tail e (setNode e (\<lambda>n. n\<lparr>child := x\<rparr>) ps2))"
    have g: "pool_grows ps ps3"
      unfolding ps3_def by (rule hang) (use s [OF Some] assms in \<open>auto simp: fresh_def\<close>)
    then have w3: "pool_wf (doc ps3)" by (rule pool_grows_wf)
    have p: "pos ps < pos ps3"
      using s [OF Some] skipWs_pos [of "linkNode owner tail e (setNode e (\<lambda>n. n\<lparr>child := x\<rparr>) ps2)"] by (simp add: ps3_def)
    have a: "pool_grows ps (adv ps3)" using g pool_grows_adv [OF w3] pool_grows_trans by blast
    then have "parse_delivers (\<lambda>v _. v = owner) ps (continue (adv ps3))" if "cur ps3 = ch_comma"
      using more [OF g p that] parse_delivers_grows by blast
    moreover have "parse_delivers (\<lambda>v _. v = owner) ps (Some (Some owner, adv ps3))"
      by (rule parse_delivers_some [OF a]) (use p in simp_all)
    ultimately show ?thesis
      using pool_grows_keeps_self [OF g] by (simp add: v Some ps3_def [symmetric] Let_def)
  qed
qed

lemma arrayLoop_delivers:
  assumes "pool_wf (doc ps)" "0 \<le> arr" "arr < int (nodeCount (doc ps))" "tail < int (nodeCount (doc ps))"
  shows "parse_delivers (\<lambda>v _. v = arr) ps (arrayLoop value arr tail ps)"
  using assms
proof (induction "length (src (doc ps)) - pos ps" arbitrary: ps tail rule: less_induct)
  case less
  obtain e ps1 where a: "allocNode ps = (e, ps1)" by fastforce
  from a less.prems(1) show ?case
  proof (cases rule: allocNode_cases)
    case 1
    then show ?thesis using a less.prems by (simp add: arrayLoop.simps [of _ _ _ ps])
  next
    case 2
    have e: "arr < e" "tail < e" "e < int (nodeCount (doc ps1))" "0 \<le> e" using 2 less.prems by auto
    have "parse_delivers (\<lambda>v _. v = arr) (adv ps3) (arrayLoop value arr e (adv ps3))"
      if "pool_grows ps1 ps3" "pos ps1 < pos ps3" "cur ps3 = ch_comma" for ps3
    proof (rule less.hyps)
      show "length (src (doc (adv ps3))) - pos (adv ps3) < length (src (doc ps)) - pos ps"
        using cur_nonzero [of ps3] that 2(2,4) by (auto simp: pool_grows_def keeps_def quiet_def)
    qed (use that less.prems e in \<open>auto simp: pool_grows_def keeps_def quiet_def\<close>)
    then show ?thesis
      using parse_delivers_grows [OF 2(2) element_delivers [OF pool_grows_wf [OF 2(2)] less.prems(2) e(1,2,3)]] e(4)
      by (simp add: arrayLoop.simps [of _ _ _ ps] a)
  qed
qed

lemma objectLoop_delivers:
  assumes "pool_wf (doc ps)" "0 \<le> obj" "obj < int (nodeCount (doc ps))" "tail < int (nodeCount (doc ps))"
  shows "parse_delivers (\<lambda>v _. v = obj) ps (objectLoop value obj tail ps)"
  using assms
proof (induction "length (src (doc ps)) - pos ps" arbitrary: ps tail rule: less_induct)
  case less
  define ps1 where "ps1 = skipWs ps"
  have g1: "pool_grows ps ps1" "pool_grows ps (adv ps1)"
    using pool_grows_skipWs [OF less.prems(1)] pool_grows_then(2) by (auto simp: ps1_def)
  obtain k ps2 where k: "parseStringBody (adv ps1) = (k, ps2)" by fastforce
  note k_wf = parseStringBody_grows [OF k pool_grows_wf [OF g1(2)]] parseStringBody_frame [OF k]
  have w2: "keeps ps ps1" "keeps ps ps2" "k \<noteq> None \<Longrightarrow> keeps ps (skipWs ps2)"
    using pool_grows_keeps [OF g1(2)] pool_grows_keeps_self [OF g1(1)] k_wf pool_grows_trans [OF g1(2)] pool_grows_then(1) pool_grows_keeps_self
    by blast+
  show ?case
  proof (cases "cur ps1 = ch_quote \<and> k \<noteq> None \<and> cur (skipWs ps2) = ch_colon")
    case False
    then show ?thesis
      using k w2
      by (auto simp: objectLoop.simps [of _ _ _ ps] ps1_def [symmetric] Let_def split: option.splits)
  next
    case True
    define ps3 where "ps3 = adv (skipWs ps2)"
    have g2: "pool_grows (adv ps1) ps2" using True k_wf by blast
    have g3: "pool_grows ps ps3" using pool_grows_trans [OF g1(2)] g2 by (auto simp: ps3_def intro: pool_grows_then)
    obtain kOff kLen kScr where kk: "k = Some (kOff, kLen, kScr)" using True by auto
    obtain e ps4 where a: "allocNode ps3 = (e, ps4)" by fastforce
    have unfold: "objectLoop value obj tail ps = (if e < 0 then Some (jfail ps4) else Option.bind
        (value (setNode e (\<lambda>n. n\<lparr>offset := kOff, jlength := kLen, inScratch := kScr\<rparr>) ps4))
           (\<lambda>(r, ps). case r of
              None \<Rightarrow> Some (jfail ps)
            | Some v \<Rightarrow>
                let ps = skipWs (linkNode obj tail e (setNode e (\<lambda>n. n\<lparr>child := v\<rparr>) ps)) in
                if cur ps = ch_comma then objectLoop value obj e (adv ps)
                else if cur ps = ch_rbrace then Some (Some obj, adv ps)
                else Some (jfail ps)))"
      using True k a by (simp add: objectLoop.simps [of _ _ _ ps] ps1_def [symmetric] ps3_def [symmetric] Let_def kk)
    from a pool_grows_wf [OF g3] show ?thesis
    proof (cases rule: allocNode_cases)
      case 1
      then show ?thesis using pool_grows_keeps_self [OF g3] by (simp add: unfold)
    next
      case 2
      define ps5 where "ps5 = setNode e (\<lambda>n. n\<lparr>offset := kOff, jlength := kLen, inScratch := kScr\<rparr>) ps4"
      have "0 \<le> e" using 2 by simp
      then have "pool_grows ps4 ps5" unfolding ps5_def by (intro setNode_grows pool_grows_wf [OF 2(2)]) simp_all
      then have g5: "pool_grows ps3 ps5" "pool_grows ps ps5" using pool_grows_trans 2(2) g3 by blast+
      have e: "obj < e" "tail < e" "e < int (nodeCount (doc ps5))"
        using 2 less.prems g3 by (auto simp: ps5_def pool_grows_def keeps_def quiet_def)
      have "parse_delivers (\<lambda>v _. v = obj) (adv ps6) (objectLoop value obj e (adv ps6))"
        if "pool_grows ps5 ps6" "pos ps5 < pos ps6" "cur ps6 = ch_comma" for ps6
      proof (rule less.hyps)
        show "length (src (doc (adv ps6))) - pos (adv ps6) < length (src (doc ps)) - pos ps"
          using cur_nonzero [of ps6] that g5 by (auto simp: pool_grows_def keeps_def quiet_def)
      qed (use that less.prems e in \<open>auto simp: pool_grows_def keeps_def quiet_def\<close>)
      then show ?thesis
        using parse_delivers_grows [OF g5(2) element_delivers [OF pool_grows_wf [OF g5(2)] less.prems(2) e]] \<open>0 \<le> e\<close>
        by (simp add: unfold ps5_def)
    qed
  qed
qed

text \<open>The two callers: a node for the container, and the loop.\<close>

lemma container_delivers:
  assumes "pool_wf (doc ps)" "\<And>n. child (f n) = child n" "\<And>n. sibling (f n) = sibling n"
    and loop: "\<And>v ps'. pool_grows ps ps' \<Longrightarrow> fresh ps v ps' \<Longrightarrow> 0 \<le> v \<Longrightarrow> parse_delivers (\<lambda>r _. r = v) ps' (loop v (- 1) ps')"
  shows "parse_delivers (fresh ps) ps
    (let (v, ps) = allocNode ps in
     if v < 0 then Some (jfail ps)
     else let ps = skipWs (adv (setNode v f ps)) in
       if cur ps = close then Some (Some v, adv ps) else loop v (- 1) ps)"
proof -
  obtain v ps1 where a: "allocNode ps = (v, ps1)" by fastforce
  from a assms(1) show ?thesis
  proof (cases rule: allocNode_cases)
    case 1
    then show ?thesis using a assms(1) by simp
  next
    case 2
    define ps2 where "ps2 = skipWs (adv (setNode v f ps1))"
    have "pool_grows ps1 (setNode v f ps1)" by (rule setNode_grows [OF pool_grows_wf [OF 2(2)]]) (use 2 assms in auto)
    then have g: "pool_grows ps ps2" "pool_grows ps (adv ps2)" using pool_grows_trans [OF 2(2)] by (auto simp: ps2_def intro: pool_grows_then)
    have v: "fresh ps v ps2" "0 \<le> v" using 2 by (auto simp: fresh_def ps2_def)
    have "pos ps < pos (adv ps2)" using skipWs_pos [of "adv (setNode v f ps1)"] 2 by (simp add: ps2_def)
    then have "parse_delivers (fresh ps) ps (Some (Some v, adv ps2))"
      using g v by (intro parse_delivers_some) (auto simp: fresh_def)
    moreover have "parse_delivers (fresh ps) ps (loop v (- 1) ps2)"
      by (rule parse_delivers_grows [OF g(1) parse_delivers_mono [OF loop [OF g(1) v]]])
        (use v in \<open>auto simp: fresh_def pool_grows_def keeps_def quiet_def\<close>)
    ultimately show ?thesis using a v by (simp add: ps2_def [symmetric] Let_def)
  qed
qed

lemma parseArray_delivers: "pool_wf (doc ps) \<Longrightarrow> parse_delivers (fresh ps) ps (parseArray value ps)"
  unfolding parseArray_def
  by (rule container_delivers) (auto intro!: arrayLoop_delivers simp: fresh_def pool_grows_def keeps_def quiet_def)

lemma parseObject_delivers: "pool_wf (doc ps) \<Longrightarrow> parse_delivers (fresh ps) ps (parseObject value ps)"
  unfolding parseObject_def
  by (rule container_delivers) (auto intro!: objectLoop_delivers simp: fresh_def pool_grows_def keeps_def quiet_def)

end

section \<open>The parser\<close>

lemma leaf_delivers:
  assumes "pool_grows ps ps1" "pos ps < pos ps1" "\<And>n. child (f n) = child n" "\<And>n. sibling (f n) = sibling n"
  shows "parse_delivers (fresh ps) ps (leaf f ps1)"
proof -
  obtain v ps2 where a: "allocNode ps1 = (v, ps2)" by fastforce
  from a pool_grows_wf [OF assms(1)] show ?thesis
  proof (cases rule: allocNode_cases)
    case 1
    then show ?thesis using a pool_grows_keeps_self [OF assms(1)] by (simp add: leaf_def)
  next
    case 2
    have "pool_grows ps2 (setNode v f ps2)" by (rule setNode_grows [OF pool_grows_wf [OF 2(2)]]) (use 2 assms in auto)
    then have "pool_grows ps (setNode v f ps2)" using pool_grows_trans assms(1) 2(2) by blast
    then show ?thesis
      using a 2 assms(2) growsD(2) [OF assms(1)] by (auto simp: leaf_def fresh_def intro!: parse_delivers_some)
  qed
qed

lemma literal_delivers: "pool_wf (doc ps) \<Longrightarrow> word \<noteq> [] \<Longrightarrow> parse_delivers (fresh ps) ps (literal word ty ps)"
  unfolding literal_def by (auto intro!: leaf_delivers simp: pool_grows_def keeps_def quiet_def)

lemma parseString_delivers: "pool_wf (doc ps) \<Longrightarrow> parse_delivers (fresh ps) ps (parseString ps)"
proof -
  assume wf: "pool_wf (doc ps)"
  obtain k ps1 where k: "parseStringBody (adv ps) = (k, ps1)" by fastforce
  note facts = parseStringBody_grows [OF k] parseStringBody_frame [OF k]
  show ?thesis
  proof (cases k)
    case None
    then show ?thesis using facts(1) wf pool_grows_keeps [OF pool_grows_adv [OF wf]] k by (simp add: parseString_def)
  next
    case (Some t)
    then have "pool_grows ps ps1" "pos ps < pos ps1" using facts wf pool_grows_trans [OF pool_grows_adv [OF wf]] by auto
    then show ?thesis using k Some by (cases t) (auto simp: parseString_def intro!: leaf_delivers)
  qed
qed

lemma parseNumber_delivers: "pool_wf (doc ps) \<Longrightarrow> parse_delivers (fresh ps) ps (parseNumber strtod ps)"
proof -
  assume wf: "pool_wf (doc ps)"
  obtain num taken where n: "strtod (drop (pos ps) (src (doc ps))) = (num, taken)" by fastforce
  obtain v ps1 where a: "allocNode ps = (v, ps1)" by fastforce
  from a wf show ?thesis
  proof (cases rule: allocNode_cases)
    case 1
    then show ?thesis using a n wf by (simp add: parseNumber_def)
  next
    case 2
    define ps2 where "ps2 = setNode v (\<lambda>n. n\<lparr>jtype := JSON_NUMBER, number := num\<rparr>) ps1"
    have "pool_grows ps1 ps2" unfolding ps2_def by (rule setNode_grows [OF pool_grows_wf [OF 2(2)]]) (use 2 in auto)
    then have "pool_grows ps (ps2\<lparr>pos := pos ps2 + taken\<rparr>)" "fresh ps v (ps2\<lparr>pos := pos ps2 + taken\<rparr>)" "0 \<le> v" "pos ps = pos ps2"
      using pool_grows_trans [OF 2(2)] 2 by (auto simp: pool_grows_def keeps_def quiet_def ps2_def fresh_def)
    then have "taken \<noteq> 0 \<Longrightarrow> parse_delivers (fresh ps) ps (Some (Some v, ps2\<lparr>pos := pos ps2 + taken\<rparr>))"
      by (intro parse_delivers_some) simp_all
    then show ?thesis using wf \<open>0 \<le> v\<close> by (simp add: parseNumber_def a n ps2_def)
  qed
qed

lemma parseValue_delivers: "pool_wf (doc ps) \<Longrightarrow> parse_delivers (fresh ps) ps (parseValue strtod depth ps)"
proof (induction "Suc JSON_MAX_DEPTH - depth" arbitrary: depth ps rule: less_induct)
  case (less depth ps0)
  show ?case
  proof (cases "JSON_MAX_DEPTH < depth")
    case True
    then show ?thesis using less.prems by (simp add: parseValue.simps [of strtod depth ps0])
  next
    case False
    define ps where "ps = skipWs ps0"
    have inner: "value_parser (\<lambda>ps. parseValue strtod (depth + 1) ps)"
      by unfold_locales (use less.hyps [of "depth + 1"] False in simp)
    have g: "pool_grows ps0 ps" using pool_grows_skipWs less.prems by (simp add: ps_def)
    have "parse_delivers (fresh ps) ps (parseValue strtod depth ps0)"
      using False value_parser.parseObject_delivers [OF inner] value_parser.parseArray_delivers [OF inner] pool_grows_wf [OF g]
      by (simp add: parseValue.simps [of strtod depth ps0] ps_def [symmetric] Let_def
          parseString_delivers literal_delivers parseNumber_delivers)
    moreover have "fresh ps = fresh ps0" by (intro ext) (simp add: fresh_def ps_def)
    ultimately show ?thesis using parse_delivers_grows [OF g] by simp
  qed
qed

interpretation pv: value_parser "\<lambda>ps. parseValue strtod depth ps" for strtod depth
  by unfold_locales (rule parseValue_delivers)

section \<open>The walks end\<close>

text \<open>Over a pool whose references lead forward, every walk along siblings is finite.\<close>

lemma sibling_later:
  assumes "pool_wf d" "0 \<le> r" "r < int (nodeCount d)"
  shows "later (nodeCount d) r (sibling (nodeAt d r))" "later (nodeCount d) r (child (nodeAt d r))"
  using assms by (auto simp: pool_wf_def nodeAt_def dest!: spec [of _ "nat r"])

lemma walk_induct [consumes 2, case_names stop step]:
  assumes "pool_wf d" "later (nodeCount d) i r"
    and "\<And>r. r < 0 \<Longrightarrow> P r"
    and "\<And>r. 0 \<le> r \<Longrightarrow> r < int (nodeCount d) \<Longrightarrow> P (sibling (nodeAt d r)) \<Longrightarrow> P r"
  shows "P r"
  using assms(2)
proof (induction "nat (int (nodeCount d) - r)" arbitrary: i r rule: less_induct)
  case less
  show ?case
  proof (cases "r < 0")
    case False
    then have r: "0 \<le> r" "r < int (nodeCount d)" using less.prems by (auto simp: later_def)
    note s = sibling_later(1) [OF assms(1) r]
    have "P (sibling (nodeAt d r))"
    proof (cases "sibling (nodeAt d r) < 0")
      case False
      then show ?thesis using less.hyps [OF _ s] s r by (auto simp: later_def)
    qed (rule assms(3))
    then show ?thesis using assms(4) r by blast
  qed (rule assms(3))
qed

text \<open>The walks, over the cells they pass.\<close>

lemma memberFrom_returns:
  assumes "pool_wf d" "later (nodeCount d) i r"
  shows "\<exists>x. memberFrom d key r = Some x \<and> x < int (nodeCount d) \<and> - 1 \<le> x"
  using assms
proof (induction r rule: walk_induct)
  case (step r)
  then show ?case
    using sibling_later(2) [OF assms(1) step(1,2)] by (auto simp: memberFrom.simps [of _ _ r] later_def)
qed (simp add: memberFrom.simps)

lemma atFrom_returns:
  assumes "pool_wf d" "later (nodeCount d) i r"
  shows "\<forall>n. \<exists>x. atFrom d index r n = Some x \<and> x < int (nodeCount d) \<and> - 1 \<le> x"
  using assms
proof (induction r rule: walk_induct)
  case (step r)
  then show ?case
    using sibling_later(2) [OF assms(1) step(1,2)] by (auto simp: atFrom.simps [of _ _ r] later_def)
qed (simp add: atFrom.simps)

lemma countFrom_returns:
  assumes "pool_wf d" "later (nodeCount d) i r"
  shows "\<forall>n. \<exists>x. countFrom d r n = Some x"
  using assms
proof (induction r rule: walk_induct)
  case (step r)
  then show ?case by (simp add: countFrom.simps [of _ r])
qed (simp add: countFrom.simps)

lemma Json_member_returns:
  assumes "pool_wf d" "r < int (nodeCount d)"
  shows "\<exists>x. Json_member d r key = Some x \<and> x < int (nodeCount d) \<and> - 1 \<le> x"
  using memberFrom_returns [OF assms(1) sibling_later(2)] assms by (auto simp: Json_member_def not_less)

lemma Json_at_returns:
  assumes "pool_wf d" "r < int (nodeCount d)"
  shows "\<exists>x. Json_at d r index = Some x \<and> x < int (nodeCount d) \<and> - 1 \<le> x"
  using atFrom_returns [OF assms(1) sibling_later(2)] assms by (auto simp: Json_at_def not_less)

lemma Json_count_returns:
  assumes "pool_wf d" "r < int (nodeCount d)"
  shows "\<exists>x. Json_count d r = Some x"
  using countFrom_returns [OF assms(1) sibling_later(2)] assms by (auto simp: Json_count_def not_less)

lemma keyEnd_le: "charAt path p \<noteq> 0 \<Longrightarrow> charAt path p \<noteq> ch_dot \<Longrightarrow> charAt path p \<noteq> ch_lbracket \<Longrightarrow> p < keyEnd path p"
proof -
  have le: "p \<le> keyEnd path p" for p by (induction path p rule: keyEnd.induct) (subst keyEnd.simps, auto)
  show "charAt path p \<noteq> 0 \<Longrightarrow> charAt path p \<noteq> ch_dot \<Longrightarrow> charAt path p \<noteq> ch_lbracket \<Longrightarrow> p < keyEnd path p"
    using le [of "p + 1"] by (subst keyEnd.simps) simp
qed

lemma indexLoop_le: "p \<le> snd (indexLoop path p idx)"
  by (induction path p idx rule: indexLoop.induct) (subst indexLoop.simps, auto)

lemma pathFrom_returns:
  assumes "pool_wf d" "r < int (nodeCount d)" "- 1 \<le> r"
  shows "\<exists>x. pathFrom d path p r = Some x \<and> x < int (nodeCount d) \<and> - 1 \<le> x"
  using assms(2,3)
proof (induction "length path - p" arbitrary: p r rule: less_induct)
  case less
  have IH: "\<exists>x. pathFrom d path q s = Some x \<and> x < int (nodeCount d) \<and> - 1 \<le> x"
    if "p < q" "p < length path" "s < int (nodeCount d)" "- 1 \<le> s" for q s
    using less.hyps that by simp
  have len: "charAt path p \<noteq> 0 \<Longrightarrow> p < length path" by (rule charAt_nonzero)
  obtain m where m: "Json_member d r (take (keyEnd path p - p) (drop p path)) = Some m" "m < int (nodeCount d)" "- 1 \<le> m"
    using Json_member_returns [OF assms(1) less.prems(1)] by blast
  obtain idx q where i: "indexLoop path (p + 1) 0 = (idx, q)" by fastforce
  then have q: "p + 1 \<le> q" using indexLoop_le [of "p + 1" path 0] by simp
  obtain a where a: "Json_at d r idx = Some a" "a < int (nodeCount d)" "- 1 \<le> a"
    using Json_at_returns [OF assms(1) less.prems(1)] by blast
  show ?case
    using less.prems m a i q len keyEnd_le [of path p] IH [of "p + 1" r] IH [of "keyEnd path p" m] IH [of "q + 1" a]
    by (simp add: pathFrom.simps [of d path p r] Let_def)
qed

section \<open>Parsing\<close>

text \<open>
C38: Parsing returns on every text, whatever the capacities.  It answers the field \<open>ok\<close> of the
document; the nodes in use stay within the pool; each of their references leads to a later node in
use or nowhere; so every walk over the document, by key, by index, by count or along a path, ends
inside it.
\<close>

theorem Json_parse_bounded:
  assumes "length pool = cap" "cap < 2 ^ 31"
  shows "\<exists>b d. Json_parse strtod pool cap mem memCap tx = Some (b, d) \<and> b = ok d \<and>
    length (nodes d) = cap \<and> nodeCount d \<le> cap \<and> pool_wf d \<and> root d < int (nodeCount d) \<and> (b \<longrightarrow> 0 \<le> root d) \<and>
    (\<forall>r key index path. - 1 \<le> r \<longrightarrow> r < int (nodeCount d) \<longrightarrow>
      (\<exists>x. Json_member d r key = Some x \<and> x < int (nodeCount d) \<and> - 1 \<le> x) \<and>
      (\<exists>x. Json_at d r index = Some x \<and> x < int (nodeCount d) \<and> - 1 \<le> x) \<and>
      (\<exists>x. Json_count d r = Some x) \<and>
      (\<exists>x. Json_path (Some d) r (Some path) = Some x \<and> x < int (nodeCount d) \<and> - 1 \<le> x))"
proof -
  define d0 where "d0 = \<lparr>nodes = pool, nodeCap = cap, nodeCount = 0, src = tx, scratch = mem, scratchCap = memCap,
    scratchUsed = 0, root = - 1, ok = True\<rparr>"
  have "pool_wf (doc \<lparr>doc = d0, pos = 0\<rparr>)" using assms by (simp add: pool_wf_def d0_def)
  then obtain r ps where v: "parseValue strtod 0 \<lparr>doc = d0, pos = 0\<rparr> = Some (r, ps)"
    and k: "keeps \<lparr>doc = d0, pos = 0\<rparr> ps" and f: "\<And>v. r = Some v \<Longrightarrow> fresh \<lparr>doc = d0, pos = 0\<rparr> v ps"
    using pv.value_delivers by (fastforce simp: parse_delivers_def)
  define d where "d = (case r of None \<Rightarrow> (doc ps)\<lparr>ok := False\<rparr>
    | Some v \<Rightarrow> (if cur (skipWs ps) \<noteq> 0 then (doc ps)\<lparr>ok := False\<rparr> else doc ps)\<lparr>root := v\<rparr>)"
  have p: "Json_parse strtod pool cap mem memCap tx = Some (ok d, d)"
    using v by (simp add: Json_parse_def d0_def d_def Let_def split: option.splits)
  have wf: "pool_wf d" "nodeCap d = cap" using k by (auto simp: keeps_def pool_wf_def d_def d0_def split: option.splits)
  have "root (doc ps) = - 1" using k by (simp add: keeps_def d0_def)
  then have root: "root d < int (nodeCount d)" "ok d \<longrightarrow> 0 \<le> root d"
    using f by (auto simp: d_def fresh_def split: option.splits)
  have "\<exists>x. Json_path (Some d) r (Some path) = Some x \<and> x < int (nodeCount d) \<and> - 1 \<le> x"
    if "- 1 \<le> r" "r < int (nodeCount d)" for r path
    using pathFrom_returns [OF wf(1) that(2,1), of path 0] that by (auto simp: Json_path_def)
  then show ?thesis
    using p wf root Json_member_returns [OF wf(1)] Json_at_returns [OF wf(1)] Json_count_returns [OF wf(1)]
    by (intro exI [of _ "ok d"] exI [of _ d]) (auto simp: pool_wf_def)
qed

definition sample_text :: "u8 list" where
  "sample_text = [91, 116, 114, 117, 101, 44, 34, 92, 110, 34, 93]"

theorem Json_parse_bounded_witness:
  "\<exists>b d. Json_parse (\<lambda>_. (0 :: nat, 0)) (replicate 5 clearNode) 5 (\<lambda>_. 0) 4 sample_text = Some (b, d) \<and> b = ok d \<and>
    length (nodes d) = 5 \<and> nodeCount d \<le> 5 \<and> pool_wf d \<and> root d < int (nodeCount d) \<and> (b \<longrightarrow> 0 \<le> root d) \<and>
    (\<forall>r key index path. - 1 \<le> r \<longrightarrow> r < int (nodeCount d) \<longrightarrow>
      (\<exists>x. Json_member d r key = Some x \<and> x < int (nodeCount d) \<and> - 1 \<le> x) \<and>
      (\<exists>x. Json_at d r index = Some x \<and> x < int (nodeCount d) \<and> - 1 \<le> x) \<and>
      (\<exists>x. Json_count d r = Some x) \<and>
      (\<exists>x. Json_path (Some d) r (Some path) = Some x \<and> x < int (nodeCount d) \<and> - 1 \<le> x))"
  by (rule Json_parse_bounded) simp_all

text \<open>
C39: However small the scratch area is said to be, parsing stores only below the length of the text,
so an area of that size is never overrun.
\<close>

theorem Json_parse_scratch:
  assumes "length pool = cap" "cap < 2 ^ 31" "length tx < 2 ^ 32"
    and "Json_parse strtod pool cap mem memCap tx = Some (b, d)" "length tx \<le> i"
  shows "scratch d i = mem i"
proof -
  define ps0 where "ps0 = \<lparr>doc = \<lparr>nodes = pool, nodeCap = cap, nodeCount = 0, src = tx, scratch = mem, scratchCap = memCap,
    scratchUsed = 0, root = - 1, ok = True\<rparr>, pos = 0\<rparr>"
  have "pool_wf (doc ps0)" using assms(1,2) by (simp add: pool_wf_def ps0_def)
  then obtain r ps where v: "parseValue strtod 0 ps0 = Some (r, ps)" and k: "keeps ps0 ps"
    using pv.value_delivers by (fastforce simp: parse_delivers_def)
  have "scratch d = scratch (doc ps)"
    using assms(4) v by (auto simp: Json_parse_def ps0_def [symmetric] Let_def split: option.splits if_splits)
  then show ?thesis using k assms(3,5) by (simp add: keeps_def quiet_def ps0_def)
qed

theorem Json_parse_scratch_witness:
  "map_option (\<lambda>(b, d). (b, scratch d 11)) (Json_parse (\<lambda>_. (0 :: nat, 0)) (replicate 5 clearNode) 5 (\<lambda>_. 7) 4 sample_text) = Some (True, 7)"
proof -
  let ?p = "Json_parse (\<lambda>_. (0 :: nat, 0)) (replicate 5 clearNode) 5 (\<lambda>_. 7) 4 sample_text"
  have "map_option fst ?p = Some True" by code_simp
  then obtain d where d: "?p = Some (True, d)" by auto
  have "scratch d 11 = 7"
    by (rule Json_parse_scratch [OF _ _ _ d]) (simp_all add: sample_text_def)
  then show ?thesis using d by simp
qed

text \<open>
The declared capacity of the scratch area does not protect it.  A decoded string that fills
the area takes its terminator into account and leaves more used than there is; the room left for the next
one is computed modulo two to the power 32, so it is stored behind the area.  A two-byte array of
escapes does it in an area of one byte.
\<close>

theorem Json_parse_overruns:
  "map_option (\<lambda>(b, d). (b, scratch d 2))
     (Json_parse (\<lambda>_. (0 :: nat, 0)) (replicate 8 clearNode) 8 (\<lambda>_. 0) 1
       [91, 34, 92, 110, 34, 44, 34, 92, 110, 34, 93])
   = Some (True, 10)"
  by code_simp

end
