(* ===== verification/Json_Writer.thy ===== *)
theory Json_Writer
  imports Json
begin

text \<open>
  \<open>src/net/json.c\<close>, the writer: a streaming builder over a buffer that the caller owns.  As for the
  scratch area, the buffer is the memory behind its pointer, \<open>cap\<close> bytes of which may be used.  The
  text of a number comes from \<open>snprintf\<close>: \<open>whole\<close> is the integer a number converts to and back from,
  if there is one, and \<open>lld\<close> and \<open>g17\<close> give the two formats (nothing, if \<open>snprintf\<close> fails).
\<close>

section \<open>The builder\<close>

record JsonWriter =
  wout :: "(nat \<Rightarrow> u8) option"
  wcap :: nat
  wused :: nat
  wok :: bool
  wdepth :: int
  needComma :: "bool list"

text \<open>Calls that answer whether they succeeded, one after the other; and a pointer that may be null.\<close>

type_synonym wcall = "JsonWriter \<Rightarrow> bool \<times> JsonWriter"

definition thenCall :: "bool \<times> 'w \<Rightarrow> ('w \<Rightarrow> bool \<times> 'w) \<Rightarrow> bool \<times> 'w" where
  "thenCall r f = (if fst r then f (snd r) else r)"

definition onWriter :: "wcall \<Rightarrow> JsonWriter option \<Rightarrow> bool \<times> JsonWriter option" where
  "onWriter f w = (case w of None \<Rightarrow> (False, None) | Some x \<Rightarrow> (fst (f x), Some (snd (f x))))"

definition writerFail :: wcall where
  "writerFail w = (False, w\<lparr>wok := False\<rparr>)"

definition writerReserve :: "nat \<Rightarrow> wcall" where
  "writerReserve n w =
    (if \<not> wok w then (False, w)
     else if wout w = None \<or> wcap w \<le> wrap64 (wused w + n) then writerFail w
     else (True, w))"

definition wstore :: "nat \<Rightarrow> u8 list \<Rightarrow> JsonWriter \<Rightarrow> JsonWriter" where
  "wstore i bs w = w\<lparr>wout := map_option (scratchPut i bs) (wout w)\<rparr>"

definition writerPut :: "u8 \<Rightarrow> wcall" where
  "writerPut c w = thenCall (writerReserve 1 w)
    (\<lambda>w. let w1 = (wstore (wused w) [c] w)\<lparr>wused := wused w + 1\<rparr> in (True, wstore (wused w1) [0] w1))"

definition writerAppend :: "u8 list \<Rightarrow> wcall" where
  "writerAppend bs w =
    (if bs = [] then (True, w)
     else thenCall (writerReserve (length bs) w)
       (\<lambda>w. let w1 = (wstore (wused w) bs w)\<lparr>wused := wused w + length bs\<rparr> in (True, wstore (wused w1) [0] w1)))"

text \<open>The designator of an escape.\<close>

definition escapeOf :: "u8 \<Rightarrow> u8 option" where
  "escapeOf c =
    (if c = ch_quote then Some ch_quote
     else if c = ch_backslash then Some ch_backslash
     else if c = ch_newline then Some ch_n
     else if c = ch_cr then Some ch_r
     else if c = ch_tab then Some ch_t
     else if c = ch_bs then Some ch_b
     else if c = ch_ff then Some ch_f
     else None)"

fun writerStringBody :: "u8 list \<Rightarrow> wcall" where
  "writerStringBody [] w = (True, w)"
| "writerStringBody (c # s) w =
    (if c = 0 then (True, w)
     else thenCall
       (case escapeOf c of Some e \<Rightarrow> writerAppend [ch_backslash, e] w | None \<Rightarrow> writerPut c w)
       (writerStringBody s))"

definition JsonWriter_2 :: "(nat \<Rightarrow> u8) option \<Rightarrow> nat \<Rightarrow> JsonWriter" where
  "JsonWriter_2 mem cap =
    (let w = \<lparr>wout = mem, wcap = cap, wused = 0, wok = (mem \<noteq> None \<and> 0 < cap), wdepth = 0,
              needComma = replicate JSON_MAX_DEPTH False\<rparr>
     in if wok w then wstore 0 [0] w else w)"

definition JsonWriter_ok :: "JsonWriter option \<Rightarrow> bool" where
  "JsonWriter_ok w = (case w of None \<Rightarrow> False | Some w \<Rightarrow> wok w)"

definition JsonWriter_used :: "JsonWriter option \<Rightarrow> nat" where
  "JsonWriter_used w = (case w of None \<Rightarrow> 0 | Some w \<Rightarrow> wused w)"

definition writerValueOpen :: wcall where
  "writerValueOpen w =
    (if \<not> wok w then (False, w)
     else if wdepth w = 0 then (True, w)
     else if wdepth w < 0 \<or> int JSON_MAX_DEPTH < wdepth w then writerFail w
     else
       let parent = nat (wdepth w - 1) in
       if needComma w ! parent then
         thenCall (writerPut ch_comma w) (\<lambda>w. (True, w\<lparr>needComma := (needComma w)[parent := False]\<rparr>))
       else (True, w))"

definition writerValueClose :: wcall where
  "writerValueClose w =
    (if wdepth w = 0 then (wok w, w)
     else let w1 = w\<lparr>needComma := (needComma w)[nat (wdepth w - 1) := True]\<rparr> in (wok w1, w1))"

text \<open>What the two openings and the two closings share but the bracket.\<close>

definition beginWith :: "u8 \<Rightarrow> wcall" where
  "beginWith c w = thenCall (thenCall (writerValueOpen w) (writerPut c))
    (\<lambda>w. if wdepth w < 0 \<or> int JSON_MAX_DEPTH \<le> wdepth w then writerFail w
         else (True, w\<lparr>needComma := (needComma w)[nat (wdepth w) := False], wdepth := wdepth w + 1\<rparr>))"

definition endWith :: "u8 \<Rightarrow> wcall" where
  "endWith c w =
    (if \<not> wok w then (False, w)
     else if wdepth w \<le> 0 then writerFail w
     else thenCall (writerPut c w) (\<lambda>w. writerValueClose (w\<lparr>wdepth := wdepth w - 1\<rparr>)))"

definition Json_beginObject :: "JsonWriter option \<Rightarrow> bool \<times> JsonWriter option" where
  "Json_beginObject = onWriter (beginWith ch_lbrace)"

definition Json_endObject :: "JsonWriter option \<Rightarrow> bool \<times> JsonWriter option" where
  "Json_endObject = onWriter (endWith ch_rbrace)"

definition Json_beginArray :: "JsonWriter option \<Rightarrow> bool \<times> JsonWriter option" where
  "Json_beginArray = onWriter (beginWith ch_lbracket)"

definition Json_endArray :: "JsonWriter option \<Rightarrow> bool \<times> JsonWriter option" where
  "Json_endArray = onWriter (endWith ch_rbracket)"

text \<open>A string that may be null.\<close>

definition withText :: "u8 list option \<Rightarrow> (u8 list \<Rightarrow> wcall) \<Rightarrow> wcall" where
  "withText s f w = (case s of None \<Rightarrow> (False, w) | Some t \<Rightarrow> f t w)"

definition Json_addKey :: "u8 list option \<Rightarrow> JsonWriter option \<Rightarrow> bool \<times> JsonWriter option" where
  "Json_addKey k = onWriter (withText k (\<lambda>t w.
    if \<not> wok w then (False, w)
    else if wdepth w \<le> 0 then writerFail w
    else
      let idx = nat (wdepth w - 1) in
      thenCall (thenCall (thenCall (thenCall
        (if needComma w ! idx then writerPut ch_comma w else (True, w))
        (writerPut ch_quote))
        (writerStringBody t))
        (writerAppend [ch_quote, ch_colon]))
        (\<lambda>w. (True, w\<lparr>needComma := (needComma w)[idx := False]\<rparr>))))"

text \<open>A value between its opening and its closing.\<close>

definition valueWith :: "wcall \<Rightarrow> wcall" where
  "valueWith f w = thenCall (thenCall (writerValueOpen w) f) writerValueClose"

definition Json_stringVal :: "u8 list option \<Rightarrow> JsonWriter option \<Rightarrow> bool \<times> JsonWriter option" where
  "Json_stringVal s = onWriter (withText s (\<lambda>t. valueWith (\<lambda>w.
     thenCall (thenCall (writerPut ch_quote w) (writerStringBody t)) (writerPut ch_quote))))"

definition numberText :: "('f \<Rightarrow> int option) \<Rightarrow> (int \<Rightarrow> u8 list option) \<Rightarrow> ('f \<Rightarrow> u8 list option) \<Rightarrow> 'f \<Rightarrow> u8 list option" where
  "numberText whole lld g17 v = (case whole v of Some n \<Rightarrow> lld n | None \<Rightarrow> g17 v)"

definition Json_numberVal ::
  "('f \<Rightarrow> int option) \<Rightarrow> (int \<Rightarrow> u8 list option) \<Rightarrow> ('f \<Rightarrow> u8 list option) \<Rightarrow> 'f \<Rightarrow>
   JsonWriter option \<Rightarrow> bool \<times> JsonWriter option"
where
  "Json_numberVal whole lld g17 v = onWriter (valueWith (\<lambda>w.
     case numberText whole lld g17 v of
       None \<Rightarrow> writerFail w
     | Some t \<Rightarrow> if t = [] \<or> 32 \<le> length t then writerFail w else writerAppend t w))"

definition Json_boolVal :: "bool \<Rightarrow> JsonWriter option \<Rightarrow> bool \<times> JsonWriter option" where
  "Json_boolVal v = onWriter (valueWith (writerAppend (if v then txt_true else txt_false)))"

definition Json_nullVal :: "JsonWriter option \<Rightarrow> bool \<times> JsonWriter option" where
  "Json_nullVal = onWriter (valueWith (writerAppend txt_null))"

definition Json_rawVal :: "u8 list option \<Rightarrow> JsonWriter option \<Rightarrow> bool \<times> JsonWriter option" where
  "Json_rawVal raw = onWriter (withText raw (\<lambda>t. valueWith (writerAppend t)))"

section \<open>One string into a buffer\<close>

text \<open>The loop: what is used and the memory, or nothing when the buffer is full.\<close>

fun writeStringLoop :: "nat \<Rightarrow> u8 list \<Rightarrow> nat \<Rightarrow> (nat \<Rightarrow> u8) \<Rightarrow> (nat \<times> (nat \<Rightarrow> u8)) option \<times> (nat \<Rightarrow> u8)" where
  "writeStringLoop cap [] used mem = (Some (used, mem), mem)"
| "writeStringLoop cap (c # s) used mem =
    (if c = 0 then (Some (used, mem), mem)
     else
       let bs = (case escapeOf c of Some e \<Rightarrow> [ch_backslash, e] | None \<Rightarrow> [c]) in
       if cap \<le> used + length bs then (None, mem)
       else writeStringLoop cap s (used + length bs) (scratchPut used bs mem))"

definition Json_writeString :: "(nat \<Rightarrow> u8) \<Rightarrow> nat \<Rightarrow> u8 list \<Rightarrow> int \<times> (nat \<Rightarrow> u8)" where
  "Json_writeString mem cap s =
    (if cap < 2 then (- 1, mem)
     else case writeStringLoop cap s 1 (scratchPut 0 [ch_quote] mem) of
       (None, mem1) \<Rightarrow> (- 1, mem1)
     | (Some (used, mem1), _) \<Rightarrow>
         if cap \<le> used + 2 then (- 1, mem1)
         else (int (used + 1), scratchPut (used + 1) [0] (scratchPut used [ch_quote] mem1)))"

end
