(* ===== verification/Json_Render.thy ===== *)
theory Json_Render
  imports Json_Writer
begin

text \<open>
  Documents as trees, their text, and the calls of the builder that write it: with room in the buffer
  and levels left, the builder appends exactly the text, commas included, and stores nothing behind the
  capacity.
\<close>

section \<open>Trees and their text\<close>

datatype 'f jval = JNull | JBool bool | JNum 'f | JStr "u8 list" | JArr "'f jval list" | JObj "(u8 list \<times> 'f jval) list"

definition escape :: "u8 list \<Rightarrow> u8 list" where
  "escape s = concat (map (\<lambda>c. case escapeOf c of Some e \<Rightarrow> [ch_backslash, e] | None \<Rightarrow> [c]) s)"

definition quotedText :: "u8 list \<Rightarrow> u8 list" where
  "quotedText s = ch_quote # escape s @ [ch_quote]"

definition sep :: "bool \<Rightarrow> u8 list" where
  "sep b = (if b then [ch_comma] else [])"

fun render :: "('f \<Rightarrow> u8 list) \<Rightarrow> 'f jval \<Rightarrow> u8 list"
  and renderList :: "('f \<Rightarrow> u8 list) \<Rightarrow> bool \<Rightarrow> 'f jval list \<Rightarrow> u8 list"
  and renderMembers :: "('f \<Rightarrow> u8 list) \<Rightarrow> bool \<Rightarrow> (u8 list \<times> 'f jval) list \<Rightarrow> u8 list"
where
  "render num JNull = txt_null"
| "render num (JBool b) = (if b then txt_true else txt_false)"
| "render num (JNum x) = num x"
| "render num (JStr s) = quotedText s"
| "render num (JArr vs) = ch_lbracket # renderList num False vs @ [ch_rbracket]"
| "render num (JObj ms) = ch_lbrace # renderMembers num False ms @ [ch_rbrace]"
| "renderList num b [] = []"
| "renderList num b (v # vs) = sep b @ render num v @ renderList num True vs"
| "renderMembers num b [] = []"
| "renderMembers num b ((k, v) # ms) = sep b @ quotedText k @ ch_colon # render num v @ renderMembers num True ms"

text \<open>The levels of nesting, and whether every string and number can be written: strings without NUL.\<close>

fun height :: "'f jval \<Rightarrow> nat"
  and heightList :: "'f jval list \<Rightarrow> nat"
  and heightMembers :: "(u8 list \<times> 'f jval) list \<Rightarrow> nat"
where
  "height (JArr vs) = Suc (heightList vs)"
| "height (JObj ms) = Suc (heightMembers ms)"
| "height v = 0"
| "heightList [] = 0"
| "heightList (v # vs) = max (height v) (heightList vs)"
| "heightMembers [] = 0"
| "heightMembers ((k, v) # ms) = max (height v) (heightMembers ms)"

fun writable :: "('f \<Rightarrow> bool) \<Rightarrow> 'f jval \<Rightarrow> bool"
  and writableList :: "('f \<Rightarrow> bool) \<Rightarrow> 'f jval list \<Rightarrow> bool"
  and writableMembers :: "('f \<Rightarrow> bool) \<Rightarrow> (u8 list \<times> 'f jval) list \<Rightarrow> bool"
where
  "writable good (JNum x) = good x"
| "writable good (JStr s) = (0 \<notin> set s)"
| "writable good (JArr vs) = writableList good vs"
| "writable good (JObj ms) = writableMembers good ms"
| "writable good v = True"
| "writableList good [] = True"
| "writableList good (v # vs) = (writable good v \<and> writableList good vs)"
| "writableMembers good [] = True"
| "writableMembers good ((k, v) # ms) = (0 \<notin> set k \<and> writable good v \<and> writableMembers good ms)"

text \<open>The calls of the builder for a tree.\<close>

fun build :: "('f \<Rightarrow> JsonWriter option \<Rightarrow> bool \<times> JsonWriter option) \<Rightarrow> 'f jval \<Rightarrow> JsonWriter option \<Rightarrow> bool \<times> JsonWriter option"
  and buildList :: "('f \<Rightarrow> JsonWriter option \<Rightarrow> bool \<times> JsonWriter option) \<Rightarrow> 'f jval list \<Rightarrow> JsonWriter option \<Rightarrow> bool \<times> JsonWriter option"
  and buildMembers :: "('f \<Rightarrow> JsonWriter option \<Rightarrow> bool \<times> JsonWriter option) \<Rightarrow> (u8 list \<times> 'f jval) list \<Rightarrow> JsonWriter option \<Rightarrow> bool \<times> JsonWriter option"
where
  "build num JNull w = Json_nullVal w"
| "build num (JBool b) w = Json_boolVal b w"
| "build num (JNum x) w = num x w"
| "build num (JStr s) w = Json_stringVal (Some s) w"
| "build num (JArr vs) w = thenCall (thenCall (Json_beginArray w) (buildList num vs)) Json_endArray"
| "build num (JObj ms) w = thenCall (thenCall (Json_beginObject w) (buildMembers num ms)) Json_endObject"
| "buildList num [] w = (True, w)"
| "buildList num (v # vs) w = thenCall (build num v w) (buildList num vs)"
| "buildMembers num [] w = (True, w)"
| "buildMembers num ((k, v) # ms) w = thenCall (thenCall (Json_addKey (Some k) w) (build num v)) (buildMembers num ms)"

section \<open>Appending\<close>

definition wtext :: "JsonWriter \<Rightarrow> u8 list" where
  "wtext w = map (the (wout w)) [0..<wused w]"

text \<open>A builder that has not failed.\<close>

definition wfine :: "JsonWriter \<Rightarrow> bool" where
  "wfine w \<longleftrightarrow> wok w \<and> wout w \<noteq> None \<and> wused w < wcap w \<and> wcap w < 2 ^ 63 \<and>
    0 \<le> wdepth w \<and> wdepth w \<le> int JSON_MAX_DEPTH \<and> length (needComma w) = JSON_MAX_DEPTH"

text \<open>Text was added behind; nothing was stored behind the capacity.\<close>

definition added :: "u8 list \<Rightarrow> JsonWriter \<Rightarrow> JsonWriter \<Rightarrow> bool" where
  "added t w w' \<longleftrightarrow> wfine w' \<and> wtext w' = wtext w @ t \<and> wused w' = wused w + length t \<and>
    wcap w' = wcap w \<and> wdepth w' = wdepth w \<and> (\<forall>i \<ge> wcap w. the (wout w') i = the (wout w) i)"

definition puts :: "wcall \<Rightarrow> u8 list \<Rightarrow> bool" where
  "puts f t \<longleftrightarrow> (\<forall>w. wfine w \<longrightarrow> wused w + length t < wcap w \<longrightarrow>
    (\<exists>w'. f w = (True, w') \<and> added t w w' \<and> needComma w' = needComma w))"

lemma thenCall_True [simp]: "thenCall (True, w) f = f w"
  by (simp add: thenCall_def)

lemma putsE:
  assumes "puts f t" "wfine w" "wused w + length t < wcap w"
  obtains w' where "f w = (True, w')" "added t w w'" "needComma w' = needComma w"
  using assms by (auto simp: puts_def)

lemma added_trans: "added s a b \<Longrightarrow> added t b c \<Longrightarrow> added (s @ t) a c"
  by (auto simp: added_def)

lemma puts_andThen: "puts f s \<Longrightarrow> puts g t \<Longrightarrow> puts (\<lambda>w. thenCall (f w) g) (s @ t)"
proof -
  assume f: "puts f s" and g: "puts g t"
  show "puts (\<lambda>w. thenCall (f w) g) (s @ t)"
    unfolding puts_def
  proof (intro allI impI)
    fix w assume w: "wfine w" "wused w + length (s @ t) < wcap w"
    obtain w1 where 1: "f w = (True, w1)" "added s w w1" "needComma w1 = needComma w"
      by (rule putsE [OF f w(1)]) (use w(2) in auto)
    obtain w2 where 2: "g w1 = (True, w2)" "added t w1 w2" "needComma w2 = needComma w1"
      by (rule putsE [OF g]) (use 1(2) w(2) in \<open>auto simp: added_def\<close>)
    show "\<exists>w'. thenCall (f w) g = (True, w') \<and> added (s @ t) w w' \<and> needComma w' = needComma w"
      using 1 2 added_trans by auto
  qed
qed

text \<open>A store of text and its terminator.\<close>

lemma store_added:
  assumes "wfine w" "wused w + length t < wcap w"
  shows "added t w (wstore (wused w + length t) [0] ((wstore (wused w) t w)\<lparr>wused := wused w + length t\<rparr>))"
proof -
  obtain mem where mem: "wout w = Some mem" using assms(1) by (auto simp: wfine_def)
  have "map (scratchPut (wused w + length t) [0] (scratchPut (wused w) t mem)) [0..<wused w + length t]
      = map mem [0..<wused w] @ t"
    by (rule nth_equalityI) (auto simp: scratchPut_def nth_append)
  then show ?thesis
    using assms mem by (auto simp: added_def wfine_def wtext_def wstore_def scratchPut_def)
qed

lemma puts_put: "puts (writerPut c) [c]"
proof -
  have "writerPut c w = (True, wstore (wused w + length [c]) [0] ((wstore (wused w) [c] w)\<lparr>wused := wused w + length [c]\<rparr>))"
    if "wfine w" "wused w + 1 < wcap w" for w
    using that by (auto simp: writerPut_def writerReserve_def wfine_def thenCall_def Let_def wstore_def)
  then show ?thesis using store_added [of _ "[c]"] by (auto simp: puts_def wstore_def)
qed

lemma puts_append: "t \<noteq> [] \<Longrightarrow> puts (writerAppend t) t"
proof -
  assume t: "t \<noteq> []"
  have "writerAppend t w = (True, wstore (wused w + length t) [0] ((wstore (wused w) t w)\<lparr>wused := wused w + length t\<rparr>))"
    if "wfine w" "wused w + length t < wcap w" for w
    using that t by (auto simp: writerAppend_def writerReserve_def wfine_def thenCall_def Let_def wstore_def)
  then show ?thesis using store_added [of _ t] by (auto simp: puts_def wstore_def)
qed

lemma puts_nothing: "puts (Pair True) []"
  by (auto simp: puts_def added_def)

lemma puts_string: "0 \<notin> set s \<Longrightarrow> puts (writerStringBody s) (escape s)"
proof (induction s)
  case Nil
  then show ?case by (auto simp: puts_def added_def escape_def)
next
  case (Cons c s)
  have "puts (\<lambda>w. case escapeOf c of Some e \<Rightarrow> writerAppend [ch_backslash, e] w | None \<Rightarrow> writerPut c w)
      (case escapeOf c of Some e \<Rightarrow> [ch_backslash, e] | None \<Rightarrow> [c])"
    by (cases "escapeOf c") (simp_all add: puts_put puts_append)
  from puts_andThen [OF this, of "writerStringBody s" "escape s"] Cons
  show ?case by (auto simp: escape_def puts_def)
qed

lemma puts_quoted:
  "0 \<notin> set s \<Longrightarrow> puts (\<lambda>w. thenCall (thenCall (writerPut ch_quote w) (writerStringBody s)) (writerPut ch_quote)) (quotedText s)"
  using puts_andThen [OF puts_andThen [OF puts_put puts_string] puts_put, of s ch_quote ch_quote] by (simp add: quotedText_def)

section \<open>Values\<close>

text \<open>The comma a value is due, and what it leaves in the flags of the levels around it.\<close>

definition commaOf :: "JsonWriter \<Rightarrow> u8 list" where
  "commaOf w = sep (0 < wdepth w \<and> needComma w ! nat (wdepth w - 1))"

definition outer_flags :: "JsonWriter \<Rightarrow> JsonWriter \<Rightarrow> bool" where
  "outer_flags w w' \<longleftrightarrow> (\<forall>i. int i < wdepth w - 1 \<longrightarrow> needComma w' ! i = needComma w ! i)"

definition emits :: "nat \<Rightarrow> (JsonWriter option \<Rightarrow> bool \<times> JsonWriter option) \<Rightarrow> u8 list \<Rightarrow> bool" where
  "emits h g t \<longleftrightarrow> (\<forall>w. wfine w \<longrightarrow> wdepth w + int h \<le> int JSON_MAX_DEPTH \<longrightarrow>
     wused w + length (commaOf w @ t) < wcap w \<longrightarrow>
     (\<exists>w'. g (Some w) = (True, Some w') \<and> added (commaOf w @ t) w w' \<and> outer_flags w w' \<and>
       (0 < wdepth w \<longrightarrow> needComma w' ! nat (wdepth w - 1))))"

lemma added_refl: "wfine w \<Longrightarrow> added [] w w"
  by (simp add: added_def)

lemma added_flags: "added t w w' \<Longrightarrow> length bs = JSON_MAX_DEPTH \<Longrightarrow> added t w (w'\<lparr>needComma := bs\<rparr>)"
  by (auto simp: added_def wfine_def wtext_def)

lemma nat_depth: "wfine w \<Longrightarrow> 0 < wdepth w \<Longrightarrow> nat (wdepth w - 1) < length (needComma w)"
  by (auto simp: wfine_def JSON_MAX_DEPTH_def)

lemma valueOpen:
  assumes "wfine w" "wused w + length (commaOf w) < wcap w"
  obtains w' where "writerValueOpen w = (True, w')" "added (commaOf w) w w'" "outer_flags w w'"
proof (cases "0 < wdepth w \<and> needComma w ! nat (wdepth w - 1)")
  case True
  then have c: "commaOf w = [ch_comma]" by (simp add: commaOf_def sep_def)
  obtain w1 where 1: "writerPut ch_comma w = (True, w1)" "added [ch_comma] w w1" "needComma w1 = needComma w"
    by (rule putsE [OF puts_put assms(1)]) (use assms(2) c in auto)
  let ?w = "w1\<lparr>needComma := (needComma w1)[nat (wdepth w - 1) := False]\<rparr>"
  have "writerValueOpen w = (True, ?w)"
    using True 1 assms(1) by (auto simp: writerValueOpen_def wfine_def Let_def)
  moreover have "added (commaOf w) w ?w" using added_flags [OF 1(2)] 1 assms(1) c by (simp add: wfine_def)
  moreover have "outer_flags w ?w" using 1(3) by (auto simp: outer_flags_def nth_list_update)
  ultimately show ?thesis by (rule that)
next
  case False
  then have "commaOf w = []" "writerValueOpen w = (True, w)"
    using assms(1) by (auto simp: commaOf_def sep_def writerValueOpen_def wfine_def)
  then show ?thesis using that added_refl [OF assms(1)] by (simp add: outer_flags_def)
qed

lemma valueClose:
  assumes "wfine w"
  obtains w' where "writerValueClose w = (True, w')" "added [] w w'" "outer_flags w w'"
    "0 < wdepth w \<longrightarrow> needComma w' ! nat (wdepth w - 1)"
proof (cases "wdepth w = 0")
  case True
  then show ?thesis
    using that [of w] assms added_refl by (simp add: writerValueClose_def wfine_def outer_flags_def)
next
  case False
  then have d: "0 < wdepth w" using assms by (simp add: wfine_def)
  let ?w = "w\<lparr>needComma := (needComma w)[nat (wdepth w - 1) := True]\<rparr>"
  have "writerValueClose w = (True, ?w)" using False assms by (simp add: writerValueClose_def wfine_def Let_def)
  moreover have "added [] w ?w" using added_flags [OF added_refl [OF assms]] assms by (simp add: wfine_def)
  moreover have "outer_flags w ?w" by (auto simp: outer_flags_def nth_list_update)
  ultimately show ?thesis using that nat_depth [OF assms d] by simp
qed

lemma addedD:
  assumes "added t w w'"
  shows "wfine w'" "wused w' = wused w + length t" "wcap w' = wcap w" "wdepth w' = wdepth w"
  using assms by (auto simp: added_def)

lemma outer_trans: "outer_flags a b \<Longrightarrow> outer_flags b c \<Longrightarrow> wdepth b = wdepth a \<Longrightarrow> outer_flags a c"
  by (simp add: outer_flags_def)

lemma emits_value:
  assumes "puts f t"
  shows "emits 0 (onWriter (valueWith f)) t"
  unfolding emits_def
proof (intro allI impI)
  fix w assume w: "wfine w" "wused w + length (commaOf w @ t) < wcap w"
  obtain w1 where 1: "writerValueOpen w = (True, w1)" "added (commaOf w) w w1" "outer_flags w w1"
    by (rule valueOpen [OF w(1)]) (use w(2) in auto)
  note a1 = addedD [OF 1(2)]
  obtain w2 where 2: "f w1 = (True, w2)" "added t w1 w2" "needComma w2 = needComma w1"
    by (rule putsE [OF assms a1(1)]) (use w(2) a1 in auto)
  note a2 = addedD [OF 2(2)]
  obtain w3 where 3: "writerValueClose w2 = (True, w3)" "added [] w2 w3" "outer_flags w2 w3"
    "0 < wdepth w2 \<longrightarrow> needComma w3 ! nat (wdepth w2 - 1)"
    by (rule valueClose [OF a2(1)])
  have "added (commaOf w @ t) w w3" using added_trans [OF 1(2) added_trans [OF 2(2) 3(2)]] by simp
  moreover have "outer_flags w w3" using 1(3) 2(3) 3(3) a1 a2 by (simp add: outer_flags_def)
  ultimately show "\<exists>w'. onWriter (valueWith f) (Some w) = (True, Some w') \<and> added (commaOf w @ t) w w' \<and> outer_flags w w' \<and>
       (0 < wdepth w \<longrightarrow> needComma w' ! nat (wdepth w - 1))"
    using 1(1) 2(1) 3(1,4) a1(4) a2(4) by (simp add: onWriter_def valueWith_def)
qed

text \<open>A container: an opening bracket one level down, its contents, and the closing bracket.\<close>

lemma beginWith_enters:
  assumes "wfine w" "wdepth w < int JSON_MAX_DEPTH" "wused w + length (commaOf w @ [c]) < wcap w"
  obtains w' where "beginWith c w = (True, w')" "wfine w'" "wtext w' = wtext w @ commaOf w @ [c]"
    "wused w' = wused w + length (commaOf w @ [c])" "wcap w' = wcap w" "wdepth w' = wdepth w + 1"
    "\<forall>i \<ge> wcap w. the (wout w') i = the (wout w) i" "outer_flags w w'" "commaOf w' = []"
proof -
  obtain w1 where 1: "writerValueOpen w = (True, w1)" "added (commaOf w) w w1" "outer_flags w w1"
    by (rule valueOpen [OF assms(1)]) (use assms(3) in auto)
  note a1 = addedD [OF 1(2)]
  obtain w2 where 2: "writerPut c w1 = (True, w2)" "added [c] w1 w2" "needComma w2 = needComma w1"
    by (rule putsE [OF puts_put a1(1)]) (use assms(3) a1 in auto)
  note a2 = addedD [OF 2(2)]
  note a = added_trans [OF 1(2) 2(2)]
  let ?w = "w2\<lparr>needComma := (needComma w2)[nat (wdepth w2) := False], wdepth := wdepth w2 + 1\<rparr>"
  have "beginWith c w = (True, ?w)" using 1(1) 2(1) assms(1,2) a1 a2 by (simp add: beginWith_def wfine_def)
  moreover have "wfine ?w" using a2(1,4) a1(4) assms(2) by (simp add: wfine_def)
  moreover have "outer_flags w ?w" using 1(3) 2(3) a1 a2 assms(1) by (auto simp: outer_flags_def wfine_def nth_list_update)
  moreover have "nat (wdepth w) < JSON_MAX_DEPTH" using assms(1,2) by (auto simp: wfine_def)
  then have "commaOf ?w = []" using a2(1,4) a1(4) assms(1,2) by (simp add: commaOf_def sep_def wfine_def)
  ultimately show ?thesis using a a1 a2 that by (simp add: added_def wtext_def)
qed

text \<open>The contents of a container: a state inside it, from which a part of the text is written.\<close>

definition fills :: "nat \<Rightarrow> (JsonWriter option \<Rightarrow> bool \<times> JsonWriter option) \<Rightarrow> (bool \<Rightarrow> u8 list) \<Rightarrow> bool" where
  "fills h g t \<longleftrightarrow> (\<forall>w. wfine w \<longrightarrow> 0 < wdepth w \<longrightarrow> wdepth w + int h \<le> int JSON_MAX_DEPTH \<longrightarrow>
     wused w + length (t (commaOf w \<noteq> [])) < wcap w \<longrightarrow>
     (\<exists>w'. g (Some w) = (True, Some w') \<and> added (t (commaOf w \<noteq> [])) w w' \<and> outer_flags w w'))"

lemma sep_comma: "sep (commaOf w \<noteq> []) = commaOf w"
  by (simp add: commaOf_def sep_def)

lemma fills_nil: "fills h (Pair True) (\<lambda>b. [])"
  by (auto simp: fills_def outer_flags_def intro: added_refl)

lemma commaOf_set: "0 < wdepth w \<Longrightarrow> needComma w ! nat (wdepth w - 1) \<Longrightarrow> commaOf w \<noteq> []"
  by (simp add: commaOf_def sep_def)

lemma fills_cons:
  assumes "emits h1 f s" "fills h2 g t"
  shows "fills (max h1 h2) (\<lambda>w. thenCall (f w) g) (\<lambda>b. sep b @ s @ t True)"
  unfolding fills_def
proof (intro allI impI)
  fix w
  assume w: "wfine w" "0 < wdepth w" "wdepth w + int (max h1 h2) \<le> int JSON_MAX_DEPTH"
    "wused w + length (sep (commaOf w \<noteq> []) @ s @ t True) < wcap w"
  have h: "wdepth w + int h1 \<le> int JSON_MAX_DEPTH" "wdepth w + int h2 \<le> int JSON_MAX_DEPTH" using w(3) by linarith+
  with w obtain w1 where 1: "f (Some w) = (True, Some w1)" "added (commaOf w @ s) w w1" "outer_flags w w1"
    "needComma w1 ! nat (wdepth w - 1)"
    using assms(1)[unfolded emits_def, rule_format, of w] by (auto simp: sep_comma)
  note a1 = addedD [OF 1(2)]
  have c: "commaOf w1 \<noteq> []" using 1(4) a1(4) w(2) by (simp add: commaOf_set)
  then obtain w2 where 2: "g (Some w1) = (True, Some w2)" "added (t True) w1 w2" "outer_flags w1 w2"
    using assms(2)[unfolded fills_def, rule_format, of w1] a1 w h by (auto simp: sep_comma)
  have "added (sep (commaOf w \<noteq> []) @ s @ t True) w w2"
    using added_trans [OF 1(2) 2(2)] by (simp add: sep_comma)
  then show "\<exists>w'. thenCall (f (Some w)) g = (True, Some w') \<and>
      added (sep (commaOf w \<noteq> []) @ s @ t True) w w' \<and> outer_flags w w'"
    using 1 2 outer_trans [OF 1(3) 2(3) a1(4)] by auto
qed

lemma emits_container:
  assumes "fills h g t"
  shows "emits (Suc h) (\<lambda>w. thenCall (thenCall (onWriter (beginWith a) w) g) (onWriter (endWith z))) (a # t False @ [z])"
  unfolding emits_def
proof (intro allI impI)
  fix w
  assume w: "wfine w" "wdepth w + int (Suc h) \<le> int JSON_MAX_DEPTH"
    "wused w + length (commaOf w @ a # t False @ [z]) < wcap w"
  obtain w1 where 1: "beginWith a w = (True, w1)" "wfine w1" "wtext w1 = wtext w @ commaOf w @ [a]"
    "wused w1 = wused w + length (commaOf w @ [a])" "wcap w1 = wcap w" "wdepth w1 = wdepth w + 1"
    "\<forall>i \<ge> wcap w. the (wout w1) i = the (wout w) i" "outer_flags w w1" "commaOf w1 = []"
    by (rule beginWith_enters [OF w(1), of a]) (use w(2,3) in auto)
  have d: "0 < wdepth w1" using 1(6) w(1) by (simp add: wfine_def)
  obtain w2 where 2: "g (Some w1) = (True, Some w2)" "added (t False) w1 w2" "outer_flags w1 w2"
    using assms[unfolded fills_def, rule_format, of w1] 1 d w by auto
  note a2 = addedD [OF 2(2)]
  obtain w3 where 3: "writerPut z w2 = (True, w3)" "added [z] w2 w3" "needComma w3 = needComma w2"
    by (rule putsE [OF puts_put a2(1)]) (use 1 w a2 in auto)
  note a3 = addedD [OF 3(2)]
  let ?w = "w3\<lparr>wdepth := wdepth w3 - 1\<rparr>"
  have dw: "wdepth ?w = wdepth w" using a3 a2 1(6) by simp
  have fine: "wfine ?w" using a3(1,4) a2(4) 1(6) w(1) by (simp add: wfine_def)
  obtain w4 where 4: "writerValueClose ?w = (True, w4)" "added [] ?w w4" "outer_flags ?w w4"
    "0 < wdepth ?w \<longrightarrow> needComma w4 ! nat (wdepth ?w - 1)"
    by (rule valueClose [OF fine])
  have "endWith z w2 = (True, w4)"
    using 3(1) 4(1) a2(1,4) d by (simp add: endWith_def wfine_def)
  moreover have "wtext ?w = wtext w3" by (simp add: wtext_def)
  then have "added (commaOf w @ a # t False @ [z]) w w4"
    using 2(2) 3(2) 4(2) 1(3-7,9) dw by (simp add: added_def)
  moreover have "outer_flags w w4"
    using 1(6,8) 2(3) 3(3) 4(3) a2(4) a3(4) by (simp add: outer_flags_def)
  ultimately show "\<exists>w'. thenCall (thenCall (onWriter (beginWith a) (Some w)) g) (onWriter (endWith z)) = (True, Some w') \<and>
      added (commaOf w @ a # t False @ [z]) w w' \<and> outer_flags w w' \<and>
      (0 < wdepth w \<longrightarrow> needComma w' ! nat (wdepth w - 1))"
    using 1(1) 2(1) 4(4) dw by (simp add: onWriter_def)
qed

text \<open>A key: it takes the comma, so the value behind it takes none.\<close>

lemma addKey_enters:
  assumes "wfine w" "0 < wdepth w" "0 \<notin> set k" "wused w + length (commaOf w @ quotedText k @ [ch_colon]) < wcap w"
  obtains w' where "Json_addKey (Some k) (Some w) = (True, Some w')" "added (commaOf w @ quotedText k @ [ch_colon]) w w'"
    "outer_flags w w'" "commaOf w' = []"
proof -
  let ?i = "nat (wdepth w - 1)"
  define f where "f = (\<lambda>w'. thenCall (thenCall (thenCall (if needComma w ! ?i then writerPut ch_comma w' else (True, w'))
      (writerPut ch_quote)) (writerStringBody k)) (writerAppend [ch_quote, ch_colon]))"
  have c: "commaOf w = sep (needComma w ! ?i)" using assms(2) by (simp add: commaOf_def)
  have "puts (\<lambda>w'. if needComma w ! ?i then writerPut ch_comma w' else (True, w')) (commaOf w)"
    using puts_put [of ch_comma] puts_nothing by (simp add: c sep_def)
  then have "puts f (commaOf w @ quotedText k @ [ch_colon])"
    using puts_andThen [OF puts_andThen [OF puts_andThen [OF _ puts_put] puts_string [OF assms(3)]] puts_append [of "[ch_quote, ch_colon]"],
        of _ "commaOf w" ch_quote]
    by (simp add: f_def quotedText_def)
  then obtain w1 where 1: "f w = (True, w1)" "added (commaOf w @ quotedText k @ [ch_colon]) w w1" "needComma w1 = needComma w"
    using assms(1,4) by (rule putsE)
  let ?w = "w1\<lparr>needComma := (needComma w1)[?i := False]\<rparr>"
  have "Json_addKey (Some k) (Some w) = (True, Some ?w)"
    using 1(1) assms(1,2) by (simp add: Json_addKey_def onWriter_def withText_def wfine_def Let_def f_def)
  moreover have "added (commaOf w @ quotedText k @ [ch_colon]) w ?w"
    using added_flags [OF 1(2)] 1(3) assms(1) by (simp add: wfine_def)
  moreover have "outer_flags w ?w" using 1(3) by (auto simp: outer_flags_def nth_list_update)
  moreover have "commaOf ?w = []"
    using addedD(4) [OF 1(2)] 1(3) nat_depth [OF assms(1,2)] by (simp add: commaOf_def sep_def)
  ultimately show ?thesis by (rule that)
qed

lemma fills_member:
  assumes "0 \<notin> set k" "emits h1 f s" "fills h2 g t"
  shows "fills (max h1 h2) (\<lambda>w. thenCall (thenCall (Json_addKey (Some k) w) f) g) (\<lambda>b. sep b @ quotedText k @ ch_colon # s @ t True)"
  unfolding fills_def
proof (intro allI impI)
  fix w
  assume w: "wfine w" "0 < wdepth w" "wdepth w + int (max h1 h2) \<le> int JSON_MAX_DEPTH"
    "wused w + length (sep (commaOf w \<noteq> []) @ quotedText k @ ch_colon # s @ t True) < wcap w"
  obtain w0 where 0: "Json_addKey (Some k) (Some w) = (True, Some w0)" "added (commaOf w @ quotedText k @ [ch_colon]) w w0"
    "outer_flags w w0" "commaOf w0 = []"
    by (rule addKey_enters [OF w(1,2) assms(1)]) (use w(4) sep_comma [of w] in auto)
  note a0 = addedD [OF 0(2)]
  have d0: "0 < wdepth w0" using a0(4) w(2) by simp
  have room: "wused w0 + length (sep (commaOf w0 \<noteq> []) @ s @ t True) < wcap w0"
    using a0(2,3) 0(4) w(4) sep_comma [of w] by (simp add: sep_def)
  have "wdepth w0 + int (max h1 h2) \<le> int JSON_MAX_DEPTH" using w(3) a0(4) by simp
  then obtain w2 where 2: "thenCall (f (Some w0)) g = (True, Some w2)"
    "added (sep (commaOf w0 \<noteq> []) @ s @ t True) w0 w2" "outer_flags w0 w2"
    using fills_cons [OF assms(2,3), unfolded fills_def, rule_format, OF a0(1) d0 _ room] by blast
  have "thenCall (thenCall (Json_addKey (Some k) (Some w)) f) g = (True, Some w2)" using 0(1) 2(1) by simp
  moreover have "added (sep (commaOf w \<noteq> []) @ quotedText k @ ch_colon # s @ t True) w w2"
    using added_trans [OF 0(2) 2(2)] 0(4) by (simp add: sep_comma) (simp add: sep_def)
  ultimately show "\<exists>w'. thenCall (thenCall (Json_addKey (Some k) (Some w)) f) g = (True, Some w') \<and>
      added (sep (commaOf w \<noteq> []) @ quotedText k @ ch_colon # s @ t True) w w' \<and> outer_flags w w'"
    using outer_trans [OF 0(3) 2(3) a0(4)] by blast
qed

section \<open>The builder writes the text\<close>

text \<open>Numbers whose text the builder accepts.\<close>

definition number_ok :: "('f \<Rightarrow> u8 list option) \<Rightarrow> 'f \<Rightarrow> bool" where
  "number_ok text x \<longleftrightarrow> (\<exists>t. text x = Some t \<and> t \<noteq> [] \<and> length t < 32)"

lemma emits_number:
  "number_ok (numberText whole lld g17) x \<Longrightarrow>
   emits 0 (Json_numberVal whole lld g17 x) (the (numberText whole lld g17 x))"
proof -
  assume "number_ok (numberText whole lld g17) x"
  then obtain t where t: "numberText whole lld g17 x = Some t" "t \<noteq> []" "length t < 32" by (auto simp: number_ok_def)
  then show ?thesis unfolding Json_numberVal_def by (intro emits_value) (simp add: puts_append)
qed

lemma emits_string: "0 \<notin> set s \<Longrightarrow> emits 0 (Json_stringVal (Some s)) (quotedText s)"
  unfolding Json_stringVal_def using emits_value [OF puts_quoted] by (simp add: withText_def onWriter_def emits_def)

theorem build_render:
  fixes whole lld g17
  defines "text \<equiv> numberText whole lld g17"
  shows "writable (number_ok text) v \<Longrightarrow> emits (height v) (build (Json_numberVal whole lld g17) v) (render (the \<circ> text) v)"
    and "writableList (number_ok text) vs \<Longrightarrow> fills (heightList vs) (buildList (Json_numberVal whole lld g17) vs) (\<lambda>b. renderList (the \<circ> text) b vs)"
    and "writableMembers (number_ok text) ms \<Longrightarrow> fills (heightMembers ms) (buildMembers (Json_numberVal whole lld g17) ms) (\<lambda>b. renderMembers (the \<circ> text) b ms)"
proof (induction v and vs and ms rule: height_heightList_heightMembers.induct)
  case (1 vs)
  then show ?case using emits_container [of "heightList vs" _ _ ch_lbracket ch_rbracket]
    by (simp add: Json_beginArray_def Json_endArray_def emits_def)
next
  case (2 ms)
  then show ?case using emits_container [of "heightMembers ms" _ _ ch_lbrace ch_rbrace]
    by (simp add: Json_beginObject_def Json_endObject_def emits_def)
next
  case "3_1"
  show ?case using emits_value [OF puts_append [of txt_null]] by (simp add: Json_nullVal_def emits_def)
next
  case "3_2"
  show ?case using emits_value [OF puts_append [of "if _ then txt_true else txt_false"]] by (simp add: Json_boolVal_def emits_def)
next
  case "3_3"
  then show ?case using emits_number [of whole lld g17] by (simp add: text_def emits_def)
next
  case "3_4"
  then show ?case using emits_string by (simp add: emits_def)
next
  case 4
  show ?case using fills_nil [of 0] by (simp add: fills_def)
next
  case (5 v vs)
  then show ?case using fills_cons [of "height v" "build _ v" "render _ v" "heightList vs"] by (simp add: fills_def)
next
  case 6
  show ?case using fills_nil [of 0] by (simp add: fills_def)
next
  case (7 k v ms)
  then show ?case using fills_member [of k "height v" "build _ v" "render _ v" "heightMembers ms"] by (simp add: fills_def)
qed

end
