(* ===== verification/Json_Read.thy ===== *)
theory Json_Read
  imports Json_Pool Json_Render
begin

text \<open>
  The reader on the text of a tree: with room in the pool and in the scratch area, and levels left, the
  nodes it leaves hold that tree, and the navigation functions read it.
\<close>

section \<open>A document that holds a tree\<close>

definition view_ok :: "'f JsonDoc \<Rightarrow> 'f JsonNode \<Rightarrow> u8 list \<Rightarrow> bool" where
  "view_ok d n s \<longleftrightarrow> viewOf d n = s \<and> (inScratch n \<longrightarrow> offset n + jlength n \<le> scratchUsed d)"

definition in_use :: "'f JsonDoc \<Rightarrow> nat \<Rightarrow> JsonRef \<Rightarrow> bool" where
  "in_use d lo r \<longleftrightarrow> int lo \<le> r \<and> r < int (nodeCount d)"

text \<open>The tree at a reference, all of its nodes at or above \<open>lo\<close>.\<close>

fun holds :: "'f JsonDoc \<Rightarrow> nat \<Rightarrow> JsonRef \<Rightarrow> 'f jval \<Rightarrow> bool"
  and holdsList :: "'f JsonDoc \<Rightarrow> nat \<Rightarrow> JsonRef \<Rightarrow> 'f jval list \<Rightarrow> bool"
  and holdsMembers :: "'f JsonDoc \<Rightarrow> nat \<Rightarrow> JsonRef \<Rightarrow> (u8 list \<times> 'f jval) list \<Rightarrow> bool"
where
  "holds d lo r JNull = (in_use d lo r \<and> jtype (nodeAt d r) = JSON_NULL)"
| "holds d lo r (JBool b) = (in_use d lo r \<and> jtype (nodeAt d r) = (if b then JSON_TRUE else JSON_FALSE))"
| "holds d lo r (JNum x) = (in_use d lo r \<and> jtype (nodeAt d r) = JSON_NUMBER \<and> number (nodeAt d r) = x)"
| "holds d lo r (JStr s) = (in_use d lo r \<and> jtype (nodeAt d r) = JSON_STRING \<and> view_ok d (nodeAt d r) s)"
| "holds d lo r (JArr vs) = (in_use d lo r \<and> jtype (nodeAt d r) = JSON_ARRAY \<and> holdsList d lo (child (nodeAt d r)) vs)"
| "holds d lo r (JObj ms) = (in_use d lo r \<and> jtype (nodeAt d r) = JSON_OBJECT \<and> holdsMembers d lo (child (nodeAt d r)) ms)"
| "holdsList d lo e [] = (e < 0)"
| "holdsList d lo e (v # vs) =
     (in_use d lo e \<and> holds d lo (child (nodeAt d e)) v \<and> holdsList d lo (sibling (nodeAt d e)) vs)"
| "holdsMembers d lo e [] = (e < 0)"
| "holdsMembers d lo e ((k, v) # ms) =
     (in_use d lo e \<and> view_ok d (nodeAt d e) k \<and> holds d lo (child (nodeAt d e)) v \<and>
      holdsMembers d lo (sibling (nodeAt d e)) ms)"

text \<open>A later document that has the same nodes from \<open>lo\<close> on.\<close>

definition stable :: "'f JsonDoc \<Rightarrow> 'f JsonDoc \<Rightarrow> nat \<Rightarrow> bool" where
  "stable d d' lo \<longleftrightarrow> src d' = src d \<and> nodeCount d \<le> nodeCount d' \<and> scratchUsed d \<le> scratchUsed d' \<and>
    (\<forall>i. lo \<le> i \<longrightarrow> i < nodeCount d \<longrightarrow> nodes d' ! i = nodes d ! i) \<and>
    (\<forall>i < scratchUsed d. scratch d' i = scratch d i)"

lemma viewOf_stable: "stable d d' lo \<Longrightarrow> view_ok d n s \<Longrightarrow> view_ok d' n s"
  by (auto simp: stable_def view_ok_def viewOf_def)

lemma nodeAt_stable: "stable d d' lo \<Longrightarrow> in_use d lo r \<Longrightarrow> nodeAt d' r = nodeAt d r \<and> in_use d' lo r"
  by (auto simp: stable_def in_use_def nodeAt_def)

lemma holds_stable:
  assumes "stable d d' lo"
  shows "holds d lo r v \<Longrightarrow> holds d' lo r v"
    and "holdsList d lo e vs \<Longrightarrow> holdsList d' lo e vs"
    and "holdsMembers d lo e ms \<Longrightarrow> holdsMembers d' lo e ms"
  using assms
  by (induction d lo r v and d lo e vs and d lo e ms rule: holds_holdsList_holdsMembers.induct)
    (auto simp: nodeAt_stable viewOf_stable)

lemma in_use_lower: "in_use d lo r \<Longrightarrow> lo' \<le> lo \<Longrightarrow> in_use d lo' r"
  by (simp add: in_use_def)

lemma holds_lower:
  assumes "lo' \<le> lo"
  shows "holds d lo r v \<Longrightarrow> holds d lo' r v"
    and "holdsList d lo e vs \<Longrightarrow> holdsList d lo' e vs"
    and "holdsMembers d lo e ms \<Longrightarrow> holdsMembers d lo' e ms"
  using assms
  by (induction d lo r v and d lo e vs and d lo e ms rule: holds_holdsList_holdsMembers.induct)
    (auto intro: in_use_lower)

section \<open>Strings\<close>

lemma charAt_add: "charAt tx (p + i) = charAt (drop p tx) i"
  by (auto simp: charAt_def)

lemma charAt_0: "charAt tx p = charAt (drop p tx) 0"
  using charAt_add [of tx p 0] by simp

lemma charAt_hd: "drop p tx = c # rest \<Longrightarrow> charAt tx p = c"
proof -
  assume "drop p tx = c # rest"
  moreover have "charAt (c # rest) 0 = c" by (simp add: charAt_def)
  ultimately show ?thesis using charAt_0 [of tx p] by simp
qed

lemma chars_of: "drop p tx = s @ rest \<Longrightarrow> map (\<lambda>i. charAt tx (p + i)) [0..<length s] = s"
proof (rule nth_equalityI)
  assume d: "drop p tx = s @ rest"
  show "map (\<lambda>i. charAt tx (p + i)) [0..<length s] ! i = s ! i"
    if "i < length (map (\<lambda>i. charAt tx (p + i)) [0..<length s])" for i
  proof -
    have "charAt tx (p + i) = charAt (s @ rest) i" using charAt_add [of tx p i] d by simp
    also have "\<dots> = s ! i" using that by (simp add: charAt_def nth_append)
    finally show ?thesis using that by simp
  qed
qed simp

lemma drop_next: "drop p tx = c # rest \<Longrightarrow> drop (p + 1) tx = rest" "drop p tx = c # rest \<Longrightarrow> drop (Suc p) tx = rest"
  by (metis Suc_eq_plus1 drop_Suc tl_drop list.sel(3))+

lemma drop_past: "drop p tx = s @ rest \<Longrightarrow> drop (p + length s) tx = rest"
  by (metis add.commute append_eq_conv_conj drop_drop)

lemma quoteFrom_stops:
  assumes "drop p tx = s @ c # rest" "\<forall>x \<in> set s. x \<noteq> 0 \<and> x \<noteq> ch_quote \<and> x \<noteq> ch_backslash"
    "c = ch_quote \<or> c = ch_backslash"
  shows "quoteFrom tx p = p + length s"
  using assms
proof (induction s arbitrary: p)
  case Nil
  then have "charAt tx p = c" by (auto intro: charAt_hd)
  then show ?case using Nil.prems(3) by (subst quoteFrom.simps) auto
next
  case (Cons x s)
  then have "charAt tx p = x" "drop (p + 1) tx = s @ c # rest" by (auto intro: charAt_hd drop_next)
  then show ?case using Cons by (subst quoteFrom.simps) simp
qed

lemma escapeOf_cases:
  "escapeOf c = Some e \<Longrightarrow> e \<noteq> ch_u \<and> escapeChar e = Some c"
  "escapeOf c = None \<Longrightarrow> c \<noteq> ch_quote \<and> c \<noteq> ch_backslash"
  by (auto simp: escapeOf_def escapeChar_def split: if_splits)

lemma escape_Cons: "escape (c # s) = (case escapeOf c of Some e \<Rightarrow> [ch_backslash, e] | None \<Rightarrow> [c]) @ escape s"
  by (simp add: escape_def)

lemma scratchPut_Cons: "scratchPut (i + 1) s (scratchPut i [c] mem) = scratchPut i (c # s) mem"
  by (auto simp: scratchPut_def fun_eq_iff nth_Cons')

lemma copyLoop_decodes:
  assumes "drop p tx = escape s @ ch_quote # rest" "0 \<notin> set s" "out + length s \<le> capLeft"
  shows "copyLoop tx used capLeft p out mem = (Some (out + length s), p + length (escape s), scratchPut (used + out) s mem)"
  using assms
proof (induction s arbitrary: p out mem)
  case Nil
  then have "charAt tx p = ch_quote" by (auto simp: escape_def intro: charAt_hd)
  then show ?case by (auto simp: copyLoop.simps [of tx used capLeft p] escape_def scratchPut_def fun_eq_iff)
next
  case (Cons c s)
  show ?case
  proof (cases "escapeOf c")
    case None
    then have "charAt tx p = c" "drop (p + 1) tx = escape s @ ch_quote # rest"
      using Cons.prems(1) by (auto simp: escape_Cons intro: charAt_hd drop_next)
    then show ?thesis
      using Cons.IH [of "p + 1" "out + 1" "scratchPut (used + out) [c] mem"] Cons.prems escapeOf_cases(2) [OF None]
        scratchPut_Cons [of "used + out" s c mem]
      by (auto simp: copyLoop.simps [of tx used capLeft p] Let_def escape_Cons None)
  next
    case (Some e)
    then have t: "drop p tx = ch_backslash # e # escape s @ ch_quote # rest"
      using Cons.prems(1) by (simp add: escape_Cons)
    then have "charAt tx p = ch_backslash" "drop (p + 1) tx = e # escape s @ ch_quote # rest"
      by (auto intro: charAt_hd drop_next)
    moreover from this(2) have "charAt tx (p + 1) = e" "drop (p + 2) tx = escape s @ ch_quote # rest"
      using charAt_hd drop_next(2) [of "p + 1" tx] by auto
    ultimately show ?thesis
      using Cons.IH [of "p + 2" "out + 1" "scratchPut (used + out) [c] mem"] Cons.prems escapeOf_cases(1) [OF Some]
        scratchPut_Cons [of "used + out" s c mem]
      by (auto simp: copyLoop.simps [of tx used capLeft p] Let_def escape_Cons Some)
  qed
qed

text \<open>The scratch space of a string: none when it has no escapes.\<close>

definition needs :: "u8 list \<Rightarrow> nat" where
  "needs s = (if \<exists>c \<in> set s. escapeOf c \<noteq> None then length s + 1 else 0)"

lemma escape_plain: "\<forall>c \<in> set s. escapeOf c = None \<Longrightarrow> escape s = s"
  by (induction s) (auto simp: escape_def)

text \<open>Everything but the nodes, after a part of the text was read.\<close>

definition read_core :: "'f Parser \<Rightarrow> 'f Parser \<Rightarrow> nat \<Rightarrow> nat \<Rightarrow> nat \<Rightarrow> bool" where
  "read_core ps ps' n k len \<longleftrightarrow> src (doc ps') = src (doc ps) \<and> nodeCap (doc ps') = nodeCap (doc ps) \<and>
    scratchCap (doc ps') = scratchCap (doc ps) \<and> ok (doc ps') = ok (doc ps) \<and>
    length (nodes (doc ps')) = length (nodes (doc ps)) \<and> nodeCount (doc ps') = nodeCount (doc ps) + n \<and>
    scratchUsed (doc ps') = scratchUsed (doc ps) + k \<and> pos ps' = pos ps + len \<and>
    (\<forall>i < scratchUsed (doc ps). scratch (doc ps') i = scratch (doc ps) i)"

definition room :: "'f Parser \<Rightarrow> nat \<Rightarrow> nat \<Rightarrow> bool" where
  "room ps n k \<longleftrightarrow> length (nodes (doc ps)) = nodeCap (doc ps) \<and> nodeCount (doc ps) + n \<le> nodeCap (doc ps) \<and>
    nodeCap (doc ps) < 2 ^ 31 \<and> scratchUsed (doc ps) + k \<le> scratchCap (doc ps) \<and>
    scratchCap (doc ps) < 2 ^ 32 \<and> length (src (doc ps)) < 2 ^ 32"

lemma read_core_trans: "read_core a b n k len \<Longrightarrow> read_core b c n' k' len' \<Longrightarrow> read_core a c (n + n') (k + k') (len + len')"
  by (auto simp: read_core_def)

lemma read_core_room: "read_core a b n k len \<Longrightarrow> room a (n + n') (k + k') \<Longrightarrow> room b n' k'"
  by (auto simp: read_core_def room_def)

lemma room_less: "room ps n k \<Longrightarrow> n' \<le> n \<Longrightarrow> k' \<le> k \<Longrightarrow> room ps n' k'"
  by (auto simp: room_def)

lemma string_reads:
  assumes "drop (pos ps) (src (doc ps)) = escape s @ ch_quote # rest" "0 \<notin> set s" "room ps 0 (needs s)"
  obtains off len scr ps' where "parseStringBody ps = (Some (off, len, scr), ps')"
    "read_core ps ps' 0 (needs s) (length (escape s) + 1)" "nodes (doc ps') = nodes (doc ps)"
    "\<And>n. view_ok (doc ps') (n\<lparr>offset := off, jlength := len, inScratch := scr\<rparr>) s"
proof (cases "\<forall>c \<in> set s. escapeOf c = None")
  case True
  note p = escape_plain [OF True]
  have "quoteFrom (src (doc ps)) (pos ps) = pos ps + length s"
    using assms(1,2) True escapeOf_cases(2) by (intro quoteFrom_stops [of _ _ s ch_quote rest]) (auto simp: p)
  moreover have "charAt (src (doc ps)) (pos ps + length s) = ch_quote"
    using drop_past [OF assms(1)] charAt_hd by (auto simp: p)
  moreover have "pos ps + length s < length (src (doc ps))"
    using calculation(2) charAt_nonzero [of "src (doc ps)" "pos ps + length s"] by simp
  ultimately have "parseStringBody ps = (Some (pos ps, length s, False), ps\<lparr>pos := pos ps + length s + 1\<rparr>)"
    using assms(3) by (simp add: parseStringBody_def room_def Let_def)
  moreover have "map (\<lambda>i. charAt (src (doc ps)) (pos ps + i)) [0..<length s] = s"
    using chars_of [OF assms(1)] by (simp add: p)
  ultimately show ?thesis
    using that True by (auto simp: read_core_def needs_def p view_ok_def viewOf_def)
next
  case False
  then obtain s1 c s2 where s: "s = s1 @ c # s2" "escapeOf c \<noteq> None" "\<forall>c \<in> set s1. escapeOf c = None"
    using split_list_first_prop [of s "\<lambda>c. escapeOf c \<noteq> None"] by auto
  then obtain e where e: "escapeOf c = Some e" by auto
  have esc: "escape s = s1 @ ch_backslash # e # escape s2"
    using escape_plain [OF s(3)] by (simp add: s(1) escape_def e)
  let ?p = "pos ps" and ?d = "doc ps"
  have q: "quoteFrom (src ?d) ?p = ?p + length s1"
  proof (rule quoteFrom_stops [of _ _ s1 ch_backslash "e # escape s2 @ ch_quote # rest"])
    show "drop ?p (src ?d) = s1 @ ch_backslash # e # escape s2 @ ch_quote # rest" using assms(1) esc by simp
  qed (use assms(2) s escapeOf_cases(2) in auto)
  have b: "charAt (src ?d) (?p + length s1) = ch_backslash"
    using drop_past [of ?p "src ?d" s1] assms(1) charAt_hd by (auto simp: esc)
  have need: "needs s = length s + 1" using False by (auto simp: needs_def)
  have cap: "wrap32 (scratchCap ?d + 2 ^ 32 - scratchUsed ?d) = scratchCap ?d - scratchUsed ?d"
  proof -
    have "scratchCap ?d + 2 ^ 32 - scratchUsed ?d = (scratchCap ?d - scratchUsed ?d) + 4294967296"
      using assms(3) by (simp add: room_def)
    then have "wrap32 (scratchCap ?d + 2 ^ 32 - scratchUsed ?d) = wrap32 (scratchCap ?d - scratchUsed ?d)"
      by (simp only: wrap32_def mod_add_self2)
    also have "\<dots> = scratchCap ?d - scratchUsed ?d" using assms(3) by (intro wrap32_id less_imp_diff_less) (simp add: room_def)
    finally show ?thesis .
  qed
  have fit: "scratchUsed ?d + (length s + 1) \<le> scratchCap ?d" "scratchCap ?d < 4294967296"
    using assms(3) by (simp_all add: room_def need)
  then have left: "0 + length s \<le> scratchCap ?d - scratchUsed ?d" by linarith
  define mem where "mem = scratchPut (scratchUsed ?d) s (scratch ?d)"
  have loop: "copyLoop (src ?d) (scratchUsed ?d) (scratchCap ?d - scratchUsed ?d) ?p 0 (scratch ?d)
      = (Some (length s), ?p + length (escape s), mem)"
    using copyLoop_decodes [OF assms(1,2) left, of "scratchUsed ?d" "scratch ?d"] by (simp add: mem_def)
  have z: "charAt (src ?d) (?p + length (escape s)) = ch_quote"
    using drop_past [OF assms(1)] charAt_hd by auto
  define u where "u = scratchUsed ?d + length s + 1"
  have u: "wrap32 (scratchUsed ?d + wrap32 (length s + 1)) = u" "wrap32 (u + 2 ^ 32 - 1) = u - 1"
    using fit by (simp_all add: u_def wrap32_def)
  have st: "wrap32 (scratchUsed ?d) = scratchUsed ?d" "wrap32 (length s) = length s" using fit by simp_all
  define mem1 where "mem1 = (if u < scratchCap ?d then scratchPut (u - 1) [0] mem else mem)"
  have "parseStringBody ps = (Some (scratchUsed ?d, length s, True),
      ps\<lparr>doc := ?d\<lparr>scratch := mem1, scratchUsed := u\<rparr>, pos := ?p + length (escape s) + 1\<rparr>)"
    unfolding parseStringBody_def Let_def q b cap loop prod.case option.case u z st mem1_def by simp
  moreover have "map (\<lambda>i. mem1 (scratchUsed ?d + i)) [0..<length s] = s"
    by (rule nth_equalityI) (auto simp: mem1_def mem_def u_def scratchPut_def)
  moreover have "\<forall>i < scratchUsed ?d. mem1 i = scratch ?d i" by (auto simp: mem1_def mem_def u_def scratchPut_def)
  ultimately show ?thesis
    using that by (simp add: read_core_def need u_def view_ok_def viewOf_def)
qed

section \<open>Nodes\<close>

lemma allocNode_room:
  assumes "room ps (Suc n) k"
  obtains ps' where "allocNode ps = (int (nodeCount (doc ps)), ps')" "read_core ps ps' 1 0 0"
    "nodes (doc ps') = (nodes (doc ps))[nodeCount (doc ps) := clearNode]" "nodeCount (doc ps) < length (nodes (doc ps))"
  using assms by (auto simp: allocNode_def room_def read_core_def toRef_id Let_def)

text \<open>The nodes before stay, the tree is in the new ones.\<close>

definition value_read :: "'f Parser \<Rightarrow> 'f Parser \<Rightarrow> JsonRef \<Rightarrow> 'f jval \<Rightarrow> bool" where
  "value_read ps ps' r v \<longleftrightarrow> (\<forall>i < nodeCount (doc ps). nodes (doc ps') ! i = nodes (doc ps) ! i) \<and>
    holds (doc ps') (nodeCount (doc ps)) r v"

lemma leaf_reads:
  assumes "room ps (Suc n) k"
  obtains ps' where "leaf f ps = Some (Some (int (nodeCount (doc ps))), ps')" "read_core ps ps' 1 0 0"
    "\<forall>i < nodeCount (doc ps). nodes (doc ps') ! i = nodes (doc ps) ! i"
    "nodeAt (doc ps') (int (nodeCount (doc ps))) = f clearNode"
    "in_use (doc ps') (nodeCount (doc ps)) (int (nodeCount (doc ps)))"
proof -
  obtain ps1 where 1: "allocNode ps = (int (nodeCount (doc ps)), ps1)" "read_core ps ps1 1 0 0"
    "nodes (doc ps1) = (nodes (doc ps))[nodeCount (doc ps) := clearNode]" "nodeCount (doc ps) < length (nodes (doc ps))"
    by (rule allocNode_room [OF assms])
  have "leaf f ps = Some (Some (int (nodeCount (doc ps))), setNode (int (nodeCount (doc ps))) f ps1)"
    using 1(1) by (simp add: leaf_def)
  moreover have "read_core ps (setNode (int (nodeCount (doc ps))) f ps1) 1 0 0" using 1(2,3) by (simp add: read_core_def)
  ultimately show ?thesis using that 1(2-4) by (simp add: nodeAt_def in_use_def read_core_def)
qed

text \<open>The cells and the scratch space of a tree.\<close>

fun cells :: "'f jval \<Rightarrow> nat"
  and cellsList :: "'f jval list \<Rightarrow> nat"
  and cellsMembers :: "(u8 list \<times> 'f jval) list \<Rightarrow> nat"
where
  "cells (JArr vs) = Suc (cellsList vs)"
| "cells (JObj ms) = Suc (cellsMembers ms)"
| "cells v = 1"
| "cellsList [] = 0"
| "cellsList (v # vs) = Suc (cells v + cellsList vs)"
| "cellsMembers [] = 0"
| "cellsMembers ((k, v) # ms) = Suc (cells v + cellsMembers ms)"

fun space :: "'f jval \<Rightarrow> nat"
  and spaceList :: "'f jval list \<Rightarrow> nat"
  and spaceMembers :: "(u8 list \<times> 'f jval) list \<Rightarrow> nat"
where
  "space (JStr s) = needs s"
| "space (JArr vs) = spaceList vs"
| "space (JObj ms) = spaceMembers ms"
| "space v = 0"
| "spaceList [] = 0"
| "spaceList (v # vs) = space v + spaceList vs"
| "spaceMembers [] = 0"
| "spaceMembers ((k, v) # ms) = needs k + space v + spaceMembers ms"

text \<open>Numbers that are read back: their text starts as a number, and the byte behind it ends it.\<close>

definition starts :: "u8 \<Rightarrow> bool" where
  "starts c \<longleftrightarrow> c \<notin> {0, ch_space, ch_tab, ch_newline, ch_cr}"

definition ends_value :: "u8 list \<Rightarrow> bool" where
  "ends_value rest \<longleftrightarrow> (case rest of [] \<Rightarrow> True | c # _ \<Rightarrow> c = ch_comma \<or> c = ch_rbracket \<or> c = ch_rbrace)"

definition read_back :: "'f strtod \<Rightarrow> ('f \<Rightarrow> u8 list option) \<Rightarrow> 'f \<Rightarrow> bool" where
  "read_back strtod text x \<longleftrightarrow> number_ok text x \<and>
    (let t = the (text x) in
     starts (hd t) \<and> hd t \<notin> {ch_lbrace, ch_lbracket, ch_quote, ch_t, ch_f, ch_n, ch_rbracket} \<and>
     (\<forall>rest. ends_value rest \<longrightarrow> strtod (t @ rest) = (x, length t)))"

definition reads :: "('f \<Rightarrow> u8 list) \<Rightarrow> ('f::zero Parser \<Rightarrow> (JsonRef, 'f) parsed) \<Rightarrow> 'f jval \<Rightarrow> bool" where
  "reads num value v \<longleftrightarrow> (\<forall>ps rest. drop (pos ps) (src (doc ps)) = render num v @ rest \<longrightarrow> ends_value rest \<longrightarrow>
     room ps (cells v) (space v) \<longrightarrow>
     (\<exists>r ps'. value ps = Some (Some r, ps') \<and> read_core ps ps' (cells v) (space v) (length (render num v)) \<and>
        value_read ps ps' r v))"

lemma skipWs_starts:
  assumes "drop (pos ps) (src (doc ps)) = c # rest" "starts c"
  shows "skipWs ps = ps"
proof -
  have "charAt (src (doc ps)) (pos ps) = c" by (rule charAt_hd [OF assms(1)])
  then have "skipFrom (src (doc ps)) (pos ps) = pos ps" using assms(2) by (subst skipFrom.simps) (simp add: starts_def)
  then show ?thesis by (simp add: skipWs_def)
qed

lemma cur_hd: "drop (pos ps) (src (doc ps)) = c # rest \<Longrightarrow> cur ps = c"
  by (simp add: cur_def charAt_hd)

lemma read_core_skip: "read_core ps ps' n k len \<Longrightarrow> drop (pos ps) (src (doc ps)) = s @ rest \<Longrightarrow> len = length s \<Longrightarrow>
  drop (pos ps') (src (doc ps')) = rest"
  by (simp add: read_core_def drop_past)

lemma literal_reads:
  assumes "drop (pos ps) (src (doc ps)) = word @ rest" "room ps (Suc 0) k"
  obtains ps' where "literal word ty ps = Some (Some (int (nodeCount (doc ps))), ps')" "read_core ps ps' 1 0 (length word)"
    "\<forall>i < nodeCount (doc ps). nodes (doc ps') ! i = nodes (doc ps) ! i"
    "jtype (nodeAt (doc ps') (int (nodeCount (doc ps)))) = ty"
    "in_use (doc ps') (nodeCount (doc ps)) (int (nodeCount (doc ps)))"
proof -
  let ?ps = "ps\<lparr>pos := pos ps + length word\<rparr>"
  have "map (\<lambda>i. charAt (src (doc ps)) (pos ps + i)) [0..<length word] = word"
    by (rule chars_of [OF assms(1)])
  moreover have "room ?ps (Suc 0) k" using assms(2) by (simp add: room_def)
  then obtain ps' where "leaf (\<lambda>n. n\<lparr>jtype := ty\<rparr>) ?ps = Some (Some (int (nodeCount (doc ?ps))), ps')" "read_core ?ps ps' 1 0 0"
    "\<forall>i < nodeCount (doc ?ps). nodes (doc ps') ! i = nodes (doc ?ps) ! i"
    "nodeAt (doc ps') (int (nodeCount (doc ?ps))) = clearNode\<lparr>jtype := ty\<rparr>"
    "in_use (doc ps') (nodeCount (doc ?ps)) (int (nodeCount (doc ?ps)))"
    by (rule leaf_reads)
  ultimately show ?thesis using that by (simp add: literal_def read_core_def)
qed

lemma parseNumber_reads:
  assumes "drop (pos ps) (src (doc ps)) = t @ rest" "strtod (t @ rest) = (x, length t)" "t \<noteq> []" "room ps (Suc 0) k"
  obtains ps' where "parseNumber strtod ps = Some (Some (int (nodeCount (doc ps))), ps')" "read_core ps ps' 1 0 (length t)"
    "value_read ps ps' (int (nodeCount (doc ps))) (JNum x)"
proof -
  obtain ps1 where 1: "allocNode ps = (int (nodeCount (doc ps)), ps1)" "read_core ps ps1 1 0 0"
    "nodes (doc ps1) = (nodes (doc ps))[nodeCount (doc ps) := clearNode]" "nodeCount (doc ps) < length (nodes (doc ps))"
    by (rule allocNode_room [OF assms(4)])
  let ?ps = "(setNode (int (nodeCount (doc ps))) (\<lambda>n. n\<lparr>jtype := JSON_NUMBER, number := x\<rparr>) ps1)\<lparr>pos := pos ps1 + length t\<rparr>"
  have "parseNumber strtod ps = Some (Some (int (nodeCount (doc ps))), ?ps)"
    using 1(1) assms(1-3) by (simp add: parseNumber_def)
  moreover have "read_core ps ?ps 1 0 (length t)" using 1(2,3) by (simp add: read_core_def)
  moreover have "value_read ps ?ps (int (nodeCount (doc ps))) (JNum x)"
    using 1(2-4) by (simp add: value_read_def nodeAt_def in_use_def read_core_def)
  ultimately show ?thesis by (rule that)
qed

lemma parseString_reads:
  assumes "drop (pos ps) (src (doc ps)) = quotedText s @ rest" "0 \<notin> set s" "room ps (Suc 0) (needs s)"
  obtains r ps' where "parseString ps = Some (Some r, ps')" "read_core ps ps' 1 (needs s) (length (quotedText s))"
    "value_read ps ps' r (JStr s)"
proof -
  have d: "drop (pos (adv ps)) (src (doc (adv ps))) = escape s @ ch_quote # rest"
    using drop_next(1) [of "pos ps" "src (doc ps)"] assms(1) by (simp add: quotedText_def)
  obtain off len scr ps1 where 1: "parseStringBody (adv ps) = (Some (off, len, scr), ps1)"
    "read_core (adv ps) ps1 0 (needs s) (length (escape s) + 1)" "nodes (doc ps1) = nodes (doc (adv ps))"
    "\<And>n. view_ok (doc ps1) (n\<lparr>offset := off, jlength := len, inScratch := scr\<rparr>) s"
    by (rule string_reads [OF d assms(2)]) (use assms(3) in \<open>auto simp: room_def\<close>)
  have "room ps1 (Suc 0) 0" by (rule read_core_room [OF 1(2)]) (use assms(3) in \<open>simp add: room_def\<close>)
  then obtain ps2 where 2: "leaf (\<lambda>n. n\<lparr>jtype := JSON_STRING, offset := off, jlength := len, inScratch := scr\<rparr>) ps1
      = Some (Some (int (nodeCount (doc ps1))), ps2)" "read_core ps1 ps2 1 0 0"
    "\<forall>i < nodeCount (doc ps1). nodes (doc ps2) ! i = nodes (doc ps1) ! i"
    "nodeAt (doc ps2) (int (nodeCount (doc ps1))) = clearNode\<lparr>jtype := JSON_STRING, offset := off, jlength := len, inScratch := scr\<rparr>"
    "in_use (doc ps2) (nodeCount (doc ps1)) (int (nodeCount (doc ps1)))"
    by (rule leaf_reads)
  have c: "read_core ps ps2 1 (needs s) (length (quotedText s))"
    using read_core_trans [OF 1(2) 2(2)] by (simp add: read_core_def quotedText_def)
  have "stable (doc ps1) (doc ps2) (nodeCount (doc ps1))" using 2(2) by (auto simp: stable_def read_core_def)
  then have "view_ok (doc ps2) (clearNode\<lparr>jtype := JSON_STRING, offset := off, jlength := len, inScratch := scr\<rparr>) s"
    using viewOf_stable 1(4) by blast
  then have "value_read ps ps2 (int (nodeCount (doc ps1))) (JStr s)"
    using 1(2,3) 2(3-5) by (simp add: value_read_def read_core_def)
  then show ?thesis using that c 1(1) 2(1) by (simp add: parseString_def)
qed

section \<open>The loops\<close>

definition linked :: "JsonRef \<Rightarrow> JsonRef \<Rightarrow> JsonRef \<Rightarrow> 'f JsonNode list \<Rightarrow> 'f JsonNode list" where
  "linked owner tail e ns =
    (if tail < 0 then ns[nat owner := (ns ! nat owner)\<lparr>child := e\<rparr>] else ns[nat tail := (ns ! nat tail)\<lparr>sibling := e\<rparr>])"

lemma linkNode_nodes: "nodes (doc (linkNode owner tail e ps)) = linked owner tail e (nodes (doc ps))"
  by (simp add: linkNode_def linked_def)

lemma linkNode_core: "read_core ps (linkNode owner tail e ps) 0 0 0"
  by (simp add: read_core_def linkNode_def)

lemma linked_cong:
  assumes "length ns' = length ns" "c \<le> length ns" "\<forall>j < c. ns' ! j = ns ! j" "0 \<le> owner" "owner < int c" "tail < int c" "i < c"
  shows "linked owner tail e ns' ! i = linked owner tail e ns ! i"
  using assms by (auto simp: linked_def nth_list_update)

lemma linked_above:
  assumes "c \<le> i" "0 \<le> owner" "owner < int c" "tail < int c"
  shows "linked owner tail e ns ! i = ns ! i"
  using assms by (auto simp: linked_def nth_list_update)

lemma linked_length [simp]: "length (linked owner tail e ns) = length ns"
  by (simp add: linked_def)

text \<open>What both loops do with the result of the parser of a value.\<close>

definition afterValue ::
  "JsonRef \<Rightarrow> u8 \<Rightarrow> (JsonRef \<Rightarrow> 'f Parser \<Rightarrow> (JsonRef, 'f) parsed) \<Rightarrow> JsonRef \<Rightarrow> JsonRef \<Rightarrow>
   (JsonRef, 'f) parsed \<Rightarrow> (JsonRef, 'f) parsed"
where
  "afterValue owner close loop tail e res = Option.bind res
     (\<lambda>(r, ps). case r of
        None \<Rightarrow> Some (jfail ps)
      | Some v \<Rightarrow>
          let ps = skipWs (linkNode owner tail e (setNode e (\<lambda>n. n\<lparr>child := v\<rparr>) ps)) in
          if cur ps = ch_comma then loop e (adv ps)
          else if cur ps = close then Some (Some owner, adv ps)
          else Some (jfail ps))"

lemma element_reads:
  assumes rd: "reads num value v"
    and d: "drop (pos ps) (src (doc ps)) = render num v @ x # rest" "ends_value (x # rest)"
    and rm: "room ps (cells v) (space v)"
    and c: "nodeCount (doc ps) = Suc c" "0 \<le> owner" "owner < int c" "tail < int c"
  obtains ps3 where
    "\<forall>close loop. afterValue owner close loop tail (int c) (value ps) =
       (if x = ch_comma then loop (int c) (adv ps3) else if x = close then Some (Some owner, adv ps3) else Some (jfail ps3))"
    "read_core ps ps3 (cells v) (space v) (length (render num v))"
    "drop (pos (adv ps3)) (src (doc (adv ps3))) = rest"
    "\<forall>i < c. nodes (doc ps3) ! i = linked owner tail (int c) (nodes (doc ps)) ! i"
    "nodes (doc ps3) ! c = (nodes (doc ps) ! c)\<lparr>child := child (nodes (doc ps3) ! c)\<rparr>"
    "holds (doc ps3) (Suc c) (child (nodes (doc ps3) ! c)) v"
proof -
  obtain r ps2 where v: "value ps = Some (Some r, ps2)" "read_core ps ps2 (cells v) (space v) (length (render num v))"
    and "value_read ps ps2 r v"
    using rd[unfolded reads_def] d rm by blast
  then have n2: "\<forall>i \<le> c. nodes (doc ps2) ! i = nodes (doc ps) ! i" and h: "holds (doc ps2) (Suc c) r v"
    using c(1) by (auto simp: value_read_def)
  define ps3 where "ps3 = linkNode owner tail (int c) (setNode (int c) (\<lambda>n. n\<lparr>child := r\<rparr>) ps2)"
  have c3: "read_core ps ps3 (cells v) (space v) (length (render num v))"
    using v(2) by (simp add: read_core_def ps3_def linkNode_def)
  have n3: "nodes (doc ps3) = linked owner tail (int c) ((nodes (doc ps2))[c := (nodes (doc ps2) ! c)\<lparr>child := r\<rparr>])"
    by (simp add: ps3_def linkNode_nodes)
  have len: "c < length (nodes (doc ps2))" "length (nodes (doc ps2)) = length (nodes (doc ps))"
    using v(2) rm c(1) by (auto simp: read_core_def room_def)
  have rest: "drop (pos ps3) (src (doc ps3)) = x # rest" by (rule read_core_skip [OF c3 d(1)]) simp
  moreover have "starts x" using d(2) by (auto simp: starts_def ends_value_def)
  ultimately have skip: "skipWs ps3 = ps3" "cur ps3 = x" by (auto intro: skipWs_starts cur_hd)
  have at_c: "nodes (doc ps3) ! c = (nodes (doc ps) ! c)\<lparr>child := r\<rparr>"
    using c n2 len by (simp add: n3 linked_above [of c c])
  have "stable (doc ps2) (doc ps3) (Suc c)"
    using c by (auto simp: stable_def ps3_def [symmetric] n3 linked_above [of c])
      (simp_all add: ps3_def linkNode_def)
  then have "holds (doc ps3) (Suc c) (child (nodes (doc ps3) ! c)) v" using holds_stable(1) h at_c by fastforce
  moreover have "\<forall>i < c. nodes (doc ps3) ! i = linked owner tail (int c) (nodes (doc ps)) ! i"
  proof (intro allI impI)
    fix i assume "i < c"
    with c n2 len show "nodes (doc ps3) ! i = linked owner tail (int c) (nodes (doc ps)) ! i"
      unfolding n3 by (intro linked_cong) simp_all
  qed
  moreover have "drop (pos (adv ps3)) (src (doc (adv ps3))) = rest" using drop_next(2) [OF rest] by simp
  ultimately show ?thesis
    using that [of ps3] c3 at_c v(1) skip by (simp add: afterValue_def ps3_def [symmetric])
qed

text \<open>The contract of a loop over items that are a head (a key, or nothing) and a value.\<close>

fun holdsItems :: "('f JsonDoc \<Rightarrow> 'f JsonNode \<Rightarrow> 'i \<Rightarrow> bool) \<Rightarrow> ('i \<Rightarrow> 'f jval) \<Rightarrow> 'f JsonDoc \<Rightarrow> nat \<Rightarrow> JsonRef \<Rightarrow> 'i list \<Rightarrow> bool" where
  "holdsItems key val d lo e [] = (e < 0)"
| "holdsItems key val d lo e (i # is) =
     (in_use d lo e \<and> key d (nodeAt d e) i \<and> holds d lo (child (nodeAt d e)) (val i) \<and>
      holdsItems key val d lo (sibling (nodeAt d e)) is)"

lemma holdsItems_lower: "lo' \<le> lo \<Longrightarrow> holdsItems key val d lo e is \<Longrightarrow> holdsItems key val d lo' e is"
  by (induction "is" arbitrary: e) (auto intro: in_use_lower holds_lower(1))

lemma holdsItems_List: "holdsItems (\<lambda>_ _ _. True) (\<lambda>v. v) d lo e vs = holdsList d lo e vs"
  by (induction vs arbitrary: e) simp_all

lemma holdsItems_Members: "holdsItems (\<lambda>d n i. view_ok d n (fst i)) snd d lo e ms = holdsMembers d lo e ms"
proof (induction ms arbitrary: e)
  case (Cons m ms)
  then show ?case by (cases m) simp
qed simp

definition itemText :: "('f \<Rightarrow> u8 list) \<Rightarrow> ('i \<Rightarrow> u8 list) \<Rightarrow> ('i \<Rightarrow> 'f jval) \<Rightarrow> 'i \<Rightarrow> u8 list" where
  "itemText num front val i = front i @ render num (val i)"

fun tailText :: "('f \<Rightarrow> u8 list) \<Rightarrow> ('i \<Rightarrow> u8 list) \<Rightarrow> ('i \<Rightarrow> 'f jval) \<Rightarrow> 'i list \<Rightarrow> u8 list" where
  "tailText num front val [] = []"
| "tailText num front val (i # is) = ch_comma # itemText num front val i @ tailText num front val is"

locale item_loop =
  fixes num :: "'f::zero \<Rightarrow> u8 list"
    and "value" :: "'f Parser \<Rightarrow> (JsonRef, 'f) parsed"
    and loop :: "JsonRef \<Rightarrow> 'f Parser \<Rightarrow> (JsonRef, 'f) parsed"
    and owner :: JsonRef and close :: u8
    and front :: "'i \<Rightarrow> u8 list" and extra :: "'i \<Rightarrow> nat" and good :: "'i \<Rightarrow> bool"
    and key :: "'f JsonDoc \<Rightarrow> 'f JsonNode \<Rightarrow> 'i \<Rightarrow> bool" and val :: "'i \<Rightarrow> 'f jval"
  assumes enter: "good i \<Longrightarrow> drop (pos ps) (src (doc ps)) = front i @ rest \<Longrightarrow> room ps (Suc n) (extra i + k) \<Longrightarrow>
      \<exists>ps1 nd. loop tail ps = afterValue owner close loop tail (int (nodeCount (doc ps))) (value ps1) \<and>
        read_core ps ps1 1 (extra i) (length (front i)) \<and> nodes (doc ps1) = (nodes (doc ps))[nodeCount (doc ps) := nd] \<and>
        sibling nd = - 1 \<and> key (doc ps1) nd i"
    and key_stable: "key d nd i \<Longrightarrow> stable d d' lo \<Longrightarrow> key d' (nd\<lparr>child := r, sibling := s\<rparr>) i"
    and close: "close = ch_rbracket \<or> close = ch_rbrace"
begin

fun need_cells :: "'i list \<Rightarrow> nat" where
  "need_cells [] = 0"
| "need_cells (i # is) = Suc (cells (val i) + need_cells is)"

fun need_space :: "'i list \<Rightarrow> nat" where
  "need_space [] = 0"
| "need_space (i # is) = extra i + space (val i) + need_space is"

lemma step_reads:
  assumes g: "good i" "reads num value (val i)"
    and d: "drop (pos ps) (src (doc ps)) = itemText num front val i @ x # rest" "ends_value (x # rest)"
    and rm: "room ps (Suc (cells (val i)) + n) (extra i + space (val i) + k)"
    and o: "0 \<le> owner" "owner < int (nodeCount (doc ps))" "tail < int (nodeCount (doc ps))"
  obtains ps3 where
    "loop tail ps = (if x = ch_comma then loop (int (nodeCount (doc ps))) (adv ps3)
       else if x = close then Some (Some owner, adv ps3) else Some (jfail ps3))"
    "read_core ps ps3 (Suc (cells (val i))) (extra i + space (val i)) (length (itemText num front val i))"
    "drop (pos (adv ps3)) (src (doc (adv ps3))) = rest"
    "\<forall>j < nodeCount (doc ps). nodes (doc ps3) ! j = linked owner tail (int (nodeCount (doc ps))) (nodes (doc ps)) ! j"
    "sibling (nodes (doc ps3) ! nodeCount (doc ps)) = - 1"
    "\<forall>d' s. stable (doc ps3) d' (Suc (nodeCount (doc ps))) \<longrightarrow>
       nodes d' ! nodeCount (doc ps) = (nodes (doc ps3) ! nodeCount (doc ps))\<lparr>sibling := s\<rparr> \<longrightarrow>
       in_use d' (nodeCount (doc ps)) (int (nodeCount (doc ps))) \<and> key d' (nodes d' ! nodeCount (doc ps)) i \<and>
       holds d' (nodeCount (doc ps)) (child (nodes d' ! nodeCount (doc ps))) (val i)"
proof -
  let ?c = "nodeCount (doc ps)"
  have "drop (pos ps) (src (doc ps)) = front i @ (render num (val i) @ x # rest)" using d(1) by (simp add: itemText_def)
  moreover have "room ps (Suc 0) (extra i + 0)" by (rule room_less [OF rm]) simp_all
  ultimately obtain ps1 nd where 1: "loop tail ps = afterValue owner close loop tail (int ?c) (value ps1)"
    "read_core ps ps1 1 (extra i) (length (front i))" "nodes (doc ps1) = (nodes (doc ps))[?c := nd]"
    "sibling nd = - 1" "key (doc ps1) nd i"
    using enter [OF g(1)] by blast
  have d1: "drop (pos ps1) (src (doc ps1)) = render num (val i) @ x # rest"
    by (rule read_core_skip [OF 1(2), of "front i"]) (use d(1) in \<open>simp_all add: itemText_def\<close>)
  have c1: "nodeCount (doc ps1) = Suc ?c" using 1(2) by (simp add: read_core_def)
  have rm1: "room ps1 (cells (val i)) (space (val i))"
    by (rule read_core_room [OF 1(2)]) (rule room_less [OF rm]; simp)
  obtain ps3 where 3:
    "\<forall>close loop. afterValue owner close loop tail (int ?c) (value ps1) =
       (if x = ch_comma then loop (int ?c) (adv ps3) else if x = close then Some (Some owner, adv ps3) else Some (jfail ps3))"
    "read_core ps1 ps3 (cells (val i)) (space (val i)) (length (render num (val i)))"
    "drop (pos (adv ps3)) (src (doc (adv ps3))) = rest"
    "\<forall>j < ?c. nodes (doc ps3) ! j = linked owner tail (int ?c) (nodes (doc ps1)) ! j"
    "nodes (doc ps3) ! ?c = (nodes (doc ps1) ! ?c)\<lparr>child := child (nodes (doc ps3) ! ?c)\<rparr>"
    "holds (doc ps3) (Suc ?c) (child (nodes (doc ps3) ! ?c)) (val i)"
    by (rule element_reads [OF g(2) d1 d(2) rm1 c1 o])
  have read_core: "read_core ps ps3 (Suc (cells (val i))) (extra i + space (val i)) (length (itemText num front val i))"
    using read_core_trans [OF 1(2) 3(2)] by (simp add: itemText_def)
  have len: "?c < length (nodes (doc ps))" using rm by (simp add: room_def)
  have n3: "nodes (doc ps3) ! ?c = nd\<lparr>child := child (nodes (doc ps3) ! ?c)\<rparr>" using 3(5) 1(3) len by simp
  have links: "nodes (doc ps3) ! j = linked owner tail (int ?c) (nodes (doc ps)) ! j" if "j < ?c" for j
    using 3(4) that linked_cong [of "nodes (doc ps1)" "nodes (doc ps)" ?c owner tail j] 1(3) len o by simp
  have sib: "sibling (nodes (doc ps3) ! ?c) = - 1" by (subst n3) (simp add: 1(4))
  have ok: "in_use d' ?c (int ?c) \<and> key d' (nodes d' ! ?c) i \<and> holds d' ?c (child (nodes d' ! ?c)) (val i)"
    if st: "stable (doc ps3) d' (Suc ?c)" and at: "nodes d' ! ?c = (nodes (doc ps3) ! ?c)\<lparr>sibling := s\<rparr>" for d' s
  proof -
    have "Suc ?c \<le> nodeCount d'" using st read_core by (simp add: stable_def read_core_def)
    then have "in_use d' ?c (int ?c)" by (simp add: in_use_def)
    moreover have "nodes d' ! ?c = nd\<lparr>child := child (nodes (doc ps3) ! ?c), sibling := s\<rparr>" using at n3 by simp
    moreover have "stable (doc ps1) d' (nodeCount (doc ps1))" using st 3(2) by (auto simp: stable_def read_core_def)
    ultimately show ?thesis
      using key_stable [OF 1(5)] holds_stable(1) [OF st 3(6)] holds_lower(1) [of ?c "Suc ?c"] by simp
  qed
  show ?thesis using that [OF _ read_core 3(3) _ sib] ok 1(1) 3(1) links by simp
qed

lemma close_ends: "ends_value (close # rest)" "close \<noteq> ch_comma"
  using close by (auto simp: ends_value_def)

lemma loop_reads:
  assumes "\<And>j. j \<in> set (i # is) \<Longrightarrow> good j \<and> reads num value (val j)"
    "drop (pos ps) (src (doc ps)) = itemText num front val i @ tailText num front val is @ close # rest"
    "room ps (need_cells (i # is)) (need_space (i # is))"
    "0 \<le> owner" "owner < int (nodeCount (doc ps))" "tail < int (nodeCount (doc ps))"
  shows "\<exists>ps'. loop tail ps = Some (Some owner, ps') \<and>
    read_core ps ps' (need_cells (i # is)) (need_space (i # is)) (length (itemText num front val i @ tailText num front val is) + 1) \<and>
    (\<forall>j < nodeCount (doc ps). nodes (doc ps') ! j = linked owner tail (int (nodeCount (doc ps))) (nodes (doc ps)) ! j) \<and>
    holdsItems key val (doc ps') (nodeCount (doc ps)) (int (nodeCount (doc ps))) (i # is)"
  using assms
proof (induction "is" arbitrary: i ps tail)
  case (Nil i ps tail)
  let ?c = "nodeCount (doc ps)"
  have g: "good i" "reads num value (val i)" using Nil.prems(1) by simp_all
  have d: "drop (pos ps) (src (doc ps)) = itemText num front val i @ close # rest" using Nil.prems(2) by simp
  have rm: "room ps (Suc (cells (val i)) + 0) (extra i + space (val i) + 0)" using Nil.prems(3) by simp
  obtain ps3 where 3:
    "loop tail ps = (if close = ch_comma then loop (int ?c) (adv ps3)
       else if close = close then Some (Some owner, adv ps3) else Some (jfail ps3))"
    "read_core ps ps3 (Suc (cells (val i))) (extra i + space (val i)) (length (itemText num front val i))"
    "drop (pos (adv ps3)) (src (doc (adv ps3))) = rest"
    "\<forall>j < ?c. nodes (doc ps3) ! j = linked owner tail (int ?c) (nodes (doc ps)) ! j"
    "sibling (nodes (doc ps3) ! ?c) = - 1"
    "\<forall>d' s. stable (doc ps3) d' (Suc ?c) \<longrightarrow> nodes d' ! ?c = (nodes (doc ps3) ! ?c)\<lparr>sibling := s\<rparr> \<longrightarrow>
       in_use d' ?c (int ?c) \<and> key d' (nodes d' ! ?c) i \<and> holds d' ?c (child (nodes d' ! ?c)) (val i)"
    by (rule step_reads [OF g d close_ends(1) rm Nil.prems(4-6)])
  have "stable (doc ps3) (doc ps3) (Suc ?c)" by (simp add: stable_def)
  moreover have "nodes (doc ps3) ! ?c = (nodes (doc ps3) ! ?c)\<lparr>sibling := - 1\<rparr>" using 3(5) by simp
  ultimately have "holdsItems key val (doc ps3) ?c (int ?c) [i]"
    using 3(6)[rule_format, of "doc ps3" "- 1"] 3(5) by (simp add: nodeAt_def)
  moreover have "read_core ps (adv ps3) (Suc (cells (val i))) (extra i + space (val i)) (length (itemText num front val i) + 1)"
    using 3(2) by (simp add: read_core_def)
  ultimately show ?case using 3(1,4) close_ends(2) by (intro exI [of _ "adv ps3"]) simp
next
  case (Cons i2 "is" i ps tail)
  let ?c = "nodeCount (doc ps)"
  have g: "good i" "reads num value (val i)" using Cons.prems(1) by simp_all
  have d: "drop (pos ps) (src (doc ps)) = itemText num front val i @ ch_comma # itemText num front val i2 @ tailText num front val is @ close # rest"
    using Cons.prems(2) by simp
  have rm: "room ps (Suc (cells (val i)) + need_cells (i2 # is)) (extra i + space (val i) + need_space (i2 # is))"
    using Cons.prems(3) by simp
  obtain ps3 where 3:
    "loop tail ps = (if ch_comma = ch_comma then loop (int ?c) (adv ps3)
       else if ch_comma = close then Some (Some owner, adv ps3) else Some (jfail ps3))"
    "read_core ps ps3 (Suc (cells (val i))) (extra i + space (val i)) (length (itemText num front val i))"
    "drop (pos (adv ps3)) (src (doc (adv ps3))) = itemText num front val i2 @ tailText num front val is @ close # rest"
    "\<forall>j < ?c. nodes (doc ps3) ! j = linked owner tail (int ?c) (nodes (doc ps)) ! j"
    "sibling (nodes (doc ps3) ! ?c) = - 1"
    "\<forall>d' s. stable (doc ps3) d' (Suc ?c) \<longrightarrow> nodes d' ! ?c = (nodes (doc ps3) ! ?c)\<lparr>sibling := s\<rparr> \<longrightarrow>
       in_use d' ?c (int ?c) \<and> key d' (nodes d' ! ?c) i \<and> holds d' ?c (child (nodes d' ! ?c)) (val i)"
    by (rule step_reads [OF g d _ rm Cons.prems(4-6)]) (simp_all add: ends_value_def)
  let ?n = "nodeCount (doc ps3)"
  have n: "?n = ?c + Suc (cells (val i))" using 3(2) by (simp add: read_core_def)
  have a3: "read_core ps (adv ps3) (Suc (cells (val i))) (extra i + space (val i)) (length (itemText num front val i) + 1)"
    using 3(2) by (simp add: read_core_def)
  have "room (adv ps3) (need_cells (i2 # is)) (need_space (i2 # is))" by (rule read_core_room [OF a3 rm])
  then obtain ps' where r: "loop (int ?c) (adv ps3) = Some (Some owner, ps')"
    "read_core (adv ps3) ps' (need_cells (i2 # is)) (need_space (i2 # is)) (length (itemText num front val i2 @ tailText num front val is) + 1)"
    "\<forall>j < ?n. nodes (doc ps') ! j = linked owner (int ?c) (int ?n) (nodes (doc ps3)) ! j"
    "holdsItems key val (doc ps') ?n (int ?n) (i2 # is)"
    using Cons.IH [of i2 "adv ps3" "int ?c"] Cons.prems(1,4,5) 3(3) n by auto
  have len: "?c < length (nodes (doc ps3))" using rm 3(2) by (auto simp: room_def read_core_def)
  have link: "linked owner (int ?c) (int ?n) (nodes (doc ps3)) ! j =
      (if j = ?c then (nodes (doc ps3) ! ?c)\<lparr>sibling := int ?n\<rparr> else nodes (doc ps3) ! j)" for j
    using len by (simp add: linked_def nth_list_update)
  have st: "stable (doc ps3) (doc ps') (Suc ?c)" using r(2,3) link by (auto simp: stable_def read_core_def)
  have at: "nodes (doc ps') ! ?c = (nodes (doc ps3) ! ?c)\<lparr>sibling := int ?n\<rparr>" using r(3) link n by simp
  have "holdsItems key val (doc ps') ?c (int ?n) (i2 # is)"
    using holdsItems_lower [OF _ r(4), of ?c] n by simp
  then have "holdsItems key val (doc ps') ?c (int ?c) (i # i2 # is)"
    using 3(6)[rule_format, OF st at] at by (simp add: nodeAt_def)
  moreover have "\<forall>j < ?c. nodes (doc ps') ! j = linked owner tail (int ?c) (nodes (doc ps)) ! j"
    using r(3) link 3(4) n by simp
  moreover have "read_core ps ps' (need_cells (i # i2 # is)) (need_space (i # i2 # is))
      (length (itemText num front val i @ tailText num front val (i2 # is)) + 1)"
    using read_core_trans [OF a3 r(2)] by (simp add: ac_simps)
  ultimately show ?case using 3(1) r(1) by auto
qed

end

text \<open>The two loops keep the contract.\<close>

lemma arrayLoop_enters:
  assumes "room ps (Suc n) k"
  shows "\<exists>ps1 nd. arrayLoop value arr tail ps
        = afterValue arr ch_rbracket (arrayLoop value arr) tail (int (nodeCount (doc ps))) (value ps1) \<and>
      read_core ps ps1 1 0 0 \<and> nodes (doc ps1) = (nodes (doc ps))[nodeCount (doc ps) := nd] \<and> sibling nd = - 1"
proof -
  obtain ps1 where 1: "allocNode ps = (int (nodeCount (doc ps)), ps1)" "read_core ps ps1 1 0 0"
    "nodes (doc ps1) = (nodes (doc ps))[nodeCount (doc ps) := clearNode]" "nodeCount (doc ps) < length (nodes (doc ps))"
    by (rule allocNode_room [OF assms])
  have "arrayLoop value arr tail ps
      = afterValue arr ch_rbracket (arrayLoop value arr) tail (int (nodeCount (doc ps))) (value ps1)"
    using 1(1) by (simp add: arrayLoop.simps [of _ _ _ ps] afterValue_def)
  then show ?thesis using 1(2,3) by (intro exI [of _ ps1] exI [of _ clearNode]) (simp add: clearNode_def)
qed

interpretation arr: item_loop num "value" "arrayLoop value arr" arr ch_rbracket
    "\<lambda>_. []" "\<lambda>_. 0" "\<lambda>_. True" "\<lambda>_ _ _. True" "\<lambda>v. v" for num "value" arr
  by unfold_locales (use arrayLoop_enters in auto)

lemma objectLoop_enters:
  assumes k: "0 \<notin> set k" and d: "drop (pos ps) (src (doc ps)) = (quotedText k @ [ch_colon]) @ rest"
    and rm: "room ps (Suc n) (needs k + m)"
  shows "\<exists>ps1 nd. objectLoop value obj tail ps
        = afterValue obj ch_rbrace (objectLoop value obj) tail (int (nodeCount (doc ps))) (value ps1) \<and>
      read_core ps ps1 1 (needs k) (length (quotedText k @ [ch_colon])) \<and>
      nodes (doc ps1) = (nodes (doc ps))[nodeCount (doc ps) := nd] \<and> sibling nd = - 1 \<and> view_ok (doc ps1) nd k"
proof -
  have q: "drop (pos ps) (src (doc ps)) = ch_quote # escape k @ ch_quote # ch_colon # rest" using d by (simp add: quotedText_def)
  have 1: "skipWs ps = ps" "cur ps = ch_quote" using q by (auto simp: starts_def intro: skipWs_starts cur_hd)
  have d1: "drop (pos (adv ps)) (src (doc (adv ps))) = escape k @ ch_quote # ch_colon # rest"
    using drop_next(2) [OF q] by simp
  obtain off len scr ps2 where 2: "parseStringBody (adv ps) = (Some (off, len, scr), ps2)"
    "read_core (adv ps) ps2 0 (needs k) (length (escape k) + 1)" "nodes (doc ps2) = nodes (doc (adv ps))"
    "\<And>n. view_ok (doc ps2) (n\<lparr>offset := off, jlength := len, inScratch := scr\<rparr>) k"
    by (rule string_reads [OF d1 k]) (use rm in \<open>auto simp: room_def\<close>)
  have "drop (pos ps2) (src (doc ps2)) = ch_colon # rest"
    by (rule read_core_skip [OF 2(2), of "escape k @ [ch_quote]"]) (use d1 in simp_all)
  then have 3: "skipWs ps2 = ps2" "cur ps2 = ch_colon" by (auto simp: starts_def intro: skipWs_starts cur_hd)
  have "read_core ps (adv ps2) 0 (needs k) (length (quotedText k @ [ch_colon]))" using 2(2) by (simp add: read_core_def quotedText_def)
  note c2 = this
  have "room (adv ps2) (Suc n) m" by (rule read_core_room [OF c2]) (use rm in simp)
  then obtain ps3 where 4: "allocNode (adv ps2) = (int (nodeCount (doc (adv ps2))), ps3)" "read_core (adv ps2) ps3 1 0 0"
    "nodes (doc ps3) = (nodes (doc (adv ps2)))[nodeCount (doc (adv ps2)) := clearNode]"
    "nodeCount (doc (adv ps2)) < length (nodes (doc (adv ps2)))"
    by (rule allocNode_room)
  let ?c = "nodeCount (doc ps)"
  have c: "nodeCount (doc (adv ps2)) = ?c" using c2 by (simp add: read_core_def)
  define ps4 where "ps4 = setNode (int ?c) (\<lambda>n. n\<lparr>offset := off, jlength := len, inScratch := scr\<rparr>) ps3"
  have "objectLoop value obj tail ps
      = afterValue obj ch_rbrace (objectLoop value obj) tail (int ?c) (value ps4)"
    using 1 2(1) 3 4(1) c by (simp add: objectLoop.simps [of _ _ _ ps] afterValue_def Let_def ps4_def)
  moreover have "read_core ps3 ps4 0 0 0" by (simp add: read_core_def ps4_def)
  then have "read_core ps ps4 1 (needs k) (length (quotedText k @ [ch_colon]))"
    using read_core_trans [OF read_core_trans [OF c2 4(2)]] by fastforce
  moreover have "nodes (doc ps4) = (nodes (doc ps))[?c := clearNode\<lparr>offset := off, jlength := len, inScratch := scr\<rparr>]"
    using 2(3) 4(3,4) c by (simp add: ps4_def)
  moreover have "stable (doc ps2) (doc ps4) ?c"
    using 4(2) c by (auto simp: stable_def read_core_def ps4_def)
  then have "view_ok (doc ps4) (clearNode\<lparr>offset := off, jlength := len, inScratch := scr\<rparr>) k"
    using viewOf_stable 2(4) by blast
  ultimately show ?thesis
    by (intro exI [of _ ps4] exI [of _ "clearNode\<lparr>offset := off, jlength := len, inScratch := scr\<rparr>"])
      (simp add: clearNode_def)
qed

lemma view_ok_links: "view_ok d nd k \<Longrightarrow> stable d d' lo \<Longrightarrow> view_ok d' (nd\<lparr>child := r, sibling := s\<rparr>) k"
proof -
  have "view_ok d' (nd\<lparr>child := r, sibling := s\<rparr>) k = view_ok d' nd k" by (simp add: view_ok_def viewOf_def)
  then show "view_ok d nd k \<Longrightarrow> stable d d' lo \<Longrightarrow> view_ok d' (nd\<lparr>child := r, sibling := s\<rparr>) k"
    using viewOf_stable by blast
qed

interpretation obj: item_loop num "value" "objectLoop value obj" obj ch_rbrace
    "\<lambda>i. quotedText (fst i) @ [ch_colon]" "\<lambda>i. needs (fst i)" "\<lambda>i. 0 \<notin> set (fst i)"
    "\<lambda>d n i. view_ok d n (fst i)" snd for num "value" obj
  by unfold_locales (use objectLoop_enters view_ok_links in auto)

section \<open>The parser\<close>

text \<open>The recursions over members, with the pair taken apart by projections.\<close>

lemma members_Cons:
  "cellsMembers (m # ms) = Suc (cells (snd m) + cellsMembers ms)"
  "spaceMembers (m # ms) = needs (fst m) + space (snd m) + spaceMembers ms"
  "renderMembers num b (m # ms) = sep b @ quotedText (fst m) @ ch_colon # render num (snd m) @ renderMembers num True ms"
  "writableMembers good (m # ms) \<longleftrightarrow> 0 \<notin> set (fst m) \<and> writable good (snd m) \<and> writableMembers good ms"
  "heightMembers (m # ms) = max (height (snd m)) (heightMembers ms)"
  by (cases m; simp)+

lemma measures_arr: "arr.need_cells vs = cellsList vs" "arr.need_space vs = spaceList vs"
  by (induction vs) simp_all

lemma measures_obj: "obj.need_cells ms = cellsMembers ms" "obj.need_space ms = spaceMembers ms"
  by (induction ms) (simp_all add: members_Cons)

lemma text_arr: "renderList num True vs = tailText num (\<lambda>_. []) (\<lambda>v. v) vs"
  by (induction vs) (simp_all add: itemText_def sep_def)

lemma text_obj: "renderMembers num True ms = tailText num (\<lambda>i. quotedText (fst i) @ [ch_colon]) snd ms"
  by (induction ms) (simp_all add: itemText_def sep_def members_Cons)

lemma writable_arr: "writableList good vs \<longleftrightarrow> (\<forall>v \<in> set vs. writable good v)"
  by (induction vs) simp_all

lemma writable_obj: "writableMembers good ms \<longleftrightarrow> (\<forall>i \<in> set ms. 0 \<notin> set (fst i) \<and> writable good (snd i))"
  by (induction ms) (simp_all add: members_Cons)

lemma height_arr: "v \<in> set vs \<Longrightarrow> height v \<le> heightList vs"
  by (induction vs) (auto simp: le_max_iff_disj)

lemma height_obj: "i \<in> set ms \<Longrightarrow> height (snd i) \<le> heightMembers ms"
  by (induction ms) (auto simp: le_max_iff_disj members_Cons)

text \<open>The first byte of a value is neither white space nor a closing bracket.\<close>

lemma render_starts:
  assumes "writable (read_back strtod text) v"
  obtains c t where "render (the \<circ> text) v = c # t" "starts c" "c \<noteq> ch_rbracket"
proof (cases v)
  case (JNum x)
  then obtain t where "text x = Some t" "t \<noteq> []" "starts (hd t)" "hd t \<noteq> ch_rbracket"
    using assms by (auto simp: read_back_def number_ok_def Let_def)
  then show ?thesis using that [of "hd t" "tl t"] JNum by simp
next
  case (JBool b)
  then show ?thesis using that [of "if b then 116 else 102"] by (cases b) (simp_all add: starts_def)
qed (use that in \<open>auto simp: starts_def quotedText_def\<close>)

lemma writable_mono: "(\<And>x. good x \<Longrightarrow> good' x) \<Longrightarrow> writable good v \<Longrightarrow> writable good' v"
  by (induction v) (auto simp: writable_arr writable_obj snds.simps)

text \<open>A container: its node, then nothing or the loop.\<close>

lemma container_reads:
  assumes d: "drop (pos ps) (src (doc ps)) = opening # body @ close # rest" "body \<noteq> [] \<longrightarrow> starts (hd body) \<and> hd body \<noteq> close"
    "starts close"
    and rm: "room ps (Suc n) k"
    and f: "\<And>n. child (f n) = child n"
    and loop: "body \<noteq> [] \<Longrightarrow> (\<And>ps2. drop (pos ps2) (src (doc ps2)) = body @ close # rest \<Longrightarrow> room ps2 n k \<Longrightarrow>
      nodeCount (doc ps2) = Suc (nodeCount (doc ps)) \<Longrightarrow>
      \<exists>ps'. loop (int (nodeCount (doc ps))) (- 1) ps2 = Some (Some (int (nodeCount (doc ps))), ps') \<and>
        read_core ps2 ps' n k (length body + 1) \<and>
        (\<forall>j < Suc (nodeCount (doc ps)). nodes (doc ps') ! j =
           linked (int (nodeCount (doc ps))) (- 1) (int (Suc (nodeCount (doc ps)))) (nodes (doc ps2)) ! j) \<and>
        H (doc ps') (Suc (nodeCount (doc ps))) (int (Suc (nodeCount (doc ps)))))"
    and empty: "body = [] \<Longrightarrow> n = 0 \<and> k = 0 \<and> (\<forall>d lo. H d lo (- 1))"
  shows "\<exists>ps'. (let (v, ps) = allocNode ps in
       if v < 0 then Some (jfail ps)
       else let ps = skipWs (adv (setNode v f ps)) in
         if cur ps = close then Some (Some v, adv ps) else loop v (- 1) ps)
      = Some (Some (int (nodeCount (doc ps))), ps') \<and> read_core ps ps' (Suc n) k (length body + 2) \<and>
    (\<forall>i < nodeCount (doc ps). nodes (doc ps') ! i = nodes (doc ps) ! i) \<and>
    in_use (doc ps') (nodeCount (doc ps)) (int (nodeCount (doc ps))) \<and>
    (\<exists>e. nodes (doc ps') ! nodeCount (doc ps) = (f clearNode)\<lparr>child := e\<rparr> \<and> H (doc ps') (Suc (nodeCount (doc ps))) e)"
proof -
  let ?c = "nodeCount (doc ps)"
  obtain ps1 where 1: "allocNode ps = (int ?c, ps1)" "read_core ps ps1 1 0 0"
    "nodes (doc ps1) = (nodes (doc ps))[?c := clearNode]" "?c < length (nodes (doc ps))"
    by (rule allocNode_room [OF rm])
  define ps2 where "ps2 = adv (setNode (int ?c) f ps1)"
  have c2: "read_core ps ps2 1 0 1" using 1(2) by (simp add: read_core_def ps2_def)
  have n2: "nodes (doc ps2) = (nodes (doc ps))[?c := f clearNode]" using 1(3,4) by (simp add: ps2_def)
  have d2: "drop (pos ps2) (src (doc ps2)) = body @ close # rest"
    by (rule read_core_skip [OF c2, of "[opening]"]) (use d(1) in simp_all)
  obtain x r where x: "body @ close # rest = x # r" "starts x" "x = close \<longleftrightarrow> body = []"
    using d(2,3) by (cases body) auto
  then have s2: "skipWs ps2 = ps2" "cur ps2 = x" using d2 by (auto intro: skipWs_starts cur_hd)
  show ?thesis
  proof (cases "body = []")
    case True
    have "read_core ps (adv ps2) (Suc n) k (length body + 2)" using c2 empty [OF True] True by (simp add: read_core_def)
    moreover have "in_use (doc (adv ps2)) ?c (int ?c)" using c2 by (simp add: read_core_def in_use_def)
    moreover have "f clearNode = (f clearNode)\<lparr>child := - 1\<rparr>" using f [of clearNode] by (simp add: clearNode_def)
    ultimately show ?thesis
      using 1(1,4) s2 x(3) True n2 empty [OF True]
      by (intro exI [of _ "adv ps2"]) (auto simp: ps2_def [symmetric] Let_def intro!: exI [of _ "- 1"])
  next
    case False
    have "room ps2 n k" using read_core_room [OF c2, of n k] rm by simp
    then obtain ps' where p: "loop (int ?c) (- 1) ps2 = Some (Some (int ?c), ps')" "read_core ps2 ps' n k (length body + 1)"
      "\<forall>j < Suc ?c. nodes (doc ps') ! j = linked (int ?c) (- 1) (int (Suc ?c)) (nodes (doc ps2)) ! j"
      "H (doc ps') (Suc ?c) (int (Suc ?c))"
      using loop [OF False d2] c2 by (auto simp: read_core_def)
    have "read_core ps ps' (Suc n) k (length body + 2)" using read_core_trans [OF c2 p(2)] by simp
    moreover have "in_use (doc ps') ?c (int ?c)" using c2 p(2) by (simp add: read_core_def in_use_def)
    moreover have "nodes (doc ps') ! ?c = (f clearNode)\<lparr>child := int (Suc ?c)\<rparr>"
      using p(3) n2 1(4) by (simp add: linked_def)
    moreover have "\<forall>i < ?c. nodes (doc ps') ! i = nodes (doc ps) ! i" using p(3) n2 by (simp add: linked_def)
    ultimately show ?thesis
      using 1(1) s2 x(3) False p(1,4) by (intro exI [of _ ps']) (auto simp: ps2_def [symmetric] Let_def)
  qed
qed

lemma array_reads:
  fixes ps :: "'f::zero Parser"
  assumes "\<And>v. v \<in> set vs \<Longrightarrow> reads num value v" "\<And>v. v \<in> set vs \<Longrightarrow> \<exists>c t. render num v = c # t \<and> starts c \<and> c \<noteq> ch_rbracket"
    "drop (pos ps) (src (doc ps)) = render num (JArr vs) @ rest" "room ps (cells (JArr vs)) (space (JArr vs))"
  shows "\<exists>ps'. parseArray value ps = Some (Some (int (nodeCount (doc ps))), ps') \<and>
    read_core ps ps' (cells (JArr vs)) (space (JArr vs)) (length (render num (JArr vs))) \<and>
    value_read ps ps' (int (nodeCount (doc ps))) (JArr vs)"
proof -
  let ?c = "nodeCount (doc ps)" and ?body = "renderList num False vs"
  have "\<exists>ps'. parseArray value ps = Some (Some (int ?c), ps') \<and> read_core ps ps' (Suc (cellsList vs)) (spaceList vs) (length ?body + 2) \<and>
    (\<forall>i < ?c. nodes (doc ps') ! i = nodes (doc ps) ! i) \<and> in_use (doc ps') ?c (int ?c) \<and>
    (\<exists>e. nodes (doc ps') ! ?c = (clearNode\<lparr>jtype := JSON_ARRAY\<rparr>)\<lparr>child := e\<rparr> \<and> holdsList (doc ps') (Suc ?c) e vs)"
    unfolding parseArray_def
  proof (rule container_reads [where loop = "\<lambda>v. arrayLoop value v" and H = "\<lambda>d lo e. holdsList d lo e vs"])
    show "drop (pos ps) (src (doc ps)) = ch_lbracket # ?body @ ch_rbracket # rest" using assms(3) by simp
    show "?body \<noteq> [] \<longrightarrow> starts (hd ?body) \<and> hd ?body \<noteq> ch_rbracket"
      using assms(2) by (cases vs) (fastforce simp: sep_def)+
    show "starts ch_rbracket" by (simp add: starts_def)
    show "room ps (Suc (cellsList vs)) (spaceList vs)" using assms(4) by simp
    show "cellsList vs = 0 \<and> spaceList vs = 0 \<and> (\<forall>(d :: 'f JsonDoc) lo. holdsList d lo (- 1) vs)" if "?body = []"
    proof -
      have "vs = []" using that assms(2) by (cases vs) fastforce+
      then show ?thesis by simp
    qed
  next
    fix ps2 :: "'f Parser"
    assume body: "?body \<noteq> []" and ps2: "drop (pos ps2) (src (doc ps2)) = ?body @ ch_rbracket # rest"
      "room ps2 (cellsList vs) (spaceList vs)" "nodeCount (doc ps2) = Suc ?c"
    obtain v0 vs' where vs: "vs = v0 # vs'" using body by (cases vs) auto
    show "\<exists>ps'. arrayLoop value (int ?c) (- 1) ps2 = Some (Some (int ?c), ps') \<and>
        read_core ps2 ps' (cellsList vs) (spaceList vs) (length ?body + 1) \<and>
        (\<forall>j < Suc ?c. nodes (doc ps') ! j = linked (int ?c) (- 1) (int (Suc ?c)) (nodes (doc ps2)) ! j) \<and>
        holdsList (doc ps') (Suc ?c) (int (Suc ?c)) vs"
      using arr.loop_reads [of v0 vs' num "value" ps2 rest "int ?c" "- 1"] assms(1) ps2
      unfolding measures_arr holdsItems_List vs by (simp add: text_arr itemText_def sep_def)
  qed (use assms in auto)
  then show ?thesis
    using holds_lower(2) [of ?c "Suc ?c"] by (auto simp: value_read_def nodeAt_def)
qed

lemma object_reads:
  fixes ps :: "'f::zero Parser"
  assumes "\<And>i. i \<in> set ms \<Longrightarrow> 0 \<notin> set (fst i) \<and> reads num value (snd i)"
    "drop (pos ps) (src (doc ps)) = render num (JObj ms) @ rest" "room ps (cells (JObj ms)) (space (JObj ms))"
  shows "\<exists>ps'. parseObject value ps = Some (Some (int (nodeCount (doc ps))), ps') \<and>
    read_core ps ps' (cells (JObj ms)) (space (JObj ms)) (length (render num (JObj ms))) \<and>
    value_read ps ps' (int (nodeCount (doc ps))) (JObj ms)"
proof -
  let ?c = "nodeCount (doc ps)" and ?body = "renderMembers num False ms"
  have "\<exists>ps'. parseObject value ps = Some (Some (int ?c), ps') \<and> read_core ps ps' (Suc (cellsMembers ms)) (spaceMembers ms) (length ?body + 2) \<and>
    (\<forall>i < ?c. nodes (doc ps') ! i = nodes (doc ps) ! i) \<and> in_use (doc ps') ?c (int ?c) \<and>
    (\<exists>e. nodes (doc ps') ! ?c = (clearNode\<lparr>jtype := JSON_OBJECT\<rparr>)\<lparr>child := e\<rparr> \<and> holdsMembers (doc ps') (Suc ?c) e ms)"
    unfolding parseObject_def
  proof (rule container_reads [where loop = "\<lambda>v. objectLoop value v" and H = "\<lambda>d lo e. holdsMembers d lo e ms"])
    show "drop (pos ps) (src (doc ps)) = ch_lbrace # ?body @ ch_rbrace # rest" using assms(2) by simp
    show "?body \<noteq> [] \<longrightarrow> starts (hd ?body) \<and> hd ?body \<noteq> ch_rbrace"
      by (cases ms) (auto simp: members_Cons sep_def quotedText_def starts_def)
    show "starts ch_rbrace" by (simp add: starts_def)
    show "room ps (Suc (cellsMembers ms)) (spaceMembers ms)" using assms(3) by simp
    show "cellsMembers ms = 0 \<and> spaceMembers ms = 0 \<and> (\<forall>(d :: 'f JsonDoc) lo. holdsMembers d lo (- 1) ms)" if "?body = []"
    proof -
      have "ms = []" using that by (cases ms) (simp_all add: members_Cons quotedText_def)
      then show ?thesis by simp
    qed
  next
    fix ps2 :: "'f Parser"
    assume body: "?body \<noteq> []" and ps2: "drop (pos ps2) (src (doc ps2)) = ?body @ ch_rbrace # rest"
      "room ps2 (cellsMembers ms) (spaceMembers ms)" "nodeCount (doc ps2) = Suc ?c"
    obtain m0 ms' where ms: "ms = m0 # ms'" using body by (cases ms) auto
    show "\<exists>ps'. objectLoop value (int ?c) (- 1) ps2 = Some (Some (int ?c), ps') \<and>
        read_core ps2 ps' (cellsMembers ms) (spaceMembers ms) (length ?body + 1) \<and>
        (\<forall>j < Suc ?c. nodes (doc ps') ! j = linked (int ?c) (- 1) (int (Suc ?c)) (nodes (doc ps2)) ! j) \<and>
        holdsMembers (doc ps') (Suc ?c) (int (Suc ?c)) ms"
      using obj.loop_reads [of m0 ms' num "value" ps2 rest "int ?c" "- 1"] assms(1) ps2
      unfolding measures_obj holdsItems_Members ms by (simp add: text_obj itemText_def sep_def members_Cons)
  qed (use assms in auto)
  then show ?thesis
    using holds_lower(3) [of ?c "Suc ?c"] by (auto simp: value_read_def nodeAt_def)
qed

lemma parseValue_unfold:
  assumes "depth \<le> JSON_MAX_DEPTH" "drop (pos ps) (src (doc ps)) = c # t" "starts c"
  shows "parseValue strtod depth ps =
    (if c = ch_lbrace then parseObject (\<lambda>ps. parseValue strtod (depth + 1) ps) ps
     else if c = ch_lbracket then parseArray (\<lambda>ps. parseValue strtod (depth + 1) ps) ps
     else if c = ch_quote then parseString ps
     else if c = ch_t then literal txt_true JSON_TRUE ps
     else if c = ch_f then literal txt_false JSON_FALSE ps
     else if c = ch_n then literal txt_null JSON_NULL ps
     else parseNumber strtod ps)"
  using assms skipWs_starts [OF assms(2,3)] cur_hd [OF assms(2)] by (simp add: parseValue.simps [of strtod depth ps] Let_def)

theorem parseValue_reads:
  assumes "writable (read_back strtod text) v" "depth + height v \<le> JSON_MAX_DEPTH"
  shows "reads (the \<circ> text) (parseValue strtod depth) v"
  using assms
proof (induction v arbitrary: depth)
  case (JArr vs)
  have "reads (the \<circ> text) (parseValue strtod (depth + 1)) v" if "v \<in> set vs" for v
    by (rule JArr.IH [OF that]) (use JArr.prems that height_arr [OF that] in \<open>auto simp: writable_arr\<close>)
  moreover have "\<exists>c t. render (the \<circ> text) v = c # t \<and> starts c \<and> c \<noteq> ch_rbracket" if "v \<in> set vs" for v
  proof -
    have "writable (read_back strtod text) v" using JArr.prems(1) that by (simp add: writable_arr)
    then show ?thesis by (rule render_starts) blast
  qed
  note items = calculation this
  show ?case
    unfolding reads_def
  proof (intro allI impI)
    fix ps :: "'a Parser" and rest
    assume d: "drop (pos ps) (src (doc ps)) = render (the \<circ> text) (JArr vs) @ rest" and rm: "room ps (cells (JArr vs)) (space (JArr vs))"
    have "parseValue strtod depth ps = parseArray (\<lambda>ps. parseValue strtod (depth + 1) ps) ps"
      using parseValue_unfold [of depth ps ch_lbracket "renderList (the \<circ> text) False vs @ ch_rbracket # rest"] JArr.prems(2) d
      by (simp add: starts_def)
    then show "\<exists>r ps'. parseValue strtod depth ps = Some (Some r, ps') \<and>
        read_core ps ps' (cells (JArr vs)) (space (JArr vs)) (length (render (the \<circ> text) (JArr vs))) \<and> value_read ps ps' r (JArr vs)"
      using array_reads [OF items d rm] by metis
  qed
next
  case (JObj ms)
  have "0 \<notin> set (fst i) \<and> reads (the \<circ> text) (parseValue strtod (depth + 1)) (snd i)" if "i \<in> set ms" for i
  proof
    show "0 \<notin> set (fst i)" using JObj.prems(1) that by (simp add: writable_obj)
    show "reads (the \<circ> text) (parseValue strtod (depth + 1)) (snd i)"
      by (rule JObj.IH [OF that]) (use JObj.prems that height_obj [OF that] in \<open>auto simp: writable_obj snds.simps\<close>)
  qed
  note items = this
  show ?case
    unfolding reads_def
  proof (intro allI impI)
    fix ps :: "'a Parser" and rest
    assume d: "drop (pos ps) (src (doc ps)) = render (the \<circ> text) (JObj ms) @ rest" and rm: "room ps (cells (JObj ms)) (space (JObj ms))"
    have "parseValue strtod depth ps = parseObject (\<lambda>ps. parseValue strtod (depth + 1) ps) ps"
      using parseValue_unfold [of depth ps ch_lbrace "renderMembers (the \<circ> text) False ms @ ch_rbrace # rest"] JObj.prems(2) d
      by (simp add: starts_def)
    then show "\<exists>r ps'. parseValue strtod depth ps = Some (Some r, ps') \<and>
        read_core ps ps' (cells (JObj ms)) (space (JObj ms)) (length (render (the \<circ> text) (JObj ms))) \<and> value_read ps ps' r (JObj ms)"
      using object_reads [OF items d rm] by metis
  qed
next
  case JNull
  show ?case
    unfolding reads_def
  proof (intro allI impI)
    fix ps :: "'a Parser" and rest
    assume a: "drop (pos ps) (src (doc ps)) = render (the \<circ> text) JNull @ rest" "room ps (cells JNull) (space JNull)"
    then have d: "drop (pos ps) (src (doc ps)) = txt_null @ rest" and rm: "room ps (Suc 0) 0" by simp_all
    have "parseValue strtod depth ps = literal txt_null JSON_NULL ps"
      using parseValue_unfold [of depth ps ch_n "tl txt_null @ rest"] JNull.prems(2) d by (simp add: starts_def)
    then show "\<exists>r ps'. parseValue strtod depth ps = Some (Some r, ps') \<and>
        read_core ps ps' (cells JNull) (space JNull) (length (render (the \<circ> text) JNull)) \<and> value_read ps ps' r JNull"
      using literal_reads [OF d rm, of JSON_NULL] by (metis (no_types, lifting) value_read_def holds.simps(1) cells.simps(3) One_nat_def space.simps(4) render.simps(1))
  qed
next
  case (JBool b)
  show ?case
    unfolding reads_def
  proof (intro allI impI)
    fix ps :: "'a Parser" and rest
    assume a: "drop (pos ps) (src (doc ps)) = render (the \<circ> text) (JBool b) @ rest" "room ps (cells (JBool b)) (space (JBool b))"
    define w ty where "w = (if b then txt_true else txt_false)" and "ty = (if b then JSON_TRUE else JSON_FALSE)"
    have d: "drop (pos ps) (src (doc ps)) = w @ rest" and rm: "room ps (Suc 0) 0" using a by (simp_all add: w_def)
    have "parseValue strtod depth ps = literal w ty ps"
      using parseValue_unfold [of depth ps "hd w" "tl w @ rest"] JBool.prems(2) d
      by (cases b) (simp_all add: starts_def w_def ty_def)
    moreover obtain ps' where "literal w ty ps = Some (Some (int (nodeCount (doc ps))), ps')" "read_core ps ps' 1 0 (length w)"
      "\<forall>i < nodeCount (doc ps). nodes (doc ps') ! i = nodes (doc ps) ! i"
      "jtype (nodeAt (doc ps') (int (nodeCount (doc ps)))) = ty"
      "in_use (doc ps') (nodeCount (doc ps)) (int (nodeCount (doc ps)))"
      by (rule literal_reads [OF d rm])
    ultimately show "\<exists>r ps'. parseValue strtod depth ps = Some (Some r, ps') \<and>
        read_core ps ps' (cells (JBool b)) (space (JBool b)) (length (render (the \<circ> text) (JBool b))) \<and> value_read ps ps' r (JBool b)"
      by (simp add: value_read_def w_def ty_def)
  qed
next
  case (JNum x)
  then have g: "read_back strtod text x" by simp
  then obtain t where t: "text x = Some t" "t \<noteq> []" "starts (hd t)"
    "hd t \<notin> {ch_lbrace, ch_lbracket, ch_quote, ch_t, ch_f, ch_n, ch_rbracket}"
    "\<forall>rest. ends_value rest \<longrightarrow> strtod (t @ rest) = (x, length t)"
    by (auto simp: read_back_def number_ok_def Let_def)
  show ?case
    unfolding reads_def
  proof (intro allI impI)
    fix ps :: "'a Parser" and rest
    assume a: "drop (pos ps) (src (doc ps)) = render (the \<circ> text) (JNum x) @ rest" "ends_value rest"
      "room ps (cells (JNum x)) (space (JNum x))"
    have d: "drop (pos ps) (src (doc ps)) = t @ rest" and rm: "room ps (Suc 0) 0" using a t(1) by simp_all
    have st: "strtod (t @ rest) = (x, length t)" using t(5) a(2) by blast
    have "parseValue strtod depth ps = parseNumber strtod ps"
      using parseValue_unfold [of depth ps "hd t" "tl t @ rest"] JNum.prems(2) d t(2-4) by simp
    moreover obtain ps' where "parseNumber strtod ps = Some (Some (int (nodeCount (doc ps))), ps')" "read_core ps ps' 1 0 (length t)"
      "value_read ps ps' (int (nodeCount (doc ps))) (JNum x)"
      by (rule parseNumber_reads [of ps t rest strtod x, OF d st t(2) rm])
    ultimately show "\<exists>r ps'. parseValue strtod depth ps = Some (Some r, ps') \<and>
        read_core ps ps' (cells (JNum x)) (space (JNum x)) (length (render (the \<circ> text) (JNum x))) \<and> value_read ps ps' r (JNum x)"
      using t(1) by simp
  qed
next
  case (JStr s)
  show ?case
    unfolding reads_def
  proof (intro allI impI)
    fix ps :: "'a Parser" and rest
    assume a: "drop (pos ps) (src (doc ps)) = render (the \<circ> text) (JStr s) @ rest" "room ps (cells (JStr s)) (space (JStr s))"
    have d: "drop (pos ps) (src (doc ps)) = quotedText s @ rest" and rm: "room ps (Suc 0) (needs s)" using a by simp_all
    have z: "0 \<notin> set s" using JStr.prems(1) by simp
    have "parseValue strtod depth ps = parseString ps"
      using parseValue_unfold [of depth ps ch_quote "escape s @ ch_quote # rest"] JStr.prems(2) d by (simp add: starts_def quotedText_def)
    moreover obtain r ps' where "parseString ps = Some (Some r, ps')" "read_core ps ps' 1 (needs s) (length (quotedText s))"
      "value_read ps ps' r (JStr s)"
      by (rule parseString_reads [OF d z rm])
    ultimately show "\<exists>r ps'. parseValue strtod depth ps = Some (Some r, ps') \<and>
        read_core ps ps' (cells (JStr s)) (space (JStr s)) (length (render (the \<circ> text) (JStr s))) \<and> value_read ps ps' r (JStr s)"
      by simp
  qed
qed

section \<open>Writing and reading back\<close>

text \<open>Reading a document that holds a tree.\<close>

lemma holdsList_at:
  "holdsList d lo e vs \<Longrightarrow> j + length vs < 2 ^ 32 \<Longrightarrow> j \<le> index \<Longrightarrow> index < j + length vs \<Longrightarrow>
   \<exists>r. atFrom d index e j = Some r \<and> holds d lo r (vs ! (index - j))"
proof (induction vs arbitrary: e j)
  case (Cons v vs)
  have e: "0 \<le> e" using Cons.prems(1) by (simp add: in_use_def)
  show ?case
  proof (cases "j = index")
    case True
    then show ?thesis using Cons.prems(1) e by (simp add: atFrom.simps [of d index e])
  next
    case False
    then have "\<exists>r. atFrom d index (sibling (nodeAt d e)) (Suc j) = Some r \<and> holds d lo r (vs ! (index - Suc j))"
      using Cons.prems by (intro Cons.IH) auto
    then show ?thesis
      using e False Cons.prems(2,3) by (simp add: atFrom.simps [of d index e] nth_Cons')
  qed
qed simp

lemma holdsList_count:
  "holdsList d lo e vs \<Longrightarrow> n + length vs < 2 ^ 32 \<Longrightarrow> countFrom d e n = Some (n + length vs)"
proof (induction vs arbitrary: e n)
  case Nil
  then show ?case by (simp add: countFrom.simps [of d e])
next
  case (Cons v vs)
  then show ?case using Cons.IH [of "sibling (nodeAt d e)" "Suc n"] by (simp add: countFrom.simps [of d e] in_use_def)
qed

lemma holdsMembers_find:
  "holdsMembers d lo e ms \<Longrightarrow> map_of ms key = Some v \<Longrightarrow> \<exists>r. memberFrom d key e = Some r \<and> holds d lo r v"
proof (induction ms arbitrary: e)
  case (Cons m ms)
  then show ?case
    by (cases m) (auto simp: memberFrom.simps [of d key e] in_use_def Json_key_def view_ok_def split: if_splits)
qed simp

lemma holdsMembers_missing:
  "holdsMembers d lo e ms \<Longrightarrow> map_of ms key = None \<Longrightarrow> memberFrom d key e = Some (- 1)"
proof (induction ms arbitrary: e)
  case (Cons m ms)
  then show ?case
    by (cases m) (auto simp: memberFrom.simps [of d key e] in_use_def Json_key_def view_ok_def split: if_splits)
qed (simp add: memberFrom.simps)

text \<open>Parsing the text of a tree.\<close>

lemma Json_parse_reads:
  assumes "writable (read_back strtod text) v" "height v \<le> JSON_MAX_DEPTH" "length pool = cap" "cells v \<le> cap" "cap < 2 ^ 31"
    "space v \<le> memCap" "memCap < 2 ^ 32" "length (render (the \<circ> text) v) < 2 ^ 32"
  shows "\<exists>d. Json_parse strtod pool cap mem memCap (render (the \<circ> text) v) = Some (True, d) \<and> holds d 0 (root d) v"
proof -
  let ?tx = "render (the \<circ> text) v"
  define ps0 where "ps0 = \<lparr>doc = \<lparr>nodes = pool, nodeCap = cap, nodeCount = 0, src = ?tx, scratch = mem, scratchCap = memCap,
    scratchUsed = 0, root = - 1, ok = True\<rparr>, pos = 0\<rparr>"
  have rm: "room ps0 (cells v) (space v)" using assms(3-8) by (simp add: room_def ps0_def)
  have d: "drop (pos ps0) (src (doc ps0)) = ?tx @ []" by (simp add: ps0_def)
  have e: "ends_value []" by (simp add: ends_value_def)
  have rd: "reads (the \<circ> text) (parseValue strtod 0) v" by (rule parseValue_reads) (use assms(1,2) in auto)
  obtain r ps where p: "parseValue strtod 0 ps0 = Some (Some r, ps)" "read_core ps0 ps (cells v) (space v) (length ?tx)"
    "value_read ps0 ps r v"
    using rd[unfolded reads_def, rule_format, OF d e rm] by blast
  have src: "src (doc ps) = ?tx" "ok (doc ps)" "pos ps = length ?tx" using p(2) by (simp_all add: read_core_def ps0_def)
  have "charAt ?tx (length ?tx) = 0" by (simp add: charAt_def)
  then have skip: "skipWs ps = ps" "cur ps = 0" using src by (simp_all add: skipWs_def skipFrom.simps [of ?tx "length ?tx"] cur_def)
  have "holds (doc ps) 0 r v" using p(3) by (simp add: value_read_def ps0_def)
  moreover have "stable (doc ps) ((doc ps)\<lparr>root := r\<rparr>) 0" by (simp add: stable_def)
  ultimately have "holds ((doc ps)\<lparr>root := r\<rparr>) 0 r v" using holds_stable(1) by blast
  then show ?thesis
    using p(1) skip src(2) by (intro exI [of _ "(doc ps)\<lparr>root := r\<rparr>"]) (simp add: Json_parse_def ps0_def [symmetric] Let_def)
qed

text \<open>
C40: A tree written with the streaming builder and parsed back is the same tree.  Its strings hold no NUL,
its numbers print as text that the C library reads back, it nests at most 32 levels deep, and the buffer, the
pool and the scratch area have room for it; then every call of the builder succeeds, nothing is stored behind the
buffer, the parser accepts the text, and the document it leaves holds the tree.
\<close>

theorem Json_roundtrip:
  fixes whole lld g17
  defines "text \<equiv> numberText whole lld g17"
  assumes "writable (read_back strtod text) v" "height v \<le> JSON_MAX_DEPTH"
    and "length (render (the \<circ> text) v) < room_out" "room_out < 2 ^ 32"
    and "length pool = cap" "cells v \<le> cap" "cap < 2 ^ 31" "space v \<le> memCap" "memCap < 2 ^ 32"
  shows "\<exists>w. build (Json_numberVal whole lld g17) v (Some (JsonWriter_2 (Some out) room_out)) = (True, Some w) \<and>
    wok w \<and> wused w < room_out \<and> (\<forall>i \<ge> room_out. the (wout w) i = out i) \<and>
    (\<exists>d. Json_parse strtod pool cap mem memCap (wtext w) = Some (True, d) \<and> holds d 0 (root d) v)"
proof -
  let ?tx = "render (the \<circ> text) v" and ?w = "JsonWriter_2 (Some out) room_out"
  have good: "writable (number_ok text) v"
    using writable_mono [OF _ assms(2)] by (simp add: read_back_def)
  have w: "wfine ?w" "wtext ?w = []" "commaOf ?w = []" "wused ?w = 0" "wcap ?w = room_out" "wdepth ?w = 0"
    "the (wout ?w) = scratchPut 0 [0] out"
    using assms(4,5) by (simp_all add: JsonWriter_2_def wfine_def wtext_def commaOf_def sep_def wstore_def JSON_MAX_DEPTH_def)
  obtain w' where 1: "build (Json_numberVal whole lld g17) v (Some ?w) = (True, Some w')" "added ?tx ?w w'"
    using build_render(1) [of whole lld g17 v, folded text_def, OF good] w assms(3,4)
    unfolding emits_def by fastforce
  have "wok w'" "wused w' < room_out" "wtext w' = ?tx"
    using 1(2) w by (auto simp: added_def wfine_def)
  moreover have "\<forall>i \<ge> room_out. the (wout w') i = out i"
    using 1(2) w assms(4) by (auto simp: added_def scratchPut_def)
  moreover have "\<exists>d. Json_parse strtod pool cap mem memCap ?tx = Some (True, d) \<and> holds d 0 (root d) v"
    by (rule Json_parse_reads) (use assms in auto)
  ultimately show ?thesis using 1(1) by auto
qed

definition sample_number :: "nat \<Rightarrow> u8 list option" where
  "sample_number x = Some [48 + of_nat x]"

definition sample_strtod :: "nat strtod" where
  "sample_strtod t = (case t of [] \<Rightarrow> (0, 0) | c # _ \<Rightarrow> (unat c - 48, 1))"

definition sample_tree :: "nat jval" where
  "sample_tree = JObj [([97, 34], JArr [JNum 7, JStr [10, 98], JNull, JArr []]), ([98], JBool True)]"

theorem Json_roundtrip_witness:
  "\<exists>w. build (Json_numberVal (\<lambda>_. None) (\<lambda>_. None) sample_number) sample_tree (Some (JsonWriter_2 (Some (\<lambda>_. 0)) 64)) = (True, Some w) \<and>
    wok w \<and> wused w < 64 \<and> (\<forall>i \<ge> 64. the (wout w) i = 0) \<and>
    (\<exists>d. Json_parse sample_strtod (replicate 16 clearNode) 16 (\<lambda>_. 0) 16 (wtext w) = Some (True, d) \<and> holds d 0 (root d) sample_tree)"
proof (rule Json_roundtrip)
  have t: "numberText (\<lambda>_. None) (\<lambda>_. None) sample_number = sample_number" by (simp add: numberText_def fun_eq_iff)
  show "writable (read_back sample_strtod (numberText (\<lambda>_. None) (\<lambda>_. None) sample_number)) sample_tree"
    unfolding t by (simp add: sample_tree_def sample_number_def sample_strtod_def read_back_def number_ok_def starts_def)
  show "length (render (the \<circ> numberText (\<lambda>_. None) (\<lambda>_. None) sample_number) sample_tree) < 64"
    unfolding t by code_simp
qed (simp_all add: sample_tree_def JSON_MAX_DEPTH_def needs_def escapeOf_def)

end
