(* ===== verification/Spec2Isabelle.thy ===== *)
theory Spec2Isabelle
  imports Regex_Safety Map_Facts Set_Container Containers Sort_Radix Set_Sorted Base32 Hkdf Totp ChaCha20
    Min_Heap Calendar Json_Read
begin

text \<open>
  Verification of the vexspoke CPU library.

  The repository is a C library of self-contained parts under \<open>src/\<close>: a regular expression
  engine (\<open>regex/\<close>), containers over one shared header (\<open>struct/\<close>), results carried as values
  (\<open>exception/\<close>), hashing and array helpers (\<open>util/\<close>), and many parts that talk to the
  platform.  This development models the parts that carry logic of their own.  Machine words are
  words (\<open>u8\<close>, \<open>u32\<close>, \<open>u64\<close>); sizes are natural numbers with the wrap-around of 32 or 64 bits
  written out as \<open>wrap32\<close> and \<open>wrap64\<close>; a null pointer is \<open>None\<close>; a loop without a bound of its
  own is a partial function whose divergence is the value \<open>None\<close>.

  The storage engine is not in the repository.  In the regex part it is an \<open>arena\<close> of answers;
  in the containers it is the field \<open>answers\<close> of the record \<open>World\<close>: for each request, refused,
  or granted with arbitrary contents.  Nothing else is assumed of it.  The class mask and the
  blocks that reference keys point to are parameters for the same reason.

  Theories, in the order they build on each other.

  Prelude, Bytes, Pow2: the word types, little-endian reads and writes, block moves, and the
  arithmetic of powers of two.

  Regex_CharClass, Regex_Span, Regex_NodeList, Regex_Parser, Regex_Program, Regex_Vm, Regex: the
  functions of \<open>src/regex/\<close>, one theory per file.  Regex_Tree gives a syntax tree its set of
  matching intervals; Regex_ParserWf shows what the parser builds; Regex_Nfa, Regex_VmProof,
  Regex_RunProof and Regex_Leftmost relate emitted code, thread lists and runs to that set.
  Regex_Search and Regex_Safety hold the properties: match exactly the denotation, leftmost
  start, captures inside the match, bounded work stack, safe programs, termination.

  Memory, Try, Collection: the exhaustion counters, class widths, result codes, and the header
  with its slots.  Sequences states the interfaces \<open>bounded_buffer\<close>, \<open>lifo\<close>, \<open>fifo\<close> and
  \<open>indexed\<close> over the list of values a container holds; Stack, List_Container, Array_Container,
  Queue and Deque translate \<open>src/struct/\<close> file by file and interpret them.  Containers states
  what follows for whole runs, and two places where 32-bit arithmetic breaks the growth.

  Hash, Probing, Keys, Map_Container, Map_Facts, Set_Container: open addressing.  Probing holds
  the table with tombstones once, as the locale \<open>open_table\<close>; the map and the set interpret it.
  Map_Facts shows what insertions and removals promise, and two behaviours of the code that
  break it: tombstones that make an insertion run for ever, and equal keys with different hashes.

  Ranges, Sort, Sort_Correct, Sort_Heap, Sort_Quick, Sort_Merge, Sort_Radix: \<open>src/algo/sort.c\<close>.  Ranges holds
  the notion the in-place routines share (part of an array permuted, the rest untouched) and the
  contract of a comparator; the others translate the routines and show that they sort.  Arrays and
  Set_Sorted: \<open>src/util/arrays.c\<close> and the sorted snapshot of a set that uses it.

  Sparse_Set, Min_Heap: \<open>src/struct/sparseset.c\<close> and \<open>src/struct/minheap.c\<close>.  The sparse set is
  compared with a bounded finite map, call by call; the heap implements the locale
  \<open>priority_queue\<close>, from which its sorting follows.  Float priorities are any linear order.

  Base32, Digest, Fips180, Sha256, Sha1, Hmac, Hkdf, Crypto, Totp, ChaCha20: \<open>src/security\<close>.  Fips180 states
  the two digests of the standard on their own terms (constants computed as roots, the library's rotations, the
  recursive schedule), and the models of the code are shown to compute them.  Digest holds the
  padding, the iteration over blocks and the locale \<open>streaming_hash\<close>, the contract of a
  context that both hash functions interpret and the keyed digests rest on; uninitialised local
  contexts are parameters, and the properties say that nothing depends on them.

  Date_Time, Gregorian, Calendar: \<open>src/time/datetime.c\<close> and \<open>src/time/calendar.c\<close>.  C integers are
  \<open>int\<close> with division that rounds toward zero, and a signed overflow is \<open>None\<close>.  Gregorian counts
  days over the month lengths (the locale \<open>day_count\<close>) and shows that the chain of divisions of
  \<open>setEpochMillis\<close> inverts the count; Calendar shows the round trips, the adders and the weekday,
  and two places before the year 1 where the code leaves the calendar.

  Json, Json_Pool, Json_Writer, Json_Render, Json_Read: \<open>src/net/json.c\<close>.  Json translates the recursive
  descent and the functions that walk over a document; Json_Writer the streaming builder.  The
  scratch area and the output buffer are functions of the index, so a store behind the capacity is
  visible; \<open>strtod\<close> and the formats of \<open>snprintf\<close> are parameters.  Json_Pool shows that parsing ends
  inside the pool and leaves references that lead forward (the locale \<open>value_parser\<close>, the contract of a value
  parser that the loops over members keep), how far the scratch area is written, and that its
  declared capacity does not bound this.  Json_Render gives a tree its text and shows that the builder
  writes it; Json_Read shows that the parser reads that text back (the locale \<open>item_loop\<close>, which the
  loops over elements and members interpret).

  Not modelled: the two printers of the regex class and of the results (\<open>snprintf\<close>), the
  release of blocks, diagnostics, and the components listed as such in the manifest (platform
  input and output, threads, floating-point geometry, the Objective-C bindings).
\<close>

end
